(* ===== verification/Sena_Prelude.thy ===== *)
theory Sena_Prelude
  imports Main "HOL-Library.Word"
begin

text \<open>
  Shared vocabulary of the development: the outcome type of a fallible Rust computation,
  the checked and saturating machine arithmetic the sources use, big-endian byte strings,
  and \<open>BTreeMap\<close> as a strictly sorted association list.  The generic lemmas the component
  theories rely on are collected here.
\<close>

unbundle bit_operations_syntax

named_theorems result_simps \<open>normal forms of sequenced fallible computations\<close>
named_theorems arith_spec \<open>what checked and saturating arithmetic returns, read as naturals\<close>
named_theorems reads_rules \<open>that a reader reads an encoding back, by the structure of the reader\<close>
named_theorems accepts_rules \<open>what a reader accepts, by the structure of the reader\<close>
named_theorems bmap_spec \<open>lookup and key order of the ordered map operations\<close>

section \<open>Machine types\<close>

type_synonym u8 = "8 word"
type_synonym u32 = "32 word"
type_synonym u64 = "64 word"
type_synonym u128 = "128 word"

text \<open>
  A fixed array \<open>[u8; 32]\<close> is read as a big-endian number of that width: the derived
  lexicographic order on the array is the unsigned order on the word, and
  \<open>to_be\<close> below gives back its bytes.
\<close>

type_synonym bytes = "u8 list"
type_synonym bytes32 = "256 word"
type_synonym bytes64 = "512 word"
type_synonym bytes128 = "1024 word"

section \<open>Outcomes\<close>

text \<open>
  \<open>Result<T, E>\<close>, with a third outcome for a panic (an \<open>expect\<close>, an index out of range, or
  arithmetic overflow under the overflow checks the release profile enables).
\<close>

datatype ('e, 'a) result = Ok 'a | Err 'e | Panic

fun and_then :: "('e, 'a) result \<Rightarrow> ('a \<Rightarrow> ('e, 'b) result) \<Rightarrow> ('e, 'b) result" where
  "and_then (Ok x) f = f x"
| "and_then (Err e) f = Err e"
| "and_then Panic f = Panic"

fun map_err :: "('e \<Rightarrow> 'f) \<Rightarrow> ('e, 'a) result \<Rightarrow> ('f, 'a) result" where
  "map_err g (Ok x) = Ok x"
| "map_err g (Err e) = Err (g e)"
| "map_err g Panic = Panic"

fun ok_or :: "'a option \<Rightarrow> 'e \<Rightarrow> ('e, 'a) result" where
  "ok_or (Some x) e = Ok x"
| "ok_or None e = Err e"

text \<open>An operation that cannot fail but may panic, embedded as an outcome.\<close>

fun or_panic :: "'a option \<Rightarrow> ('e, 'a) result" where
  "or_panic (Some x) = Ok x"
| "or_panic None = Panic"

fun is_ok :: "('e, 'a) result \<Rightarrow> bool" where
  "is_ok (Ok _) = True"
| "is_ok _ = False"

lemma and_then_Ok_iff [result_simps]:
  "and_then r f = Ok y \<longleftrightarrow> (\<exists>x. r = Ok x \<and> f x = Ok y)"
  by (cases r) auto

lemma map_err_Ok_iff [result_simps]: "map_err g r = Ok x \<longleftrightarrow> r = Ok x"
  by (cases r) auto

lemma ok_or_Ok_iff [result_simps]: "ok_or v e = Ok x \<longleftrightarrow> v = Some x"
  by (cases v) auto

lemma or_panic_Ok_iff [result_simps]: "or_panic v = Ok x \<longleftrightarrow> v = Some x"
  by (cases v) auto

lemma and_then_Err_iff [result_simps]:
  "and_then x f = Err e \<longleftrightarrow> x = Err e \<or> (\<exists>v. x = Ok v \<and> f v = Err e)"
  by (cases x) auto

lemma map_err_Err_iff [result_simps]: "map_err f x = Err e \<longleftrightarrow> (\<exists>e'. x = Err e' \<and> e = f e')"
  by (cases x) auto

lemma ok_or_Err_iff [result_simps]: "ok_or v e = Err e' \<longleftrightarrow> v = None \<and> e' = e"
  by (cases v) auto

lemma or_panic_not_Err [simp]: "or_panic v \<noteq> Err e"
  by (cases v) auto

lemma ok_or_not_Panic [simp]: "ok_or v e \<noteq> Panic"
  by (cases v) auto

lemma map_err_Panic_iff [result_simps]: "map_err g r = Panic \<longleftrightarrow> r = Panic"
  by (cases r) auto

lemma and_then_Panic_iff [result_simps]:
  "and_then r f = Panic \<longleftrightarrow> r = Panic \<or> (\<exists>x. r = Ok x \<and> f x = Panic)"
  by (cases r) auto

lemma and_then_assoc:
  "and_then (and_then r f) g = and_then r (\<lambda>x. and_then (f x) g)"
  by (cases r) auto

lemma and_then_cong [fundef_cong]:
  "r = r' \<Longrightarrow> (\<And>x. r' = Ok x \<Longrightarrow> f x = f' x) \<Longrightarrow> and_then r f = and_then r' f'"
  by (cases r') auto

section \<open>Checked and saturating arithmetic\<close>

lemma unat_of_nat_small: "x < 2 ^ LENGTH('a::len) \<Longrightarrow> unat (of_nat x :: 'a word) = x"
  by (simp add: unat_of_nat)

lemma of_nat_unat_word: "of_nat (unat w) = (w :: 'a::len word)"
  by simp

definition checked_add :: "'a::len word \<Rightarrow> 'a word \<Rightarrow> 'a word option" where
  "checked_add a b = (if unat a + unat b < 2 ^ LENGTH('a) then Some (a + b) else None)"

definition checked_sub :: "'a::len word \<Rightarrow> 'a word \<Rightarrow> 'a word option" where
  "checked_sub a b = (if b \<le> a then Some (a - b) else None)"

definition checked_mul :: "'a::len word \<Rightarrow> 'a word \<Rightarrow> 'a word option" where
  "checked_mul a b = (if unat a * unat b < 2 ^ LENGTH('a) then Some (a * b) else None)"

definition saturating_add :: "'a::len word \<Rightarrow> 'a word \<Rightarrow> 'a word" where
  "saturating_add a b = (case checked_add a b of Some c \<Rightarrow> c | None \<Rightarrow> - 1)"

definition saturating_sub :: "'a::len word \<Rightarrow> 'a word \<Rightarrow> 'a word" where
  "saturating_sub a b = (if b \<le> a then a - b else 0)"

definition saturating_mul :: "'a::len word \<Rightarrow> 'a word \<Rightarrow> 'a word" where
  "saturating_mul a b = (case checked_mul a b of Some c \<Rightarrow> c | None \<Rightarrow> - 1)"

lemma unat_less_pow: "unat (a :: 'a::len word) < 2 ^ LENGTH('a)"
  by (rule unsigned_less)

lemma unat_u32_bound: "unat (n :: u32) < 4294967296"
  using unat_less_pow [of n] by simp

lemma unat_u64_bound: "unat (n :: u64) < 18446744073709551616"
  using unat_less_pow [of n] by simp

lemma checked_add_Some_iff [arith_spec]:
  "checked_add a b = Some c \<longleftrightarrow> unat c = unat a + unat b"
  for a b c :: "'a::len word"
proof
  assume "checked_add a b = Some c"
  then show "unat c = unat a + unat b"
    by (auto simp: checked_add_def unat_word_ariths split: if_splits)
next
  assume eq: "unat c = unat a + unat b"
  then have lt: "unat a + unat b < 2 ^ LENGTH('a)"
    using unat_less_pow [of c] by simp
  then have "unat (a + b) = unat c"
    using eq by (simp add: unat_word_ariths)
  then have "a + b = c"
    by (rule word_unat_eq_iff [THEN iffD2])
  then show "checked_add a b = Some c"
    using lt by (simp add: checked_add_def)
qed

lemma checked_add_None_iff [arith_spec]:
  "checked_add a b = None \<longleftrightarrow> 2 ^ LENGTH('a) \<le> unat a + unat b"
  for a b :: "'a::len word"
  by (simp add: checked_add_def not_less)

lemma checked_sub_Some_iff [arith_spec]:
  "checked_sub a b = Some c \<longleftrightarrow> unat a = unat b + unat c"
  for a b c :: "'a::len word"
proof
  assume "checked_sub a b = Some c"
  then have le: "b \<le> a" and c: "c = a - b"
    by (auto simp: checked_sub_def split: if_splits)
  then show "unat a = unat b + unat c"
    by (simp add: unat_sub word_le_nat_alt)
next
  assume eq: "unat a = unat b + unat c"
  then have le: "b \<le> a" by (simp add: word_le_nat_alt)
  then have "unat (a - b) = unat c"
    using eq by (simp add: unat_sub)
  then have "a - b = c" by (rule word_unat_eq_iff [THEN iffD2])
  then show "checked_sub a b = Some c"
    using le by (simp add: checked_sub_def)
qed

lemma checked_sub_None_iff [arith_spec]:
  "checked_sub a b = None \<longleftrightarrow> unat a < unat b"
  by (simp add: checked_sub_def word_le_nat_alt not_le)

lemma checked_mul_Some_iff [arith_spec]:
  "checked_mul a b = Some c \<longleftrightarrow> unat c = unat a * unat b"
  for a b c :: "'a::len word"
proof
  assume "checked_mul a b = Some c"
  then show "unat c = unat a * unat b"
    by (auto simp: checked_mul_def unat_word_ariths split: if_splits)
next
  assume eq: "unat c = unat a * unat b"
  then have lt: "unat a * unat b < 2 ^ LENGTH('a)"
    using unat_less_pow [of c] by simp
  then have "unat (a * b) = unat c"
    using eq by (simp add: unat_word_ariths)
  then have "a * b = c"
    by (rule word_unat_eq_iff [THEN iffD2])
  then show "checked_mul a b = Some c"
    using lt by (simp add: checked_mul_def)
qed

lemma checked_mul_None_iff [arith_spec]:
  "checked_mul a b = None \<longleftrightarrow> 2 ^ LENGTH('a) \<le> unat a * unat b"
  for a b :: "'a::len word"
  by (simp add: checked_mul_def not_less)

lemma unat_saturating_sub [arith_spec]:
  "unat (saturating_sub a b) = unat a - unat b"
  by (auto simp: saturating_sub_def unat_sub word_le_nat_alt)

lemma unat_minus_one_eq [simp]: "unat (- 1 :: 'a::len word) = 2 ^ LENGTH('a) - 1"
  by (simp add: unsigned_minus_1_eq_mask mask_eq_exp_minus_1)

lemma unat_saturating_add [arith_spec]:
  "unat (saturating_add a b) = min (unat a + unat b) (2 ^ LENGTH('a) - 1)"
  for a b :: "'a::len word"
proof (cases "checked_add a b")
  case None
  then have "2 ^ LENGTH('a) \<le> unat a + unat b" by (simp add: arith_spec)
  moreover have "0 < (2 :: nat) ^ LENGTH('a)" by simp
  ultimately have "min (unat a + unat b) (2 ^ LENGTH('a) - 1) = 2 ^ LENGTH('a) - 1"
    by linarith
  with None show ?thesis
    by (simp add: saturating_add_def)
next
  case (Some c)
  then have "unat c = unat a + unat b" by (simp add: arith_spec)
  moreover have "unat c < 2 ^ LENGTH('a)" by (rule unat_less_pow)
  ultimately have "min (unat a + unat b) (2 ^ LENGTH('a) - 1) = unat c" by linarith
  with Some show ?thesis by (simp add: saturating_add_def)
qed

lemma saturating_add_ge: "(a :: 'a::len word) \<le> saturating_add a b"
proof -
  have "unat a \<le> 2 ^ LENGTH('a) - 1" using unat_less_pow [of a] by linarith
  then show ?thesis by (simp add: word_le_nat_alt unat_saturating_add)
qed

lemma unat_min [simp]: "unat (min a b) = min (unat a) (unat b)"
  by (simp add: min_def word_le_nat_alt)

lemma unat_max [simp]: "unat (max a b) = max (unat a) (unat b)"
  by (simp add: max_def word_le_nat_alt)

section \<open>Big-endian byte strings\<close>

fun be_nat :: "bytes \<Rightarrow> nat" where
  "be_nat bs = foldl (\<lambda>acc b. acc * 256 + unat b) 0 bs"

declare be_nat.simps [simp del]

fun nat_be :: "nat \<Rightarrow> nat \<Rightarrow> bytes" where
  "nat_be 0 x = []"
| "nat_be (Suc n) x = nat_be n (x div 256) @ [of_nat x]"

text \<open>\<open>to_be_bytes\<close> of a word whose width is a whole number of bytes, and its inverse.\<close>

definition to_be :: "'a::len word \<Rightarrow> bytes" where
  "to_be w = nat_be (LENGTH('a) div 8) (unat w)"

definition from_be :: "bytes \<Rightarrow> 'a::len word" where
  "from_be bs = of_nat (be_nat bs)"

lemma be_nat_Nil [simp]: "be_nat [] = 0"
  by (simp add: be_nat.simps)

lemma be_nat_snoc [simp]: "be_nat (bs @ [b]) = be_nat bs * 256 + unat b"
  by (simp add: be_nat.simps)

lemma length_nat_be [simp]: "length (nat_be n x) = n"
  by (induction n arbitrary: x) auto

lemma length_to_be [simp]: "length (to_be (w :: 'a::len word)) = LENGTH('a) div 8"
  by (simp add: to_be_def)

lemma be_nat_bound: "be_nat bs < 256 ^ length bs"
proof (induction bs rule: rev_induct)
  case (snoc b bs)
  have "unat b < 256" using unat_less_pow [of b] by simp
  then have "be_nat bs * 256 + unat b < Suc (be_nat bs) * 256" by simp
  also have "\<dots> \<le> 256 ^ length bs * 256"
    using snoc by (intro mult_right_mono) auto
  finally show ?case by (simp add: mult.commute)
qed simp

lemma be_nat_nat_be: "be_nat (nat_be n x) = x mod 256 ^ n"
proof (induction n arbitrary: x)
  case (Suc n)
  have "unat (of_nat x :: u8) = x mod 256"
    by (simp add: unat_of_nat)
  then show ?case
    by (simp add: Suc mod_mult2_eq mult.commute)
qed simp

lemma nat_be_be_nat: "nat_be (length bs) (be_nat bs) = bs"
proof (induction bs rule: rev_induct)
  case (snoc b bs)
  have ub: "unat b < 256" using unat_less_pow [of b] by simp
  then have "(be_nat bs * 256 + unat b) div 256 = be_nat bs" by simp
  moreover have "(of_nat (be_nat bs * 256 + unat b) :: u8) = b"
  proof -
    have "unat (of_nat (be_nat bs * 256 + unat b) :: u8) = (be_nat bs * 256 + unat b) mod 256"
      by (simp only: unat_of_nat) simp
    with ub have "unat (of_nat (be_nat bs * 256 + unat b) :: u8) = unat b" by simp
    then show ?thesis by (rule word_unat_eq_iff [THEN iffD2])
  qed
  ultimately show ?case using snoc by simp
qed simp

lemma pow_256_bytes: "n = 8 * k \<Longrightarrow> (256 :: nat) ^ k = 2 ^ n"
  by (simp add: power_mult)

lemma from_be_to_be:
  assumes "8 dvd LENGTH('a::len)"
  shows "from_be (to_be w) = (w :: 'a word)"
proof -
  have "(256 :: nat) ^ (LENGTH('a) div 8) = 2 ^ LENGTH('a)"
    using assms by (intro pow_256_bytes) simp
  then have "be_nat (to_be w) = unat w"
    by (simp add: to_be_def be_nat_nat_be)
  then show ?thesis by (simp add: from_be_def)
qed

lemma to_be_from_be:
  assumes "8 dvd LENGTH('a::len)" and "length bs = LENGTH('a) div 8"
  shows "to_be (from_be bs :: 'a word) = bs"
proof -
  have p: "(256 :: nat) ^ (LENGTH('a) div 8) = 2 ^ LENGTH('a)"
    using assms by (intro pow_256_bytes) simp
  have "be_nat bs < 2 ^ LENGTH('a)"
    using be_nat_bound [of bs] p assms(2) by simp
  then have "unat (from_be bs :: 'a word) = be_nat bs"
    by (simp add: from_be_def unat_of_nat)
  then show ?thesis
    using nat_be_be_nat [of bs] assms(2) by (simp add: to_be_def)
qed

lemma to_be_inject:
  assumes "8 dvd LENGTH('a::len)"
  shows "to_be v = to_be w \<longleftrightarrow> v = (w :: 'a word)"
  using from_be_to_be [OF assms] by metis

lemma nat_be_nth: "i < n \<Longrightarrow> nat_be n x ! i = of_nat (x div 256 ^ (n - Suc i))"
proof (induction n arbitrary: x)
  case (Suc n)
  show ?case
  proof (cases "i = n")
    case False
    with Suc.prems have i: "i < n" by simp
    then have "n - i = Suc (n - Suc i)" by simp
    then have "x div 256 div 256 ^ (n - Suc i) = x div 256 ^ (n - i)"
      by (simp add: div_mult2_eq)
    with i Suc.IH [OF i] show ?thesis by (simp add: nth_append)
  qed (simp add: nth_append)
qed simp

section \<open>Ordered maps\<close>

text \<open>
  \<open>BTreeMap<K, V>\<close> as its in-order list of entries.  Two maps with the same entries are the
  same value, and iteration is the list itself.
\<close>

type_synonym ('k, 'v) btree_map = "('k \<times> 'v) list"

definition bmap_wf :: "('k::linorder, 'v) btree_map \<Rightarrow> bool" where
  "bmap_wf m \<longleftrightarrow> sorted_wrt (<) (map fst m)"

fun bmap_get :: "('k::linorder, 'v) btree_map \<Rightarrow> 'k \<Rightarrow> 'v option" where
  "bmap_get [] k = None"
| "bmap_get ((k', v) # m) k = (if k = k' then Some v else bmap_get m k)"

fun bmap_insert :: "'k::linorder \<Rightarrow> 'v \<Rightarrow> ('k, 'v) btree_map \<Rightarrow> ('k, 'v) btree_map" where
  "bmap_insert k v [] = [(k, v)]"
| "bmap_insert k v ((k', v') # m) =
     (if k < k' then (k, v) # (k', v') # m
      else if k = k' then (k, v) # m
      else (k', v') # bmap_insert k v m)"

fun bmap_remove :: "'k::linorder \<Rightarrow> ('k, 'v) btree_map \<Rightarrow> ('k, 'v) btree_map" where
  "bmap_remove k [] = []"
| "bmap_remove k ((k', v') # m) = (if k = k' then m else (k', v') # bmap_remove k m)"

lemma bmap_wf_Nil [simp]: "bmap_wf []"
  by (simp add: bmap_wf_def)

lemma bmap_wf_Cons [simp]:
  "bmap_wf ((k, v) # m) \<longleftrightarrow> bmap_wf m \<and> (\<forall>k' \<in> fst ` set m. k < k')"
  by (auto simp: bmap_wf_def)

lemma keys_bmap_insert [simp]: "fst ` set (bmap_insert k v m) = insert k (fst ` set m)"
  by (induction k v m rule: bmap_insert.induct) auto

lemma keys_bmap_remove: "fst ` set (bmap_remove k m) \<subseteq> fst ` set m"
  by (induction k m rule: bmap_remove.induct) auto

lemma bmap_wf_insert [bmap_spec]: "bmap_wf m \<Longrightarrow> bmap_wf (bmap_insert k v m)"
proof (induction k v m rule: bmap_insert.induct)
  case (2 k v k' v' m)
  then have "\<forall>x \<in> fst ` set m. k' < x" by simp
  then have "k' < k \<Longrightarrow> \<forall>x \<in> fst ` set (bmap_insert k v m). k' < x" by simp
  with 2 show ?case by (auto simp del: keys_bmap_insert)
qed simp

lemma bmap_wf_remove [bmap_spec]: "bmap_wf m \<Longrightarrow> bmap_wf (bmap_remove k m)"
proof (induction k m rule: bmap_remove.induct)
  case (2 k k' v' m)
  then have "\<forall>x \<in> fst ` set (bmap_remove k m). k' < x"
    using keys_bmap_remove [of k m] by (meson bmap_wf_Cons subsetD)
  with 2 show ?case by auto
qed simp

lemma bmap_get_None_iff: "bmap_get m k = None \<longleftrightarrow> k \<notin> fst ` set m"
  by (induction m k rule: bmap_get.induct) auto

lemma bmap_get_insert [bmap_spec]:
  "bmap_get (bmap_insert k v m) k' = (if k' = k then Some v else bmap_get m k')"
  by (induction k v m rule: bmap_insert.induct) auto

lemma bmap_get_remove [bmap_spec]:
  "bmap_wf m \<Longrightarrow> bmap_get (bmap_remove k m) k' = (if k' = k then None else bmap_get m k')"
proof (induction k m rule: bmap_remove.induct)
  case (2 k k0 v0 m)
  then have "k0 \<notin> fst ` set m" by auto
  then have "bmap_get m k0 = None" by (simp only: bmap_get_None_iff simp_thms)
  with 2 show ?case by auto
qed simp

lemma bmap_get_mem: "bmap_wf m \<Longrightarrow> bmap_get m k = Some v \<longleftrightarrow> (k, v) \<in> set m"
proof (induction m k rule: bmap_get.induct)
  case (2 k' v' m k)
  show ?case
  proof (cases "k = k'")
    case True
    with 2 have "(k, v) \<notin> set m" by force
    with True show ?thesis by auto
  next
    case False
    with 2 show ?thesis by simp
  qed
qed simp

lemma bmap_wf_filter: "bmap_wf m \<Longrightarrow> bmap_wf (filter P m)"
  unfolding bmap_wf_def by (induction m) (auto simp: image_iff)

lemma bmap_get_filter:
  "bmap_wf m \<Longrightarrow> bmap_get (filter P m) k = (case bmap_get m k of Some v \<Rightarrow> if P (k, v) then Some v else None | None \<Rightarrow> None)"
proof (induction m)
  case (Cons e m)
  obtain k' v where e: "e = (k', v)" by (cases e)
  have "k' \<notin> fst ` set m" using Cons.prems by (auto simp: e bmap_wf_def)
  then have "bmap_get m k' = None" "bmap_get (filter P m) k' = None" by (auto simp: bmap_get_None_iff)
  with Cons show ?case by (auto simp: e bmap_wf_def split: option.splits)
qed simp

lemma bmap_ext:
  assumes "bmap_wf m" "bmap_wf m'" "\<And>k. bmap_get m k = bmap_get m' k"
  shows "m = m'"
proof -
  have "set m = set m'"
  proof (rule set_eqI)
    fix e :: "'a \<times> 'b"
    obtain k v where "e = (k, v)" by force
    with assms show "e \<in> set m \<longleftrightarrow> e \<in> set m'"
      by (simp add: bmap_get_mem [symmetric])
  qed
  then have "set (map fst m) = set (map fst m')" by simp
  with assms(1,2) have keys: "map fst m = map fst m'"
    unfolding bmap_wf_def by (intro strict_sorted_equal) simp_all
  show ?thesis
  proof (rule nth_equalityI)
    show "length m = length m'" using keys by (metis length_map)
  next
    fix i assume i: "i < length m"
    with keys have i': "i < length m'" by (metis length_map)
    have f: "fst (m ! i) = fst (m' ! i)" using keys i i' by (metis nth_map)
    have "bmap_get m (fst (m ! i)) = Some (snd (m ! i))"
      using assms(1) i by (simp add: bmap_get_mem)
    moreover have "bmap_get m' (fst (m ! i)) = Some (snd (m' ! i))"
      using assms(2) i' f by (simp add: bmap_get_mem)
    ultimately show "m ! i = m' ! i"
      using assms(3) f by (simp add: prod_eq_iff)
  qed
qed

lemma bmap_length:
  assumes "bmap_wf m"
  shows "length m = card (dom (bmap_get m))"
proof -
  have "dom (bmap_get m) = fst ` set m"
    using bmap_get_None_iff [of m] by (auto simp: dom_def)
  moreover have "distinct (map fst m)"
    using assms strict_sorted_iff by (auto simp: bmap_wf_def)
  ultimately show ?thesis by (metis distinct_card length_map list.set_map)
qed

text \<open>
  The contract of an ordered map: what a lookup returns after an update, that updates keep
  the representation invariant, and that the representation is canonical.
\<close>

locale ordered_map =
  fixes wf :: "'m \<Rightarrow> bool"
    and get :: "'m \<Rightarrow> 'k \<Rightarrow> 'v option"
    and ins :: "'k \<Rightarrow> 'v \<Rightarrow> 'm \<Rightarrow> 'm"
    and del :: "'k \<Rightarrow> 'm \<Rightarrow> 'm"
  assumes wf_ins: "wf m \<Longrightarrow> wf (ins k v m)"
    and wf_del: "wf m \<Longrightarrow> wf (del k m)"
    and get_ins: "wf m \<Longrightarrow> get (ins k v m) k' = (if k' = k then Some v else get m k')"
    and get_del: "wf m \<Longrightarrow> get (del k m) k' = (if k' = k then None else get m k')"
    and canonical: "wf m \<Longrightarrow> wf m' \<Longrightarrow> (\<And>k. get m k = get m' k) \<Longrightarrow> m = m'"
begin

lemma ins_ins_same: "wf m \<Longrightarrow> ins k v (ins k v' m) = ins k v m"
  by (rule canonical) (auto simp: wf_ins get_ins)

lemma ins_commute: "wf m \<Longrightarrow> k \<noteq> k' \<Longrightarrow> ins k v (ins k' v' m) = ins k' v' (ins k v m)"
  by (rule canonical) (auto simp: wf_ins get_ins)

lemma del_ins: "wf m \<Longrightarrow> get m k = None \<Longrightarrow> del k (ins k v m) = m"
  by (rule canonical) (auto simp: wf_ins wf_del get_ins get_del)

lemma ins_get: "wf m \<Longrightarrow> get m k = Some v \<Longrightarrow> ins k v m = m"
  by (rule canonical) (auto simp: wf_ins get_ins)

lemma del_absent: "wf m \<Longrightarrow> get m k = None \<Longrightarrow> del k m = m"
  by (rule canonical) (auto simp: wf_del get_del)

end

interpretation btree: ordered_map bmap_wf bmap_get bmap_insert bmap_remove
  by unfold_locales (auto simp: bmap_spec intro: bmap_ext)

end
