(* ===== verification/Codec.thy ===== *)
theory Codec
  imports Sena_Prelude
begin

text \<open>
  The primitives crate: the canonical binary codec (\<open>codec.rs\<close>), the length-framed
  encoder behind every commitment (\<open>encoding.rs\<close>), digests (\<open>hash.rs\<close>), addresses
  (\<open>address.rs\<close>) and social channels (\<open>identity.rs\<close>).  SHA-256 is a parameter
  \<open>H :: bytes \<Rightarrow> bytes32\<close> of every definition that hashes.
\<close>

section \<open>Decoding errors\<close>

datatype decode_error =
    Truncated
  | UnknownVariant u8
  | TrailingBytes nat
  | LengthOverflow

section \<open>Writer\<close>

text \<open>A \<open>Writer\<close> only appends, so a sequence of writes is the concatenation of these.\<close>

definition w_u8 :: "u8 \<Rightarrow> bytes" where
  "w_u8 x = [x]"

definition w_u32 :: "u32 \<Rightarrow> bytes" where
  "w_u32 x = to_be x"

definition w_u64 :: "u64 \<Rightarrow> bytes" where
  "w_u64 x = to_be x"

definition w_u128 :: "u128 \<Rightarrow> bytes" where
  "w_u128 x = to_be x"

definition w_bool :: "bool \<Rightarrow> bytes" where
  "w_bool b = w_u8 (if b then 1 else 0)"

definition w_bytes32 :: "bytes32 \<Rightarrow> bytes" where
  "w_bytes32 x = to_be x"

definition w_bytes64 :: "bytes64 \<Rightarrow> bytes" where
  "w_bytes64 x = to_be x"

definition w_bytes128 :: "bytes128 \<Rightarrow> bytes" where
  "w_bytes128 x = to_be x"

definition w_bytes :: "bytes \<Rightarrow> bytes" where
  "w_bytes bs = w_u32 (of_nat (length bs)) @ bs"

section \<open>Reader\<close>

record reader =
  rd_input :: bytes
  rd_offset :: nat

type_synonym ('e, 'a) parser_e = "reader \<Rightarrow> ('e, 'a \<times> reader) result"
type_synonym 'a parser = "(decode_error, 'a) parser_e"

definition reader_new :: "bytes \<Rightarrow> reader" where
  "reader_new bs = \<lparr>rd_input = bs, rd_offset = 0\<rparr>"

text \<open>
  \<open>take\<close>: the \<open>checked_add\<close> on the \<open>usize\<close> offset fails only beyond \<open>usize::MAX\<close>.
\<close>

definition usize_max :: nat where
  "usize_max = 2 ^ 64 - 1"

definition r_take :: "nat \<Rightarrow> bytes parser" where
  "r_take n r =
     (let stop = rd_offset r + n in
      if stop > usize_max then Err LengthOverflow
      else if stop > length (rd_input r) then Err Truncated
      else Ok (take n (drop (rd_offset r) (rd_input r)), r\<lparr>rd_offset := stop\<rparr>))"

definition r_u8 :: "u8 parser" where
  "r_u8 r =
     (if rd_offset r < length (rd_input r)
      then Ok (rd_input r ! rd_offset r, r\<lparr>rd_offset := rd_offset r + 1\<rparr>)
      else Err Truncated)"

text \<open>Sequencing of reads, and a read whose value is then converted.\<close>

definition p_bind :: "('e, 'a) parser_e \<Rightarrow> ('a \<Rightarrow> ('e, 'b) parser_e) \<Rightarrow> ('e, 'b) parser_e" where
  "p_bind p f r = and_then (p r) (\<lambda>(x, r'). f x r')"

definition p_return :: "'a \<Rightarrow> ('e, 'a) parser_e" where
  "p_return x r = Ok (x, r)"

definition p_fail :: "'e \<Rightarrow> ('e, 'a) parser_e" where
  "p_fail e r = Err e"

definition p_lift :: "('e \<Rightarrow> 'f) \<Rightarrow> ('e, 'a) parser_e \<Rightarrow> ('f, 'a) parser_e" where
  "p_lift f p r = map_err f (p r)"

definition p_result :: "('e, 'a) result \<Rightarrow> ('e, 'a) parser_e" where
  "p_result v r = and_then v (\<lambda>x. Ok (x, r))"

definition r_u32 :: "u32 parser" where
  "r_u32 = p_bind (r_take 4) (\<lambda>bs. p_return (from_be bs))"

definition r_u64 :: "u64 parser" where
  "r_u64 = p_bind (r_take 8) (\<lambda>bs. p_return (from_be bs))"

definition r_u128 :: "u128 parser" where
  "r_u128 = p_bind (r_take 16) (\<lambda>bs. p_return (from_be bs))"

definition r_bool :: "bool parser" where
  "r_bool = p_bind r_u8 (\<lambda>b.
     if b = 0 then p_return False
     else if b = 1 then p_return True
     else p_fail (UnknownVariant b))"

definition r_bytes32 :: "bytes32 parser" where
  "r_bytes32 = p_bind (r_take 32) (\<lambda>bs. p_return (from_be bs))"

definition r_bytes64 :: "bytes64 parser" where
  "r_bytes64 = p_bind (r_take 64) (\<lambda>bs. p_return (from_be bs))"

definition r_bytes128 :: "bytes128 parser" where
  "r_bytes128 = p_bind (r_take 128) (\<lambda>bs. p_return (from_be bs))"

definition r_bytes :: "bytes parser" where
  "r_bytes = p_bind r_u32 (\<lambda>len r.
     if unat len > length (rd_input r) - rd_offset r then Err LengthOverflow
     else r_take (unat len) r)"

text \<open>
  \<open>String::from_utf8_lossy\<close>.  A \<open>String\<close> is its UTF-8 bytes; \<open>utf8_chunk\<close> classifies the
  start of a non-empty input: a well-formed sequence of some length, or an ill-formed one
  whose longest valid prefix (at least one byte) becomes a single U+FFFD.
\<close>

definition cont_byte :: "u8 \<Rightarrow> bool" where
  "cont_byte b \<longleftrightarrow> 128 \<le> b \<and> b \<le> 191"

definition second_byte :: "u8 \<Rightarrow> u8 \<Rightarrow> bool" where
  "second_byte b c \<longleftrightarrow>
     (if b = 224 then 160 \<le> c \<and> c \<le> 191
      else if b = 237 then 128 \<le> c \<and> c \<le> 159
      else if b = 240 then 144 \<le> c \<and> c \<le> 191
      else if b = 244 then 128 \<le> c \<and> c \<le> 143
      else cont_byte c)"

definition utf8_width :: "u8 \<Rightarrow> nat" where
  "utf8_width b =
     (if b < 128 then 1 else if 194 \<le> b \<and> b \<le> 223 then 2 else if 224 \<le> b \<and> b \<le> 239 then 3
      else if 240 \<le> b \<and> b \<le> 244 then 4 else 0)"

fun utf8_chunk :: "bytes \<Rightarrow> bool \<times> nat" where
  "utf8_chunk [] = (True, 0)"
| "utf8_chunk (b # cs) =
     (if utf8_width b = 0 then (False, 1)
      else if utf8_width b = 1 then (True, 1)
      else case cs of
          [] \<Rightarrow> (False, 1)
        | c # ds \<Rightarrow>
            if \<not> second_byte b c then (False, 1)
            else if utf8_width b = 2 then (True, 2)
            else case ds of
                [] \<Rightarrow> (False, 2)
              | d # es \<Rightarrow>
                  if \<not> cont_byte d then (False, 2)
                  else if utf8_width b = 3 then (True, 3)
                  else case es of
                      [] \<Rightarrow> (False, 3)
                    | e # _ \<Rightarrow> if \<not> cont_byte e then (False, 3) else (True, 4))"

lemma utf8_chunk_pos: "bs \<noteq> [] \<Longrightarrow> 0 < snd (utf8_chunk bs)"
  by (cases bs) (auto split: list.splits)

function utf8_lossy :: "bytes \<Rightarrow> bytes" where
  "utf8_lossy bs =
     (if bs = [] then []
      else (if fst (utf8_chunk bs) then take (snd (utf8_chunk bs)) bs else [239, 191, 189])
        @ utf8_lossy (drop (snd (utf8_chunk bs)) bs))"
  by pat_completeness auto
termination
  by (relation "measure length") (use utf8_chunk_pos in auto)

declare utf8_lossy.simps [simp del]

definition w_string :: "bytes \<Rightarrow> bytes" where
  "w_string s = w_bytes s"

definition r_string :: "bytes parser" where
  "r_string = p_bind r_bytes (\<lambda>bs. p_return (utf8_lossy bs))"

definition r_finish :: "reader \<Rightarrow> (decode_error, unit) result" where
  "r_finish r =
     (let remaining = length (rd_input r) - rd_offset r in
      if remaining = 0 then Ok () else Err (TrailingBytes remaining))"

text \<open>Reads a value and then requires the end of the input, as every \<open>decode_inner\<close> does.\<close>

definition parse_all :: "'a parser \<Rightarrow> bytes \<Rightarrow> (decode_error, 'a) result" where
  "parse_all p bs = and_then (p (reader_new bs)) (\<lambda>(x, r). and_then (r_finish r) (\<lambda>_. Ok x))"

text \<open>\<open>for _ in 0..n\<close> over one read.\<close>

fun r_repeat :: "nat \<Rightarrow> ('e, 'a) parser_e \<Rightarrow> ('e, 'a list) parser_e" where
  "r_repeat 0 p = p_return []"
| "r_repeat (Suc n) p = p_bind p (\<lambda>x. p_bind (r_repeat n p) (\<lambda>xs. p_return (x # xs)))"

section \<open>The codec contract\<close>

text \<open>
  A reader stays inside its input, and no slice is longer than \<open>isize::MAX\<close>.  A parser
  \<open>consumes\<close> exactly the bytes between two reader positions.
\<close>

definition reader_ok :: "reader \<Rightarrow> bool" where
  "reader_ok r \<longleftrightarrow> rd_offset r \<le> length (rd_input r) \<and> length (rd_input r) < 2 ^ 63"

definition consumes :: "reader \<Rightarrow> bytes \<Rightarrow> reader \<Rightarrow> bool" where
  "consumes r bs r' \<longleftrightarrow> rd_input r' = rd_input r \<and> rd_offset r' = rd_offset r + length bs
     \<and> take (length bs) (drop (rd_offset r) (rd_input r)) = bs \<and> reader_ok r'"

lemma consumes_refl [simp]: "reader_ok r \<Longrightarrow> consumes r [] r"
  by (simp add: consumes_def)

lemma consumes_trans:
  assumes "consumes r a r'" "consumes r' b r''"
  shows "consumes r (a @ b) r''"
  using assms by (auto simp: consumes_def take_add add.commute add.left_commute)

lemma consumes_ok: "consumes r bs r' \<Longrightarrow> reader_ok r'"
  by (simp add: consumes_def)

definition reads :: "('e, 'a) parser_e \<Rightarrow> bytes \<Rightarrow> 'a \<Rightarrow> bool" where
  "reads p bs x \<longleftrightarrow> (\<forall>r r'. reader_ok r \<longrightarrow> consumes r bs r' \<longrightarrow> p r = Ok (x, r'))"

lemma p_bind_Ok_iff [result_simps]:
  "p_bind p f r = Ok (y, r') \<longleftrightarrow> (\<exists>x r1. p r = Ok (x, r1) \<and> f x r1 = Ok (y, r'))"
  by (auto simp: p_bind_def and_then_Ok_iff split: prod.splits)

lemma p_return_Ok_iff [result_simps]: "p_return x r = Ok (y, r') \<longleftrightarrow> y = x \<and> r' = r"
  by (auto simp: p_return_def)

lemma p_fail_Ok_iff [result_simps]: "p_fail e r = Ok z \<longleftrightarrow> False"
  by (simp add: p_fail_def)

lemma p_bind_Panic_iff [result_simps]:
  "p_bind p f r = Panic \<longleftrightarrow> p r = Panic \<or> (\<exists>x r1. p r = Ok (x, r1) \<and> f x r1 = Panic)"
  by (auto simp: p_bind_def and_then_Panic_iff split: prod.splits)

lemma p_return_not_Panic [simp]: "p_return x r \<noteq> Panic"
  by (simp add: p_return_def)

lemma p_fail_not_Panic [simp]: "p_fail e r \<noteq> Panic"
  by (simp add: p_fail_def)

lemma readsD: "reads p bs x \<Longrightarrow> reader_ok r \<Longrightarrow> consumes r bs r' \<Longrightarrow> p r = Ok (x, r')"
  by (simp add: reads_def)

lemma reads_return: "reads (p_return x) [] x"
  by (auto simp: reads_def p_return_def consumes_def reader_ok_def)

lemma consumes_append:
  assumes "consumes r (a @ b) r''"
  obtains r' where "consumes r a r'" "consumes r' b r''"
proof
  let ?r' = "r\<lparr>rd_offset := rd_offset r + length a\<rparr>"
  have *: "take (length a + length b) (drop (rd_offset r) (rd_input r)) = a @ b"
    using assms by (simp add: consumes_def)
  then have "length (take (length a + length b) (drop (rd_offset r) (rd_input r))) = length a + length b"
    by simp
  then have "length (take (length a) (drop (rd_offset r) (rd_input r))) = length a" by auto
  moreover have "take (length a) (drop (rd_offset r) (rd_input r))
      @ take (length b) (drop (length a) (drop (rd_offset r) (rd_input r))) = a @ b"
    using * by (simp only: take_add)
  ultimately have "take (length a) (drop (rd_offset r) (rd_input r)) = a"
    and "take (length b) (drop (length a) (drop (rd_offset r) (rd_input r))) = b"
    by (simp_all only: append_eq_append_conv simp_thms)
  then show "consumes r a ?r'" "consumes ?r' b r''"
    using assms by (auto simp: consumes_def reader_ok_def add.commute)
qed

lemma reads_bind [reads_rules]:
  assumes "reads p a x" "reads (f x) b y"
  shows "reads (p_bind p f) (a @ b) y"
  unfolding reads_def
proof (intro allI impI)
  fix r r'
  assume r: "reader_ok r" and c: "consumes r (a @ b) r'"
  from c obtain r1 where c1: "consumes r a r1" and c2: "consumes r1 b r'"
    by (rule consumes_append)
  have "p r = Ok (x, r1)" using assms(1) r c1 by (rule readsD)
  moreover have "f x r1 = Ok (y, r')"
    using assms(2) consumes_ok [OF c1] c2 by (rule readsD)
  ultimately show "p_bind p f r = Ok (y, r')" by (simp add: p_bind_def)
qed

lemma reads_bind_return [reads_rules]:
  assumes "reads p a x" "g x = y"
  shows "reads (p_bind p (\<lambda>x. p_return (g x))) a y"
proof -
  have "reads (p_bind p (\<lambda>x. p_return (g x))) (a @ []) (g x)"
    by (rule reads_bind [OF assms(1)]) (rule reads_return)
  with assms(2) show ?thesis by simp
qed

text \<open>
  The contract between a writer and a reader of one type: on an input that continues with
  an encoding, the read returns the encoded value and stops behind it.  The stronger contract
  adds that whatever a read accepts is the encoding of what it returns: one value, one
  encoding.
\<close>

locale decodes =
  fixes wr :: "'a \<Rightarrow> bytes" and rd :: "(decode_error, 'a) parser_e" and dom :: "'a \<Rightarrow> bool"
  assumes round_trip: "dom x \<Longrightarrow> reads rd (wr x) x"
begin

lemma parse_all_wr:
  assumes "dom x" "length (wr x) < 2 ^ 63"
  shows "parse_all rd (wr x) = Ok x"
proof -
  let ?r = "reader_new (wr x)" and ?r' = "\<lparr>rd_input = wr x, rd_offset = length (wr x)\<rparr>"
  have "reader_ok ?r" "consumes ?r (wr x) ?r'"
    using assms(2) by (simp_all add: reader_ok_def consumes_def reader_new_def)
  with round_trip [OF assms(1)] have "rd ?r = Ok (x, ?r')" by (rule readsD)
  then show ?thesis by (simp add: parse_all_def r_finish_def)
qed

lemma prefix_free:
  assumes "dom x" "dom y" "wr x @ a = wr y @ b" "length (wr x @ a) < 2 ^ 63"
  shows "x = y \<and> a = b"
proof -
  let ?r = "reader_new (wr x @ a)"
  have ok: "reader_ok ?r" using assms(4) by (simp add: reader_ok_def reader_new_def)
  have "consumes ?r (wr x) \<lparr>rd_input = wr x @ a, rd_offset = length (wr x)\<rparr>"
    using assms(4) by (simp add: consumes_def reader_new_def reader_ok_def)
  with ok round_trip [OF assms(1)] have 1: "rd ?r = Ok (x, \<lparr>rd_input = wr x @ a, rd_offset = length (wr x)\<rparr>)"
    by (blast dest: readsD)
  have "consumes ?r (wr y) \<lparr>rd_input = wr y @ b, rd_offset = length (wr y)\<rparr>"
    using assms(3,4) by (simp add: consumes_def reader_new_def reader_ok_def)
  with ok round_trip [OF assms(2)] have 2: "rd ?r = Ok (y, \<lparr>rd_input = wr y @ b, rd_offset = length (wr y)\<rparr>)"
    by (blast dest: readsD)
  from 1 2 have "x = y" by simp
  with assms(3) show ?thesis by simp
qed

lemma repeat_round_trip:
  "list_all dom xs \<Longrightarrow> reads (r_repeat (length xs) rd) (concat (map wr xs)) xs"
proof (induction xs)
  case Nil
  then show ?case by (simp add: reads_return)
next
  case (Cons x xs)
  then have "reads (p_bind (r_repeat (length xs) rd) (\<lambda>ys. p_return (x # ys))) (concat (map wr xs)) (x # xs)"
    by (intro reads_bind_return) simp_all
  with Cons.prems show ?case
    by (auto intro: reads_bind round_trip)
qed

end

locale codec = decodes +
  assumes canonical: "reader_ok r \<Longrightarrow> rd r = Ok (x, r') \<Longrightarrow> dom x \<and> consumes r (wr x) r'"
begin

lemma parse_all_OkD:
  assumes "parse_all rd bs = Ok x" "length bs < 2 ^ 63"
  shows "dom x \<and> bs = wr x"
proof -
  from assms(1) obtain r' where rd: "rd (reader_new bs) = Ok (x, r')" and f: "r_finish r' = Ok ()"
    by (auto simp: parse_all_def and_then_Ok_iff split: prod.splits)
  have "reader_ok (reader_new bs)" using assms(2) by (simp add: reader_ok_def reader_new_def)
  from canonical [OF this rd] have d: "dom x" and c: "consumes (reader_new bs) (wr x) r'" by auto
  from f have "length (rd_input r') \<le> rd_offset r'"
    by (simp add: r_finish_def Let_def split: if_splits)
  with c have "bs = wr x" by (auto simp: consumes_def reader_new_def)
  with d show ?thesis by simp
qed

lemma parse_all_iff:
  "length bs < 2 ^ 63 \<Longrightarrow> parse_all rd bs = Ok x \<longleftrightarrow> dom x \<and> bs = wr x"
  using parse_all_wr [of x] parse_all_OkD [of bs x] by blast

lemma repeat_canonical:
  "reader_ok r \<Longrightarrow> r_repeat n rd r = Ok (xs, r') \<Longrightarrow>
     length xs = n \<and> list_all dom xs \<and> consumes r (concat (map wr xs)) r'"
proof (induction n arbitrary: r xs)
  case 0
  then show ?case by (auto simp: p_return_def)
next
  case (Suc n)
  from Suc.prems(2) obtain x r1 ys where x: "rd r = Ok (x, r1)"
    and ys: "r_repeat n rd r1 = Ok (ys, r')" and xs: "xs = x # ys"
    by (auto simp: result_simps)
  from canonical [OF Suc.prems(1) x] have "dom x" and c: "consumes r (wr x) r1" by auto
  moreover from Suc.IH [OF consumes_ok [OF c] ys]
  have "length ys = n" "list_all dom ys" "consumes r1 (concat (map wr ys)) r'" by auto
  ultimately show ?case using xs by (auto intro: consumes_trans)
qed

end

text \<open>
  What a reader accepts, as a relation between the value and the bytes it consumed, computed
  along the structure of the reader.
\<close>

definition accepts :: "('e, 'a) parser_e \<Rightarrow> ('a \<Rightarrow> bytes \<Rightarrow> bool) \<Rightarrow> bool" where
  "accepts rd Q \<longleftrightarrow>
     (\<forall>r x r'. reader_ok r \<longrightarrow> rd r = Ok (x, r') \<longrightarrow> (\<exists>bs. consumes r bs r' \<and> Q x bs))"

lemma acceptsI:
  "(\<And>r x r'. reader_ok r \<Longrightarrow> rd r = Ok (x, r') \<Longrightarrow> \<exists>bs. consumes r bs r' \<and> Q x bs) \<Longrightarrow> accepts rd Q"
  by (simp add: accepts_def)

lemma acceptsE:
  assumes "accepts rd Q" "reader_ok r" "rd r = Ok (x, r')"
  obtains bs where "consumes r bs r'" "Q x bs"
  using assms unfolding accepts_def by blast

lemma accepts_bind [accepts_rules]:
  assumes "accepts p Q" "\<And>x. accepts (f x) (R x)"
  shows "accepts (p_bind p f) (\<lambda>y bs. \<exists>x a b. bs = a @ b \<and> Q x a \<and> R x y b)"
proof (rule acceptsI)
  fix r y r' assume ok: "reader_ok r" and "p_bind p f r = Ok (y, r')"
  then obtain x r1 where p: "p r = Ok (x, r1)" and f: "f x r1 = Ok (y, r')" by (auto simp: result_simps)
  from assms(1) ok p obtain a where a: "consumes r a r1" "Q x a" by (rule acceptsE)
  from assms(2) consumes_ok [OF a(1)] f obtain b where "consumes r1 b r'" "R x y b" by (rule acceptsE)
  with a show "\<exists>bs. consumes r bs r' \<and> (\<exists>x a b. bs = a @ b \<and> Q x a \<and> R x y b)"
    by (blast intro: consumes_trans)
qed

lemma accepts_return [accepts_rules]: "accepts (p_return x) (\<lambda>y bs. y = x \<and> bs = [])"
  by (rule acceptsI) (auto simp: result_simps)

lemma accepts_fail [accepts_rules]: "accepts (p_fail e) (\<lambda>_ _. False)"
  by (rule acceptsI) (auto simp: result_simps)

lemma accepts_if [accepts_rules]:
  "accepts p Q \<Longrightarrow> accepts q R \<Longrightarrow>
   accepts (if c then p else q) (\<lambda>x bs. if c then Q x bs else R x bs)"
  by simp

lemma accepts_option [accepts_rules]:
  "accepts p Q \<Longrightarrow> (\<And>x. accepts (f x) (R x)) \<Longrightarrow>
   accepts (case v of None \<Rightarrow> p | Some x \<Rightarrow> f x) (\<lambda>y bs. case v of None \<Rightarrow> Q y bs | Some x \<Rightarrow> R x y bs)"
  by (cases v) simp_all

lemma accepts_prod [accepts_rules]:
  "(\<And>a b. accepts (f a b) (R a b)) \<Longrightarrow>
   accepts (case v of (a, b) \<Rightarrow> f a b) (\<lambda>y bs. case v of (a, b) \<Rightarrow> R a b y bs)"
  by (cases v) simp_all

lemma accepts_weaken: "accepts rd Q \<Longrightarrow> (\<And>x bs. Q x bs \<Longrightarrow> R x bs) \<Longrightarrow> accepts rd R"
  by (auto simp: accepts_def) blast

lemma codecI:
  assumes "\<And>x. ok x \<Longrightarrow> reads rd (wr x) x" "accepts rd Q" "\<And>x bs. Q x bs \<Longrightarrow> ok x \<and> bs = wr x"
  shows "codec wr rd ok"
  using assms by unfold_locales (auto elim!: acceptsE)+

lemma codec_accepts: "codec wr rd ok \<Longrightarrow> accepts rd (\<lambda>x bs. ok x \<and> bs = wr x)"
  by (rule acceptsI) (auto dest: codec.canonical)

lemma repeat_accepts [accepts_rules]:
  "codec wr rd ok \<Longrightarrow>
   accepts (r_repeat n rd) (\<lambda>xs bs. length xs = n \<and> list_all ok xs \<and> bs = concat (map wr xs))"
  by (rule acceptsI) (auto dest: codec.repeat_canonical)

text \<open>A computed result inside a reader; it consumes nothing.\<close>

lemma accepts_result [accepts_rules]: "accepts (p_result v) (\<lambda>x bs. v = Ok x \<and> bs = [])"
  by (rule acceptsI) (auto simp: p_result_def result_simps)

lemma accepts_lift [accepts_rules]: "accepts p Q \<Longrightarrow> accepts (p_lift f p) Q"
  by (simp add: accepts_def p_lift_def result_simps)

lemma reads_lift [reads_rules]: "reads p bs x \<Longrightarrow> reads (p_lift f p) bs x"
  by (simp add: reads_def p_lift_def)

lemma reads_result: "v = Ok x \<Longrightarrow> reads (p_result v) [] x"
  by (auto simp: reads_def p_result_def consumes_def reader_ok_def)

section \<open>Primitive codecs\<close>

lemma r_take_reads: "length bs = n \<Longrightarrow> n < 2 ^ 63 \<Longrightarrow> reads (r_take n) bs bs"
  by (auto simp: reads_def r_take_def consumes_def reader_ok_def usize_max_def Let_def
      intro!: reader.equality)

lemma r_take_Ok:
  "reader_ok r \<Longrightarrow> r_take n r = Ok (bs, r') \<Longrightarrow> length bs = n \<and> consumes r bs r'"
  by (auto simp: r_take_def consumes_def reader_ok_def Let_def split: if_splits)

lemma fixed_codec:
  assumes "8 dvd LENGTH('a::len)" "n = LENGTH('a) div 8" "n < 2 ^ 63"
  shows "codec (to_be :: 'a word \<Rightarrow> bytes) (p_bind (r_take n) (\<lambda>bs. p_return (from_be bs)))
           (\<lambda>_. True)"
proof unfold_locales
  fix x :: "'a word"
  show "reads (p_bind (r_take n) (\<lambda>bs. p_return (from_be bs))) (to_be x) x"
    by (rule reads_bind_return, rule r_take_reads) (use assms in \<open>simp_all add: from_be_to_be\<close>)
next
  fix r x r'
  assume ok: "reader_ok r"
    and rd: "p_bind (r_take n) (\<lambda>bs. p_return (from_be bs :: 'a word)) r = Ok (x, r')"
  from rd obtain bs where t: "r_take n r = Ok (bs, r')" and x: "x = from_be bs"
    by (auto simp: result_simps)
  from r_take_Ok [OF ok t] have "length bs = n" "consumes r bs r'" by auto
  then show "True \<and> consumes r (to_be x) r'"
    using assms x by (simp add: to_be_from_be)
qed

interpretation u32c: codec w_u32 r_u32 "\<lambda>_. True"
  unfolding r_u32_def w_u32_def [abs_def] by (rule fixed_codec) simp_all

interpretation u64c: codec w_u64 r_u64 "\<lambda>_. True"
  unfolding r_u64_def w_u64_def [abs_def] by (rule fixed_codec) simp_all

interpretation u128c: codec w_u128 r_u128 "\<lambda>_. True"
  unfolding r_u128_def w_u128_def [abs_def] by (rule fixed_codec) simp_all

interpretation b32c: codec w_bytes32 r_bytes32 "\<lambda>_. True"
  unfolding r_bytes32_def w_bytes32_def [abs_def] by (rule fixed_codec) simp_all

interpretation b64c: codec w_bytes64 r_bytes64 "\<lambda>_. True"
  unfolding r_bytes64_def w_bytes64_def [abs_def] by (rule fixed_codec) simp_all

interpretation b128c: codec w_bytes128 r_bytes128 "\<lambda>_. True"
  unfolding r_bytes128_def w_bytes128_def [abs_def] by (rule fixed_codec) simp_all

lemma take1_drop: "i < length xs \<Longrightarrow> take (Suc 0) (drop i xs) = [xs ! i]"
  by (simp add: take_Suc_conv_app_nth)

interpretation u8c: codec w_u8 r_u8 "\<lambda>_. True"
proof unfold_locales
  fix x
  show "reads r_u8 (w_u8 x) x"
    by (auto simp: reads_def r_u8_def w_u8_def consumes_def reader_ok_def take1_drop
        intro!: reader.equality)
next
  fix r x r'
  assume "reader_ok r" "r_u8 r = Ok (x, r')"
  then show "True \<and> consumes r (w_u8 x) r'"
    by (auto simp: r_u8_def w_u8_def consumes_def reader_ok_def take1_drop split: if_splits)
qed

interpretation boolc: codec w_bool r_bool "\<lambda>_. True"
proof unfold_locales
  fix b
  show "reads r_bool (w_bool b) b"
    unfolding r_bool_def w_bool_def
    by (rule reads_bind [OF u8c.round_trip [OF TrueI], where b = "[]", simplified])
      (cases b; simp add: reads_return)
next
  fix r b r'
  assume ok: "reader_ok r" and rd: "r_bool r = Ok (b, r')"
  from rd obtain x where x: "r_u8 r = Ok (x, r')" and b: "x = (if b then 1 else 0)"
    by (auto simp: r_bool_def result_simps split: if_splits)
  from u8c.canonical [OF ok x] b show "True \<and> consumes r (w_bool b) r'"
    by (simp add: w_bool_def)
qed

interpretation bytesc: codec w_bytes r_bytes "\<lambda>bs. length bs < 2 ^ 32"
proof unfold_locales
  fix bs :: bytes
  assume l: "length bs < 2 ^ 32"
  then have len: "unat (of_nat (length bs) :: u32) = length bs"
    by (simp add: unat_of_nat)
  have "reads (\<lambda>r. if unat (of_nat (length bs) :: u32) > length (rd_input r) - rd_offset r
                   then Err LengthOverflow else r_take (unat (of_nat (length bs) :: u32)) r) bs bs"
    unfolding reads_def len
  proof (intro allI impI)
    fix r r' assume ok: "reader_ok r" and c: "consumes r bs r'"
    then have "r_take (length bs) r = Ok (bs, r')"
      using l by (intro readsD [OF r_take_reads]) simp_all
    moreover have "length bs \<le> length (rd_input r) - rd_offset r"
      using c by (auto simp: consumes_def reader_ok_def)
    ultimately show "(if length (rd_input r) - rd_offset r < length bs then Err LengthOverflow
        else r_take (length bs) r) = Ok (bs, r')" by simp
  qed
  then show "reads r_bytes (w_bytes bs) bs"
    unfolding r_bytes_def w_bytes_def by (intro reads_bind [OF u32c.round_trip]) simp_all
next
  fix r bs r'
  assume ok: "reader_ok r" and rd: "r_bytes r = Ok (bs, r')"
  from rd obtain len r1 where l: "r_u32 r = Ok (len, r1)" and t: "r_take (unat len) r1 = Ok (bs, r')"
    by (auto simp: r_bytes_def result_simps split: if_splits)
  from u32c.canonical [OF ok l] have c: "consumes r (w_u32 len) r1" by simp
  from r_take_Ok [OF consumes_ok [OF c] t] have "length bs = unat len" "consumes r1 bs r'" by auto
  moreover have "unat len < 2 ^ 32" using unat_less_pow [of len] by simp
  ultimately show "length bs < 2 ^ 32 \<and> consumes r (w_bytes bs) r'"
    using c by (auto simp: w_bytes_def intro: consumes_trans)
qed

text \<open>Strings: valid UTF-8 is read back as written, and only valid UTF-8 is ever returned.\<close>

function utf8_valid :: "bytes \<Rightarrow> bool" where
  "utf8_valid bs \<longleftrightarrow>
     (if bs = [] then True
      else fst (utf8_chunk bs) \<and> utf8_valid (drop (snd (utf8_chunk bs)) bs))"
  by pat_completeness auto
termination
  by (relation "measure length") (use utf8_chunk_pos in auto)

declare utf8_valid.simps [simp del]

lemma utf8_chunk_length: "fst (utf8_chunk bs) \<Longrightarrow> snd (utf8_chunk bs) \<le> length bs"
  by (cases bs) (auto split: list.splits if_splits)

lemma utf8_lossy_valid: "utf8_valid bs \<Longrightarrow> utf8_lossy bs = bs"
proof (induction bs rule: utf8_lossy.induct)
  case (1 bs)
  then show ?case
    by (cases "bs = []") (simp_all add: utf8_lossy.simps [of bs] utf8_lossy.simps [of "[]"] utf8_valid.simps [of bs])
qed

text \<open>Classification looks only at the sequence itself.\<close>

lemma utf8_chunk_take:
  "fst (utf8_chunk bs) \<Longrightarrow> bs \<noteq> [] \<Longrightarrow> utf8_chunk (take (snd (utf8_chunk bs)) bs @ cs) = utf8_chunk bs"
proof (cases bs)
  case (Cons b as)
  assume f: "fst (utf8_chunk bs)"
  show ?thesis
    using f Cons
    by (cases as; cases "tl as"; cases "tl (tl as)") (simp_all split: if_splits)
qed simp

lemma utf8_valid_chunk:
  assumes "fst (utf8_chunk bs)" "bs \<noteq> []" "utf8_valid cs"
  shows "utf8_valid (take (snd (utf8_chunk bs)) bs @ cs)"
  using assms utf8_chunk_length [OF assms(1)]
  by (subst utf8_valid.simps) (simp add: utf8_chunk_take)

lemma utf8_valid_replacement: "utf8_valid cs \<Longrightarrow> utf8_valid ([239, 191, 189] @ cs)"
proof -
  have c: "utf8_chunk [239, 191, 189] = (True, 3)"
    by (simp add: utf8_width_def second_byte_def cont_byte_def)
  assume "utf8_valid cs"
  then show ?thesis using utf8_valid_chunk [of "[239, 191, 189]" cs] unfolding c by simp
qed

lemma utf8_valid_lossy: "utf8_valid (utf8_lossy bs)"
proof (induction bs rule: utf8_lossy.induct)
  case (1 bs)
  show ?case
  proof (cases "bs = []")
    case True
    then show ?thesis by (simp add: utf8_lossy.simps [of "[]"] utf8_valid.simps [of "[]"])
  next
    case False
    with 1 show ?thesis
      by (simp add: utf8_lossy.simps [of bs] utf8_valid_chunk utf8_valid_replacement del: append_Cons append.simps)
  qed
qed

interpretation stringc: decodes w_string r_string "\<lambda>s. utf8_valid s \<and> length s < 2 ^ 32"
  unfolding r_string_def w_string_def
  by unfold_locales
    (auto intro!: reads_bind_return [OF bytesc.round_trip] simp: utf8_lossy_valid)

lemma r_string_Ok:
  assumes "reader_ok r" "r_string r = Ok (s, r')"
  obtains bs where "consumes r (w_bytes bs) r'" "s = utf8_lossy bs" "length bs < 2 ^ 32"
  using assms bytesc.canonical by (auto simp: r_string_def result_simps)

lemmas primitive_accepts [accepts_rules] =
  u8c.codec_axioms [THEN codec_accepts] u32c.codec_axioms [THEN codec_accepts]
  u64c.codec_axioms [THEN codec_accepts] u128c.codec_axioms [THEN codec_accepts]
  boolc.codec_axioms [THEN codec_accepts] b32c.codec_axioms [THEN codec_accepts]
  b64c.codec_axioms [THEN codec_accepts] b128c.codec_axioms [THEN codec_accepts]
  bytesc.codec_axioms [THEN codec_accepts]

lemma r_string_accepts [accepts_rules]:
  "accepts r_string (\<lambda>s bs. \<exists>raw. bs = w_bytes raw \<and> s = utf8_lossy raw \<and> length raw < 2 ^ 32)"
  by (rule acceptsI) (blast elim: r_string_Ok)

lemmas primitive_round_trips [reads_rules] =
  u8c.round_trip [OF TrueI] u32c.round_trip [OF TrueI] u64c.round_trip [OF TrueI]
  u128c.round_trip [OF TrueI] boolc.round_trip [OF TrueI] b32c.round_trip [OF TrueI]
  b64c.round_trip [OF TrueI] b128c.round_trip [OF TrueI] bytesc.round_trip

lemma length_w [simp]:
  "length (w_u8 a) = 1" "length (w_u32 b) = 4" "length (w_u64 c) = 8" "length (w_u128 d) = 16"
  "length (w_bool e) = 1" "length (w_bytes32 f) = 32" "length (w_bytes64 g) = 64"
  "length (w_bytes128 h) = 128" "length (w_bytes bs) = 4 + length bs"
  by (simp_all add: w_u8_def w_u32_def w_u64_def w_u128_def w_bool_def w_bytes32_def
      w_bytes64_def w_bytes128_def w_bytes_def)

end
