(* ===== verification/Primitives.thy ===== *)
theory Primitives
  imports Codec
begin

text \<open>
  Commitments and identifiers of the primitives crate: the length-framed
  \<open>CanonicalEncoder\<close> with its domain tags (\<open>encoding.rs\<close>), digests and their bits
  (\<open>hash.rs\<close>), account addresses (\<open>address.rs\<close>), and the hashing of human-readable
  identifiers (\<open>identity.rs\<close>).
\<close>

section \<open>Canonical encoder\<close>

definition str_bytes :: "string \<Rightarrow> bytes" where
  "str_bytes s = map of_char s"

definition KEYLESS_ADDRESS :: bytes where
  "KEYLESS_ADDRESS = str_bytes ''SENA:v1:keyless-address''"
definition SOCIAL_IDENTIFIER :: bytes where
  "SOCIAL_IDENTIFIER = str_bytes ''SENA:v1:social-identifier''"
definition TRIE_INTERNAL :: bytes where
  "TRIE_INTERNAL = str_bytes ''SENA:v1:trie-internal''"
definition TRIE_LEAF :: bytes where
  "TRIE_LEAF = str_bytes ''SENA:v1:trie-leaf''"
definition BATCH :: bytes where
  "BATCH = str_bytes ''SENA:v1:batch''"
definition ASSERTION :: bytes where
  "ASSERTION = str_bytes ''SENA:v1:assertion''"
definition MACHINE_STATE :: bytes where
  "MACHINE_STATE = str_bytes ''SENA:v1:machine-state''"
definition TRANSACTION :: bytes where
  "TRANSACTION = str_bytes ''SENA:v1:transaction''"

lemmas domain_defs = KEYLESS_ADDRESS_def SOCIAL_IDENTIFIER_def TRIE_INTERNAL_def TRIE_LEAF_def
  BATCH_def ASSERTION_def MACHINE_STATE_def TRANSACTION_def str_bytes_def

definition push_framed :: "bytes \<Rightarrow> bytes \<Rightarrow> bytes" where
  "push_framed buf bs = buf @ to_be (of_nat (length bs) :: u32) @ bs"

definition enc_new :: "bytes \<Rightarrow> bytes" where
  "enc_new d = push_framed [] d"

definition enc_field :: "bytes \<Rightarrow> bytes \<Rightarrow> bytes" where
  "enc_field buf bs = push_framed buf bs"

definition enc_u64 :: "bytes \<Rightarrow> u64 \<Rightarrow> bytes" where
  "enc_u64 buf v = enc_field buf (to_be v)"

definition enc_u128 :: "bytes \<Rightarrow> u128 \<Rightarrow> bytes" where
  "enc_u128 buf v = enc_field buf (to_be v)"

text \<open>The encoding of a whole field list, in which every encoder expression can be read.\<close>

definition frames :: "bytes list \<Rightarrow> bytes" where
  "frames fs = foldl push_framed [] fs"

lemma frames_snoc: "push_framed (frames fs) f = frames (fs @ [f])"
  by (simp add: frames_def)

lemma enc_new_frames: "enc_new d = frames [d]"
  by (simp add: enc_new_def frames_def)

lemma enc_frames:
  "enc_field (frames fs) f = frames (fs @ [f])"
  "enc_u64 (frames fs) n = frames (fs @ [to_be n])"
  "enc_u128 (frames fs) m = frames (fs @ [to_be m])"
  by (simp_all add: enc_field_def enc_u64_def enc_u128_def frames_snoc)

lemmas enc_simps = enc_new_frames enc_frames append.simps

lemma foldl_push_framed: "foldl push_framed buf fs = buf @ foldl push_framed [] fs"
proof (induction fs arbitrary: buf)
  case (Cons f fs)
  show ?case
    by (simp only: foldl_Cons Cons.IH [of "push_framed buf f"] Cons.IH [of "push_framed [] f"])
      (simp add: push_framed_def)
qed simp

lemma frames_Nil: "frames [] = []"
  by (simp add: frames_def)

lemma frames_Cons: "frames (f # fs) = to_be (of_nat (length f) :: u32) @ f @ frames fs"
  unfolding frames_def by (simp add: foldl_push_framed [of "push_framed [] f"]) (simp add: push_framed_def)

definition framable :: "bytes list \<Rightarrow> bool" where
  "framable fs \<longleftrightarrow> (\<forall>f \<in> set fs. length f < 2 ^ 32)"

text \<open>Framing is unambiguous: the field list is recovered from the bytes.\<close>

lemma frames_inject:
  "framable fs \<Longrightarrow> framable gs \<Longrightarrow> frames fs = frames gs \<Longrightarrow> fs = gs"
proof (induction fs arbitrary: gs)
  case Nil
  then have "length (frames gs) = 0" by (simp add: frames_Nil)
  then show ?case by (cases gs) (simp_all add: frames_Cons)
next
  case (Cons f fs)
  show ?case
  proof (cases gs)
    case Nil
    with Cons.prems(3) have "length (frames (f # fs)) = 0" by (simp add: frames_Nil)
    then show ?thesis by (simp add: frames_Cons)
  next
    case (Cons g gs')
    have lf: "length f < 2 ^ 32" and lg: "length g < 2 ^ 32"
      using Cons.prems(1,2) Cons by (auto simp: framable_def)
    from Cons.prems(3) Cons
    have eq: "to_be (of_nat (length f) :: u32) @ f @ frames fs
        = to_be (of_nat (length g) :: u32) @ g @ frames gs'"
      by (simp add: frames_Cons)
    then have "to_be (of_nat (length f) :: u32) = to_be (of_nat (length g) :: u32)"
      and rest: "f @ frames fs = g @ frames gs'"
      by (simp_all add: append_eq_append_conv)
    then have "(of_nat (length f) :: u32) = of_nat (length g)"
      by (simp add: to_be_inject)
    then have "unat (of_nat (length f) :: u32) = unat (of_nat (length g) :: u32)" by simp
    then have "length f = length g"
      using lf lg by (simp add: unat_of_nat)
    with rest have "f = g" "frames fs = frames gs'" by auto
    moreover have "fs = gs'"
      by (rule Cons.IH) (use Cons.prems Cons \<open>frames fs = frames gs'\<close> in \<open>auto simp: framable_def\<close>)
    ultimately show ?thesis using Cons by simp
  qed
qed

section \<open>Digests\<close>

type_synonym hash256 = bytes32
type_synonym hasher = "bytes \<Rightarrow> hash256"

definition ZERO :: hash256 where
  "ZERO = 0"

definition digest :: "hasher \<Rightarrow> bytes \<Rightarrow> hash256" where
  "digest H bs = H bs"

definition commit :: "hasher \<Rightarrow> bytes \<Rightarrow> hash256" where
  "commit H enc = digest H enc"

text \<open>
  The bit at an index, counted from the most significant bit of the first byte.  The source
  indexes the 32-byte array, so callers panic on an index past 255.
\<close>

definition hash_bit :: "hash256 \<Rightarrow> nat \<Rightarrow> bool" where
  "hash_bit h i = ((drop_bit (7 - i mod 8) (to_be h ! (i div 8))) AND 1 = 1)"

lemma word_and_1_iff: "(w AND 1 = 1) \<longleftrightarrow> bit w 0" for w :: "'a::len word"
  by (simp add: and_one_eq mod_2_eq_odd bit_0)

lemma hash_bit_eq: "i < 256 \<Longrightarrow> hash_bit h i = bit h (255 - i)"
proof -
  assume i: "i < 256"
  then have d: "i div 8 < 32" by simp
  have nth: "to_be h ! (i div 8) = of_nat (unat h div 256 ^ (31 - i div 8))"
    using d by (simp add: to_be_def nat_be_nth)
  have pow: "(256::nat) ^ (31 - i div 8) = 2 ^ (8 * (31 - i div 8))"
    by (simp add: power_mult)
  have "to_be h ! (i div 8) = of_nat (drop_bit (8 * (31 - i div 8)) (unat h))"
    by (simp add: nth drop_bit_eq_div pow)
  then have "hash_bit h i = bit (of_nat (drop_bit (8 * (31 - i div 8)) (unat h)) :: u8) (7 - i mod 8)"
    by (simp add: hash_bit_def word_and_1_iff bit_drop_bit_eq)
  also have "\<dots> = bit h (8 * (31 - i div 8) + (7 - i mod 8))"
  proof -
    have "7 - i mod 8 < 8" by linarith
    then show ?thesis by (simp add: bit_simps)
  qed
  also have "8 * (31 - i div 8) + (7 - i mod 8) = 255 - i"
  proof -
    have "i = 8 * (i div 8) + i mod 8" "i mod 8 < 8" "i div 8 \<le> 31" using i by simp_all
    then show ?thesis by linarith
  qed
  finally show ?thesis .
qed

lemma hash_bits_ext:
  assumes "\<And>i. i < 256 \<Longrightarrow> hash_bit a i = hash_bit b i"
  shows "a = b"
proof (rule bit_word_eqI)
  fix n assume n: "n < LENGTH(256)"
  then have "255 - (255 - n) = n" by simp
  with n assms [of "255 - n"] show "bit a n = bit b n"
    by (simp add: hash_bit_eq)
qed

section \<open>Addresses\<close>

type_synonym l2address = bytes32
type_synonym asset_id = u32

definition NATIVE :: asset_id where
  "NATIVE = 0"

definition derive_keyless :: "hasher \<Rightarrow> bytes32 \<Rightarrow> bytes32 \<Rightarrow> l2address" where
  "derive_keyless H iss_hash idc =
     commit H (enc_field (enc_field (enc_new KEYLESS_ADDRESS) (to_be iss_hash)) (to_be idc))"

section \<open>Social identifiers\<close>

text \<open>A \<open>str\<close> is its list of Unicode scalar values; \<open>as_bytes\<close> is its UTF-8 encoding.\<close>

type_synonym ustring = "nat list"

definition utf8_char :: "nat \<Rightarrow> bytes" where
  "utf8_char c =
     (if c < 128 then [of_nat c]
      else if c < 2048 then [of_nat (192 + c div 64), of_nat (128 + c mod 64)]
      else if c < 65536 then
        [of_nat (224 + c div 4096), of_nat (128 + c div 64 mod 64), of_nat (128 + c mod 64)]
      else [of_nat (240 + c div 262144), of_nat (128 + c div 4096 mod 64),
            of_nat (128 + c div 64 mod 64), of_nat (128 + c mod 64)])"

definition as_bytes :: "ustring \<Rightarrow> bytes" where
  "as_bytes s = concat (map utf8_char s)"

datatype channel = Email | Phone | Handle

fun discriminant :: "channel \<Rightarrow> u8" where
  "discriminant Email = 0"
| "discriminant Phone = 1"
| "discriminant Handle = 2"

definition from_discriminant :: "u8 \<Rightarrow> channel option" where
  "from_discriminant d =
     (if d = 0 then Some Email else if d = 1 then Some Phone
      else if d = 2 then Some Handle else None)"

fun channel_tag :: "channel \<Rightarrow> bytes" where
  "channel_tag Email = str_bytes ''email''"
| "channel_tag Phone = str_bytes ''phone''"
| "channel_tag Handle = str_bytes ''handle''"

lemma from_discriminant_discriminant [simp]: "from_discriminant (discriminant c) = Some c"
  by (cases c) (simp_all add: from_discriminant_def)

lemma from_discriminant_Some: "from_discriminant d = Some c \<Longrightarrow> d = discriminant c"
  by (auto simp: from_discriminant_def split: if_splits)

text \<open>\<open>char::is_whitespace\<close>: the Unicode \<open>White_Space\<close> property.\<close>

definition is_whitespace :: "nat \<Rightarrow> bool" where
  "is_whitespace c \<longleftrightarrow> (9 \<le> c \<and> c \<le> 13) \<or> c = 32 \<or> c = 133 \<or> c = 160 \<or> c = 5760
     \<or> (8192 \<le> c \<and> c \<le> 8202) \<or> c = 8232 \<or> c = 8233 \<or> c = 8239 \<or> c = 8287 \<or> c = 12288"

definition str_trim :: "ustring \<Rightarrow> ustring" where
  "str_trim s = rev (dropWhile is_whitespace (rev (dropWhile is_whitespace s)))"

definition to_ascii_lowercase :: "nat \<Rightarrow> nat" where
  "to_ascii_lowercase c = (if 65 \<le> c \<and> c \<le> 90 then c + 32 else c)"

definition is_ascii_digit :: "nat \<Rightarrow> bool" where
  "is_ascii_digit c \<longleftrightarrow> 48 \<le> c \<and> c \<le> 57"

fun normalise :: "channel \<Rightarrow> ustring \<Rightarrow> ustring" where
  "normalise Phone raw =
     (let trimmed = str_trim raw;
          out = (case trimmed of c # _ \<Rightarrow> (if c = 43 then [43] else []) | [] \<Rightarrow> [])
      in out @ filter is_ascii_digit trimmed)"
| "normalise _ raw = map to_ascii_lowercase (str_trim raw)"

definition hashed_identifier :: "hasher \<Rightarrow> channel \<Rightarrow> ustring \<Rightarrow> bytes \<Rightarrow> hash256" where
  "hashed_identifier H ch raw salt =
     commit H (enc_field (enc_field (enc_field (enc_new SOCIAL_IDENTIFIER)
       (channel_tag ch)) (as_bytes (normalise ch raw))) salt)"

lemma is_whitespace_lowercase [simp]: "is_whitespace (to_ascii_lowercase c) = is_whitespace c"
proof (cases "65 \<le> c \<and> c \<le> 90")
  case True
  then have "\<not> is_whitespace c" "\<not> is_whitespace (c + 32)"
    unfolding is_whitespace_def by linarith+
  with True show ?thesis by (simp add: to_ascii_lowercase_def)
qed (auto simp: to_ascii_lowercase_def)

lemma lowercase_idem [simp]: "to_ascii_lowercase (to_ascii_lowercase c) = to_ascii_lowercase c"
  by (auto simp: to_ascii_lowercase_def)

lemma str_trim_id:
  assumes "s \<noteq> [] \<Longrightarrow> \<not> is_whitespace (hd s)" "s \<noteq> [] \<Longrightarrow> \<not> is_whitespace (last s)"
  shows "str_trim s = s"
proof -
  have 1: "dropWhile is_whitespace s = s" using assms(1) by (cases s) auto
  have "dropWhile is_whitespace (rev s) = rev s"
    using assms(2) by (cases s rule: rev_cases) auto
  with 1 show ?thesis by (simp add: str_trim_def)
qed

lemma str_trim_ends:
  assumes "str_trim s \<noteq> []"
  shows "\<not> is_whitespace (hd (str_trim s))" "\<not> is_whitespace (last (str_trim s))"
proof -
  let ?d = "dropWhile is_whitespace s"
  have ne: "dropWhile is_whitespace (rev ?d) \<noteq> []" using assms by (simp add: str_trim_def)
  then show "\<not> is_whitespace (last (str_trim s))"
    by (metis hd_dropWhile hd_rev rev_rev_ident str_trim_def)
  have dne: "?d \<noteq> []" using ne by (metis dropWhile.simps(1) rev.simps(1))
  then have h: "\<not> is_whitespace (hd ?d)" by (rule hd_dropWhile)
  obtain w where w: "rev ?d = w @ dropWhile is_whitespace (rev ?d)"
    by (metis takeWhile_dropWhile_id)
  then have "?d = str_trim s @ rev w"
    by (metis rev_append rev_rev_ident str_trim_def)
  with assms have "hd ?d = hd (str_trim s)" by (metis hd_append2)
  with h show "\<not> is_whitespace (hd (str_trim s))" by simp
qed

lemma str_trim_map_lowercase [simp]:
  "str_trim (map to_ascii_lowercase (str_trim s)) = map to_ascii_lowercase (str_trim s)"
  by (rule str_trim_id) (use str_trim_ends [of s] in \<open>auto simp: hd_map last_map\<close>)

lemma phone_chars_not_whitespace: "is_ascii_digit c \<or> c = 43 \<Longrightarrow> \<not> is_whitespace c"
  unfolding is_ascii_digit_def is_whitespace_def by linarith

lemma str_trim_no_whitespace: "(\<And>c. c \<in> set s \<Longrightarrow> \<not> is_whitespace c) \<Longrightarrow> str_trim s = s"
  by (rule str_trim_id) auto

lemma digit_not_plus: "is_ascii_digit c \<Longrightarrow> c \<noteq> 43"
  by (auto simp: is_ascii_digit_def)

lemma normalise_phone_parts:
  obtains p ds where "normalise Phone raw = p @ ds" "p = [] \<or> p = [43]" "\<forall>d \<in> set ds. is_ascii_digit d"
  by (rule that [of "case str_trim raw of c # _ \<Rightarrow> (if c = 43 then [43] else []) | [] \<Rightarrow> []"
        "filter is_ascii_digit (str_trim raw)"]) (auto simp: Let_def split: list.splits)

lemma normalise_idem: "normalise ch (normalise ch raw) = normalise ch raw"
proof (cases ch)
  case Phone
  obtain p ds where n: "normalise Phone raw = p @ ds" and p: "p = [] \<or> p = [43]"
    and ds: "\<forall>d \<in> set ds. is_ascii_digit d" by (rule normalise_phone_parts)
  have "str_trim (p @ ds) = p @ ds"
    by (rule str_trim_no_whitespace) (use p ds in \<open>auto intro!: phone_chars_not_whitespace\<close>)
  moreover have "filter is_ascii_digit p = []" using p by (auto simp: is_ascii_digit_def)
  moreover have "filter is_ascii_digit ds = ds" using ds by simp
  moreover have "(case p @ ds of c # _ \<Rightarrow> (if c = 43 then [43] else []) | [] \<Rightarrow> []) = p"
    using p ds by (cases ds) (auto dest: digit_not_plus)
  ultimately show ?thesis using Phone n by (simp add: Let_def)
qed simp_all

end
