(* ===== verification/Account.thy ===== *)
theory Account
  imports Primitives
begin

text \<open>
  Account state (\<open>account.rs\<close>) and the bindings of the social index (\<open>social.rs\<close>): balances
  in an ordered map without zero entries, checked arithmetic, and the canonical binary
  encodings stored in the state trie.
\<close>

section \<open>Accounts\<close>

record account =
  nonce :: u64
  balances :: "(asset_id, u128) btree_map"

datatype balance_error =
    Insufficient u128 u128
  | Overflow
  | AccountMalformed

definition account_new :: account where
  "account_new = \<lparr>nonce = 0, balances = []\<rparr>"

definition balance :: "account \<Rightarrow> asset_id \<Rightarrow> u128" where
  "balance a asset = (case bmap_get (balances a) asset of Some v \<Rightarrow> v | None \<Rightarrow> 0)"

definition credit :: "account \<Rightarrow> asset_id \<Rightarrow> u128 \<Rightarrow> (balance_error, account) result" where
  "credit a asset amount =
     (if amount = 0 then Ok a
      else and_then (ok_or (checked_add (balance a asset) amount) Overflow) (\<lambda>updated.
        Ok (a\<lparr>balances := bmap_insert asset updated (balances a)\<rparr>)))"

definition debit :: "account \<Rightarrow> asset_id \<Rightarrow> u128 \<Rightarrow> (balance_error, account) result" where
  "debit a asset amount =
     (if amount = 0 then Ok a
      else and_then (ok_or (checked_sub (balance a asset) amount) (Insufficient (balance a asset) amount))
        (\<lambda>updated.
          if updated = 0 then Ok (a\<lparr>balances := bmap_remove asset (balances a)\<rparr>)
          else Ok (a\<lparr>balances := bmap_insert asset updated (balances a)\<rparr>)))"

definition w_balance :: "asset_id \<times> u128 \<Rightarrow> bytes" where
  "w_balance = (\<lambda>(asset, amount). w_u32 asset @ w_u128 amount)"

definition account_encode :: "account \<Rightarrow> bytes" where
  "account_encode a =
     w_u64 (nonce a) @ w_u32 (of_nat (length (balances a))) @ concat (map w_balance (balances a))"

text \<open>The loop of \<open>decode_inner\<close>: strictly increasing assets, no zero amount.\<close>

fun r_balances :: "nat \<Rightarrow> asset_id option \<Rightarrow> (asset_id, u128) btree_map \<Rightarrow> (asset_id, u128) btree_map parser"
  where
  "r_balances 0 previous bals = p_return bals"
| "r_balances (Suc n) previous bals =
     p_bind r_u32 (\<lambda>asset. p_bind r_u128 (\<lambda>amount.
       if (case previous of Some prev \<Rightarrow> asset \<le> prev | None \<Rightarrow> False) \<or> amount = 0
       then p_fail (UnknownVariant 0)
       else r_balances n (Some asset) (bmap_insert asset amount bals)))"

definition r_account :: "account parser" where
  "r_account =
     p_bind r_u64 (\<lambda>n. p_bind r_u32 (\<lambda>count.
       p_bind (r_balances (unat count) None []) (\<lambda>bals. p_return \<lparr>nonce = n, balances = bals\<rparr>)))"

definition account_decode_inner :: "bytes \<Rightarrow> (decode_error, account) result" where
  "account_decode_inner bs = parse_all r_account bs"

definition account_decode :: "bytes \<Rightarrow> (balance_error, account) result" where
  "account_decode bs = map_err (\<lambda>_. AccountMalformed) (account_decode_inner bs)"

section \<open>Social bindings\<close>

definition TAG_BOUND :: u8 where
  "TAG_BOUND = 0"
definition TAG_VACANT :: u8 where
  "TAG_VACANT = 1"

datatype social_binding = Bound l2address | Vacant

fun binding_address :: "social_binding \<Rightarrow> l2address option" where
  "binding_address (Bound a) = Some a"
| "binding_address Vacant = None"

fun binding_encode :: "social_binding \<Rightarrow> bytes" where
  "binding_encode (Bound a) = w_u8 TAG_BOUND @ w_bytes32 a"
| "binding_encode Vacant = w_u8 TAG_VACANT"

definition r_binding :: "social_binding parser" where
  "r_binding = p_bind r_u8 (\<lambda>t.
     if t = TAG_BOUND then p_bind r_bytes32 (\<lambda>a. p_return (Bound a))
     else if t = TAG_VACANT then p_return Vacant
     else p_fail (UnknownVariant t))"

datatype malformed_binding = MalformedBinding

definition binding_decode :: "bytes \<Rightarrow> (malformed_binding, social_binding) result" where
  "binding_decode bs = map_err (\<lambda>_. MalformedBinding) (parse_all r_binding bs)"

section \<open>Balances\<close>

text \<open>The invariant: an ordered map without zero balances.\<close>

definition account_inv :: "account \<Rightarrow> bool" where
  "account_inv a \<longleftrightarrow> bmap_wf (balances a) \<and> list_all (\<lambda>(_, v). v \<noteq> 0) (balances a)"

text \<open>What an encoding can express: the number of balances fits the length field.\<close>

definition account_wf :: "account \<Rightarrow> bool" where
  "account_wf a \<longleftrightarrow> account_inv a \<and> length (balances a) < 2 ^ 32"

lemma account_inv_get: "account_inv a \<longleftrightarrow> bmap_wf (balances a) \<and> (\<forall>k. bmap_get (balances a) k \<noteq> Some 0)"
proof (cases "bmap_wf (balances a)")
  case True
  then show ?thesis
    by (auto simp: account_inv_def list_all_iff) (auto simp: bmap_get_mem)
qed (simp add: account_inv_def)

lemma account_inv_new [simp]: "account_inv account_new" "balance account_new x = 0" "nonce account_new = 0"
  by (auto simp: account_inv_def account_new_def balance_def)

text \<open>An account is determined by its nonce and its balances as a function.\<close>

lemma account_eqI:
  assumes "account_inv a" "account_inv b" "nonce a = nonce b" "\<And>x. balance a x = balance b x"
  shows "a = b"
proof -
  have "bmap_get (balances a) x = bmap_get (balances b) x" for x
    using assms(1,2) assms(4) [of x] by (auto simp: account_inv_get balance_def split: option.splits)
  with assms have "balances a = balances b" by (auto simp: account_inv_get intro: bmap_ext)
  with assms(3) show ?thesis by (cases a; cases b) simp
qed

lemma credit_Ok:
  assumes "account_inv a" "credit a asset amount = Ok a'"
  shows "account_inv a'" "nonce a' = nonce a"
    and "unat (balance a' x) = unat (balance a x) + (if x = asset then unat amount else 0)"
  using assms
  by (auto simp: credit_def account_inv_get balance_def bmap_spec result_simps arith_spec unat_eq_0
      split: if_splits option.splits)

lemma credit_Err: "credit a asset amount = Err e \<Longrightarrow> e = Overflow \<and> 2 ^ 128 \<le> unat (balance a asset) + unat amount"
  by (auto simp: credit_def checked_add_None_iff result_simps split: if_splits)

lemma credit_not_Panic [simp]: "credit a asset amount \<noteq> Panic"
  by (auto simp: credit_def result_simps)

lemma debit_cases:
  assumes "debit a asset amount = Ok a'"
  obtains "amount = 0" "a' = a"
  | "amount \<noteq> 0" "unat (balance a asset) = unat amount" "a' = a\<lparr>balances := bmap_remove asset (balances a)\<rparr>"
  | updated where "updated \<noteq> 0" "unat (balance a asset) = unat amount + unat updated"
      "a' = a\<lparr>balances := bmap_insert asset updated (balances a)\<rparr>"
proof (cases "amount = 0")
  case True
  with assms that(1) show thesis by (simp add: debit_def)
next
  case False
  with assms obtain updated where u: "unat (balance a asset) = unat amount + unat updated"
    and a': "a' = (if updated = 0 then a\<lparr>balances := bmap_remove asset (balances a)\<rparr>
      else a\<lparr>balances := bmap_insert asset updated (balances a)\<rparr>)"
    by (auto simp: debit_def result_simps checked_sub_Some_iff if_distrib [of Ok, symmetric])
  show thesis
  proof (cases "updated = 0")
    case True
    with u a' False show thesis by (intro that(2)) simp_all
  next
    case False
    with u a' show thesis by (intro that(3) [of updated]) simp_all
  qed
qed

lemma debit_Ok:
  assumes inv: "account_inv a" and d: "debit a asset amount = Ok a'"
  shows "account_inv a'" "nonce a' = nonce a"
    and "unat (balance a x) = unat (balance a' x) + (if x = asset then unat amount else 0)"
  using d inv
  by (cases rule: debit_cases; auto simp: account_inv_get balance_def bmap_spec split: option.splits)+

lemma debit_Err:
  "debit a asset amount = Err e \<Longrightarrow>
   e = Insufficient (balance a asset) amount \<and> unat (balance a asset) < unat amount"
  by (auto simp: debit_def checked_sub_None_iff result_simps split: if_splits)

lemma debit_not_Panic [simp]: "debit a asset amount \<noteq> Panic"
  by (auto simp: debit_def result_simps split: if_splits)

lemma credit_possible:
  assumes "unat (balance a asset) + unat amount < 2 ^ 128"
  obtains a' where "credit a asset amount = Ok a'"
  using assms credit_Err [of a asset amount] by (cases "credit a asset amount") force+

lemma debit_possible:
  assumes "unat amount \<le> unat (balance a asset)"
  obtains a' where "debit a asset amount = Ok a'"
  using assms debit_Err [of a asset amount] by (cases "debit a asset amount") force+

section \<open>The encodings are canonical\<close>

lemma bmap_insert_last: "\<forall>k' \<in> fst ` set m. k' < k \<Longrightarrow> bmap_insert k v m = m @ [(k, v)]"
  by (induction m) auto

lemma bmap_wf_append:
  "bmap_wf (m @ m') \<longleftrightarrow> bmap_wf m \<and> bmap_wf m' \<and> (\<forall>k \<in> fst ` set m. \<forall>k' \<in> fst ` set m'. k < k')"
  by (auto simp: bmap_wf_def sorted_wrt_append)

text \<open>The loop variable \<open>previous\<close> is the greatest asset read so far.\<close>

definition last_key :: "asset_id option \<Rightarrow> (asset_id, u128) btree_map \<Rightarrow> bool" where
  "last_key previous bals \<longleftrightarrow>
     (case previous of None \<Rightarrow> bals = []
      | Some p \<Rightarrow> p \<in> fst ` set bals \<and> (\<forall>k \<in> fst ` set bals. k \<le> p))"

lemma last_key_next:
  "last_key previous bals \<Longrightarrow> bmap_wf bals \<Longrightarrow>
   (case previous of Some prev \<Rightarrow> asset \<le> prev | None \<Rightarrow> False) \<longleftrightarrow> \<not> (\<forall>k \<in> fst ` set bals. k < asset)"
  by (cases previous) (force simp: last_key_def)+

lemma last_key_snoc: "\<forall>k \<in> fst ` set bals. k < asset \<Longrightarrow> last_key (Some asset) (bals @ [(asset, v)])"
  by (auto simp: last_key_def less_imp_le)

lemma r_balances_reads:
  "last_key previous bals \<Longrightarrow> bmap_wf (bals @ es) \<Longrightarrow> list_all (\<lambda>(_, v). v \<noteq> 0) es \<Longrightarrow>
   reads (r_balances (length es) previous bals) (concat (map w_balance es)) (bals @ es)"
proof (induction es arbitrary: previous bals)
  case Nil
  then show ?case by (simp add: reads_return)
next
  case (Cons e es)
  obtain k v where e: "e = (k, v)" by force
  with Cons.prems have lt: "\<forall>k' \<in> fst ` set bals. k' < k" and v: "v \<noteq> 0" and wf: "bmap_wf bals"
    by (auto simp: bmap_wf_append)
  have ok: "\<not> (case previous of Some prev \<Rightarrow> k \<le> prev | None \<Rightarrow> False)"
    using last_key_next [OF Cons.prems(1) wf, of k] lt by blast
  have "reads (r_balances (length es) (Some k) (bals @ [(k, v)])) (concat (map w_balance es)) ((bals @ [(k, v)]) @ es)"
    using Cons.prems e lt by (intro Cons.IH last_key_snoc) auto
  with ok v lt e show ?case
    by (auto simp: w_balance_def bmap_insert_last intro!: reads_bind primitive_round_trips)
qed

lemma r_balances_canonical:
  "last_key previous bals \<Longrightarrow> bmap_wf bals \<Longrightarrow> reader_ok r \<Longrightarrow>
   r_balances n previous bals r = Ok (bals', r') \<Longrightarrow>
   \<exists>es. bals' = bals @ es \<and> length es = n \<and> list_all (\<lambda>(_, v). v \<noteq> 0) es \<and> bmap_wf bals'
     \<and> consumes r (concat (map w_balance es)) r'"
proof (induction n arbitrary: previous bals r)
  case 0
  then show ?case by (auto simp: result_simps)
next
  case (Suc n)
  from Suc.prems(4) obtain k r1 v r2 where rk: "r_u32 r = Ok (k, r1)" and rv: "r_u128 r1 = Ok (v, r2)"
    and ok: "\<not> (case previous of Some prev \<Rightarrow> k \<le> prev | None \<Rightarrow> False)" "v \<noteq> 0"
    and rest: "r_balances n (Some k) (bmap_insert k v bals) r2 = Ok (bals', r')"
    by (auto simp: result_simps split: if_splits)
  from ok(1) have lt: "\<forall>k' \<in> fst ` set bals. k' < k"
    using last_key_next [OF Suc.prems(1,2), of k] by blast
  have c1: "consumes r (w_u32 k) r1" using u32c.canonical [OF Suc.prems(3) rk] by simp
  have c2: "consumes r1 (w_u128 v) r2" using u128c.canonical [OF consumes_ok [OF c1] rv] by simp
  have "bmap_wf (bals @ [(k, v)])" using Suc.prems(2) lt by (simp add: bmap_wf_append)
  from Suc.IH [OF last_key_snoc [OF lt] this consumes_ok [OF c2]] rest obtain es where
    "bals' = (bals @ [(k, v)]) @ es" "length es = n" "list_all (\<lambda>(_, v). v \<noteq> 0) es" "bmap_wf bals'"
    "consumes r2 (concat (map w_balance es)) r'"
    by (auto simp: bmap_insert_last [OF lt])
  with ok(2) consumes_trans [OF consumes_trans [OF c1 c2]] show ?case
    by (intro exI [of _ "(k, v) # es"]) (auto simp: w_balance_def)
qed

text \<open>Whatever the loop returns is ordered and without zero balances, on any input.\<close>

lemma r_balances_wf:
  "last_key previous bals \<Longrightarrow> bmap_wf bals \<Longrightarrow> list_all (\<lambda>(_, v). v \<noteq> 0) bals \<Longrightarrow>
   r_balances n previous bals r = Ok (bals', r') \<Longrightarrow>
   bmap_wf bals' \<and> list_all (\<lambda>(_, v). v \<noteq> 0) bals' \<and> length bals' = length bals + n"
proof (induction n arbitrary: previous bals r)
  case (Suc n)
  from Suc.prems(4) obtain k v r2 where ok: "\<not> (case previous of Some prev \<Rightarrow> k \<le> prev | None \<Rightarrow> False)" "v \<noteq> 0"
    and rest: "r_balances n (Some k) (bmap_insert k v bals) r2 = Ok (bals', r')"
    by (auto simp: result_simps split: if_splits)
  from ok(1) have lt: "\<forall>k' \<in> fst ` set bals. k' < k"
    using last_key_next [OF Suc.prems(1,2), of k] by blast
  from rest have rest': "r_balances n (Some k) (bals @ [(k, v)]) r2 = Ok (bals', r')"
    by (simp add: bmap_insert_last [OF lt])
  from Suc.IH [OF last_key_snoc [OF lt] _ _ rest'] Suc.prems(2,3) ok(2) lt show ?case
    by (simp add: bmap_wf_append)
qed (auto simp: result_simps)

lemma account_decode_wf: "account_decode bs = Ok a \<Longrightarrow> account_wf a"
proof -
  assume "account_decode bs = Ok a"
  then obtain n c r2 bals r' where b: "r_balances (unat (c :: u32)) None [] r2 = Ok (bals, r')"
    and a: "a = \<lparr>nonce = n, balances = bals\<rparr>"
    by (auto simp: account_decode_def account_decode_inner_def parse_all_def r_account_def result_simps
        split: prod.splits)
  from r_balances_wf [OF _ _ _ b] a show ?thesis
    by (simp add: last_key_def account_wf_def account_inv_def unat_u32_bound)
qed

interpretation accountc: codec account_encode r_account account_wf
proof unfold_locales
  fix a assume wf: "account_wf a"
  then have len: "unat (of_nat (length (balances a)) :: u32) = length (balances a)"
    by (simp add: account_wf_def unat_of_nat)
  have "reads (r_balances (length (balances a)) None []) (concat (map w_balance (balances a))) ([] @ balances a)"
    using wf by (intro r_balances_reads) (auto simp: account_wf_def account_inv_def last_key_def)
  then show "reads r_account (account_encode a) a"
    unfolding r_account_def account_encode_def
    by (intro reads_bind [OF u64c.round_trip] reads_bind [OF u32c.round_trip] reads_bind_return [of _ _ "balances a"])
      (simp_all add: len)
next
  fix r a r'
  assume ok: "reader_ok r" and rd: "r_account r = Ok (a, r')"
  from rd obtain n r1 c r2 bals where n: "r_u64 r = Ok (n, r1)" and c: "r_u32 r1 = Ok (c, r2)"
    and b: "r_balances (unat c) None [] r2 = Ok (bals, r')" and a: "a = \<lparr>nonce = n, balances = bals\<rparr>"
    by (auto simp: r_account_def result_simps)
  have c1: "consumes r (w_u64 n) r1" using u64c.canonical [OF ok n] by simp
  have c2: "consumes r1 (w_u32 c) r2" using u32c.canonical [OF consumes_ok [OF c1] c] by simp
  from r_balances_canonical [OF _ _ consumes_ok [OF c2] b] have
    "length bals = unat c" "list_all (\<lambda>(_, v). v \<noteq> 0) bals" "bmap_wf bals"
    "consumes r2 (concat (map w_balance bals)) r'" by (auto simp: last_key_def)
  moreover have "unat c < 2 ^ 32" using unat_less_pow [of c] by simp
  ultimately show "account_wf a \<and> consumes r (account_encode a) r'"
    using a consumes_trans [OF c1 consumes_trans [OF c2]]
    by (auto simp: account_wf_def account_inv_def account_encode_def)
qed

interpretation bindingc: codec binding_encode r_binding "\<lambda>_. True"
proof unfold_locales
  fix b
  show "reads r_binding (binding_encode b) b"
  proof (cases b)
    case (Bound a)
    have "reads (p_bind r_bytes32 (\<lambda>a. p_return (Bound a))) (w_bytes32 a) (Bound a)"
      by (rule reads_bind_return [OF b32c.round_trip]) simp_all
    with Bound show ?thesis
      unfolding r_binding_def by (auto intro!: reads_bind [OF u8c.round_trip])
  next
    case Vacant
    have "reads r_binding (w_u8 TAG_VACANT @ []) Vacant"
      unfolding r_binding_def
      by (rule reads_bind [OF u8c.round_trip]) (simp_all add: TAG_BOUND_def TAG_VACANT_def reads_return)
    with Vacant show ?thesis by simp
  qed
next
  fix r b r'
  assume ok: "reader_ok r" and rd: "r_binding r = Ok (b, r')"
  then obtain t r1 where t: "r_u8 r = Ok (t, r1)" by (auto simp: r_binding_def result_simps)
  have c: "consumes r (w_u8 t) r1" using u8c.canonical [OF ok t] by simp
  from rd t show "True \<and> consumes r (binding_encode b) r'"
    using c b32c.canonical [OF consumes_ok [OF c]]
    by (auto simp: r_binding_def result_simps split: if_splits intro: consumes_trans)
qed

section \<open>Properties\<close>

text \<open>
  The account codec is a bijection between well-formed accounts and the byte strings the
  decoder accepts: decoding undoes encoding, and every accepted string is the encoding of the
  account it decodes to, so no account has two stored representations.
\<close>

lemma account_codec_exact:
  assumes "length bs < 2 ^ 63"
  shows "account_decode bs = Ok a \<longleftrightarrow> account_wf a \<and> bs = account_encode a"
  using accountc.parse_all_iff [OF assms, of a]
  by (simp add: account_decode_def account_decode_inner_def result_simps)

text \<open>
  Crediting and debiting on every branch: a success changes exactly the named balance by
  exactly the amount, in unbounded arithmetic, and keeps the nonce and the invariant; a
  failure names the overflow or the shortfall and occurs only when there is one; neither
  panics.
\<close>

lemma account_arithmetic:
  assumes inv: "account_inv a"
  shows "(case credit a asset amount of
      Ok a' \<Rightarrow> account_inv a' \<and> nonce a' = nonce a
        \<and> (\<forall>x. unat (balance a' x) = unat (balance a x) + (if x = asset then unat amount else 0))
    | Err e \<Rightarrow> e = Overflow \<and> 2 ^ 128 \<le> unat (balance a asset) + unat amount
    | Panic \<Rightarrow> False)
   \<and> (case debit a asset amount of
      Ok a' \<Rightarrow> account_inv a' \<and> nonce a' = nonce a
        \<and> (\<forall>x. unat (balance a x) = unat (balance a' x) + (if x = asset then unat amount else 0))
    | Err e \<Rightarrow> e = Insufficient (balance a asset) amount \<and> balance a asset < amount
    | Panic \<Rightarrow> False)" (is "?c \<and> ?d")
proof
  show ?c
  proof (cases "credit a asset amount")
    case (Ok a')
    with credit_Ok [OF inv Ok] show ?thesis by simp
  next
    case (Err e)
    with credit_Err [OF Err] show ?thesis by simp
  qed simp
  show ?d
  proof (cases "debit a asset amount")
    case (Ok a')
    with debit_Ok [OF inv Ok] show ?thesis by simp
  next
    case (Err e)
    with debit_Err [OF Err] show ?thesis by (simp add: word_less_nat_alt)
  qed simp
qed

text \<open>
  Spending history leaves no trace: two accounts have the same stored bytes exactly when
  they have the same nonce and the same balance in every asset, whatever sequence of credits
  and debits led to them.
\<close>

lemma account_bytes_history_free:
  assumes "account_wf a" "account_wf b"
  shows "account_encode a = account_encode b \<longleftrightarrow> nonce a = nonce b \<and> (\<forall>x. balance a x = balance b x)"
proof
  assume eq: "account_encode a = account_encode b"
  have "length (account_encode a) < 2 ^ 63"
    using assms(1) by (simp add: account_encode_def account_wf_def w_balance_def length_concat case_prod_unfold
        comp_def sum_list_triv)
  with accountc.prefix_free [OF assms, of "[]" "[]"] eq have "a = b" by simp
  then show "nonce a = nonce b \<and> (\<forall>x. balance a x = balance b x)" by simp
next
  assume "nonce a = nonce b \<and> (\<forall>x. balance a x = balance b x)"
  with assms have "a = b" by (intro account_eqI) (auto simp: account_wf_def)
  then show "account_encode a = account_encode b" by simp
qed

end
