(* ===== verification/Gas.thy ===== *)
theory Gas
  imports Account
begin

text \<open>
  The fee records and fee arithmetic of \<open>gas.rs\<close>: whitelisted assets, the fee market and its
  EIP-1559 step, the fee split, and the settlement of a transaction's fee.  Arithmetic is on
  \<open>u128\<close> words: a checked operation returns an error, an unchecked one that would leave the
  range panics, as the release profile's overflow checks make it.
\<close>

section \<open>Constants\<close>

definition RATE_SCALE :: u128 where "RATE_SCALE = 1000000"
definition PRICE_SCALE :: u128 where "PRICE_SCALE = 1000000000000"
definition INTRINSIC_GAS :: u64 where "INTRINSIC_GAS = 21000"
definition KEYLESS_GAS :: u64 where "KEYLESS_GAS = 100000"
definition MAX_GAS_LIMIT :: u64 where "MAX_GAS_LIMIT = 30000000"
definition ELASTICITY :: u64 where "ELASTICITY = 2"
definition BASE_FEE_CHANGE_DENOMINATOR :: u128 where "BASE_FEE_CHANGE_DENOMINATOR = 8"
definition DEFAULT_BASE_FEE_FLOOR :: u128 where "DEFAULT_BASE_FEE_FLOOR = 25000000000"
definition DEFAULT_GAS_TARGET :: u64 where "DEFAULT_GAS_TARGET = 5000000"
definition DEFAULT_ASSET_INTRINSIC_GAS :: u64 where "DEFAULT_ASSET_INTRINSIC_GAS = 10000"
definition SHARE_SCALE :: u32 where "SHARE_SCALE = 1000000"
definition MAX_FEE_BENEFICIARIES :: nat where "MAX_FEE_BENEFICIARIES = 8"

datatype gas_error =
    ZeroRate
  | GasOverflow
  | FeeBelowBaseFee u128 u128
  | GasLimitTooLow u64 u64
  | GasLimitTooHigh u64
  | FeeRoundsToZero
  | TimestampRegressed
  | InvalidFeeSplit
  | InvalidFeeMarket

datatype malformed_record = MalformedRecord

section \<open>Whitelisted assets\<close>

record whitelisted_asset =
  wa_asset :: asset_id
  wa_symbol :: bytes
  wa_rate :: u128
  wa_intrinsic_gas :: u64
  wa_enabled :: bool

definition asset_encode :: "whitelisted_asset \<Rightarrow> bytes" where
  "asset_encode w = w_u32 (wa_asset w) @ w_string (wa_symbol w) @ w_u128 (wa_rate w)
     @ w_u64 (wa_intrinsic_gas w) @ w_bool (wa_enabled w)"

definition r_whitelisted_asset :: "whitelisted_asset parser" where
  "r_whitelisted_asset =
     p_bind r_u32 (\<lambda>asset. p_bind r_string (\<lambda>symbol. p_bind r_u128 (\<lambda>rate.
     p_bind r_u64 (\<lambda>gas. p_bind r_bool (\<lambda>enabled.
       p_return \<lparr>wa_asset = asset, wa_symbol = symbol, wa_rate = rate,
                 wa_intrinsic_gas = gas, wa_enabled = enabled\<rparr>)))))"

definition asset_decode :: "bytes \<Rightarrow> (malformed_record, whitelisted_asset) result" where
  "asset_decode bs = map_err (\<lambda>_. MalformedRecord) (parse_all r_whitelisted_asset bs)"

section \<open>The fee market\<close>

record fee_market =
  fm_base_fee :: u128
  fm_floor :: u128
  fm_target :: u64
  fm_window_ts :: u64
  fm_window_gas :: u64

definition fee_market_genesis :: "u128 \<Rightarrow> u64 \<Rightarrow> fee_market" where
  "fee_market_genesis fl target =
     \<lparr>fm_base_fee = fl, fm_floor = fl, fm_target = target, fm_window_ts = 0, fm_window_gas = 0\<rparr>"

definition window_limit :: "fee_market \<Rightarrow> u64" where
  "window_limit m = saturating_mul (fm_target m) ELASTICITY"

definition next_base_fee :: "u128 \<Rightarrow> u64 \<Rightarrow> u64 \<Rightarrow> u128 \<Rightarrow> (gas_error, u128) result" where
  "next_base_fee base gas64 target64 fl =
     (let gas = ucast gas64; target = ucast target64 in
      and_then
        (if target = 0 \<or> gas > target then
           (let excess = (if target = 0 then gas else gas - target) in
            and_then (ok_or (checked_mul base excess) GasOverflow) (\<lambda>product.
              let delta = product div max target 1 div BASE_FEE_CHANGE_DENOMINATOR in
              ok_or (checked_add base (max delta 1)) GasOverflow))
         else
           and_then (ok_or (checked_mul base (target - gas)) GasOverflow) (\<lambda>product.
             let delta = product div target div BASE_FEE_CHANGE_DENOMINATOR in
             or_panic (checked_sub base delta)))
        (\<lambda>next. Ok (max next fl)))"

definition market_at :: "fee_market \<Rightarrow> u64 \<Rightarrow> (gas_error, fee_market) result" where
  "market_at m timestamp =
     (if timestamp < fm_window_ts m then Err TimestampRegressed
      else if timestamp = fm_window_ts m then Ok m
      else and_then (next_base_fee (fm_base_fee m) (fm_window_gas m) (fm_target m) (fm_floor m))
        (\<lambda>next. Ok (m\<lparr>fm_base_fee := next, fm_window_ts := timestamp, fm_window_gas := 0\<rparr>)))"

definition base_fee_at :: "fee_market \<Rightarrow> u64 \<Rightarrow> (gas_error, u128) result" where
  "base_fee_at m timestamp = and_then (market_at m timestamp) (\<lambda>m'. Ok (fm_base_fee m'))"

definition market_encode :: "fee_market \<Rightarrow> bytes" where
  "market_encode m = w_u128 (fm_base_fee m) @ w_u128 (fm_floor m) @ w_u64 (fm_target m)
     @ w_u64 (fm_window_ts m) @ w_u64 (fm_window_gas m)"

definition r_fee_market :: "fee_market parser" where
  "r_fee_market =
     p_bind r_u128 (\<lambda>base. p_bind r_u128 (\<lambda>fl. p_bind r_u64 (\<lambda>target.
     p_bind r_u64 (\<lambda>ts. p_bind r_u64 (\<lambda>gas.
       p_return \<lparr>fm_base_fee = base, fm_floor = fl, fm_target = target,
                 fm_window_ts = ts, fm_window_gas = gas\<rparr>)))))"

definition market_decode :: "bytes \<Rightarrow> (malformed_record, fee_market) result" where
  "market_decode bs = map_err (\<lambda>_. MalformedRecord) (parse_all r_fee_market bs)"

section \<open>The fee split\<close>

record fee_split =
  fs_beneficiaries :: "(l2address \<times> u32) list"
  fs_burn :: u32

text \<open>The loop of \<open>check\<close>, with the entries before the current one.\<close>

fun check_shares ::
    "(l2address \<times> u32) list \<Rightarrow> (l2address \<times> u32) list \<Rightarrow> u64 \<Rightarrow> (gas_error, u64) result" where
  "check_shares seen [] tot = Ok tot"
| "check_shares seen ((address, share) # rest) tot =
     (if share = 0 \<or> list_ex (\<lambda>(a, _). a = address) seen then Err InvalidFeeSplit
      else and_then (or_panic (checked_add tot (ucast share)))
        (\<lambda>tot'. check_shares (seen @ [(address, share)]) rest tot'))"

definition split_check :: "fee_split \<Rightarrow> (gas_error, unit) result" where
  "split_check s =
     (if length (fs_beneficiaries s) > MAX_FEE_BENEFICIARIES then Err InvalidFeeSplit
      else and_then (check_shares [] (fs_beneficiaries s) (ucast (fs_burn s))) (\<lambda>tot.
        if tot = ucast SHARE_SCALE then Ok () else Err InvalidFeeSplit))"

fun shares_loop :: "(l2address \<times> u32) list \<Rightarrow> u128 \<Rightarrow> (gas_error, (l2address \<times> u128) list) result" where
  "shares_loop [] amount = Ok []"
| "shares_loop ((address, share) # rest) amount =
     and_then (ok_or (checked_mul amount (ucast share)) GasOverflow) (\<lambda>product.
       and_then (shares_loop rest amount) (\<lambda>values.
         Ok ((address, product div ucast SHARE_SCALE) # values)))"

definition shares_of :: "fee_split \<Rightarrow> u128 \<Rightarrow> (gas_error, (l2address \<times> u128) list) result" where
  "shares_of s amount = shares_loop (fs_beneficiaries s) amount"

definition w_share :: "l2address \<times> u32 \<Rightarrow> bytes" where
  "w_share = (\<lambda>(address, share). w_bytes32 address @ w_u32 share)"

definition r_share :: "(l2address \<times> u32) parser" where
  "r_share = p_bind r_bytes32 (\<lambda>address. p_bind r_u32 (\<lambda>share. p_return (address, share)))"

definition split_encode :: "fee_split \<Rightarrow> bytes" where
  "split_encode s = w_u32 (of_nat (length (fs_beneficiaries s)))
     @ concat (map w_share (fs_beneficiaries s)) @ w_u32 (fs_burn s)"

definition r_fee_split :: "fee_split parser" where
  "r_fee_split =
     p_bind r_u32 (\<lambda>count.
       if unat count > MAX_FEE_BENEFICIARIES then p_fail LengthOverflow
       else p_bind (r_repeat (unat count) r_share) (\<lambda>bens. p_bind r_u32 (\<lambda>burn.
         p_return \<lparr>fs_beneficiaries = bens, fs_burn = burn\<rparr>)))"

definition split_decode :: "bytes \<Rightarrow> (malformed_record, fee_split) result" where
  "split_decode bs = map_err (\<lambda>_. MalformedRecord) (parse_all r_fee_split bs)"

section \<open>Settlement\<close>

definition native_to_asset :: "u128 \<Rightarrow> u128 \<Rightarrow> (gas_error, u128) result" where
  "native_to_asset native rate =
     (if rate = 0 then Err ZeroRate
      else and_then (ok_or (checked_mul native rate) GasOverflow) (\<lambda>v. Ok (v div RATE_SCALE)))"

record fee_charge =
  fc_gas_used :: u64
  fc_hold :: u128
  fc_refund :: u128
  fc_tip :: u128
  fc_base :: u128

definition total_price :: "u64 \<Rightarrow> u128 \<Rightarrow> (gas_error, u128) result" where
  "total_price gas price =
     ok_or (map_option (\<lambda>v. v div PRICE_SCALE) (checked_mul (ucast gas) price)) GasOverflow"

definition settle ::
    "u64 \<Rightarrow> u64 \<Rightarrow> u128 \<Rightarrow> u128 \<Rightarrow> u128 \<Rightarrow> u128 \<Rightarrow> (gas_error, fee_charge) result" where
  "settle gas_limit gas_used max_fee_per_gas max_priority_fee_per_gas base_fee rate =
     (if gas_limit > MAX_GAS_LIMIT then Err (GasLimitTooHigh gas_limit)
      else if gas_used > gas_limit then Err (GasLimitTooLow gas_limit gas_used)
      else and_then (native_to_asset base_fee rate) (\<lambda>base_per_gas.
        if max_fee_per_gas < base_per_gas then Err (FeeBelowBaseFee max_fee_per_gas base_per_gas)
        else
          let tip_per_gas = min max_priority_fee_per_gas (max_fee_per_gas - base_per_gas) in
          and_then (or_panic (checked_add base_per_gas tip_per_gas)) (\<lambda>price.
          and_then (total_price gas_limit price) (\<lambda>hold.
          if hold = 0 then Err FeeRoundsToZero
          else
            and_then (total_price (gas_limit - gas_used) price) (\<lambda>refund.
            and_then (total_price gas_used tip_per_gas) (\<lambda>tip.
            and_then (total_price gas_used base_per_gas) (\<lambda>base.
            and_then (or_panic (checked_sub hold refund)) (\<lambda>r1.
            and_then (or_panic (checked_sub r1 tip)) (\<lambda>r2.
            and_then (or_panic (checked_sub r2 base)) (\<lambda>remainder.
            and_then (or_panic (checked_add base remainder)) (\<lambda>total_base.
              Ok \<lparr>fc_gas_used = gas_used, fc_hold = hold, fc_refund = refund, fc_tip = tip,
                  fc_base = total_base\<rparr>)))))))))))"

section \<open>Record codecs\<close>

interpretation marketc: codec market_encode r_fee_market "\<lambda>_. True"
proof (rule codecI)
  fix m :: fee_market
  show "reads r_fee_market (market_encode m) m"
    unfolding r_fee_market_def market_encode_def
    by ((rule reads_rules)+, simp)
qed (unfold r_fee_market_def, (rule accepts_rules)+, auto simp: market_encode_def)

interpretation sharec: codec w_share r_share "\<lambda>_. True"
proof (rule codecI)
  fix s
  show "reads r_share (w_share s) s"
    unfolding r_share_def w_share_def
    by (cases s) (simp, (rule reads_rules)+, simp)
qed (unfold r_share_def, (rule accepts_rules)+, auto simp: w_share_def)

definition split_wf :: "fee_split \<Rightarrow> bool" where
  "split_wf s \<longleftrightarrow> length (fs_beneficiaries s) \<le> MAX_FEE_BENEFICIARIES"

interpretation splitc: codec split_encode r_fee_split split_wf
proof (rule codecI)
  fix s assume "split_wf s"
  then have len: "unat (of_nat (length (fs_beneficiaries s)) :: u32) = length (fs_beneficiaries s)"
    "length (fs_beneficiaries s) \<le> MAX_FEE_BENEFICIARIES"
    by (auto simp: split_wf_def MAX_FEE_BENEFICIARIES_def unat_of_nat)
  have "reads (p_bind (r_repeat (length (fs_beneficiaries s)) r_share) (\<lambda>bens. p_bind r_u32 (\<lambda>burn.
         p_return \<lparr>fs_beneficiaries = bens, fs_burn = burn\<rparr>)))
       (concat (map w_share (fs_beneficiaries s)) @ w_u32 (fs_burn s)) s"
    by (rule reads_bind [OF sharec.repeat_round_trip], simp add: list_all_iff,
        rule reads_bind_return [OF u32c.round_trip]) simp_all
  then show "reads r_fee_split (split_encode s) s"
    unfolding r_fee_split_def split_encode_def
    by (intro reads_bind [OF u32c.round_trip]) (use len in simp_all)
qed (unfold r_fee_split_def, (rule accepts_rules sharec.codec_axioms)+,
     auto simp: split_encode_def split_wf_def split: if_splits)

definition asset_wf :: "whitelisted_asset \<Rightarrow> bool" where
  "asset_wf w \<longleftrightarrow> utf8_valid (wa_symbol w) \<and> length (wa_symbol w) < 2 ^ 32"

interpretation assetc: decodes asset_encode r_whitelisted_asset asset_wf
proof
  fix w assume "asset_wf w"
  then have sym: "reads r_string (w_string (wa_symbol w)) (wa_symbol w)"
    by (intro stringc.round_trip) (simp add: asset_wf_def)
  show "reads r_whitelisted_asset (asset_encode w) w"
    unfolding r_whitelisted_asset_def asset_encode_def
    by ((rule reads_rules sym)+, simp)
qed

section \<open>Fee arithmetic\<close>

lemma unat_up [simp]:
  "unat (ucast (x :: u64) :: u128) = unat x" "unat (ucast (y :: u32) :: u128) = unat y"
  "unat (ucast (y :: u32) :: u64) = unat y"
  using unat_less_pow [of x] unat_less_pow [of y]
  by (simp_all add: unsigned_ucast_eq take_bit_nat_eq_self)

lemma total_price_Ok_iff:
  "total_price gas price = Ok v \<longleftrightarrow>
     unat gas * unat price < 2 ^ 128 \<and> unat v = unat gas * unat price div unat PRICE_SCALE"
proof (cases "checked_mul (ucast gas) price")
  case None
  then have "2 ^ 128 \<le> unat gas * unat price" by (simp add: checked_mul_None_iff)
  with None show ?thesis by (simp add: total_price_def)
next
  case (Some w)
  then have "unat w = unat gas * unat price" by (simp add: checked_mul_Some_iff)
  with Some unat_less_pow [of w] show ?thesis
    by (auto simp: total_price_def unat_div word_unat_eq_iff)
qed

lemma total_price_Err: "total_price gas price = Err e \<longleftrightarrow> e = GasOverflow \<and> 2 ^ 128 \<le> unat gas * unat price"
  by (auto simp: total_price_def result_simps checked_mul_None_iff)

lemma total_price_not_Panic [simp]: "total_price gas price \<noteq> Panic"
  by (simp add: total_price_def)

lemma div_add_le: "a div n + b div n \<le> (a + b) div (n :: nat)"
  using div_add1_eq [of a b n] by simp

text \<open>The floors of the parts never exceed the floor of the whole.\<close>

lemma settle_parts:
  fixes L U b t S :: nat
  assumes "U \<le> L"
  shows "(L - U) * (b + t) div S + U * t div S + U * b div S \<le> L * (b + t) div S"
proof -
  have "(L - U) * (b + t) + U * t + U * b = L * (b + t)"
  proof -
    obtain d where "L = U + d" using assms le_Suc_ex by blast
    then show ?thesis by (simp add: algebra_simps)
  qed
  moreover have "(L - U) * (b + t) div S + U * t div S + U * b div S
      \<le> ((L - U) * (b + t) + U * t + U * b) div S"
    using div_add_le [of "(L - U) * (b + t)" S "U * t"] div_add_le [of "(L - U) * (b + t) + U * t" S "U * b"]
    by linarith
  ultimately show ?thesis by simp
qed

text \<open>One success of \<open>settle\<close>, read as naturals.\<close>

definition settled :: "nat \<Rightarrow> nat \<Rightarrow> nat \<Rightarrow> nat \<Rightarrow> fee_charge \<Rightarrow> bool" where
  "settled L U b t c \<longleftrightarrow>
     (let S = unat PRICE_SCALE in
      unat (fc_hold c) = L * (b + t) div S
      \<and> unat (fc_refund c) = (L - U) * (b + t) div S
      \<and> unat (fc_tip c) = U * t div S
      \<and> unat (fc_base c) = L * (b + t) div S - (L - U) * (b + t) div S - U * t div S)"

lemma checked_sub_possible: "unat b \<le> unat a \<Longrightarrow> \<exists>c. checked_sub a b = Some c \<and> unat c = unat a - unat b"
  for a b :: "'a::len word"
  by (cases "checked_sub a b") (auto simp: arith_spec)

lemma checked_add_possible:
  "unat a + unat b < 2 ^ LENGTH('a) \<Longrightarrow> \<exists>c. checked_add a b = Some c \<and> unat c = unat a + unat b"
  for a b :: "'a::len word"
  by (cases "checked_add a b") (auto simp: arith_spec)

lemma checked_mul_possible:
  "unat a * unat b < 2 ^ LENGTH('a) \<Longrightarrow> \<exists>c. checked_mul a b = Some c \<and> unat c = unat a * unat b"
  for a b :: "'a::len word"
  by (cases "checked_mul a b") (auto simp: arith_spec)

text \<open>The subtractions and the last addition of \<open>settle\<close> stay in range.\<close>

lemma remainder_in_range:
  fixes hold refund tip base :: u128
  assumes "unat refund + unat tip + unat base \<le> unat hold"
  shows "\<exists>r1 r2 r3 b. checked_sub hold refund = Some r1 \<and> checked_sub r1 tip = Some r2
    \<and> checked_sub r2 base = Some r3 \<and> checked_add base r3 = Some b
    \<and> unat b = unat hold - unat refund - unat tip"
proof -
  obtain r1 where r1: "checked_sub hold refund = Some r1" "unat r1 = unat hold - unat refund"
    using checked_sub_possible [of refund hold] assms by auto
  obtain r2 where r2: "checked_sub r1 tip = Some r2" "unat r2 = unat hold - unat refund - unat tip"
    using checked_sub_possible [of tip r1] assms r1 by fastforce
  obtain r3 where r3: "checked_sub r2 base = Some r3" "unat r3 = unat r2 - unat base"
    using checked_sub_possible [of base r2] assms r2 by fastforce
  have s: "unat base + unat r3 = unat r2" using assms r2 r3 by simp
  moreover have "unat base + unat r3 < 2 ^ LENGTH(128)" using s unat_less_pow [of r2] by simp
  ultimately show ?thesis using checked_add_possible [of base r3] r1 r2 r3 by auto
qed

lemma settle_tail:
  fixes b t price hold :: u128
  assumes UL: "U \<le> L" and price: "unat price = unat b + unat t" and hold: "total_price L price = Ok hold"
  shows "\<exists>c. and_then (total_price (L - U) price) (\<lambda>refund.
            and_then (total_price U t) (\<lambda>tip.
            and_then (total_price U b) (\<lambda>base.
            and_then (or_panic (checked_sub hold refund)) (\<lambda>r1.
            and_then (or_panic (checked_sub r1 tip)) (\<lambda>r2.
            and_then (or_panic (checked_sub r2 base)) (\<lambda>remainder.
            and_then (or_panic (checked_add base remainder)) (\<lambda>total_base.
              Ok \<lparr>fc_gas_used = U, fc_hold = hold, fc_refund = refund, fc_tip = tip,
                  fc_base = total_base\<rparr>))))))) = (Ok c :: (gas_error, fee_charge) result)
    \<and> settled (unat L) (unat U) (unat b) (unat t) c \<and> fc_hold c = hold \<and> fc_gas_used c = U"
proof -
  have UL': "unat U \<le> unat L" using UL by (simp add: word_le_nat_alt)
  have LU: "unat (L - U) = unat L - unat U" using UL by (simp add: unat_sub)
  have H: "unat L * unat price < 2 ^ 128" "unat hold = unat L * unat price div unat PRICE_SCALE"
    using hold by (auto simp: total_price_Ok_iff)
  have lt: "x * y < 2 ^ 128" if "x \<le> unat L" "y \<le> unat price" for x y
    using mult_le_mono [OF that] H(1) by linarith
  have "\<exists>v. total_price g p = Ok v \<and> unat v = unat g * unat p div unat PRICE_SCALE"
    if "unat g \<le> unat L" "unat p \<le> unat price" for g p
    using lt [OF that] total_price_Err [of g p] by (cases "total_price g p") (auto simp: total_price_Ok_iff)
  then obtain refund tip base where
    p: "total_price (L - U) price = Ok refund" "unat refund = (unat L - unat U) * unat price div unat PRICE_SCALE"
       "total_price U t = Ok tip" "unat tip = unat U * unat t div unat PRICE_SCALE"
       "total_price U b = Ok base" "unat base = unat U * unat b div unat PRICE_SCALE"
    using UL' LU price by (metis diff_le_self le_add1 le_add2 order_refl)
  have "unat refund + unat tip + unat base \<le> unat hold"
    using settle_parts [OF UL', of "unat b" "unat t"] p(2,4,6) H(2) price by simp
  from remainder_in_range [OF this] obtain r1 r2 r3 tb where
    "checked_sub hold refund = Some r1" "checked_sub r1 tip = Some r2" "checked_sub r2 base = Some r3"
    "checked_add base r3 = Some tb" "unat tb = unat hold - unat refund - unat tip" by blast
  with p H(2) price show ?thesis by (auto simp: settled_def Let_def)
qed

text \<open>The EIP-1559 step, read as naturals.\<close>

lemma BASE_FEE_CHANGE_DENOMINATOR_unat [simp]: "unat BASE_FEE_CHANGE_DENOMINATOR = 8"
  by (simp add: BASE_FEE_CHANGE_DENOMINATOR_def)

lemma max_1_unat: "unat (max (w :: u128) 1) = max (unat w) 1"
  by simp

lemma base_fee_up:
  assumes "target < gas" "target \<noteq> 0"
  shows "next_base_fee base gas target fl =
    (let B = unat base; D = B * (unat gas - unat target) div unat target div 8 in
     if B * (unat gas - unat target) < 2 ^ 128 \<and> B + max D 1 < 2 ^ 128
     then Ok (max (of_nat (B + max D 1)) fl) else Err GasOverflow)"
proof -
  let ?g = "ucast gas :: u128" and ?t = "ucast target :: u128"
  have t: "?t \<noteq> 0" "?t < ?g" "unat (?g - ?t) = unat gas - unat target" "unat ?t > 0"
    using assms by (auto simp: word_less_nat_alt unat_sub word_le_nat_alt less_imp_le
        simp flip: unat_gt_0)
  have m: "unat (max ?t 1) = unat target" using t(4) by simp
  show ?thesis
  proof (cases "checked_mul base (?g - ?t)")
    case None
    then have "\<not> unat base * (unat gas - unat target) < 2 ^ 128" using t(3) by (simp add: arith_spec)
    with None t show ?thesis by (simp add: next_base_fee_def Let_def)
  next
    case (Some p)
    then have p: "unat p = unat base * (unat gas - unat target)" using t(3) by (simp add: arith_spec)
    let ?d = "p div max ?t 1 div BASE_FEE_CHANGE_DENOMINATOR"
    have d: "unat (max ?d 1) = max (unat base * (unat gas - unat target) div unat target div 8) 1"
      using m p by (simp add: unat_div)
    have lt: "unat base * (unat gas - unat target) < 2 ^ 128" using p unat_less_pow [of p] by simp
    show ?thesis
    proof (cases "checked_add base (max ?d 1)")
      case None
      then have "\<not> unat base + max (unat base * (unat gas - unat target) div unat target div 8) 1 < 2 ^ 128"
        unfolding checked_add_None_iff d by simp
      with None t Some lt show ?thesis by (simp add: next_base_fee_def Let_def)
    next
      case (Some n)
      then have n: "unat n = unat base + max (unat base * (unat gas - unat target) div unat target div 8) 1"
        using d by (simp add: checked_add_Some_iff)
      then have "n = of_nat (unat base + max (unat base * (unat gas - unat target) div unat target div 8) 1)"
        by (metis of_nat_unat_word)
      with n Some \<open>checked_mul base (?g - ?t) = Some p\<close> t lt unat_less_pow [of n] show ?thesis
        by (simp add: next_base_fee_def Let_def)
    qed
  qed
qed

lemma step_le: "(x :: nat) \<le> t \<Longrightarrow> b * x div t div 8 \<le> b div 8"
proof -
  assume "x \<le> t"
  then have "b * x div t \<le> b * t div t" by (intro div_le_mono mult_le_mono2)
  then have "b * x div t \<le> b" by (cases "t = 0") simp_all
  then show ?thesis by (rule div_le_mono)
qed

lemma base_fee_down:
  assumes "gas \<le> target" "target \<noteq> 0"
  shows "next_base_fee base gas target fl =
    (let B = unat base; D = B * (unat target - unat gas) div unat target div 8 in
     if B * (unat target - unat gas) < 2 ^ 128
     then Ok (max (of_nat (B - D)) fl) else Err GasOverflow)"
proof -
  let ?g = "ucast gas :: u128" and ?t = "ucast target :: u128"
  have t: "?t \<noteq> 0" "\<not> ?t < ?g" "unat (?t - ?g) = unat target - unat gas"
    using assms by (auto simp: word_less_nat_alt unat_sub word_le_nat_alt simp flip: unat_gt_0)
  show ?thesis
  proof (cases "checked_mul base (?t - ?g)")
    case None
    then have "\<not> unat base * (unat target - unat gas) < 2 ^ 128" using t(3) by (simp add: arith_spec)
    with None t show ?thesis by (simp add: next_base_fee_def Let_def)
  next
    case (Some p)
    then have p: "unat p = unat base * (unat target - unat gas)" using t(3) by (simp add: arith_spec)
    let ?d = "p div ?t div BASE_FEE_CHANGE_DENOMINATOR"
    have d: "unat ?d = unat base * (unat target - unat gas) div unat target div 8"
      using p by (simp add: unat_div)
    have lt: "unat base * (unat target - unat gas) < 2 ^ 128" using p unat_less_pow [of p] by simp
    have dle: "unat ?d \<le> unat base"
      using d step_le [of "unat target - unat gas" "unat target" "unat base"] div_le_dividend [of "unat base" 8]
      by linarith
    obtain n where n: "checked_sub base ?d = Some n" "unat n = unat base - unat ?d"
      using checked_sub_possible [OF dle] by blast
    then have "n = of_nat (unat base - unat base * (unat target - unat gas) div unat target div 8)"
      using d by (metis of_nat_unat_word)
    with n Some t lt show ?thesis by (simp add: next_base_fee_def Let_def)
  qed
qed

text \<open>A market never prices below its floor.\<close>

definition market_inv :: "fee_market \<Rightarrow> bool" where
  "market_inv m \<longleftrightarrow> fm_floor m \<le> fm_base_fee m"

lemma next_base_fee_floor: "next_base_fee base gas target fl = Ok n \<Longrightarrow> fl \<le> n"
  by (auto simp: next_base_fee_def Let_def result_simps)

lemma market_at_inv: "market_inv m \<Longrightarrow> market_at m ts = Ok m' \<Longrightarrow> market_inv m'"
  by (auto simp: market_inv_def market_at_def result_simps next_base_fee_floor split: if_splits)

lemma settle_exact:
  assumes lim: "gas_limit \<le> MAX_GAS_LIMIT" "gas_used \<le> gas_limit"
    and nb: "native_to_asset base_fee rate = Ok b" and fee: "\<not> max_fee < b"
    and tip: "tip = min (unat max_tip) (unat max_fee - unat b)"
  shows "if 2 ^ 128 \<le> unat gas_limit * (unat b + tip) then settle gas_limit gas_used max_fee max_tip base_fee rate = Err GasOverflow
     else if unat gas_limit * (unat b + tip) < unat PRICE_SCALE then settle gas_limit gas_used max_fee max_tip base_fee rate = Err FeeRoundsToZero
     else \<exists>c. settle gas_limit gas_used max_fee max_tip base_fee rate = Ok c
       \<and> settled (unat gas_limit) (unat gas_used) (unat b) tip c \<and> fc_gas_used c = gas_used"
proof -
  define t where "t = min max_tip (max_fee - b)"
  have bf: "b \<le> max_fee" using fee by (simp add: not_less)
  then have t: "unat t = tip" by (auto simp: tip t_def unat_sub word_le_nat_alt min_def)
  have "unat b + unat t \<le> unat max_fee" using bf by (simp add: t tip word_le_nat_alt)
  then have "unat b + unat t < 2 ^ LENGTH(128)" using unat_less_pow [of max_fee] by linarith
  from checked_add_possible [OF this] obtain price where
    price: "checked_add b t = Some price" "unat price = unat b + unat t" by blast
  have unf: "settle gas_limit gas_used max_fee max_tip base_fee rate = and_then (total_price gas_limit price) (\<lambda>hold.
          if hold = 0 then Err FeeRoundsToZero
          else
            and_then (total_price (gas_limit - gas_used) price) (\<lambda>refund.
            and_then (total_price gas_used t) (\<lambda>tip.
            and_then (total_price gas_used b) (\<lambda>base.
            and_then (or_panic (checked_sub hold refund)) (\<lambda>r1.
            and_then (or_panic (checked_sub r1 tip)) (\<lambda>r2.
            and_then (or_panic (checked_sub r2 base)) (\<lambda>remainder.
            and_then (or_panic (checked_add base remainder)) (\<lambda>total_base.
              Ok \<lparr>fc_gas_used = gas_used, fc_hold = hold, fc_refund = refund, fc_tip = tip,
                  fc_base = total_base\<rparr>))))))))"
    using lim nb fee price(1) by (simp add: settle_def Let_def not_less [symmetric] flip: t_def)
  show ?thesis
  proof (cases "total_price gas_limit price")
    case (Err e)
    then have "e = GasOverflow" "2 ^ 128 \<le> unat gas_limit * (unat b + tip)"
      unfolding total_price_Err by (simp_all add: price(2) t)
    then show ?thesis using unf Err by simp
  next
    case (Ok hold)
    then have h: "unat gas_limit * (unat b + tip) < 2 ^ 128" "unat hold = unat gas_limit * (unat b + tip) div unat PRICE_SCALE"
      by (simp_all add: total_price_Ok_iff price(2) t)
    have "hold = 0 \<longleftrightarrow> unat gas_limit * (unat b + tip) < unat PRICE_SCALE"
      using h(2) by (simp add: unat_eq_zero [symmetric] div_eq_0_iff PRICE_SCALE_def)
    with settle_tail [OF lim(2) price(2) Ok] h(1) unf Ok show ?thesis by (auto simp: t)
  qed simp
qed

text \<open>What the parts of a settled fee add up to, and their bounds.\<close>

lemma settled_bounds:
  assumes c: "settled L U b t c" and UL: "U \<le> L" and F: "b + t \<le> F" and T: "t \<le> T"
  shows "unat (fc_refund c) + unat (fc_tip c) + unat (fc_base c) = unat (fc_hold c)"
    "unat (fc_hold c) \<le> L * F div unat PRICE_SCALE" "unat (fc_tip c) \<le> U * T div unat PRICE_SCALE"
    "U * b div unat PRICE_SCALE \<le> unat (fc_base c)"
proof -
  have parts: "unat (fc_hold c) = L * (b + t) div unat PRICE_SCALE" "unat (fc_refund c) = (L - U) * (b + t) div unat PRICE_SCALE"
    "unat (fc_tip c) = U * t div unat PRICE_SCALE" "unat (fc_base c) = unat (fc_hold c) - unat (fc_refund c) - unat (fc_tip c)"
    using c by (auto simp: settled_def Let_def)
  then show "unat (fc_refund c) + unat (fc_tip c) + unat (fc_base c) = unat (fc_hold c)"
    "U * b div unat PRICE_SCALE \<le> unat (fc_base c)"
    using settle_parts [OF UL, of b t "unat PRICE_SCALE"] by linarith+
  show "unat (fc_hold c) \<le> L * F div unat PRICE_SCALE" "unat (fc_tip c) \<le> U * T div unat PRICE_SCALE"
    unfolding parts using F T by (auto intro!: div_le_mono mult_le_mono2)
qed

lemma settled_positive: "settled L U b t c \<Longrightarrow> unat PRICE_SCALE \<le> L * (b + t) \<Longrightarrow> 0 < unat (fc_hold c)"
  by (simp add: settled_def Let_def div_greater_zero_iff PRICE_SCALE_def)

lemma settle_priced:
  assumes lim: "gas_limit \<le> MAX_GAS_LIMIT" "gas_used \<le> gas_limit"
    and nb: "native_to_asset base_fee rate = Ok b" and fee: "\<not> max_fee < b"
  shows "case settle gas_limit gas_used max_fee max_tip base_fee rate of
     Ok c \<Rightarrow> unat (fc_refund c) + unat (fc_tip c) + unat (fc_base c) = unat (fc_hold c)
       \<and> 0 < unat (fc_hold c) \<and> fc_gas_used c = gas_used
       \<and> gas_used \<le> gas_limit \<and> gas_limit \<le> MAX_GAS_LIMIT
       \<and> unat (fc_hold c) \<le> unat gas_limit * unat max_fee div unat PRICE_SCALE
       \<and> unat (fc_tip c) \<le> unat gas_used * unat max_tip div unat PRICE_SCALE
       \<and> unat gas_used * unat b div unat PRICE_SCALE \<le> unat (fc_base c)
   | Err e \<Rightarrow> e = GasOverflow \<and> 2 ^ 128 \<le> unat gas_limit * unat max_fee \<or> e = FeeRoundsToZero
   | Panic \<Rightarrow> False"
proof -
  define tip where "tip = min (unat max_tip) (unat max_fee - unat b)"
  have le: "unat b + tip \<le> unat max_fee" "tip \<le> unat max_tip" using fee by (auto simp: tip_def word_less_nat_alt)
  have UL: "unat gas_used \<le> unat gas_limit" using lim(2) by (simp add: word_le_nat_alt)
  show ?thesis
  proof (cases "2 ^ 128 \<le> unat gas_limit * (unat b + tip)")
    case True
    then have "2 ^ 128 \<le> unat gas_limit * unat max_fee" using mult_le_mono2 [OF le(1), of "unat gas_limit"] by linarith
    with settle_exact [OF lim nb fee tip_def] True show ?thesis by simp
  next
    case F: False
    show ?thesis
    proof (cases "unat gas_limit * (unat b + tip) < unat PRICE_SCALE")
      case True
      with F settle_exact [OF lim nb fee tip_def] show ?thesis by simp
    next
      case False
      with F settle_exact [OF lim nb fee tip_def] obtain c where
        c: "settle gas_limit gas_used max_fee max_tip base_fee rate = Ok c"
          "settled (unat gas_limit) (unat gas_used) (unat b) tip c" "fc_gas_used c = gas_used" by auto
      with settled_bounds [OF c(2) UL le] settled_positive [OF c(2)] False lim show ?thesis by simp
    qed
  qed
qed

text \<open>The sum of the second components of an association list of words.\<close>

fun share_sum :: "('k \<times> 'a::len word) list \<Rightarrow> nat" where
  "share_sum [] = 0"
| "share_sum ((_, s) # rest) = unat s + share_sum rest"

lemma share_sum_bound: "share_sum (bens :: ('k \<times> 'a::len word) list) \<le> length bens * 2 ^ LENGTH('a)"
  by (induction bens rule: share_sum.induct) (auto intro: add_mono less_imp_le unat_less_pow)

lemma check_shares_Ok:
  "unat tot + share_sum bens < 2 ^ 64 \<Longrightarrow>
   check_shares seen bens tot =
     (if (\<forall>(a, s) \<in> set bens. s \<noteq> 0) \<and> distinct (map fst bens) \<and> fst ` set bens \<inter> fst ` set seen = {}
      then Ok (of_nat (unat tot + share_sum bens)) else Err InvalidFeeSplit)"
proof (induction seen bens tot rule: check_shares.induct)
  case (2 seen address share rest tot)
  have ex: "list_ex (\<lambda>(a, _). a = address) seen \<longleftrightarrow> address \<in> fst ` set seen"
    by (force simp: list_ex_iff)
  from "2.prems" have "unat tot + unat (ucast share :: u64) < 2 ^ LENGTH(64)" by simp
  from checked_add_possible [OF this] obtain t where
    t: "checked_add tot (ucast share) = Some t" "unat t = unat tot + unat share" by auto
  show ?case
  proof (cases "share = 0 \<or> address \<in> fst ` set seen")
    case True
    then show ?thesis using ex by auto
  next
    case False
    with 2 t ex show ?thesis by (auto simp: add.assoc)
  qed
qed simp

lemma split_check_iff:
  "split_check s = (if length (fs_beneficiaries s) \<le> 8 \<and> distinct (map fst (fs_beneficiaries s))
      \<and> (\<forall>(a, share) \<in> set (fs_beneficiaries s). share \<noteq> 0)
      \<and> unat (fs_burn s) + share_sum (fs_beneficiaries s) = 1000000
    then Ok () else Err InvalidFeeSplit)"
proof (cases "length (fs_beneficiaries s) \<le> 8")
  case True
  let ?S = "share_sum (fs_beneficiaries s)"
  have "?S \<le> length (fs_beneficiaries s) * 2 ^ LENGTH(32)" by (rule share_sum_bound)
  then have lt: "unat (ucast (fs_burn s) :: u64) + ?S < 2 ^ 64"
    using True unat_less_pow [of "fs_burn s"] by simp
  define v where "v = (of_nat (unat (ucast (fs_burn s) :: u64) + ?S) :: u64)"
  have "unat v = unat (fs_burn s) + ?S" 
    unfolding v_def by (subst unat_of_nat_small) (use lt in simp_all)
  then have "v = ucast SHARE_SCALE \<longleftrightarrow> unat (fs_burn s) + ?S = 1000000"
    by (simp add: word_unat_eq_iff SHARE_SCALE_def)
  with True check_shares_Ok [OF lt, of "[]", folded v_def] show ?thesis
    by (auto simp: split_check_def MAX_FEE_BENEFICIARIES_def)
qed (simp add: split_check_def MAX_FEE_BENEFICIARIES_def)

lemma share_sum_member: "(a, x) \<in> set bens \<Longrightarrow> unat x \<le> share_sum bens"
  by (induction bens rule: share_sum.induct) auto

lemma shares_loop_Ok:
  "shares_loop bens amount = Ok vs \<Longrightarrow>
   map fst vs = map fst bens \<and> share_sum vs * 1000000 \<le> unat amount * share_sum bens
   \<and> (\<forall>i < length bens. unat (snd (vs ! i)) = unat amount * unat (snd (bens ! i)) div 1000000)"
proof (induction bens amount arbitrary: vs rule: shares_loop.induct)
  case (2 address share rest amount)
  then obtain p vs' where cm: "checked_mul amount (ucast share) = Some p"
    and vs': "shares_loop rest amount = Ok vs'"
    and vs: "vs = (address, p div ucast SHARE_SCALE) # vs'"
    by (auto simp: result_simps)
  from cm have p: "unat p = unat amount * unat share" by (simp add: checked_mul_Some_iff)
  from vs' have ih: "map fst vs' = map fst rest" "share_sum vs' * 1000000 \<le> unat amount * share_sum rest"
    "\<forall>i < length rest. unat (snd (vs' ! i)) = unat amount * unat (snd (rest ! i)) div 1000000"
    using "2.IH" [OF _ vs', of p] cm by auto
  have v: "unat (p div ucast SHARE_SCALE) = unat amount * unat share div 1000000"
    using p by (simp add: unat_div SHARE_SCALE_def)
  have "unat amount * unat share div 1000000 * 1000000 \<le> unat amount * unat share"
    by (rule div_times_less_eq_dividend)
  then have "share_sum vs * 1000000 \<le> unat amount * share_sum ((address, share) # rest)"
    using ih(2) v vs by (simp add: algebra_simps)
  moreover have "unat (snd (vs ! i)) = unat amount * unat (snd (((address, share) # rest) ! i)) div 1000000"
    if "i < length ((address, share) # rest)" for i
    using that ih(3) v vs by (cases i) auto
  ultimately show ?case using ih(1) vs by auto
qed simp

lemma shares_loop_Err:
  "shares_loop bens amount = Err e \<Longrightarrow> e = GasOverflow \<and> (\<exists>(a, s) \<in> set bens. 2 ^ 128 \<le> unat amount * unat s)"
  by (induction bens amount rule: shares_loop.induct) (auto simp: result_simps checked_mul_None_iff)

lemma shares_loop_not_Panic [simp]: "shares_loop bens amount \<noteq> Panic"
  by (induction bens amount rule: shares_loop.induct) (auto simp: result_simps)

section \<open>Properties\<close>

text \<open>
  C37.  Settlement of a fee, exactly.  In this order: a gas limit over the maximum is refused, a limit below the gas
  used, a zero rate, a base fee whose price in the asset overflows, a maximum fee below that price, a hold
  that overflows, a hold that rounds to nothing; nothing else is.  Otherwise the tip for each unit of gas is the smaller
  of the priority fee and what the maximum leaves over the base fee; hold, refund and tip are the
  limit, the unused and the used gas at their prices, each rounded down; and refund, tip and base fee add up to the hold with no unit
  lost or created.  The hold is positive and at most what the sender authorised, the tip at most the sender's
  priority fee, and the vault gets at least the base fee of the gas used.  Nothing panics.
\<close>

theorem settle_correct:
  "let outcome = settle gas_limit gas_used max_fee max_tip base_fee rate;
       b = unat base_fee * unat rate div unat RATE_SCALE;
       t = min (unat max_tip) (unat max_fee - b);
       at_limit = unat gas_limit * (b + t) in
   if MAX_GAS_LIMIT < gas_limit then outcome = Err (GasLimitTooHigh gas_limit)
   else if gas_limit < gas_used then outcome = Err (GasLimitTooLow gas_limit gas_used)
   else if rate = 0 then outcome = Err ZeroRate
   else if 2 ^ 128 \<le> unat base_fee * unat rate then outcome = Err GasOverflow
   else if unat max_fee < b then outcome = Err (FeeBelowBaseFee max_fee (of_nat b))
   else if 2 ^ 128 \<le> at_limit then outcome = Err GasOverflow
   else if at_limit < unat PRICE_SCALE then outcome = Err FeeRoundsToZero
   else (\<exists>c. outcome = Ok c \<and> fc_gas_used c = gas_used
       \<and> unat (fc_hold c) = at_limit div unat PRICE_SCALE \<and> 0 < unat (fc_hold c)
       \<and> unat (fc_refund c) = (unat gas_limit - unat gas_used) * (b + t) div unat PRICE_SCALE
       \<and> unat (fc_tip c) = unat gas_used * t div unat PRICE_SCALE
       \<and> unat (fc_refund c) + unat (fc_tip c) + unat (fc_base c) = unat (fc_hold c)
       \<and> unat (fc_hold c) \<le> unat gas_limit * unat max_fee div unat PRICE_SCALE
       \<and> unat (fc_tip c) \<le> unat gas_used * unat max_tip div unat PRICE_SCALE
       \<and> unat gas_used * b div unat PRICE_SCALE \<le> unat (fc_base c))"
proof -
  consider "MAX_GAS_LIMIT < gas_limit" | "gas_limit \<le> MAX_GAS_LIMIT" "gas_limit < gas_used"
    | "gas_limit \<le> MAX_GAS_LIMIT" "gas_used \<le> gas_limit" "rate = 0"
    | "gas_limit \<le> MAX_GAS_LIMIT" "gas_used \<le> gas_limit" "rate \<noteq> 0" by fastforce
  then show ?thesis
  proof cases
    case 4
    then have lim: "\<not> MAX_GAS_LIMIT < gas_limit" "\<not> gas_limit < gas_used" by simp_all
    show ?thesis
    proof (cases "checked_mul base_fee rate")
      case None
      then have "2 ^ 128 \<le> unat base_fee * unat rate" by (simp add: arith_spec)
      with None 4 lim show ?thesis by (simp add: settle_def native_to_asset_def Let_def)
    next
      case (Some v)
      define b where "b = v div RATE_SCALE"
      have ub: "unat base_fee * unat rate div unat RATE_SCALE = unat b" and small: "\<not> 2 ^ 128 \<le> unat base_fee * unat rate"
        using Some unat_less_pow [of v] by (simp_all add: b_def unat_div arith_spec)
      have nb: "native_to_asset base_fee rate = Ok b"
        using Some 4 by (simp add: native_to_asset_def b_def)
      show ?thesis
      proof (cases "max_fee < b")
        case True
        with 4 lim nb small show ?thesis by (simp add: settle_def ub word_less_nat_alt Let_def)
      next
        case False
        define t where "t = min (unat max_tip) (unat max_fee - unat b)"
        have le: "unat b + t \<le> unat max_fee" "t \<le> unat max_tip" using False by (auto simp: t_def word_less_nat_alt)
        have UL: "unat gas_used \<le> unat gas_limit" using 4(2) by (simp add: word_le_nat_alt)
        have F: "\<not> unat max_fee < unat b" using False by (simp add: word_less_nat_alt)
        have ok: "\<exists>c. settle gas_limit gas_used max_fee max_tip base_fee rate = Ok c \<and> fc_gas_used c = gas_used
            \<and> unat (fc_hold c) = unat gas_limit * (unat b + t) div unat PRICE_SCALE \<and> 0 < unat (fc_hold c)
            \<and> unat (fc_refund c) = (unat gas_limit - unat gas_used) * (unat b + t) div unat PRICE_SCALE
            \<and> unat (fc_tip c) = unat gas_used * t div unat PRICE_SCALE
            \<and> unat (fc_refund c) + unat (fc_tip c) + unat (fc_base c) = unat (fc_hold c)
            \<and> unat (fc_hold c) \<le> unat gas_limit * unat max_fee div unat PRICE_SCALE
            \<and> unat (fc_tip c) \<le> unat gas_used * unat max_tip div unat PRICE_SCALE
            \<and> unat gas_used * unat b div unat PRICE_SCALE \<le> unat (fc_base c)"
          if "settle gas_limit gas_used max_fee max_tip base_fee rate = Ok c" "settled (unat gas_limit) (unat gas_used) (unat b) t c"
            "fc_gas_used c = gas_used" "unat PRICE_SCALE \<le> unat gas_limit * (unat b + t)" for c
          using that settled_bounds [OF that(2) UL le] settled_positive [OF that(2,4)]
          by (intro exI [of _ c]) (simp add: settled_def Let_def)
        from settle_exact [OF 4(1,2) nb False t_def] ok show ?thesis
          unfolding Let_def ub t_def [symmetric] using lim 4(3) small F by (auto split: if_splits)
      qed
    qed
  qed (auto simp: settle_def native_to_asset_def Let_def)
qed

theorem settle_correct_witness:
  "\<exists>c. settle 60000 30000 (50 * 10 ^ 9) (10 ^ 9) (25 * 10 ^ 9) 1000000 = Ok c \<and> fc_gas_used c = 30000 \<and> 0 < unat (fc_hold c)
     \<and> unat (fc_refund c) + unat (fc_tip c) + unat (fc_base c) = unat (fc_hold c)"
  using settle_correct [of 60000 30000 "50 * 10 ^ 9" "10 ^ 9" "25 * 10 ^ 9" 1000000]
  by (simp add: Let_def MAX_GAS_LIMIT_def PRICE_SCALE_def RATE_SCALE_def) blast

text \<open>
  The base fee follows demand within its bounds: it never falls below the floor; a window
  above its target raises it, one at or below the target never raises it above the larger of
  itself and the floor and lowers it by at most an eighth; a window within the elastic limit
  raises it by at most an eighth (or by one unit).  The step fails only by overflow, which
  takes a base fee of at least \<open>2 ^ 64\<close>, and never panics.
\<close>

lemma base_fee_follows_demand:
  assumes "target \<noteq> 0"
  shows "case next_base_fee base gas target fl of
      Ok n \<Rightarrow> fl \<le> n
        \<and> (if target < gas then base < n
           else n \<le> max base fl \<and> unat base - unat base div 8 \<le> unat n)
        \<and> (2 * unat target < unat gas \<or> unat n \<le> max (unat base + max (unat base div 8) 1) (unat fl))
    | Err e \<Rightarrow> e = GasOverflow \<and> 2 ^ 64 \<le> unat base
    | Panic \<Rightarrow> False"
proof (cases "target < gas")
  case True
  let ?X = "unat base * (unat gas - unat target)"
  let ?D = "max (?X div unat target div 8) 1"
  have dl: "2 * unat target < unat gas \<or> ?D \<le> max (unat base div 8) 1"
    using step_le [of "unat gas - unat target" "unat target" "unat base"] by fastforce
  have g: "unat gas - unat target < 2 ^ 64" using unat_less_pow [of gas] by simp
  show ?thesis
  proof (cases "?X < 2 ^ 128 \<and> unat base + ?D < 2 ^ 128")
    case fits: True
    define n where "n = (of_nat (unat base + ?D) :: u128)"
    have n: "unat n = unat base + ?D" unfolding n_def by (rule unat_of_nat_small) (use fits in simp)
    have eq: "next_base_fee base gas target fl = Ok (max n fl)"
      using base_fee_up [OF True assms, of base fl] fits by (simp add: Let_def n_def)
    have m: "unat (max n fl) = max (unat base + ?D) (unat fl)" using n by simp
    have "base < max n fl" unfolding word_less_nat_alt m by linarith
    moreover have "2 * unat target < unat gas \<or> unat (max n fl) \<le> max (unat base + max (unat base div 8) 1) (unat fl)"
      using dl unfolding m by (auto simp: max_def split: if_splits)
    ultimately show ?thesis using True by (simp add: eq del: unat_max)
  next
    case no: False
    have "2 ^ 64 \<le> unat base"
    proof (rule ccontr)
      assume "\<not> 2 ^ 64 \<le> unat base"
      then have b: "unat base < 2 ^ 64" by simp
      have X: "?X < 2 ^ 64 * 2 ^ 64" by (rule mult_strict_mono') (use b g in simp_all)
      have "?X div unat target div 8 \<le> ?X div 8" by (rule div_le_mono) (rule div_le_dividend)
      then have "unat base + ?D < 2 ^ 128" using X b by simp
      with X no show False by simp
    qed
    moreover have "next_base_fee base gas target fl = Err GasOverflow"
      using base_fee_up [OF True assms, of base fl] no unfolding Let_def by presburger
    ultimately show ?thesis by simp
  qed
next
  case False
  then have gt: "gas \<le> target" by simp
  let ?X = "unat base * (unat target - unat gas)"
  let ?D = "?X div unat target div 8"
  have D: "?D \<le> unat base div 8"
    using step_le [of "unat target - unat gas" "unat target" "unat base"] by simp
  have g: "unat target - unat gas < 2 ^ 64" using unat_less_pow [of target] by simp
  show ?thesis
  proof (cases "?X < 2 ^ 128")
    case True
    define n where "n = (of_nat (unat base - ?D) :: u128)"
    have n: "unat n = unat base - ?D" using unat_less_pow [of base] by (simp add: n_def unat_of_nat)
    have eq: "next_base_fee base gas target fl = Ok (max n fl)"
      using base_fee_down [OF gt assms, of base fl] True by (simp add: Let_def n_def)
    have m: "unat (max n fl) = max (unat base - ?D) (unat fl)" using n by simp
    have "max n fl \<le> max base fl" using n by (auto simp: word_le_nat_alt)
    moreover have "unat base - unat base div 8 \<le> unat (max n fl)" using D unfolding m by linarith
    moreover have "unat (max n fl) \<le> max (unat base + max (unat base div 8) 1) (unat fl)" unfolding m by linarith
    ultimately show ?thesis using False by (simp add: eq del: unat_max)
  next
    case no: False
    have "2 ^ 64 \<le> unat base"
    proof (rule ccontr)
      assume "\<not> 2 ^ 64 \<le> unat base"
      then have b: "unat base < 2 ^ 64" by simp
      have X: "?X < 2 ^ 64 * 2 ^ 64" by (rule mult_strict_mono') (use b g in simp_all)
      with no show False by simp
    qed
    moreover have "next_base_fee base gas target fl = Err GasOverflow"
      using base_fee_down [OF gt assms, of base fl] no unfolding Let_def by presburger
    ultimately show ?thesis by simp
  qed
qed

text \<open>
  The fee split.  \<open>check\<close> accepts exactly the splits with at most eight distinct
  beneficiaries, no zero share, and shares and burn adding up to one million; and what an
  accepted split pays out of an amount is each beneficiary's share rounded down, together
  never more than the amount, the rest being what is burned.
\<close>

lemma fee_split_shares:
  "split_check s = (if length (fs_beneficiaries s) \<le> 8 \<and> distinct (map fst (fs_beneficiaries s))
       \<and> (\<forall>(a, share) \<in> set (fs_beneficiaries s). share \<noteq> 0)
       \<and> unat (fs_burn s) + share_sum (fs_beneficiaries s) = 1000000
     then Ok () else Err InvalidFeeSplit)
   \<and> (split_check s = Ok () \<longrightarrow>
      (case shares_of s amount of
         Ok vs \<Rightarrow> map fst vs = map fst (fs_beneficiaries s) \<and> share_sum vs \<le> unat amount
           \<and> (\<forall>i < length (fs_beneficiaries s).
               unat (snd (vs ! i)) = unat amount * unat (snd (fs_beneficiaries s ! i)) div 1000000)
       | Err e \<Rightarrow> e = GasOverflow \<and> 2 ^ 108 < unat amount
       | Panic \<Rightarrow> False))"
proof (intro conjI impI)
  assume "split_check s = Ok ()"
  then have total: "unat (fs_burn s) + share_sum (fs_beneficiaries s) = 1000000"
    by (auto simp: split_check_iff split: if_splits)
  show "case shares_of s amount of
         Ok vs \<Rightarrow> map fst vs = map fst (fs_beneficiaries s) \<and> share_sum vs \<le> unat amount
           \<and> (\<forall>i < length (fs_beneficiaries s).
               unat (snd (vs ! i)) = unat amount * unat (snd (fs_beneficiaries s ! i)) div 1000000)
       | Err e \<Rightarrow> e = GasOverflow \<and> 2 ^ 108 < unat amount
       | Panic \<Rightarrow> False"
  proof (cases "shares_of s amount")
    case (Ok vs)
    then have l: "shares_loop (fs_beneficiaries s) amount = result.Ok vs" by (simp add: shares_of_def)
    have "unat amount * share_sum (fs_beneficiaries s) \<le> unat amount * 1000000"
      using total by (intro mult_le_mono2) simp
    then have "share_sum vs \<le> unat amount" using shares_loop_Ok [OF l] by linarith
    with shares_loop_Ok [OF l] Ok show ?thesis by simp
  next
    case (Err e)
    then have "shares_loop (fs_beneficiaries s) amount = result.Err e" by (simp add: shares_of_def)
    from shares_loop_Err [OF this] obtain a sh where e: "e = GasOverflow"
      and mem: "(a, sh) \<in> set (fs_beneficiaries s)" and big: "2 ^ 128 \<le> unat amount * unat sh" by auto
    have "unat sh \<le> share_sum (fs_beneficiaries s)" using mem by (rule share_sum_member)
    then have "unat amount * unat sh \<le> unat amount * 1000000" using total by (intro mult_le_mono2) simp
    with big have "2 ^ 128 \<le> unat amount * 1000000" by (rule order_trans)
    then have "2 ^ 108 < unat amount" by simp
    with e Err show ?thesis by simp
  qed (simp add: shares_of_def)
qed (rule split_check_iff)

end
