(* ===== verification/Keyless.thy ===== *)
theory Keyless
  imports Primitives
begin

text \<open>
  Poseidon over the BN254 scalar field (\<open>poseidon.rs\<close>), the keyless authenticator
  (\<open>keyless.rs\<close>) and strict Ed25519 verification (\<open>transaction.rs\<close>).  A field element is a
  natural below the modulus.  Ed25519, the compressed-point parser and the Groth16 pairing
  check are third-party code and are parameters; so are the circomlib round constants, read
  from the bytes of \<open>poseidon_constants.bin\<close>.
\<close>

section \<open>The scalar field\<close>

definition FR_MODULUS :: nat where
  "FR_MODULUS = 21888242871839275222246405745257275088548364400416034343698204186575808495617"

type_synonym fr = nat

definition fr_add :: "fr \<Rightarrow> fr \<Rightarrow> fr" where
  "fr_add a b = (a + b) mod FR_MODULUS"

definition fr_mul :: "fr \<Rightarrow> fr \<Rightarrow> fr" where
  "fr_mul a b = (a * b) mod FR_MODULUS"

definition le_nat :: "bytes \<Rightarrow> nat" where
  "le_nat bs = be_nat (rev bs)"

definition from_le_bytes_mod_order :: "bytes \<Rightarrow> fr" where
  "from_le_bytes_mod_order bs = le_nat bs mod FR_MODULUS"

section \<open>Poseidon\<close>

definition MAX_INPUTS :: nat where
  "MAX_INPUTS = 16"
definition FULL_ROUNDS :: nat where
  "FULL_ROUNDS = 8"

record width_constants =
  partial_rounds :: nat
  round_constants :: "fr list"
  mds :: "fr list"

definition read_u16 :: "bytes \<Rightarrow> nat \<Rightarrow> nat" where
  "read_u16 bs at = le_nat (take 2 (drop at bs))"

definition take_scalars :: "bytes \<Rightarrow> nat \<Rightarrow> nat \<Rightarrow> fr list" where
  "take_scalars bs at n = map (\<lambda>i. from_le_bytes_mod_order (take 32 (drop (at + 32 * i) bs))) [0..<n]"

text \<open>\<open>None\<close> is an assertion of the loader, or a slice past the end of the file.\<close>

fun load_widths :: "bytes \<Rightarrow> nat list \<Rightarrow> nat \<Rightarrow> (width_constants list \<times> nat) option" where
  "load_widths bin [] at = Some ([], at)"
| "load_widths bin (expected_t # ts) at =
     (if at + 4 > length bin then None
      else let t = read_u16 bin at; partials = read_u16 bin (at + 2); at1 = at + 4 in
        if t \<noteq> expected_t then None
        else let nrc = (FULL_ROUNDS + partials) * t; at2 = at1 + 32 * nrc; at3 = at2 + 32 * (t * t) in
          if at3 > length bin then None
          else case load_widths bin ts at3 of
              None \<Rightarrow> None
            | Some (cs, end_at) \<Rightarrow>
                Some (\<lparr>partial_rounds = partials, round_constants = take_scalars bin at1 nrc,
                       mds = take_scalars bin at2 (t * t)\<rparr> # cs, end_at))"

definition load_constants :: "bytes \<Rightarrow> width_constants list option" where
  "load_constants bin =
     (case load_widths bin [2..<MAX_INPUTS + 2] 0 of
        None \<Rightarrow> None
      | Some (cs, at) \<Rightarrow> if at = length bin then Some cs else None)"

definition sbox :: "fr \<Rightarrow> fr" where
  "sbox x = (let x2 = fr_mul x x in fr_mul x (fr_mul x2 x2))"

definition add_constants :: "width_constants \<Rightarrow> nat \<Rightarrow> nat \<Rightarrow> fr list \<Rightarrow> fr list" where
  "add_constants c t round state = map (\<lambda>i. fr_add (state ! i) (round_constants c ! (round * t + i))) [0..<t]"

definition mix :: "width_constants \<Rightarrow> nat \<Rightarrow> fr list \<Rightarrow> fr list" where
  "mix c t state =
     map (\<lambda>i. foldl fr_add 0 (map (\<lambda>(m, s). fr_mul m s) (zip (take t (drop (i * t) (mds c))) state))) [0..<t]"

definition poseidon_round :: "width_constants \<Rightarrow> nat \<Rightarrow> nat \<Rightarrow> fr list \<Rightarrow> fr list" where
  "poseidon_round c t round state =
     (let half_full = FULL_ROUNDS div 2;
          added = add_constants c t round state;
          full = (round < half_full \<or> round \<ge> half_full + partial_rounds c);
          boxed = (if full then map sbox added else sbox (hd added) # tl added)
      in mix c t boxed)"

datatype poseidon_error = WrongArity nat

definition poseidon_hash :: "width_constants list \<Rightarrow> fr list \<Rightarrow> (poseidon_error, fr) result" where
  "poseidon_hash pc inputs =
     (let n = length inputs in
      if n = 0 \<or> n > MAX_INPUTS then Err (WrongArity n)
      else let t = n + 1; c = pc ! (n - 1); rounds = FULL_ROUNDS + partial_rounds c in
        Ok (hd (fold (poseidon_round c t) [0..<rounds] (0 # inputs))))"

section \<open>Errors and parameters\<close>

datatype keyless_error =
    KeylessDisabled
  | WrongSender
  | NonCanonicalScalar string
  | TooLong string nat nat
  | HorizonTooLong u64 u64
  | Expired u64 u64
  | MalformedEphemeralKey
  | BadEphemeralSignature
  | MalformedProof
  | InvalidProof
  | BadModulus nat nat

datatype auth_error =
    MalformedKey
  | BadSignature
  | WrongSigner
  | KeylessRefused keyless_error

text \<open>Ed25519: whether 32 bytes are a point, whether the key is weak, strict verification.\<close>

record ed25519 =
  ed_is_point :: "bytes32 \<Rightarrow> bool"
  ed_is_weak :: "bytes32 \<Rightarrow> bool"
  ed_verify_strict :: "bytes32 \<Rightarrow> bytes \<Rightarrow> bytes64 \<Rightarrow> bool"

definition verify_ed25519_strict ::
    "ed25519 \<Rightarrow> bytes32 \<Rightarrow> bytes64 \<Rightarrow> hash256 \<Rightarrow> (auth_error, unit) result" where
  "verify_ed25519_strict ed public_key signature d =
     (if \<not> ed_is_point ed public_key then Err MalformedKey
      else if ed_is_weak ed public_key then Err MalformedKey
      else if ed_verify_strict ed public_key (to_be d) signature then Ok ()
      else Err BadSignature)"

section \<open>Field packing\<close>

definition MAX_AUD_VAL_BYTES :: nat where "MAX_AUD_VAL_BYTES = 120"
definition MAX_UID_KEY_BYTES :: nat where "MAX_UID_KEY_BYTES = 30"
definition MAX_UID_VAL_BYTES :: nat where "MAX_UID_VAL_BYTES = 330"
definition MAX_ISS_VAL_BYTES :: nat where "MAX_ISS_VAL_BYTES = 120"
definition MAX_EXTRA_FIELD_BYTES :: nat where "MAX_EXTRA_FIELD_BYTES = 350"
definition MAX_COMMITTED_EPK_BYTES :: nat where "MAX_COMMITTED_EPK_BYTES = 93"
definition RSA_MODULUS_BYTES :: nat where "RSA_MODULUS_BYTES = 256"
definition BYTES_PER_SCALAR :: nat where "BYTES_PER_SCALAR = 31"

definition pack_one :: "bytes \<Rightarrow> fr" where
  "pack_one chunk = from_le_bytes_mod_order chunk"

text \<open>\<open>slice::chunks\<close>: pieces of a positive length, the last one possibly shorter.\<close>

function chunks :: "nat \<Rightarrow> 'a list \<Rightarrow> 'a list list" where
  "chunks n xs = (if n = 0 \<or> xs = [] then [] else take n xs # chunks n (drop n xs))"
  by pat_completeness auto
termination
  by (relation "measure (\<lambda>(n, xs). length xs)") auto

declare chunks.simps [simp del]

definition pad_and_pack_with_len :: "string \<Rightarrow> bytes \<Rightarrow> nat \<Rightarrow> (keyless_error, fr list) result" where
  "pad_and_pack_with_len field bs max_len =
     (if length bs > max_len then Err (TooLong field (length bs) max_len)
      else let padded = bs @ replicate (max_len - length bs) 0 in
        Ok (map pack_one (chunks BYTES_PER_SCALAR padded) @ [length bs mod FR_MODULUS]))"

definition hash_scalars :: "width_constants list \<Rightarrow> fr list \<Rightarrow> (keyless_error, fr) result" where
  "hash_scalars pc scalars =
     (case poseidon_hash pc scalars of Ok h \<Rightarrow> Ok h | _ \<Rightarrow> Panic)"

definition pad_and_hash_string ::
    "width_constants list \<Rightarrow> string \<Rightarrow> bytes \<Rightarrow> nat \<Rightarrow> (keyless_error, fr) result" where
  "pad_and_hash_string pc field s max_len =
     and_then (pad_and_pack_with_len field s max_len) (hash_scalars pc)"

definition fr_to_bytes :: "fr \<Rightarrow> bytes32" where
  "fr_to_bytes f = from_be (rev (nat_be 32 f))"

definition fr_from_bytes :: "string \<Rightarrow> bytes32 \<Rightarrow> (keyless_error, fr) result" where
  "fr_from_bytes field bs =
     (let f = from_le_bytes_mod_order (to_be bs) in
      if fr_to_bytes f = bs then Ok f else Err (NonCanonicalScalar field))"

section \<open>Client-side derivations\<close>

definition iss_hash_of :: "width_constants list \<Rightarrow> bytes \<Rightarrow> (keyless_error, bytes32) result" where
  "iss_hash_of pc iss =
     and_then (pad_and_hash_string pc ''iss'' iss MAX_ISS_VAL_BYTES) (\<lambda>f. Ok (fr_to_bytes f))"

definition id_commitment ::
    "width_constants list \<Rightarrow> bytes \<Rightarrow> bytes \<Rightarrow> bytes \<Rightarrow> bytes \<Rightarrow> (keyless_error, bytes32) result" where
  "id_commitment pc pepper aud uid_key uid_val =
     and_then (pad_and_hash_string pc ''aud'' aud MAX_AUD_VAL_BYTES) (\<lambda>aud_hash.
     and_then (pad_and_hash_string pc ''uid_key'' uid_key MAX_UID_KEY_BYTES) (\<lambda>uid_key_hash.
     and_then (pad_and_hash_string pc ''uid_val'' uid_val MAX_UID_VAL_BYTES) (\<lambda>uid_val_hash.
     and_then (hash_scalars pc [pack_one pepper, aud_hash, uid_val_hash, uid_key_hash]) (\<lambda>idc.
       Ok (fr_to_bytes idc)))))"

definition derive_address ::
    "hasher \<Rightarrow> width_constants list \<Rightarrow> bytes \<Rightarrow> bytes \<Rightarrow> bytes \<Rightarrow> bytes \<Rightarrow> bytes \<Rightarrow> (keyless_error, l2address) result"
  where
  "derive_address H pc iss pepper aud uid_key uid_val =
     and_then (iss_hash_of pc iss) (\<lambda>ih.
     and_then (id_commitment pc pepper aud uid_key uid_val) (\<lambda>idc.
       Ok (derive_keyless H ih idc)))"

definition rsa_jwk_hash :: "width_constants list \<Rightarrow> bytes \<Rightarrow> (keyless_error, bytes32) result" where
  "rsa_jwk_hash pc modulus_be =
     (if length modulus_be \<noteq> RSA_MODULUS_BYTES then Err (BadModulus RSA_MODULUS_BYTES (length modulus_be))
      else and_then
        (hash_scalars pc (map from_le_bytes_mod_order (chunks 24 (rev modulus_be))
           @ [RSA_MODULUS_BYTES mod FR_MODULUS])) (\<lambda>f. Ok (fr_to_bytes f)))"

definition extra_field_hash_of :: "width_constants list \<Rightarrow> bytes \<Rightarrow> (keyless_error, bytes32) result" where
  "extra_field_hash_of pc extra =
     and_then (pad_and_hash_string pc ''extra_field'' extra MAX_EXTRA_FIELD_BYTES) (\<lambda>f. Ok (fr_to_bytes f))"

definition epk_scalars :: "bytes32 \<Rightarrow> (keyless_error, fr list) result" where
  "epk_scalars epk =
     (case pad_and_pack_with_len ''epk'' ([0, 32] @ to_be epk) MAX_COMMITTED_EPK_BYTES of
        Ok ss \<Rightarrow> Ok ss | _ \<Rightarrow> Panic)"

text \<open>The scalar whose decimal digits are the OAuth nonce.\<close>

definition oauth_nonce :: "width_constants list \<Rightarrow> bytes32 \<Rightarrow> u64 \<Rightarrow> bytes \<Rightarrow> (keyless_error, fr) result" where
  "oauth_nonce pc epk exp_date blinder =
     and_then (epk_scalars epk) (\<lambda>scalars.
       hash_scalars pc (scalars @ [unat exp_date mod FR_MODULUS, pack_one blinder]))"

definition EMPTY_EXTRA_FIELD_HASH :: "width_constants list \<Rightarrow> (keyless_error, fr) result" where
  "EMPTY_EXTRA_FIELD_HASH pc =
     (case pad_and_hash_string pc ''extra_field'' [32] MAX_EXTRA_FIELD_BYTES of Ok f \<Rightarrow> Ok f | _ \<Rightarrow> Panic)"

definition EMPTY_OVERRIDE_AUD_HASH :: "width_constants list \<Rightarrow> (keyless_error, fr) result" where
  "EMPTY_OVERRIDE_AUD_HASH pc =
     (case pad_and_hash_string pc ''override_aud'' [] MAX_AUD_VAL_BYTES of Ok f \<Rightarrow> Ok f | _ \<Rightarrow> Panic)"

section \<open>The authenticator\<close>

record keyless_signature =
  ks_iss_hash :: bytes32
  ks_idc :: bytes32
  ks_ephemeral_public_key :: bytes32
  ks_ephemeral_signature :: bytes64
  ks_exp_date_secs :: u64
  ks_exp_horizon_secs :: u64
  ks_jwt_header_hash :: bytes32
  ks_jwk_hash :: bytes32
  ks_extra_field_hash :: "bytes32 option"
  ks_proof :: bytes128

definition keyless_address :: "hasher \<Rightarrow> keyless_signature \<Rightarrow> l2address" where
  "keyless_address H sig = derive_keyless H (ks_iss_hash sig) (ks_idc sig)"

definition public_scalars ::
    "width_constants list \<Rightarrow> keyless_signature \<Rightarrow> (keyless_error, fr list) result" where
  "public_scalars pc sig =
     and_then (case ks_extra_field_hash sig of
         Some h \<Rightarrow> and_then (fr_from_bytes ''extra_field_hash'' h) (\<lambda>f. Ok (1, f))
       | None \<Rightarrow> and_then (EMPTY_EXTRA_FIELD_HASH pc) (\<lambda>f. Ok (0, f))) (\<lambda>(has_extra, extra).
     and_then (epk_scalars (ks_ephemeral_public_key sig)) (\<lambda>epk.
     and_then (fr_from_bytes ''idc'' (ks_idc sig)) (\<lambda>idc.
     and_then (fr_from_bytes ''iss_hash'' (ks_iss_hash sig)) (\<lambda>iss.
     and_then (fr_from_bytes ''jwt_header_hash'' (ks_jwt_header_hash sig)) (\<lambda>header.
     and_then (fr_from_bytes ''jwk_hash'' (ks_jwk_hash sig)) (\<lambda>jwk.
     and_then (EMPTY_OVERRIDE_AUD_HASH pc) (\<lambda>aud.
       Ok (epk @ [idc, unat (ks_exp_date_secs sig) mod FR_MODULUS,
         unat (ks_exp_horizon_secs sig) mod FR_MODULUS, iss, has_extra, extra, header, jwk, aud, 0]))))))))"

definition public_inputs_hash ::
    "width_constants list \<Rightarrow> keyless_signature \<Rightarrow> (keyless_error, fr) result" where
  "public_inputs_hash pc sig = and_then (public_scalars pc sig) (hash_scalars pc)"

text \<open>
  A network's parameters.  The verification key and the two third-party routines that use it
  appear as functions: whether 128 bytes are three valid points, and whether such a proof
  verifies for a public input.
\<close>

record keyless_config =
  kc_parse_ok :: "bytes128 \<Rightarrow> bool"
  kc_groth16 :: "bytes128 \<Rightarrow> fr \<Rightarrow> bool"
  kc_max_exp_horizon_secs :: u64

record keyless_context =
  kx_config :: "keyless_config option"
  kx_now :: u64

definition keyless_verify ::
    "hasher \<Rightarrow> ed25519 \<Rightarrow> width_constants list \<Rightarrow> keyless_signature \<Rightarrow> l2address \<Rightarrow> hash256
     \<Rightarrow> keyless_context \<Rightarrow> (keyless_error, unit) result" where
  "keyless_verify H ed pc sig sender d ctx =
     and_then (ok_or (kx_config ctx) KeylessDisabled) (\<lambda>config.
       if keyless_address H sig \<noteq> sender then Err WrongSender
       else if ks_exp_horizon_secs sig > kc_max_exp_horizon_secs config
       then Err (HorizonTooLong (ks_exp_horizon_secs sig) (kc_max_exp_horizon_secs config))
       else if kx_now ctx \<ge> ks_exp_date_secs sig then Err (Expired (ks_exp_date_secs sig) (kx_now ctx))
       else and_then
         (map_err (\<lambda>e. if e = MalformedKey then MalformedEphemeralKey else BadEphemeralSignature)
           (verify_ed25519_strict ed (ks_ephemeral_public_key sig) (ks_ephemeral_signature sig) d)) (\<lambda>_.
         and_then (public_inputs_hash pc sig) (\<lambda>public_input.
           if \<not> kc_parse_ok config (ks_proof sig) then Err MalformedProof
           else if kc_groth16 config (ks_proof sig) public_input then Ok ()
           else Err InvalidProof)))"

section \<open>Scalars and their bytes\<close>

lemma FR_MODULUS_bounds: "0 < FR_MODULUS" "FR_MODULUS < 2 ^ 256" "2 ^ 253 < FR_MODULUS"
  by (simp_all add: FR_MODULUS_def)

lemma to_be_rev: "length bs = 32 \<Longrightarrow> to_be (from_be bs :: bytes32) = bs"
  by (rule to_be_from_be) simp_all

lemma le_nat_fr_to_bytes: "f < 2 ^ 256 \<Longrightarrow> le_nat (to_be (fr_to_bytes f)) = f"
proof -
  assume "f < 2 ^ 256"
  moreover have "(256 :: nat) ^ 32 = 2 ^ 256" by (simp add: power_mult [of 2 8 32, symmetric, simplified])
  ultimately show ?thesis by (simp add: le_nat_def fr_to_bytes_def to_be_rev be_nat_nat_be)
qed

text \<open>A scalar has exactly one accepted encoding.\<close>

lemma fr_from_bytes_iff: "fr_from_bytes field bs = Ok f \<longleftrightarrow> f < FR_MODULUS \<and> bs = fr_to_bytes f"
proof
  assume "fr_from_bytes field bs = Ok f"
  then have f: "f = le_nat (to_be bs) mod FR_MODULUS" "bs = fr_to_bytes f"
    by (auto simp: fr_from_bytes_def from_le_bytes_mod_order_def Let_def split: if_splits)
  have "le_nat (to_be bs) mod FR_MODULUS < FR_MODULUS" using FR_MODULUS_bounds(1) by (rule mod_less_divisor)
  with f show "f < FR_MODULUS \<and> bs = fr_to_bytes f" by simp
next
  assume "f < FR_MODULUS \<and> bs = fr_to_bytes f"
  then show "fr_from_bytes field bs = Ok f"
    using FR_MODULUS_bounds(2)
    by (simp add: fr_from_bytes_def from_le_bytes_mod_order_def Let_def le_nat_fr_to_bytes)
qed

lemma fr_from_bytes_not_Panic [simp]: "fr_from_bytes field bs \<noteq> Panic"
  by (simp add: fr_from_bytes_def Let_def)

lemma fr_from_bytes_inject:
  "fr_from_bytes field bs = Ok f \<Longrightarrow> fr_from_bytes field' bs' = Ok f \<Longrightarrow> bs = bs'"
  by (simp add: fr_from_bytes_iff)

section \<open>Packing is total and injective within the limits\<close>

lemma length_chunks: "0 < n \<Longrightarrow> length (chunks n xs) = (length xs + n - 1) div n"
proof (induction n xs rule: chunks.induct)
  case (1 n xs)
  show ?case
  proof (cases "xs = []")
    case False
    then obtain k where k: "length xs = Suc k" by (cases "length xs") auto
    show ?thesis
    proof (cases "n \<le> length xs")
      case True
      with 1 False have "length (chunks n xs) = Suc ((length xs - n + n - 1) div n)"
        by (simp add: chunks.simps [of n xs])
      also have "\<dots> = (length xs - 1) div n + 1" using True by simp
      also have "\<dots> = (length xs - 1 + n) div n" using div_add_self2 [of n "length xs - 1"] 1(2) by linarith
      also have "length xs - 1 + n = length xs + n - 1" using k by simp
      finally show ?thesis .
    next
      case no: False
      with 1 False k have "length (chunks n xs) = 1" by (simp add: chunks.simps [of n xs] chunks.simps [of n "[]"])
      moreover have "(length xs + n - 1) div n = 1"
        using no k 1(2) by (simp add: div_nat_eqI)
      ultimately show ?thesis by simp
    qed
  qed (use 1 in \<open>simp add: chunks.simps [of n "[]"]\<close>)
qed

lemma concat_chunks: "0 < n \<Longrightarrow> concat (chunks n xs) = xs"
proof (induction n xs rule: chunks.induct)
  case (1 n xs)
  then show ?case by (cases "xs = []") (simp_all add: chunks.simps [of n xs] chunks.simps [of n "[]"])
qed

lemma hash_scalars_total:
  "1 \<le> length ss \<Longrightarrow> length ss \<le> 16 \<Longrightarrow> \<exists>h. hash_scalars pc ss = Ok h"
  by (auto simp: hash_scalars_def poseidon_hash_def MAX_INPUTS_def Let_def)

lemma pack_length:
  "pad_and_pack_with_len field bs m = Ok ss \<Longrightarrow> length ss = (m + 30) div 31 + 1"
  by (auto simp: pad_and_pack_with_len_def Let_def length_chunks BYTES_PER_SCALAR_def split: if_splits)

lemma pad_and_hash_total:
  "length bs \<le> m \<Longrightarrow> m \<le> 450 \<Longrightarrow> \<exists>h. pad_and_hash_string pc field bs m = Ok h"
proof -
  assume l: "length bs \<le> m" and m: "m \<le> 450"
  then obtain ss where ss: "pad_and_pack_with_len field bs m = Ok ss" by (simp add: pad_and_pack_with_len_def Let_def)
  have "length ss \<le> 16" "1 \<le> length ss" using pack_length [OF ss] m div_le_mono [of "m + 30" 480 31] by simp_all
  with hash_scalars_total ss show ?thesis by (simp add: pad_and_hash_string_def)
qed

lemma empty_hashes_total:
  "\<exists>h. EMPTY_EXTRA_FIELD_HASH pc = Ok h" "\<exists>h. EMPTY_OVERRIDE_AUD_HASH pc = Ok h"
  using pad_and_hash_total [of "[32]" MAX_EXTRA_FIELD_BYTES pc "''extra_field''"]
    pad_and_hash_total [of "[]" MAX_AUD_VAL_BYTES pc "''override_aud''"]
  by (auto simp: EMPTY_EXTRA_FIELD_HASH_def EMPTY_OVERRIDE_AUD_HASH_def MAX_EXTRA_FIELD_BYTES_def MAX_AUD_VAL_BYTES_def)

lemma epk_scalars_total: "\<exists>ss. epk_scalars epk = Ok ss \<and> length ss = 4"
proof -
  obtain ss where "pad_and_pack_with_len ''epk'' ([0, 32] @ to_be epk) MAX_COMMITTED_EPK_BYTES = Ok ss"
    by (simp add: pad_and_pack_with_len_def MAX_COMMITTED_EPK_BYTES_def Let_def)
  moreover from pack_length [OF this] have "length ss = 4" by (simp add: MAX_COMMITTED_EPK_BYTES_def)
  ultimately show ?thesis by (simp add: epk_scalars_def)
qed

section \<open>What the public input binds\<close>

lemma chunks_Cons: "0 < n \<Longrightarrow> xs \<noteq> [] \<Longrightarrow> chunks n xs = take n xs # chunks n (drop n xs)"
  by (simp add: chunks.simps [of n xs])

lemma chunk_length: "c \<in> set (chunks n xs) \<Longrightarrow> length c \<le> n"
proof (induction n xs rule: chunks.induct)
  case (1 n xs)
  then show ?case
    by (cases "n = 0 \<or> xs = []") (auto simp: chunks.simps [of n xs])
qed

lemma le_nat_inject: "length a = length b \<Longrightarrow> le_nat a = le_nat b \<Longrightarrow> a = b"
  using nat_be_be_nat [of "rev a"] nat_be_be_nat [of "rev b"] by (auto simp: le_nat_def)

lemma pack_one_inject:
  assumes "length a = length b" "length a \<le> 31" "pack_one a = pack_one b"
  shows "a = b"
proof -
  have "le_nat c < FR_MODULUS" if "length c \<le> 31" for c
  proof -
    have "le_nat c < 256 ^ length c" using be_nat_bound [of "rev c"] by (simp add: le_nat_def)
    also have "\<dots> \<le> 256 ^ 31" using that by (intro power_increasing) simp_all
    also have "(256 :: nat) ^ 31 < FR_MODULUS" by (simp add: FR_MODULUS_def)
    finally show ?thesis .
  qed
  with assms have "le_nat a = le_nat b" by (simp add: pack_one_def from_le_bytes_mod_order_def)
  with assms(1) show ?thesis by (rule le_nat_inject)
qed

lemma pack_chunks_inject:
  "length xs = length ys \<Longrightarrow> map pack_one (chunks 31 xs) = map pack_one (chunks 31 ys) \<Longrightarrow> xs = ys"
proof (induction "31 :: nat" xs arbitrary: ys rule: chunks.induct)
  case (1 xs)
  show ?case
  proof (cases "xs = []")
    case False
    then have ne: "ys \<noteq> []" using 1(2) by auto
    with 1(3) False have h: "pack_one (take 31 xs) = pack_one (take 31 ys)"
      and t: "map pack_one (chunks 31 (drop 31 xs)) = map pack_one (chunks 31 (drop 31 ys))"
      by (simp_all add: chunks_Cons)
    have "take 31 xs = take 31 ys" using h 1(2) by (intro pack_one_inject) simp_all
    moreover have "drop 31 xs = drop 31 ys" using False t 1(2) by (intro 1(1)) simp_all
    ultimately show ?thesis by (metis append_take_drop_id)
  qed (use 1(2) in simp)
qed

lemma pack_inject:
  assumes "pad_and_pack_with_len f1 a m = Ok ss" "pad_and_pack_with_len f2 b m = Ok ss" "m < FR_MODULUS"
  shows "a = b"
proof -
  from assms have l: "length a \<le> m" "length b \<le> m"
    and e: "map pack_one (chunks 31 (a @ replicate (m - length a) 0)) = map pack_one (chunks 31 (b @ replicate (m - length b) 0))"
    and n: "length a mod FR_MODULUS = length b mod FR_MODULUS"
    by (auto simp: pad_and_pack_with_len_def Let_def BYTES_PER_SCALAR_def split: if_splits)
  from n l assms(3) have "length a = length b" by simp
  with pack_chunks_inject [OF _ e] l show ?thesis by simp
qed

lemma epk_scalars_inject: "epk_scalars a = Ok ss \<Longrightarrow> epk_scalars b = Ok ss \<Longrightarrow> a = b"
proof -
  assume "epk_scalars a = Ok ss" "epk_scalars b = Ok ss"
  then have "pad_and_pack_with_len ''epk'' ([0, 32] @ to_be a) MAX_COMMITTED_EPK_BYTES = Ok ss"
    "pad_and_pack_with_len ''epk'' ([0, 32] @ to_be b) MAX_COMMITTED_EPK_BYTES = Ok ss"
    by (auto simp: epk_scalars_def split: result.splits)
  then have "[0, 32] @ to_be a = [0, 32] @ to_be b"
    by (rule pack_inject) (simp add: MAX_COMMITTED_EPK_BYTES_def FR_MODULUS_def)
  then show ?thesis by (simp add: to_be_inject)
qed

lemma public_scalars_Ok:
  assumes "public_scalars pc sig = Ok ss"
  obtains epk idc iss header jwk aud has_extra extra where
    "epk_scalars (ks_ephemeral_public_key sig) = Ok epk" "fr_from_bytes ''idc'' (ks_idc sig) = Ok idc"
    "fr_from_bytes ''iss_hash'' (ks_iss_hash sig) = Ok iss"
    "fr_from_bytes ''jwt_header_hash'' (ks_jwt_header_hash sig) = Ok header"
    "fr_from_bytes ''jwk_hash'' (ks_jwk_hash sig) = Ok jwk"
    "ss = epk @ [idc, unat (ks_exp_date_secs sig), unat (ks_exp_horizon_secs sig), iss, has_extra, extra,
       header, jwk, aud, 0]"
    "length epk = 4"
    "case ks_extra_field_hash sig of None \<Rightarrow> has_extra = 0
     | Some h \<Rightarrow> has_extra = 1 \<and> fr_from_bytes ''extra_field_hash'' h = Ok extra"
proof -
  have small: "unat (t :: u64) mod FR_MODULUS = unat t" for t
    using unat_less_pow [of t] by (simp add: FR_MODULUS_def)
  obtain epk where epk: "epk_scalars (ks_ephemeral_public_key sig) = Ok epk" "length epk = 4"
    using epk_scalars_total by blast
  from assms show thesis
    unfolding public_scalars_def epk(1) small
    by (auto simp: result_simps split: option.splits intro!: that [OF epk(1) _ _ _ _ _ epk(2)])
qed

lemma public_inputs_hash_not_Panic [simp]: "public_inputs_hash pc sig \<noteq> Panic"
proof -
  have "public_scalars pc sig \<noteq> Panic"
    using epk_scalars_total [of "ks_ephemeral_public_key sig"] empty_hashes_total [of pc]
    by (auto simp: public_scalars_def result_simps split: option.splits)
  moreover have "\<exists>h. hash_scalars pc ss = Ok h" if "public_scalars pc sig = Ok ss" for ss
    by (rule public_scalars_Ok [OF that], rule hash_scalars_total) simp_all
  ultimately show ?thesis
    by (auto simp: public_inputs_hash_def result_simps)
qed

lemma keyless_verify_Ok:
  "case keyless_verify H ed pc sig sender d ctx of
     Ok _ \<Rightarrow> (\<exists>config f. kx_config ctx = Some config
        \<and> sender = derive_keyless H (ks_iss_hash sig) (ks_idc sig)
        \<and> ks_exp_horizon_secs sig \<le> kc_max_exp_horizon_secs config
        \<and> kx_now ctx < ks_exp_date_secs sig
        \<and> ed_is_point ed (ks_ephemeral_public_key sig) \<and> \<not> ed_is_weak ed (ks_ephemeral_public_key sig)
        \<and> ed_verify_strict ed (ks_ephemeral_public_key sig) (to_be d) (ks_ephemeral_signature sig)
        \<and> public_inputs_hash pc sig = Ok f
        \<and> kc_parse_ok config (ks_proof sig) \<and> kc_groth16 config (ks_proof sig) f
        \<and> (\<forall>bs \<in> {ks_idc sig, ks_iss_hash sig, ks_jwt_header_hash sig, ks_jwk_hash sig}.
             \<exists>x < FR_MODULUS. bs = fr_to_bytes x))
   | Err e \<Rightarrow> True
   | Panic \<Rightarrow> False"
proof (cases "keyless_verify H ed pc sig sender d ctx")
  case (Ok u)
  then obtain config f where c: "kx_config ctx = Some config" "keyless_address H sig = sender"
    "ks_exp_horizon_secs sig \<le> kc_max_exp_horizon_secs config" "kx_now ctx < ks_exp_date_secs sig"
    "verify_ed25519_strict ed (ks_ephemeral_public_key sig) (ks_ephemeral_signature sig) d = result.Ok ()"
    "public_inputs_hash pc sig = result.Ok f" "kc_parse_ok config (ks_proof sig)" "kc_groth16 config (ks_proof sig) f"
    by (auto simp: keyless_verify_def result_simps not_less split: if_splits)
  from c(6) obtain ss where ss: "public_scalars pc sig = result.Ok ss"
    by (auto simp: public_inputs_hash_def result_simps)
  have "\<forall>bs \<in> {ks_idc sig, ks_iss_hash sig, ks_jwt_header_hash sig, ks_jwk_hash sig}.
      \<exists>x < FR_MODULUS. bs = fr_to_bytes x"
    by (rule public_scalars_Ok [OF ss]) (auto simp: fr_from_bytes_iff)
  with c Ok show ?thesis
    by (auto simp: verify_ed25519_strict_def keyless_address_def split: if_splits)
next
  case Panic
  then show ?thesis
    by (auto simp: keyless_verify_def result_simps verify_ed25519_strict_def split: if_splits)
qed simp

lemma keyless_accepts_iff:
  "keyless_verify H ed pc sig sender d ctx = Ok () \<longleftrightarrow>
     sender = derive_keyless H (ks_iss_hash sig) (ks_idc sig)
     \<and> ed_is_point ed (ks_ephemeral_public_key sig) \<and> \<not> ed_is_weak ed (ks_ephemeral_public_key sig)
     \<and> ed_verify_strict ed (ks_ephemeral_public_key sig) (to_be d) (ks_ephemeral_signature sig)
     \<and> kx_now ctx < ks_exp_date_secs sig
     \<and> (\<exists>config ss f. kx_config ctx = Some config \<and> ks_exp_horizon_secs sig \<le> kc_max_exp_horizon_secs config
          \<and> public_scalars pc sig = Ok ss \<and> hash_scalars pc ss = Ok f
          \<and> kc_parse_ok config (ks_proof sig) \<and> kc_groth16 config (ks_proof sig) f)"
  by (cases "kx_config ctx")
     (auto simp: keyless_verify_def result_simps verify_ed25519_strict_def keyless_address_def public_inputs_hash_def not_less not_le)

section \<open>Properties\<close>

text \<open>
  A keyless authorisation is accepted only if every check passed: keyless accounts are
  enabled, the sender is the address the identity derives, the horizon is within policy, the
  ephemeral key had not expired at the batch time, it is a valid strong key that signed the
  digest, every field element is the canonical encoding of a scalar, and the proof verifies
  for the public input computed from exactly this authenticator.  No input makes the check
  panic: every packing stays within the sixteen scalars Poseidon absorbs.
\<close>

lemma keyless_verify_checks:
  "case keyless_verify H ed pc sig sender d ctx of
     Ok _ \<Rightarrow> (\<exists>config f. kx_config ctx = Some config
        \<and> sender = derive_keyless H (ks_iss_hash sig) (ks_idc sig)
        \<and> ks_exp_horizon_secs sig \<le> kc_max_exp_horizon_secs config
        \<and> kx_now ctx < ks_exp_date_secs sig
        \<and> ed_is_point ed (ks_ephemeral_public_key sig) \<and> \<not> ed_is_weak ed (ks_ephemeral_public_key sig)
        \<and> ed_verify_strict ed (ks_ephemeral_public_key sig) (to_be d) (ks_ephemeral_signature sig)
        \<and> public_inputs_hash pc sig = Ok f
        \<and> kc_parse_ok config (ks_proof sig) \<and> kc_groth16 config (ks_proof sig) f
        \<and> (\<forall>bs \<in> {ks_idc sig, ks_iss_hash sig, ks_jwt_header_hash sig, ks_jwk_hash sig}.
             \<exists>x < FR_MODULUS. bs = fr_to_bytes x))
   | Err e \<Rightarrow> True
   | Panic \<Rightarrow> False"
  by (rule keyless_verify_Ok)

definition sample_ed :: ed25519 where
  "sample_ed = \<lparr>ed_is_point = \<lambda>_. True, ed_is_weak = \<lambda>_. False, ed_verify_strict = \<lambda>_ _ _. True\<rparr>"

definition sample_sig :: keyless_signature where
  "sample_sig = \<lparr>ks_iss_hash = 0, ks_idc = 0, ks_ephemeral_public_key = 7, ks_ephemeral_signature = 0,
     ks_exp_date_secs = 100, ks_exp_horizon_secs = 50, ks_jwt_header_hash = 0, ks_jwk_hash = 0,
     ks_extra_field_hash = None, ks_proof = 0\<rparr>"

lemma fr_zero_canonical: "fr_from_bytes field 0 = Ok 0"
proof -
  have "be_nat (nat_be 32 0) = 0" by (simp add: be_nat_nat_be)
  have "rev (nat_be n 0) = replicate n 0" for n by (induction n) (simp_all add: replicate_append_same)
  moreover have "be_nat (replicate n 0) = 0" for n
    by (induction n) (simp_all add: be_nat_snoc flip: replicate_append_same)
  ultimately have "fr_to_bytes 0 = 0" by (simp add: fr_to_bytes_def from_be_def)
  then show ?thesis by (simp add: fr_from_bytes_iff FR_MODULUS_def)
qed

text \<open>
  The public input commits to the whole authenticator: two authenticators with the same
  list of public scalars agree in the ephemeral key, its expiry and horizon, the identity
  commitment, the issuer, the JWT header, the JWK, and whether and which extra field is
  revealed.  Canonical scalars and length-tagged packing are what makes this hold.
\<close>

lemma public_scalars_bind:
  assumes "public_scalars pc sig = Ok ss" "public_scalars pc sig' = Ok ss"
  shows "ks_ephemeral_public_key sig = ks_ephemeral_public_key sig' \<and> ks_idc sig = ks_idc sig'
    \<and> ks_exp_date_secs sig = ks_exp_date_secs sig' \<and> ks_exp_horizon_secs sig = ks_exp_horizon_secs sig'
    \<and> ks_iss_hash sig = ks_iss_hash sig' \<and> ks_jwt_header_hash sig = ks_jwt_header_hash sig'
    \<and> ks_jwk_hash sig = ks_jwk_hash sig' \<and> ks_extra_field_hash sig = ks_extra_field_hash sig'"
proof -
  from assms(1) obtain epk idc iss header jwk aud has_extra extra where 1:
    "epk_scalars (ks_ephemeral_public_key sig) = Ok epk" "fr_from_bytes ''idc'' (ks_idc sig) = Ok idc"
    "fr_from_bytes ''iss_hash'' (ks_iss_hash sig) = Ok iss"
    "fr_from_bytes ''jwt_header_hash'' (ks_jwt_header_hash sig) = Ok header"
    "fr_from_bytes ''jwk_hash'' (ks_jwk_hash sig) = Ok jwk"
    "ss = epk @ [idc, unat (ks_exp_date_secs sig), unat (ks_exp_horizon_secs sig), iss, has_extra, extra,
       header, jwk, aud, 0]" "length epk = 4"
    "case ks_extra_field_hash sig of None \<Rightarrow> has_extra = 0
     | Some h \<Rightarrow> has_extra = 1 \<and> fr_from_bytes ''extra_field_hash'' h = Ok extra"
    by (rule public_scalars_Ok)
  from assms(2) obtain epk' idc' iss' header' jwk' aud' has_extra' extra' where 2:
    "epk_scalars (ks_ephemeral_public_key sig') = Ok epk'" "fr_from_bytes ''idc'' (ks_idc sig') = Ok idc'"
    "fr_from_bytes ''iss_hash'' (ks_iss_hash sig') = Ok iss'"
    "fr_from_bytes ''jwt_header_hash'' (ks_jwt_header_hash sig') = Ok header'"
    "fr_from_bytes ''jwk_hash'' (ks_jwk_hash sig') = Ok jwk'"
    "ss = epk' @ [idc', unat (ks_exp_date_secs sig'), unat (ks_exp_horizon_secs sig'), iss', has_extra', extra',
       header', jwk', aud', 0]" "length epk' = 4"
    "case ks_extra_field_hash sig' of None \<Rightarrow> has_extra' = 0
     | Some h \<Rightarrow> has_extra' = 1 \<and> fr_from_bytes ''extra_field_hash'' h = Ok extra'"
    by (rule public_scalars_Ok)
  from 1(6,7) 2(6,7) have eqs: "epk = epk'" "idc = idc'" "iss = iss'" "header = header'" "jwk = jwk'"
    "has_extra = has_extra'" "extra = extra'" "unat (ks_exp_date_secs sig) = unat (ks_exp_date_secs sig')"
    "unat (ks_exp_horizon_secs sig) = unat (ks_exp_horizon_secs sig')"
    by simp_all
  have "ks_extra_field_hash sig = ks_extra_field_hash sig'"
    using 1(8) 2(8) eqs(6,7) by (auto split: option.splits dest: fr_from_bytes_inject)
  moreover have "ks_exp_date_secs sig = ks_exp_date_secs sig'" "ks_exp_horizon_secs sig = ks_exp_horizon_secs sig'"
    using eqs(8,9) by (simp_all add: word_unat_eq_iff)
  ultimately show ?thesis
    using epk_scalars_inject [OF 1(1)] fr_from_bytes_inject [OF 1(2)] fr_from_bytes_inject [OF 1(3)]
      fr_from_bytes_inject [OF 1(4)] fr_from_bytes_inject [OF 1(5)] 2(1-5) eqs(1-5) by blast
qed

lemma sample_sig_scalars:
  obtains ss f where "public_scalars [] sample_sig = Ok ss" "hash_scalars [] ss = Ok f"
proof -
  have "\<exists>ss. public_scalars [] sample_sig = Ok ss"
    using epk_scalars_total [of "ks_ephemeral_public_key sample_sig"] empty_hashes_total [of "[]"]
    by (auto simp: public_scalars_def sample_sig_def fr_zero_canonical)
  then obtain ss where ss: "public_scalars [] sample_sig = Ok ss" by blast
  moreover have "\<exists>f. hash_scalars [] ss = Ok f" by (rule public_scalars_Ok [OF ss], rule hash_scalars_total) simp_all
  ultimately show thesis using that by blast
qed

end
