(* ===== verification/Governance.thy ===== *)
theory Governance
  imports Gas Keyless
begin

text \<open>
  The governance layer (\<open>governance.rs\<close>): the council record, its signatures, the updates it
  may authorise and their canonical encoding (\<open>write_update\<close> and \<open>read_update\<close> of \<open>wire.rs\<close>),
  and the threshold check.
\<close>

section \<open>The council\<close>

definition GOVERNANCE_UPDATE :: bytes where
  "GOVERNANCE_UPDATE = str_bytes ''SENA:v1:governance-update''"

definition GOVERNABLE_PARAMETERS :: "bytes list" where
  "GOVERNABLE_PARAMETERS = [str_bytes ''batch.max_transactions'']"

record council =
  members :: "bytes32 list"
  threshold :: u32
  epoch :: u64
  guardian_threshold :: u32

datatype governance_error =
    MalformedCouncil
  | UnknownSigner
  | UnorderedSigners
  | BadCouncilSignature u32
  | ThresholdNotMet u32 u32
  | UngovernableParameter bytes
  | InvalidAssetRate
  | InvalidFeeParameter
  | WrongEpoch u64 u64

definition required :: "council \<Rightarrow> bool \<Rightarrow> u32" where
  "required c guardian =
     (if guardian \<and> guardian_threshold c > 0 then guardian_threshold c else threshold c)"

definition council_encode :: "council \<Rightarrow> bytes" where
  "council_encode c = w_u32 (of_nat (length (members c))) @ concat (map w_bytes32 (members c))
     @ w_u32 (threshold c) @ w_u64 (epoch c) @ w_u32 (guardian_threshold c)"

definition r_council :: "council parser" where
  "r_council =
     p_bind r_u32 (\<lambda>count. p_bind (r_repeat (unat count) r_bytes32) (\<lambda>ms.
     p_bind r_u32 (\<lambda>t. p_bind r_u64 (\<lambda>e. p_bind r_u32 (\<lambda>g.
       p_return \<lparr>members = ms, threshold = t, epoch = e, guardian_threshold = g\<rparr>)))))"

definition council_decode :: "bytes \<Rightarrow> (governance_error, council) result" where
  "council_decode bs = map_err (\<lambda>_. MalformedCouncil) (parse_all r_council bs)"

record council_signature =
  cs_index :: u32
  cs_signature :: bytes64

section \<open>Updates\<close>

datatype governance_update =
    GSetGasAsset whitelisted_asset
  | GSetParameter bytes u128
  | GSetJwk bytes32 bytes32 bool
  | GSetFeeMarket u128 u64
  | GSetFeeSplit fee_split
  | GDisableGasAsset asset_id

fun write_update :: "governance_update \<Rightarrow> bytes" where
  "write_update (GSetGasAsset rec) = w_u8 0 @ w_bytes (asset_encode rec)"
| "write_update (GSetParameter name v) = w_u8 1 @ w_string name @ w_u128 v"
| "write_update (GSetJwk iss jwk active) = w_u8 2 @ w_bytes32 iss @ w_bytes32 jwk @ w_bool active"
| "write_update (GSetFeeMarket fl target) = w_u8 3 @ w_u128 fl @ w_u64 target"
| "write_update (GSetFeeSplit s) = w_u8 4 @ w_bytes (split_encode s)"
| "write_update (GDisableGasAsset asset) = w_u8 5 @ w_u32 asset"

definition read_split :: "u8 \<Rightarrow> fee_split parser" where
  "read_split variant =
     p_bind r_bytes (\<lambda>bs.
     p_bind (p_result (map_err (\<lambda>_. UnknownVariant variant) (split_decode bs))) (\<lambda>s.
       if split_encode s \<noteq> bs then p_fail (UnknownVariant variant) else p_return s))"

definition read_update :: "governance_update parser" where
  "read_update = p_bind r_u8 (\<lambda>t.
     if t = 0 then
       p_bind r_bytes (\<lambda>bs.
       p_bind (p_result (map_err (\<lambda>_. UnknownVariant 0) (asset_decode bs))) (\<lambda>rec.
         if asset_encode rec \<noteq> bs then p_fail (UnknownVariant 0) else p_return (GSetGasAsset rec)))
     else if t = 1 then p_bind r_string (\<lambda>name. p_bind r_u128 (\<lambda>v. p_return (GSetParameter name v)))
     else if t = 2 then
       p_bind r_bytes32 (\<lambda>iss. p_bind r_bytes32 (\<lambda>jwk. p_bind r_bool (\<lambda>active.
         p_return (GSetJwk iss jwk active))))
     else if t = 3 then p_bind r_u128 (\<lambda>fl. p_bind r_u64 (\<lambda>target. p_return (GSetFeeMarket fl target)))
     else if t = 4 then p_bind (read_split 4) (\<lambda>s. p_return (GSetFeeSplit s))
     else if t = 5 then p_bind r_u32 (\<lambda>asset. p_return (GDisableGasAsset asset))
     else p_fail (UnknownVariant t))"

definition update_signing_digest :: "hasher \<Rightarrow> governance_update \<Rightarrow> u64 \<Rightarrow> hash256" where
  "update_signing_digest H u e =
     commit H (enc_field (enc_u64 (enc_new GOVERNANCE_UPDATE) e) (write_update u))"

fun check_permitted :: "governance_update \<Rightarrow> (governance_error, unit) result" where
  "check_permitted (GSetParameter name v) =
     (if name \<in> set GOVERNABLE_PARAMETERS then Ok () else Err (UngovernableParameter name))"
| "check_permitted (GSetGasAsset rec) = (if wa_rate rec = 0 then Err InvalidAssetRate else Ok ())"
| "check_permitted (GSetFeeMarket fl target) =
     (if fl = 0 \<or> target = 0 then Err InvalidFeeParameter else Ok ())"
| "check_permitted (GSetFeeSplit s) = map_err (\<lambda>_. InvalidFeeParameter) (split_check s)"
| "check_permitted (GSetJwk _ _ _) = Ok ()"
| "check_permitted (GDisableGasAsset _) = Ok ()"

fun guardian_may_apply :: "governance_update \<Rightarrow> bool" where
  "guardian_may_apply (GDisableGasAsset _) = True"
| "guardian_may_apply _ = False"

section \<open>The threshold check\<close>

fun verify_signers ::
    "ed25519 \<Rightarrow> bytes32 list \<Rightarrow> hash256 \<Rightarrow> u32 option \<Rightarrow> council_signature list \<Rightarrow> (governance_error, unit) result"
  where
  "verify_signers ed ms d previous [] = Ok ()"
| "verify_signers ed ms d previous (s # ss) =
     (let index = cs_index s in
      if (case previous of Some prev \<Rightarrow> index \<le> prev | None \<Rightarrow> False) then Err UnorderedSigners
      else if unat index \<ge> length ms then Err UnknownSigner
      else let member = ms ! unat index in
        if \<not> ed_is_point ed member then Err MalformedCouncil
        else if ed_is_weak ed member then Err MalformedCouncil
        else if \<not> ed_verify_strict ed member (to_be d) (cs_signature s) then Err (BadCouncilSignature index)
        else verify_signers ed ms d (Some index) ss)"

definition verify_council_signatures ::
    "ed25519 \<Rightarrow> council \<Rightarrow> hash256 \<Rightarrow> council_signature list \<Rightarrow> bool \<Rightarrow> (governance_error, unit) result" where
  "verify_council_signatures ed c d signatures guardian =
     (let req = required c guardian in
      if req = 0 then Err (ThresholdNotMet 0 0)
      else and_then (verify_signers ed (members c) d None signatures) (\<lambda>_.
        let supplied = (if length signatures < 2 ^ 32 then of_nat (length signatures) else - 1) in
        if supplied < req then Err (ThresholdNotMet supplied req) else Ok ()))"

section \<open>Codecs\<close>

definition council_wf :: "council \<Rightarrow> bool" where
  "council_wf c \<longleftrightarrow> length (members c) < 2 ^ 32"

interpretation councilc: codec council_encode r_council council_wf
proof (rule codecI)
  fix c assume "council_wf c"
  then have len: "unat (of_nat (length (members c)) :: u32) = length (members c)"
    by (simp add: council_wf_def unat_of_nat)
  have "reads (r_repeat (length (members c)) r_bytes32) (concat (map w_bytes32 (members c))) (members c)"
    by (rule b32c.repeat_round_trip) (simp add: list_all_iff)
  then have ms: "reads (r_repeat (unat (of_nat (length (members c)) :: u32)) r_bytes32)
      (concat (map w_bytes32 (members c))) (members c)" unfolding len .
  show "reads r_council (council_encode c) c"
    unfolding r_council_def council_encode_def
    by ((rule reads_rules ms)+, simp)
qed (unfold r_council_def, (rule accepts_rules b32c.codec_axioms)+, auto simp: council_encode_def council_wf_def unat_u32_bound)

text \<open>What an update needs to be read back: valid strings, and a split the reader admits.\<close>

fun update_wf :: "governance_update \<Rightarrow> bool" where
  "update_wf (GSetGasAsset rec) \<longleftrightarrow> asset_wf rec \<and> length (asset_encode rec) < 2 ^ 32"
| "update_wf (GSetParameter name v) \<longleftrightarrow> utf8_valid name \<and> length name < 2 ^ 32"
| "update_wf (GSetFeeSplit s) \<longleftrightarrow> split_wf s"
| "update_wf _ \<longleftrightarrow> True"

lemma split_bytes_bound: "split_wf s \<Longrightarrow> length (split_encode s) < 2 ^ 32"
  by (simp add: split_wf_def split_encode_def w_share_def length_concat case_prod_unfold comp_def
      sum_list_triv MAX_FEE_BENEFICIARIES_def)

lemma read_split_reads: "split_wf s \<Longrightarrow> reads (read_split v) (w_bytes (split_encode s)) s"
proof -
  assume wf: "split_wf s"
  then have "split_decode (split_encode s) = Ok s"
    using splitc.parse_all_wr [OF wf] split_bytes_bound [OF wf] by (simp add: split_decode_def)
  then have "reads (p_bind (p_result (map_err (\<lambda>_. UnknownVariant v) (split_decode (split_encode s)))) (\<lambda>s'.
       if split_encode s' \<noteq> split_encode s then p_fail (UnknownVariant v) else p_return s')) ([] @ []) s"
    by (intro reads_bind [OF reads_result]) (auto simp: reads_return)
  with split_bytes_bound [OF wf] show ?thesis
    unfolding read_split_def
    by (intro reads_bind [OF bytesc.round_trip, where b = "[]", simplified]) simp_all
qed

interpretation updatec: decodes write_update read_update update_wf
proof
  fix u assume wf: "update_wf u"
  show "reads read_update (write_update u) u"
  proof (cases u)
    case (GSetGasAsset rec)
    with wf have a: "asset_wf rec" "length (asset_encode rec) < 2 ^ 32" by auto
    then have "asset_decode (asset_encode rec) = Ok rec"
      using assetc.parse_all_wr [of rec] by (simp add: asset_decode_def)
    then have "reads (p_bind (p_result (map_err (\<lambda>_. UnknownVariant 0) (asset_decode (asset_encode rec)))) (\<lambda>rec'.
         if asset_encode rec' \<noteq> asset_encode rec then p_fail (UnknownVariant 0) else p_return (GSetGasAsset rec')))
         ([] @ []) u"
      using GSetGasAsset by (intro reads_bind [OF reads_result]) (auto simp: reads_return)
    with a GSetGasAsset show ?thesis
      unfolding read_update_def
      by (auto intro!: reads_bind [OF u8c.round_trip] reads_bind [OF bytesc.round_trip, where b = "[]", simplified])
  next
    case (GSetParameter name v)
    with wf have s: "reads r_string (w_string name) name" by (intro stringc.round_trip) simp
    show ?thesis
      unfolding read_update_def GSetParameter write_update.simps
      by (rule reads_bind [OF u8c.round_trip], simp, simp, (rule reads_rules s)+, simp)
  next
    case (GSetFeeSplit s)
    with wf have s: "reads (read_split 4) (w_bytes (split_encode s)) s" by (intro read_split_reads) simp
    show ?thesis
      unfolding read_update_def GSetFeeSplit write_update.simps
      by (rule reads_bind [OF u8c.round_trip], simp, simp, (rule reads_rules s)+, simp)
  qed (unfold read_update_def, simp_all,
       (rule reads_bind [OF u8c.round_trip], simp, simp, (rule reads_rules)+, simp)+)
qed

section \<open>Who signed\<close>

text \<open>A signature as supplied: under the key of the member it names, over the digest.\<close>

definition signed_by :: "ed25519 \<Rightarrow> council \<Rightarrow> hash256 \<Rightarrow> council_signature \<Rightarrow> bool" where
  "signed_by ed c d s \<longleftrightarrow> unat (cs_index s) < length (members c) \<and> ed_is_point ed (members c ! unat (cs_index s))
     \<and> \<not> ed_is_weak ed (members c ! unat (cs_index s))
     \<and> ed_verify_strict ed (members c ! unat (cs_index s)) (to_be d) (cs_signature s)"

lemma verify_signers_Ok_iff:
  "verify_signers ed (members c) d previous ss = Ok () \<longleftrightarrow>
   sorted_wrt (<) (map cs_index ss) \<and> list_all (signed_by ed c d) ss
   \<and> (\<forall>s \<in> set ss. case previous of None \<Rightarrow> True | Some p \<Rightarrow> p < cs_index s)"
proof (induction ss arbitrary: previous)
  case (Cons s ss)
  have "verify_signers ed (members c) d previous (s # ss) = Ok () \<longleftrightarrow>
      (case previous of None \<Rightarrow> True | Some p \<Rightarrow> p < cs_index s) \<and> signed_by ed c d s
      \<and> verify_signers ed (members c) d (Some (cs_index s)) ss = Ok ()"
    by (auto simp: Let_def signed_by_def not_le split: option.splits)
  then show ?case unfolding Cons.IH by (cases previous) (auto intro: less_trans)
qed simp

lemma verify_signers_not_Panic [simp]: "verify_signers ed ms d previous ss \<noteq> Panic"
  by (induction ed ms d previous ss rule: verify_signers.induct) (auto simp: Let_def)

section \<open>Properties\<close>

text \<open>
  C38.  A council check succeeds exactly when enough different members signed: the required number is not zero and
  at least that many signatures are supplied; they name members in strictly increasing order, so no member counts
  twice; and each verifies over exactly this digest under the key of the member it names, which is a valid strong
  one.  The check never panics.
\<close>

theorem council_threshold:
  "(verify_council_signatures ed c d sigs guardian = Ok () \<longleftrightarrow>
      0 < unat (required c guardian) \<and> unat (required c guardian) \<le> length sigs
      \<and> sorted_wrt (<) (map cs_index sigs)
      \<and> list_all (\<lambda>s. unat (cs_index s) < length (members c) \<and> ed_is_point ed (members c ! unat (cs_index s))
           \<and> \<not> ed_is_weak ed (members c ! unat (cs_index s))
           \<and> ed_verify_strict ed (members c ! unat (cs_index s)) (to_be d) (cs_signature s)) sigs)
   \<and> verify_council_signatures ed c d sigs guardian \<noteq> Panic"
proof
  have n: "(if length sigs < 2 ^ 32 then of_nat (length sigs) else - 1) < required c guardian
      \<longleftrightarrow> length sigs < unat (required c guardian)"
  proof (cases "length sigs < 2 ^ 32")
    case True
    then show ?thesis using unat_of_nat_small [of "length sigs", where 'a = 32] by (simp add: word_less_nat_alt)
  next
    case False
    then show ?thesis using unat_u32_bound [of "required c guardian"] word_order.extremum [of "required c guardian"]
      by (auto simp: not_less)
  qed
  have "verify_council_signatures ed c d sigs guardian = Ok () \<longleftrightarrow>
      required c guardian \<noteq> 0 \<and> verify_signers ed (members c) d None sigs = Ok () \<and> unat (required c guardian) \<le> length sigs"
    unfolding verify_council_signatures_def Let_def n by (auto simp: result_simps not_less)
  then show "verify_council_signatures ed c d sigs guardian = Ok () \<longleftrightarrow>
      0 < unat (required c guardian) \<and> unat (required c guardian) \<le> length sigs
      \<and> sorted_wrt (<) (map cs_index sigs)
      \<and> list_all (\<lambda>s. unat (cs_index s) < length (members c) \<and> ed_is_point ed (members c ! unat (cs_index s))
           \<and> \<not> ed_is_weak ed (members c ! unat (cs_index s))
           \<and> ed_verify_strict ed (members c ! unat (cs_index s)) (to_be d) (cs_signature s)) sigs"
    by (auto simp: verify_signers_Ok_iff signed_by_def list_all_iff unat_gt_0)
  show "verify_council_signatures ed c d sigs guardian \<noteq> Panic"
    by (auto simp: verify_council_signatures_def Let_def result_simps)
qed

text \<open>Two of three members sign; one member's signature twice is not enough.\<close>

definition signing_ed :: ed25519 where
  "signing_ed = \<lparr>ed_is_point = (\<lambda>_. True), ed_is_weak = (\<lambda>_. False), ed_verify_strict = (\<lambda>k _ sig. ucast sig = k)\<rparr>"

definition sample_three :: council where
  "sample_three = \<lparr>members = [11, 12, 13], threshold = 2, epoch = 0, guardian_threshold = 0\<rparr>"

theorem council_threshold_witness:
  "verify_council_signatures signing_ed sample_three 5 [\<lparr>cs_index = 0, cs_signature = 11\<rparr>, \<lparr>cs_index = 2, cs_signature = 13\<rparr>] False = Ok ()
   \<and> verify_council_signatures signing_ed sample_three 5 [\<lparr>cs_index = 0, cs_signature = 11\<rparr>, \<lparr>cs_index = 0, cs_signature = 11\<rparr>] False \<noteq> Ok ()
   \<and> verify_council_signatures signing_ed sample_three 5 [\<lparr>cs_index = 0, cs_signature = 11\<rparr>, \<lparr>cs_index = 2, cs_signature = 11\<rparr>] False \<noteq> Ok ()"
  by (simp add: council_threshold signing_ed_def sample_three_def required_def)

text \<open>
  Governance reaches only what was deliberately made governable: a permitted update names
  a parameter of the allowlist, an asset with a non-zero rate, a fee market with non-zero
  floor and target, or a fee split whose shares are distinct, non-zero and complete; the
  reduced guardian threshold never applies to anything but disabling an asset.
\<close>

lemma governance_reach:
  "check_permitted u =
     (case u of
        GSetParameter name _ \<Rightarrow> if name = str_bytes ''batch.max_transactions'' then Ok ()
                               else Err (UngovernableParameter name)
      | GSetGasAsset rec \<Rightarrow> if wa_rate rec \<noteq> 0 then Ok () else Err InvalidAssetRate
      | GSetFeeMarket fl target \<Rightarrow> if fl \<noteq> 0 \<and> target \<noteq> 0 then Ok () else Err InvalidFeeParameter
      | GSetFeeSplit s \<Rightarrow>
          if length (fs_beneficiaries s) \<le> 8 \<and> distinct (map fst (fs_beneficiaries s))
            \<and> (\<forall>(a, share) \<in> set (fs_beneficiaries s). share \<noteq> 0)
            \<and> unat (fs_burn s) + share_sum (fs_beneficiaries s) = 1000000
          then Ok () else Err InvalidFeeParameter
      | _ \<Rightarrow> Ok ())
   \<and> (guardian_may_apply u \<longleftrightarrow> (\<exists>asset. u = GDisableGasAsset asset))"
  by (cases u) (simp_all add: GOVERNABLE_PARAMETERS_def split_check_iff)

end
