(* ===== verification/Instruction.thy ===== *)
theory Instruction
  imports Governance
begin

text \<open>
  The step machine's vocabulary: the keys of the state trie (\<open>keys.rs\<close>), the instructions and
  the single slot each touches, the machine state and its commitment (\<open>instruction.rs\<close>), and
  the gas an instruction costs (\<open>gas.rs\<close>).
\<close>

section \<open>Trie keys\<close>

definition REGION_ACCOUNT :: bytes where
  "REGION_ACCOUNT = str_bytes ''SENA:v1:state:account''"
definition REGION_SOCIAL_BY_IDENTIFIER :: bytes where
  "REGION_SOCIAL_BY_IDENTIFIER = str_bytes ''SENA:v1:state:social-by-identifier''"
definition REGION_SOCIAL_BY_ADDRESS :: bytes where
  "REGION_SOCIAL_BY_ADDRESS = str_bytes ''SENA:v1:state:social-by-address''"
definition REGION_ASSET :: bytes where
  "REGION_ASSET = str_bytes ''SENA:v1:state:asset''"
definition REGION_PARAMETER :: bytes where
  "REGION_PARAMETER = str_bytes ''SENA:v1:state:parameter''"
definition REGION_COUNCIL :: bytes where
  "REGION_COUNCIL = str_bytes ''SENA:v1:state:council''"
definition REGION_JWK :: bytes where
  "REGION_JWK = str_bytes ''SENA:v1:state:jwk''"
definition REGION_FEE_MARKET :: bytes where
  "REGION_FEE_MARKET = str_bytes ''SENA:v1:state:fee-market''"
definition REGION_FEE_SPLIT :: bytes where
  "REGION_FEE_SPLIT = str_bytes ''SENA:v1:state:fee-split''"

lemmas region_defs = REGION_ACCOUNT_def REGION_SOCIAL_BY_IDENTIFIER_def REGION_SOCIAL_BY_ADDRESS_def
  REGION_ASSET_def REGION_PARAMETER_def REGION_COUNCIL_def REGION_JWK_def REGION_FEE_MARKET_def
  REGION_FEE_SPLIT_def

definition account_key :: "hasher \<Rightarrow> l2address \<Rightarrow> hash256" where
  "account_key H address = commit H (enc_field (enc_new REGION_ACCOUNT) (to_be address))"

definition social_by_identifier :: "hasher \<Rightarrow> hash256 \<Rightarrow> hash256" where
  "social_by_identifier H identifier =
     commit H (enc_field (enc_new REGION_SOCIAL_BY_IDENTIFIER) (to_be identifier))"

definition social_by_address :: "hasher \<Rightarrow> l2address \<Rightarrow> hash256" where
  "social_by_address H address = commit H (enc_field (enc_new REGION_SOCIAL_BY_ADDRESS) (to_be address))"

definition asset_key :: "hasher \<Rightarrow> asset_id \<Rightarrow> hash256" where
  "asset_key H asset = commit H (enc_u64 (enc_new REGION_ASSET) (ucast asset))"

definition parameter_key :: "hasher \<Rightarrow> bytes \<Rightarrow> hash256" where
  "parameter_key H name = commit H (enc_field (enc_new REGION_PARAMETER) name)"

definition council_key :: "hasher \<Rightarrow> hash256" where
  "council_key H = commit H (enc_new REGION_COUNCIL)"

definition fee_market_key :: "hasher \<Rightarrow> hash256" where
  "fee_market_key H = commit H (enc_new REGION_FEE_MARKET)"

definition fee_split_key :: "hasher \<Rightarrow> hash256" where
  "fee_split_key H = commit H (enc_new REGION_FEE_SPLIT)"

definition jwk_key :: "hasher \<Rightarrow> bytes32 \<Rightarrow> bytes32 \<Rightarrow> hash256" where
  "jwk_key H iss_hash jwk_hash =
     commit H (enc_field (enc_field (enc_new REGION_JWK) (to_be iss_hash)) (to_be jwk_hash))"

section \<open>Instructions\<close>

datatype instruction =
    ConsumeNonce l2address u64
  | Debit l2address asset_id u128
  | Credit l2address asset_id u128
  | BindIdentifier hash256 l2address
  | UnbindIdentifier hash256 l2address
  | VerifyGasAsset asset_id u128 u64
  | ChargeBaseFee u64 u128 u64
  | VerifyFeeSplit fee_split
  | SetFeeSplit fee_split
  | SetFeeMarket u128 u64
  | DisableGasAsset asset_id
  | VerifyCouncil u64 hash256 "council_signature list" bool
  | SetGasAsset whitelisted_asset
  | SetParameter bytes u128
  | VerifyJwk bytes32 bytes32
  | SetJwk bytes32 bytes32 bool

fun slot :: "hasher \<Rightarrow> instruction \<Rightarrow> hash256" where
  "slot H (ConsumeNonce account _) = account_key H account"
| "slot H (Debit account _ _) = account_key H account"
| "slot H (Credit account _ _) = account_key H account"
| "slot H (BindIdentifier identifier _) = social_by_identifier H identifier"
| "slot H (UnbindIdentifier identifier _) = social_by_identifier H identifier"
| "slot H (VerifyGasAsset asset _ _) = asset_key H asset"
| "slot H (DisableGasAsset asset) = asset_key H asset"
| "slot H (ChargeBaseFee _ _ _) = fee_market_key H"
| "slot H (SetFeeMarket _ _) = fee_market_key H"
| "slot H (VerifyFeeSplit _) = fee_split_key H"
| "slot H (SetFeeSplit _) = fee_split_key H"
| "slot H (SetGasAsset rec) = asset_key H (wa_asset rec)"
| "slot H (VerifyCouncil _ _ _ _) = council_key H"
| "slot H (SetParameter name _) = parameter_key H name"
| "slot H (VerifyJwk iss jwk) = jwk_key H iss jwk"
| "slot H (SetJwk iss jwk _) = jwk_key H iss jwk"

definition w_council_signature_raw :: "council_signature \<Rightarrow> bytes" where
  "w_council_signature_raw s = w_u32 (cs_index s) @ w_bytes64 (cs_signature s)"

fun instruction_encode :: "instruction \<Rightarrow> bytes" where
  "instruction_encode (ConsumeNonce account expected) = w_u8 0 @ w_bytes32 account @ w_u64 expected"
| "instruction_encode (Debit account asset amount) =
     w_u8 1 @ w_bytes32 account @ w_u32 asset @ w_u128 amount"
| "instruction_encode (Credit account asset amount) =
     w_u8 2 @ w_bytes32 account @ w_u32 asset @ w_u128 amount"
| "instruction_encode (BindIdentifier identifier address) =
     w_u8 3 @ w_bytes32 identifier @ w_bytes32 address"
| "instruction_encode (UnbindIdentifier identifier owner) =
     w_u8 4 @ w_bytes32 identifier @ w_bytes32 owner"
| "instruction_encode (VerifyGasAsset asset rate gas) = w_u8 5 @ w_u32 asset @ w_u128 rate @ w_u64 gas"
| "instruction_encode (VerifyCouncil e d sigs guardian) =
     w_u8 6 @ w_u64 e @ w_bytes32 d @ w_u32 (of_nat (length sigs))
       @ concat (map w_council_signature_raw sigs) @ w_bool guardian"
| "instruction_encode (SetGasAsset rec) = w_u8 7 @ w_bytes (asset_encode rec)"
| "instruction_encode (SetParameter name v) = w_u8 8 @ w_string name @ w_u128 v"
| "instruction_encode (VerifyJwk iss jwk) = w_u8 9 @ w_bytes32 iss @ w_bytes32 jwk"
| "instruction_encode (SetJwk iss jwk active) = w_u8 10 @ w_bytes32 iss @ w_bytes32 jwk @ w_bool active"
| "instruction_encode (ChargeBaseFee ts base gas) = w_u8 11 @ w_u64 ts @ w_u128 base @ w_u64 gas"
| "instruction_encode (VerifyFeeSplit s) = w_u8 12 @ w_bytes (split_encode s)"
| "instruction_encode (SetFeeSplit s) = w_u8 13 @ w_bytes (split_encode s)"
| "instruction_encode (SetFeeMarket fl target) = w_u8 14 @ w_u128 fl @ w_u64 target"
| "instruction_encode (DisableGasAsset asset) = w_u8 15 @ w_u32 asset"

fun instruction_gas :: "instruction \<Rightarrow> u64" where
  "instruction_gas (Debit _ _ _) = 5000"
| "instruction_gas (Credit _ _ _) = 5000"
| "instruction_gas (UnbindIdentifier _ _) = 5000"
| "instruction_gas (VerifyCouncil _ _ sigs _) = 10000 + 3000 * of_nat (length sigs)"
| "instruction_gas (BindIdentifier _ _) = 20000"
| "instruction_gas (SetGasAsset _) = 20000"
| "instruction_gas (SetParameter _ _) = 20000"
| "instruction_gas (SetJwk _ _ _) = 20000"
| "instruction_gas (SetFeeMarket _ _) = 20000"
| "instruction_gas (SetFeeSplit _) = 20000"
| "instruction_gas (DisableGasAsset _) = 20000"
| "instruction_gas (VerifyFeeSplit _) = 2000"
| "instruction_gas (ConsumeNonce _ _) = 0"
| "instruction_gas (VerifyGasAsset _ _ _) = 0"
| "instruction_gas (ChargeBaseFee _ _ _) = 0"
| "instruction_gas (VerifyJwk _ _) = 0"

section \<open>Machine states\<close>

record machine_state =
  state_root :: hash256
  pc :: u64

definition machine_start :: "hash256 \<Rightarrow> machine_state" where
  "machine_start root = \<lparr>state_root = root, pc = 0\<rparr>"

definition machine_preimage :: "machine_state \<Rightarrow> bytes" where
  "machine_preimage m = enc_u64 (enc_field (enc_new MACHINE_STATE) (to_be (state_root m))) (pc m)"

definition commitment :: "hasher \<Rightarrow> machine_state \<Rightarrow> hash256" where
  "commitment H m = commit H (machine_preimage m)"

section \<open>Keys of different state never share a preimage\<close>

text \<open>What a key stands for, and the bytes it is the digest of.\<close>

datatype slot_id =
    AccountSlot l2address
  | IdentifierSlot hash256
  | AddressSlot l2address
  | AssetSlot asset_id
  | ParameterSlot bytes
  | CouncilSlot
  | FeeMarketSlot
  | FeeSplitSlot
  | JwkSlot bytes32 bytes32

fun slot_frames :: "slot_id \<Rightarrow> bytes list" where
  "slot_frames (AccountSlot a) = [REGION_ACCOUNT, to_be a]"
| "slot_frames (IdentifierSlot i) = [REGION_SOCIAL_BY_IDENTIFIER, to_be i]"
| "slot_frames (AddressSlot a) = [REGION_SOCIAL_BY_ADDRESS, to_be a]"
| "slot_frames (AssetSlot a) = [REGION_ASSET, to_be (ucast a :: u64)]"
| "slot_frames (ParameterSlot n) = [REGION_PARAMETER, n]"
| "slot_frames CouncilSlot = [REGION_COUNCIL]"
| "slot_frames FeeMarketSlot = [REGION_FEE_MARKET]"
| "slot_frames FeeSplitSlot = [REGION_FEE_SPLIT]"
| "slot_frames (JwkSlot i j) = [REGION_JWK, to_be i, to_be j]"

fun slot_ok :: "slot_id \<Rightarrow> bool" where
  "slot_ok (ParameterSlot n) \<longleftrightarrow> length n < 2 ^ 32"
| "slot_ok _ \<longleftrightarrow> True"

definition slot_key :: "hasher \<Rightarrow> slot_id \<Rightarrow> hash256" where
  "slot_key H s = H (frames (slot_frames s))"

fun slot_of :: "instruction \<Rightarrow> slot_id" where
  "slot_of (ConsumeNonce account _) = AccountSlot account"
| "slot_of (Debit account _ _) = AccountSlot account"
| "slot_of (Credit account _ _) = AccountSlot account"
| "slot_of (BindIdentifier identifier _) = IdentifierSlot identifier"
| "slot_of (UnbindIdentifier identifier _) = IdentifierSlot identifier"
| "slot_of (VerifyGasAsset asset _ _) = AssetSlot asset"
| "slot_of (DisableGasAsset asset) = AssetSlot asset"
| "slot_of (ChargeBaseFee _ _ _) = FeeMarketSlot"
| "slot_of (SetFeeMarket _ _) = FeeMarketSlot"
| "slot_of (VerifyFeeSplit _) = FeeSplitSlot"
| "slot_of (SetFeeSplit _) = FeeSplitSlot"
| "slot_of (SetGasAsset rec) = AssetSlot (wa_asset rec)"
| "slot_of (VerifyCouncil _ _ _ _) = CouncilSlot"
| "slot_of (SetParameter name _) = ParameterSlot name"
| "slot_of (VerifyJwk iss jwk) = JwkSlot iss jwk"
| "slot_of (SetJwk iss jwk _) = JwkSlot iss jwk"

lemmas key_defs = account_key_def social_by_identifier_def social_by_address_def asset_key_def
  parameter_key_def council_key_def fee_market_key_def fee_split_key_def jwk_key_def

lemma keys_slot_key:
  "account_key H a = slot_key H (AccountSlot a)"
  "social_by_identifier H i = slot_key H (IdentifierSlot i)"
  "social_by_address H a = slot_key H (AddressSlot a)"
  "asset_key H n = slot_key H (AssetSlot n)"
  "parameter_key H name = slot_key H (ParameterSlot name)"
  "council_key H = slot_key H CouncilSlot"
  "fee_market_key H = slot_key H FeeMarketSlot"
  "fee_split_key H = slot_key H FeeSplitSlot"
  "jwk_key H iss jwk = slot_key H (JwkSlot iss jwk)"
  by (simp_all add: key_defs slot_key_def commit_def digest_def enc_simps)

lemma slot_slot_key: "slot H i = slot_key H (slot_of i)"
  by (cases i) (simp_all add: keys_slot_key)

lemma region_lengths:
  "length REGION_ACCOUNT = 21" "length REGION_SOCIAL_BY_IDENTIFIER = 34" "length REGION_SOCIAL_BY_ADDRESS = 31"
  "length REGION_ASSET = 19" "length REGION_PARAMETER = 23" "length REGION_COUNCIL = 21"
  "length REGION_JWK = 17" "length REGION_FEE_MARKET = 24" "length REGION_FEE_SPLIT = 23"
  by (simp_all add: region_defs str_bytes_def)

lemma region_distinct:
  "REGION_ACCOUNT \<noteq> REGION_COUNCIL" "REGION_PARAMETER \<noteq> REGION_FEE_SPLIT"
  by (simp_all add: region_defs str_bytes_def)

lemma framable_slot: "slot_ok s \<Longrightarrow> framable (slot_frames s)"
  by (cases s) (simp_all add: framable_def region_lengths)

lemma ucast_u32_inject: "(ucast (a :: u32) :: u64) = ucast b \<longleftrightarrow> a = b"
  by (metis unat_up(3) word_unat_eq_iff)

lemma slot_frames_inject: "slot_frames s = slot_frames s' \<Longrightarrow> s = s'"
  using region_lengths region_distinct
  by (cases s; cases s') (auto simp: to_be_inject ucast_u32_inject dest!: arg_cong [of _ _ "\<lambda>xs. map length xs"])

end
