(* ===== verification/Transaction.thy ===== *)
theory Transaction
  imports Instruction
begin

text \<open>
  Transactions (\<open>transaction.rs\<close>), their canonical wire encoding (\<open>wire.rs\<close>), the digest an
  authenticator signs, and authentication.
\<close>

section \<open>Transactions\<close>

datatype payload =
    Transfer l2address asset_id u128
  | PBindIdentifier channel hash256
  | PUnbindIdentifier hash256
  | Governance u64 governance_update "council_signature list"
  | DistributeFees asset_id u128 fee_split

datatype authenticator =
    Ed25519 bytes32 bytes64
  | Keyless keyless_signature

record transaction =
  tx_sender :: l2address
  tx_nonce :: u64
  tx_fee_asset :: asset_id
  tx_fee_rate :: u128
  tx_fee_intrinsic_gas :: u64
  tx_gas_limit :: u64
  tx_max_fee_per_gas :: u128
  tx_max_priority_fee_per_gas :: u128
  tx_payload :: payload
  tx_authenticator :: authenticator

definition MAX_TRANSACTION_BYTES :: nat where
  "MAX_TRANSACTION_BYTES = 8 * 1024"
definition MAX_COUNCIL_SIGNATURES :: nat where
  "MAX_COUNCIL_SIGNATURES = 32"

datatype wire_error =
    WireMalformed decode_error
  | TooLarge nat
  | TooManySignatures

section \<open>The wire format\<close>

definition write_keyless :: "keyless_signature \<Rightarrow> bytes" where
  "write_keyless sig =
     w_bytes32 (ks_iss_hash sig) @ w_bytes32 (ks_idc sig) @ w_bytes32 (ks_ephemeral_public_key sig)
     @ w_bytes64 (ks_ephemeral_signature sig) @ w_u64 (ks_exp_date_secs sig) @ w_u64 (ks_exp_horizon_secs sig)
     @ w_bytes32 (ks_jwt_header_hash sig) @ w_bytes32 (ks_jwk_hash sig)
     @ (case ks_extra_field_hash sig of None \<Rightarrow> w_u8 0 | Some h \<Rightarrow> w_u8 1 @ w_bytes32 h)
     @ w_bytes128 (ks_proof sig)"

definition read_extra :: "bytes32 option parser" where
  "read_extra = p_bind r_bool (\<lambda>b. if b then p_bind r_bytes32 (\<lambda>h. p_return (Some h)) else p_return None)"

definition read_keyless :: "keyless_signature parser" where
  "read_keyless =
     p_bind r_bytes32 (\<lambda>iss. p_bind r_bytes32 (\<lambda>idc. p_bind r_bytes32 (\<lambda>epk. p_bind r_bytes64 (\<lambda>esig.
     p_bind r_u64 (\<lambda>exp_date. p_bind r_u64 (\<lambda>horizon. p_bind r_bytes32 (\<lambda>header. p_bind r_bytes32 (\<lambda>jwk.
     p_bind read_extra (\<lambda>extra. p_bind r_bytes128 (\<lambda>prf.
       p_return \<lparr>ks_iss_hash = iss, ks_idc = idc, ks_ephemeral_public_key = epk,
         ks_ephemeral_signature = esig, ks_exp_date_secs = exp_date, ks_exp_horizon_secs = horizon,
         ks_jwt_header_hash = header, ks_jwk_hash = jwk, ks_extra_field_hash = extra, ks_proof = prf\<rparr>))))))))))"

definition w_council_signature :: "council_signature \<Rightarrow> bytes" where
  "w_council_signature s = w_u32 (cs_index s) @ w_bytes (to_be (cs_signature s))"

fun write_payload :: "payload \<Rightarrow> bytes" where
  "write_payload (Transfer to asset amount) = w_u8 0 @ w_bytes32 to @ w_u32 asset @ w_u128 amount"
| "write_payload (PBindIdentifier ch identifier) = w_u8 1 @ w_u8 (discriminant ch) @ w_bytes32 identifier"
| "write_payload (PUnbindIdentifier identifier) = w_u8 2 @ w_bytes32 identifier"
| "write_payload (Governance e update sigs) =
     w_u8 3 @ w_u64 e @ w_bytes (write_update update) @ w_u32 (of_nat (length sigs))
       @ concat (map w_council_signature sigs)"
| "write_payload (DistributeFees asset amount s) =
     w_u8 4 @ w_u32 asset @ w_u128 amount @ w_bytes (split_encode s)"

text \<open>\<open>sig.try_into()\<close>: exactly 64 bytes.\<close>

definition r_council_signature :: "council_signature parser" where
  "r_council_signature =
     p_bind r_u32 (\<lambda>index. p_bind r_bytes (\<lambda>sig.
       if length sig = 64 then p_return \<lparr>cs_index = index, cs_signature = from_be sig\<rparr>
       else p_fail LengthOverflow))"

text \<open>An inner reader that must consume its whole input.\<close>

definition p_inner :: "bytes \<Rightarrow> 'a parser \<Rightarrow> (wire_error, 'a) parser_e" where
  "p_inner bs p = p_result (map_err WireMalformed (parse_all p bs))"

abbreviation w_lift :: "'a parser \<Rightarrow> (wire_error, 'a) parser_e" where
  "w_lift \<equiv> p_lift WireMalformed"

definition read_governance :: "(wire_error, payload) parser_e" where
  "read_governance =
     p_bind (w_lift r_u64) (\<lambda>e. p_bind (w_lift r_bytes) (\<lambda>inner.
     p_bind (p_inner inner read_update) (\<lambda>update. p_bind (w_lift r_u32) (\<lambda>count.
       if unat count > MAX_COUNCIL_SIGNATURES then p_fail TooManySignatures
       else p_bind (w_lift (r_repeat (unat count) r_council_signature)) (\<lambda>sigs.
         p_return (Governance e update sigs))))))"

definition read_payload :: "(wire_error, payload) parser_e" where
  "read_payload = p_bind (w_lift r_u8) (\<lambda>t.
     if t = 0 then
       p_bind (w_lift r_bytes32) (\<lambda>to. p_bind (w_lift r_u32) (\<lambda>asset. p_bind (w_lift r_u128) (\<lambda>amount.
         p_return (Transfer to asset amount))))
     else if t = 1 then
       p_bind (w_lift r_u8) (\<lambda>d. case from_discriminant d of
           None \<Rightarrow> p_fail (WireMalformed (UnknownVariant d))
         | Some ch \<Rightarrow> p_bind (w_lift r_bytes32) (\<lambda>identifier. p_return (PBindIdentifier ch identifier)))
     else if t = 2 then p_bind (w_lift r_bytes32) (\<lambda>identifier. p_return (PUnbindIdentifier identifier))
     else if t = 3 then read_governance
     else if t = 4 then
       p_bind (w_lift r_u32) (\<lambda>asset. p_bind (w_lift r_u128) (\<lambda>amount. p_bind (w_lift (read_split 4)) (\<lambda>s.
         p_return (DistributeFees asset amount s))))
     else p_fail (WireMalformed (UnknownVariant t)))"

fun write_authenticator :: "authenticator \<Rightarrow> bytes" where
  "write_authenticator (Ed25519 public_key signature) = w_u8 0 @ w_bytes32 public_key @ w_bytes64 signature"
| "write_authenticator (Keyless sig) = w_u8 1 @ write_keyless sig"

definition read_authenticator :: "(wire_error, authenticator) parser_e" where
  "read_authenticator = p_bind (w_lift r_u8) (\<lambda>t.
     if t = 0 then p_bind (w_lift r_bytes32) (\<lambda>pk. p_bind (w_lift r_bytes64) (\<lambda>sig. p_return (Ed25519 pk sig)))
     else if t = 1 then p_bind (w_lift read_keyless) (\<lambda>sig. p_return (Keyless sig))
     else p_fail (WireMalformed (UnknownVariant t)))"

definition tx_encode :: "transaction \<Rightarrow> bytes" where
  "tx_encode tx =
     w_bytes32 (tx_sender tx) @ w_u64 (tx_nonce tx) @ w_u32 (tx_fee_asset tx) @ w_u128 (tx_fee_rate tx)
     @ w_u64 (tx_fee_intrinsic_gas tx) @ w_u64 (tx_gas_limit tx) @ w_u128 (tx_max_fee_per_gas tx)
     @ w_u128 (tx_max_priority_fee_per_gas tx) @ w_bytes (write_payload (tx_payload tx))
     @ write_authenticator (tx_authenticator tx)"

text \<open>
  The payload is read from its own length-prefixed bytes; its reader must use them up.
\<close>

definition payload_of_bytes :: "bytes \<Rightarrow> (wire_error, payload) result" where
  "payload_of_bytes bs =
     and_then (read_payload (reader_new bs)) (\<lambda>(p, r).
     and_then (map_err WireMalformed (r_finish r)) (\<lambda>_. Ok p))"

definition read_transaction :: "(wire_error, transaction) parser_e" where
  "read_transaction =
     p_bind (w_lift r_bytes32) (\<lambda>sender. p_bind (w_lift r_u64) (\<lambda>nonce'. p_bind (w_lift r_u32) (\<lambda>fee_asset.
     p_bind (w_lift r_u128) (\<lambda>fee_rate. p_bind (w_lift r_u64) (\<lambda>fee_gas. p_bind (w_lift r_u64) (\<lambda>gas_limit.
     p_bind (w_lift r_u128) (\<lambda>max_fee. p_bind (w_lift r_u128) (\<lambda>max_tip. p_bind (w_lift r_bytes) (\<lambda>payload_bytes.
     p_bind (p_result (payload_of_bytes payload_bytes)) (\<lambda>pl. p_bind read_authenticator (\<lambda>auth.
       p_return \<lparr>tx_sender = sender, tx_nonce = nonce', tx_fee_asset = fee_asset, tx_fee_rate = fee_rate,
         tx_fee_intrinsic_gas = fee_gas, tx_gas_limit = gas_limit, tx_max_fee_per_gas = max_fee,
         tx_max_priority_fee_per_gas = max_tip, tx_payload = pl, tx_authenticator = auth\<rparr>)))))))))))"

definition tx_decode :: "bytes \<Rightarrow> (wire_error, transaction) result" where
  "tx_decode bs =
     (if length bs > MAX_TRANSACTION_BYTES then Err (TooLarge (length bs))
      else and_then (read_transaction (reader_new bs)) (\<lambda>(tx, r).
        and_then (map_err WireMalformed (r_finish r)) (\<lambda>_.
          if tx_encode tx \<noteq> bs then Err (WireMalformed (UnknownVariant 255)) else Ok tx)))"

section \<open>Signing and authentication\<close>

definition tx_signing_preimage :: "transaction \<Rightarrow> bytes" where
  "tx_signing_preimage tx =
     enc_field (enc_u128 (enc_u128 (enc_u64 (enc_u64 (enc_u128 (enc_u64 (enc_u64
       (enc_field (enc_new TRANSACTION) (to_be (tx_sender tx)))
       (tx_nonce tx)) (ucast (tx_fee_asset tx))) (tx_fee_rate tx)) (tx_fee_intrinsic_gas tx))
       (tx_gas_limit tx)) (tx_max_fee_per_gas tx)) (tx_max_priority_fee_per_gas tx))
       (write_payload (tx_payload tx))"

definition signing_digest :: "hasher \<Rightarrow> transaction \<Rightarrow> hash256" where
  "signing_digest H tx = commit H (tx_signing_preimage tx)"

definition tx_hash :: "hasher \<Rightarrow> transaction \<Rightarrow> hash256" where
  "tx_hash H tx = digest H (tx_encode tx)"

definition authenticate ::
    "hasher \<Rightarrow> ed25519 \<Rightarrow> width_constants list \<Rightarrow> transaction \<Rightarrow> keyless_context \<Rightarrow> (auth_error, unit) result" where
  "authenticate H ed pcs tx ctx =
     (case tx_authenticator tx of
        Ed25519 public_key signature \<Rightarrow>
          if tx_sender tx \<noteq> public_key then Err WrongSigner
          else verify_ed25519_strict ed public_key signature (signing_digest H tx)
      | Keyless sig \<Rightarrow>
          map_err KeylessRefused (keyless_verify H ed pcs sig (tx_sender tx) (signing_digest H tx) ctx))"

section \<open>Reading back what was written\<close>

interpretation keylessc: codec write_keyless read_keyless "\<lambda>_. True"
proof (rule codecI)
  fix sig :: keyless_signature
  have extra: "reads read_extra (case ks_extra_field_hash sig of None \<Rightarrow> w_u8 0 | Some h \<Rightarrow> w_u8 1 @ w_bytes32 h)
      (ks_extra_field_hash sig)"
  proof (cases "ks_extra_field_hash sig")
    case None
    have "reads read_extra (w_bool False @ []) None"
      unfolding read_extra_def by (rule reads_bind [OF boolc.round_trip]) (simp_all add: reads_return)
    with None show ?thesis by (simp add: w_bool_def w_u8_def)
  next
    case (Some h)
    have "reads read_extra (w_bool True @ w_bytes32 h) (Some h)"
      unfolding read_extra_def
      by (rule reads_bind [OF boolc.round_trip], simp, simp, rule reads_bind_return [OF b32c.round_trip]) simp_all
    with Some show ?thesis by (simp add: w_bool_def w_u8_def)
  qed
  show "reads read_keyless (write_keyless sig) sig"
    unfolding read_keyless_def write_keyless_def
    by ((rule reads_rules extra)+, simp)
qed (unfold read_keyless_def read_extra_def, (rule accepts_rules)+,
     auto simp: write_keyless_def w_bool_def w_u8_def split: if_splits)

interpretation sigc: codec w_council_signature r_council_signature "\<lambda>_. True"
proof (rule codecI)
  fix s :: council_signature
  have "reads (p_bind r_bytes (\<lambda>sig. if length sig = 64 then p_return \<lparr>cs_index = cs_index s, cs_signature = from_be sig\<rparr>
       else p_fail LengthOverflow)) (w_bytes (to_be (cs_signature s)) @ []) s"
    by (rule reads_bind [OF bytesc.round_trip], simp, cases s) (simp add: from_be_to_be reads_return)
  then show "reads r_council_signature (w_council_signature s) s"
    unfolding r_council_signature_def w_council_signature_def
    by (intro reads_bind [OF u32c.round_trip]) simp_all
qed (unfold r_council_signature_def, (rule accepts_rules)+,
     auto simp: w_council_signature_def to_be_from_be split: if_splits)

text \<open>
  What a payload needs to be read back: valid UTF-8 in its strings, and counts within the wire
  limits.
\<close>

fun update_valid :: "governance_update \<Rightarrow> bool" where
  "update_valid (GSetGasAsset rec) \<longleftrightarrow> utf8_valid (wa_symbol rec)"
| "update_valid (GSetParameter name v) \<longleftrightarrow> utf8_valid name"
| "update_valid (GSetFeeSplit s) \<longleftrightarrow> split_wf s"
| "update_valid _ \<longleftrightarrow> True"

fun payload_valid :: "payload \<Rightarrow> bool" where
  "payload_valid (Governance e u sigs) \<longleftrightarrow> update_valid u \<and> length sigs \<le> MAX_COUNCIL_SIGNATURES"
| "payload_valid (DistributeFees asset amount s) \<longleftrightarrow> split_wf s"
| "payload_valid _ \<longleftrightarrow> True"

definition tx_valid :: "transaction \<Rightarrow> bool" where
  "tx_valid tx \<longleftrightarrow> payload_valid (tx_payload tx) \<and> length (tx_encode tx) \<le> MAX_TRANSACTION_BYTES"

lemma update_wf_valid: "update_valid u \<Longrightarrow> length (write_update u) < 2 ^ 32 \<Longrightarrow> update_wf u"
  by (cases u) (simp_all add: asset_wf_def asset_encode_def w_string_def)

lemma parse_all_reads:
  assumes "reads p bs x" "length bs < 2 ^ 63"
  shows "parse_all p bs = Ok x"
proof -
  have "decodes (\<lambda>_. bs) p (\<lambda>y. y = x)" using assms(1) by unfold_locales simp
  from decodes.parse_all_wr [OF this, of x] assms(2) show ?thesis by simp
qed

lemma payload_reads:
  assumes "payload_valid p" "length (write_payload p) < 2 ^ 32"
  shows "reads read_payload (write_payload p) p"
proof (cases p)
  case (Governance e u sigs)
  with assms have len: "length (write_update u) < 2 ^ 32" "length sigs \<le> MAX_COUNCIL_SIGNATURES"
    and wf: "update_wf u" by (auto intro!: update_wf_valid)
  have sn: "unat (of_nat (length sigs) :: u32) = length sigs"
    using len(2) by (simp add: MAX_COUNCIL_SIGNATURES_def unat_of_nat)
  have inner: "reads (p_inner (write_update u) read_update) [] u"
    unfolding p_inner_def
    by (rule reads_result) (use parse_all_reads [OF updatec.round_trip [OF wf]] len in simp)
  have sigs: "reads (w_lift (r_repeat (length sigs) r_council_signature)) (concat (map w_council_signature sigs)) sigs"
    by (rule reads_lift, rule sigc.repeat_round_trip) (simp add: list_all_iff)
  have tail: "reads (if unat (of_nat (length sigs) :: u32) > MAX_COUNCIL_SIGNATURES then p_fail TooManySignatures
       else p_bind (w_lift (r_repeat (unat (of_nat (length sigs) :: u32)) r_council_signature)) (\<lambda>sigs.
         p_return (Governance e u sigs))) (concat (map w_council_signature sigs)) p"
    unfolding sn using len(2) Governance reads_bind_return [OF sigs, of "Governance e u"] by simp
  have "reads (p_bind (p_inner (write_update u) read_update) (\<lambda>update. p_bind (w_lift r_u32) (\<lambda>count.
       if unat count > MAX_COUNCIL_SIGNATURES then p_fail TooManySignatures
       else p_bind (w_lift (r_repeat (unat count) r_council_signature)) (\<lambda>sigs.
         p_return (Governance e update sigs)))))
     ([] @ w_u32 (of_nat (length sigs)) @ concat (map w_council_signature sigs)) p"
    by (rule reads_bind [OF inner], rule reads_bind [OF reads_lift [OF u32c.round_trip]]) (simp, rule tail)
  then have "reads read_governance (w_u64 e @ w_bytes (write_update u) @ w_u32 (of_nat (length sigs))
       @ concat (map w_council_signature sigs)) p"
    unfolding read_governance_def
    by (intro reads_bind [OF reads_lift [OF u64c.round_trip]] reads_bind [OF reads_lift [OF bytesc.round_trip]])
      (use len in simp_all)
  then show ?thesis
    unfolding read_payload_def Governance write_payload.simps
    by (intro reads_bind [OF reads_lift [OF u8c.round_trip]]) (simp_all add: Governance)
next
  case (DistributeFees asset amount s)
  with assms have s: "reads (w_lift (read_split 4)) (w_bytes (split_encode s)) s"
    by (intro reads_lift read_split_reads) simp
  show ?thesis
    unfolding read_payload_def DistributeFees write_payload.simps
    by (rule reads_bind [OF reads_lift [OF u8c.round_trip]], simp, simp, (rule s reads_rules)+, simp)
next
  case (PBindIdentifier ch i)
  show ?thesis
    unfolding read_payload_def PBindIdentifier write_payload.simps
    by (rule reads_bind [OF reads_lift [OF u8c.round_trip]], simp, simp,
        rule reads_bind [OF reads_lift [OF u8c.round_trip]], simp, simp, (rule reads_rules)+, simp)
qed (unfold read_payload_def, simp_all,
     (rule reads_bind [OF reads_lift [OF u8c.round_trip]], simp, simp, (rule reads_rules)+, simp)+)

lemma reads_whole:
  assumes "reads p bs x" "length bs < 2 ^ 63"
  shows "\<exists>r. p (reader_new bs) = Ok (x, r) \<and> r_finish r = Ok ()"
proof -
  let ?r' = "\<lparr>rd_input = bs, rd_offset = length bs\<rparr>"
  have "reader_ok (reader_new bs)" "consumes (reader_new bs) bs ?r'"
    using assms(2) by (simp_all add: reader_ok_def consumes_def reader_new_def)
  with assms(1) have "p (reader_new bs) = Ok (x, ?r')" by (rule readsD)
  then show ?thesis by (simp add: r_finish_def)
qed

lemma authenticator_reads: "reads read_authenticator (write_authenticator a) a"
proof (cases a)
  case (Ed25519 pk sig)
  show ?thesis
    unfolding read_authenticator_def Ed25519 write_authenticator.simps
    by (rule reads_bind [OF reads_lift [OF u8c.round_trip]], simp, simp, (rule reads_rules)+, simp)
next
  case (Keyless sig)
  show ?thesis
    unfolding read_authenticator_def Keyless write_authenticator.simps
    by (rule reads_bind [OF reads_lift [OF u8c.round_trip]], simp, simp,
        rule reads_bind_return [OF reads_lift [OF keylessc.round_trip]]) simp_all
qed

lemma tx_encode_length: "length (write_payload (tx_payload tx)) \<le> length (tx_encode tx)"
  by (simp add: tx_encode_def)

lemma tx_reads:
  assumes "tx_valid tx"
  shows "reads read_transaction (tx_encode tx) tx"
proof -
  have len: "length (write_payload (tx_payload tx)) < 2 ^ 32"
    using assms tx_encode_length [of tx] by (simp add: tx_valid_def MAX_TRANSACTION_BYTES_def)
  then have "payload_of_bytes (write_payload (tx_payload tx)) = Ok (tx_payload tx)"
    using reads_whole [OF payload_reads [OF _ len]] assms by (auto simp: payload_of_bytes_def tx_valid_def)
  then have pl: "reads (p_result (payload_of_bytes (write_payload (tx_payload tx)))) [] (tx_payload tx)"
    by (rule reads_result)
  have tail: "reads (p_bind (p_result (payload_of_bytes (write_payload (tx_payload tx)))) (\<lambda>pl.
       p_bind read_authenticator (\<lambda>auth.
       p_return \<lparr>tx_sender = tx_sender tx, tx_nonce = tx_nonce tx, tx_fee_asset = tx_fee_asset tx,
         tx_fee_rate = tx_fee_rate tx, tx_fee_intrinsic_gas = tx_fee_intrinsic_gas tx,
         tx_gas_limit = tx_gas_limit tx, tx_max_fee_per_gas = tx_max_fee_per_gas tx,
         tx_max_priority_fee_per_gas = tx_max_priority_fee_per_gas tx, tx_payload = pl, tx_authenticator = auth\<rparr>)))
      ([] @ write_authenticator (tx_authenticator tx)) tx"
    by (rule reads_bind [OF pl], rule reads_bind_return [OF authenticator_reads]) simp
  show ?thesis
    unfolding read_transaction_def tx_encode_def
    by ((rule reads_bind, rule reads_lift, rule reads_rules)+, rule len, rule tail [simplified])
qed

section \<open>What the decoder accepts\<close>

lemma accepts_new:
  assumes "accepts p Q" "p (reader_new bs) = Ok (x, r)" "length bs < 2 ^ 63"
  shows "\<exists>b. Q x b"
proof -
  have "reader_ok (reader_new bs)" using assms(3) by (simp add: reader_ok_def reader_new_def)
  with assms(1,2) show ?thesis by (blast elim: acceptsE)
qed

lemma parse_all_accepts:
  "accepts p Q \<Longrightarrow> parse_all p bs = Ok x \<Longrightarrow> length bs < 2 ^ 63 \<Longrightarrow> \<exists>b. Q x b"
  by (auto simp: parse_all_def result_simps split: prod.splits dest: accepts_new)

lemma asset_decode_valid: "asset_decode bs = Ok rec \<Longrightarrow> length bs < 2 ^ 63 \<Longrightarrow> utf8_valid (wa_symbol rec)"
proof -
  have "accepts r_whitelisted_asset (\<lambda>rec bs. utf8_valid (wa_symbol rec))"
    unfolding r_whitelisted_asset_def
    by (rule accepts_weaken, (rule accepts_rules)+) (auto simp: utf8_valid_lossy)
  moreover assume "asset_decode bs = Ok rec" "length bs < 2 ^ 63"
  ultimately show ?thesis by (auto simp: asset_decode_def result_simps dest: parse_all_accepts)
qed

lemma split_decode_valid: "split_decode bs = Ok s \<Longrightarrow> length bs < 2 ^ 63 \<Longrightarrow> split_wf s"
  using splitc.parse_all_OkD [of bs s] by (simp add: split_decode_def result_simps)

lemma read_update_valid: "accepts read_update (\<lambda>u bs. update_valid u)"
  unfolding read_update_def read_split_def
  by (rule accepts_weaken, (rule accepts_rules)+)
    (auto simp: utf8_valid_lossy result_simps split: if_splits
      intro: asset_decode_valid split_decode_valid)

lemma read_payload_valid: "accepts read_payload (\<lambda>p bs. payload_valid p)"
  unfolding read_payload_def read_governance_def p_inner_def read_split_def
  by (rule accepts_weaken, (rule accepts_rules sigc.codec_axioms)+)
    (auto simp: result_simps split: if_splits option.splits
      intro: split_decode_valid dest!: parse_all_accepts [OF read_update_valid])

lemma payload_of_bytes_valid:
  "payload_of_bytes bs = Ok p \<Longrightarrow> length bs < 2 ^ 63 \<Longrightarrow> payload_valid p"
  by (auto simp: payload_of_bytes_def result_simps split: prod.splits
      dest: accepts_new [OF read_payload_valid])

lemma read_transaction_valid: "accepts read_transaction (\<lambda>tx bs. payload_valid (tx_payload tx))"
proof -
  have auth: "accepts read_authenticator (\<lambda>_ _. True)"
    unfolding read_authenticator_def
    by (rule accepts_weaken, (rule accepts_rules keylessc.codec_axioms [THEN codec_accepts])+) simp
  show ?thesis
    unfolding read_transaction_def
    by (rule accepts_weaken, (rule accepts_rules auth)+) (auto intro: payload_of_bytes_valid)
qed

section \<open>What is signed\<close>

lemma write_payload_inject:
  assumes "payload_valid p" "payload_valid q" "length (write_payload p) < 2 ^ 32" "write_payload p = write_payload q"
  shows "p = q"
proof -
  have "reads read_payload (write_payload p) p" "reads read_payload (write_payload p) q"
    using payload_reads assms by metis+
  from reads_whole [OF this(1)] reads_whole [OF this(2)] assms(3) show ?thesis by force
qed

lemma tx_signing_frames:
  "tx_signing_preimage tx = frames [TRANSACTION, to_be (tx_sender tx), to_be (tx_nonce tx),
     to_be (ucast (tx_fee_asset tx) :: u64), to_be (tx_fee_rate tx), to_be (tx_fee_intrinsic_gas tx),
     to_be (tx_gas_limit tx), to_be (tx_max_fee_per_gas tx), to_be (tx_max_priority_fee_per_gas tx),
     write_payload (tx_payload tx)]"
  by (simp add: tx_signing_preimage_def enc_simps)

section \<open>Properties\<close>

text \<open>
  C36.  The wire format is exact: a byte string decodes to a transaction if and only if it is
  the encoding of that transaction and the transaction is within the wire limits.  Every
  transaction within the limits survives the round trip, and no transaction has two accepted
  encodings, although the string reader replaces invalid UTF-8.
\<close>

theorem tx_codec_exact:
  "tx_decode bs = Ok tx \<longleftrightarrow> tx_valid tx \<and> bs = tx_encode tx"
proof
  assume d: "tx_decode bs = Ok tx"
  then obtain r where r: "read_transaction (reader_new bs) = Ok (tx, r)" and e: "bs = tx_encode tx"
    and l: "length bs \<le> MAX_TRANSACTION_BYTES"
    by (auto simp: tx_decode_def result_simps split: if_splits prod.splits)
  have "payload_valid (tx_payload tx)"
    using accepts_new [OF read_transaction_valid r] l by (simp add: MAX_TRANSACTION_BYTES_def)
  with e l show "tx_valid tx \<and> bs = tx_encode tx" by (simp add: tx_valid_def)
next
  assume v: "tx_valid tx \<and> bs = tx_encode tx"
  then have l: "length (tx_encode tx) \<le> MAX_TRANSACTION_BYTES" by (simp add: tx_valid_def)
  then have "length (tx_encode tx) < 2 ^ 63" by (simp add: MAX_TRANSACTION_BYTES_def)
  with reads_whole [OF tx_reads] v obtain r where
    "read_transaction (reader_new (tx_encode tx)) = Ok (tx, r)" "r_finish r = Ok ()" by blast
  with v l show "tx_decode bs = Ok tx" by (simp add: tx_decode_def)
qed

text \<open>
  A signature covers the whole transaction: two transactions with the same signing
  preimage differ at most in their authenticators, so no observer can reuse a captured
  signature with another recipient, amount, fee, nonce or payload.
\<close>

lemma signing_preimage_binds:
  assumes "tx_valid tx" "tx_valid tx'" "tx_signing_preimage tx = tx_signing_preimage tx'"
  shows "tx = tx'\<lparr>tx_authenticator := tx_authenticator tx\<rparr>"
proof -
  have len: "length (write_payload (tx_payload t)) < 2 ^ 32" if "tx_valid t" for t
    using that tx_encode_length [of t] by (simp add: tx_valid_def MAX_TRANSACTION_BYTES_def)
  have fr: "framable [TRANSACTION, to_be (tx_sender t), to_be (tx_nonce t),
     to_be (ucast (tx_fee_asset t) :: u64), to_be (tx_fee_rate t), to_be (tx_fee_intrinsic_gas t),
     to_be (tx_gas_limit t), to_be (tx_max_fee_per_gas t), to_be (tx_max_priority_fee_per_gas t),
     write_payload (tx_payload t)]" if "tx_valid t" for t
    using len [OF that] by (simp add: framable_def domain_defs)
  from frames_inject [OF fr [OF assms(1)] fr [OF assms(2)]] assms(3)
  have eqs: "tx_sender tx = tx_sender tx'" "tx_nonce tx = tx_nonce tx'" "tx_fee_asset tx = tx_fee_asset tx'"
    "tx_fee_rate tx = tx_fee_rate tx'" "tx_fee_intrinsic_gas tx = tx_fee_intrinsic_gas tx'"
    "tx_gas_limit tx = tx_gas_limit tx'" "tx_max_fee_per_gas tx = tx_max_fee_per_gas tx'"
    "tx_max_priority_fee_per_gas tx = tx_max_priority_fee_per_gas tx'"
    and p: "write_payload (tx_payload tx) = write_payload (tx_payload tx')"
    by (simp_all add: tx_signing_frames to_be_inject ucast_u32_inject)
  have "tx_payload tx = tx_payload tx'"
    using assms(1,2) len [OF assms(1)] p by (intro write_payload_inject) (simp_all add: tx_valid_def)
  with eqs show ?thesis by simp
qed

definition sample_tx :: transaction where
  "sample_tx = \<lparr>tx_sender = 1, tx_nonce = 7, tx_fee_asset = 1, tx_fee_rate = 1000000,
     tx_fee_intrinsic_gas = 10000, tx_gas_limit = 50000, tx_max_fee_per_gas = 30000000000,
     tx_max_priority_fee_per_gas = 1000000000, tx_payload = Transfer 2 1 5, tx_authenticator = Ed25519 1 3\<rparr>"

lemma sample_tx_valid: "tx_valid (sample_tx\<lparr>tx_authenticator := Ed25519 pk sig\<rparr>)"
  by (simp add: tx_valid_def sample_tx_def tx_encode_def MAX_TRANSACTION_BYTES_def)

text \<open>
  C35.  Only the owner of an account authorises its transactions.  A plain transaction passes
  authentication exactly when its sender is the very key that signed the digest, and that key is a valid
  strong one.  A keyless one passes exactly when keyless accounts are enabled, its sender is the address derived from
  the issuer and the identity commitment, the ephemeral key is a valid strong one that signed the digest and had not
  expired, its horizon is within the network's, and the Groth16 proof is well-formed and verifies for the public input
  hashed from this authenticator's own scalars.  Those scalars fix the ephemeral key, the identity, the
  expiry, the horizon, the issuer, the JWT header, the JWK and the extra field.  Authentication never panics.
  It is stateless: whether the JWK is current is for the trace to check.
\<close>

theorem authenticate_owner:
  "(authenticate H ed pcs tx ctx = Ok () \<longleftrightarrow>
     (case tx_authenticator tx of
        Ed25519 pk sig \<Rightarrow> pk = tx_sender tx \<and> ed_is_point ed pk \<and> \<not> ed_is_weak ed pk
          \<and> ed_verify_strict ed (tx_sender tx) (to_be (H (tx_signing_preimage tx))) sig
      | Keyless s \<Rightarrow> tx_sender tx = derive_keyless H (ks_iss_hash s) (ks_idc s)
          \<and> ed_is_point ed (ks_ephemeral_public_key s) \<and> \<not> ed_is_weak ed (ks_ephemeral_public_key s)
          \<and> ed_verify_strict ed (ks_ephemeral_public_key s) (to_be (H (tx_signing_preimage tx))) (ks_ephemeral_signature s)
          \<and> kx_now ctx < ks_exp_date_secs s
          \<and> (\<exists>config ss f. kx_config ctx = Some config \<and> ks_exp_horizon_secs s \<le> kc_max_exp_horizon_secs config
               \<and> public_scalars pcs s = Ok ss \<and> hash_scalars pcs ss = Ok f
               \<and> kc_parse_ok config (ks_proof s) \<and> kc_groth16 config (ks_proof s) f
               \<and> (\<forall>s'. public_scalars pcs s' = Ok ss \<longrightarrow>
                    ks_ephemeral_public_key s' = ks_ephemeral_public_key s \<and> ks_idc s' = ks_idc s \<and> ks_iss_hash s' = ks_iss_hash s
                    \<and> ks_exp_date_secs s' = ks_exp_date_secs s \<and> ks_exp_horizon_secs s' = ks_exp_horizon_secs s
                    \<and> ks_jwt_header_hash s' = ks_jwt_header_hash s \<and> ks_jwk_hash s' = ks_jwk_hash s
                    \<and> ks_extra_field_hash s' = ks_extra_field_hash s))))
   \<and> authenticate H ed pcs tx ctx \<noteq> Panic"
proof (cases "tx_authenticator tx")
  case (Ed25519 pk sig)
  then show ?thesis
    by (auto simp: authenticate_def verify_ed25519_strict_def signing_digest_def commit_def digest_def)
next
  case (Keyless s)
  have d: "signing_digest H tx = H (tx_signing_preimage tx)" by (simp add: signing_digest_def commit_def digest_def)
  have a: "authenticate H ed pcs tx ctx = map_err KeylessRefused
      (keyless_verify H ed pcs s (tx_sender tx) (H (tx_signing_preimage tx)) ctx)"
    using Keyless by (simp add: authenticate_def d)
  have np: "authenticate H ed pcs tx ctx \<noteq> Panic"
    using keyless_verify_Ok [where H = H and ed = ed and pc = pcs and sig = s and sender = "tx_sender tx"
      and d = "H (tx_signing_preimage tx)" and ctx = ctx] unfolding a by (auto simp: result_simps split: result.splits)
  have b: "ks_ephemeral_public_key s' = ks_ephemeral_public_key s \<and> ks_idc s' = ks_idc s \<and> ks_iss_hash s' = ks_iss_hash s
      \<and> ks_exp_date_secs s' = ks_exp_date_secs s \<and> ks_exp_horizon_secs s' = ks_exp_horizon_secs s
      \<and> ks_jwt_header_hash s' = ks_jwt_header_hash s \<and> ks_jwk_hash s' = ks_jwk_hash s
      \<and> ks_extra_field_hash s' = ks_extra_field_hash s"
    if "public_scalars pcs s = Ok ss" "public_scalars pcs s' = Ok ss" for s' ss
    using public_scalars_bind [OF that] by simp
  have "authenticate H ed pcs tx ctx = Ok () \<longleftrightarrow> keyless_verify H ed pcs s (tx_sender tx) (H (tx_signing_preimage tx)) ctx = Ok ()"
    unfolding a by (simp add: map_err_Ok_iff)
  with np Keyless b show ?thesis by (simp add: keyless_accepts_iff) blast
qed

text \<open>A keyless transaction that passes, and one whose proof does not verify.\<close>

definition sample_owner :: keyless_context where
  "sample_owner = \<lparr>kx_config = Some \<lparr>kc_parse_ok = (\<lambda>_. True), kc_groth16 = (\<lambda>prf _. prf = 0), kc_max_exp_horizon_secs = 100\<rparr>, kx_now = 60\<rparr>"

theorem authenticate_owner_witness:
  "authenticate (\<lambda>_. 9) sample_ed [] (sample_tx\<lparr>tx_sender := 9, tx_authenticator := Keyless sample_sig\<rparr>) sample_owner = Ok ()
   \<and> authenticate (\<lambda>_. 9) sample_ed [] (sample_tx\<lparr>tx_sender := 9, tx_authenticator := Keyless (sample_sig\<lparr>ks_proof := 1\<rparr>)\<rparr>) sample_owner \<noteq> Ok ()
   \<and> authenticate (\<lambda>_. 9) sample_ed [] sample_tx sample_owner = Ok ()"
proof (intro conjI)
  obtain ss f where s: "public_scalars [] sample_sig = Ok ss" "hash_scalars [] ss = Ok f" by (rule sample_sig_scalars)
  show "authenticate (\<lambda>_. 9) sample_ed [] (sample_tx\<lparr>tx_sender := 9, tx_authenticator := Keyless sample_sig\<rparr>) sample_owner = Ok ()"
    using s public_scalars_bind [OF _ s(1)]
    by (intro iffD2 [OF conjunct1 [OF authenticate_owner]])
       (auto simp: sample_ed_def sample_owner_def sample_sig_def derive_keyless_def commit_def digest_def)
  show "authenticate (\<lambda>_. 9) sample_ed [] (sample_tx\<lparr>tx_sender := 9, tx_authenticator := Keyless (sample_sig\<lparr>ks_proof := 1\<rparr>)\<rparr>) sample_owner \<noteq> Ok ()"
    by (subst conjunct1 [OF authenticate_owner]) (auto simp: sample_owner_def)
  show "authenticate (\<lambda>_. 9) sample_ed [] sample_tx sample_owner = Ok ()"
    by (subst conjunct1 [OF authenticate_owner]) (simp add: sample_tx_def sample_ed_def)
qed

end
