(* ===== verification/Merkle.thy ===== *)
theory Merkle
  imports Primitives
begin

text \<open>
  Trie nodes (\<open>node.rs\<close>) and Merkle proofs (\<open>proof.rs\<close>) of the state crate, with the
  abstract sparse tree they speak about.  The tree is the specification: a proof is sound
  when what it claims about a key is what the tree holds, and the updated root it computes
  is the root of the updated tree.
\<close>

section \<open>Nodes\<close>

datatype node =
    Internal hash256 hash256
  | Leaf hash256 hash256

text \<open>What a node's hash commits to, and the hash itself.\<close>

fun node_preimage :: "node \<Rightarrow> bytes" where
  "node_preimage (Internal left right) =
     enc_field (enc_field (enc_new TRIE_INTERNAL) (to_be left)) (to_be right)"
| "node_preimage (Leaf key value_hash) =
     enc_field (enc_field (enc_new TRIE_LEAF) (to_be key)) (to_be value_hash)"

definition node_hash :: "hasher \<Rightarrow> node \<Rightarrow> hash256" where
  "node_hash H n = commit H (node_preimage n)"

definition hash_value :: "hasher \<Rightarrow> bytes \<Rightarrow> hash256" where
  "hash_value H value = digest H value"

lemma trie_domains_distinct: "TRIE_INTERNAL \<noteq> TRIE_LEAF"
proof -
  have "length TRIE_INTERNAL \<noteq> length TRIE_LEAF" by (simp add: domain_defs)
  then show ?thesis by auto
qed

lemma node_preimage_frames:
  "node_preimage (Internal l r) = frames [TRIE_INTERNAL, to_be l, to_be r]"
  "node_preimage (Leaf k v) = frames [TRIE_LEAF, to_be k, to_be v]"
  by (simp_all add: enc_simps)

lemma node_frames_framable:
  "framable [TRIE_INTERNAL, to_be (l :: hash256), to_be (r :: hash256)]"
  "framable [TRIE_LEAF, to_be (k :: hash256), to_be (v :: hash256)]"
  by (simp_all add: framable_def domain_defs)

text \<open>Distinct nodes have distinct preimages, across both kinds.\<close>

lemma node_preimage_inject: "node_preimage m = node_preimage n \<longleftrightarrow> m = n"
proof
  assume eq: "node_preimage m = node_preimage n"
  show "m = n"
    using eq trie_domains_distinct
    by (cases m; cases n)
      (auto simp: node_preimage_frames to_be_inject simp del: node_preimage.simps
        dest!: frames_inject [OF node_frames_framable(1) node_frames_framable(1)]
          frames_inject [OF node_frames_framable(1) node_frames_framable(2)]
          frames_inject [OF node_frames_framable(2) node_frames_framable(1)]
          frames_inject [OF node_frames_framable(2) node_frames_framable(2)])
qed simp

text \<open>
  What the trie relies on of SHA-256, about the finitely many nodes it actually hashes: no
  two of them collide and none hashes to the empty-subtree sentinel.
\<close>

definition collision_free :: "hasher \<Rightarrow> node set \<Rightarrow> bool" where
  "collision_free H N \<longleftrightarrow> inj_on H (node_preimage ` N) \<and> ZERO \<notin> H ` node_preimage ` N"

lemma collision_free_inject:
  "collision_free H N \<Longrightarrow> m \<in> N \<Longrightarrow> n \<in> N \<Longrightarrow> node_hash H m = node_hash H n \<longleftrightarrow> m = n"
  unfolding collision_free_def node_hash_def commit_def digest_def
  by (metis imageI inj_onD node_preimage_inject)

lemma collision_free_nonzero: "collision_free H N \<Longrightarrow> n \<in> N \<Longrightarrow> node_hash H n \<noteq> ZERO"
  by (auto simp: collision_free_def node_hash_def commit_def digest_def image_iff)

lemma collision_free_mono: "collision_free H N \<Longrightarrow> M \<subseteq> N \<Longrightarrow> collision_free H M"
  by (auto simp: collision_free_def intro: inj_on_subset)

section \<open>Merkle proofs\<close>

definition MAX_DEPTH :: nat where
  "MAX_DEPTH = 256"

datatype terminal = TEmpty | TLeaf hash256 hash256

record merkle_proof =
  siblings :: "hash256 list"
  terminal :: terminal

datatype proof_error =
    TooDeep nat
  | RootMismatch hash256 hash256
  | LeafOffPath nat
  | KeyAbsent
  | DifferentKey
  | ValueMismatch hash256 hash256
  | KeyPresent

text \<open>The first of the \<open>depth\<close> leading bits in which two keys differ.\<close>

definition off_path :: "nat \<Rightarrow> hash256 \<Rightarrow> hash256 \<Rightarrow> nat option" where
  "off_path depth a b = find (\<lambda>i. hash_bit a i \<noteq> hash_bit b i) [0..<depth]"

text \<open>Folding upwards: the loop \<open>for level in (0..depth).rev()\<close>.\<close>

fun fold_levels :: "hasher \<Rightarrow> hash256 \<Rightarrow> hash256 list \<Rightarrow> nat \<Rightarrow> hash256 \<Rightarrow> hash256" where
  "fold_levels H key sibs 0 running = running"
| "fold_levels H key sibs (Suc level) running =
     fold_levels H key sibs level
       (node_hash H (if hash_bit key level then Internal (sibs ! level) running
                     else Internal running (sibs ! level)))"

definition terminal_hash :: "hasher \<Rightarrow> terminal \<Rightarrow> hash256" where
  "terminal_hash H t = (case t of TEmpty \<Rightarrow> ZERO | TLeaf k v \<Rightarrow> node_hash H (Leaf k v))"

definition reconstruct_root ::
    "hasher \<Rightarrow> merkle_proof \<Rightarrow> hash256 \<Rightarrow> (proof_error, hash256) result" where
  "reconstruct_root H p key =
     (let depth = length (siblings p) in
      if depth > MAX_DEPTH then Err (TooDeep depth)
      else case (case terminal p of TLeaf leaf_key _ \<Rightarrow> off_path depth leaf_key key | TEmpty \<Rightarrow> None)
        of Some i \<Rightarrow> Err (LeafOffPath i)
         | None \<Rightarrow> Ok (fold_levels H key (siblings p) depth (terminal_hash H (terminal p))))"

definition verify_inclusion_hashed ::
    "hasher \<Rightarrow> merkle_proof \<Rightarrow> hash256 \<Rightarrow> hash256 \<Rightarrow> hash256 \<Rightarrow> (proof_error, unit) result" where
  "verify_inclusion_hashed H p root key value_hash =
     and_then (reconstruct_root H p key) (\<lambda>computed.
       if computed \<noteq> root then Err (RootMismatch computed root)
       else case terminal p of
           TEmpty \<Rightarrow> Err KeyAbsent
         | TLeaf leaf_key found \<Rightarrow>
             if leaf_key \<noteq> key then Err DifferentKey
             else if found = value_hash then Ok ()
             else Err (ValueMismatch found value_hash))"

definition verify_inclusion ::
    "hasher \<Rightarrow> merkle_proof \<Rightarrow> hash256 \<Rightarrow> hash256 \<Rightarrow> bytes \<Rightarrow> (proof_error, unit) result" where
  "verify_inclusion H p root key value =
     verify_inclusion_hashed H p root key (hash_value H value)"

definition verify_non_inclusion ::
    "hasher \<Rightarrow> merkle_proof \<Rightarrow> hash256 \<Rightarrow> hash256 \<Rightarrow> (proof_error, unit) result" where
  "verify_non_inclusion H p root key =
     and_then (reconstruct_root H p key) (\<lambda>computed.
       if computed \<noteq> root then Err (RootMismatch computed root)
       else case terminal p of
           TEmpty \<Rightarrow> Ok ()
         | TLeaf leaf_key _ \<Rightarrow> if leaf_key \<noteq> key then Ok () else Err KeyPresent)"

function split_hash ::
    "hasher \<Rightarrow> nat \<Rightarrow> hash256 \<Rightarrow> hash256 \<Rightarrow> hash256 \<Rightarrow> hash256 \<Rightarrow> (proof_error, hash256) result" where
  "split_hash H depth key_a value_a key_b value_b =
     (if depth \<ge> MAX_DEPTH then Err (TooDeep depth)
      else let bit_a = hash_bit key_a depth in
        if bit_a = hash_bit key_b depth then
          and_then (split_hash H (depth + 1) key_a value_a key_b value_b) (\<lambda>child.
            Ok (node_hash H (if bit_a then Internal ZERO child else Internal child ZERO)))
        else
          let leaf_a = node_hash H (Leaf key_a value_a);
              leaf_b = node_hash H (Leaf key_b value_b) in
          Ok (node_hash H (if bit_a then Internal leaf_b leaf_a else Internal leaf_a leaf_b)))"
  by pat_completeness auto
termination
  by (relation "measure (\<lambda>(H, depth, _). MAX_DEPTH - depth)") (auto simp: MAX_DEPTH_def)

declare split_hash.simps [simp del]

definition compute_updated_root ::
    "hasher \<Rightarrow> merkle_proof \<Rightarrow> hash256 \<Rightarrow> hash256 \<Rightarrow> (proof_error, hash256) result" where
  "compute_updated_root H p key new_value_hash =
     (let depth = length (siblings p) in
      if depth > MAX_DEPTH then Err (TooDeep depth)
      else and_then
        (case terminal p of
            TEmpty \<Rightarrow> Ok (node_hash H (Leaf key new_value_hash))
          | TLeaf existing existing_value \<Rightarrow>
              if existing = key then Ok (node_hash H (Leaf key new_value_hash))
              else case off_path depth existing key of
                  Some i \<Rightarrow> Err (LeafOffPath i)
                | None \<Rightarrow> split_hash H depth key new_value_hash existing existing_value)
        (\<lambda>running. Ok (fold_levels H key (siblings p) depth running)))"

section \<open>The sparse tree\<close>

datatype stree = SE | SL hash256 hash256 | SN stree stree

fun root_of :: "hasher \<Rightarrow> stree \<Rightarrow> hash256" where
  "root_of H SE = ZERO"
| "root_of H (SL k v) = node_hash H (Leaf k v)"
| "root_of H (SN l r) = node_hash H (Internal (root_of H l) (root_of H r))"

fun tree_nodes :: "hasher \<Rightarrow> stree \<Rightarrow> node set" where
  "tree_nodes H SE = {}"
| "tree_nodes H (SL k v) = {Leaf k v}"
| "tree_nodes H (SN l r) =
     insert (Internal (root_of H l) (root_of H r)) (tree_nodes H l \<union> tree_nodes H r)"

fun entries :: "stree \<Rightarrow> (hash256 \<times> hash256) set" where
  "entries SE = {}"
| "entries (SL k v) = {(k, v)}"
| "entries (SN l r) = entries l \<union> entries r"

fun st_get :: "nat \<Rightarrow> hash256 \<Rightarrow> stree \<Rightarrow> hash256 option" where
  "st_get d key SE = None"
| "st_get d key (SL k v) = (if k = key then Some v else None)"
| "st_get d key (SN l r) = st_get (Suc d) key (if hash_bit key d then r else l)"

text \<open>
  Well-formed at depth \<open>d\<close>: every branch separates its keys by bit \<open>d\<close>, and no branch holds
  fewer than two keys, so each leaf sits at the shallowest depth at which its key is unique.
\<close>

fun compact :: "stree \<Rightarrow> stree \<Rightarrow> bool" where
  "compact SE SE = False"
| "compact SE (SL _ _) = False"
| "compact (SL _ _) SE = False"
| "compact _ _ = True"

fun st_wf :: "nat \<Rightarrow> stree \<Rightarrow> bool" where
  "st_wf d SE = True"
| "st_wf d (SL k v) = True"
| "st_wf d (SN l r) =
     (d < MAX_DEPTH \<and> compact l r \<and> st_wf (Suc d) l \<and> st_wf (Suc d) r
      \<and> (\<forall>(k, v) \<in> entries l. \<not> hash_bit k d) \<and> (\<forall>(k, v) \<in> entries r. hash_bit k d))"

definition prefix_ok :: "nat \<Rightarrow> hash256 \<Rightarrow> stree \<Rightarrow> bool" where
  "prefix_ok d key t \<longleftrightarrow> (\<forall>(k, v) \<in> entries t. \<forall>i < d. hash_bit k i = hash_bit key i)"

function st_split :: "nat \<Rightarrow> hash256 \<Rightarrow> hash256 \<Rightarrow> hash256 \<Rightarrow> hash256 \<Rightarrow> stree" where
  "st_split d ka va kb vb =
     (if d \<ge> MAX_DEPTH then SE
      else if hash_bit ka d = hash_bit kb d then
        (if hash_bit ka d then SN SE (st_split (Suc d) ka va kb vb)
         else SN (st_split (Suc d) ka va kb vb) SE)
      else if hash_bit ka d then SN (SL kb vb) (SL ka va) else SN (SL ka va) (SL kb vb))"
  by pat_completeness auto
termination
  by (relation "measure (\<lambda>(d, _). MAX_DEPTH - d)") (auto simp: MAX_DEPTH_def)

declare st_split.simps [simp del]

fun st_insert :: "nat \<Rightarrow> hash256 \<Rightarrow> hash256 \<Rightarrow> stree \<Rightarrow> stree" where
  "st_insert d key v SE = SL key v"
| "st_insert d key v (SL k w) = (if k = key then SL key v else st_split d key v k w)"
| "st_insert d key v (SN l r) =
     (if hash_bit key d then SN l (st_insert (Suc d) key v r)
      else SN (st_insert (Suc d) key v l) r)"

fun st_node :: "stree \<Rightarrow> stree \<Rightarrow> stree" where
  "st_node SE SE = SE"
| "st_node SE (SL k v) = SL k v"
| "st_node (SL k v) SE = SL k v"
| "st_node l r = SN l r"

fun st_remove :: "nat \<Rightarrow> hash256 \<Rightarrow> stree \<Rightarrow> stree" where
  "st_remove d key SE = SE"
| "st_remove d key (SL k v) = (if k = key then SE else SL k v)"
| "st_remove d key (SN l r) =
     (if hash_bit key d then st_node l (st_remove (Suc d) key r)
      else st_node (st_remove (Suc d) key l) r)"

subsection \<open>Contents\<close>

lemma finite_entries [simp]: "finite (entries t)"
  by (induction t) auto

lemma compact_SN: "st_wf d (SN l r) \<Longrightarrow> compact l r"
  by simp

lemma wf_entries_empty: "st_wf d t \<Longrightarrow> entries t = {} \<longleftrightarrow> t = SE"
proof (induction t arbitrary: d)
  case (SN l r)
  then have "compact l r" "st_wf (Suc d) l" "st_wf (Suc d) r" by simp_all
  with SN.IH show ?case by (cases l; cases r) auto
qed auto

lemma wf_entries_single: "st_wf d t \<Longrightarrow> entries t = {(k, v)} \<Longrightarrow> t = SL k v"
proof (induction t arbitrary: d)
  case (SN l r)
  then have wf: "compact l r" "st_wf (Suc d) l" "st_wf (Suc d) r"
    and bits: "\<forall>(k, v) \<in> entries l. \<not> hash_bit k d" "\<forall>(k, v) \<in> entries r. hash_bit k d"
    by simp_all
  have un: "entries l \<union> entries r = {(k, v)}" using SN.prems(2) by simp
  have disj: "entries l = {} \<or> entries r = {}"
  proof (rule ccontr)
    assume "\<not> ?thesis"
    then obtain el er where e: "el \<in> entries l" "er \<in> entries r" by auto
    with un have "el = (k, v)" "er = (k, v)" by blast+
    with e bits show False by auto
  qed
  then show ?case
  proof
    assume "entries l = {}"
    with un wf have "l = SE" "r = SL k v"
      using wf_entries_empty SN.IH(2) [of "Suc d"] by auto
    with wf(1) show ?thesis by simp
  next
    assume "entries r = {}"
    with un wf have "r = SE" "l = SL k v"
      using wf_entries_empty SN.IH(1) [of "Suc d"] by auto
    with wf(1) show ?thesis by simp
  qed
qed auto

text \<open>The tree's shape is a function of its contents alone.\<close>

lemma st_wf_unique:
  "st_wf d t \<Longrightarrow> st_wf d t' \<Longrightarrow> entries t = entries t' \<Longrightarrow> t = t'"
proof (induction t arbitrary: d t')
  case SE
  then show ?case by (metis wf_entries_empty entries.simps(1))
next
  case (SL k v)
  then show ?case by (metis wf_entries_single entries.simps(2))
next
  case (SN l r)
  show ?case
  proof (cases t')
    case SE
    with SN.prems show ?thesis by (metis wf_entries_empty entries.simps(1))
  next
    case (SL k v)
    with SN.prems show ?thesis by (metis wf_entries_single entries.simps(2))
  next
    case (SN l' r')
    have split_l: "entries a = {(k, v) \<in> entries (SN a b). \<not> hash_bit k d}"
      if "st_wf d (SN a b)" for a b using that by auto
    have split_r: "entries b = {(k, v) \<in> entries (SN a b). hash_bit k d}"
      if "st_wf d (SN a b)" for a b using that by auto
    have eq: "entries (SN l r) = entries (SN l' r')" using SN.prems(3) SN by (simp only:)
    have wf: "st_wf d (SN l r)" "st_wf d (SN l' r')" using SN.prems SN by (simp_all only:)
    have "entries l = entries l'"
      using split_l [OF wf(1)] split_l [OF wf(2)] eq by (simp only:)
    then have "l = l'" using wf by (intro SN.IH(1) [of "Suc d"]) simp_all
    have "entries r = entries r'"
      using split_r [OF wf(1)] split_r [OF wf(2)] eq by (simp only:)
    then have "r = r'" using wf by (intro SN.IH(2) [of "Suc d"]) simp_all
    with \<open>l = l'\<close> SN show ?thesis by simp
  qed
qed

lemma entries_functional:
  "st_wf d t \<Longrightarrow> (k, v) \<in> entries t \<Longrightarrow> (k, w) \<in> entries t \<Longrightarrow> v = w"
  by (induction t arbitrary: d) (auto 4 3)

lemma st_get_iff: "st_wf d t \<Longrightarrow> st_get d key t = Some v \<longleftrightarrow> (key, v) \<in> entries t"
  by (induction d key t rule: st_get.induct) auto

subsection \<open>Insertion and removal\<close>

lemma keys_differ_at:
  assumes "a \<noteq> b" "\<forall>i < d. hash_bit a i = hash_bit b i"
  obtains i where "d \<le> i" "i < MAX_DEPTH" "hash_bit a i \<noteq> hash_bit b i"
proof -
  from assms(1) obtain i where i: "i < 256" "hash_bit a i \<noteq> hash_bit b i"
    using hash_bits_ext by blast
  with assms(2) have "d \<le> i" by (meson not_le)
  with i that show thesis by (simp add: MAX_DEPTH_def)
qed

text \<open>Keys that agree below \<open>d\<close> and differ somewhere are separated before the depth runs out.\<close>

lemma st_split_spec:
  "\<exists>i. d \<le> i \<and> i < MAX_DEPTH \<and> hash_bit ka i \<noteq> hash_bit kb i \<Longrightarrow>
     entries (st_split d ka va kb vb) = {(ka, va), (kb, vb)}
     \<and> st_wf d (st_split d ka va kb vb)
     \<and> (\<exists>l r. st_split d ka va kb vb = SN l r)"
proof (induction d ka va kb vb rule: st_split.induct)
  case (1 d ka va kb vb)
  then have d: "d < MAX_DEPTH" by auto
  show ?case
  proof (cases "hash_bit ka d = hash_bit kb d")
    case True
    with "1.prems" have "\<exists>i. Suc d \<le> i \<and> i < MAX_DEPTH \<and> hash_bit ka i \<noteq> hash_bit kb i"
      by (metis Suc_leI le_neq_implies_less)
    then have IH: "entries (st_split (Suc d) ka va kb vb) = {(ka, va), (kb, vb)}
        \<and> st_wf (Suc d) (st_split (Suc d) ka va kb vb)
        \<and> (\<exists>l r. st_split (Suc d) ka va kb vb = SN l r)"
      using "1.IH" d True by (cases "hash_bit ka d") simp_all
    define X where "X = st_split (Suc d) ka va kb vb"
    have X: "entries X = {(ka, va), (kb, vb)}" "st_wf (Suc d) X" "compact SE X" "compact X SE"
      using IH by (auto simp: X_def)
    have "st_split d ka va kb vb = (if hash_bit ka d then SN SE X else SN X SE)"
      using d True by (simp add: st_split.simps [of d] X_def)
    then show ?thesis using d True X by auto
  next
    case False
    with d show ?thesis by (auto simp: st_split.simps [of d])
  qed
qed

lemma prefix_ok_child:
  assumes "st_wf d (SN l r)" "prefix_ok d key (SN l r)"
  shows "hash_bit key d \<Longrightarrow> prefix_ok (Suc d) key r"
    and "\<not> hash_bit key d \<Longrightarrow> prefix_ok (Suc d) key l"
  using assms by (auto simp: prefix_ok_def less_Suc_eq)

lemma prefix_ok_0 [simp]: "prefix_ok 0 key t"
  by (simp add: prefix_ok_def)

lemma leaf_split_spec:
  assumes "k \<noteq> key" "prefix_ok d key (SL k w)"
  shows "entries (st_split d key v k w) = {(key, v), (k, w)}"
    and "st_wf d (st_split d key v k w)"
    and "\<exists>l r. st_split d key v k w = SN l r"
proof -
  have "\<forall>i < d. hash_bit key i = hash_bit k i" using assms(2) by (auto simp: prefix_ok_def)
  with assms(1) obtain i where "d \<le> i" "i < MAX_DEPTH" "hash_bit key i \<noteq> hash_bit k i"
    by (elim keys_differ_at [OF not_sym])
  then have "\<exists>i. d \<le> i \<and> i < MAX_DEPTH \<and> hash_bit key i \<noteq> hash_bit k i" by blast
  from st_split_spec [OF this] show "entries (st_split d key v k w) = {(key, v), (k, w)}"
    and "st_wf d (st_split d key v k w)" and "\<exists>l r. st_split d key v k w = SN l r" by auto
qed

lemma entries_st_insert:
  "st_wf d t \<Longrightarrow> prefix_ok d key t \<Longrightarrow>
     entries (st_insert d key v t) = insert (key, v) {(k, w) \<in> entries t. k \<noteq> key}"
proof (induction d key v t rule: st_insert.induct)
  case (2 d key v k w)
  then show ?case by (auto simp: leaf_split_spec)
next
  case (3 d key v l r)
  show ?case
  proof (cases "hash_bit key d")
    case True
    with 3 have "entries (st_insert (Suc d) key v r) = insert (key, v) {(k, w) \<in> entries r. k \<noteq> key}"
      using prefix_ok_child(1) by auto
    with True 3 show ?thesis by auto
  next
    case False
    with 3 have "entries (st_insert (Suc d) key v l) = insert (key, v) {(k, w) \<in> entries l. k \<noteq> key}"
      using prefix_ok_child(2) by auto
    with False 3 show ?thesis by auto
  qed
qed auto

lemma compact_insert_right:
  assumes "compact l r" "st_wf d r" "prefix_ok d key r"
  shows "compact l (st_insert d key v r)"
proof (cases r)
  case (SL k w)
  show ?thesis
  proof (cases "k = key")
    case True
    with SL assms(1) show ?thesis by (cases l) auto
  next
    case False
    with SL assms(3) obtain a b where "st_split d key v k w = SN a b"
      using leaf_split_spec(3) by blast
    with SL False show ?thesis by (cases l) auto
  qed
qed (use assms(1) in \<open>cases l; auto\<close>)+

lemma compact_insert_left:
  assumes "compact l r" "st_wf d l" "prefix_ok d key l"
  shows "compact (st_insert d key v l) r"
proof (cases l)
  case (SL k w)
  show ?thesis
  proof (cases "k = key")
    case True
    with SL assms(1) show ?thesis by (cases r) auto
  next
    case False
    with SL assms(3) obtain a b where "st_split d key v k w = SN a b"
      using leaf_split_spec(3) by blast
    with SL False show ?thesis by (cases r) auto
  qed
qed (use assms(1) in \<open>cases r; auto\<close>)+

lemma st_wf_insert: "st_wf d t \<Longrightarrow> prefix_ok d key t \<Longrightarrow> st_wf d (st_insert d key v t)"
proof (induction d key v t rule: st_insert.induct)
  case (2 d key v k w)
  then show ?case by (auto intro: leaf_split_spec(2))
next
  case (3 d key v l r)
  show ?case
  proof (cases "hash_bit key d")
    case True
    with 3 have p: "prefix_ok (Suc d) key r" using prefix_ok_child(1) by blast
    with 3 True have "st_wf (Suc d) (st_insert (Suc d) key v r)"
      "compact l (st_insert (Suc d) key v r)"
      "entries (st_insert (Suc d) key v r) = insert (key, v) {(k, w) \<in> entries r. k \<noteq> key}"
      by (auto intro: compact_insert_right simp: entries_st_insert)
    with 3 True show ?thesis by auto
  next
    case False
    with 3 have p: "prefix_ok (Suc d) key l" using prefix_ok_child(2) by blast
    with 3 False have "st_wf (Suc d) (st_insert (Suc d) key v l)"
      "compact (st_insert (Suc d) key v l) r"
      "entries (st_insert (Suc d) key v l) = insert (key, v) {(k, w) \<in> entries l. k \<noteq> key}"
      by (auto intro: compact_insert_left simp: entries_st_insert)
    with 3 False show ?thesis by auto
  qed
qed auto

lemma entries_st_node [simp]: "entries (st_node l r) = entries l \<union> entries r"
  by (induction l r rule: st_node.induct) auto

lemma st_wf_node:
  "st_wf (Suc d) l \<Longrightarrow> st_wf (Suc d) r \<Longrightarrow> d < MAX_DEPTH \<Longrightarrow>
   \<forall>(k, v) \<in> entries l. \<not> hash_bit k d \<Longrightarrow> \<forall>(k, v) \<in> entries r. hash_bit k d \<Longrightarrow>
   st_wf d (st_node l r)"
  by (induction l r rule: st_node.induct) auto

lemma entries_st_remove:
  "st_wf d t \<Longrightarrow> entries (st_remove d key t) = {(k, v) \<in> entries t. k \<noteq> key}"
  by (induction d key t rule: st_remove.induct) auto

lemma st_wf_remove: "st_wf d t \<Longrightarrow> st_wf d (st_remove d key t)"
proof (induction d key t rule: st_remove.induct)
  case (3 d key l r)
  then show ?case by (auto intro!: st_wf_node simp: entries_st_remove)
qed auto

text \<open>Lookups after an insertion or a removal.\<close>

lemma st_get_insert:
  assumes "st_wf d t" "prefix_ok d key t"
  shows "st_get d k (st_insert d key v t) = (if k = key then Some v else st_get d k t)"
proof -
  have "st_get d k (st_insert d key v t) = Some w \<longleftrightarrow>
      (if k = key then Some v else st_get d k t) = Some w" for w
    using assms by (auto simp: st_get_iff st_wf_insert entries_st_insert)
  then show ?thesis by (metis not_Some_eq)
qed

lemma st_get_remove:
  assumes "st_wf d t"
  shows "st_get d k (st_remove d key t) = (if k = key then None else st_get d k t)"
proof -
  have "st_get d k (st_remove d key t) = Some w \<longleftrightarrow>
      (if k = key then None else st_get d k t) = Some w" for w
    using assms by (auto simp: st_get_iff st_wf_remove entries_st_remove)
  then show ?thesis by (metis not_Some_eq)
qed

section \<open>Proofs against the tree\<close>

text \<open>The fold read from the root downwards, and the nodes it hashes.\<close>

fun path_root :: "hasher \<Rightarrow> hash256 \<Rightarrow> nat \<Rightarrow> hash256 list \<Rightarrow> hash256 \<Rightarrow> hash256" where
  "path_root H key d [] running = running"
| "path_root H key d (s # ss) running =
     node_hash H (if hash_bit key d then Internal s (path_root H key (Suc d) ss running)
                  else Internal (path_root H key (Suc d) ss running) s)"

fun path_nodes :: "hasher \<Rightarrow> hash256 \<Rightarrow> nat \<Rightarrow> hash256 list \<Rightarrow> terminal \<Rightarrow> node set" where
  "path_nodes H key d [] T = (case T of TEmpty \<Rightarrow> {} | TLeaf k v \<Rightarrow> {Leaf k v})"
| "path_nodes H key d (s # ss) T =
     insert (if hash_bit key d then Internal s (path_root H key (Suc d) ss (terminal_hash H T))
             else Internal (path_root H key (Suc d) ss (terminal_hash H T)) s)
       (path_nodes H key (Suc d) ss T)"

definition proof_nodes :: "hasher \<Rightarrow> hash256 \<Rightarrow> merkle_proof \<Rightarrow> node set" where
  "proof_nodes H key p = path_nodes H key 0 (siblings p) (terminal p)"

lemma fold_levels_path_root:
  "fold_levels H key sibs (length sibs) running = path_root H key 0 sibs running"
proof -
  have "n \<le> length sibs \<Longrightarrow>
      fold_levels H key sibs n (path_root H key n (drop n sibs) running) = path_root H key 0 sibs running"
    for n
  proof (induction n)
    case (Suc n)
    then have "drop n sibs = sibs ! n # drop (Suc n) sibs" by (simp add: Cons_nth_drop_Suc)
    then have "path_root H key n (drop n sibs) running =
        node_hash H (if hash_bit key n then Internal (sibs ! n) (path_root H key (Suc n) (drop (Suc n) sibs) running)
                     else Internal (path_root H key (Suc n) (drop (Suc n) sibs) running) (sibs ! n))"
      by simp
    with Suc show ?case by simp
  qed simp
  from this [of "length sibs"] show ?thesis by simp
qed

text \<open>A sibling list and a terminal lead along a key's path through a tree.\<close>

fun terminal_tree :: "terminal \<Rightarrow> stree" where
  "terminal_tree TEmpty = SE"
| "terminal_tree (TLeaf k v) = SL k v"

fun leads :: "hasher \<Rightarrow> hash256 \<Rightarrow> nat \<Rightarrow> hash256 list \<Rightarrow> terminal \<Rightarrow> stree \<Rightarrow> bool" where
  "leads H key d [] T t = (t = terminal_tree T)"
| "leads H key d (s # ss) T (SN l r) =
     (if hash_bit key d then s = root_of H l \<and> leads H key (Suc d) ss T r
      else s = root_of H r \<and> leads H key (Suc d) ss T l)"
| "leads H key d (s # ss) T _ = False"

lemma root_of_terminal_tree [simp]: "root_of H (terminal_tree T) = terminal_hash H T"
  by (cases T) (auto simp: terminal_hash_def)

lemma root_of_internal:
  assumes "collision_free H (insert (Internal a b) (tree_nodes H t))"
    and "node_hash H (Internal a b) = root_of H t"
  obtains l r where "t = SN l r" "a = root_of H l" "b = root_of H r"
proof (cases t)
  case SE
  with assms show thesis using collision_free_nonzero [OF assms(1), of "Internal a b"] by simp
next
  case (SL k v)
  with assms show thesis
    using collision_free_inject [OF assms(1), of "Internal a b" "Leaf k v"] by simp
next
  case (SN l r)
  with assms have "Internal a b = Internal (root_of H l) (root_of H r)"
    using collision_free_inject [OF assms(1), of "Internal a b" "Internal (root_of H l) (root_of H r)"]
    by simp
  with SN that show thesis by simp
qed

lemma root_of_terminal:
  assumes "collision_free H (tree_nodes H t \<union> tree_nodes H (terminal_tree T))"
    and "terminal_hash H T = root_of H t"
  shows "t = terminal_tree T"
proof (cases t)
  case SE
  with assms show ?thesis
    using collision_free_nonzero [OF assms(1)] by (cases T) (auto simp: terminal_hash_def)
next
  case (SL k v)
  show ?thesis
  proof (cases T)
    case TEmpty
    with SL assms(2) collision_free_nonzero [OF assms(1), of "Leaf k v"]
    show ?thesis by (simp add: terminal_hash_def)
  next
    case (TLeaf k' v')
    with SL assms(2) collision_free_inject [OF assms(1), of "Leaf k' v'" "Leaf k v"]
    show ?thesis by (simp add: terminal_hash_def)
  qed
next
  case (SN l r)
  let ?n = "Internal (root_of H l) (root_of H r)"
  show ?thesis
  proof (cases T)
    case TEmpty
    with SN assms(2) collision_free_nonzero [OF assms(1), of ?n]
    show ?thesis by (simp add: terminal_hash_def)
  next
    case (TLeaf k' v')
    with SN assms(2) collision_free_inject [OF assms(1), of "Leaf k' v'" ?n]
    show ?thesis by (simp add: terminal_hash_def)
  qed
qed

lemma path_nodes_Nil: "path_nodes H key d [] T = tree_nodes H (terminal_tree T)"
  by (cases T) auto

lemma path_root_leads:
  "collision_free H (tree_nodes H t \<union> path_nodes H key d sibs T) \<Longrightarrow>
   path_root H key d sibs (terminal_hash H T) = root_of H t \<Longrightarrow> leads H key d sibs T t"
proof (induction sibs arbitrary: d t)
  case Nil
  then show ?case by (simp add: root_of_terminal path_nodes_Nil del: path_nodes.simps)
next
  case (Cons s ss)
  let ?run = "path_root H key (Suc d) ss (terminal_hash H T)"
  let ?a = "if hash_bit key d then s else ?run" and ?b = "if hash_bit key d then ?run else s"
  have cf: "collision_free H (insert (Internal ?a ?b) (tree_nodes H t))"
    by (rule collision_free_mono [OF Cons.prems(1)]) auto
  have eq: "node_hash H (Internal ?a ?b) = root_of H t" using Cons.prems(2) by (auto split: if_splits)
  obtain l r where t: "t = SN l r" and ab: "?a = root_of H l" "?b = root_of H r"
    using root_of_internal [OF cf eq] by blast
  have sub: "collision_free H (tree_nodes H l \<union> path_nodes H key (Suc d) ss T)"
    "collision_free H (tree_nodes H r \<union> path_nodes H key (Suc d) ss T)"
    using t by (auto intro: collision_free_mono [OF Cons.prems(1)])
  with Cons.IH ab t show ?case by (auto split: if_splits)
qed

lemma leads_path_root:
  "leads H key d sibs T t \<Longrightarrow> path_root H key d sibs (terminal_hash H T) = root_of H t"
  by (induction H key d sibs T t rule: leads.induct) (auto split: if_splits)

lemma leads_get:
  "leads H key d sibs T t \<Longrightarrow>
   st_get d key t = (case T of TEmpty \<Rightarrow> None | TLeaf k v \<Rightarrow> if k = key then Some v else None)"
  by (induction H key d sibs T t rule: leads.induct) (auto split: if_splits terminal.splits)

lemma leads_prefix:
  "leads H key d sibs T t \<Longrightarrow> st_wf d t \<Longrightarrow> prefix_ok d key t \<Longrightarrow> d \<le> MAX_DEPTH \<Longrightarrow>
   prefix_ok (d + length sibs) key (terminal_tree T) \<and> d + length sibs \<le> MAX_DEPTH"
proof (induction H key d sibs T t rule: leads.induct)
  case (2 H key d s ss T l r)
  then have d: "Suc d \<le> MAX_DEPTH" by simp
  show ?case
  proof (cases "hash_bit key d")
    case True
    with 2 d show ?thesis using prefix_ok_child(1) [OF 2(4,5)] by simp
  next
    case False
    with 2 d show ?thesis using prefix_ok_child(2) [OF 2(4,5)] by simp
  qed
qed auto

lemma leads_insert:
  "leads H key d sibs T t \<Longrightarrow>
   root_of H (st_insert d key v t) =
     path_root H key d sibs (root_of H (st_insert (d + length sibs) key v (terminal_tree T)))"
  by (induction H key d sibs T t rule: leads.induct) (auto split: if_splits)

lemma split_hash_root:
  "\<exists>i. d \<le> i \<and> i < MAX_DEPTH \<and> hash_bit ka i \<noteq> hash_bit kb i \<Longrightarrow>
   split_hash H d ka va kb vb = Ok (root_of H (st_split d ka va kb vb))"
proof (induction d ka va kb vb rule: st_split.induct)
  case (1 d ka va kb vb)
  then have d: "d < MAX_DEPTH" by auto
  show ?case
  proof (cases "hash_bit ka d = hash_bit kb d")
    case True
    with "1.prems" have "\<exists>i. Suc d \<le> i \<and> i < MAX_DEPTH \<and> hash_bit ka i \<noteq> hash_bit kb i"
      by (metis Suc_leI le_neq_implies_less)
    then have "split_hash H (Suc d) ka va kb vb = Ok (root_of H (st_split (Suc d) ka va kb vb))"
      using "1.IH" d True by (cases "hash_bit ka d") simp_all
    with d True show ?thesis
      by (simp add: split_hash.simps [of _ d] st_split.simps [of d])
  next
    case False
    with d show ?thesis
      by (auto simp: split_hash.simps [of _ d] st_split.simps [of d] Let_def)
  qed
qed

lemma off_path_None_iff: "off_path n a b = None \<longleftrightarrow> (\<forall>i < n. hash_bit a i = hash_bit b i)"
  by (auto simp: off_path_def find_None_iff)

text \<open>
  The contract of a proof for a key against a well-formed tree: the path leads to its
  terminal.  Everything the verifier functions compute follows from it.
\<close>

definition proof_for :: "hasher \<Rightarrow> merkle_proof \<Rightarrow> hash256 \<Rightarrow> stree \<Rightarrow> bool" where
  "proof_for H p key t \<longleftrightarrow> st_wf 0 t \<and> leads H key 0 (siblings p) (terminal p) t"

lemma proof_for_prefix:
  assumes "proof_for H p key t"
  shows "length (siblings p) \<le> MAX_DEPTH"
    and "terminal p = TLeaf k v \<Longrightarrow> off_path (length (siblings p)) k key = None"
  using leads_prefix [of H key 0 "siblings p" "terminal p" t] assms
  by (auto simp: proof_for_def off_path_None_iff prefix_ok_def)

lemma proof_for_reconstruct:
  assumes "proof_for H p key t"
  shows "reconstruct_root H p key = Ok (root_of H t)"
proof -
  have "fold_levels H key (siblings p) (length (siblings p)) (terminal_hash H (terminal p)) = root_of H t"
    using assms by (simp add: fold_levels_path_root leads_path_root proof_for_def)
  with proof_for_prefix [OF assms] show ?thesis
    by (auto simp: reconstruct_root_def Let_def split: terminal.splits)
qed

lemma reconstruct_proof_for:
  assumes "reconstruct_root H p key = Ok (root_of H t)" "st_wf 0 t"
    and "collision_free H (tree_nodes H t \<union> proof_nodes H key p)"
  shows "proof_for H p key t"
proof -
  from assms(1) have "path_root H key 0 (siblings p) (terminal_hash H (terminal p)) = root_of H t"
    by (auto simp: reconstruct_root_def Let_def fold_levels_path_root
        split: if_splits option.splits)
  with assms show ?thesis
    by (simp add: proof_for_def path_root_leads proof_nodes_def)
qed

lemma proof_for_get:
  "proof_for H p key t \<Longrightarrow>
   st_get 0 key t = (case terminal p of TEmpty \<Rightarrow> None | TLeaf k v \<Rightarrow> if k = key then Some v else None)"
  by (auto simp: proof_for_def dest: leads_get)

lemma proof_for_verify_inclusion:
  "proof_for H p key t \<Longrightarrow>
   verify_inclusion_hashed H p (root_of H t) key vh = Ok () \<longleftrightarrow> st_get 0 key t = Some vh"
  by (auto simp: verify_inclusion_hashed_def proof_for_reconstruct proof_for_get
      split: terminal.splits)

lemma proof_for_verify_non_inclusion:
  "proof_for H p key t \<Longrightarrow>
   verify_non_inclusion H p (root_of H t) key = Ok () \<longleftrightarrow> st_get 0 key t = None"
  by (auto simp: verify_non_inclusion_def proof_for_reconstruct proof_for_get
      split: terminal.splits)

lemma proof_for_update:
  assumes "proof_for H p key t"
  shows "compute_updated_root H p key v = Ok (root_of H (st_insert 0 key v t))"
proof -
  let ?d = "length (siblings p)"
  have lead: "leads H key 0 (siblings p) (terminal p) t" and wf: "st_wf 0 t"
    using assms by (auto simp: proof_for_def)
  have root: "root_of H (st_insert 0 key v t) =
      fold_levels H key (siblings p) ?d (root_of H (st_insert ?d key v (terminal_tree (terminal p))))"
    using leads_insert [OF lead, of v] by (simp add: fold_levels_path_root)
  show ?thesis
  proof (cases "\<exists>k w. terminal p = TLeaf k w \<and> k \<noteq> key")
    case True
    then obtain k w where T: "terminal p = TLeaf k w" "k \<noteq> key" by blast
    have off: "off_path ?d k key = None" using proof_for_prefix(2) [OF assms T(1)] .
    then obtain i where "?d \<le> i" "i < MAX_DEPTH" "hash_bit key i \<noteq> hash_bit k i"
      using T(2) keys_differ_at [of k key ?d] by (auto simp: off_path_None_iff)
    then have "\<exists>i. ?d \<le> i \<and> i < MAX_DEPTH \<and> hash_bit key i \<noteq> hash_bit k i" by blast
    from split_hash_root [OF this, of H v w] off T root proof_for_prefix(1) [OF assms]
    show ?thesis by (simp add: compute_updated_root_def Let_def)
  next
    case False
    with root proof_for_prefix(1) [OF assms] show ?thesis
      by (cases "terminal p") (auto simp: compute_updated_root_def Let_def)
  qed
qed

text \<open>Whatever proof a verifier accepts is a proof for the tree behind the root.\<close>

lemma verify_inclusion_proof_for:
  assumes "verify_inclusion_hashed H p (root_of H t) key vh = Ok ()" "st_wf 0 t"
    and "collision_free H (tree_nodes H t \<union> proof_nodes H key p)"
  shows "proof_for H p key t" "st_get 0 key t = Some vh"
proof -
  from assms(1) have "reconstruct_root H p key = Ok (root_of H t)"
    by (auto simp: verify_inclusion_hashed_def result_simps split: if_splits)
  with assms(2,3) show p: "proof_for H p key t" by (intro reconstruct_proof_for)
  with assms(1) show "st_get 0 key t = Some vh" by (simp add: proof_for_verify_inclusion)
qed

lemma verify_non_inclusion_proof_for:
  assumes "verify_non_inclusion H p (root_of H t) key = Ok ()" "st_wf 0 t"
    and "collision_free H (tree_nodes H t \<union> proof_nodes H key p)"
  shows "proof_for H p key t" "st_get 0 key t = None"
proof -
  from assms(1) have "reconstruct_root H p key = Ok (root_of H t)"
    by (auto simp: verify_non_inclusion_def result_simps split: if_splits)
  with assms(2,3) show p: "proof_for H p key t" by (intro reconstruct_proof_for)
  with assms(1) show "st_get 0 key t = None" by (simp add: proof_for_verify_non_inclusion)
qed

section \<open>A concrete hash for the witnesses\<close>

text \<open>
  A function of the shape of SHA-256 that is collision free on small trees: a leaf hashes to
  a function of its key, an internal node to a constant.
\<close>

definition sample_hash :: hasher where
  "sample_hash bs = (if length bs = 97 then 1 else from_be (take 32 (drop 25 bs)) + 2)"

lemma sample_hash_simps [simp]:
  "hash_value sample_hash [] = 2"
  "node_hash sample_hash (Internal l r) = 1"
  "node_hash sample_hash (Leaf k v) = k + 2"
  by (simp_all add: sample_hash_def hash_value_def digest_def node_hash_def commit_def
      node_preimage.simps enc_new_def enc_field_def push_framed_def domain_defs from_be_to_be)
    (simp_all add: from_be_def)

lemma collision_free_iff:
  "collision_free H N \<longleftrightarrow>
     (\<forall>m \<in> N. \<forall>n \<in> N. node_hash H m = node_hash H n \<longrightarrow> m = n) \<and> (\<forall>n \<in> N. node_hash H n \<noteq> ZERO)"
  by (auto simp: collision_free_def inj_on_def node_hash_def commit_def digest_def node_preimage_inject
      image_iff eq_commute [of ZERO])

lemmas collision_free_sample = collision_free_iff [of sample_hash]

end
