(* ===== verification/Trie.thy ===== *)
theory Trie
  imports Merkle
begin

text \<open>
  The sparse Merkle trie of the state crate (\<open>trie.rs\<close>): a content-addressed node store,
  the stored values and the current root.  The node store is only ever looked up and
  extended, so it is a partial function; the values are iterated in key order when the trie
  is serialised, so they are an ordered map.  \<open>None\<close> is the panic of \<open>Hash256::bit\<close> past the
  last key bit, the only way the recursion over the store can fail.
\<close>

section \<open>The node store\<close>

type_synonym node_store = "hash256 \<rightharpoonup> node"

record merkle_trie =
  mt_nodes :: node_store
  mt_values :: "(hash256, bytes) btree_map"
  mt_root :: hash256

definition trie_new :: merkle_trie where
  "trie_new = \<lparr>mt_nodes = Map.empty, mt_values = [], mt_root = ZERO\<rparr>"

definition trie_len :: "merkle_trie \<Rightarrow> nat" where
  "trie_len tr = length (mt_values tr)"

definition trie_is_empty :: "merkle_trie \<Rightarrow> bool" where
  "trie_is_empty tr = (mt_values tr = [])"

definition trie_get :: "merkle_trie \<Rightarrow> hash256 \<Rightarrow> bytes option" where
  "trie_get tr key = bmap_get (mt_values tr) key"

definition store :: "hasher \<Rightarrow> node_store \<Rightarrow> node \<Rightarrow> node_store \<times> hash256" where
  "store H ns n = (let h = node_hash H n in (ns(h \<mapsto> n), h))"

function split ::
    "hasher \<Rightarrow> node_store \<Rightarrow> nat \<Rightarrow> hash256 \<Rightarrow> hash256 \<Rightarrow> hash256 \<Rightarrow> hash256 \<Rightarrow> (node_store \<times> hash256) option"
  where
  "split H ns depth key_a value_a key_b value_b =
     (if depth \<ge> MAX_DEPTH then None
      else let bit_a = hash_bit key_a depth in
        if bit_a = hash_bit key_b depth then
          (case split H ns (depth + 1) key_a value_a key_b value_b of
             None \<Rightarrow> None
           | Some (ns', child) \<Rightarrow>
               Some (store H ns' (if bit_a then Internal ZERO child else Internal child ZERO)))
        else
          let (ns1, leaf_a) = store H ns (Leaf key_a value_a);
              (ns2, leaf_b) = store H ns1 (Leaf key_b value_b) in
          Some (store H ns2 (if bit_a then Internal leaf_b leaf_a else Internal leaf_a leaf_b)))"
  by pat_completeness auto
termination
  by (relation "measure (\<lambda>(H, ns, depth, _). MAX_DEPTH - depth)") (auto simp: MAX_DEPTH_def)

declare split.simps [simp del]

function insert_at ::
    "hasher \<Rightarrow> node_store \<Rightarrow> hash256 \<Rightarrow> nat \<Rightarrow> hash256 \<Rightarrow> hash256 \<Rightarrow> (node_store \<times> hash256) option"
  where
  "insert_at H ns nh depth key value_hash =
     (case ns nh of
        None \<Rightarrow> Some (store H ns (Leaf key value_hash))
      | Some (Leaf existing_key existing_value) \<Rightarrow>
          if existing_key = key then Some (store H ns (Leaf key value_hash))
          else split H ns depth key value_hash existing_key existing_value
      | Some (Internal left right) \<Rightarrow>
          if depth \<ge> MAX_DEPTH then None
          else if hash_bit key depth then
            (case insert_at H ns right (depth + 1) key value_hash of
               None \<Rightarrow> None
             | Some (ns', new_right) \<Rightarrow> Some (store H ns' (Internal left new_right)))
          else
            (case insert_at H ns left (depth + 1) key value_hash of
               None \<Rightarrow> None
             | Some (ns', new_left) \<Rightarrow> Some (store H ns' (Internal new_left right))))"
  by pat_completeness auto
termination
  by (relation "measure (\<lambda>(H, ns, nh, depth, _). MAX_DEPTH - depth)") (auto simp: MAX_DEPTH_def)

declare insert_at.simps [simp del]

definition lone_child :: "node_store \<Rightarrow> hash256 \<Rightarrow> hash256 \<Rightarrow> hash256 option" where
  "lone_child ns left right =
     (let candidate =
        (if left = ZERO \<and> right \<noteq> ZERO then Some right
         else if left \<noteq> ZERO \<and> right = ZERO then Some left
         else None)
      in case candidate of
           None \<Rightarrow> None
         | Some c \<Rightarrow> (case ns c of Some (Leaf _ _) \<Rightarrow> Some c | _ \<Rightarrow> None))"

definition collapse :: "hasher \<Rightarrow> node_store \<Rightarrow> hash256 \<Rightarrow> hash256 \<Rightarrow> node_store \<times> hash256" where
  "collapse H ns l r =
     (case lone_child ns l r of
        Some surviving_leaf \<Rightarrow> (ns, surviving_leaf)
      | None \<Rightarrow> if l = ZERO \<and> r = ZERO then (ns, ZERO) else store H ns (Internal l r))"

function remove_at ::
    "hasher \<Rightarrow> node_store \<Rightarrow> hash256 \<Rightarrow> nat \<Rightarrow> hash256 \<Rightarrow> (node_store \<times> hash256) option"
  where
  "remove_at H ns nh depth key =
     (case ns nh of
        None \<Rightarrow> Some (ns, ZERO)
      | Some (Leaf existing _) \<Rightarrow> if existing = key then Some (ns, ZERO) else Some (ns, nh)
      | Some (Internal left right) \<Rightarrow>
          if depth \<ge> MAX_DEPTH then None
          else if hash_bit key depth then
            (case remove_at H ns right (depth + 1) key of
               None \<Rightarrow> None
             | Some (ns', new_right) \<Rightarrow> Some (collapse H ns' left new_right))
          else
            (case remove_at H ns left (depth + 1) key of
               None \<Rightarrow> None
             | Some (ns', new_left) \<Rightarrow> Some (collapse H ns' new_left right)))"
  by pat_completeness auto
termination
  by (relation "measure (\<lambda>(H, ns, nh, depth, _). MAX_DEPTH - depth)") (auto simp: MAX_DEPTH_def)

declare remove_at.simps [simp del]

section \<open>Trie operations\<close>

definition trie_insert ::
    "hasher \<Rightarrow> merkle_trie \<Rightarrow> hash256 \<Rightarrow> bytes \<Rightarrow> (merkle_trie \<times> hash256) option" where
  "trie_insert H tr key value =
     (let value_hash = hash_value H value;
          vals = bmap_insert key value (mt_values tr) in
      case insert_at H (mt_nodes tr) (mt_root tr) 0 key value_hash of
        None \<Rightarrow> None
      | Some (ns, r) \<Rightarrow> Some (\<lparr>mt_nodes = ns, mt_values = vals, mt_root = r\<rparr>, r))"

definition trie_remove ::
    "hasher \<Rightarrow> merkle_trie \<Rightarrow> hash256 \<Rightarrow> (merkle_trie \<times> hash256) option" where
  "trie_remove H tr key =
     (case bmap_get (mt_values tr) key of
        None \<Rightarrow> Some (tr, mt_root tr)
      | Some _ \<Rightarrow>
          (case remove_at H (mt_nodes tr) (mt_root tr) 0 key of
             None \<Rightarrow> None
           | Some (ns, r) \<Rightarrow>
               Some (\<lparr>mt_nodes = ns, mt_values = bmap_remove key (mt_values tr), mt_root = r\<rparr>, r)))"

text \<open>The descent loop of \<open>prove_at\<close>, with the siblings collected so far.\<close>

function prove_loop ::
    "node_store \<Rightarrow> hash256 \<Rightarrow> hash256 \<Rightarrow> nat \<Rightarrow> hash256 list \<Rightarrow> merkle_proof option" where
  "prove_loop ns key current depth sibs =
     (case ns current of
        None \<Rightarrow> Some \<lparr>siblings = sibs, terminal = TEmpty\<rparr>
      | Some (Leaf k value_hash) \<Rightarrow> Some \<lparr>siblings = sibs, terminal = TLeaf k value_hash\<rparr>
      | Some (Internal left right) \<Rightarrow>
          if depth \<ge> MAX_DEPTH then None
          else if hash_bit key depth then prove_loop ns key right (depth + 1) (sibs @ [left])
          else prove_loop ns key left (depth + 1) (sibs @ [right]))"
  by pat_completeness auto
termination
  by (relation "measure (\<lambda>(ns, key, current, depth, _). MAX_DEPTH - depth)") (auto simp: MAX_DEPTH_def)

declare prove_loop.simps [simp del]

definition prove_at :: "merkle_trie \<Rightarrow> hash256 \<Rightarrow> hash256 \<Rightarrow> merkle_proof option" where
  "prove_at tr root key = prove_loop (mt_nodes tr) key root 0 []"

definition prove :: "merkle_trie \<Rightarrow> hash256 \<Rightarrow> merkle_proof option" where
  "prove tr key = prove_at tr (mt_root tr) key"

section \<open>Persistence\<close>

datatype load_error =
    Malformed decode_error
  | LoadRootMismatch hash256 hash256

definition to_bytes :: "merkle_trie \<Rightarrow> bytes" where
  "to_bytes tr =
     w_bytes32 (mt_root tr) @ w_u32 (of_nat (length (mt_values tr)))
       @ concat (map (\<lambda>(key, value). w_bytes32 key @ w_bytes value) (mt_values tr))"

definition r_entry :: "(hash256 \<times> bytes) parser" where
  "r_entry = p_bind r_bytes32 (\<lambda>key. p_bind r_bytes (\<lambda>value. p_return (key, value)))"

text \<open>The loop of \<open>from_bytes\<close>: read an entry, insert it, until the count is used up.\<close>

fun load_entries ::
    "hasher \<Rightarrow> nat \<Rightarrow> merkle_trie \<Rightarrow> reader \<Rightarrow> (load_error, merkle_trie \<times> reader) result" where
  "load_entries H 0 tr r = Ok (tr, r)"
| "load_entries H (Suc n) tr r =
     and_then (map_err Malformed (r_entry r)) (\<lambda>((key, value), r').
       and_then (or_panic (trie_insert H tr key value)) (\<lambda>(tr', _). load_entries H n tr' r'))"

definition from_bytes :: "hasher \<Rightarrow> bytes \<Rightarrow> (load_error, merkle_trie) result" where
  "from_bytes H bs =
     and_then (map_err Malformed (r_bytes32 (reader_new bs))) (\<lambda>(recorded, r1).
     and_then (map_err Malformed (r_u32 r1)) (\<lambda>(count, r2).
     and_then (load_entries H (unat count) trie_new r2) (\<lambda>(tr, r3).
     and_then (map_err Malformed (r_finish r3)) (\<lambda>_.
       if mt_root tr = recorded then Ok tr
       else Err (LoadRootMismatch recorded (mt_root tr))))))"

section \<open>The store represents a tree\<close>

text \<open>
  Every stored node sits under its own hash and belongs to a set \<open>N\<close> of nodes on which the
  hash has no collision; a tree is held when all its nodes are stored.
\<close>

definition store_ok :: "hasher \<Rightarrow> node set \<Rightarrow> node_store \<Rightarrow> bool" where
  "store_ok H N ns \<longleftrightarrow> collision_free H N \<and> (\<forall>h n. ns h = Some n \<longrightarrow> h = node_hash H n \<and> n \<in> N)"

definition holds :: "hasher \<Rightarrow> node_store \<Rightarrow> stree \<Rightarrow> bool" where
  "holds H ns t \<longleftrightarrow> (\<forall>n \<in> tree_nodes H t. ns (node_hash H n) = Some n)"

lemma holds_simps [simp]:
  "holds H ns SE"
  "holds H ns (SL k v) \<longleftrightarrow> ns (node_hash H (Leaf k v)) = Some (Leaf k v)"
  "holds H ns (SN l r) \<longleftrightarrow>
     ns (root_of H (SN l r)) = Some (Internal (root_of H l) (root_of H r)) \<and> holds H ns l \<and> holds H ns r"
  by (auto simp: holds_def)

lemma holds_mono: "holds H ns t \<Longrightarrow> ns \<subseteq>\<^sub>m ns' \<Longrightarrow> holds H ns' t"
  by (auto simp: holds_def map_le_def dom_def)

lemma store_ok_zero: "store_ok H N ns \<Longrightarrow> ns ZERO = None"
  unfolding store_ok_def using collision_free_nonzero by (metis not_Some_eq)

lemma store_extends:
  assumes "store_ok H N ns" "n \<in> N" "store H ns n = (ns', h)"
  shows "store_ok H N ns'" "ns \<subseteq>\<^sub>m ns'" "h = node_hash H n" "ns' h = Some n"
proof -
  have ns': "ns' = ns(node_hash H n \<mapsto> n)" and h: "h = node_hash H n"
    using assms(3) by (auto simp: store_def Let_def)
  show "h = node_hash H n" by (rule h)
  show "ns' h = Some n" by (simp add: ns' h)
  show "store_ok H N ns'" using assms(1,2) by (auto simp: store_ok_def ns')
  have "ns (node_hash H n) = None \<or> ns (node_hash H n) = Some n"
    using assms(1,2) collision_free_inject
    by (metis (no_types, lifting) not_Some_eq store_ok_def)
  then show "ns \<subseteq>\<^sub>m ns'" by (auto simp: ns' map_le_def)
qed

lemma holds_root:
  assumes "store_ok H N ns" "holds H ns t"
  shows "ns (root_of H t) =
    (case t of SE \<Rightarrow> None | SL k v \<Rightarrow> Some (Leaf k v)
     | SN l r \<Rightarrow> Some (Internal (root_of H l) (root_of H r)))"
  using assms store_ok_zero by (cases t) auto

lemma holds_tree_nodes: "store_ok H N ns \<Longrightarrow> holds H ns t \<Longrightarrow> tree_nodes H t \<subseteq> N"
  by (auto simp: holds_def store_ok_def)

lemma root_of_zero_iff:
  "collision_free H N \<Longrightarrow> tree_nodes H t \<subseteq> N \<Longrightarrow> root_of H t = ZERO \<longleftrightarrow> t = SE"
  using collision_free_nonzero by (cases t) auto

text \<open>What an update of the store achieves: it holds the new tree and keeps every old one.\<close>

definition updates ::
    "hasher \<Rightarrow> node set \<Rightarrow> node_store \<Rightarrow> (node_store \<times> hash256) option \<Rightarrow> stree \<Rightarrow> bool" where
  "updates H N ns res t \<longleftrightarrow>
     (\<exists>ns'. res = Some (ns', root_of H t) \<and> store_ok H N ns' \<and> holds H ns' t \<and> ns \<subseteq>\<^sub>m ns')"

lemma updates_store_leaf:
  assumes "store_ok H N ns" "Leaf k v \<in> N"
  shows "updates H N ns (Some (store H ns (Leaf k v))) (SL k v)"
proof -
  obtain ns' h where s: "store H ns (Leaf k v) = (ns', h)" by force
  from store_extends [OF assms s] s show ?thesis by (auto simp: updates_def)
qed

lemma updates_store_internal:
  assumes "updates H N ns (Some (ns1, c)) t" "holds H ns l \<or> l = t" "holds H ns r \<or> r = t"
    and "Internal (root_of H l) (root_of H r) \<in> N"
  shows "updates H N ns (Some (store H ns1 (Internal (root_of H l) (root_of H r)))) (SN l r)"
proof -
  from assms(1) have ok: "store_ok H N ns1" "holds H ns1 t" "ns \<subseteq>\<^sub>m ns1" "c = root_of H t"
    by (auto simp: updates_def)
  obtain ns2 h where s: "store H ns1 (Internal (root_of H l) (root_of H r)) = (ns2, h)" by force
  from store_extends [OF ok(1) assms(4) s]
  have ok2: "store_ok H N ns2" "ns1 \<subseteq>\<^sub>m ns2" "h = root_of H (SN l r)"
    "ns2 h = Some (Internal (root_of H l) (root_of H r))" by auto
  have "ns \<subseteq>\<^sub>m ns2" using ok(3) ok2(2) by (rule map_le_trans)
  moreover have "holds H ns2 l" "holds H ns2 r"
    using assms(2,3) ok(2) ok2(2) \<open>ns \<subseteq>\<^sub>m ns2\<close> by (auto intro: holds_mono)
  ultimately show ?thesis using ok2 s by (auto simp: updates_def)
qed

lemma split_updates:
  "store_ok H N ns \<Longrightarrow> tree_nodes H (st_split d ka va kb vb) \<subseteq> N \<Longrightarrow>
   \<exists>i. d \<le> i \<and> i < MAX_DEPTH \<and> hash_bit ka i \<noteq> hash_bit kb i \<Longrightarrow>
   updates H N ns (split H ns d ka va kb vb) (st_split d ka va kb vb)"
proof (induction d ka va kb vb rule: st_split.induct)
  case (1 d ka va kb vb)
  then have d: "d < MAX_DEPTH" by auto
  show ?case
  proof (cases "hash_bit ka d = hash_bit kb d")
    case True
    define X where "X = st_split (Suc d) ka va kb vb"
    have st: "st_split d ka va kb vb = (if hash_bit ka d then SN SE X else SN X SE)"
      using d True by (simp add: st_split.simps [of d] X_def)
    have diff: "\<exists>i. Suc d \<le> i \<and> i < MAX_DEPTH \<and> hash_bit ka i \<noteq> hash_bit kb i"
      using "1.prems"(3) True by (metis Suc_leI le_neq_implies_less)
    have "tree_nodes H X \<subseteq> N" using "1.prems"(2) st by (auto split: if_splits)
    then have "updates H N ns (split H ns (Suc d) ka va kb vb) X"
      unfolding X_def
      using "1.IH" [OF _ True _ "1.prems"(1) _ diff] "1.IH"(2) [OF _ True _ "1.prems"(1) _ diff] d
      by (cases "hash_bit ka d") simp_all
    then obtain ns1 c where s: "split H ns (Suc d) ka va kb vb = Some (ns1, c)"
      and u: "updates H N ns (Some (ns1, c)) X" and c: "c = root_of H X"
      by (auto simp: updates_def)
    show ?thesis
    proof (cases "hash_bit ka d")
      case bit: True
      then have "Internal (root_of H SE) (root_of H X) \<in> N" using "1.prems"(2) st by auto
      from updates_store_internal [OF u _ _ this] show ?thesis
        using d True bit s c st by (simp add: split.simps [of _ _ d])
    next
      case bit: False
      then have "Internal (root_of H X) (root_of H SE) \<in> N" using "1.prems"(2) st by auto
      from updates_store_internal [OF u _ _ this] show ?thesis
        using d True bit s c st by (simp add: split.simps [of _ _ d])
    qed
  next
    case False
    define l r where "l = (if hash_bit ka d then SL kb vb else SL ka va)"
      and "r = (if hash_bit ka d then SL ka va else SL kb vb)"
    have st: "st_split d ka va kb vb = SN l r"
      using d False by (auto simp: st_split.simps [of d] l_def r_def)
    have N: "Leaf ka va \<in> N" "Leaf kb vb \<in> N" "Internal (root_of H l) (root_of H r) \<in> N"
      using "1.prems"(2) st by (auto simp: l_def r_def split: if_splits)
    obtain ns1 a where s1: "store H ns (Leaf ka va) = (ns1, a)" by force
    obtain ns2 b where s2: "store H ns1 (Leaf kb vb) = (ns2, b)" by force
    note e1 = store_extends [OF "1.prems"(1) N(1) s1]
    note e2 = store_extends [OF e1(1) N(2) s2]
    have h: "holds H ns2 l" "holds H ns2 r"
      using e1 e2 by (auto simp: l_def r_def map_le_def dom_def)
    have roots: "root_of H l = (if hash_bit ka d then b else a)" "root_of H r = (if hash_bit ka d then a else b)"
      using e1 e2 by (auto simp: l_def r_def)
    have "updates H N ns (Some (ns2, root_of H SE)) SE"
      using e1 e2 by (auto simp: updates_def intro: map_le_trans)
    obtain ns3 h3 where s3: "store H ns2 (Internal (root_of H l) (root_of H r)) = (ns3, h3)" by force
    note e3 = store_extends [OF e2(1) N(3) s3]
    have "split H ns d ka va kb vb = Some (ns3, h3)"
      using d False s1 s2 s3 roots by (auto simp: split.simps [of _ _ d] Let_def split: if_splits)
    moreover have "ns \<subseteq>\<^sub>m ns3" using e1(2) e2(2) e3(2) by (blast intro: map_le_trans)
    ultimately show ?thesis
      using e3 h st by (auto simp: updates_def intro: holds_mono)
  qed
qed

lemma tree_nodes_SN_D: "tree_nodes H (SN l r) \<subseteq> N \<Longrightarrow>
  Internal (root_of H l) (root_of H r) \<in> N \<and> tree_nodes H l \<subseteq> N \<and> tree_nodes H r \<subseteq> N"
  by auto

lemma insert_at_updates:
  "store_ok H N ns \<Longrightarrow> holds H ns t \<Longrightarrow> st_wf d t \<Longrightarrow> prefix_ok d key t \<Longrightarrow>
   tree_nodes H (st_insert d key v t) \<subseteq> N \<Longrightarrow>
   updates H N ns (insert_at H ns (root_of H t) d key v) (st_insert d key v t)"
proof (induction d key v t rule: st_insert.induct)
  case (1 d key v)
  then show ?case
    using updates_store_leaf [of H N ns key v] store_ok_zero [OF "1.prems"(1)]
    by (subst insert_at.simps) simp
next
  case (2 d key v k w)
  have ns: "ns (root_of H (SL k w)) = Some (Leaf k w)" using 2(2) by simp
  show ?case
  proof (cases "k = key")
    case True
    with 2 show ?thesis
      by (subst insert_at.simps) (simp add: updates_store_leaf)
  next
    case False
    then have "\<forall>i < d. hash_bit key i = hash_bit k i" using 2(4) by (auto simp: prefix_ok_def)
    with False have "\<exists>i. d \<le> i \<and> i < MAX_DEPTH \<and> hash_bit key i \<noteq> hash_bit k i"
      by (metis keys_differ_at)
    with False 2 ns show ?thesis
      by (subst insert_at.simps) (simp add: split_updates)
  qed
next
  case (3 d key v l r)
  have ns: "ns (root_of H (SN l r)) = Some (Internal (root_of H l) (root_of H r))"
    and h: "holds H ns l" "holds H ns r" and d: "d < MAX_DEPTH" "st_wf (Suc d) l" "st_wf (Suc d) r"
    using "3.prems" by simp_all
  show ?case
  proof (cases "hash_bit key d")
    case True
    let ?r = "st_insert (Suc d) key v r"
    have "tree_nodes H (SN l ?r) \<subseteq> N" using "3.prems"(5) True by simp
    then have N: "Internal (root_of H l) (root_of H ?r) \<in> N" "tree_nodes H ?r \<subseteq> N"
      by (auto dest!: tree_nodes_SN_D)
    have "updates H N ns (insert_at H ns (root_of H r) (Suc d) key v) ?r"
      using 3 True h d N prefix_ok_child(1) [OF "3.prems"(3,4) True] by simp
    then obtain ns1 where i: "insert_at H ns (root_of H r) (Suc d) key v = Some (ns1, root_of H ?r)"
      and u: "updates H N ns (Some (ns1, root_of H ?r)) ?r" by (auto simp: updates_def)
    from updates_store_internal [OF u _ _ N(1)] h i d ns True show ?thesis
      by (subst insert_at.simps) simp
  next
    case False
    let ?l = "st_insert (Suc d) key v l"
    have "tree_nodes H (SN ?l r) \<subseteq> N" using "3.prems"(5) False by simp
    then have N: "Internal (root_of H ?l) (root_of H r) \<in> N" "tree_nodes H ?l \<subseteq> N"
      by (auto dest!: tree_nodes_SN_D)
    have "updates H N ns (insert_at H ns (root_of H l) (Suc d) key v) ?l"
      using 3 False h d N prefix_ok_child(2) [OF "3.prems"(3,4) False] by simp
    then obtain ns1 where i: "insert_at H ns (root_of H l) (Suc d) key v = Some (ns1, root_of H ?l)"
      and u: "updates H N ns (Some (ns1, root_of H ?l)) ?l" by (auto simp: updates_def)
    from updates_store_internal [OF u _ _ N(1)] h i d ns False show ?thesis
      by (subst insert_at.simps) simp
  qed
qed

lemma tree_nodes_st_node: "tree_nodes H l \<union> tree_nodes H r \<subseteq> tree_nodes H (st_node l r)"
  by (induction l r rule: st_node.induct) auto

lemma collapse_updates:
  assumes "store_ok H N ns" "holds H ns l" "holds H ns r" "tree_nodes H (st_node l r) \<subseteq> N"
  shows "updates H N ns (Some (collapse H ns (root_of H l) (root_of H r))) (st_node l r)"
proof -
  have cf: "collision_free H N" using assms(1) by (simp add: store_ok_def)
  have N: "tree_nodes H l \<subseteq> N" "tree_nodes H r \<subseteq> N"
    using assms(4) tree_nodes_st_node by blast+
  note z = root_of_zero_iff [OF cf N(1)] root_of_zero_iff [OF cf N(2)]
  have base: "updates H N ns (Some (ns, ZERO)) SE" using assms(1) by (simp add: updates_def)
  have lone: "lone_child ns (root_of H l) (root_of H r) =
      (case (l, r) of (SE, SL k v) \<Rightarrow> Some (root_of H r) | (SL k v, SE) \<Rightarrow> Some (root_of H l) | _ \<Rightarrow> None)"
    using z holds_root [OF assms(1,2)] holds_root [OF assms(1,3)]
    by (cases l; cases r) (simp_all add: lone_child_def)
  show ?thesis
  proof (cases "st_node l r = SN l r")
    case True
    then have "Internal (root_of H l) (root_of H r) \<in> N" using assms(4) by auto
    from updates_store_internal [OF base _ _ this] assms(2,3)
    have "updates H N ns (Some (store H ns (Internal (root_of H l) (root_of H r)))) (SN l r)" by simp
    moreover have "collapse H ns (root_of H l) (root_of H r)
        = store H ns (Internal (root_of H l) (root_of H r))"
      using True lone z by (cases l; cases r) (simp_all add: collapse_def del: root_of.simps)
    ultimately show ?thesis using True by simp
  next
    case False
    then show ?thesis
      using lone assms(1-3) z base
      by (cases l; cases r) (auto simp: collapse_def updates_def simp del: root_of.simps(3))
  qed
qed

lemma remove_at_updates:
  "store_ok H N ns \<Longrightarrow> holds H ns t \<Longrightarrow> st_wf d t \<Longrightarrow>
   tree_nodes H (st_remove d key t) \<subseteq> N \<Longrightarrow>
   updates H N ns (remove_at H ns (root_of H t) d key) (st_remove d key t)"
proof (induction d key t rule: st_remove.induct)
  case (1 d key)
  then show ?case
    using store_ok_zero [OF "1.prems"(1)] by (subst remove_at.simps) (simp add: updates_def)
next
  case (2 d key k v)
  then show ?case by (subst remove_at.simps) (auto simp: updates_def)
next
  case (3 d key l r)
  have ns: "ns (root_of H (SN l r)) = Some (Internal (root_of H l) (root_of H r))"
    and h: "holds H ns l" "holds H ns r" and d: "d < MAX_DEPTH" "st_wf (Suc d) l" "st_wf (Suc d) r"
    using "3.prems" by simp_all
  show ?case
  proof (cases "hash_bit key d")
    case True
    let ?r = "st_remove (Suc d) key r"
    have N: "tree_nodes H (st_node l ?r) \<subseteq> N" using "3.prems"(4) True by simp
    then have "tree_nodes H ?r \<subseteq> N" using tree_nodes_st_node by blast
    with 3 True h d obtain ns1 where i: "remove_at H ns (root_of H r) (Suc d) key = Some (ns1, root_of H ?r)"
      and u: "store_ok H N ns1" "holds H ns1 ?r" "ns \<subseteq>\<^sub>m ns1" by (auto simp: updates_def)
    have "holds H ns1 l" using h u by (blast intro: holds_mono)
    from collapse_updates [OF u(1) this u(2) N] u(3) i d ns True show ?thesis
      by (subst remove_at.simps) (auto simp: updates_def intro: map_le_trans)
  next
    case False
    let ?l = "st_remove (Suc d) key l"
    have N: "tree_nodes H (st_node ?l r) \<subseteq> N" using "3.prems"(4) False by simp
    then have "tree_nodes H ?l \<subseteq> N" using tree_nodes_st_node by blast
    with 3 False h d obtain ns1 where i: "remove_at H ns (root_of H l) (Suc d) key = Some (ns1, root_of H ?l)"
      and u: "store_ok H N ns1" "holds H ns1 ?l" "ns \<subseteq>\<^sub>m ns1" by (auto simp: updates_def)
    have "holds H ns1 r" using h u by (blast intro: holds_mono)
    from collapse_updates [OF u(1) u(2) this N] u(3) i d ns False show ?thesis
      by (subst remove_at.simps) (auto simp: updates_def intro: map_le_trans)
  qed
qed

lemma prove_loop_leads:
  "store_ok H N ns \<Longrightarrow> holds H ns t \<Longrightarrow> st_wf d t \<Longrightarrow>
   \<exists>sibs' T. prove_loop ns key (root_of H t) d sibs = Some \<lparr>siblings = sibs @ sibs', terminal = T\<rparr>
     \<and> leads H key d sibs' T t"
proof (induction t arbitrary: d sibs)
  case SE
  then have "leads H key d [] TEmpty SE" by simp
  with store_ok_zero [OF SE.prems(1)] show ?case
    by (intro exI [of _ "[]"] exI [of _ TEmpty]) (simp add: prove_loop.simps)
next
  case (SL k v)
  then show ?case
    by (intro exI [of _ "[]"] exI [of _ "TLeaf k v"]) (simp add: prove_loop.simps)
next
  case (SN l r)
  have ns: "ns (root_of H (SN l r)) = Some (Internal (root_of H l) (root_of H r))"
    and h: "holds H ns l" "holds H ns r" and d: "d < MAX_DEPTH" "st_wf (Suc d) l" "st_wf (Suc d) r"
    using SN.prems by simp_all
  show ?case
  proof (cases "hash_bit key d")
    case True
    from SN.IH(2) [OF SN.prems(1) h(2) d(3), of "sibs @ [root_of H l]"] obtain ss T where
      "prove_loop ns key (root_of H r) (Suc d) (sibs @ [root_of H l])
         = Some \<lparr>siblings = (sibs @ [root_of H l]) @ ss, terminal = T\<rparr>" "leads H key (Suc d) ss T r"
      by blast
    with True ns d show ?thesis
      by (intro exI [of _ "root_of H l # ss"] exI [of _ T]) (simp add: prove_loop.simps [of _ _ _ d])
  next
    case False
    from SN.IH(1) [OF SN.prems(1) h(1) d(2), of "sibs @ [root_of H r]"] obtain ss T where
      "prove_loop ns key (root_of H l) (Suc d) (sibs @ [root_of H r])
         = Some \<lparr>siblings = (sibs @ [root_of H r]) @ ss, terminal = T\<rparr>" "leads H key (Suc d) ss T l"
      by blast
    with False ns d show ?thesis
      by (intro exI [of _ "root_of H r # ss"] exI [of _ T]) (simp add: prove_loop.simps [of _ _ _ d])
  qed
qed

section \<open>The trie implements an authenticated map\<close>

definition trie_rep :: "hasher \<Rightarrow> node set \<Rightarrow> merkle_trie \<Rightarrow> stree \<Rightarrow> bool" where
  "trie_rep H N tr t \<longleftrightarrow>
     store_ok H N (mt_nodes tr) \<and> holds H (mt_nodes tr) t \<and> mt_root tr = root_of H t
     \<and> st_wf 0 t \<and> bmap_wf (mt_values tr)
     \<and> (\<forall>k. st_get 0 k t = map_option (hash_value H) (bmap_get (mt_values tr) k))"

lemma trie_rep_collision_free: "trie_rep H N tr t \<Longrightarrow> collision_free H N"
  by (simp add: trie_rep_def store_ok_def)

lemma trie_rep_nodes: "trie_rep H N tr t \<Longrightarrow> tree_nodes H t \<subseteq> N"
  by (auto simp: trie_rep_def dest: holds_tree_nodes)

lemma trie_rep_new: "collision_free H N \<Longrightarrow> trie_rep H N trie_new SE"
  by (simp add: trie_rep_def trie_new_def store_ok_def)

lemma trie_rep_insert:
  assumes rep: "trie_rep H N tr t"
    and N: "tree_nodes H (st_insert 0 k (hash_value H v) t) \<subseteq> N"
  obtains tr' where "trie_insert H tr k v = Some (tr', mt_root tr')"
    and "trie_rep H N tr' (st_insert 0 k (hash_value H v) t)"
    and "mt_values tr' = bmap_insert k v (mt_values tr)" and "mt_nodes tr \<subseteq>\<^sub>m mt_nodes tr'"
proof -
  let ?t = "st_insert 0 k (hash_value H v) t"
  from rep have r: "store_ok H N (mt_nodes tr)" "holds H (mt_nodes tr) t" "mt_root tr = root_of H t"
    "st_wf 0 t" "bmap_wf (mt_values tr)"
    "\<forall>k. st_get 0 k t = map_option (hash_value H) (bmap_get (mt_values tr) k)"
    by (auto simp: trie_rep_def)
  from insert_at_updates [OF r(1,2,4) prefix_ok_0 N] r(3) obtain ns where
    i: "insert_at H (mt_nodes tr) (mt_root tr) 0 k (hash_value H v) = Some (ns, root_of H ?t)"
    and ns: "store_ok H N ns" "holds H ns ?t" "mt_nodes tr \<subseteq>\<^sub>m ns"
    by (auto simp: updates_def)
  define tr' where "tr' = \<lparr>mt_nodes = ns, mt_values = bmap_insert k v (mt_values tr), mt_root = root_of H ?t\<rparr>"
  have "trie_insert H tr k v = Some (tr', mt_root tr')"
    using i by (simp add: trie_insert_def tr'_def)
  moreover have "trie_rep H N tr' ?t"
    using r ns by (simp add: trie_rep_def tr'_def st_wf_insert st_get_insert bmap_spec)
  ultimately show thesis using that [of tr'] ns by (simp add: tr'_def)
qed

lemma trie_rep_remove:
  assumes rep: "trie_rep H N tr t" and N: "tree_nodes H (st_remove 0 k t) \<subseteq> N"
  obtains tr' where "trie_remove H tr k = Some (tr', mt_root tr')"
    and "trie_rep H N tr' (st_remove 0 k t)"
    and "mt_values tr' = bmap_remove k (mt_values tr)" and "mt_nodes tr \<subseteq>\<^sub>m mt_nodes tr'"
proof (cases "bmap_get (mt_values tr) k")
  case None
  from rep have "st_get 0 k t = None" "st_wf 0 t" "bmap_wf (mt_values tr)"
    using None by (auto simp: trie_rep_def)
  then have "entries (st_remove 0 k t) = entries t"
    by (auto simp: entries_st_remove) (metis not_Some_eq st_get_iff)
  then have "st_remove 0 k t = t"
    using \<open>st_wf 0 t\<close> by (intro st_wf_unique [of 0]) (auto simp: st_wf_remove)
  then show thesis
    using that [of tr] rep None btree.del_absent [OF \<open>bmap_wf (mt_values tr)\<close> None]
    by (simp add: trie_remove_def)
next
  case (Some w)
  let ?t = "st_remove 0 k t"
  from rep have r: "store_ok H N (mt_nodes tr)" "holds H (mt_nodes tr) t" "mt_root tr = root_of H t"
    "st_wf 0 t" "bmap_wf (mt_values tr)"
    "\<forall>k. st_get 0 k t = map_option (hash_value H) (bmap_get (mt_values tr) k)"
    by (auto simp: trie_rep_def)
  from remove_at_updates [OF r(1,2,4) N] r(3) obtain ns where
    i: "remove_at H (mt_nodes tr) (mt_root tr) 0 k = Some (ns, root_of H ?t)"
    and ns: "store_ok H N ns" "holds H ns ?t" "mt_nodes tr \<subseteq>\<^sub>m ns"
    by (auto simp: updates_def)
  define tr' where "tr' = \<lparr>mt_nodes = ns, mt_values = bmap_remove k (mt_values tr), mt_root = root_of H ?t\<rparr>"
  have "trie_remove H tr k = Some (tr', mt_root tr')"
    using i Some by (simp add: trie_remove_def tr'_def)
  moreover have "trie_rep H N tr' ?t"
    using r ns by (simp add: trie_rep_def tr'_def st_wf_remove st_get_remove bmap_spec)
  ultimately show thesis using that [of tr'] ns by (simp add: tr'_def)
qed

text \<open>A proof taken at a root the store still holds is a proof for that root's tree.\<close>

lemma prove_at_proof_for:
  assumes "store_ok H N (mt_nodes tr)" "holds H (mt_nodes tr) t" "st_wf 0 t"
  obtains p where "prove_at tr (root_of H t) key = Some p" "proof_for H p key t"
proof -
  from prove_loop_leads [OF assms, of key "[]"] obtain ss T where
    "prove_loop (mt_nodes tr) key (root_of H t) 0 [] = Some \<lparr>siblings = ss, terminal = T\<rparr>"
    "leads H key 0 ss T t" by auto
  then show thesis
    using that assms(3) by (simp add: prove_at_def proof_for_def)
qed

lemma prove_proof_for:
  assumes "trie_rep H N tr t"
  obtains p where "prove tr key = Some p" "proof_for H p key t"
  using assms prove_at_proof_for [of H N tr t key] by (auto simp: trie_rep_def prove_def)

lemma trie_rep_get: "trie_rep H N tr t \<Longrightarrow> st_get 0 k t = map_option (hash_value H) (trie_get tr k)"
  by (simp add: trie_rep_def trie_get_def)

text \<open>A root determines its tree.\<close>

lemma root_of_inject:
  "collision_free H (tree_nodes H t \<union> tree_nodes H t') \<Longrightarrow> root_of H t = root_of H t' \<Longrightarrow> t = t'"
proof (induction t arbitrary: t')
  case (SN l r)
  have "collision_free H (insert (Internal (root_of H l) (root_of H r)) (tree_nodes H t'))"
    by (rule collision_free_mono [OF SN.prems(1)]) auto
  then obtain l' r' where t': "t' = SN l' r'" "root_of H l = root_of H l'" "root_of H r = root_of H r'"
    using SN.prems(2) by (auto elim: root_of_internal)
  moreover have "collision_free H (tree_nodes H l \<union> tree_nodes H l')"
    "collision_free H (tree_nodes H r \<union> tree_nodes H r')"
    using t' by (auto intro: collision_free_mono [OF SN.prems(1)])
  ultimately show ?case using SN.IH by simp
next
  case SE
  then show ?case using root_of_terminal [of H t' TEmpty] by (simp add: terminal_hash_def)
next
  case (SL k v)
  then show ?case using root_of_terminal [of H t' "TLeaf k v"]
    by (simp add: terminal_hash_def Un_commute)
qed

section \<open>Histories\<close>

text \<open>A history of writes and deletions, the run of the trie on it, and its specification.\<close>

datatype trie_op = OpInsert hash256 bytes | OpRemove hash256

fun trie_step :: "hasher \<Rightarrow> merkle_trie \<Rightarrow> trie_op \<Rightarrow> merkle_trie option" where
  "trie_step H tr (OpInsert k v) = map_option fst (trie_insert H tr k v)"
| "trie_step H tr (OpRemove k) = map_option fst (trie_remove H tr k)"

fun trie_run :: "hasher \<Rightarrow> merkle_trie \<Rightarrow> trie_op list \<Rightarrow> merkle_trie option" where
  "trie_run H tr [] = Some tr"
| "trie_run H tr (op # ops) =
     (case trie_step H tr op of None \<Rightarrow> None | Some tr' \<Rightarrow> trie_run H tr' ops)"

fun tree_step :: "hasher \<Rightarrow> stree \<Rightarrow> trie_op \<Rightarrow> stree" where
  "tree_step H t (OpInsert k v) = st_insert 0 k (hash_value H v) t"
| "tree_step H t (OpRemove k) = st_remove 0 k t"

fun map_step :: "(hash256 \<rightharpoonup> bytes) \<Rightarrow> trie_op \<Rightarrow> (hash256 \<rightharpoonup> bytes)" where
  "map_step m (OpInsert k v) = m(k \<mapsto> v)"
| "map_step m (OpRemove k) = m(k := None)"

text \<open>Every node of every tree a history passes through.\<close>

fun history_nodes :: "hasher \<Rightarrow> stree \<Rightarrow> trie_op list \<Rightarrow> node set" where
  "history_nodes H t [] = tree_nodes H t"
| "history_nodes H t (op # ops) = tree_nodes H t \<union> history_nodes H (tree_step H t op) ops"

lemma history_nodes_start: "tree_nodes H t \<subseteq> history_nodes H t ops"
  by (cases ops) auto

lemma trie_step_rep:
  assumes "trie_rep H N tr t" "tree_nodes H (tree_step H t op) \<subseteq> N"
  shows "\<exists>tr'. trie_step H tr op = Some tr' \<and> trie_rep H N tr' (tree_step H t op)
    \<and> trie_get tr' = map_step (trie_get tr) op \<and> mt_nodes tr \<subseteq>\<^sub>m mt_nodes tr'"
proof (cases op)
  case (OpInsert k v)
  with assms(2) have N: "tree_nodes H (st_insert 0 k (hash_value H v) t) \<subseteq> N" by simp
  from trie_rep_insert [OF assms(1) N] obtain tr' where
    "trie_insert H tr k v = Some (tr', mt_root tr')" "trie_rep H N tr' (st_insert 0 k (hash_value H v) t)"
    "mt_values tr' = bmap_insert k v (mt_values tr)" "mt_nodes tr \<subseteq>\<^sub>m mt_nodes tr'" .
  with OpInsert show ?thesis by (auto simp: trie_get_def bmap_spec fun_eq_iff)
next
  case (OpRemove k)
  with assms(2) have N: "tree_nodes H (st_remove 0 k t) \<subseteq> N" by simp
  from trie_rep_remove [OF assms(1) N] obtain tr' where
    "trie_remove H tr k = Some (tr', mt_root tr')" "trie_rep H N tr' (st_remove 0 k t)"
    "mt_values tr' = bmap_remove k (mt_values tr)" "mt_nodes tr \<subseteq>\<^sub>m mt_nodes tr'" .
  moreover have "bmap_wf (mt_values tr)" using assms(1) by (simp add: trie_rep_def)
  ultimately show ?thesis using OpRemove by (auto simp: trie_get_def bmap_spec fun_eq_iff)
qed

lemma trie_run_rep:
  "trie_rep H N tr t \<Longrightarrow> history_nodes H t ops \<subseteq> N \<Longrightarrow>
   \<exists>tr'. trie_run H tr ops = Some tr' \<and> trie_rep H N tr' (foldl (tree_step H) t ops)
     \<and> trie_get tr' = foldl map_step (trie_get tr) ops \<and> mt_nodes tr \<subseteq>\<^sub>m mt_nodes tr'"
proof (induction ops arbitrary: tr t)
  case (Cons op ops)
  have "tree_nodes H (tree_step H t op) \<subseteq> N"
    using Cons.prems(2) history_nodes_start by fastforce
  from trie_step_rep [OF Cons.prems(1) this] obtain tr1 where
    1: "trie_step H tr op = Some tr1" "trie_rep H N tr1 (tree_step H t op)"
       "trie_get tr1 = map_step (trie_get tr) op" "mt_nodes tr \<subseteq>\<^sub>m mt_nodes tr1" by blast
  from Cons.IH [OF 1(2)] Cons.prems(2) obtain tr2 where
    "trie_run H tr1 ops = Some tr2" "trie_rep H N tr2 (foldl (tree_step H) (tree_step H t op) ops)"
    "trie_get tr2 = foldl map_step (trie_get tr1) ops" "mt_nodes tr1 \<subseteq>\<^sub>m mt_nodes tr2" by auto
  with 1 show ?case by (auto intro: map_le_trans)
qed simp

lemma trie_run_new:
  assumes "collision_free H (history_nodes H SE ops)"
  obtains tr where "trie_run H trie_new ops = Some tr"
    and "trie_rep H (history_nodes H SE ops) tr (foldl (tree_step H) SE ops)"
    and "trie_get tr = foldl map_step Map.empty ops"
proof -
  have "trie_get trie_new = Map.empty" by (simp add: trie_get_def trie_new_def fun_eq_iff)
  with trie_run_rep [OF trie_rep_new [OF assms] order_refl] that show thesis by force
qed

lemma trie_run_append:
  "trie_run H tr (ops @ ops') =
     (case trie_run H tr ops of None \<Rightarrow> None | Some tr' \<Rightarrow> trie_run H tr' ops')"
  by (induction ops arbitrary: tr) (auto split: option.splits)

lemma history_nodes_append:
  "history_nodes H t (ops @ ops') = history_nodes H t ops \<union> history_nodes H (foldl (tree_step H) t ops) ops'"
proof (induction ops arbitrary: t)
  case Nil
  then show ?case using history_nodes_start [of H t ops'] by auto
qed auto

lemma trie_run_rep_proof:
  assumes run: "trie_run H trie_new ops = Some tr"
    and cf: "collision_free H (history_nodes H SE ops \<union> proof_nodes H key p)"
  obtains t where "trie_rep H (history_nodes H SE ops) tr t"
    and "collision_free H (tree_nodes H t \<union> proof_nodes H key p)"
    and "mt_root tr = root_of H t" and "st_wf 0 t"
proof -
  have "collision_free H (history_nodes H SE ops)" by (auto intro: collision_free_mono [OF cf])
  from trie_run_new [OF this] run have rep: "trie_rep H (history_nodes H SE ops) tr (foldl (tree_step H) SE ops)"
    by (metis option.inject)
  moreover have "collision_free H (tree_nodes H (foldl (tree_step H) SE ops) \<union> proof_nodes H key p)"
    using trie_rep_nodes [OF rep] by (auto intro!: collision_free_mono [OF cf])
  ultimately show thesis using that rep by (auto simp: trie_rep_def)
qed

lemma st_wf_get_unique:
  assumes "st_wf 0 t" "st_wf 0 t'" "\<And>k. st_get 0 k t = st_get 0 k t'"
  shows "t = t'"
proof (rule st_wf_unique [OF assms(1,2)])
  show "entries t = entries t'"
    using assms(3) st_get_iff [OF assms(1)] st_get_iff [OF assms(2)] by auto
qed

lemma r_entry_reads:
  "length v < 2 ^ 32 \<Longrightarrow> reads r_entry (w_bytes32 k @ w_bytes v) (k, v)"
  unfolding r_entry_def
  by (rule reads_bind [OF b32c.round_trip [OF TrueI]], rule reads_bind_return [OF bytesc.round_trip]) simp_all

lemma load_entries_run:
  "list_all (\<lambda>(k, v). length v < 2 ^ 32) es \<Longrightarrow> reader_ok r \<Longrightarrow>
   consumes r (concat (map (\<lambda>(key, value). w_bytes32 key @ w_bytes value) es)) r' \<Longrightarrow>
   trie_run H tr (map (\<lambda>(k, v). OpInsert k v) es) = Some tr' \<Longrightarrow>
   load_entries H (length es) tr r = Ok (tr', r')"
proof (induction es arbitrary: r tr)
  case Nil
  then show ?case by (auto simp: consumes_def)
next
  case (Cons e es)
  obtain k v where e: "e = (k, v)" by force
  let ?enc = "\<lambda>(key, value). w_bytes32 key @ w_bytes value"
  from Cons.prems(3) e have "consumes r ((w_bytes32 k @ w_bytes v) @ concat (map ?enc es)) r'" by simp
  then obtain r1 where c: "consumes r (w_bytes32 k @ w_bytes v) r1" "consumes r1 (concat (map ?enc es)) r'"
    by (rule consumes_append)
  have "r_entry r = Ok ((k, v), r1)"
    using Cons.prems(1,2) e by (intro readsD [OF r_entry_reads _ c(1)]) simp_all
  moreover obtain tr1 where "trie_step H tr (OpInsert k v) = Some tr1"
    "trie_run H tr1 (map (\<lambda>(k, v). OpInsert k v) es) = Some tr'"
    using Cons.prems(4) e by (auto split: option.splits)
  ultimately show ?case
    using Cons.IH [OF _ consumes_ok [OF c(1)] c(2)] Cons.prems(1) e by auto
qed

lemma foldl_map_step_inserts:
  "bmap_wf es \<Longrightarrow>
   foldl map_step m (map (\<lambda>(k, v). OpInsert k v) es) = (\<lambda>k. case bmap_get es k of None \<Rightarrow> m k | v \<Rightarrow> v)"
proof (induction es arbitrary: m)
  case (Cons e es)
  obtain k v where e: "e = (k, v)" by force
  with Cons.prems have "bmap_get es k = None" by (auto simp: bmap_get_None_iff)
  with Cons e show ?case by (auto simp: fun_eq_iff split: option.splits)
qed simp

lemma trie_rep_unique:
  assumes cf: "collision_free H (N \<union> N')" and rep: "trie_rep H N tr t" "trie_rep H N' tr' t'"
    and get: "trie_get tr = trie_get tr'"
  shows "mt_values tr' = mt_values tr" "mt_root tr' = mt_root tr"
proof -
  have "st_wf 0 t" "st_wf 0 t'" "\<And>k. st_get 0 k t = st_get 0 k t'"
    using rep get trie_rep_get [OF rep(1)] trie_rep_get [OF rep(2)] by (auto simp: trie_rep_def)
  then have "t = t'" by (rule st_wf_get_unique)
  with rep show "mt_root tr' = mt_root tr" by (simp add: trie_rep_def)
  show "mt_values tr' = mt_values tr"
    using rep get by (intro bmap_ext) (auto simp: trie_rep_def trie_get_def fun_eq_iff)
qed

text \<open>A root recorded in a history still proves what the state held then.\<close>

lemma historical_proof:
  assumes cf: "collision_free H (history_nodes H SE (ops @ later))"
    and runs: "trie_run H trie_new ops = Some old" "trie_run H old later = Some tr"
  shows "\<exists>p. prove_at tr (mt_root old) key = Some p
    \<and> (case trie_get old key of
         Some v \<Rightarrow> verify_inclusion H p (mt_root old) key v = Ok ()
       | None \<Rightarrow> verify_non_inclusion H p (mt_root old) key = Ok ())"
proof -
  let ?N = "history_nodes H SE (ops @ later)" and ?t = "foldl (tree_step H) SE ops"
  have "history_nodes H SE ops \<subseteq> ?N" and later: "history_nodes H ?t later \<subseteq> ?N"
    by (simp_all add: history_nodes_append)
  with trie_run_rep [OF trie_rep_new [OF cf], of ops] runs(1) have old: "trie_rep H ?N old ?t" by auto
  from trie_run_rep [OF old later] runs(2) obtain t' where "trie_rep H ?N tr t'" "mt_nodes old \<subseteq>\<^sub>m mt_nodes tr"
    by auto
  with old have "store_ok H ?N (mt_nodes tr)" "holds H (mt_nodes tr) ?t" "st_wf 0 ?t"
    and root: "mt_root old = root_of H ?t"
    by (auto simp: trie_rep_def intro: holds_mono)
  then obtain p where "prove_at tr (mt_root old) key = Some p" and p: "proof_for H p key ?t"
    by (metis prove_at_proof_for)
  moreover have "case trie_get old key of
         Some v \<Rightarrow> verify_inclusion H p (root_of H ?t) key v = Ok ()
       | None \<Rightarrow> verify_non_inclusion H p (root_of H ?t) key = Ok ()"
    using trie_rep_get [OF old, of key] proof_for_verify_inclusion [OF p] proof_for_verify_non_inclusion [OF p]
    by (auto simp: verify_inclusion_def split: option.splits)
  ultimately show ?thesis unfolding root by blast
qed

section \<open>Properties\<close>

text \<open>The sample history of the witnesses: two keys that part at the first bit.\<close>

definition sample_key :: hash256 where
  "sample_key = push_bit 255 1"

definition sample_ops :: "trie_op list" where
  "sample_ops = [OpInsert 0 [], OpInsert sample_key []]"

lemma sample_key_bits: "hash_bit 0 0 = False" "hash_bit sample_key 0 = True" "sample_key \<noteq> 0" "0 \<noteq> sample_key"
proof -
  show b: "hash_bit 0 0 = False" "hash_bit sample_key 0 = True"
    by (simp_all add: hash_bit_eq sample_key_def bit_push_bit_iff)
  show "sample_key \<noteq> 0" "0 \<noteq> sample_key" using b by auto
qed

lemma sample_tree:
  "foldl (tree_step sample_hash) SE sample_ops = SN (SL 0 2) (SL sample_key 2)"
  "history_nodes sample_hash SE sample_ops = {Leaf 0 2, Leaf sample_key 2, Internal 2 (sample_key + 2)}"
  by (auto simp: sample_ops_def st_split.simps [of 0] sample_key_bits MAX_DEPTH_def)

lemma sample_collision_free: "collision_free sample_hash (history_nodes sample_hash SE sample_ops)"
  using sample_key_bits(3,4)
  by (simp add: sample_tree collision_free_sample ZERO_def) (simp add: sample_key_def)

text \<open>
  C9.  Every history of insertions and removals runs to completion and leaves exactly the map
  the history describes: the recursion over the node store never runs past the key's bits and
  never misses a node, and lookups see the last write of each key.
\<close>

theorem trie_implements_map:
  assumes "collision_free H (history_nodes H SE ops)"
  shows "\<exists>tr. trie_run H trie_new ops = Some tr \<and> trie_get tr = foldl map_step Map.empty ops
    \<and> trie_len tr = card (dom (foldl map_step Map.empty ops)) \<and> mt_root tr = root_of H (foldl (tree_step H) SE ops)"
proof -
  from trie_run_new [OF assms] obtain tr where tr: "trie_run H trie_new ops = Some tr"
    "trie_rep H (history_nodes H SE ops) tr (foldl (tree_step H) SE ops)"
    "trie_get tr = foldl map_step Map.empty ops" .
  then have wf: "bmap_wf (mt_values tr)" "bmap_get (mt_values tr) = foldl map_step Map.empty ops"
    and root: "mt_root tr = root_of H (foldl (tree_step H) SE ops)"
    by (auto simp: trie_rep_def trie_get_def fun_eq_iff)
  from bmap_length [OF wf(1)] wf(2) tr(1,3) root show ?thesis by (simp add: trie_len_def)
qed

theorem trie_implements_map_witness:
  "\<exists>tr. trie_run sample_hash trie_new sample_ops = Some tr
     \<and> trie_get tr = foldl map_step Map.empty sample_ops
     \<and> trie_len tr = card (dom (foldl map_step Map.empty sample_ops)) \<and> mt_root tr = 1"
  using trie_implements_map [OF sample_collision_free] by (simp add: sample_tree)

text \<open>
  C10.  The root is a binding, history-independent commitment: after any two histories the
  roots agree exactly when the two states agree at every key, up to the hash of the stored
  values.  Insertion order, overwritten values and removed keys leave no trace.
\<close>

theorem root_binds_state:
  assumes cf: "collision_free H (history_nodes H SE ops \<union> history_nodes H SE ops')"
    and runs: "trie_run H trie_new ops = Some tr" "trie_run H trie_new ops' = Some tr'"
  shows "mt_root tr = mt_root tr' \<longleftrightarrow>
    map_option (hash_value H) \<circ> trie_get tr = map_option (hash_value H) \<circ> trie_get tr'"
proof -
  have "collision_free H (history_nodes H SE ops)" "collision_free H (history_nodes H SE ops')"
    by (auto intro: collision_free_mono [OF cf])
  with runs obtain t t' where rep: "trie_rep H (history_nodes H SE ops) tr t"
    "trie_rep H (history_nodes H SE ops') tr' t'" by (metis option.inject trie_run_new)
  then have wf: "st_wf 0 t" "st_wf 0 t'" and root: "mt_root tr = root_of H t" "mt_root tr' = root_of H t'"
    by (auto simp: trie_rep_def)
  have "collision_free H (tree_nodes H t \<union> tree_nodes H t')"
    using rep by (auto intro!: collision_free_mono [OF cf] dest!: trie_rep_nodes)
  then have "root_of H t = root_of H t' \<longleftrightarrow> t = t'" using root_of_inject by blast
  also have "t = t' \<longleftrightarrow> (\<forall>k. st_get 0 k t = st_get 0 k t')"
    using wf st_wf_get_unique by blast
  finally show ?thesis using rep root by (auto simp: trie_rep_get fun_eq_iff)
qed

theorem root_binds_state_witness:
  "\<exists>tr tr'. trie_run sample_hash trie_new sample_ops = Some tr
     \<and> trie_run sample_hash trie_new (rev sample_ops) = Some tr' \<and> mt_root tr = mt_root tr'"
proof -
  have t: "history_nodes sample_hash SE (rev sample_ops) = history_nodes sample_hash SE sample_ops"
    by (auto simp: sample_ops_def st_split.simps [of 0] sample_key_bits MAX_DEPTH_def)
  obtain tr where tr: "trie_run sample_hash trie_new sample_ops = Some tr"
    "trie_get tr = foldl map_step Map.empty sample_ops"
    by (rule trie_run_new [OF sample_collision_free])
  obtain tr' where tr': "trie_run sample_hash trie_new (rev sample_ops) = Some tr'"
    "trie_get tr' = foldl map_step Map.empty (rev sample_ops)"
    using trie_run_new [of sample_hash "rev sample_ops"] sample_collision_free t by auto
  have "trie_get tr = trie_get tr'"
    using tr(2) tr'(2) sample_key_bits by (simp add: sample_ops_def fun_upd_twist)
  with root_binds_state [OF _ tr(1) tr'(1)] sample_collision_free t tr tr' show ?thesis by auto
qed

text \<open>
  C11.  No forged inclusion: whatever proof a peer supplies, if it verifies for a key and a
  value hash against the root of a trie, then the trie holds a value with that hash at that
  key.  The adversary chooses the siblings, the terminal and the depth.
\<close>

theorem inclusion_sound:
  assumes "trie_run H trie_new ops = Some tr"
    and "verify_inclusion_hashed H p (mt_root tr) key vh = Ok ()"
    and "collision_free H (history_nodes H SE ops \<union> proof_nodes H key p)"
  shows "\<exists>v. trie_get tr key = Some v \<and> hash_value H v = vh"
proof -
  from trie_run_rep_proof [OF assms(1,3)] obtain t where
    t: "trie_rep H (history_nodes H SE ops) tr t" "collision_free H (tree_nodes H t \<union> proof_nodes H key p)"
    "mt_root tr = root_of H t" "st_wf 0 t" .
  from verify_inclusion_proof_for(2) [OF assms(2) [unfolded t(3)] t(4,2)] trie_rep_get [OF t(1)]
  show ?thesis by simp
qed

theorem inclusion_sound_witness:
  "\<exists>tr p v. trie_run sample_hash trie_new sample_ops = Some tr
     \<and> verify_inclusion_hashed sample_hash p (mt_root tr) 0 2 = Ok ()
     \<and> trie_get tr 0 = Some v \<and> hash_value sample_hash v = 2"
proof -
  obtain tr where run: "trie_run sample_hash trie_new sample_ops = Some tr"
    and rep: "trie_rep sample_hash (history_nodes sample_hash SE sample_ops) tr
      (foldl (tree_step sample_hash) SE sample_ops)"
    by (rule trie_run_new [OF sample_collision_free])
  let ?p = "\<lparr>siblings = [sample_key + 2], terminal = TLeaf 0 2\<rparr>"
  have pf: "proof_for sample_hash ?p 0 (foldl (tree_step sample_hash) SE sample_ops)"
    using rep by (simp add: proof_for_def sample_tree sample_key_bits trie_rep_def)
  have v: "verify_inclusion_hashed sample_hash ?p (mt_root tr) 0 2 = Ok ()"
    using proof_for_verify_inclusion [OF pf, of 2] rep
    by (simp add: sample_tree sample_key_bits trie_rep_def)
  have "proof_nodes sample_hash 0 ?p \<subseteq> history_nodes sample_hash SE sample_ops"
    by (simp add: proof_nodes_def sample_tree sample_key_bits terminal_hash_def)
  then have "collision_free sample_hash (history_nodes sample_hash SE sample_ops \<union> proof_nodes sample_hash 0 ?p)"
    using sample_collision_free by (simp add: Un_absorb2)
  from inclusion_sound [OF run v this] run v show ?thesis by blast
qed

text \<open>
  C12.  No forged absence: a proof that verifies non-inclusion of a key against the root of a
  trie exists only when the trie really holds nothing at the key.
\<close>

theorem non_inclusion_sound:
  assumes "trie_run H trie_new ops = Some tr"
    and "verify_non_inclusion H p (mt_root tr) key = Ok ()"
    and "collision_free H (history_nodes H SE ops \<union> proof_nodes H key p)"
  shows "trie_get tr key = None"
proof -
  from trie_run_rep_proof [OF assms(1,3)] obtain t where
    t: "trie_rep H (history_nodes H SE ops) tr t" "collision_free H (tree_nodes H t \<union> proof_nodes H key p)"
    "mt_root tr = root_of H t" "st_wf 0 t" .
  from verify_non_inclusion_proof_for(2) [OF assms(2) [unfolded t(3)] t(4,2)] trie_rep_get [OF t(1)]
  show ?thesis by simp
qed

theorem non_inclusion_sound_witness:
  "verify_non_inclusion sample_hash \<lparr>siblings = [], terminal = TEmpty\<rparr> (mt_root trie_new) 5 = Ok ()
     \<and> trie_get trie_new 5 = None"
proof -
  let ?p = "\<lparr>siblings = [], terminal = TEmpty\<rparr>"
  have "verify_non_inclusion sample_hash ?p (mt_root trie_new) 5 = Ok ()"
    by (simp add: verify_non_inclusion_def reconstruct_root_def terminal_hash_def trie_new_def MAX_DEPTH_def)
  moreover have "collision_free sample_hash (history_nodes sample_hash SE [] \<union> proof_nodes sample_hash 5 ?p)"
    by (simp add: collision_free_def proof_nodes_def)
  ultimately show ?thesis using non_inclusion_sound [of sample_hash "[]" trie_new ?p 5] by simp
qed

text \<open>
  Proofs are complete and survive later writes: a root recorded at any point of a history
  still proves, after any further writes, exactly what the state held when it was recorded;
  for every key \<open>prove_at\<close> succeeds and its result verifies inclusion of the value then
  stored, or non-inclusion of an absent key.
\<close>

lemma historical_roots_provable:
  assumes cf: "collision_free H (history_nodes H SE (ops @ later))"
    and runs: "trie_run H trie_new ops = Some old" "trie_run H old later = Some tr"
  shows "\<exists>p. prove_at tr (mt_root old) key = Some p
    \<and> (case trie_get old key of
         Some v \<Rightarrow> verify_inclusion H p (mt_root old) key v = Ok ()
       | None \<Rightarrow> verify_non_inclusion H p (mt_root old) key = Ok ())"
  by (rule historical_proof [OF assms])

text \<open>
  Stateless updates agree with the full node: from an inclusion or non-inclusion proof it
  has checked against the old root, and nothing else, a verifier computes for any new value
  exactly the root the trie has after inserting it.
\<close>

lemma updated_root_correct:
  assumes "trie_run H trie_new ops = Some tr"
    and "verify_inclusion_hashed H p (mt_root tr) key vh = Ok () \<or> verify_non_inclusion H p (mt_root tr) key = Ok ()"
    and cf: "collision_free H (history_nodes H SE (ops @ [OpInsert key value]) \<union> proof_nodes H key p)"
  shows "\<exists>tr'. trie_insert H tr key value = Some (tr', mt_root tr')
    \<and> compute_updated_root H p key (hash_value H value) = Ok (mt_root tr')"
proof -
  let ?N = "history_nodes H SE (ops @ [OpInsert key value])"
  have sub: "history_nodes H SE ops \<subseteq> ?N" "history_nodes H (foldl (tree_step H) SE ops) [OpInsert key value] \<subseteq> ?N"
    by (simp_all add: history_nodes_append)
  have cfN: "collision_free H ?N" by (auto intro: collision_free_mono [OF cf])
  from trie_run_rep [OF trie_rep_new [OF cfN] sub(1)] assms(1)
  have rep: "trie_rep H ?N tr (foldl (tree_step H) SE ops)" (is "trie_rep H ?N tr ?t") by auto
  then have root: "mt_root tr = root_of H ?t" and wf: "st_wf 0 ?t" by (auto simp: trie_rep_def)
  have c: "collision_free H (tree_nodes H ?t \<union> proof_nodes H key p)"
    using trie_rep_nodes [OF rep] by (auto intro!: collision_free_mono [OF cf])
  have "proof_for H p key ?t"
    using assms(2) verify_inclusion_proof_for(1) [OF _ wf c] verify_non_inclusion_proof_for(1) [OF _ wf c]
    unfolding root by blast
  then have "compute_updated_root H p key (hash_value H value)
      = Ok (root_of H (st_insert 0 key (hash_value H value) ?t))" by (rule proof_for_update)
  moreover have "tree_nodes H (st_insert 0 key (hash_value H value) ?t) \<subseteq> ?N" using sub(2) by simp
  then obtain tr' where "trie_insert H tr key value = Some (tr', mt_root tr')"
    "trie_rep H ?N tr' (st_insert 0 key (hash_value H value) ?t)"
    by (rule trie_rep_insert [OF rep])
  ultimately show ?thesis by (auto simp: trie_rep_def)
qed

text \<open>
  A serialised trie loads back: from the bytes \<open>to_bytes\<close> writes, \<open>from_bytes\<close> rebuilds a
  trie with the same entries and the same root, by inserting the entries in key order whatever
  order they were written in.
\<close>

lemma persistence_round_trip:
  assumes run: "trie_run H trie_new ops = Some tr"
    and cf: "collision_free H (history_nodes H SE ops
      \<union> history_nodes H SE (map (\<lambda>(k, v). OpInsert k v) (mt_values tr)))"
    and bounds: "length (mt_values tr) < 2 ^ 32" "list_all (\<lambda>(k, v). length v < 2 ^ 32) (mt_values tr)"
      "length (to_bytes tr) < 2 ^ 63"
  shows "\<exists>tr'. from_bytes H (to_bytes tr) = Ok tr' \<and> mt_values tr' = mt_values tr \<and> mt_root tr' = mt_root tr"
proof -
  let ?es = "mt_values tr" and ?enc = "\<lambda>(key, value). w_bytes32 key @ w_bytes value"
  let ?ins = "map (\<lambda>(k, v). OpInsert k v) ?es"
  have cf1: "collision_free H (history_nodes H SE ops)" and cf2: "collision_free H (history_nodes H SE ?ins)"
    by (auto intro: collision_free_mono [OF cf])
  from trie_run_new [OF cf1] run have rep: "trie_rep H (history_nodes H SE ops) tr (foldl (tree_step H) SE ops)"
    by (metis option.inject)
  obtain tr' where run': "trie_run H trie_new ?ins = Some tr'"
    and rep': "trie_rep H (history_nodes H SE ?ins) tr' (foldl (tree_step H) SE ?ins)"
    and get': "trie_get tr' = foldl map_step Map.empty ?ins" by (rule trie_run_new [OF cf2])
  have "bmap_wf ?es" using rep by (simp add: trie_rep_def)
  then have "trie_get tr = trie_get tr'"
    using get' by (simp add: foldl_map_step_inserts trie_get_def fun_eq_iff split: option.splits)
  from trie_rep_unique [OF cf rep rep' this] have same: "mt_values tr' = ?es" "mt_root tr' = mt_root tr" .
  let ?r0 = "reader_new (to_bytes tr)" and ?fin = "\<lparr>rd_input = to_bytes tr, rd_offset = length (to_bytes tr)\<rparr>"
  have r0: "reader_ok ?r0" and c0: "consumes ?r0 (to_bytes tr) ?fin"
    using bounds(3) by (simp_all add: reader_ok_def consumes_def reader_new_def)
  from c0 obtain r1 where c1: "consumes ?r0 (w_bytes32 (mt_root tr)) r1"
    "consumes r1 (w_u32 (of_nat (length ?es)) @ concat (map ?enc ?es)) ?fin"
    unfolding to_bytes_def by (auto elim: consumes_append)
  then obtain r2 where c2: "consumes r1 (w_u32 (of_nat (length ?es))) r2" "consumes r2 (concat (map ?enc ?es)) ?fin"
    by (auto elim: consumes_append)
  have "r_bytes32 ?r0 = Ok (mt_root tr, r1)" "r_u32 r1 = Ok (of_nat (length ?es), r2)"
    using r0 c1 c2 by (auto intro: readsD primitive_round_trips consumes_ok)
  moreover have "load_entries H (length ?es) trie_new r2 = Ok (tr', ?fin)"
    by (rule load_entries_run [OF bounds(2) consumes_ok [OF c2(1)] c2(2) run'])
  moreover have "unat (of_nat (length ?es) :: u32) = length ?es" using bounds(1) by (simp add: unat_of_nat)
  ultimately show ?thesis using same by (simp add: from_bytes_def r_finish_def)
qed

end
