(* ===== verification/Execute.thy ===== *)
theory Execute
  imports Transaction Trie
begin

text \<open>
  Execution (\<open>execute.rs\<close>): the semantics of one instruction on its slot, its application to
  the full trie, its verification in isolation from a witness, compilation of transactions,
  and execution of batches into traces.
\<close>

section \<open>Steps\<close>

definition FEE_VAULT :: l2address where
  "FEE_VAULT = from_be (replicate 32 254)"

datatype step_error =
    NonceMismatch u64 u64
  | Balance balance_error
  | MalformedSlot
  | IdentifierTaken
  | IdentifierNotHeld
  | WitnessSlotMismatch hash256 hash256
  | BadWitnessProof proof_error
  | AssetNotWhitelisted
  | AssetDisabled
  | GasRateMismatch u128 u128
  | StepGas gas_error
  | StepGovernance governance_error
  | JwkNotAccepted
  | IntrinsicGasMismatch u64 u64
  | BaseFeeMismatch u128 u128
  | WindowFull
  | FeeSplitMismatch

definition encode_jwk_record :: "bool \<Rightarrow> bytes" where
  "encode_jwk_record active = [if active then 1 else 0]"

definition decode_jwk_record :: "bytes \<Rightarrow> (step_error, bool) result" where
  "decode_jwk_record bs = (if bs = [0] then Ok False else if bs = [1] then Ok True else Err MalformedSlot)"

definition decode_fee_market :: "bytes option \<Rightarrow> (step_error, fee_market) result" where
  "decode_fee_market current =
     (case current of
        None \<Rightarrow> Ok (fee_market_genesis DEFAULT_BASE_FEE_FLOOR DEFAULT_GAS_TARGET)
      | Some bs \<Rightarrow> map_err (\<lambda>_. MalformedSlot) (market_decode bs))"

definition decode_account :: "bytes option \<Rightarrow> (step_error, account) result" where
  "decode_account current =
     (case current of
        None \<Rightarrow> Ok account_new
      | Some bs \<Rightarrow> map_err (\<lambda>_. MalformedSlot) (account_decode bs))"

definition verify_gas_asset :: "u128 \<Rightarrow> u64 \<Rightarrow> bytes option \<Rightarrow> (step_error, bytes) result" where
  "verify_gas_asset rate gas current =
     and_then (ok_or current AssetNotWhitelisted) (\<lambda>bs.
     and_then (map_err (\<lambda>_. MalformedSlot) (asset_decode bs)) (\<lambda>rec.
       if \<not> wa_enabled rec then Err AssetDisabled
       else if wa_rate rec \<noteq> rate then Err (GasRateMismatch rate (wa_rate rec))
       else if wa_intrinsic_gas rec \<noteq> gas then Err (IntrinsicGasMismatch gas (wa_intrinsic_gas rec))
       else Ok bs))"

definition charge_base_fee :: "u64 \<Rightarrow> u128 \<Rightarrow> u64 \<Rightarrow> bytes option \<Rightarrow> (step_error, bytes) result" where
  "charge_base_fee timestamp base_fee gas current =
     and_then (decode_fee_market current) (\<lambda>m.
     and_then (map_err StepGas (market_at m timestamp)) (\<lambda>market.
       if fm_base_fee market \<noteq> base_fee then Err (BaseFeeMismatch base_fee (fm_base_fee market))
       else and_then
         (ok_or (case checked_add (fm_window_gas market) gas of
                   None \<Rightarrow> None
                 | Some g \<Rightarrow> if g \<le> window_limit market then Some g else None) WindowFull)
         (\<lambda>g. Ok (market_encode (market\<lparr>fm_window_gas := g\<rparr>)))))"

fun fee_transition :: "instruction \<Rightarrow> bytes option \<Rightarrow> (step_error, bytes) result" where
  "fee_transition (VerifyGasAsset _ rate gas) current = verify_gas_asset rate gas current"
| "fee_transition (ChargeBaseFee timestamp base_fee gas) current =
     charge_base_fee timestamp base_fee gas current"
| "fee_transition (VerifyFeeSplit s) current =
     and_then (ok_or current FeeSplitMismatch) (\<lambda>bs.
       if bs \<noteq> split_encode s then Err FeeSplitMismatch else Ok bs)"
| "fee_transition _ current = Panic"

definition verify_council_step ::
    "ed25519 \<Rightarrow> u64 \<Rightarrow> hash256 \<Rightarrow> council_signature list \<Rightarrow> bool \<Rightarrow> bytes option \<Rightarrow> (step_error, bytes) result" where
  "verify_council_step ed e d sigs guardian current =
     and_then (ok_or current (StepGovernance MalformedCouncil)) (\<lambda>bs.
     and_then (map_err StepGovernance (council_decode bs)) (\<lambda>c.
       if epoch c \<noteq> e then Err (StepGovernance (WrongEpoch (epoch c) e))
       else and_then (map_err StepGovernance (verify_council_signatures ed c d sigs guardian)) (\<lambda>_.
         and_then (ok_or (checked_add (epoch c) 1) (Balance Overflow)) (\<lambda>e'.
           Ok (council_encode (c\<lparr>epoch := e'\<rparr>))))))"

fun governance_transition :: "ed25519 \<Rightarrow> instruction \<Rightarrow> bytes option \<Rightarrow> (step_error, bytes) result" where
  "governance_transition ed (VerifyCouncil e d sigs guardian) current =
     verify_council_step ed e d sigs guardian current"
| "governance_transition ed (SetGasAsset rec) current =
     and_then (map_err StepGovernance (check_permitted (GSetGasAsset rec))) (\<lambda>_. Ok (asset_encode rec))"
| "governance_transition ed (SetParameter name v) current =
     and_then (map_err StepGovernance (check_permitted (GSetParameter name v))) (\<lambda>_. Ok (to_be v))"
| "governance_transition ed (SetFeeMarket fl target) current =
     and_then (map_err StepGovernance (check_permitted (GSetFeeMarket fl target))) (\<lambda>_.
     and_then (decode_fee_market current) (\<lambda>m.
       Ok (market_encode (m\<lparr>fm_base_fee := max (fm_base_fee m) fl, fm_floor := fl, fm_target := target\<rparr>))))"
| "governance_transition ed (SetFeeSplit s) current =
     and_then (map_err StepGovernance (check_permitted (GSetFeeSplit s))) (\<lambda>_. Ok (split_encode s))"
| "governance_transition ed (DisableGasAsset _) current =
     and_then (ok_or current AssetNotWhitelisted) (\<lambda>bs.
     and_then (map_err (\<lambda>_. MalformedSlot) (asset_decode bs)) (\<lambda>rec.
       Ok (asset_encode (rec\<lparr>wa_enabled := False\<rparr>))))"
| "governance_transition ed _ current = Panic"

text \<open>\<open>Account::encode\<close> with its panic when the balances do not fit the count field.\<close>

definition account_store :: "account \<Rightarrow> (step_error, bytes) result" where
  "account_store a = (if length (balances a) < 2 ^ 32 then Ok (account_encode a) else Panic)"

fun transition :: "ed25519 \<Rightarrow> instruction \<Rightarrow> bytes option \<Rightarrow> (step_error, bytes) result" where
  "transition ed (ConsumeNonce _ expected) current =
     and_then (decode_account current) (\<lambda>a.
       if nonce a \<noteq> expected then Err (NonceMismatch (nonce a) expected)
       else and_then (ok_or (checked_add (nonce a) 1) (Balance Overflow)) (\<lambda>n.
         account_store (a\<lparr>nonce := n\<rparr>)))"
| "transition ed (Debit _ asset amount) current =
     and_then (decode_account current) (\<lambda>a.
     and_then (map_err Balance (debit a asset amount)) account_store)"
| "transition ed (Credit _ asset amount) current =
     and_then (decode_account current) (\<lambda>a.
     and_then (map_err Balance (credit a asset amount)) account_store)"
| "transition ed (BindIdentifier _ address) current =
     (case current of
        None \<Rightarrow> Ok (binding_encode (Bound address))
      | Some bs \<Rightarrow>
          (case binding_decode bs of
             Ok Vacant \<Rightarrow> Ok (binding_encode (Bound address))
           | Ok (Bound holder) \<Rightarrow>
               if holder \<noteq> address then Err IdentifierTaken else Ok (binding_encode (Bound address))
           | _ \<Rightarrow> Err MalformedSlot))"
| "transition ed (UnbindIdentifier _ expected_owner) current =
     and_then (ok_or current IdentifierNotHeld) (\<lambda>bs.
     and_then (map_err (\<lambda>_. MalformedSlot) (binding_decode bs)) (\<lambda>b.
       if binding_address b = Some expected_owner then Ok (binding_encode Vacant)
       else Err IdentifierNotHeld))"
| "transition ed (VerifyJwk _ _) current =
     and_then (ok_or current JwkNotAccepted) (\<lambda>bs.
     and_then (decode_jwk_record bs) (\<lambda>active. if active then Ok bs else Err JwkNotAccepted))"
| "transition ed (SetJwk _ _ active) current = Ok (encode_jwk_record active)"
| "transition ed (VerifyGasAsset asset rate gas) current =
     fee_transition (VerifyGasAsset asset rate gas) current"
| "transition ed (ChargeBaseFee ts base gas) current = fee_transition (ChargeBaseFee ts base gas) current"
| "transition ed (VerifyFeeSplit s) current = fee_transition (VerifyFeeSplit s) current"
| "transition ed (VerifyCouncil e d sigs guardian) current =
     governance_transition ed (VerifyCouncil e d sigs guardian) current"
| "transition ed (SetGasAsset rec) current = governance_transition ed (SetGasAsset rec) current"
| "transition ed (SetParameter name v) current = governance_transition ed (SetParameter name v) current"
| "transition ed (SetFeeMarket fl target) current = governance_transition ed (SetFeeMarket fl target) current"
| "transition ed (SetFeeSplit s) current = governance_transition ed (SetFeeSplit s) current"
| "transition ed (DisableGasAsset asset) current = governance_transition ed (DisableGasAsset asset) current"

definition apply_step ::
    "hasher \<Rightarrow> ed25519 \<Rightarrow> merkle_trie \<Rightarrow> instruction \<Rightarrow> (step_error, merkle_trie \<times> hash256) result" where
  "apply_step H ed tr i =
     (let s = slot H i in
      and_then (transition ed i (trie_get tr s)) (\<lambda>updated. or_panic (trie_insert H tr s updated)))"

section \<open>Verification in isolation\<close>

record step_witness =
  sw_slot :: hash256
  sw_value :: "bytes option"
  sw_proof :: merkle_proof

definition check_witness :: "hasher \<Rightarrow> hash256 \<Rightarrow> step_witness \<Rightarrow> (proof_error, unit) result" where
  "check_witness H root w =
     (case sw_value w of
        Some bs \<Rightarrow> verify_inclusion H (sw_proof w) root (sw_slot w) bs
      | None \<Rightarrow> verify_non_inclusion H (sw_proof w) root (sw_slot w))"

definition verify_step ::
    "hasher \<Rightarrow> ed25519 \<Rightarrow> machine_state \<Rightarrow> instruction \<Rightarrow> step_witness \<Rightarrow> (step_error, machine_state) result" where
  "verify_step H ed pre i w =
     (let expected_slot = slot H i in
      if sw_slot w \<noteq> expected_slot then Err (WitnessSlotMismatch (sw_slot w) expected_slot)
      else and_then (map_err BadWitnessProof (check_witness H (state_root pre) w)) (\<lambda>_.
        and_then (transition ed i (sw_value w)) (\<lambda>updated.
        and_then (map_err BadWitnessProof (compute_updated_root H (sw_proof w) (sw_slot w) (hash_value H updated)))
          (\<lambda>post_root. Ok \<lparr>state_root = post_root, pc = saturating_add (pc pre) 1\<rparr>))))"

section \<open>Compilation\<close>

datatype compile_error =
    Auth auth_error
  | BadDistribution
  | SelfTransfer
  | CompileGas gas_error
  | CompileGovernance governance_error
  | Wire wire_error

record batch_context =
  bx_timestamp :: u64
  bx_keyless :: "keyless_config option"
  bx_base_fee :: u128
  bx_fee_recipient :: l2address

definition without_keyless :: "u64 \<Rightarrow> batch_context" where
  "without_keyless timestamp = \<lparr>bx_timestamp = timestamp, bx_keyless = None,
     bx_base_fee = DEFAULT_BASE_FEE_FLOOR, bx_fee_recipient = FEE_VAULT\<rparr>"

definition bx_keyless_context :: "batch_context \<Rightarrow> keyless_context" where
  "bx_keyless_context ctx = \<lparr>kx_config = bx_keyless ctx, kx_now = bx_timestamp ctx\<rparr>"

fun sum_gas :: "u64 \<Rightarrow> instruction list \<Rightarrow> (gas_error, u64) result" where
  "sum_gas acc [] = Ok acc"
| "sum_gas acc (i # is) = and_then (ok_or (checked_add acc (instruction_gas i)) GasOverflow) (\<lambda>g. sum_gas g is)"

definition gas_used :: "transaction \<Rightarrow> instruction list \<Rightarrow> (gas_error, u64) result" where
  "gas_used tx pl =
     (let auth = (case tx_authenticator tx of Ed25519 _ _ \<Rightarrow> 0 | Keyless _ \<Rightarrow> KEYLESS_GAS) in
      and_then (ok_or (case checked_add INTRINSIC_GAS (tx_fee_intrinsic_gas tx) of
                         None \<Rightarrow> None | Some g \<Rightarrow> checked_add g auth) GasOverflow) (\<lambda>g. sum_gas g pl))"

definition compile_distribution ::
    "asset_id \<Rightarrow> u128 \<Rightarrow> fee_split \<Rightarrow> (compile_error, instruction list) result" where
  "compile_distribution asset amount s =
     and_then (map_err CompileGas (shares_of s amount)) (\<lambda>values.
       Ok ([VerifyFeeSplit s, Debit FEE_VAULT asset amount]
           @ map (\<lambda>(account, v). Credit account asset v) (filter (\<lambda>(_, v). v > 0) values)))"

fun update_instruction :: "governance_update \<Rightarrow> instruction" where
  "update_instruction (GSetGasAsset rec) = SetGasAsset rec"
| "update_instruction (GSetParameter name v) = SetParameter name v"
| "update_instruction (GSetJwk iss jwk active) = SetJwk iss jwk active"
| "update_instruction (GSetFeeMarket fl target) = SetFeeMarket fl target"
| "update_instruction (GSetFeeSplit s) = SetFeeSplit s"
| "update_instruction (GDisableGasAsset asset) = DisableGasAsset asset"

fun compile_payload :: "hasher \<Rightarrow> payload \<Rightarrow> l2address \<Rightarrow> (compile_error, instruction list) result" where
  "compile_payload H (Transfer to asset amount) sender =
     (if to = sender then Err SelfTransfer
      else Ok [Debit sender asset amount, Credit to asset amount])"
| "compile_payload H (PBindIdentifier _ identifier) sender = Ok [BindIdentifier identifier sender]"
| "compile_payload H (PUnbindIdentifier identifier) sender = Ok [UnbindIdentifier identifier sender]"
| "compile_payload H (Governance e update sigs) sender =
     and_then (map_err CompileGovernance (check_permitted update)) (\<lambda>_.
       Ok [VerifyCouncil e (update_signing_digest H update e) sigs (guardian_may_apply update),
           update_instruction update])"
| "compile_payload H (DistributeFees asset amount s) sender =
     (if amount = 0 \<or> \<not> is_ok (split_check s) then Err BadDistribution
      else compile_distribution asset amount s)"

definition charge_and_payload ::
    "hasher \<Rightarrow> transaction \<Rightarrow> batch_context \<Rightarrow> (compile_error, fee_charge \<times> instruction list) result" where
  "charge_and_payload H tx ctx =
     and_then (compile_payload H (tx_payload tx) (tx_sender tx)) (\<lambda>pl.
     and_then (map_err CompileGas (gas_used tx pl)) (\<lambda>g.
     and_then (map_err CompileGas (settle (tx_gas_limit tx) g (tx_max_fee_per_gas tx)
         (tx_max_priority_fee_per_gas tx) (bx_base_fee ctx) (tx_fee_rate tx))) (\<lambda>charge.
       Ok (charge, pl))))"

definition gas_required :: "hasher \<Rightarrow> transaction \<Rightarrow> (compile_error, u64) result" where
  "gas_required H tx =
     and_then (compile_payload H (tx_payload tx) (tx_sender tx)) (\<lambda>pl. map_err CompileGas (gas_used tx pl))"

definition fee_charge_of :: "hasher \<Rightarrow> transaction \<Rightarrow> batch_context \<Rightarrow> (compile_error, fee_charge) result" where
  "fee_charge_of H tx ctx = and_then (charge_and_payload H tx ctx) (\<lambda>(charge, _). Ok charge)"

definition wire_limits :: "transaction \<Rightarrow> (wire_error, unit) result" where
  "wire_limits tx =
     (if length (tx_encode tx) > MAX_TRANSACTION_BYTES then Err (TooLarge (length (tx_encode tx)))
      else case tx_payload tx of
          Governance _ _ sigs \<Rightarrow> if length sigs > MAX_COUNCIL_SIGNATURES then Err TooManySignatures else Ok ()
        | _ \<Rightarrow> Ok ())"

definition settle_credits :: "transaction \<Rightarrow> batch_context \<Rightarrow> fee_charge \<Rightarrow> instruction list" where
  "settle_credits tx ctx charge =
     map (\<lambda>(account, amount). Credit account (tx_fee_asset tx) amount)
       (filter (\<lambda>(_, amount). amount > 0)
          [(tx_sender tx, fc_refund charge), (bx_fee_recipient ctx, fc_tip charge), (FEE_VAULT, fc_base charge)])"

definition compile ::
    "hasher \<Rightarrow> ed25519 \<Rightarrow> width_constants list \<Rightarrow> transaction \<Rightarrow> batch_context
     \<Rightarrow> (compile_error, instruction list) result" where
  "compile H ed pcs tx ctx =
     and_then (map_err Wire (wire_limits tx)) (\<lambda>_.
     and_then (map_err Auth (authenticate H ed pcs tx (bx_keyless_context ctx))) (\<lambda>_.
     and_then (charge_and_payload H tx ctx) (\<lambda>(charge, pl).
       Ok ((case tx_authenticator tx of
              Keyless sig \<Rightarrow> [VerifyJwk (ks_iss_hash sig) (ks_jwk_hash sig)] | Ed25519 _ _ \<Rightarrow> [])
         @ [ConsumeNonce (tx_sender tx) (tx_nonce tx),
            VerifyGasAsset (tx_fee_asset tx) (tx_fee_rate tx) (tx_fee_intrinsic_gas tx),
            ChargeBaseFee (bx_timestamp ctx) (bx_base_fee ctx) (fc_gas_used charge),
            Debit (tx_sender tx) (tx_fee_asset tx) (fc_hold charge)]
         @ pl @ settle_credits tx ctx charge))))"

definition fill_fees :: "hasher \<Rightarrow> transaction \<Rightarrow> u128 \<Rightarrow> u64 \<Rightarrow> u128 \<Rightarrow> transaction" where
  "fill_fees H tx rate gas max_fee =
     (let tx1 = tx\<lparr>tx_fee_rate := rate, tx_fee_intrinsic_gas := gas, tx_max_fee_per_gas := max_fee,
                   tx_max_priority_fee_per_gas := 0\<rparr> in
      tx1\<lparr>tx_gas_limit := (case gas_required H tx1 of Ok g \<Rightarrow> g | _ \<Rightarrow> INTRINSIC_GAS)\<rparr>)"

definition fill_default_fees :: "hasher \<Rightarrow> transaction \<Rightarrow> transaction" where
  "fill_default_fees H tx =
     fill_fees H tx RATE_SCALE DEFAULT_ASSET_INTRINSIC_GAS (2 * DEFAULT_BASE_FEE_FLOOR)"

section \<open>Batches\<close>

record execution_trace =
  instructions :: "instruction list"
  states :: "machine_state list"
  tx_starts :: "u64 list"

definition trace_len :: "execution_trace \<Rightarrow> nat" where
  "trace_len t = length (instructions t)"

definition trace_is_empty :: "execution_trace \<Rightarrow> bool" where
  "trace_is_empty t \<longleftrightarrow> instructions t = []"

definition trace_initial :: "execution_trace \<Rightarrow> ('e, machine_state) result" where
  "trace_initial t = (case states t of [] \<Rightarrow> Panic | s # _ \<Rightarrow> Ok s)"

definition final_state :: "execution_trace \<Rightarrow> ('e, machine_state) result" where
  "final_state t = (if states t = [] then Panic else Ok (last (states t)))"

datatype batch_error =
    BatchCompile nat compile_error
  | BatchStep nat nat step_error

text \<open>
  The inner loop of \<open>execute_batch\<close>: apply the instructions of transaction \<open>index\<close>, recording
  each and the state after it.  The whole trace is passed along.
\<close>

fun run_instructions ::
    "hasher \<Rightarrow> ed25519 \<Rightarrow> nat \<Rightarrow> instruction list \<Rightarrow> merkle_trie \<Rightarrow> execution_trace
     \<Rightarrow> (batch_error, merkle_trie \<times> execution_trace) result" where
  "run_instructions H ed index [] tr t = Ok (tr, t)"
| "run_instructions H ed index (i # is) tr t =
     and_then (map_err (BatchStep index (length (instructions t))) (apply_step H ed tr i)) (\<lambda>(tr', root).
       run_instructions H ed index is tr'
         (t\<lparr>instructions := instructions t @ [i],
            states := states t @ [\<lparr>state_root = root, pc = of_nat (length (instructions t) + 1)\<rparr>]\<rparr>))"

fun run_transactions ::
    "hasher \<Rightarrow> ed25519 \<Rightarrow> width_constants list \<Rightarrow> batch_context \<Rightarrow> nat \<Rightarrow> transaction list \<Rightarrow> merkle_trie
     \<Rightarrow> execution_trace \<Rightarrow> (batch_error, merkle_trie \<times> execution_trace) result" where
  "run_transactions H ed pcs ctx index [] tr t = Ok (tr, t)"
| "run_transactions H ed pcs ctx index (tx # txs) tr t =
     (let t1 = t\<lparr>tx_starts := tx_starts t @ [of_nat (length (instructions t))]\<rparr> in
      and_then (map_err (BatchCompile index) (compile H ed pcs tx ctx)) (\<lambda>compiled.
      and_then (run_instructions H ed index compiled tr t1) (\<lambda>(tr', t').
        run_transactions H ed pcs ctx (index + 1) txs tr' t')))"

definition execute_batch ::
    "hasher \<Rightarrow> ed25519 \<Rightarrow> width_constants list \<Rightarrow> merkle_trie \<Rightarrow> batch_context \<Rightarrow> transaction list
     \<Rightarrow> (batch_error, merkle_trie \<times> execution_trace) result" where
  "execute_batch H ed pcs tr ctx txs =
     run_transactions H ed pcs ctx 0 txs tr
       \<lparr>instructions = [], states = [machine_start (mt_root tr)], tx_starts = []\<rparr>"

definition genesis_credit ::
    "hasher \<Rightarrow> ed25519 \<Rightarrow> merkle_trie \<Rightarrow> l2address \<Rightarrow> asset_id \<Rightarrow> u128 \<Rightarrow> (merkle_trie \<times> hash256) option" where
  "genesis_credit H ed tr account asset amount =
     (case apply_step H ed tr (Credit account asset amount) of Ok r \<Rightarrow> Some r | _ \<Rightarrow> None)"

section \<open>One step: the verifier agrees with the node\<close>

text \<open>The trie operation a step performs, if any.\<close>

definition step_ops :: "hasher \<Rightarrow> ed25519 \<Rightarrow> merkle_trie \<Rightarrow> instruction \<Rightarrow> trie_op list" where
  "step_ops H ed tr i =
     (case transition ed i (trie_get tr (slot H i)) of Ok v \<Rightarrow> [OpInsert (slot H i) v] | _ \<Rightarrow> [])"

lemma compute_updated_root_proof_for:
  assumes "trie_rep H N tr t" "proof_for H p k t" "tree_nodes H (st_insert 0 k (hash_value H v) t) \<subseteq> N"
  shows "\<exists>tr'. trie_insert H tr k v = Some (tr', mt_root tr')
    \<and> compute_updated_root H p k (hash_value H v) = Ok (mt_root tr')"
proof -
  obtain tr' where "trie_insert H tr k v = Some (tr', mt_root tr')" "trie_rep H N tr' (st_insert 0 k (hash_value H v) t)"
    by (rule trie_rep_insert [OF assms(1,3)])
  with proof_for_update [OF assms(2), of "hash_value H v"] show ?thesis by (auto simp: trie_rep_def)
qed

text \<open>An accepted witness tells the truth about the slot.\<close>

lemma check_witness_truth:
  assumes rep: "trie_rep H N tr t" and cf: "collision_free H (N \<union> proof_nodes H (sw_slot w) (sw_proof w))"
    and ok: "check_witness H (mt_root tr) w = Ok ()"
    and vals: "\<forall>v v'. trie_get tr (sw_slot w) = Some v \<longrightarrow> sw_value w = Some v' \<longrightarrow> H v = H v' \<longrightarrow> v = v'"
  shows "proof_for H (sw_proof w) (sw_slot w) t" "sw_value w = trie_get tr (sw_slot w)"
proof -
  have root: "mt_root tr = root_of H t" and wf: "st_wf 0 t"
    and get: "st_get 0 (sw_slot w) t = map_option (hash_value H) (trie_get tr (sw_slot w))"
    using rep trie_rep_get [OF rep] by (auto simp: trie_rep_def)
  have c: "collision_free H (tree_nodes H t \<union> proof_nodes H (sw_slot w) (sw_proof w))"
    using trie_rep_nodes [OF rep] by (auto intro!: collision_free_mono [OF cf])
  have "proof_for H (sw_proof w) (sw_slot w) t \<and> sw_value w = trie_get tr (sw_slot w)"
  proof (cases "sw_value w")
    case None
    with ok have "verify_non_inclusion H (sw_proof w) (root_of H t) (sw_slot w) = Ok ()"
      by (simp add: check_witness_def root)
    from verify_non_inclusion_proof_for [OF this wf c] None get show ?thesis by simp
  next
    case (Some b)
    with ok have "verify_inclusion_hashed H (sw_proof w) (root_of H t) (sw_slot w) (hash_value H b) = Ok ()"
      by (simp add: check_witness_def root verify_inclusion_def)
    from verify_inclusion_proof_for [OF this wf c] Some get vals show ?thesis
      by (auto simp: hash_value_def digest_def)
  qed
  then show "proof_for H (sw_proof w) (sw_slot w) t" "sw_value w = trie_get tr (sw_slot w)" by auto
qed

lemma verify_step_apply:
  assumes rep: "trie_rep H N tr t" and pre: "state_root pre = mt_root tr" and slot: "sw_slot w = slot H i"
    and ok: "check_witness H (mt_root tr) w = Ok ()" and pf: "proof_for H (sw_proof w) (slot H i) t"
    and val: "sw_value w = trie_get tr (slot H i)"
    and N: "\<And>v. transition ed i (trie_get tr (slot H i)) = Ok v \<Longrightarrow>
      tree_nodes H (st_insert 0 (slot H i) (hash_value H v) t) \<subseteq> N"
  shows "verify_step H ed pre i w =
    and_then (apply_step H ed tr i) (\<lambda>(_, root). Ok \<lparr>state_root = root, pc = saturating_add (pc pre) 1\<rparr>)"
proof (cases "transition ed i (trie_get tr (slot H i))")
  case (Ok v)
  from compute_updated_root_proof_for [OF rep pf N [OF Ok]] obtain tr' where
    "trie_insert H tr (slot H i) v = Some (tr', mt_root tr')"
    "compute_updated_root H (sw_proof w) (slot H i) (hash_value H v) = result.Ok (mt_root tr')" by blast
  with Ok slot ok pre val show ?thesis by (simp add: verify_step_def apply_step_def)
qed (simp_all add: verify_step_def apply_step_def slot ok pre val)

text \<open>The witness an honest party builds from its trie.\<close>

definition honest_witness :: "hasher \<Rightarrow> merkle_trie \<Rightarrow> instruction \<Rightarrow> step_witness option" where
  "honest_witness H tr i =
     map_option (\<lambda>p. \<lparr>sw_slot = slot H i, sw_value = trie_get tr (slot H i), sw_proof = p\<rparr>) (prove tr (slot H i))"

lemma honest_witness_checks:
  assumes rep: "trie_rep H N tr t"
  obtains w where "honest_witness H tr i = Some w" "sw_slot w = slot H i" "sw_value w = trie_get tr (slot H i)"
    "check_witness H (mt_root tr) w = Ok ()" "proof_for H (sw_proof w) (slot H i) t"
proof -
  obtain p where p: "prove tr (slot H i) = Some p" "proof_for H p (slot H i) t"
    using prove_proof_for [OF rep] .
  have "check_witness H (mt_root tr) \<lparr>sw_slot = slot H i, sw_value = trie_get tr (slot H i), sw_proof = p\<rparr> = Ok ()"
    using proof_for_verify_inclusion [OF p(2)] proof_for_verify_non_inclusion [OF p(2)] rep
      trie_rep_get [OF rep, of "slot H i"]
    by (auto simp: check_witness_def verify_inclusion_def trie_rep_def split: option.splits)
  with p that show thesis by (simp add: honest_witness_def)
qed

lemma trie_run_rep_ops:
  assumes "trie_run H trie_new ops = Some tr" "collision_free H (history_nodes H SE (ops @ ops'))"
  shows "trie_rep H (history_nodes H SE (ops @ ops')) tr (foldl (tree_step H) SE ops)"
    and "history_nodes H (foldl (tree_step H) SE ops) ops' \<subseteq> history_nodes H SE (ops @ ops')"
proof -
  have sub: "history_nodes H SE ops \<subseteq> history_nodes H SE (ops @ ops')" by (simp add: history_nodes_append)
  from trie_run_rep [OF trie_rep_new [OF assms(2)] sub] assms(1)
  show "trie_rep H (history_nodes H SE (ops @ ops')) tr (foldl (tree_step H) SE ops)" by auto
  show "history_nodes H (foldl (tree_step H) SE ops) ops' \<subseteq> history_nodes H SE (ops @ ops')"
    by (simp add: history_nodes_append)
qed

lemma step_ops_nodes:
  assumes "history_nodes H t (step_ops H ed tr i) \<subseteq> N" "transition ed i (trie_get tr (slot H i)) = Ok v"
  shows "tree_nodes H (st_insert 0 (slot H i) (hash_value H v) t) \<subseteq> N"
  using assms by (simp add: step_ops_def)

lemma honest_step:
  assumes rep: "trie_rep H N tr t" and pre: "state_root pre = mt_root tr"
    and N: "history_nodes H t (step_ops H ed tr i) \<subseteq> N"
  shows "\<exists>w. honest_witness H tr i = Some w \<and> verify_step H ed pre i w =
    and_then (apply_step H ed tr i) (\<lambda>(_, root). Ok \<lparr>state_root = root, pc = saturating_add (pc pre) 1\<rparr>)"
proof -
  obtain w where w: "honest_witness H tr i = Some w" "sw_slot w = slot H i" "sw_value w = trie_get tr (slot H i)"
    "check_witness H (mt_root tr) w = Ok ()" "proof_for H (sw_proof w) (slot H i) t"
    by (rule honest_witness_checks [OF rep])
  from verify_step_apply [OF rep pre w(2,4,5,3) step_ops_nodes [OF N]] w(1) show ?thesis by blast
qed

lemma checked_step:
  assumes rep: "trie_rep H N tr t" and pre: "state_root pre = mt_root tr"
    and N: "history_nodes H t (step_ops H ed tr i) \<subseteq> N"
    and slot: "sw_slot w = slot H i" and ok: "check_witness H (state_root pre) w = Ok ()"
    and cf: "collision_free H (N \<union> proof_nodes H (slot H i) (sw_proof w))"
    and vals: "\<forall>v v'. trie_get tr (slot H i) = Some v \<longrightarrow> sw_value w = Some v' \<longrightarrow> H v = H v' \<longrightarrow> v = v'"
  shows "verify_step H ed pre i w =
    and_then (apply_step H ed tr i) (\<lambda>(_, root). Ok \<lparr>state_root = root, pc = saturating_add (pc pre) 1\<rparr>)"
proof -
  have ok': "check_witness H (mt_root tr) w = Ok ()" using ok pre by simp
  note truth = check_witness_truth [OF rep cf [folded slot] ok' vals [folded slot]]
  show ?thesis
    by (rule verify_step_apply [OF rep pre slot ok' truth [unfolded slot]]) (rule step_ops_nodes [OF N])
qed

section \<open>Properties\<close>

text \<open>
  C8.  The one-step verifier and the node never disagree, whatever witness is supplied.  A
  witness that names another slot than the instruction's is refused, one whose proof does not
  verify against the pre-state root is refused with the proof's error, and on every other one
  \<open>verify_step\<close>, which holds no state, returns exactly what \<open>apply\<close> returns on the full trie:
  the same post-state root on success, the same error on failure.
\<close>

theorem verify_step_agrees_with_apply:
  assumes run: "trie_run H trie_new ops = Some tr" and pre: "state_root pre = mt_root tr"
    and cf: "collision_free H (history_nodes H SE (ops @ step_ops H ed tr i) \<union> proof_nodes H (slot H i) (sw_proof w))"
    and vals: "\<forall>v v'. trie_get tr (slot H i) = Some v \<longrightarrow> sw_value w = Some v' \<longrightarrow> H v = H v' \<longrightarrow> v = v'"
  shows "verify_step H ed pre i w =
    (if sw_slot w \<noteq> slot H i then Err (WitnessSlotMismatch (sw_slot w) (slot H i))
     else and_then (map_err BadWitnessProof (check_witness H (state_root pre) w)) (\<lambda>_.
       and_then (apply_step H ed tr i) (\<lambda>(_, root). Ok \<lparr>state_root = root, pc = saturating_add (pc pre) 1\<rparr>)))"
proof (cases "sw_slot w = slot H i \<and> check_witness H (state_root pre) w = Ok ()")
  case True
  let ?N = "history_nodes H SE (ops @ step_ops H ed tr i)"
  have "collision_free H ?N" by (auto intro: collision_free_mono [OF cf])
  note rep = trie_run_rep_ops [OF run this]
  from True show ?thesis using checked_step [OF rep(1) pre rep(2) _ _ cf vals] by simp
next
  case False
  then show ?thesis
    by (cases "check_witness H (state_root pre) w") (auto simp: verify_step_def Let_def simp del: slot.simps)
qed

lemma sample_step:
  "slot sample_hash (SetJwk 0 0 True) = 2"
  "step_ops sample_hash ed trie_new (SetJwk 0 0 True) = [OpInsert 2 [1]]"
  "collision_free sample_hash (history_nodes sample_hash SE ([] @ [OpInsert 2 [1]]))"
proof -
  show s: "slot sample_hash (SetJwk 0 0 True) = 2"
    by (simp add: jwk_key_def commit_def digest_def enc_new_def enc_field_def push_framed_def REGION_JWK_def
        str_bytes_def sample_hash_def from_be_to_be)
  show "step_ops sample_hash ed trie_new (SetJwk 0 0 True) = [OpInsert 2 [1]]"
    by (simp add: step_ops_def s encode_jwk_record_def del: slot.simps)
  show "collision_free sample_hash (history_nodes sample_hash SE ([] @ [OpInsert 2 [1]]))"
    by (simp add: collision_free_sample ZERO_def)
qed

theorem verify_step_agrees_with_apply_witness:
  "verify_step sample_hash sample_ed \<lparr>state_root = mt_root trie_new, pc = 0\<rparr> (SetJwk 0 0 True)
      \<lparr>sw_slot = 2, sw_value = None, sw_proof = \<lparr>siblings = [], terminal = TEmpty\<rparr>\<rparr> =
    and_then (apply_step sample_hash sample_ed trie_new (SetJwk 0 0 True))
      (\<lambda>(_, root). Ok \<lparr>state_root = root, pc = saturating_add 0 1\<rparr>)"
proof -
  let ?w = "\<lparr>sw_slot = 2, sw_value = None, sw_proof = \<lparr>siblings = [], terminal = TEmpty\<rparr>\<rparr>"
    and ?pre = "\<lparr>state_root = mt_root trie_new, pc = 0\<rparr>"
  have "check_witness sample_hash (state_root ?pre) ?w = Ok ()"
    by (simp add: check_witness_def verify_non_inclusion_def reconstruct_root_def terminal_hash_def trie_new_def
        MAX_DEPTH_def)
  moreover have "collision_free sample_hash (history_nodes sample_hash SE ([] @ step_ops sample_hash sample_ed trie_new (SetJwk 0 0 True))
      \<union> proof_nodes sample_hash (slot sample_hash (SetJwk 0 0 True)) (sw_proof ?w))"
    using sample_step(3) by (simp add: sample_step(2) proof_nodes_def)
  ultimately show ?thesis
    using verify_step_agrees_with_apply [of sample_hash "[]" trie_new ?pre sample_ed "SetJwk 0 0 True" ?w]
    by (simp add: sample_step(1) del: slot.simps)
qed

text \<open>
  An honest party can always make its case: for every reachable state and every
  instruction it can build a witness from its trie that the verifier accepts, and with it the
  verifier reproduces the node's step.
\<close>

lemma honest_witness_accepted:
  assumes run: "trie_run H trie_new ops = Some tr" and pre: "state_root pre = mt_root tr"
    and cf: "collision_free H (history_nodes H SE (ops @ step_ops H ed tr i))"
  shows "\<exists>w. honest_witness H tr i = Some w \<and> verify_step H ed pre i w =
    and_then (apply_step H ed tr i) (\<lambda>(_, root). Ok \<lparr>state_root = root, pc = saturating_add (pc pre) 1\<rparr>)"
proof -
  note rep = trie_run_rep_ops [OF run cf]
  show ?thesis by (rule honest_step [OF rep(1) pre rep(2)])
qed

end
