(* ===== verification/Ledger.thy ===== *)
theory Ledger
  imports Execute
begin

text \<open>
  What executing batches does to the ledger: the structure of traces, and on the state as a
  map from slots to bytes, nonces and the supply of every asset.
\<close>

section \<open>Execution as a sequence of steps\<close>

fun run_steps ::
    "hasher \<Rightarrow> ed25519 \<Rightarrow> merkle_trie \<Rightarrow> instruction list \<Rightarrow> (step_error, merkle_trie \<times> hash256 list) result" where
  "run_steps H ed tr [] = Ok (tr, [])"
| "run_steps H ed tr (i # is) =
     and_then (apply_step H ed tr i) (\<lambda>(tr', root).
     and_then (run_steps H ed tr' is) (\<lambda>(tr'', roots). Ok (tr'', root # roots)))"

lemma run_steps_append:
  "run_steps H ed tr (is @ js) =
     and_then (run_steps H ed tr is) (\<lambda>(tr', roots).
     and_then (run_steps H ed tr' js) (\<lambda>(tr'', roots'). Ok (tr'', roots @ roots')))"
proof (induction "is" arbitrary: tr)
  case Nil
  show ?case by (cases "run_steps H ed tr js") auto
next
  case (Cons i "is")
  show ?case
    by (cases "apply_step H ed tr i") (auto simp: Cons.IH and_then_assoc case_prod_unfold)
qed

lemma length_run_steps: "run_steps H ed tr is = Ok (tr', roots) \<Longrightarrow> length roots = length is"
  by (induction "is" arbitrary: tr roots) (auto simp: result_simps)

lemma apply_step_root: "apply_step H ed tr i = Ok (tr', root) \<Longrightarrow> root = mt_root tr'"
  by (auto simp: apply_step_def Let_def result_simps trie_insert_def split: option.splits)

text \<open>The machine states a trace records after a step sequence.\<close>

fun states_from :: "nat \<Rightarrow> hash256 list \<Rightarrow> machine_state list" where
  "states_from n [] = []"
| "states_from n (r # rs) = \<lparr>state_root = r, pc = of_nat (Suc n)\<rparr> # states_from (Suc n) rs"

lemma length_states_from [simp]: "length (states_from n rs) = length rs"
  by (induction rs arbitrary: n) simp_all

lemma states_from_append: "states_from n (rs @ rs') = states_from n rs @ states_from (n + length rs) rs'"
  by (induction rs arbitrary: n) simp_all

lemma states_from_nth:
  "k < length rs \<Longrightarrow> states_from n rs ! k = \<lparr>state_root = rs ! k, pc = of_nat (n + k + 1)\<rparr>"
proof (induction rs arbitrary: n k)
  case (Cons r rs)
  then show ?case by (cases k) (simp_all add: add.assoc)
qed simp

lemma run_instructions_steps:
  "run_instructions H ed index is tr t = Ok (tr', t') \<longleftrightarrow>
   (\<exists>roots. run_steps H ed tr is = Ok (tr', roots)
     \<and> t' = t\<lparr>instructions := instructions t @ is,
            states := states t @ states_from (length (instructions t)) roots\<rparr>)"
proof (induction "is" arbitrary: tr t t')
  case Nil
  then show ?case by (cases t; cases t') auto
next
  case (Cons i "is")
  show ?case
    by (cases "apply_step H ed tr i") (auto simp: Cons.IH result_simps)
qed

lemma run_transactions_steps:
  "run_transactions H ed pcs ctx index txs tr t = Ok (tr', t') \<longleftrightarrow>
   (\<exists>css roots. list_all2 (\<lambda>tx c. compile H ed pcs tx ctx = Ok c) txs css
     \<and> run_steps H ed tr (concat css) = Ok (tr', roots)
     \<and> t' = t\<lparr>instructions := instructions t @ concat css,
            states := states t @ states_from (length (instructions t)) roots,
            tx_starts := tx_starts t
              @ map (\<lambda>k. of_nat (length (instructions t) + length (concat (take k css)))) [0..<length css]\<rparr>)"
  (is "_ \<longleftrightarrow> ?R index txs tr t t'")
proof (induction txs arbitrary: index tr t t')
  case Nil
  then show ?case by (cases t; cases t') auto
next
  case (Cons tx txs)
  let ?t1 = "t\<lparr>tx_starts := tx_starts t @ [of_nat (length (instructions t))]\<rparr>"
  have upt: "[0..<Suc n] = 0 # map Suc [0..<n]" for n
    by (simp add: upt_conv_Cons map_Suc_upt)
  show ?case (is "?L \<longleftrightarrow> _")
  proof
    assume ?L
    then obtain c tr1 roots1 where c: "compile H ed pcs tx ctx = Ok c"
      and r1: "run_steps H ed tr c = Ok (tr1, roots1)"
      and rest: "run_transactions H ed pcs ctx (index + 1) txs tr1
        (?t1\<lparr>instructions := instructions t @ c, states := states t @ states_from (length (instructions t)) roots1\<rparr>)
        = Ok (tr', t')"
      by (auto simp: Let_def result_simps run_instructions_steps split: prod.splits)
    from rest [unfolded Cons.IH] obtain css roots2 where
      css: "list_all2 (\<lambda>tx c. compile H ed pcs tx ctx = Ok c) txs css"
      and r2: "run_steps H ed tr1 (concat css) = Ok (tr', roots2)"
      and t': "t' = ?t1\<lparr>instructions := (instructions t @ c) @ concat css,
            states := (states t @ states_from (length (instructions t)) roots1)
              @ states_from (length (instructions t @ c)) roots2,
            tx_starts := (tx_starts t @ [of_nat (length (instructions t))])
              @ map (\<lambda>k. of_nat (length (instructions t @ c) + length (concat (take k css)))) [0..<length css]\<rparr>"
      by auto
    have "run_steps H ed tr (concat (c # css)) = Ok (tr', roots1 @ roots2)"
      using r1 r2 by (simp add: run_steps_append)
    moreover have "t' = t\<lparr>instructions := instructions t @ concat (c # css),
            states := states t @ states_from (length (instructions t)) (roots1 @ roots2),
            tx_starts := tx_starts t
              @ map (\<lambda>k. of_nat (length (instructions t) + length (concat (take k (c # css))))) [0..<length (c # css)]\<rparr>"
      using t' length_run_steps [OF r1] by (simp add: states_from_append upt comp_def add.assoc del: upt_Suc)
    ultimately show "?R index (tx # txs) tr t t'" using c css by (intro exI [of _ "c # css"] exI [of _ "roots1 @ roots2"]) simp
  next
    assume "?R index (tx # txs) tr t t'"
    then obtain c css roots where c: "compile H ed pcs tx ctx = Ok c"
      and css: "list_all2 (\<lambda>tx c. compile H ed pcs tx ctx = Ok c) txs css"
      and r: "run_steps H ed tr (c @ concat css) = Ok (tr', roots)"
      and t': "t' = t\<lparr>instructions := instructions t @ c @ concat css,
            states := states t @ states_from (length (instructions t)) roots,
            tx_starts := tx_starts t
              @ map (\<lambda>k. of_nat (length (instructions t) + length (concat (take k (c # css))))) [0..<length (c # css)]\<rparr>"
      by (auto simp: list_all2_Cons1)
    from r obtain tr1 roots1 roots2 where r1: "run_steps H ed tr c = Ok (tr1, roots1)"
      and r2: "run_steps H ed tr1 (concat css) = Ok (tr', roots2)" and roots: "roots = roots1 @ roots2"
      by (auto simp: run_steps_append result_simps)
    let ?t2 = "?t1\<lparr>instructions := instructions t @ c, states := states t @ states_from (length (instructions t)) roots1\<rparr>"
    have "run_instructions H ed index c tr ?t1 = Ok (tr1, ?t2)" using r1 by (auto simp: run_instructions_steps)
    moreover have "run_transactions H ed pcs ctx (index + 1) txs tr1 ?t2 = Ok (tr', t')"
      unfolding Cons.IH using css r2 t' roots length_run_steps [OF r1]
      by (intro exI [of _ css] exI [of _ roots2])
        (simp add: states_from_append upt comp_def add.assoc del: upt_Suc)
    ultimately show ?L using c by (simp add: Let_def)
  qed
qed

section \<open>The ledger as a map\<close>

type_synonym state_map = "hash256 \<rightharpoonup> bytes"

fun map_exec :: "hasher \<Rightarrow> ed25519 \<Rightarrow> state_map \<Rightarrow> instruction list \<Rightarrow> (step_error, state_map) result" where
  "map_exec H ed m [] = Ok m"
| "map_exec H ed m (i # is) =
     and_then (transition ed i (m (slot H i))) (\<lambda>v. map_exec H ed (m(slot H i \<mapsto> v)) is)"

lemma trie_insert_get:
  "trie_insert H tr k v = Some (tr', root) \<Longrightarrow> trie_get tr' = (trie_get tr)(k \<mapsto> v)"
  by (auto simp: trie_insert_def trie_get_def fun_eq_iff bmap_spec Let_def split: option.splits)

lemma run_steps_map:
  "run_steps H ed tr is = Ok (tr', roots) \<Longrightarrow> map_exec H ed (trie_get tr) is = Ok (trie_get tr')"
proof (induction "is" arbitrary: tr roots)
  case (Cons i "is")
  then obtain v tr1 root roots1 where v: "transition ed i (trie_get tr (slot H i)) = Ok v"
    and ins: "trie_insert H tr (slot H i) v = Some (tr1, root)" and r: "run_steps H ed tr1 is = Ok (tr', roots1)"
    by (auto simp: apply_step_def Let_def result_simps)
  from Cons.IH [OF r] v show ?case by (simp add: trie_insert_get [OF ins] del: fun_upd_apply)
qed simp

lemma map_exec_append:
  "map_exec H ed m (is @ js) = and_then (map_exec H ed m is) (\<lambda>m'. map_exec H ed m' js)"
  by (induction "is" arbitrary: m) (simp_all add: and_then_assoc)

definition acct :: "hasher \<Rightarrow> state_map \<Rightarrow> l2address \<Rightarrow> account" where
  "acct H m a = (case decode_account (m (account_key H a)) of Ok x \<Rightarrow> x | _ \<Rightarrow> account_new)"

lemma decode_account_wf: "decode_account cur = Ok a \<Longrightarrow> account_wf a"
  by (auto simp: decode_account_def result_simps account_decode_wf split: option.splits)
    (simp add: account_wf_def, simp add: account_new_def)

lemma acct_inv: "account_inv (acct H m a)"
  by (auto simp: acct_def account_wf_def dest: decode_account_wf split: result.splits)

lemma account_encode_bound: "account_wf a \<Longrightarrow> length (account_encode a) < 2 ^ 63"
  by (simp add: account_encode_def account_wf_def w_balance_def length_concat case_prod_unfold comp_def sum_list_triv)

lemma account_store_decode:
  assumes "account_inv a" "account_store a = Ok v"
  shows "decode_account (Some v) = Ok a"
proof -
  from assms have "account_wf a" "v = account_encode a"
    by (auto simp: account_store_def account_wf_def split: if_splits)
  with accountc.parse_all_wr [of a] account_encode_bound [of a] show ?thesis
    by (simp add: decode_account_def account_decode_def account_decode_inner_def)
qed

lemma acct_store:
  "account_inv a \<Longrightarrow> account_store a = Ok v \<Longrightarrow> acct H (m(account_key H b \<mapsto> v)) b = a"
  by (simp add: acct_def account_store_decode)

lemma acct_other: "k \<noteq> account_key H b \<Longrightarrow> acct H (m(k \<mapsto> v)) b = acct H m b"
  by (simp add: acct_def)

lemma decode_account_acct: "decode_account (m (account_key H a)) = Ok x \<Longrightarrow> acct H m a = x"
  by (simp add: acct_def)

text \<open>What an instruction takes from, gives to, and how it advances an account.\<close>

fun takes :: "instruction \<Rightarrow> l2address \<Rightarrow> asset_id \<Rightarrow> nat" where
  "takes (Debit b y n) a x = (if b = a \<and> y = x then unat n else 0)"
| "takes _ a x = 0"

fun gives :: "instruction \<Rightarrow> l2address \<Rightarrow> asset_id \<Rightarrow> nat" where
  "gives (Credit b y n) a x = (if b = a \<and> y = x then unat n else 0)"
| "gives _ a x = 0"

fun advances :: "instruction \<Rightarrow> l2address \<Rightarrow> nat" where
  "advances (ConsumeNonce b _) a = (if b = a then 1 else 0)"
| "advances _ a = 0"

definition account_effect :: "instruction \<Rightarrow> l2address \<Rightarrow> account \<Rightarrow> account \<Rightarrow> bool" where
  "account_effect i a old new \<longleftrightarrow>
     unat (nonce new) = unat (nonce old) + advances i a
     \<and> (\<forall>x. unat (balance new x) + takes i a x = unat (balance old x) + gives i a x)"

lemma balance_nonce_update [simp]: "balance (a\<lparr>nonce := n\<rparr>) x = balance a x"
  by (simp add: balance_def)

lemma account_inv_nonce [simp]: "account_inv (a\<lparr>nonce := n\<rparr>) = account_inv a"
  by (simp add: account_inv_def)

lemma own_step_effect:
  assumes t: "transition ed i (m (slot H i)) = Ok v" and own: "slot_of i = AccountSlot a"
  shows "account_effect i a (acct H m a) (acct H (m(slot H i \<mapsto> v)) a)"
proof -
  have sl: "slot H i = account_key H a" using own by (simp add: slot_slot_key keys_slot_key)
  show ?thesis
  proof (cases i)
    case (ConsumeNonce b e)
    with own have "b = a" by simp
    with t ConsumeNonce obtain x n where x: "decode_account (m (account_key H a)) = Ok x"
      "checked_add (nonce x) 1 = Some n" "account_store (x\<lparr>nonce := n\<rparr>) = Ok v"
      by (auto simp: result_simps split: if_splits)
    have inv: "account_inv (x\<lparr>nonce := n\<rparr>)" using decode_account_wf [OF x(1)] by (simp add: account_wf_def)
    show ?thesis
      unfolding sl acct_store [OF inv x(3)] decode_account_acct [of m, OF x(1)]
      using ConsumeNonce \<open>b = a\<close> x(2)
      by (simp add: account_effect_def checked_add_Some_iff)
  next
    case (Debit b y n)
    with own have "b = a" by simp
    with t Debit obtain x x' where x: "decode_account (m (account_key H a)) = Ok x"
      "debit x y n = Ok x'" "account_store x' = Ok v"
      by (auto simp: result_simps)
    have inv: "account_inv x" using decode_account_wf [OF x(1)] by (simp add: account_wf_def)
    from debit_Ok [OF inv x(2)] x show ?thesis
      unfolding sl using Debit \<open>b = a\<close>
      by (simp add: account_effect_def acct_store decode_account_acct)
  next
    case (Credit b y n)
    with own have "b = a" by simp
    with t Credit obtain x x' where x: "decode_account (m (account_key H a)) = Ok x"
      "credit x y n = Ok x'" "account_store x' = Ok v"
      by (auto simp: result_simps)
    have inv: "account_inv x" using decode_account_wf [OF x(1)] by (simp add: account_wf_def)
    from credit_Ok [OF inv x(2)] x show ?thesis
      unfolding sl using Credit \<open>b = a\<close>
      by (simp add: account_effect_def acct_store decode_account_acct)
  qed (use own in simp_all)
qed

lemma other_step_effect:
  assumes "slot_of i \<noteq> AccountSlot a" "inj_on (slot_key H) {slot_of i, AccountSlot a}"
  shows "account_effect i a (acct H m a) (acct H (m(slot H i \<mapsto> v)) a)"
proof -
  have "slot H i \<noteq> account_key H a"
    using assms by (auto simp: slot_slot_key keys_slot_key inj_on_def)
  with assms(1) show ?thesis by (cases i) (auto simp: account_effect_def acct_other)
qed

lemma step_effect:
  assumes "transition ed i (m (slot H i)) = Ok v" "inj_on (slot_key H) {slot_of i, AccountSlot a}"
  shows "account_effect i a (acct H m a) (acct H (m(slot H i \<mapsto> v)) a)"
  using own_step_effect [where m = m and H = H and i = i and a = a and v = v, OF assms(1)]
    other_step_effect [OF _ assms(2)]
  by blast

lemma exec_effect:
  assumes "map_exec H ed m is = Ok m'" "inj_on (slot_key H) (insert (AccountSlot a) (slot_of ` set is))"
  shows "unat (nonce (acct H m' a)) = unat (nonce (acct H m a)) + (\<Sum>i\<leftarrow>is. advances i a)"
    and "unat (balance (acct H m' a) x) + (\<Sum>i\<leftarrow>is. takes i a x)
      = unat (balance (acct H m a) x) + (\<Sum>i\<leftarrow>is. gives i a x)"
proof -
  have "unat (nonce (acct H m' a)) = unat (nonce (acct H m a)) + (\<Sum>i\<leftarrow>is. advances i a)
    \<and> unat (balance (acct H m' a) x) + (\<Sum>i\<leftarrow>is. takes i a x)
      = unat (balance (acct H m a) x) + (\<Sum>i\<leftarrow>is. gives i a x)"
    using assms
  proof (induction "is" arbitrary: m)
    case (Cons i "is")
    then obtain v where v: "transition ed i (m (slot H i)) = Ok v" "map_exec H ed (m(slot H i \<mapsto> v)) is = Ok m'"
      by (auto simp: result_simps)
    have inj: "inj_on (slot_key H) {slot_of i, AccountSlot a}" "inj_on (slot_key H) (insert (AccountSlot a) (slot_of ` set is))"
      by (rule inj_on_subset [OF Cons.prems(2)]; auto)+
    define m1 where "m1 = m(slot H i \<mapsto> v)"
    from step_effect [where m = m and H = H and i = i and a = a and v = v, OF v(1) inj(1)]
    have "unat (nonce (acct H m1 a)) = unat (nonce (acct H m a)) + advances i a"
      "unat (balance (acct H m1 a) x) + takes i a x = unat (balance (acct H m a) x) + gives i a x"
      by (simp_all add: account_effect_def m1_def)
    with Cons.IH [OF v(2) [folded m1_def] inj(2)] show ?case by simp
  qed simp
  then show "unat (nonce (acct H m' a)) = unat (nonce (acct H m a)) + (\<Sum>i\<leftarrow>is. advances i a)"
    and "unat (balance (acct H m' a) x) + (\<Sum>i\<leftarrow>is. takes i a x)
      = unat (balance (acct H m a) x) + (\<Sum>i\<leftarrow>is. gives i a x)" by auto
qed

section \<open>What a transaction compiles to\<close>

lemma settle_sum:
  assumes "settle gas_limit used max_fee max_tip base_fee rate = Ok c"
  shows "unat (fc_refund c) + unat (fc_tip c) + unat (fc_base c) = unat (fc_hold c)"
proof -
  have lim: "gas_limit \<le> MAX_GAS_LIMIT" "used \<le> gas_limit"
    using assms by (auto simp: settle_def not_less split: if_splits)
  then obtain b where "native_to_asset base_fee rate = Ok b" "\<not> max_fee < b"
    using assms by (auto simp: settle_def and_then_Ok_iff split: if_splits)
  from settle_priced [OF lim this, of max_tip] assms show ?thesis by simp
qed

text \<open>The credits of the positive entries of a payment list.\<close>

definition payouts :: "asset_id \<Rightarrow> (l2address \<times> u128) list \<Rightarrow> instruction list" where
  "payouts y vs = map (\<lambda>(account, v). Credit account y v) (filter (\<lambda>(_, v). v > 0) vs)"

definition compiled :: "transaction \<Rightarrow> batch_context \<Rightarrow> fee_charge \<Rightarrow> instruction list \<Rightarrow> instruction list" where
  "compiled tx ctx charge pl =
     (case tx_authenticator tx of
        Keyless sig \<Rightarrow> [VerifyJwk (ks_iss_hash sig) (ks_jwk_hash sig)] | Ed25519 _ _ \<Rightarrow> [])
     @ [ConsumeNonce (tx_sender tx) (tx_nonce tx),
        VerifyGasAsset (tx_fee_asset tx) (tx_fee_rate tx) (tx_fee_intrinsic_gas tx),
        ChargeBaseFee (bx_timestamp ctx) (bx_base_fee ctx) (fc_gas_used charge),
        Debit (tx_sender tx) (tx_fee_asset tx) (fc_hold charge)]
     @ pl @ payouts (tx_fee_asset tx)
        [(tx_sender tx, fc_refund charge), (bx_fee_recipient ctx, fc_tip charge), (FEE_VAULT, fc_base charge)]"

lemma compile_Ok:
  assumes "compile H ed pcs tx ctx = Ok c"
  obtains charge pl where
    "compile_payload H (tx_payload tx) (tx_sender tx) = Ok pl"
    "unat (fc_refund charge) + unat (fc_tip charge) + unat (fc_base charge) = unat (fc_hold charge)"
    "c = compiled tx ctx charge pl" "authenticate H ed pcs tx (bx_keyless_context ctx) = Ok ()"
proof -
  from assms obtain charge pl g where
    a: "authenticate H ed pcs tx (bx_keyless_context ctx) = Ok ()"
    and p: "compile_payload H (tx_payload tx) (tx_sender tx) = Ok pl"
    and st: "settle (tx_gas_limit tx) g (tx_max_fee_per_gas tx) (tx_max_priority_fee_per_gas tx) (bx_base_fee ctx)
        (tx_fee_rate tx) = Ok charge"
    and c: "c = compiled tx ctx charge pl"
    by (auto simp: compile_def charge_and_payload_def and_then_Ok_iff map_err_Ok_iff compiled_def payouts_def
        settle_credits_def split: prod.splits)
  from that [OF p settle_sum [OF st] c a] show thesis .
qed

text \<open>Totals an instruction debits and credits in an asset, over all accounts.\<close>

fun debits :: "instruction \<Rightarrow> asset_id \<Rightarrow> nat" where
  "debits (Debit _ y n) x = (if y = x then unat n else 0)"
| "debits _ x = 0"

fun credits :: "instruction \<Rightarrow> asset_id \<Rightarrow> nat" where
  "credits (Credit _ y n) x = (if y = x then unat n else 0)"
| "credits _ x = 0"

text \<open>What a transaction destroys: the part of a distribution no beneficiary receives.\<close>

definition burned :: "transaction \<Rightarrow> asset_id \<Rightarrow> nat" where
  "burned tx x = (case tx_payload tx of
     DistributeFees y amount s \<Rightarrow>
       if y = x then (case shares_of s amount of Ok vs \<Rightarrow> unat amount - share_sum vs | _ \<Rightarrow> 0) else 0
   | _ \<Rightarrow> 0)"

lemma payouts_totals [simp]:
  "(\<Sum>i\<leftarrow>payouts y vs. credits i x) = (if y = x then share_sum vs else 0)"
  "(\<Sum>i\<leftarrow>payouts y vs. debits i x) = 0"
  "(\<Sum>i\<leftarrow>payouts y vs. advances i a) = 0"
  unfolding payouts_def by (induction vs rule: share_sum.induct) (auto simp: unat_gt_0 word_gt_0)

lemma shares_of_le:
  assumes "split_check s = Ok ()" "shares_of s amount = Ok vs"
  shows "share_sum vs \<le> unat amount"
proof -
  have "unat amount * share_sum (fs_beneficiaries s) \<le> unat amount * 1000000"
    using assms(1) by (intro mult_le_mono2) (auto simp: split_check_iff split: if_splits)
  with shares_loop_Ok [OF assms(2) [unfolded shares_of_def]] show ?thesis by linarith
qed

lemma payload_balance:
  assumes "compile_payload H p sender = Ok pl" "tx_payload tx = p"
  shows "(\<Sum>i\<leftarrow>pl. credits i x) + burned tx x = (\<Sum>i\<leftarrow>pl. debits i x)"
proof (cases p)
  case (DistributeFees y amount s)
  with assms obtain vs where vs: "shares_of s amount = Ok vs" and chk: "split_check s = Ok ()"
    and pl: "pl = [VerifyFeeSplit s, Debit FEE_VAULT y amount] @ payouts y vs"
    by (cases "split_check s") (auto simp: payouts_def compile_distribution_def and_then_Ok_iff map_err_Ok_iff split: if_splits)
  show ?thesis
    unfolding pl using shares_of_le [OF chk vs] vs DistributeFees assms(2)
    by (simp add: burned_def)
next
  case (Governance e u sigs)
  with assms show ?thesis
    by (cases u) (auto simp: burned_def and_then_Ok_iff map_err_Ok_iff)
qed (use assms in \<open>auto simp: burned_def split: if_splits\<close>)

lemma compile_balance:
  assumes "compile H ed pcs tx ctx = Ok c"
  shows "(\<Sum>i\<leftarrow>c. credits i x) + burned tx x = (\<Sum>i\<leftarrow>c. debits i x)"
proof -
  obtain charge pl where c: "compile_payload H (tx_payload tx) (tx_sender tx) = Ok pl"
    "unat (fc_refund charge) + unat (fc_tip charge) + unat (fc_base charge) = unat (fc_hold charge)"
    "c = compiled tx ctx charge pl"
    by (rule compile_Ok [OF assms])
  from payload_balance [OF c(1) refl, of x] c(2) show ?thesis
    unfolding c(3) compiled_def by (cases "tx_authenticator tx") simp_all
qed

lemma payload_advances: "compile_payload H p sender = Ok pl \<Longrightarrow> i \<in> set pl \<Longrightarrow> advances i a = 0"
proof (cases p)
  case (Governance e u sigs)
  moreover assume "compile_payload H p sender = Ok pl" "i \<in> set pl"
  ultimately show ?thesis by (cases u) (auto simp: and_then_Ok_iff map_err_Ok_iff)
qed (auto simp: compile_distribution_def and_then_Ok_iff map_err_Ok_iff split: if_splits)

lemma compile_advances:
  assumes "compile H ed pcs tx ctx = Ok c"
  shows "(\<Sum>i\<leftarrow>c. advances i a) = (if tx_sender tx = a then 1 else 0)"
proof -
  obtain charge pl where pl: "compile_payload H (tx_payload tx) (tx_sender tx) = Ok pl"
    and c: "c = compiled tx ctx charge pl"
    by (rule compile_Ok [OF assms])
  have "(\<Sum>i\<leftarrow>pl. advances i a) = (\<Sum>i\<leftarrow>pl. 0)"
    using payload_advances [OF pl] by (intro arg_cong [of _ _ sum_list] map_cong) auto
  then show ?thesis unfolding c compiled_def by (cases "tx_authenticator tx") simp_all
qed

section \<open>Traces\<close>

text \<open>The trie operations a successful step sequence performs.\<close>

fun exec_ops :: "hasher \<Rightarrow> ed25519 \<Rightarrow> state_map \<Rightarrow> instruction list \<Rightarrow> trie_op list" where
  "exec_ops H ed m [] = []"
| "exec_ops H ed m (i # is) =
     (case transition ed i (m (slot H i)) of
        Ok v \<Rightarrow> OpInsert (slot H i) v # exec_ops H ed (m(slot H i \<mapsto> v)) is
      | _ \<Rightarrow> [])"

lemma exec_ops_append:
  "map_exec H ed m is = Ok m' \<Longrightarrow> exec_ops H ed m (is @ js) = exec_ops H ed m is @ exec_ops H ed m' js"
  by (induction "is" arbitrary: m) (auto simp: and_then_Ok_iff)

lemma run_steps_trie_run:
  "run_steps H ed tr is = Ok (tr', roots) \<Longrightarrow> trie_run H tr (exec_ops H ed (trie_get tr) is) = Some tr'"
proof (induction "is" arbitrary: tr roots)
  case (Cons i "is")
  then obtain v tr1 root roots1 where v: "transition ed i (trie_get tr (slot H i)) = Ok v"
    and ins: "trie_insert H tr (slot H i) v = Some (tr1, root)" and r: "run_steps H ed tr1 is = Ok (tr', roots1)"
    by (auto simp: apply_step_def Let_def result_simps)
  from Cons.IH [OF r] v ins show ?case by (simp add: trie_insert_get [OF ins] del: fun_upd_apply)
qed simp

lemma run_steps_nth:
  assumes "run_steps H ed tr is = Ok (tr', roots)" "k < length is"
  obtains trk tr2 where "run_steps H ed tr (take k is) = Ok (trk, take k roots)"
    "apply_step H ed trk (is ! k) = Ok (tr2, roots ! k)"
proof -
  have "run_steps H ed tr (take k is @ is ! k # drop (Suc k) is) = Ok (tr', roots)"
    using assms by (simp add: id_take_nth_drop [symmetric])
  then obtain trk r1 r2 where r1: "run_steps H ed tr (take k is) = Ok (trk, r1)"
    and r2: "run_steps H ed trk (is ! k # drop (Suc k) is) = Ok (tr', r2)" and roots: "roots = r1 @ r2"
    by (auto simp: run_steps_append and_then_Ok_iff)
  from r2 obtain tr2 root rs where a: "apply_step H ed trk (is ! k) = Ok (tr2, root)" and "r2 = root # rs"
    by (auto simp: and_then_Ok_iff)
  moreover have "length r1 = k" using length_run_steps [OF r1] assms(2) by simp
  ultimately show thesis using that r1 roots by (simp add: nth_append)
qed

lemma run_steps_root:
  "run_steps H ed tr is = Ok (tr', roots) \<Longrightarrow> mt_root tr' = last (mt_root tr # roots)"
  by (induction "is" arbitrary: tr roots) (auto simp: and_then_Ok_iff dest: apply_step_root)

text \<open>The whole batch is one step sequence, the concatenation of its compiled transactions.\<close>

lemma execute_batch_steps:
  assumes "execute_batch H ed pcs tr ctx txs = Ok (tr', t)"
  obtains css roots where "list_all2 (\<lambda>tx c. compile H ed pcs tx ctx = Ok c) txs css"
    and "instructions t = concat css" and "run_steps H ed tr (concat css) = Ok (tr', roots)"
    and "states t = machine_start (mt_root tr) # states_from 0 roots"
    and "tx_starts t = map (\<lambda>k. of_nat (length (concat (take k css)))) [0..<length css]"
  using assms that by (auto simp: execute_batch_def run_transactions_steps)

lemma trace_step:
  assumes exec: "execute_batch H ed pcs tr ctx txs = Ok (tr', t)" and k: "k < length (instructions t)"
  obtains trk tr2 rest where "trie_run H tr (exec_ops H ed (trie_get tr) (take k (instructions t))) = Some trk"
    "states t ! k = \<lparr>state_root = mt_root trk, pc = of_nat k\<rparr>"
    "apply_step H ed trk (instructions t ! k) = Ok (tr2, state_root (states t ! Suc k))"
    "pc (states t ! Suc k) = of_nat (Suc k)"
    "map_exec H ed (trie_get tr) (take k (instructions t)) = Ok (trie_get trk)"
    "exec_ops H ed (trie_get tr) (instructions t)
      = exec_ops H ed (trie_get tr) (take k (instructions t)) @ step_ops H ed trk (instructions t ! k)
        @ rest"
    "\<exists>rs. run_steps H ed tr (take k (instructions t)) = Ok (trk, rs)"
proof -
  obtain css roots where "is": "instructions t = concat css"
    and r: "run_steps H ed tr (instructions t) = Ok (tr', roots)"
    and st: "states t = machine_start (mt_root tr) # states_from 0 roots"
    using execute_batch_steps [OF exec] by metis
  obtain trk tr2 where rk: "run_steps H ed tr (take k (instructions t)) = Ok (trk, take k roots)"
    and a: "apply_step H ed trk (instructions t ! k) = Ok (tr2, roots ! k)"
    by (rule run_steps_nth [OF r k])
  have len: "length roots = length (instructions t)" by (rule length_run_steps [OF r])
  have root: "mt_root trk = last (mt_root tr # take k roots)" by (rule run_steps_root [OF rk])
  have sk: "states t ! k = \<lparr>state_root = mt_root trk, pc = of_nat k\<rparr>"
    using k len unfolding st root
    by (cases k) (simp_all add: machine_start_def states_from_nth take_Suc_conv_app_nth)
  have ssk: "states t ! Suc k = \<lparr>state_root = roots ! k, pc = of_nat (Suc k)\<rparr>"
    using k len by (simp add: st states_from_nth)
  have ops: "exec_ops H ed (trie_get tr) (instructions t)
      = exec_ops H ed (trie_get tr) (take k (instructions t)) @ exec_ops H ed (trie_get trk) (drop k (instructions t))"
    using exec_ops_append [OF run_steps_map [OF rk], of "drop k (instructions t)"] by simp
  moreover have "drop k (instructions t) = instructions t ! k # drop (Suc k) (instructions t)"
    using k by (simp add: Cons_nth_drop_Suc)
  moreover have "\<exists>rest. exec_ops H ed (trie_get trk) (i # is) = step_ops H ed trk i @ rest" for i "is"
    by (auto simp: step_ops_def split: result.split)
  ultimately obtain rest where "exec_ops H ed (trie_get tr) (instructions t)
      = exec_ops H ed (trie_get tr) (take k (instructions t)) @ step_ops H ed trk (instructions t ! k) @ rest"
    by metis
  with that [OF run_steps_trie_run [OF rk] sk _ _ run_steps_map [OF rk]] a ssk rk show thesis by simp
qed

lemma trace_reachable:
  assumes "trie_run H trie_new ops = Some tr" "execute_batch H ed pcs tr ctx txs = Ok (tr', t)"
    and k: "k < length (instructions t)"
  obtains ops' trk tr2 where "trie_run H trie_new ops' = Some trk"
    "states t ! k = \<lparr>state_root = mt_root trk, pc = of_nat k\<rparr>"
    "apply_step H ed trk (instructions t ! k) = Ok (tr2, state_root (states t ! Suc k))"
    "pc (states t ! Suc k) = of_nat (Suc k)"
    "map_exec H ed (trie_get tr) (take k (instructions t)) = Ok (trie_get trk)"
    "history_nodes H SE (ops' @ step_ops H ed trk (instructions t ! k))
      \<subseteq> history_nodes H SE (ops @ exec_ops H ed (trie_get tr) (instructions t))"
    "\<exists>rs. run_steps H ed tr (take k (instructions t)) = Ok (trk, rs)"
proof -
  obtain trk tr2 rest where s: "trie_run H tr (exec_ops H ed (trie_get tr) (take k (instructions t))) = Some trk"
    "states t ! k = \<lparr>state_root = mt_root trk, pc = of_nat k\<rparr>"
    "apply_step H ed trk (instructions t ! k) = Ok (tr2, state_root (states t ! Suc k))"
    "pc (states t ! Suc k) = of_nat (Suc k)"
    "map_exec H ed (trie_get tr) (take k (instructions t)) = Ok (trie_get trk)"
    and ops: "exec_ops H ed (trie_get tr) (instructions t)
      = exec_ops H ed (trie_get tr) (take k (instructions t)) @ step_ops H ed trk (instructions t ! k) @ rest"
    and rs: "\<exists>rs. run_steps H ed tr (take k (instructions t)) = Ok (trk, rs)"
    by (rule trace_step [OF assms(2) k])
  show thesis
  proof (rule that [OF _ s(2-5) _ rs])
    show "trie_run H trie_new (ops @ exec_ops H ed (trie_get tr) (take k (instructions t))) = Some trk"
      using assms(1) s(1) by (simp add: trie_run_append)
    show "history_nodes H SE ((ops @ exec_ops H ed (trie_get tr) (take k (instructions t)))
        @ step_ops H ed trk (instructions t ! k))
      \<subseteq> history_nodes H SE (ops @ exec_ops H ed (trie_get tr) (instructions t))"
      unfolding ops append_assoc [symmetric] by (subst history_nodes_append [of _ _ _ rest]) blast
  qed
qed

lemma verify_step_Ok_checks:
  "verify_step H ed pre i w = Ok s \<Longrightarrow> sw_slot w = slot H i \<and> check_witness H (state_root pre) w = Ok ()"
  by (auto simp: verify_step_def Let_def and_then_Ok_iff map_err_Ok_iff split: if_splits)

lemma pc_in_range:
  assumes "Suc k < 2 ^ 64"
  shows "saturating_add (of_nat k :: u64) 1 = of_nat (Suc k)"
proof -
  have "unat (of_nat (Suc k) :: u64) = Suc k" "unat (of_nat k :: u64) = k"
    using assms by (simp_all add: unat_of_nat_small del: of_nat_Suc)
  then have "checked_add (of_nat k :: u64) 1 = Some (of_nat (Suc k))"
    by (simp add: checked_add_Some_iff del: of_nat_Suc)
  then show ?thesis by (simp add: saturating_add_def)
qed

lemma trace_shape:
  assumes "execute_batch H ed pcs tr ctx txs = Ok (tr', t)"
  shows "length (states t) = Suc (length (instructions t))" "states t ! 0 = machine_start (mt_root tr)"
    "state_root (last (states t)) = mt_root tr'"
proof -
  obtain css roots where r: "run_steps H ed tr (instructions t) = Ok (tr', roots)"
    and st: "states t = machine_start (mt_root tr) # states_from 0 roots"
    using execute_batch_steps [OF assms] by metis
  show "length (states t) = Suc (length (instructions t))" using length_run_steps [OF r] by (simp add: st)
  show "states t ! 0 = machine_start (mt_root tr)" by (simp add: st)
  show "state_root (last (states t)) = mt_root tr'"
  proof (cases "roots = []")
    case True
    then show ?thesis using run_steps_root [OF r] by (simp add: st machine_start_def)
  next
    case False
    then have "states_from 0 roots \<noteq> []" using length_states_from [of 0 roots] by (metis length_0_conv)
    with False run_steps_root [OF r] show ?thesis by (simp add: st last_conv_nth states_from_nth)
  qed
qed

lemma trace_root_run:
  assumes e: "execute_batch H ed pcs tr ctx txs = Ok (tr', t)" and k: "k \<le> length (instructions t)"
  shows "\<exists>trk rest. trie_run H tr (exec_ops H ed (trie_get tr) (take k (instructions t))) = Some trk
    \<and> state_root (states t ! k) = mt_root trk
    \<and> exec_ops H ed (trie_get tr) (instructions t) = exec_ops H ed (trie_get tr) (take k (instructions t)) @ rest"
proof (cases "k < length (instructions t)")
  case True
  then show ?thesis by (rule trace_step [OF e]) auto
next
  case False
  then have k: "k = length (instructions t)" using k by simp
  obtain roots where r: "run_steps H ed tr (instructions t) = Ok (tr', roots)" using execute_batch_steps [OF e] by metis
  have "states t ! k = last (states t)" using trace_shape(1) [OF e] k by (subst last_conv_nth) auto
  then show ?thesis using run_steps_trie_run [OF r] trace_shape(3) [OF e] k by simp
qed

lemma trace_pc:
  assumes "execute_batch H ed pcs tr ctx txs = Ok (tr', t)" "k \<le> length (instructions t)"
  shows "pc (states t ! k) = of_nat k"
proof -
  obtain css roots where r: "run_steps H ed tr (instructions t) = Ok (tr', roots)"
    and st: "states t = machine_start (mt_root tr) # states_from 0 roots"
    using execute_batch_steps [OF assms(1)] by metis
  show ?thesis using assms(2) length_run_steps [OF r]
    by (cases k) (simp_all add: st machine_start_def states_from_nth)
qed

text \<open>The witness built by replaying the batch up to a step proves that step.\<close>

lemma honest_trace_step:
  assumes run: "trie_run H trie_new ops = Some tr" and exec: "execute_batch H ed pcs tr ctx txs = Ok (tr', t)"
    and len: "length (instructions t) < 2 ^ 64" and k: "k < length (instructions t)"
    and cf: "collision_free H (history_nodes H SE (ops @ exec_ops H ed (trie_get tr) (instructions t)))"
  obtains trk rs w where "run_steps H ed tr (take k (instructions t)) = Ok (trk, rs)"
    "honest_witness H trk (instructions t ! k) = Some w"
    "verify_step H ed (states t ! k) (instructions t ! k) w = Ok (states t ! Suc k)"
proof -
  obtain ops' trk tr2 where t: "trie_run H trie_new ops' = Some trk"
    "states t ! k = \<lparr>state_root = mt_root trk, pc = of_nat k\<rparr>"
    "apply_step H ed trk (instructions t ! k) = Ok (tr2, state_root (states t ! Suc k))"
    "pc (states t ! Suc k) = of_nat (Suc k)"
    and sub: "history_nodes H SE (ops' @ step_ops H ed trk (instructions t ! k))
      \<subseteq> history_nodes H SE (ops @ exec_ops H ed (trie_get tr) (instructions t))"
    and rs: "\<exists>rs. run_steps H ed tr (take k (instructions t)) = Ok (trk, rs)"
    by (rule trace_reachable [OF run exec k]) blast
  note rep = trie_run_rep_ops [OF t(1) collision_free_mono [OF cf sub]]
  have "\<exists>w. honest_witness H trk (instructions t ! k) = Some w
      \<and> verify_step H ed (states t ! k) (instructions t ! k) w = Ok (states t ! Suc k)"
    using honest_step [OF rep(1) _ rep(2), of "states t ! k"] t(2-4) len k
    by (cases "states t ! Suc k") (auto simp: pc_in_range)
  with rs that show thesis by blast
qed

text \<open>Any witness that passes the check leads to the recorded state and nowhere else.\<close>

lemma checked_trace_step:
  assumes run: "trie_run H trie_new ops = Some tr" and exec: "execute_batch H ed pcs tr ctx txs = Ok (tr', t)"
    and len: "length (instructions t) < 2 ^ 64" and k: "k < length (instructions t)"
    and chk: "sw_slot w = slot H (instructions t ! k)" "check_witness H (state_root (states t ! k)) w = Ok ()"
    and cf: "collision_free H (history_nodes H SE (ops @ exec_ops H ed (trie_get tr) (instructions t))
        \<union> proof_nodes H (sw_slot w) (sw_proof w))"
    and pre: "map_exec H ed (trie_get tr) (take k (instructions t)) = Ok m"
    and vals: "\<forall>v v'. m (sw_slot w) = Some v \<longrightarrow> sw_value w = Some v' \<longrightarrow> H v = H v' \<longrightarrow> v = v'"
  shows "verify_step H ed (states t ! k) (instructions t ! k) w = Ok (states t ! Suc k)"
proof -
  obtain ops' trk tr2 where t: "trie_run H trie_new ops' = Some trk"
    "states t ! k = \<lparr>state_root = mt_root trk, pc = of_nat k\<rparr>"
    "apply_step H ed trk (instructions t ! k) = Ok (tr2, state_root (states t ! Suc k))"
    "pc (states t ! Suc k) = of_nat (Suc k)"
    "map_exec H ed (trie_get tr) (take k (instructions t)) = Ok (trie_get trk)"
    and sub: "history_nodes H SE (ops' @ step_ops H ed trk (instructions t ! k))
      \<subseteq> history_nodes H SE (ops @ exec_ops H ed (trie_get tr) (instructions t))"
    by (rule trace_reachable [OF run exec k]) blast
  have cf1: "collision_free H (history_nodes H SE (ops' @ step_ops H ed trk (instructions t ! k)))"
    and cf2: "collision_free H (history_nodes H SE (ops' @ step_ops H ed trk (instructions t ! k))
      \<union> proof_nodes H (slot H (instructions t ! k)) (sw_proof w))"
    using sub chk(1) by (auto intro!: collision_free_mono [OF cf])
  note rep = trie_run_rep_ops [OF t(1) cf1]
  have "verify_step H ed (states t ! k) (instructions t ! k) w =
    and_then (apply_step H ed trk (instructions t ! k))
      (\<lambda>(_, root). Ok \<lparr>state_root = root, pc = saturating_add (pc (states t ! k)) 1\<rparr>)"
    using chk vals t(2,5) pre by (intro checked_step [OF rep(1) _ rep(2) _ _ cf2]) auto
  then show ?thesis using t(2-4) len k by (cases "states t ! Suc k") (auto simp: pc_in_range)
qed

lemma run_steps_complete:
  "trie_rep H N tr t \<Longrightarrow> history_nodes H t (exec_ops H ed (trie_get tr) is) \<subseteq> N \<Longrightarrow>
   map_exec H ed (trie_get tr) is = Ok m \<Longrightarrow> \<exists>r. run_steps H ed tr is = Ok r"
proof (induction "is" arbitrary: tr t)
  case (Cons i "is")
  then obtain v where v: "transition ed i (trie_get tr (slot H i)) = Ok v"
    and m: "map_exec H ed ((trie_get tr)(slot H i \<mapsto> v)) is = Ok m"
    by (auto simp: and_then_Ok_iff)
  let ?t = "st_insert 0 (slot H i) (hash_value H v) t"
  have sub: "history_nodes H ?t (exec_ops H ed ((trie_get tr)(slot H i \<mapsto> v)) is) \<subseteq> N"
    using Cons.prems(2) v by simp
  have "tree_nodes H ?t \<subseteq> N" using sub history_nodes_start by blast
  then obtain tr' where ins: "trie_insert H tr (slot H i) v = Some (tr', mt_root tr')" and rep: "trie_rep H N tr' ?t"
    by (rule trie_rep_insert [OF Cons.prems(1)])
  from Cons.IH [OF rep] sub m obtain r where "run_steps H ed tr' is = Ok r"
    by (auto simp: trie_insert_get [OF ins] simp del: fun_upd_apply)
  with v ins show ?case by (cases r) (simp add: apply_step_def)
qed simp

section \<open>Supply and nonces\<close>

definition total_supply :: "hasher \<Rightarrow> state_map \<Rightarrow> l2address set \<Rightarrow> asset_id \<Rightarrow> nat" where
  "total_supply H m A x = (\<Sum>a\<in>A. unat (balance (acct H m a) x))"

definition touched_accounts :: "instruction list \<Rightarrow> l2address set" where
  "touched_accounts is = {a. AccountSlot a \<in> slot_of ` set is}"

lemma sum_only:
  "finite A \<Longrightarrow> b \<in> A \<Longrightarrow> (\<Sum>a\<in>A. if b = a \<and> P then n else 0) = (if P then n else (0 :: nat))"
  by (cases P) (simp_all add: sum.delta)

lemma takes_total:
  assumes "finite A" "touched_accounts is \<subseteq> A" "i \<in> set is"
  shows "(\<Sum>a\<in>A. takes i a x) = debits i x" "(\<Sum>a\<in>A. gives i a x) = credits i x"
proof -
  have "a \<in> A" if "slot_of i = AccountSlot a" for a
    using that assms by (force simp: touched_accounts_def)
  then have "(\<Sum>a\<in>A. takes i a x) = debits i x \<and> (\<Sum>a\<in>A. gives i a x) = credits i x"
    using assms(1) by (cases i) (simp_all add: sum_only)
  then show "(\<Sum>a\<in>A. takes i a x) = debits i x" "(\<Sum>a\<in>A. gives i a x) = credits i x" by auto
qed

lemma sum_sum_list: "(\<Sum>a\<in>A. \<Sum>i\<leftarrow>is. f i a) = (\<Sum>i\<leftarrow>is. \<Sum>a\<in>A. f i a :: nat)"
  by (induction "is") (simp_all add: sum.distrib)

lemma exec_supply:
  assumes ex: "map_exec H ed m is = Ok m'" and A: "finite A" "touched_accounts is \<subseteq> A"
    and inj: "inj_on (slot_key H) (AccountSlot ` A \<union> slot_of ` set is)"
  shows "total_supply H m' A x + (\<Sum>i\<leftarrow>is. debits i x) = total_supply H m A x + (\<Sum>i\<leftarrow>is. credits i x)"
proof -
  have "inj_on (slot_key H) (insert (AccountSlot a) (slot_of ` set is))" if "a \<in> A" for a
    by (rule inj_on_subset [OF inj]) (use that in auto)
  with exec_effect(2) [OF ex] have "(\<Sum>a\<in>A. unat (balance (acct H m' a) x) + (\<Sum>i\<leftarrow>is. takes i a x))
      = (\<Sum>a\<in>A. unat (balance (acct H m a) x) + (\<Sum>i\<leftarrow>is. gives i a x))"
    by (intro sum.cong) auto
  moreover have "(\<Sum>i\<leftarrow>is. \<Sum>a\<in>A. takes i a x) = (\<Sum>i\<leftarrow>is. debits i x)"
    "(\<Sum>i\<leftarrow>is. \<Sum>a\<in>A. gives i a x) = (\<Sum>i\<leftarrow>is. credits i x)"
    using takes_total [OF A] by (auto intro!: arg_cong [of _ _ sum_list])
  ultimately show ?thesis by (simp add: total_supply_def sum.distrib sum_sum_list)
qed

lemma compiled_balances:
  "list_all2 (\<lambda>tx c. compile H ed pcs tx ctx = Ok c) txs css \<Longrightarrow>
   (\<Sum>i\<leftarrow>concat css. credits i x) + (\<Sum>tx\<leftarrow>txs. burned tx x) = (\<Sum>i\<leftarrow>concat css. debits i x)"
proof (induction rule: list_all2_induct)
  case (Cons tx txs c css)
  with compile_balance [OF Cons(1), of x] show ?case by simp
qed simp

lemma compiled_advances:
  "list_all2 (\<lambda>tx c. compile H ed pcs tx ctx = Ok c) txs css \<Longrightarrow>
   (\<Sum>i\<leftarrow>concat css. advances i a) = length (filter (\<lambda>tx. tx_sender tx = a) txs)"
proof (induction rule: list_all2_induct)
  case (Cons tx txs c css)
  with compile_advances [OF Cons(1), of a] show ?case by simp
qed simp

text \<open>A compiled transaction runs only on a state in which the sender's nonce is the transaction's.\<close>

lemma compiled_nonce:
  assumes c: "compile H ed pcs tx ctx = Ok c" and ex: "map_exec H ed m (c @ js) = Ok m'"
    and inj: "inj_on (slot_key H) (insert (AccountSlot (tx_sender tx)) (slot_of ` set c))"
  shows "nonce (acct H m (tx_sender tx)) = tx_nonce tx"
proof -
  obtain charge pl where cc: "c = compiled tx ctx charge pl" by (rule compile_Ok [OF c])
  define pre where "pre = (case tx_authenticator tx of
        Keyless sig \<Rightarrow> [VerifyJwk (ks_iss_hash sig) (ks_jwk_hash sig)] | Ed25519 _ _ \<Rightarrow> [])"
  obtain rest where c': "c @ js = pre @ ConsumeNonce (tx_sender tx) (tx_nonce tx) # rest" and sub: "set pre \<subseteq> set c"
    unfolding cc compiled_def pre_def by auto
  from ex obtain m1 where m1: "map_exec H ed m pre = Ok m1"
    and m2: "map_exec H ed m1 (ConsumeNonce (tx_sender tx) (tx_nonce tx) # rest) = Ok m'"
    unfolding c' map_exec_append by (auto simp: and_then_Ok_iff)
  have "inj_on (slot_key H) (insert (AccountSlot (tx_sender tx)) (slot_of ` set pre))"
    by (rule inj_on_subset [OF inj]) (use sub in auto)
  from exec_effect(1) [OF m1 this] have "nonce (acct H m (tx_sender tx)) = nonce (acct H m1 (tx_sender tx))"
    by (auto simp: pre_def word_unat_eq_iff split: authenticator.splits)
  moreover obtain x where "decode_account (m1 (account_key H (tx_sender tx))) = Ok x" "nonce x = tx_nonce tx"
    using m2 by (auto simp: and_then_Ok_iff split: if_splits)
  ultimately show ?thesis by (simp add: decode_account_acct)
qed

lemma compiled_consumes:
  assumes "compile H ed pcs tx ctx = Ok c"
  shows "ConsumeNonce (tx_sender tx) (tx_nonce tx) \<in> set c"
  by (rule compile_Ok [OF assms]) (simp add: compiled_def)

definition sent_by :: "l2address \<Rightarrow> transaction list \<Rightarrow> nat" where
  "sent_by a txs = length (filter (\<lambda>tx. tx_sender tx = a) txs)"

lemma batch_nonce:
  assumes c: "list_all2 (\<lambda>tx c. compile H ed pcs tx ctx = Ok c) txs css"
    and ex: "map_exec H ed m (concat css) = Ok m'" and k: "k < length txs"
    and inj: "inj_on (slot_key H) (slot_of ` set (concat css))"
  shows "unat (tx_nonce (txs ! k)) = unat (nonce (acct H m (tx_sender (txs ! k)))) + sent_by (tx_sender (txs ! k)) (take k txs)"
proof -
  let ?a = "tx_sender (txs ! k)"
  have len: "length css = length txs" using c by (simp add: list_all2_lengthD)
  have ck: "compile H ed pcs (txs ! k) ctx = Ok (css ! k)" using list_all2_nthD [OF c k] .
  have split: "concat css = concat (take k css) @ css ! k @ concat (drop (Suc k) css)"
    using k len id_take_nth_drop [of k css] by (metis concat.simps(2) concat_append)
  from ex obtain m1 where m1: "map_exec H ed m (concat (take k css)) = Ok m1"
    and m2: "map_exec H ed m1 (css ! k @ concat (drop (Suc k) css)) = Ok m'"
    unfolding split map_exec_append [of _ _ _ "concat (take k css)"] by (auto simp: and_then_Ok_iff)
  have a: "AccountSlot ?a \<in> slot_of ` set (css ! k)" using compiled_consumes [OF ck] by force
  have "insert (AccountSlot ?a) (slot_of ` set (concat (take k css))) \<subseteq> slot_of ` set (concat css)"
    "insert (AccountSlot ?a) (slot_of ` set (css ! k)) \<subseteq> slot_of ` set (concat css)"
    using a unfolding split by auto
  note inj1 = inj_on_subset [OF inj this(1)] and inj2 = inj_on_subset [OF inj this(2)]
  show ?thesis
    using exec_effect(1) [OF m1 inj1] compiled_advances [OF list_all2_takeI [OF c, of k], of ?a]
      compiled_nonce [OF ck m2 inj2]
    by (simp add: sent_by_def)
qed

lemma sent_by_less:
  assumes "j < k" "k < length txs" "tx_sender (txs ! j) = a"
  shows "sent_by a (take j txs) < sent_by a (take k txs)"
proof -
  have "take k txs = take j txs @ txs ! j # drop (Suc j) (take k txs)"
    using id_take_nth_drop [of j "take k txs"] assms by (simp add: min_def)
  then have "sent_by a (take k txs) = sent_by a (take j txs @ txs ! j # drop (Suc j) (take k txs))" by simp
  then show ?thesis using assms(3) by (simp add: sent_by_def)
qed

section \<open>A concrete batch\<close>

text \<open>
  One executable batch of one transaction, for the witnesses.  The hash function is concrete:
  it maps the four slots the transaction touches to keys that differ in their first two bits,
  stored values to a constant, and nodes to small numbers without collision.
\<close>

definition demo_key :: "hash256 \<Rightarrow> hash256" where
  "demo_key n = push_bit 254 n"

definition demo_hash :: hasher where
  "demo_hash bs =
     (if length bs = 97 then 10 * from_be (take 32 (drop 29 bs)) + from_be (drop 65 bs)
      else if length bs = 93 then drop_bit 254 (from_be (take 32 (drop 25 bs))) + 1
      else if length bs = 61 then 0
      else if length bs = 28 then demo_key 1
      else if length bs = 35 then demo_key 2
      else if length bs = 74 then demo_key 3
      else if length bs = 73 then
        (if (from_be (take 32 (drop 29 bs)) :: hash256) = 99 then 99 else ucast (from_be (drop 65 bs) :: u64))
      else if length bs = 209 then ucast (from_be (drop 193 bs) :: u128) + 1
      else 3)"

lemma demo_nodes [simp]:
  "node_hash demo_hash (Internal l r) = 10 * l + r"
  "node_hash demo_hash (Leaf k v) = drop_bit 254 k + 1"
  by (simp_all add: demo_hash_def node_hash_def commit_def digest_def
      node_preimage.simps enc_new_def enc_field_def push_framed_def domain_defs from_be_to_be)

lemma demo_slots [simp]:
  "slot_key demo_hash (AccountSlot a) = 0"
  "slot_key demo_hash FeeMarketSlot = demo_key 1"
  "slot_key demo_hash (AssetSlot x) = demo_key 2"
  "slot_key demo_hash (IdentifierSlot s) = demo_key 3"
  by (simp_all add: slot_key_def demo_hash_def frames_def push_framed_def region_lengths)

lemma demo_commitment [simp]: "commitment demo_hash s = (if state_root s = 99 then 99 else ucast (pc s))"
  by (simp add: commitment_def commit_def digest_def demo_hash_def machine_preimage_def enc_u64_def enc_new_def
      enc_field_def push_framed_def domain_defs from_be_to_be)

definition demo_account :: "u64 \<Rightarrow> u128 \<Rightarrow> account" where
  "demo_account n b = \<lparr>nonce = n, balances = [(1, b)]\<rparr>"

definition demo_asset :: whitelisted_asset where
  "demo_asset = \<lparr>wa_asset = 1, wa_symbol = [], wa_rate = 1000000, wa_intrinsic_gas = 10000, wa_enabled = True\<rparr>"

definition demo_tx :: transaction where
  "demo_tx = \<lparr>tx_sender = FEE_VAULT, tx_nonce = 0, tx_fee_asset = 1, tx_fee_rate = 1000000,
     tx_fee_intrinsic_gas = 10000, tx_gas_limit = 51000, tx_max_fee_per_gas = 25000000000,
     tx_max_priority_fee_per_gas = 0, tx_payload = PBindIdentifier Email 5, tx_authenticator = Ed25519 FEE_VAULT 3\<rparr>"

definition demo_instrs :: "instruction list" where
  "demo_instrs = [ConsumeNonce FEE_VAULT 0, VerifyGasAsset 1 1000000 10000,
     ChargeBaseFee 60 DEFAULT_BASE_FEE_FLOOR 51000, Debit FEE_VAULT 1 1275, BindIdentifier 5 FEE_VAULT,
     Credit FEE_VAULT 1 1275]"

lemma demo_settle:
  "settle 51000 51000 25000000000 0 DEFAULT_BASE_FEE_FLOOR 1000000
    = Ok \<lparr>fc_gas_used = 51000, fc_hold = 1275, fc_refund = 0, fc_tip = 0, fc_base = 1275\<rparr>"
  by (simp add: settle_def MAX_GAS_LIMIT_def native_to_asset_def total_price_def DEFAULT_BASE_FEE_FLOOR_def
     checked_mul_def checked_add_def checked_sub_def RATE_SCALE_def PRICE_SCALE_def Let_def)

lemma demo_compile: "compile demo_hash sample_ed [] demo_tx (without_keyless 60) = Ok demo_instrs"
  by (simp add: compile_def demo_tx_def without_keyless_def wire_limits_def tx_encode_def MAX_TRANSACTION_BYTES_def
    authenticate_def verify_ed25519_strict_def sample_ed_def charge_and_payload_def gas_used_def checked_add_def
    INTRINSIC_GAS_def demo_settle settle_credits_def demo_instrs_def)

definition demo_state :: state_map where
  "demo_state = [0 \<mapsto> account_encode (demo_account 0 1300), demo_key 2 \<mapsto> asset_encode demo_asset]"

definition demo_market :: fee_market where
  "demo_market = (fee_market_genesis DEFAULT_BASE_FEE_FLOOR DEFAULT_GAS_TARGET)\<lparr>fm_window_ts := 60, fm_window_gas := 51000\<rparr>"

lemma demo_decode [simp]: "b \<noteq> 0 \<Longrightarrow> decode_account (Some (account_encode (demo_account n b))) = Ok (demo_account n b)"
  by (rule account_store_decode)
    (simp_all add: account_store_def demo_account_def account_inv_def bmap_wf_def)

lemma demo_asset_decode: "asset_decode (asset_encode demo_asset) = Ok demo_asset"
proof -
  have "asset_wf demo_asset" "length (asset_encode demo_asset) < 2 ^ 63"
    by (simp_all add: asset_wf_def demo_asset_def utf8_valid.simps asset_encode_def w_string_def w_bytes_def)
  from assetc.parse_all_wr [OF this] show ?thesis by (simp add: asset_decode_def)
qed

lemma demo_distinct [simp]:
  "0 \<noteq> demo_key 1" "0 \<noteq> demo_key 2" "0 \<noteq> demo_key 3"
  "demo_key 1 \<noteq> 0" "demo_key 2 \<noteq> 0" "demo_key 3 \<noteq> 0"
  "demo_key 1 \<noteq> demo_key 2" "demo_key 1 \<noteq> demo_key 3" "demo_key 2 \<noteq> demo_key 3"
  "demo_key 2 \<noteq> demo_key 1" "demo_key 3 \<noteq> demo_key 1" "demo_key 3 \<noteq> demo_key 2"
  by (simp_all add: demo_key_def)

lemma demo_account_ops [simp]:
  "debit (demo_account n 1300) 1 1275 = Ok (demo_account n 25)"
  "credit (demo_account n 25) 1 1275 = Ok (demo_account n 1300)"
  "account_store (demo_account n b) = Ok (account_encode (demo_account n b))"
  "nonce (demo_account n b) = n"
  "demo_account n b\<lparr>nonce := k\<rparr> = demo_account k b"
  by (simp_all add: debit_def credit_def demo_account_def balance_def checked_sub_def checked_add_def account_store_def)

lemma demo_rolled:
  "market_at (fee_market_genesis DEFAULT_BASE_FEE_FLOOR DEFAULT_GAS_TARGET) 60
    = Ok ((fee_market_genesis DEFAULT_BASE_FEE_FLOOR DEFAULT_GAS_TARGET)\<lparr>fm_window_ts := 60\<rparr>)"
  by (simp add: market_at_def fee_market_genesis_def next_base_fee_def checked_mul_def checked_sub_def
      DEFAULT_BASE_FEE_FLOOR_def DEFAULT_GAS_TARGET_def BASE_FEE_CHANGE_DENOMINATOR_def Let_def)

lemma demo_charge:
  "charge_base_fee 60 DEFAULT_BASE_FEE_FLOOR 51000 None = Ok (market_encode demo_market)"
  using demo_rolled
  by (simp add: charge_base_fee_def decode_fee_market_def demo_market_def fee_market_genesis_def
      window_limit_def saturating_mul_def checked_mul_def checked_add_def DEFAULT_GAS_TARGET_def ELASTICITY_def)

lemma demo_exec:
  "\<exists>m. map_exec demo_hash sample_ed demo_state demo_instrs = Ok m"
  "exec_ops demo_hash sample_ed demo_state demo_instrs =
    [OpInsert 0 (account_encode (demo_account 1 1300)), OpInsert (demo_key 2) (asset_encode demo_asset),
     OpInsert (demo_key 1) (market_encode demo_market), OpInsert 0 (account_encode (demo_account 1 25)),
     OpInsert (demo_key 3) (binding_encode (Bound FEE_VAULT)), OpInsert 0 (account_encode (demo_account 1 1300))]"
proof -
  have "wa_rate demo_asset = 1000000" "wa_intrinsic_gas demo_asset = 10000" "wa_enabled demo_asset"
    by (simp_all add: demo_asset_def)
  then show "\<exists>m. map_exec demo_hash sample_ed demo_state demo_instrs = Ok m"
    "exec_ops demo_hash sample_ed demo_state demo_instrs =
    [OpInsert 0 (account_encode (demo_account 1 1300)), OpInsert (demo_key 2) (asset_encode demo_asset),
     OpInsert (demo_key 1) (market_encode demo_market), OpInsert 0 (account_encode (demo_account 1 25)),
     OpInsert (demo_key 3) (binding_encode (Bound FEE_VAULT)), OpInsert 0 (account_encode (demo_account 1 1300))]"
    by (simp_all add: demo_instrs_def slot_slot_key demo_state_def demo_charge verify_gas_asset_def demo_asset_decode
        checked_add_def del: slot.simps)
qed

definition demo_ops :: "trie_op list" where
  "demo_ops = [OpInsert 0 (account_encode (demo_account 0 1300)), OpInsert (demo_key 2) (asset_encode demo_asset)]"

lemma demo_values [simp]:
  "hash_value demo_hash (account_encode (demo_account n b)) = 3"
  "hash_value demo_hash (asset_encode demo_asset) = 3"
  "hash_value demo_hash (market_encode m) = 3"
  "hash_value demo_hash (binding_encode (Bound a)) = 3"
  by (simp_all add: hash_value_def digest_def demo_hash_def account_encode_def demo_account_def w_balance_def
     asset_encode_def demo_asset_def w_string_def w_bytes_def market_encode_def)

lemma demo_bits [simp]:
  "\<not> hash_bit 0 0" "\<not> hash_bit 0 1"
  "\<not> hash_bit (demo_key 1) 0" "hash_bit (demo_key 1) 1"
  "hash_bit (demo_key 2) 0" "\<not> hash_bit (demo_key 2) 1"
  "hash_bit (demo_key 3) 0" "hash_bit (demo_key 3) 1"
  by (simp_all add: hash_bit_eq demo_key_def bit_push_bit_iff)

lemma demo_key_drop [simp]:
  "drop_bit 254 (demo_key 1) = 1" "drop_bit 254 (demo_key 2) = 2" "drop_bit 254 (demo_key 3) = 3"
  by (simp_all add: demo_key_def)

lemma demo_splits [simp]:
  "st_split 0 (demo_key 2) 3 0 3 = SN (SL 0 3) (SL (demo_key 2) 3)"
  "st_split (Suc 0) (demo_key 1) 3 0 3 = SN (SL 0 3) (SL (demo_key 1) 3)"
  "st_split (Suc 0) (demo_key 3) 3 (demo_key 2) 3 = SN (SL (demo_key 2) 3) (SL (demo_key 3) 3)"
  by (subst st_split.simps, use demo_bits in \<open>simp add: MAX_DEPTH_def\<close>)+

lemma demo_history:
  "history_nodes demo_hash SE (demo_ops @ exec_ops demo_hash sample_ed demo_state demo_instrs) =
    {Leaf 0 3, Leaf (demo_key 1) 3, Leaf (demo_key 2) 3, Leaf (demo_key 3) 3,
     Internal 1 3, Internal 1 2, Internal 12 3, Internal 3 4, Internal 12 34}"
proof -
  note b = demo_bits [unfolded One_nat_def]
  show ?thesis
   unfolding demo_exec demo_ops_def
  by (simp add: b del: binding_encode.simps) blast
qed

lemma demo_collision_free:
  "collision_free demo_hash (history_nodes demo_hash SE (demo_ops @ exec_ops demo_hash sample_ed demo_state demo_instrs))"
  unfolding demo_history collision_free_iff by (simp add: ZERO_def)


definition demo_witness :: step_witness where
  "demo_witness = \<lparr>sw_slot = 0, sw_value = Some (account_encode (demo_account 0 1300)),
     sw_proof = \<lparr>siblings = [3], terminal = TLeaf 0 3\<rparr>\<rparr>"

lemma demo_witness_nodes:
  "collision_free demo_hash (history_nodes demo_hash SE (demo_ops @ exec_ops demo_hash sample_ed demo_state demo_instrs)
      \<union> proof_nodes demo_hash (sw_slot demo_witness) (sw_proof demo_witness))"
proof -
  have "proof_nodes demo_hash (sw_slot demo_witness) (sw_proof demo_witness)
      \<subseteq> history_nodes demo_hash SE (demo_ops @ exec_ops demo_hash sample_ed demo_state demo_instrs)"
    using demo_bits by (simp add: demo_history demo_witness_def proof_nodes_def terminal_hash_def)
  then show ?thesis using demo_collision_free by (simp add: Un_absorb2)
qed

lemma demo_verify:
  "verify_step demo_hash sample_ed (machine_start 13) (ConsumeNonce FEE_VAULT 0) demo_witness
    = Ok \<lparr>state_root = 13, pc = 1\<rparr>"
  using demo_bits
  by (simp add: verify_step_def slot_slot_key demo_witness_def check_witness_def machine_start_def
      verify_inclusion_def verify_inclusion_hashed_def reconstruct_root_def terminal_hash_def MAX_DEPTH_def
      off_path_def checked_add_def compute_updated_root_def saturating_add_def del: slot.simps)

lemma demo_start:
  obtains tr where "trie_run demo_hash trie_new demo_ops = Some tr" "trie_get tr = demo_state" "mt_root tr = 13"
proof -
  let ?N = "history_nodes demo_hash SE (demo_ops @ exec_ops demo_hash sample_ed demo_state demo_instrs)"
  have "history_nodes demo_hash SE demo_ops \<subseteq> ?N" by (simp add: history_nodes_append)
  from trie_run_rep [OF trie_rep_new [OF demo_collision_free] this] obtain tr where
    tr: "trie_run demo_hash trie_new demo_ops = Some tr" "trie_get tr = foldl map_step (trie_get trie_new) demo_ops"
    by blast
  have "trie_get trie_new = Map.empty" by (simp add: fun_eq_iff trie_new_def trie_get_def)
  with tr(2) have "trie_get tr = demo_state" by (simp add: demo_ops_def demo_state_def)
  moreover have "mt_root tr = 13"
    using trie_run_rep_ops(1) [OF tr(1) demo_collision_free] by (auto simp: trie_rep_def demo_ops_def)
  ultimately show thesis using tr(1) that by blast
qed

lemma demo_roots:
  assumes tr: "trie_run demo_hash trie_new demo_ops = Some tr" "trie_get tr = demo_state"
    and e: "execute_batch demo_hash sample_ed [] tr ctx txs = Ok (tr', t)" "instructions t = demo_instrs"
    and k: "k \<le> length (instructions t)"
  shows "state_root (states t ! k) \<noteq> 99"
proof -
  let ?N = "history_nodes demo_hash SE (demo_ops @ exec_ops demo_hash sample_ed demo_state demo_instrs)"
  obtain trk rest where trk: "trie_run demo_hash tr (exec_ops demo_hash sample_ed demo_state (take k demo_instrs)) = Some trk"
    "state_root (states t ! k) = mt_root trk"
    "exec_ops demo_hash sample_ed demo_state demo_instrs = exec_ops demo_hash sample_ed demo_state (take k demo_instrs) @ rest"
    using trace_root_run [OF e(1) k] tr e by metis
  have run: "trie_run demo_hash trie_new (demo_ops @ exec_ops demo_hash sample_ed demo_state (take k demo_instrs)) = Some trk"
    using tr(1) trk(1) by (simp add: trie_run_append)
  have N: "?N = history_nodes demo_hash SE ((demo_ops @ exec_ops demo_hash sample_ed demo_state (take k demo_instrs)) @ rest)"
    using trk(3) by simp
  from trie_run_rep_ops(1) [OF run demo_collision_free [unfolded N]] obtain tree where
    rep: "trie_rep demo_hash ?N trk tree" unfolding N by blast
  then have "tree_nodes demo_hash tree \<subseteq> ?N" unfolding trie_rep_def by (metis holds_tree_nodes)
  moreover have "mt_root trk = root_of demo_hash tree" using rep by (simp add: trie_rep_def)
  ultimately show ?thesis unfolding demo_history trk(2) by (cases tree) (auto simp: ZERO_def)
qed

lemma demo_batch:
  obtains tr tr' t where "trie_run demo_hash trie_new demo_ops = Some tr"
    "execute_batch demo_hash sample_ed [] tr (without_keyless 60) [demo_tx] = Ok (tr', t)"
    "instructions t = demo_instrs" "trie_get tr = demo_state" "states t ! 0 = machine_start 13"
proof -
  obtain tr where tr: "trie_run demo_hash trie_new demo_ops = Some tr" and st: "trie_get tr = demo_state" "mt_root tr = 13"
    by (rule demo_start)
  note rep = trie_run_rep_ops [OF tr demo_collision_free]
  from run_steps_complete [OF rep(1)] rep(2) demo_exec(1) st(1) obtain tr' roots where
    "run_steps demo_hash sample_ed tr demo_instrs = Ok (tr', roots)" by (metis surj_pair)
  then have "\<exists>t. execute_batch demo_hash sample_ed [] tr (without_keyless 60) [demo_tx] = Ok (tr', t)
      \<and> instructions t = demo_instrs \<and> states t ! 0 = machine_start (mt_root tr)"
    unfolding execute_batch_def run_transactions_steps using demo_compile by (auto simp: list_all2_Cons1)
  with tr st that show thesis by auto
qed

section \<open>Properties\<close>

text \<open>
  C7.  An honest execution can be defended step by step.  The trace of an executed batch
  starts at the batch's pre-state, holds one more state than instructions, ends at the
  post-state, and for every recorded instruction there is a witness with which the stateless
  verifier reproduces the recorded successor state.
\<close>

theorem trace_provable:
  assumes run: "trie_run H trie_new ops = Some tr" and exec: "execute_batch H ed pcs tr ctx txs = Ok (tr', t)"
    and len: "length (instructions t) < 2 ^ 64" and k: "k < length (instructions t)"
    and cf: "collision_free H (history_nodes H SE (ops @ exec_ops H ed (trie_get tr) (instructions t)))"
  shows "length (states t) = Suc (length (instructions t)) \<and> states t ! 0 = machine_start (mt_root tr)
    \<and> state_root (last (states t)) = mt_root tr'
    \<and> (\<exists>w. verify_step H ed (states t ! k) (instructions t ! k) w = Ok (states t ! Suc k))"
  using trace_shape [OF exec] honest_trace_step [OF run exec len k cf] by metis

theorem trace_provable_witness:
  "\<exists>tr tr' t w. trie_run demo_hash trie_new demo_ops = Some tr
     \<and> execute_batch demo_hash sample_ed [] tr (without_keyless 60) [demo_tx] = Ok (tr', t)
     \<and> length (states t) = 7
     \<and> verify_step demo_hash sample_ed (states t ! 3) (Debit FEE_VAULT 1 1275) w = Ok (states t ! 4)"
proof -
  obtain tr tr' t where b: "trie_run demo_hash trie_new demo_ops = Some tr"
    "execute_batch demo_hash sample_ed [] tr (without_keyless 60) [demo_tx] = Ok (tr', t)"
    "instructions t = demo_instrs" "trie_get tr = demo_state"
    by (rule demo_batch)
  have "length demo_instrs = 6" "demo_instrs ! 3 = Debit FEE_VAULT 1 1275" by (simp_all add: demo_instrs_def)
  with trace_provable [OF b(1,2), of 3] b demo_collision_free show ?thesis by force
qed

text \<open>
  C6.  No false step can be proven against an honest execution: at every instruction of the
  trace the verifier accepts no witness that leads to any state but the recorded one.
\<close>

theorem trace_unforgeable:
  assumes run: "trie_run H trie_new ops = Some tr" and exec: "execute_batch H ed pcs tr ctx txs = Ok (tr', t)"
    and len: "length (instructions t) < 2 ^ 64" and k: "k < length (instructions t)"
    and acc: "verify_step H ed (states t ! k) (instructions t ! k) w = Ok s"
    and cf: "collision_free H (history_nodes H SE (ops @ exec_ops H ed (trie_get tr) (instructions t))
        \<union> proof_nodes H (sw_slot w) (sw_proof w))"
    and pre: "map_exec H ed (trie_get tr) (take k (instructions t)) = Ok m"
    and vals: "\<forall>v v'. m (sw_slot w) = Some v \<longrightarrow> sw_value w = Some v' \<longrightarrow> H v = H v' \<longrightarrow> v = v'"
  shows "s = states t ! Suc k"
proof -
  note chk = verify_step_Ok_checks [OF acc]
  from checked_trace_step [OF run exec len k conjunct1 [OF chk] conjunct2 [OF chk] cf pre vals] acc
  show ?thesis by simp
qed

theorem trace_unforgeable_witness:
  "\<exists>tr tr' t. trie_run demo_hash trie_new demo_ops = Some tr
     \<and> execute_batch demo_hash sample_ed [] tr (without_keyless 60) [demo_tx] = Ok (tr', t)
     \<and> verify_step demo_hash sample_ed (states t ! 0) (ConsumeNonce FEE_VAULT 0) demo_witness = Ok (states t ! 1)"
proof -
  obtain tr tr' t where b: "trie_run demo_hash trie_new demo_ops = Some tr"
    "execute_batch demo_hash sample_ed [] tr (without_keyless 60) [demo_tx] = Ok (tr', t)"
    "instructions t = demo_instrs" "trie_get tr = demo_state" "states t ! 0 = machine_start 13"
    by (rule demo_batch)
  have i: "length demo_instrs = 6" "demo_instrs ! 0 = ConsumeNonce FEE_VAULT 0" by (simp_all add: demo_instrs_def)
  have acc: "verify_step demo_hash sample_ed (states t ! 0) (instructions t ! 0) demo_witness
      = Ok \<lparr>state_root = 13, pc = 1\<rparr>"
    unfolding b i by (rule demo_verify)
  note cf = demo_witness_nodes [folded b(3,4)]
  have "map_exec demo_hash sample_ed (trie_get tr) (take 0 (instructions t)) = Ok demo_state" by (simp add: b)
  from trace_unforgeable [OF b(1,2) _ _ acc cf this] b acc i show ?thesis
    by (auto simp: demo_state_def demo_witness_def)
qed

text \<open>
  C5.  Conservation of every asset.  Over any finite set of accounts that holds the accounts
  a batch touches, the total of an asset after the batch plus what its fee distributions burn
  is the total before it.  So a batch without a distribution neither mints nor destroys
  anything: transfers, fee holds, refunds, tips and base fees only move balances.
\<close>

theorem supply_conserved:
  assumes exec: "execute_batch H ed pcs tr ctx txs = Ok (tr', t)"
    and A: "finite A" "touched_accounts (instructions t) \<subseteq> A"
    and inj: "inj_on (slot_key H) (AccountSlot ` A \<union> slot_of ` set (instructions t))"
  shows "total_supply H (trie_get tr') A x + (\<Sum>tx\<leftarrow>txs. burned tx x) = total_supply H (trie_get tr) A x"
proof -
  obtain css roots where c: "list_all2 (\<lambda>tx c. compile H ed pcs tx ctx = Ok c) txs css"
    "instructions t = concat css" "run_steps H ed tr (concat css) = Ok (tr', roots)"
    by (rule execute_batch_steps [OF exec])
  from exec_supply [OF run_steps_map [OF c(3)], of A x] A inj compiled_balances [OF c(1), of x] c(2)
  show ?thesis by simp
qed

theorem supply_conserved_witness:
  "\<exists>tr tr' t. execute_batch demo_hash sample_ed [] tr (without_keyless 60) [demo_tx] = Ok (tr', t)
     \<and> total_supply demo_hash (trie_get tr) {FEE_VAULT} 1 = 1300
     \<and> total_supply demo_hash (trie_get tr') {FEE_VAULT} 1 = 1300"
proof -
  obtain tr tr' t where b:
    "execute_batch demo_hash sample_ed [] tr (without_keyless 60) [demo_tx] = Ok (tr', t)"
    "instructions t = demo_instrs" "trie_get tr = demo_state"
    by (rule demo_batch)
  have before: "total_supply demo_hash (trie_get tr) {FEE_VAULT} 1 = 1300"
    by (simp add: total_supply_def b(3) acct_def keys_slot_key demo_state_def) (simp add: balance_def demo_account_def)
  have "touched_accounts (instructions t) \<subseteq> {FEE_VAULT}"
    "inj_on (slot_key demo_hash) (AccountSlot ` {FEE_VAULT} \<union> slot_of ` set (instructions t))"
    by (auto simp: b(2) demo_instrs_def touched_accounts_def inj_on_def)
  from supply_conserved [OF b(1) _ this, of 1] b(1) before show ?thesis
    by (auto simp: burned_def demo_tx_def)
qed

text \<open>
  C34.  No transaction is ever replayed.  In an executed batch the \<open>k\<close>-th transaction carries
  exactly its sender's nonce before the batch plus the number of the sender's earlier
  transactions in it; afterwards the nonce has advanced by their number; so no two
  transactions of a batch share sender and nonce, and none executed before the batch's state
  was reached can execute again.
\<close>

theorem no_replay:
  assumes exec: "execute_batch H ed pcs tr ctx txs = Ok (tr', t)"
    and inj: "inj_on (slot_key H) (slot_of ` set (instructions t))"
  shows "(\<forall>k < length txs. unat (tx_nonce (txs ! k))
        = unat (nonce (acct H (trie_get tr) (tx_sender (txs ! k)))) + sent_by (tx_sender (txs ! k)) (take k txs))
    \<and> (\<forall>tx \<in> set txs. unat (nonce (acct H (trie_get tr') (tx_sender tx)))
        = unat (nonce (acct H (trie_get tr) (tx_sender tx))) + sent_by (tx_sender tx) txs)
    \<and> distinct (map (\<lambda>tx. (tx_sender tx, tx_nonce tx)) txs)"
proof -
  obtain css roots where c: "list_all2 (\<lambda>tx c. compile H ed pcs tx ctx = Ok c) txs css"
    "instructions t = concat css" "run_steps H ed tr (concat css) = Ok (tr', roots)"
    by (rule execute_batch_steps [OF exec])
  note m = run_steps_map [OF c(3)]
  note nonces = batch_nonce [OF c(1) m _ inj [unfolded c(2)]]
  have "unat (nonce (acct H (trie_get tr') (tx_sender tx)))
      = unat (nonce (acct H (trie_get tr) (tx_sender tx))) + sent_by (tx_sender tx) txs" if "tx \<in> set txs" for tx
  proof -
    obtain k where k: "k < length txs" "tx = txs ! k" using \<open>tx \<in> set txs\<close> by (metis in_set_conv_nth)
    then have "ConsumeNonce (tx_sender tx) (tx_nonce tx) \<in> set (concat css)"
      using compiled_consumes [OF list_all2_nthD [OF c(1) k(1)]] list_all2_lengthD [OF c(1)] nth_mem [of k css] by auto
    then have "AccountSlot (tx_sender tx) \<in> slot_of ` set (concat css)" by force
    with inj c(2) have "inj_on (slot_key H) (insert (AccountSlot (tx_sender tx)) (slot_of ` set (concat css)))"
      by (simp only: insert_absorb)
    from exec_effect(1) [OF m this] compiled_advances [OF c(1)] show ?thesis by (simp add: sent_by_def)
  qed
  moreover have "(tx_sender (txs ! j), tx_nonce (txs ! j)) \<noteq> (tx_sender (txs ! k), tx_nonce (txs ! k))"
    if "j < k" "k < length txs" for j k
    using nonces [of j] nonces [of k] sent_by_less [OF that] that by auto
  then have "distinct (map (\<lambda>tx. (tx_sender tx, tx_nonce tx)) txs)"
    by (auto simp: distinct_conv_nth) (metis nat_neq_iff)+
  ultimately show ?thesis using nonces by blast
qed

theorem no_replay_witness:
  "\<exists>tr tr' t. execute_batch demo_hash sample_ed [] tr (without_keyless 60) [demo_tx] = Ok (tr', t)
     \<and> nonce (acct demo_hash (trie_get tr) FEE_VAULT) = 0
     \<and> unat (nonce (acct demo_hash (trie_get tr') FEE_VAULT)) = 1"
proof -
  obtain tr tr' t where b:
    "execute_batch demo_hash sample_ed [] tr (without_keyless 60) [demo_tx] = Ok (tr', t)"
    "instructions t = demo_instrs" "trie_get tr = demo_state"
    by (rule demo_batch)
  have before: "nonce (acct demo_hash (trie_get tr) FEE_VAULT) = 0"
    by (simp add: b(3) acct_def keys_slot_key demo_state_def)
  have "inj_on (slot_key demo_hash) (slot_of ` set (instructions t))"
    by (auto simp: b(2) demo_instrs_def inj_on_def)
  from no_replay [OF b(1) this] b(1) before show ?thesis
    by (auto simp: demo_tx_def sent_by_def)
qed

end
