(* ===== verification/Light_Client.thy ===== *)
theory Light_Client
  imports Ledger
begin

text \<open>
  The mobile light client (\<open>sena-light-client\<close>): a handful of trusted roots, and the checks by
  which a client convinces itself of an account or a social binding from an untrusted node.
\<close>

section \<open>Model\<close>

datatype trust_level = TrustFinalized | TrustSoftConfirmed

record verified_account =
  va_address :: l2address
  va_height :: u64
  va_nonce :: u64
  va_balances :: "(asset_id, u128) btree_map"
  va_trust_level :: trust_level
  va_state_root :: hash256

definition va_balance :: "verified_account \<Rightarrow> asset_id \<Rightarrow> u128" where
  "va_balance va asset = (case bmap_get (va_balances va) asset of Some v \<Rightarrow> v | None \<Rightarrow> 0)"

definition is_finalized :: "verified_account \<Rightarrow> bool" where
  "is_finalized va \<longleftrightarrow> va_trust_level va = TrustFinalized"

record account_proof_payload =
  ap_address :: l2address
  ap_height :: u64
  ap_state_root :: hash256
  ap_nonce :: u64
  ap_balances :: "(u32 \<times> u128) list"
  ap_siblings :: "hash256 list"
  ap_terminal :: terminal
  ap_finalized :: bool

datatype light_client_error =
    UntrustedRoot hash256
  | LcProof proof_error
  | LcMalformedAccount balance_error
  | LcDuplicateAsset u32
  | LcZeroBalance u32

record light_client =
  lc_chain_id :: bytes
  lc_finalized_root :: hash256
  lc_soft_root :: "hash256 option"

definition light_client_new :: "bytes \<Rightarrow> hash256 \<Rightarrow> light_client" where
  "light_client_new chain_id root = \<lparr>lc_chain_id = chain_id, lc_finalized_root = root, lc_soft_root = None\<rparr>"

definition set_finalized_root :: "light_client \<Rightarrow> hash256 \<Rightarrow> light_client" where
  "set_finalized_root lc root = lc\<lparr>lc_finalized_root := root\<rparr>"

definition set_soft_root :: "light_client \<Rightarrow> hash256 option \<Rightarrow> light_client" where
  "set_soft_root lc root = lc\<lparr>lc_soft_root := root\<rparr>"

definition trust_level_of :: "light_client \<Rightarrow> hash256 \<Rightarrow> trust_level option" where
  "trust_level_of lc root =
     (if root = lc_finalized_root lc then Some TrustFinalized
      else if lc_soft_root lc = Some root then Some TrustSoftConfirmed
      else None)"

text \<open>The loop that rebuilds the ordered map from the payload's list.\<close>

fun collect_balances ::
    "(asset_id, u128) btree_map \<Rightarrow> (u32 \<times> u128) list \<Rightarrow> (light_client_error, (asset_id, u128) btree_map) result" where
  "collect_balances bals [] = Ok bals"
| "collect_balances bals ((asset, amount) # rest) =
     (if amount = 0 then Err (LcZeroBalance asset)
      else if bmap_get bals asset \<noteq> None then Err (LcDuplicateAsset asset)
      else collect_balances (bmap_insert asset amount bals) rest)"

text \<open>The check of the entry itself; encoding an account with too many balances panics.\<close>

definition check_entry ::
    "hasher \<Rightarrow> hash256 \<Rightarrow> l2address \<Rightarrow> u64 \<Rightarrow> (asset_id, u128) btree_map \<Rightarrow> merkle_proof \<Rightarrow> (light_client_error, unit) result" where
  "check_entry H root address n bals p =
     (let s = account_key H address in
      if n = 0 \<and> bals = [] then map_err LcProof (verify_non_inclusion H p root s)
      else if length bals < 2 ^ 32
      then map_err LcProof (verify_inclusion H p root s (account_encode \<lparr>nonce = n, balances = bals\<rparr>))
      else Panic)"

definition verify_account_proof ::
    "hasher \<Rightarrow> light_client \<Rightarrow> account_proof_payload \<Rightarrow> (light_client_error, verified_account) result" where
  "verify_account_proof H lc pay =
     and_then (ok_or (trust_level_of lc (ap_state_root pay)) (UntrustedRoot (ap_state_root pay))) (\<lambda>trust.
     and_then (collect_balances [] (ap_balances pay)) (\<lambda>bals.
     and_then (check_entry H (ap_state_root pay) (ap_address pay) (ap_nonce pay) bals
         \<lparr>siblings = ap_siblings pay, terminal = ap_terminal pay\<rparr>) (\<lambda>_.
       Ok \<lparr>va_address = ap_address pay, va_height = ap_height pay, va_nonce = ap_nonce pay, va_balances = bals,
           va_trust_level = trust, va_state_root = ap_state_root pay\<rparr>)))"

definition verify_social_binding ::
    "hasher \<Rightarrow> light_client \<Rightarrow> hash256 \<Rightarrow> l2address option \<Rightarrow> merkle_proof \<Rightarrow> hash256 \<Rightarrow> (light_client_error, trust_level) result" where
  "verify_social_binding H lc identifier expected p root =
     and_then (ok_or (trust_level_of lc root) (UntrustedRoot root)) (\<lambda>trust.
       let s = social_by_identifier H identifier in
       and_then
         (case expected of
            Some address \<Rightarrow> map_err LcProof (verify_inclusion H p root s (binding_encode (Bound address)))
          | None \<Rightarrow>
              (case verify_non_inclusion H p root s of
                 Err _ \<Rightarrow> map_err LcProof (verify_inclusion H p root s (binding_encode Vacant))
               | Ok _ \<Rightarrow> Ok ()
               | Panic \<Rightarrow> Panic))
         (\<lambda>_. Ok trust))"

definition verify_account_standalone ::
    "hasher \<Rightarrow> hash256 \<Rightarrow> l2address \<Rightarrow> u64 \<Rightarrow> (u32 \<times> u128) list \<Rightarrow> hash256 list \<Rightarrow> terminal
     \<Rightarrow> (light_client_error, (asset_id, u128) btree_map) result" where
  "verify_account_standalone H root address n bals sibs term =
     and_then (collect_balances [] bals) (\<lambda>m.
     and_then (check_entry H root address n m \<lparr>siblings = sibs, terminal = term\<rparr>) (\<lambda>_. Ok m))"

section \<open>Lemmas\<close>

lemma collect_balances_spec:
  "bmap_wf bals \<Longrightarrow> list_all (\<lambda>(_, v). v \<noteq> 0) bals \<Longrightarrow> collect_balances bals xs = Ok m \<Longrightarrow>
   bmap_wf m \<and> list_all (\<lambda>(_, v). v \<noteq> 0) m \<and> (\<forall>k. bmap_get m k = (case bmap_get bals k of Some v \<Rightarrow> Some v | None \<Rightarrow> map_of xs k))"
proof (induction bals xs rule: collect_balances.induct)
  case (2 bals asset amount rest)
  then have new: "amount \<noteq> 0" "bmap_get bals asset = None" and c: "collect_balances (bmap_insert asset amount bals) rest = Ok m"
    by (auto split: if_splits)
  have "list_all (\<lambda>(_, v). v \<noteq> 0) (bmap_insert asset amount bals)"
    using 2(3) new(1) by (induction asset amount bals rule: bmap_insert.induct) auto
  with "2.IH" [OF _ _ _ _ c] "2.prems"(1) new show ?case
    by (auto simp: bmap_wf_insert bmap_get_insert split: option.splits)
qed (auto split: option.splits)

lemma collect_balances_complete:
  assumes "bmap_wf (bals @ xs)" "list_all (\<lambda>(_, v). v \<noteq> 0) xs"
  shows "collect_balances bals xs = Ok (bals @ xs)"
  using assms
proof (induction xs arbitrary: bals)
  case (Cons x xs)
  obtain k v where x: "x = (k, v)" by (cases x)
  have lt: "\<forall>k' \<in> fst ` set bals. k' < k" and wf: "bmap_wf ((bals @ [(k, v)]) @ xs)" using Cons.prems(1) by (auto simp: x bmap_wf_append)
  have "bmap_get bals k = None" using lt by (auto simp: bmap_get_None_iff)
  with Cons.IH [OF wf] Cons.prems(2) show ?case by (simp add: x bmap_insert_last [OF lt])
qed simp

text \<open>An accepted entry is a checked witness for the account's slot.\<close>

lemma check_entry_witness:
  "check_entry H root address n bals p = Ok () \<longleftrightarrow>
     (n = 0 \<and> bals = [] \<or> length bals < 2 ^ 32)
     \<and> check_witness H root \<lparr>sw_slot = account_key H address,
       sw_value = (if n = 0 \<and> bals = [] then None else Some (account_encode \<lparr>nonce = n, balances = bals\<rparr>)), sw_proof = p\<rparr> = Ok ()"
  by (auto simp: check_entry_def check_witness_def Let_def map_err_Ok_iff)

lemma account_decode_Some:
  assumes "account_wf a"
  shows "decode_account (Some (account_encode a)) = Ok a"
  using account_store_decode [of a "account_encode a"] assms by (simp add: account_wf_def account_store_def)

text \<open>The payload an honest node serves for an account it holds.\<close>

definition honest_payload :: "merkle_trie \<Rightarrow> l2address \<Rightarrow> u64 \<Rightarrow> account \<Rightarrow> merkle_proof \<Rightarrow> account_proof_payload" where
  "honest_payload tr address height a p =
     \<lparr>ap_address = address, ap_height = height, ap_state_root = mt_root tr, ap_nonce = nonce a, ap_balances = balances a,
      ap_siblings = siblings p, ap_terminal = terminal p, ap_finalized = True\<rparr>"

text \<open>The account of the demonstration batch, before the batch.\<close>

definition demo_client :: light_client where
  "demo_client = light_client_new [] 13"

definition demo_payload :: account_proof_payload where
  "demo_payload = \<lparr>ap_address = FEE_VAULT, ap_height = 1, ap_state_root = 13, ap_nonce = 0, ap_balances = [(1, 1300)],
     ap_siblings = [3], ap_terminal = TLeaf 0 3, ap_finalized = True\<rparr>"

lemma demo_account_key: "account_key demo_hash a = 0"
  by (simp add: keys_slot_key)

lemma demo_payload_verifies:
  "verify_account_proof demo_hash demo_client demo_payload =
     Ok \<lparr>va_address = FEE_VAULT, va_height = 1, va_nonce = 0, va_balances = [(1, 1300)],
         va_trust_level = TrustFinalized, va_state_root = 13\<rparr>"
proof -
  have a: "account_encode \<lparr>nonce = 0, balances = [(1, 1300)]\<rparr> = account_encode (demo_account 0 1300)"
    by (simp add: demo_account_def)
  show ?thesis using demo_bits
    by (simp add: verify_account_proof_def demo_client_def light_client_new_def demo_payload_def trust_level_of_def
        check_entry_def demo_account_key a verify_inclusion_def verify_inclusion_hashed_def reconstruct_root_def
        terminal_hash_def MAX_DEPTH_def off_path_def)
qed

section \<open>Properties\<close>

text \<open>
  A light client is never lied to: if a payload from any node verifies against a trusted root
  that is the root of a state, then the account it shows is the account that state holds, nonce
  and every balance, or the state holds none and the account shown is empty; the balances come
  back as a well-formed account, and the trust level is the one of the root.
\<close>

lemma account_proof_sound:
  assumes run: "trie_run H trie_new ops = Some tr" and root: "ap_state_root pay = mt_root tr"
    and ok: "verify_account_proof H lc pay = Ok va"
    and cf: "collision_free H (history_nodes H SE ops \<union> proof_nodes H (account_key H (ap_address pay))
        \<lparr>siblings = ap_siblings pay, terminal = ap_terminal pay\<rparr>)"
    and vals: "\<forall>v. trie_get tr (account_key H (ap_address pay)) = Some v \<longrightarrow>
        H v = H (account_encode \<lparr>nonce = va_nonce va, balances = va_balances va\<rparr>) \<longrightarrow>
        v = account_encode \<lparr>nonce = va_nonce va, balances = va_balances va\<rparr>"
  shows "decode_account (trie_get tr (account_key H (ap_address pay))) = Ok \<lparr>nonce = va_nonce va, balances = va_balances va\<rparr>
    \<and> va_address va = ap_address pay \<and> va_state_root va = mt_root tr
    \<and> trust_level_of lc (mt_root tr) = Some (va_trust_level va)"
proof -
  let ?p = "\<lparr>siblings = ap_siblings pay, terminal = ap_terminal pay\<rparr>" and ?k = "account_key H (ap_address pay)"
  from ok obtain trust bals where t: "trust_level_of lc (mt_root tr) = Some trust"
    and c: "collect_balances [] (ap_balances pay) = Ok bals"
    and e: "check_entry H (mt_root tr) (ap_address pay) (ap_nonce pay) bals ?p = Ok ()"
    and va: "va = \<lparr>va_address = ap_address pay, va_height = ap_height pay, va_nonce = ap_nonce pay, va_balances = bals,
           va_trust_level = trust, va_state_root = ap_state_root pay\<rparr>"
    by (auto simp: verify_account_proof_def and_then_Ok_iff ok_or_Ok_iff root)
  let ?a = "\<lparr>nonce = ap_nonce pay, balances = bals\<rparr>" and ?empty = "ap_nonce pay = 0 \<and> bals = []"
  let ?w = "\<lparr>sw_slot = ?k, sw_value = (if ?empty then None else Some (account_encode ?a)), sw_proof = ?p\<rparr>"
  have chk: "check_witness H (mt_root tr) ?w = Ok ()" and len: "?empty \<or> length bals < 2 ^ 32"
    using e by (auto simp: check_entry_witness)
  have "bmap_wf bals \<and> list_all (\<lambda>(_, v). v \<noteq> 0) bals" using collect_balances_spec [OF _ _ c] by simp
  with len have wf: "account_wf ?a" by (auto simp: account_wf_def account_inv_def)
  have "collision_free H (history_nodes H SE (ops @ []))" using cf by (auto intro: collision_free_mono)
  note rep = trie_run_rep_ops(1) [OF run this]
  have "sw_value ?w = trie_get tr (sw_slot ?w)"
    by (rule check_witness_truth(2) [OF rep _ chk]) (use cf vals va in auto)
  then have "trie_get tr ?k = (if ?empty then None else Some (account_encode ?a))" by simp
  with account_decode_Some [OF wf] have "decode_account (trie_get tr ?k) = Ok ?a"
    by (auto simp: decode_account_def account_new_def)
  with va t root show ?thesis by simp
qed

text \<open>
  What an honest node serves verifies, with one exception.  For every account in the state the
  payload with its stored balances and the proof of its slot is accepted under a trusted root,
  unless the account is stored although it is empty: such a record, which a fee distribution
  leaves behind when it spends the whole fee vault, is refused as a key that should be absent.
\<close>

lemma account_proof_complete:
  assumes run: "trie_run H trie_new ops = Some tr" and cf: "collision_free H (history_nodes H SE ops)"
    and acc: "account_wf a" "trie_get tr (account_key H address) \<in> {Some (account_encode a)} \<union> (if a = account_new then {None} else {})"
    and pr: "prove tr (account_key H address) = Some p" and trust: "trust_level_of lc (mt_root tr) = Some level"
  shows "verify_account_proof H lc (honest_payload tr address height a p) =
    (if trie_get tr (account_key H address) = Some (account_encode account_new) then Err (LcProof KeyPresent)
     else Ok \<lparr>va_address = address, va_height = height, va_nonce = nonce a, va_balances = balances a,
       va_trust_level = level, va_state_root = mt_root tr\<rparr>)"
proof -
  let ?k = "account_key H address"
  have "collision_free H (history_nodes H SE (ops @ []))" using cf by simp
  note rep = trie_run_rep_ops(1) [OF run this]
  let ?t = "foldl (tree_step H) SE ops"
  obtain p' where "prove tr ?k = Some p'" "proof_for H p' ?k ?t" by (rule prove_proof_for [OF rep])
  with pr have pf: "proof_for H p ?k ?t" by simp
  have root: "mt_root tr = root_of H ?t" using rep by (simp add: trie_rep_def)
  note get = trie_rep_get [OF rep, of ?k]
  have col: "collect_balances [] (balances a) = Ok (balances a)"
    using collect_balances_complete [of "[]" "balances a"] acc(1) by (simp add: account_wf_def account_inv_def)
  have new: "a = account_new \<longleftrightarrow> nonce a = 0 \<and> balances a = []" by (cases a) (simp add: account_new_def)
  have inj: "account_encode a = account_encode account_new \<longleftrightarrow> a = account_new"
    using account_decode_Some [OF acc(1)] account_decode_Some [of account_new]
    by (auto simp: account_wf_def) (simp add: account_new_def)
  have e: "check_entry H (mt_root tr) address (nonce a) (balances a) p =
      (if trie_get tr ?k = Some (account_encode account_new) then Err (LcProof KeyPresent) else Ok ())"
  proof (cases "a = account_new")
    case True
    then have "check_entry H (mt_root tr) address (nonce a) (balances a) p = map_err LcProof (verify_non_inclusion H p (mt_root tr) ?k)"
      using new by (simp add: check_entry_def)
    moreover have "verify_non_inclusion H p (mt_root tr) ?k = (if trie_get tr ?k = None then Ok () else Err KeyPresent)"
      using get by (cases "trie_get tr ?k") (auto simp: root verify_non_inclusion_def proof_for_reconstruct [OF pf] proof_for_get [OF pf] split: terminal.splits if_splits)
    ultimately show ?thesis using acc(2) True by auto
  next
    case False
    then have v: "trie_get tr ?k = Some (account_encode a)" using acc(2) by simp
    have "verify_inclusion H p (mt_root tr) ?k (account_encode a) = Ok ()"
      using proof_for_verify_inclusion [OF pf] get v by (simp add: root verify_inclusion_def)
    moreover have eq: "\<lparr>nonce = nonce a, balances = balances a\<rparr> = a" by simp
    ultimately show ?thesis using False new inj v acc(1)
      unfolding check_entry_def Let_def eq by (auto simp: account_wf_def)
  qed
  have "\<lparr>siblings = siblings p, terminal = terminal p\<rparr> = p" by simp
  with e have "check_entry H (mt_root tr) address (nonce a) (balances a) \<lparr>siblings = siblings p, terminal = terminal p\<rparr> =
      (if trie_get tr ?k = Some (account_encode account_new) then Err (LcProof KeyPresent) else Ok ())" by metis
  then show ?thesis using trust col by (simp add: verify_account_proof_def honest_payload_def)
qed

end
