(* ===== verification/Mempool.thy ===== *)
theory Mempool
  imports Ledger "HOL-Library.Sublist"
begin

text \<open>
  Transaction admission (\<open>mempool.rs\<close>): a queue whose transactions have each been executed on
  the state the ones ahead of it leave, with the indexes that refuse duplicates, and the ways
  a batch is cut from its front.
\<close>

section \<open>Model\<close>

datatype reject_reason =
    Duplicate
  | Full
  | WouldNotExecute batch_error
  | NonceQueued u64

record mempool_tip =
  tip_roots :: "hash256 list"
  tip_state :: merkle_trie

record mempool =
  mp_queued :: "transaction list"
  mp_hashes :: "hash256 set"
  mp_tip :: "mempool_tip option"
  mp_claimed :: "(l2address, u64 list) btree_map"
  mp_capacity :: nat

definition mempool_new :: "nat \<Rightarrow> mempool" where
  "mempool_new capacity = \<lparr>mp_queued = [], mp_hashes = {}, mp_tip = None, mp_claimed = [], mp_capacity = capacity\<rparr>"

definition mempool_len :: "mempool \<Rightarrow> nat" where
  "mempool_len mp = length (mp_queued mp)"

definition mempool_is_empty :: "mempool \<Rightarrow> bool" where
  "mempool_is_empty mp \<longleftrightarrow> mp_queued mp = []"

text \<open>\<open>BTreeMap::entry(sender).or_default().push(nonce)\<close>\<close>

definition claim_nonce :: "(l2address, u64 list) btree_map \<Rightarrow> l2address \<Rightarrow> u64 \<Rightarrow> (l2address, u64 list) btree_map" where
  "claim_nonce claimed sender n =
     bmap_insert sender ((case bmap_get claimed sender of Some ns \<Rightarrow> ns | None \<Rightarrow> []) @ [n]) claimed"

definition reindex :: "hasher \<Rightarrow> mempool \<Rightarrow> mempool" where
  "reindex H mp = mp\<lparr>mp_hashes := set (map (tx_hash H) (mp_queued mp)),
     mp_claimed := foldl (\<lambda>claimed t. claim_nonce claimed (tx_sender t) (tx_nonce t)) [] (mp_queued mp)\<rparr>"

definition admit ::
    "hasher \<Rightarrow> ed25519 \<Rightarrow> width_constants list \<Rightarrow> merkle_trie \<Rightarrow> merkle_trie \<Rightarrow> batch_context \<Rightarrow> transaction
     \<Rightarrow> (batch_error, merkle_trie) result" where
  "admit H ed pcs base tip ctx tx =
     (let s = fee_market_key H;
          market = (case trie_get base s of
             None \<Rightarrow> market_encode (fee_market_genesis DEFAULT_BASE_FEE_FLOOR DEFAULT_GAS_TARGET)
           | Some bs \<Rightarrow> bs) in
      and_then (if trie_get tip s \<noteq> Some market
          then and_then (or_panic (trie_insert H tip s market)) (\<lambda>(nxt, _). Ok nxt) else Ok tip) (\<lambda>nxt.
      and_then (execute_batch H ed pcs nxt ctx [tx]) (\<lambda>(nxt', _). Ok nxt')))"

text \<open>The loop of \<open>tip_over\<close>: queued transactions that no longer execute are dropped.\<close>

fun rebuild ::
    "hasher \<Rightarrow> ed25519 \<Rightarrow> width_constants list \<Rightarrow> merkle_trie \<Rightarrow> batch_context \<Rightarrow> transaction list \<Rightarrow> mempool_tip
     \<Rightarrow> transaction list \<Rightarrow> ('e, mempool_tip \<times> transaction list) result" where
  "rebuild H ed pcs base ctx [] tip kept = Ok (tip, kept)"
| "rebuild H ed pcs base ctx (tx # txs) tip kept =
     (case admit H ed pcs base (tip_state tip) ctx tx of
        Ok nxt \<Rightarrow> rebuild H ed pcs base ctx txs \<lparr>tip_roots = tip_roots tip @ [mt_root nxt], tip_state = nxt\<rparr> (kept @ [tx])
      | Err _ \<Rightarrow> rebuild H ed pcs base ctx txs tip kept
      | Panic \<Rightarrow> Panic)"

definition tip_valid :: "mempool \<Rightarrow> merkle_trie \<Rightarrow> bool" where
  "tip_valid mp base =
     (case mp_tip mp of
        None \<Rightarrow> False
      | Some t \<Rightarrow> (case tip_roots t of [] \<Rightarrow> False | r # _ \<Rightarrow> r = mt_root base)
          \<and> length (tip_roots t) = length (mp_queued mp) + 1)"

definition tip_over ::
    "hasher \<Rightarrow> ed25519 \<Rightarrow> width_constants list \<Rightarrow> mempool \<Rightarrow> merkle_trie \<Rightarrow> batch_context
     \<Rightarrow> ('e, mempool \<times> mempool_tip) result" where
  "tip_over H ed pcs mp base ctx =
     and_then
       (if tip_valid mp base then Ok mp
        else and_then (rebuild H ed pcs base ctx (mp_queued mp)
            \<lparr>tip_roots = [mt_root base], tip_state = base\<rparr> []) (\<lambda>(tip, kept).
          Ok ((reindex H (mp\<lparr>mp_queued := kept\<rparr>))\<lparr>mp_tip := Some tip\<rparr>)))
       (\<lambda>mp'. and_then (or_panic (mp_tip mp')) (\<lambda>tip. Ok (mp', tip)))"

definition submit ::
    "hasher \<Rightarrow> ed25519 \<Rightarrow> width_constants list \<Rightarrow> mempool \<Rightarrow> merkle_trie \<Rightarrow> batch_context \<Rightarrow> transaction
     \<Rightarrow> mempool \<times> (reject_reason, hash256) result" where
  "submit H ed pcs mp base ctx tx =
     (let h = tx_hash H tx in
      if length (mp_queued mp) \<ge> mp_capacity mp then (mp, Err Full)
      else if h \<in> mp_hashes mp then (mp, Err Duplicate)
      else if (case bmap_get (mp_claimed mp) (tx_sender tx) of Some ns \<Rightarrow> tx_nonce tx \<in> set ns | None \<Rightarrow> False)
        then (mp, Err (NonceQueued (tx_nonce tx)))
      else
        (case tip_over H ed pcs mp base ctx of
           Ok (mp1, tip) \<Rightarrow>
             (case admit H ed pcs base (tip_state tip) ctx tx of
                Ok nxt \<Rightarrow>
                  (mp1\<lparr>mp_tip := Some \<lparr>tip_roots = tip_roots tip @ [mt_root nxt], tip_state = nxt\<rparr>,
                       mp_hashes := insert h (mp_hashes mp1),
                       mp_claimed := claim_nonce (mp_claimed mp1) (tx_sender tx) (tx_nonce tx),
                       mp_queued := mp_queued mp1 @ [tx]\<rparr>, Ok h)
              | Err e \<Rightarrow> (mp1, Err (WouldNotExecute e))
              | Panic \<Rightarrow> (mp1, Panic))
         | Err e \<Rightarrow> (mp, Err e)
         | Panic \<Rightarrow> (mp, Panic)))"

definition USIZE_MAX :: nat where
  "USIZE_MAX = 2 ^ 64 - 1"

text \<open>The loop of \<open>take_batch_within\<close>: how many of the transactions are taken.\<close>

fun count_within :: "nat \<Rightarrow> nat \<Rightarrow> nat \<Rightarrow> transaction list \<Rightarrow> nat" where
  "count_within max_bytes count sz [] = count"
| "count_within max_bytes count sz (tx # txs) =
     (let sz' = min (sz + length (tx_encode tx)) USIZE_MAX in
      if count > 0 \<and> sz' > max_bytes then count
      else count_within max_bytes (count + 1) sz' txs)"

definition unclaim :: "(l2address, u64 list) btree_map \<Rightarrow> transaction \<Rightarrow> (l2address, u64 list) btree_map" where
  "unclaim claimed tx =
     (case bmap_get claimed (tx_sender tx) of
        Some ns \<Rightarrow> bmap_insert (tx_sender tx) (filter (\<lambda>n. n \<noteq> tx_nonce tx) ns) claimed
      | None \<Rightarrow> claimed)"

definition take_batch_within ::
    "hasher \<Rightarrow> mempool \<Rightarrow> nat \<Rightarrow> nat \<Rightarrow> mempool \<times> ('e, transaction list) result" where
  "take_batch_within H mp limit max_bytes =
     (let count = count_within max_bytes 0 0 (take limit (mp_queued mp));
          taken = take count (mp_queued mp) in
      if (case mp_tip mp of Some t \<Rightarrow> length (tip_roots t) < count | None \<Rightarrow> False) then (mp, Panic)
      else
        (mp\<lparr>mp_queued := drop count (mp_queued mp),
            mp_tip := map_option (\<lambda>t. t\<lparr>tip_roots := drop count (tip_roots t)\<rparr>) (mp_tip mp),
            mp_hashes := foldl (\<lambda>hs t. hs - {tx_hash H t}) (mp_hashes mp) taken,
            mp_claimed := filter (\<lambda>(_, ns). ns \<noteq> []) (foldl unclaim (mp_claimed mp) taken)\<rparr>, Ok taken))"

definition take_batch :: "hasher \<Rightarrow> mempool \<Rightarrow> nat \<Rightarrow> mempool \<times> ('e, transaction list) result" where
  "take_batch H mp limit = take_batch_within H mp limit USIZE_MAX"

text \<open>
  The loop of \<open>take_batch_fitting\<close>: how long a prefix fits the gas limits.  The cap of an asset is
  computed by the caller's closure; \<open>None\<close> is a closure that panics.
\<close>

definition gas_need :: "hasher \<Rightarrow> transaction \<Rightarrow> u64" where
  "gas_need H tx = (case gas_required H tx of Ok g \<Rightarrow> g | _ \<Rightarrow> - 1)"

definition fits :: "hasher \<Rightarrow> u64 \<Rightarrow> (asset_id \<Rightarrow> u64 option) \<Rightarrow> u64 \<Rightarrow> u64 \<Rightarrow> transaction \<Rightarrow> bool option" where
  "fits H budget cap gas used tx =
     (case checked_add gas (gas_need H tx) of
        None \<Rightarrow> Some False
      | Some g \<Rightarrow>
          if g > budget then Some False
          else case checked_add used (gas_need H tx) of
              None \<Rightarrow> Some False
            | Some g' \<Rightarrow> map_option (\<lambda>c. g' \<le> c) (cap (tx_fee_asset tx)))"

fun count_fitting ::
    "hasher \<Rightarrow> u64 \<Rightarrow> (asset_id \<Rightarrow> u64 option) \<Rightarrow> u64 \<Rightarrow> (asset_id, u64) btree_map \<Rightarrow> nat \<Rightarrow> transaction list \<Rightarrow> nat option" where
  "count_fitting H budget cap gas per_asset fitting [] = Some fitting"
| "count_fitting H budget cap gas per_asset fitting (tx # txs) =
     (let need = gas_need H tx;
          used = (case bmap_get per_asset (tx_fee_asset tx) of Some g \<Rightarrow> g | None \<Rightarrow> 0) in
      case fits H budget cap gas used tx of
        None \<Rightarrow> None
      | Some False \<Rightarrow> Some fitting
      | Some True \<Rightarrow> count_fitting H budget cap (gas + need) (bmap_insert (tx_fee_asset tx) (used + need) per_asset)
          (fitting + 1) txs)"

definition take_batch_fitting ::
    "hasher \<Rightarrow> mempool \<Rightarrow> nat \<Rightarrow> nat \<Rightarrow> u64 \<Rightarrow> (asset_id \<Rightarrow> u64 option) \<Rightarrow> mempool \<times> ('e, transaction list) result" where
  "take_batch_fitting H mp limit max_bytes budget cap =
     (case count_fitting H budget cap 0 [] 0 (take limit (mp_queued mp)) of
        None \<Rightarrow> (mp, Panic)
      | Some fitting \<Rightarrow> take_batch_within H mp fitting max_bytes)"

definition mempool_clear :: "mempool \<Rightarrow> mempool" where
  "mempool_clear mp = mp\<lparr>mp_queued := [], mp_hashes := {}, mp_tip := None, mp_claimed := []\<rparr>"


section \<open>The indexes\<close>

lemma gas_required_not_Panic: "gas_required H tx \<noteq> Panic"
proof -
  have s: "sum_gas acc is \<noteq> Panic" for acc "is" by (induction "is" arbitrary: acc) (auto simp: result_simps)
  have "check_permitted u \<noteq> Panic" for u
    by (cases u) (auto simp: result_simps split_check_iff)
  then have "compile_payload H p sender \<noteq> Panic" for p sender
    by (cases "(H, p, sender)" rule: compile_payload.cases)
      (auto simp: result_simps compile_distribution_def shares_of_def)
  then show ?thesis by (auto simp: gas_required_def gas_used_def result_simps s Let_def)
qed

definition nonces_of :: "transaction list \<Rightarrow> l2address \<Rightarrow> u64 list" where
  "nonces_of q s = map tx_nonce (filter (\<lambda>t. tx_sender t = s) q)"

lemma nonces_of_simps [simp]:
  "nonces_of [] s = []" "nonces_of (q @ q') s = nonces_of q s @ nonces_of q' s"
  "nonces_of (t # q) s = (if tx_sender t = s then tx_nonce t # nonces_of q s else nonces_of q s)"
  by (simp_all add: nonces_of_def)

definition nonces_at :: "(l2address, u64 list) btree_map \<Rightarrow> l2address \<Rightarrow> u64 list" where
  "nonces_at c s = (case bmap_get c s of Some ns \<Rightarrow> ns | None \<Rightarrow> [])"

definition claims :: "(l2address, u64 list) btree_map \<Rightarrow> transaction list \<Rightarrow> bool" where
  "claims c q \<longleftrightarrow> bmap_wf c \<and> (\<forall>s. nonces_at c s = nonces_of q s)"

lemma nonces_at_insert: "nonces_at (bmap_insert k ns c) s = (if s = k then ns else nonces_at c s)"
  by (simp add: nonces_at_def bmap_get_insert)

lemma claims_nonce: "claims c q \<Longrightarrow> claims (claim_nonce c (tx_sender t) (tx_nonce t)) (q @ [t])"
  by (simp add: claims_def claim_nonce_def bmap_wf_insert nonces_at_insert flip: nonces_at_def)

lemma claims_foldl: "claims c q \<Longrightarrow> claims (foldl (\<lambda>c t. claim_nonce c (tx_sender t) (tx_nonce t)) c ts) (q @ ts)"
proof (induction ts arbitrary: c q)
  case (Cons t ts)
  from Cons.IH [OF claims_nonce [OF Cons.prems]] show ?case by simp
qed simp

lemma claims_Nil: "claims [] []"
  by (simp add: claims_def nonces_at_def)

text \<open>No two queued transactions share a hash, or a sender and nonce.\<close>

definition slot_of_tx :: "transaction \<Rightarrow> l2address \<times> u64" where
  "slot_of_tx t = (tx_sender t, tx_nonce t)"

lemma nonces_of_mem: "n \<in> set (nonces_of q s) \<longleftrightarrow> (s, n) \<in> slot_of_tx ` set q"
  by (auto simp: nonces_of_def slot_of_tx_def image_iff)

lemma claims_unclaim:
  assumes c: "claims c (t # q)" and d: "slot_of_tx t \<notin> slot_of_tx ` set q"
  shows "claims (unclaim c t) q"
proof -
  have "tx_nonce t \<notin> set (nonces_of q (tx_sender t))" using d by (simp add: nonces_of_mem slot_of_tx_def)
  then have f: "filter (\<lambda>n. n \<noteq> tx_nonce t) (nonces_of q (tx_sender t)) = nonces_of q (tx_sender t)"
    by (auto intro: filter_True)
  have at: "nonces_at c (tx_sender t) = tx_nonce t # nonces_of q (tx_sender t)" using c by (simp add: claims_def)
  then obtain ns where ns: "bmap_get c (tx_sender t) = Some ns" "ns = tx_nonce t # nonces_of q (tx_sender t)"
    by (cases "bmap_get c (tx_sender t)") (auto simp: nonces_at_def)
  have "nonces_at (unclaim c t) s = nonces_of q s" for s
    using c f by (simp add: claims_def unclaim_def ns nonces_at_insert)
  moreover have "bmap_wf (unclaim c t)" using c by (simp add: claims_def unclaim_def ns bmap_wf_insert)
  ultimately show ?thesis by (simp add: claims_def)
qed

lemma claims_drop:
  "claims c (taken @ rest) \<Longrightarrow> distinct (map slot_of_tx (taken @ rest)) \<Longrightarrow> claims (foldl unclaim c taken) rest"
proof (induction taken arbitrary: c)
  case (Cons t taken)
  have "claims (unclaim c t) (taken @ rest)" by (rule claims_unclaim) (use Cons.prems in auto)
  with Cons.IH Cons.prems(2) show ?case by simp
qed simp

lemma claims_retain: "claims c q \<Longrightarrow> claims (filter (\<lambda>(_, ns). ns \<noteq> []) c) q"
proof -
  assume c: "claims c q"
  then have wf: "bmap_wf c" by (simp add: claims_def)
  have "nonces_at (filter (\<lambda>(_, ns). ns \<noteq> []) c) s = nonces_at c s" for s
    by (auto simp: nonces_at_def bmap_get_filter [OF wf] split: option.split)
  with c bmap_wf_filter [OF wf] show ?thesis by (simp add: claims_def)
qed


section \<open>The admission trail\<close>

text \<open>
  Every queued transaction was executed on exactly the state the one before it left, starting
  from the state the queue builds on.
\<close>

definition trail :: "hasher \<Rightarrow> ed25519 \<Rightarrow> width_constants list \<Rightarrow> transaction list \<Rightarrow> mempool_tip \<Rightarrow> bool" where
  "trail H ed pcs q tip \<longleftrightarrow> (\<exists>sts. length sts = Suc (length q) \<and> tip_roots tip = map mt_root sts \<and> last sts = tip_state tip
     \<and> (\<forall>i < length q. \<exists>base ctx. admit H ed pcs base (sts ! i) ctx (q ! i) = Ok (sts ! Suc i)))"

lemma trail_start: "trail H ed pcs [] \<lparr>tip_roots = [mt_root base], tip_state = base\<rparr>"
  unfolding trail_def by (rule exI [of _ "[base]"]) simp

lemma trail_length: "trail H ed pcs q tip \<Longrightarrow> length (tip_roots tip) = Suc (length q)"
  by (auto simp: trail_def)

lemma trail_snoc:
  assumes t: "trail H ed pcs q tip" and a: "admit H ed pcs base (tip_state tip) ctx tx = Ok nxt"
  shows "trail H ed pcs (q @ [tx]) \<lparr>tip_roots = tip_roots tip @ [mt_root nxt], tip_state = nxt\<rparr>"
proof -
  from t obtain sts where s: "length sts = Suc (length q)" "tip_roots tip = map mt_root sts" "last sts = tip_state tip"
    "\<forall>i < length q. \<exists>base ctx. admit H ed pcs base (sts ! i) ctx (q ! i) = Ok (sts ! Suc i)"
    by (auto simp: trail_def)
  have last: "sts ! length q = tip_state tip" using s(1,3) by (metis diff_Suc_1 last_conv_nth length_0_conv nat.distinct(1))
  have "\<exists>base ctx. admit H ed pcs base ((sts @ [nxt]) ! i) ctx ((q @ [tx]) ! i) = Ok ((sts @ [nxt]) ! Suc i)"
    if "i < length (q @ [tx])" for i
    using that s(1,4) a last by (cases "i = length q") (auto simp: nth_append less_Suc_eq)
  with s show ?thesis unfolding trail_def by (intro exI [of _ "sts @ [nxt]"]) auto
qed

lemma trail_drop:
  assumes "trail H ed pcs q tip" "n \<le> length q"
  shows "trail H ed pcs (drop n q) (tip\<lparr>tip_roots := drop n (tip_roots tip)\<rparr>)"
proof -
  from assms(1) obtain sts where "length sts = Suc (length q)" "tip_roots tip = map mt_root sts" "last sts = tip_state tip"
    "\<forall>i < length q. \<exists>base ctx. admit H ed pcs base (sts ! i) ctx (q ! i) = Ok (sts ! Suc i)"
    by (auto simp: trail_def)
  with assms(2) show ?thesis unfolding trail_def by (intro exI [of _ "drop n sts"]) (auto simp: drop_map last_drop)
qed

lemma rebuild_trail:
  "rebuild H ed pcs base ctx txs tip kept = (Ok (tip', kept') :: ('e, _) result) \<Longrightarrow> trail H ed pcs kept tip \<Longrightarrow>
   trail H ed pcs kept' tip' \<and> (\<exists>zs. kept' = kept @ zs \<and> subseq zs txs) \<and> (\<exists>rs. tip_roots tip' = tip_roots tip @ rs)"
proof (induction txs arbitrary: tip kept)
  case (Cons tx txs)
  show ?case
  proof (cases "admit H ed pcs base (tip_state tip) ctx tx")
    case (Ok nxt)
    have "rebuild H ed pcs base ctx txs \<lparr>tip_roots = tip_roots tip @ [mt_root nxt], tip_state = nxt\<rparr> (kept @ [tx])
        = (result.Ok (tip', kept') :: ('e, _) result)" using Cons.prems(1) Ok by simp
    from Cons.IH [OF this trail_snoc [OF Cons.prems(2) Ok]] obtain zs rs where
      "trail H ed pcs kept' tip'" "kept' = kept @ tx # zs" "subseq zs txs" "tip_roots tip' = tip_roots tip @ mt_root nxt # rs"
      by auto
    then show ?thesis by auto
  next
    case (Err e)
    with Cons obtain zs rs where "trail H ed pcs kept' tip'" "kept' = kept @ zs" "subseq zs txs" "tip_roots tip' = tip_roots tip @ rs"
      by fastforce
    then show ?thesis by (auto intro: list_emb_Cons)
  qed (use Cons.prems in simp)
qed auto

text \<open>The invariant of the pool.\<close>

definition mempool_inv :: "hasher \<Rightarrow> ed25519 \<Rightarrow> width_constants list \<Rightarrow> mempool \<Rightarrow> bool" where
  "mempool_inv H ed pcs mp \<longleftrightarrow>
     mp_hashes mp = tx_hash H ` set (mp_queued mp) \<and> distinct (map (tx_hash H) (mp_queued mp))
     \<and> claims (mp_claimed mp) (mp_queued mp) \<and> distinct (map slot_of_tx (mp_queued mp))
     \<and> length (mp_queued mp) \<le> mp_capacity mp
     \<and> (\<forall>tip. mp_tip mp = Some tip \<longrightarrow> trail H ed pcs (mp_queued mp) tip)"

lemma mempool_inv_new: "mempool_inv H ed pcs (mempool_new capacity)"
  by (simp add: mempool_inv_def mempool_new_def claims_Nil)

lemma mempool_inv_clear: "mempool_inv H ed pcs (mempool_clear mp)"
  by (simp add: mempool_inv_def mempool_clear_def claims_Nil)

lemma distinct_subseq: "subseq xs ys \<Longrightarrow> distinct ys \<Longrightarrow> distinct xs"
  by (induction xs ys rule: list_emb.induct) (auto dest: list_emb_set)

lemma tip_over_inv:
  assumes inv: "mempool_inv H ed pcs mp" and t: "tip_over H ed pcs mp base ctx = Ok (mp', tip)"
  shows "mempool_inv H ed pcs mp'" "mp_tip mp' = Some tip" "trail H ed pcs (mp_queued mp') tip"
    "hd (tip_roots tip) = mt_root base" "subseq (mp_queued mp') (mp_queued mp)" "mp_capacity mp' = mp_capacity mp"
proof -
  have "mempool_inv H ed pcs mp' \<and> mp_tip mp' = Some tip \<and> trail H ed pcs (mp_queued mp') tip
    \<and> hd (tip_roots tip) = mt_root base \<and> subseq (mp_queued mp') (mp_queued mp) \<and> mp_capacity mp' = mp_capacity mp"
  proof (cases "tip_valid mp base")
    case True
    with t have "mp' = mp" "mp_tip mp = Some tip" by (auto simp: tip_over_def result_simps split: option.splits)
    with inv True show ?thesis by (auto simp: mempool_inv_def tip_valid_def split: list.splits)
  next
    case False
    with t obtain kept where r: "rebuild H ed pcs base ctx (mp_queued mp) \<lparr>tip_roots = [mt_root base], tip_state = base\<rparr> []
        = (Ok (tip, kept) :: ('a, _) result)"
      and mp': "mp' = (reindex H (mp\<lparr>mp_queued := kept\<rparr>))\<lparr>mp_tip := Some tip\<rparr>"
      by (auto simp: tip_over_def result_simps)
    from rebuild_trail [OF r trail_start] have k: "trail H ed pcs kept tip" "subseq kept (mp_queued mp)"
      "\<exists>rs. tip_roots tip = mt_root base # rs" by auto
    have "claims (foldl (\<lambda>c t. claim_nonce c (tx_sender t) (tx_nonce t)) [] kept) kept"
      using claims_foldl [OF claims_Nil, of kept] by simp
    with k inv subseq_map [OF k(2), of "tx_hash H"] subseq_map [OF k(2), of slot_of_tx] list_emb_length [OF k(2)]
    show ?thesis by (auto simp: mp' reindex_def mempool_inv_def intro: distinct_subseq)
  qed
  then show "mempool_inv H ed pcs mp'" "mp_tip mp' = Some tip" "trail H ed pcs (mp_queued mp') tip"
    "hd (tip_roots tip) = mt_root base" "subseq (mp_queued mp') (mp_queued mp)" "mp_capacity mp' = mp_capacity mp"
    by auto
qed


lemma submit_inv:
  assumes inv: "mempool_inv H ed pcs mp" and s: "submit H ed pcs mp base ctx tx = (mp', r)" "r \<noteq> Panic"
  shows "mempool_inv H ed pcs mp'"
proof -
  consider "mp' = mp" | mp1 tip where "tip_over H ed pcs mp base ctx = (Ok (mp1, tip) :: (reject_reason, _) result)" "mp' = mp1"
    | mp1 tip nxt where "tip_over H ed pcs mp base ctx = (Ok (mp1, tip) :: (reject_reason, _) result)"
        "admit H ed pcs base (tip_state tip) ctx tx = Ok nxt"
        "length (mp_queued mp) < mp_capacity mp" "tx_hash H tx \<notin> mp_hashes mp" "tx_nonce tx \<notin> set (nonces_at (mp_claimed mp) (tx_sender tx))"
        "mp' = mp1\<lparr>mp_tip := Some \<lparr>tip_roots = tip_roots tip @ [mt_root nxt], tip_state = nxt\<rparr>,
                       mp_hashes := insert (tx_hash H tx) (mp_hashes mp1),
                       mp_claimed := claim_nonce (mp_claimed mp1) (tx_sender tx) (tx_nonce tx),
                       mp_queued := mp_queued mp1 @ [tx]\<rparr>"
    using s by (auto simp: submit_def Let_def nonces_at_def split: if_splits result.splits prod.splits option.splits)
  then show ?thesis
  proof cases
    case 1
    with inv show ?thesis by simp
  next
    case 2
    with tip_over_inv(1) [OF inv] show ?thesis by blast
  next
    case 3
    note t = tip_over_inv [OF inv 3(1)]
    have sub: "set (mp_queued mp1) \<subseteq> set (mp_queued mp)" using t(5) by (auto dest: list_emb_set)
    have "tx_hash H tx \<notin> tx_hash H ` set (mp_queued mp1)" using 3(4) inv sub by (auto simp: mempool_inv_def)
    moreover have "slot_of_tx tx \<notin> slot_of_tx ` set (mp_queued mp)"
      using 3(5) inv by (simp add: mempool_inv_def claims_def nonces_of_mem slot_of_tx_def)
    then have "slot_of_tx tx \<notin> slot_of_tx ` set (mp_queued mp1)" using sub by auto
    moreover have "length (mp_queued mp1) < mp_capacity mp1" using 3(3) t(6) list_emb_length [OF t(5)] by simp
    ultimately show ?thesis
      using t(1) trail_snoc [OF t(3) 3(2)] claims_nonce unfolding 3(6) by (auto simp: mempool_inv_def)
  qed
qed

section \<open>Cutting a batch\<close>

lemma count_within_bounds: "count \<le> count_within mx count sz txs" "count_within mx count sz txs \<le> count + length txs"
  by (induction mx count sz txs rule: count_within.induct) (auto simp: Let_def)

definition queue_bytes :: "transaction list \<Rightarrow> nat" where
  "queue_bytes txs = (\<Sum>t\<leftarrow>txs. length (tx_encode t))"

lemma queue_bytes_simps [simp]: "queue_bytes [] = 0" "queue_bytes (t # ts) = length (tx_encode t) + queue_bytes ts"
  by (simp_all add: queue_bytes_def)

lemma count_within_bytes:
  "0 < count \<Longrightarrow> sz \<le> mx \<Longrightarrow>
   min (sz + queue_bytes (take (count_within mx count sz txs - count) txs)) USIZE_MAX \<le> mx"
proof (induction mx count sz txs rule: count_within.induct)
  case (2 mx count sz tx txs)
  define sz' where "sz' = min (sz + length (tx_encode tx)) USIZE_MAX"
  show ?case
  proof (cases "sz' > mx")
    case True
    then have "count_within mx count sz (tx # txs) = count" using "2.prems"(1) by (simp add: sz'_def Let_def)
    with "2.prems"(2) show ?thesis by simp
  next
    case False
    let ?n = "count_within mx (count + 1) sz' txs"
    have n: "count_within mx count sz (tx # txs) = ?n" "count + 1 \<le> ?n"
      using False by (auto simp: sz'_def Let_def count_within_bounds(1))
    then have "?n - count = Suc (?n - (count + 1))" by simp
    moreover have "min (sz' + queue_bytes (take (?n - (count + 1)) txs)) USIZE_MAX \<le> mx"
      by (rule "2.IH" [OF sz'_def]) (use False in simp_all)
    ultimately have "min (sz' + queue_bytes (take (?n - (count + 1)) txs)) USIZE_MAX \<le> mx"
      "take (?n - count) (tx # txs) = tx # take (?n - (count + 1)) txs" by simp_all
    then show ?thesis unfolding n(1) by (simp add: sz'_def min_def split: if_splits)
  qed
qed simp

lemma count_within_first:
  "count_within mx 0 0 txs \<le> 1 \<or> min (queue_bytes (take (count_within mx 0 0 txs) txs)) USIZE_MAX \<le> mx"
proof (cases txs)
  case (Cons tx ts)
  define sz' where "sz' = min (length (tx_encode tx)) USIZE_MAX"
  have n: "count_within mx 0 0 txs = count_within mx 1 sz' ts" by (simp add: Cons sz'_def Let_def)
  show ?thesis
  proof (cases "sz' \<le> mx")
    case True
    let ?n = "count_within mx 1 sz' ts"
    obtain m where m: "?n = Suc m" using count_within_bounds(1) [of 1 mx sz' ts] by (cases ?n) auto
    have "min (sz' + queue_bytes (take (?n - 1) ts)) USIZE_MAX \<le> mx" by (rule count_within_bytes) (use True in simp_all)
    then have "min (sz' + queue_bytes (take m ts)) USIZE_MAX \<le> mx" using m by simp
    then have "min (queue_bytes (take (Suc m) txs)) USIZE_MAX \<le> mx"
      by (simp add: Cons sz'_def min_def split: if_splits)
    then show ?thesis unfolding n m by simp
  next
    case False
    then have "count_within mx 1 sz' ts = 1" by (cases ts) (auto simp: Let_def sz'_def)
    then show ?thesis by (simp add: n)
  qed
qed simp

definition asset_gas :: "(asset_id, u64) btree_map \<Rightarrow> asset_id \<Rightarrow> u64" where
  "asset_gas per_asset a = (case bmap_get per_asset a of Some g \<Rightarrow> g | None \<Rightarrow> 0)"

definition gas_of :: "hasher \<Rightarrow> transaction list \<Rightarrow> nat" where
  "gas_of H txs = (\<Sum>t\<leftarrow>txs. unat (gas_need H t))"

lemma gas_of_simps [simp]: "gas_of H [] = 0" "gas_of H (t # ts) = unat (gas_need H t) + gas_of H ts"
  by (simp_all add: gas_of_def)

lemma fits_True:
  assumes "fits H budget cap gas used tx = Some True"
  shows "unat (gas + gas_need H tx) = unat gas + unat (gas_need H tx)" "unat (gas + gas_need H tx) \<le> unat budget"
    "unat (used + gas_need H tx) = unat used + unat (gas_need H tx)"
    "\<exists>c. cap (tx_fee_asset tx) = Some c \<and> unat (used + gas_need H tx) \<le> unat c"
proof -
  have sum: "g = a + b" "unat (a + b) = unat a + unat b" if "checked_add a b = Some g" for a b g :: u64
  proof -
    show "g = a + b" using that by (auto simp: checked_add_def split: if_splits)
    with that show "unat (a + b) = unat a + unat b" by (simp add: checked_add_Some_iff)
  qed
  from assms show "unat (gas + gas_need H tx) = unat gas + unat (gas_need H tx)"
    "unat (gas + gas_need H tx) \<le> unat budget" "unat (used + gas_need H tx) = unat used + unat (gas_need H tx)"
    "\<exists>c. cap (tx_fee_asset tx) = Some c \<and> unat (used + gas_need H tx) \<le> unat c"
    using sum by (auto simp: fits_def word_le_nat_alt not_less split: option.splits if_splits)
qed

lemma fits_defined: "fits H budget (\<lambda>a. Some (cap a)) gas used tx \<noteq> None"
proof
  assume "fits H budget (\<lambda>a. Some (cap a)) gas used tx = None"
  then show False by (auto simp: fits_def split: option.splits if_splits)
qed

lemma count_fitting_spec:
  "unat gas \<le> unat budget \<Longrightarrow> (\<forall>a. unat (asset_gas per_asset a) \<le> unat (cap a)) \<Longrightarrow>
   \<exists>m \<le> length txs. count_fitting H budget (\<lambda>a. Some (cap a)) gas per_asset fitting txs = Some (fitting + m)
     \<and> unat gas + gas_of H (take m txs) \<le> unat budget
     \<and> (\<forall>a. unat (asset_gas per_asset a) + gas_of H (filter (\<lambda>t. tx_fee_asset t = a) (take m txs)) \<le> unat (cap a))"
proof (induction txs arbitrary: gas per_asset fitting)
  case (Cons tx txs)
  let ?need = "gas_need H tx" and ?a = "tx_fee_asset tx"
  let ?used = "asset_gas per_asset ?a" and ?cap = "\<lambda>a. Some (cap a)"
  show ?case
  proof (cases "fits H budget ?cap gas ?used tx = Some True")
    case True
    note f = fits_True [OF True]
    let ?per = "bmap_insert ?a (?used + ?need) per_asset"
    have per: "asset_gas ?per b = (if b = ?a then ?used + ?need else asset_gas per_asset b)" for b
      by (simp add: asset_gas_def bmap_get_insert)
    have step: "count_fitting H budget ?cap gas per_asset fitting (tx # txs) = count_fitting H budget ?cap (gas + ?need) ?per (fitting + 1) txs"
      using True by (simp add: Let_def flip: asset_gas_def)
    have "\<forall>b. unat (asset_gas ?per b) \<le> unat (cap b)" using f(4) Cons.prems(2) by (auto simp: per)
    from Cons.IH [OF f(2) this, of "fitting + 1"] obtain m where m: "m \<le> length txs"
      "count_fitting H budget ?cap (gas + ?need) ?per (fitting + 1) txs = Some (fitting + 1 + m)"
      "unat (gas + ?need) + gas_of H (take m txs) \<le> unat budget"
      "\<forall>b. unat (asset_gas ?per b) + gas_of H (filter (\<lambda>t. tx_fee_asset t = b) (take m txs)) \<le> unat (cap b)"
      by blast
    have "unat (asset_gas per_asset b) + gas_of H (filter (\<lambda>t. tx_fee_asset t = b) (take (Suc m) (tx # txs))) \<le> unat (cap b)" for b
      using m(4) [rule_format, of b] f(3) by (simp add: per split: if_splits)
    with m f step show ?thesis by (intro exI [of _ "Suc m"]) simp
  next
    case False
    with fits_defined [of H budget cap gas ?used tx] have "fits H budget ?cap gas ?used tx = Some False" by auto
    then have "count_fitting H budget ?cap gas per_asset fitting (tx # txs) = Some fitting"
      by (simp add: Let_def flip: asset_gas_def)
    with Cons.prems show ?thesis by (intro exI [of _ 0]) simp
  qed
qed simp

lemma take_batch_eq:
  assumes inv: "mempool_inv H ed pcs mp"
  obtains count mp' where "take_batch_within H mp limit mx = (mp', Ok (take count (mp_queued mp)) :: ('e, _) result)"
    "count = count_within mx 0 0 (take limit (mp_queued mp))" "count \<le> length (mp_queued mp)" "count \<le> limit"
    "mp_queued mp' = drop count (mp_queued mp)" "mempool_inv H ed pcs mp'"
proof -
  define count where "count = count_within mx 0 0 (take limit (mp_queued mp))"
  define taken where "taken = take count (mp_queued mp)"
  define rest where "rest = drop count (mp_queued mp)"
  have q: "mp_queued mp = taken @ rest" by (simp add: taken_def rest_def)
  have le: "count \<le> length (mp_queued mp)" "count \<le> limit"
    using count_within_bounds(2) [of mx 0 0 "take limit (mp_queued mp)"] by (simp_all add: count_def)
  have tip: "\<not> (case mp_tip mp of Some t \<Rightarrow> length (tip_roots t) < count | None \<Rightarrow> False)"
    using inv le(1) trail_length [of H ed pcs "mp_queued mp"] by (auto simp: mempool_inv_def split: option.splits)
  let ?mp = "mp\<lparr>mp_queued := rest,
            mp_tip := map_option (\<lambda>t. t\<lparr>tip_roots := drop count (tip_roots t)\<rparr>) (mp_tip mp),
            mp_hashes := foldl (\<lambda>hs t. hs - {tx_hash H t}) (mp_hashes mp) taken,
            mp_claimed := filter (\<lambda>(_, ns). ns \<noteq> []) (foldl unclaim (mp_claimed mp) taken)\<rparr>"
  have eq: "take_batch_within H mp limit mx = (?mp, Ok taken :: ('e, _) result)"
    using tip unfolding count_def taken_def rest_def by (simp add: take_batch_within_def Let_def)
  have f: "foldl (\<lambda>hs t. hs - {tx_hash H t}) hs ts = hs - tx_hash H ` set ts" for hs ts
    by (induction ts arbitrary: hs) auto
  have "claims (filter (\<lambda>(_, ns). ns \<noteq> []) (foldl unclaim (mp_claimed mp) taken)) rest"
    using inv by (intro claims_retain claims_drop) (simp_all add: mempool_inv_def q)
  moreover have "tx_hash H ` set (taken @ rest) - tx_hash H ` set taken = tx_hash H ` set rest"
    using inv by (auto simp: mempool_inv_def q)
  moreover have "\<forall>tip. mp_tip ?mp = Some tip \<longrightarrow> trail H ed pcs rest tip"
    using inv trail_drop [OF _ le(1), of H ed pcs] by (auto simp: mempool_inv_def rest_def)
  ultimately have "mempool_inv H ed pcs ?mp" using inv by (auto simp: mempool_inv_def q f)
  with that [OF eq [unfolded taken_def] count_def le] show thesis by (simp add: rest_def taken_def)
qed


lemma queue_bytes_append: "queue_bytes (xs @ ys) = queue_bytes xs + queue_bytes ys"
  by (simp add: queue_bytes_def)

lemma gas_of_append: "gas_of H (xs @ ys) = gas_of H xs + gas_of H ys"
  by (simp add: gas_of_def)

lemma gas_of_prefix: "i \<le> j \<Longrightarrow> gas_of H (filter P (take i xs)) \<le> gas_of H (filter P (take j xs))"
proof -
  assume "i \<le> j"
  then have "take j xs = take i xs @ take (j - i) (drop i xs)" by (metis le_add_diff_inverse take_add)
  then show ?thesis by (simp add: gas_of_append)
qed

text \<open>Everything that happens to a pool; a call that panics changes nothing.\<close>

inductive mempool_reach :: "hasher \<Rightarrow> ed25519 \<Rightarrow> width_constants list \<Rightarrow> nat \<Rightarrow> mempool \<Rightarrow> bool" for H ed pcs capacity where
  New: "mempool_reach H ed pcs capacity (mempool_new capacity)"
| Submit: "mempool_reach H ed pcs capacity mp \<Longrightarrow> submit H ed pcs mp base ctx tx = (mp', r) \<Longrightarrow> r \<noteq> Panic \<Longrightarrow>
    mempool_reach H ed pcs capacity mp'"
| Take: "mempool_reach H ed pcs capacity mp \<Longrightarrow> take_batch_fitting H mp limit mx budget cap = (mp', Ok taken :: (unit, _) result) \<Longrightarrow>
    mempool_reach H ed pcs capacity mp'"
| TakeWithin: "mempool_reach H ed pcs capacity mp \<Longrightarrow> take_batch_within H mp limit mx = (mp', Ok taken :: (unit, _) result) \<Longrightarrow>
    mempool_reach H ed pcs capacity mp'"
| Clear: "mempool_reach H ed pcs capacity mp \<Longrightarrow> mempool_reach H ed pcs capacity (mempool_clear mp)"

lemma mempool_reach_inv: "mempool_reach H ed pcs capacity mp \<Longrightarrow> mempool_inv H ed pcs mp"
proof (induction rule: mempool_reach.induct)
  case (Submit mp base ctx tx mp' r)
  then show ?case using submit_inv by blast
next
  case (Take mp limit mx budget cap mp' taken)
  from Take(2) obtain n where "take_batch_within H mp n mx = (mp', Ok taken :: (unit, _) result)"
    by (auto simp: take_batch_fitting_def split: option.splits)
  with Take.IH show ?case by (metis Pair_inject take_batch_eq)
next
  case (TakeWithin mp limit mx mp' taken)
  then show ?case by (metis Pair_inject take_batch_eq)
qed (simp_all add: mempool_inv_new mempool_inv_clear)

section \<open>The demonstration transaction is admitted\<close>

definition demo_genesis_market :: bytes where
  "demo_genesis_market = market_encode (fee_market_genesis DEFAULT_BASE_FEE_FLOOR DEFAULT_GAS_TARGET)"

lemma demo_market_decode: "decode_fee_market (Some demo_genesis_market) = decode_fee_market None"
  using marketc.parse_all_wr [of "fee_market_genesis DEFAULT_BASE_FEE_FLOOR DEFAULT_GAS_TARGET"]
  by (simp add: decode_fee_market_def market_decode_def demo_genesis_market_def market_encode_def)

lemma demo_admit_charge:
  "charge_base_fee 60 DEFAULT_BASE_FEE_FLOOR 51000 (Some demo_genesis_market) = Ok (market_encode demo_market)"
  using demo_charge by (simp add: charge_base_fee_def demo_market_decode)

lemma demo_admit_exec:
  "\<exists>m. map_exec demo_hash sample_ed (demo_state(demo_key 1 \<mapsto> demo_genesis_market)) demo_instrs = Ok m"
  "exec_ops demo_hash sample_ed (demo_state(demo_key 1 \<mapsto> demo_genesis_market)) demo_instrs
    = exec_ops demo_hash sample_ed demo_state demo_instrs"
proof -
  have a: "wa_rate demo_asset = 1000000" "wa_intrinsic_gas demo_asset = 10000" "wa_enabled demo_asset"
    by (simp_all add: demo_asset_def)
  then show "\<exists>m. map_exec demo_hash sample_ed (demo_state(demo_key 1 \<mapsto> demo_genesis_market)) demo_instrs = Ok m"
    by (simp add: demo_instrs_def slot_slot_key demo_state_def demo_admit_charge verify_gas_asset_def demo_asset_decode
        checked_add_def del: slot.simps)
  show "exec_ops demo_hash sample_ed (demo_state(demo_key 1 \<mapsto> demo_genesis_market)) demo_instrs
    = exec_ops demo_hash sample_ed demo_state demo_instrs"
    using a unfolding demo_exec
    by (simp add: demo_instrs_def slot_slot_key demo_state_def demo_admit_charge verify_gas_asset_def demo_asset_decode
        checked_add_def del: slot.simps)
qed

lemma demo_admit_nodes:
  "collision_free demo_hash (history_nodes demo_hash SE (demo_ops @ OpInsert (demo_key 1) demo_genesis_market
    # exec_ops demo_hash sample_ed demo_state demo_instrs))"
proof -
  note b = demo_bits [unfolded One_nat_def]
  have v: "hash_value demo_hash demo_genesis_market = 3" by (simp add: demo_genesis_market_def)
  have "history_nodes demo_hash SE (demo_ops @ OpInsert (demo_key 1) demo_genesis_market
      # exec_ops demo_hash sample_ed demo_state demo_instrs)
    = history_nodes demo_hash SE (demo_ops @ exec_ops demo_hash sample_ed demo_state demo_instrs)"
    unfolding demo_history unfolding demo_exec demo_ops_def by (simp add: b v del: binding_encode.simps) blast
  then show ?thesis using demo_collision_free by simp
qed

lemma demo_submit:
  assumes tr: "trie_run demo_hash trie_new demo_ops = Some tr" and c: "0 < c"
  obtains mp where "submit demo_hash sample_ed [] (mempool_new c) tr (without_keyless 60) demo_tx = (mp, Ok (tx_hash demo_hash demo_tx))"
    "mp_queued mp = [demo_tx]"
proof -
  have st: "trie_get tr = demo_state" using demo_start tr by (metis option.inject)
  let ?mk = "OpInsert (demo_key 1) demo_genesis_market"
  note rep = trie_run_rep_ops [OF tr demo_admit_nodes]
  from rep(2) have sub: "history_nodes demo_hash (tree_step demo_hash (foldl (tree_step demo_hash) SE demo_ops) ?mk)
      (exec_ops demo_hash sample_ed demo_state demo_instrs) \<subseteq> history_nodes demo_hash SE (demo_ops @ ?mk
    # exec_ops demo_hash sample_ed demo_state demo_instrs)" (is "_ \<subseteq> ?N") by simp
  have "tree_nodes demo_hash (tree_step demo_hash (foldl (tree_step demo_hash) SE demo_ops) ?mk) \<subseteq> ?N"
    using sub history_nodes_start by blast
  then obtain tr1 where ins: "trie_insert demo_hash tr (demo_key 1) demo_genesis_market = Some (tr1, mt_root tr1)"
    and rep1: "trie_rep demo_hash ?N tr1 (tree_step demo_hash (foldl (tree_step demo_hash) SE demo_ops) ?mk)"
    using trie_rep_insert [OF rep(1), of "demo_key 1" demo_genesis_market] by auto
  have st1: "trie_get tr1 = demo_state(demo_key 1 \<mapsto> demo_genesis_market)" using trie_insert_get [OF ins] st by simp
  from run_steps_complete [OF rep1] sub demo_admit_exec st1 obtain tr2 roots where
    "run_steps demo_hash sample_ed tr1 demo_instrs = Ok (tr2, roots)" by (metis surj_pair)
  then have "\<exists>t. execute_batch demo_hash sample_ed [] tr1 (without_keyless 60) [demo_tx] = Ok (tr2, t)"
    unfolding execute_batch_def run_transactions_steps using demo_compile by (auto simp: list_all2_Cons1)
  then have "admit demo_hash sample_ed [] tr tr (without_keyless 60) demo_tx = Ok tr2"
    using ins by (auto simp: admit_def keys_slot_key st demo_state_def simp flip: demo_genesis_market_def)
  with that c show thesis
    by (auto simp: submit_def mempool_new_def tip_over_def tip_valid_def reindex_def claim_nonce_def Let_def)
qed

section \<open>Properties\<close>

text \<open>
  C39.  What waits in the pool is executable and is indexed exactly.  Whatever was submitted, taken
  and cleared, in any order, no two queued transactions share a hash or a sender and nonce, the
  indexes hold exactly the queued hashes and nonces, the capacity is respected, and where a tip
  is kept every queued transaction was executed on exactly the state the one before it left, with
  the recorded roots the roots of those states.
\<close>

theorem mempool_sound:
  assumes "mempool_reach H ed pcs capacity mp"
  shows "mp_hashes mp = tx_hash H ` set (mp_queued mp) \<and> distinct (map (tx_hash H) (mp_queued mp))
    \<and> distinct (map (\<lambda>t. (tx_sender t, tx_nonce t)) (mp_queued mp))
    \<and> (\<forall>s. nonces_at (mp_claimed mp) s = map tx_nonce (filter (\<lambda>t. tx_sender t = s) (mp_queued mp)))
    \<and> mempool_len mp \<le> mp_capacity mp
    \<and> (\<forall>tip. mp_tip mp = Some tip \<longrightarrow> trail H ed pcs (mp_queued mp) tip)"
  using mempool_reach_inv [OF assms]
  by (auto simp: mempool_inv_def mempool_len_def claims_def nonces_of_def slot_of_tx_def cong: map_cong)

theorem mempool_sound_witness:
  "\<exists>tr mp. submit demo_hash sample_ed [] (mempool_new 4) tr (without_keyless 60) demo_tx = (mp, Ok (tx_hash demo_hash demo_tx))
     \<and> mp_hashes mp = {tx_hash demo_hash demo_tx} \<and> nonces_at (mp_claimed mp) FEE_VAULT = [0]"
proof -
  obtain tr where tr: "trie_run demo_hash trie_new demo_ops = Some tr" by (rule demo_start)
  obtain mp where s: "submit demo_hash sample_ed [] (mempool_new 4) tr (without_keyless 60) demo_tx = (mp, Ok (tx_hash demo_hash demo_tx))"
    "mp_queued mp = [demo_tx]" by (rule demo_submit [OF tr, of 4]) simp_all
  have "mempool_reach demo_hash sample_ed [] 4 mp" by (rule mempool_reach.Submit [OF mempool_reach.New s(1)]) simp
  from mempool_sound [OF this] s have "mp_hashes mp = {tx_hash demo_hash demo_tx}" "nonces_at (mp_claimed mp) FEE_VAULT = [0]"
    by (simp_all add: demo_tx_def)
  with s(1) show ?thesis by blast
qed

text \<open>
  A batch is cut safely.  Taking a batch never panics; it removes a prefix of the queue and
  leaves the rest; the prefix is within the number limit, its gas within the window's budget, the
  gas paid in each asset within that asset's cap, and its encodings within the size limit unless
  it is a single transaction.
\<close>

lemma batch_fits:
  assumes "mempool_reach H ed pcs capacity mp"
  shows "\<exists>mp' taken. take_batch_fitting H mp limit mx budget (\<lambda>a. Some (cap a)) = (mp', Ok taken :: ('e, _) result)
    \<and> mp_queued mp = taken @ mp_queued mp' \<and> length taken \<le> limit
    \<and> gas_of H taken \<le> unat budget
    \<and> (\<forall>a. gas_of H (filter (\<lambda>t. tx_fee_asset t = a) taken) \<le> unat (cap a))
    \<and> (length taken \<le> 1 \<or> min (queue_bytes taken) USIZE_MAX \<le> mx)"
proof -
  let ?q = "mp_queued mp"
  let ?f = "count_fitting H budget (\<lambda>a. Some (cap a)) 0 [] 0 (take limit ?q)"
  obtain m where m: "m \<le> length (take limit ?q)" "?f = Some m" "gas_of H (take m (take limit ?q)) \<le> unat budget"
    "\<And>a. gas_of H (filter (\<lambda>t. tx_fee_asset t = a) (take m (take limit ?q))) \<le> unat (cap a)"
    using count_fitting_spec [of 0 budget "[]" cap "take limit ?q" H 0] by (auto simp: asset_gas_def)
  obtain count mp' where c: "take_batch_within H mp m mx = (mp', Ok (take count ?q) :: ('e, _) result)"
    "count = count_within mx 0 0 (take m ?q)" "count \<le> length ?q" "count \<le> m" "mp_queued mp' = drop count ?q"
    by (rule take_batch_eq [OF mempool_reach_inv [OF assms]])
  have le: "count \<le> m" "m \<le> limit" using c(4) m(1) by simp_all
  then have t: "take count ?q = take count (take m (take limit ?q))" by (simp add: min_def)
  have sub: "gas_of H (filter P (take count ?q)) \<le> gas_of H (filter P (take m (take limit ?q)))" for P
    using gas_of_prefix [OF le(1), of H P "take limit ?q"] le by (simp add: min_def)
  have "length (take count ?q) \<le> 1 \<or> min (queue_bytes (take count ?q)) USIZE_MAX \<le> mx"
    using count_within_first [of mx "take m ?q", folded c(2)] c(4) by (auto simp: min_absorb1 simp del: One_nat_def)
  moreover have "gas_of H (take count ?q) \<le> unat budget" using sub [of "\<lambda>_. True"] m(3) by simp
  moreover have "gas_of H (filter (\<lambda>t. tx_fee_asset t = a) (take count ?q)) \<le> unat (cap a)" for a
    using sub [of "\<lambda>t. tx_fee_asset t = a"] m(4) [of a] by (rule le_trans)
  ultimately show ?thesis using c le by (intro exI [of _ mp'] exI [of _ "take count ?q"]) (simp add: take_batch_fitting_def m(2))
qed

end
