(* ===== verification/Batch.thy ===== *)
theory Batch
  imports Execute
begin

text \<open>
  The batch commitment (\<open>batch.rs\<close>): a Merkle tree over the transactions of a batch with the
  trace position at which each begins, and the header that commits to the tree and to the
  context the transactions were compiled in.  Execution traces build the tree
  (\<open>ExecutionTrace::batch_tree\<close>).
\<close>

section \<open>Hashes\<close>

definition BATCH_LEAF :: bytes where
  "BATCH_LEAF = str_bytes ''SENA:v1:batch-leaf''"
definition BATCH_NODE :: bytes where
  "BATCH_NODE = str_bytes ''SENA:v1:batch-node''"

definition leaf_hash :: "hasher \<Rightarrow> u64 \<Rightarrow> u64 \<Rightarrow> bytes \<Rightarrow> hash256" where
  "leaf_hash H index start_pc tx_bytes =
     commit H (enc_field (enc_u64 (enc_u64 (enc_new BATCH_LEAF) index) start_pc) tx_bytes)"

definition batch_node_hash :: "hasher \<Rightarrow> hash256 \<Rightarrow> hash256 \<Rightarrow> hash256" where
  "batch_node_hash H left right =
     commit H (enc_field (enc_field (enc_new BATCH_NODE) (to_be left)) (to_be right))"

definition header_commitment ::
    "hasher \<Rightarrow> u64 \<Rightarrow> u128 \<Rightarrow> l2address \<Rightarrow> u64 \<Rightarrow> hash256 \<Rightarrow> hash256" where
  "header_commitment H timestamp base_fee fee_recipient tx_count tx_root =
     commit H (enc_field (enc_u64 (enc_field (enc_u128 (enc_u64 (enc_new BATCH) timestamp) base_fee)
       (to_be fee_recipient)) tx_count) (to_be tx_root))"

section \<open>Leaf proofs\<close>

record leaf_proof =
  lp_index :: u64
  lp_siblings :: "hash256 list"

fun root_for_loop :: "hasher \<Rightarrow> hash256 \<Rightarrow> u64 \<Rightarrow> hash256 list \<Rightarrow> hash256" where
  "root_for_loop H node index [] = node"
| "root_for_loop H node index (sibling # rest) =
     root_for_loop H
       (if and index 1 = 0 then batch_node_hash H node sibling else batch_node_hash H sibling node)
       (drop_bit 1 index) rest"

definition root_for :: "hasher \<Rightarrow> leaf_proof \<Rightarrow> hash256 \<Rightarrow> hash256" where
  "root_for H p leaf = root_for_loop H leaf (lp_index p) (lp_siblings p)"

section \<open>The tree\<close>

record batch_tree =
  bt_levels :: "hash256 list list"
  bt_tx_count :: u64

text \<open>\<open>usize::next_power_of_two\<close>, from a candidate upwards.\<close>

function power_from :: "nat \<Rightarrow> nat \<Rightarrow> nat" where
  "power_from p n = (if p \<ge> n \<or> p = 0 then p else power_from (2 * p) n)"
  by pat_completeness auto
termination by (relation "measure (\<lambda>(p, n). n - p)") auto

declare power_from.simps [simp del]

definition next_power_of_two :: "nat \<Rightarrow> nat" where
  "next_power_of_two n = power_from 1 n"

text \<open>One level from the one below: \<open>pair[1]\<close> panics on an odd chunk.\<close>

fun chunk_hashes :: "hasher \<Rightarrow> hash256 list \<Rightarrow> ('e, hash256 list) result" where
  "chunk_hashes H [] = Ok []"
| "chunk_hashes H [x] = Panic"
| "chunk_hashes H (x # y # rest) =
     and_then (chunk_hashes H rest) (\<lambda>upper. Ok (batch_node_hash H x y # upper))"

lemma chunk_hashes_Ok:
  "chunk_hashes H level = (Ok upper :: ('e, _) result) \<Longrightarrow> length level = 2 * length upper
   \<and> (\<forall>j < length upper. upper ! j = batch_node_hash H (level ! (2 * j)) (level ! Suc (2 * j)))"
proof (induction H level arbitrary: upper rule: chunk_hashes.induct)
  case (3 H x y rest)
  from "3.prems" obtain a where a: "chunk_hashes H rest = (Ok a :: ('e, _) result)" "upper = batch_node_hash H x y # a"
    by (auto simp: and_then_Ok_iff)
  with "3.IH" [OF a(1)] show ?case by (auto simp: nth_Cons split: nat.split)
qed auto

lemma chunk_hashes_even: "length level = 2 * n \<Longrightarrow> \<exists>upper. chunk_hashes H level = (Ok upper :: ('e, _) result)"
proof (induction H level arbitrary: n rule: chunk_hashes.induct)
  case (3 H x y rest)
  then have "length rest = 2 * (n - 1)" by simp
  with "3.IH" show ?case by fastforce
qed auto

function levels_up :: "hasher \<Rightarrow> hash256 list \<Rightarrow> ('e, hash256 list list) result" where
  "levels_up H level =
     (if length level > 1 then
        (case chunk_hashes H level of
           Ok upper \<Rightarrow> and_then (levels_up H upper) (\<lambda>levels. Ok (level # levels))
         | Err e \<Rightarrow> Err e
         | Panic \<Rightarrow> Panic)
      else Ok [level])"
  by pat_completeness auto
termination
  by (relation "measure (\<lambda>(H, level). length level)") (auto dest!: chunk_hashes_Ok)

declare levels_up.simps [simp del]

definition leaf_level :: "hasher \<Rightarrow> (u64 \<times> bytes) list \<Rightarrow> hash256 list" where
  "leaf_level H leaves = map (\<lambda>(i, start_pc, bs). leaf_hash H (of_nat i) start_pc bs) (enumerate 0 leaves)"

definition build :: "hasher \<Rightarrow> (u64 \<times> bytes) list \<Rightarrow> ('e, batch_tree) result" where
  "build H leaves =
     (if length leaves \<ge> 2 ^ 64 then Panic
      else
        let level = leaf_level H leaves;
            width = next_power_of_two (max (length level) 1);
            padded = take width level @ replicate (width - length level) ZERO
        in and_then (levels_up H padded) (\<lambda>levels.
             Ok \<lparr>bt_levels = levels, bt_tx_count = of_nat (length leaves)\<rparr>))"

definition bt_root :: "batch_tree \<Rightarrow> ('e, hash256) result" where
  "bt_root t = (if bt_levels t = [] then Panic
     else case last (bt_levels t) of [] \<Rightarrow> Panic | r # _ \<Rightarrow> Ok r)"

text \<open>\<open>i ^ 1\<close> on positions.\<close>

definition sibling_index :: "nat \<Rightarrow> nat" where
  "sibling_index i = (if even i then i + 1 else i - 1)"

fun sibling_path :: "nat \<Rightarrow> hash256 list list \<Rightarrow> ('e, hash256 list) result" where
  "sibling_path i [] = Ok []"
| "sibling_path i (level # levels) =
     (if sibling_index i < length level then
        and_then (sibling_path (i div 2) levels) (\<lambda>ss. Ok (level ! sibling_index i # ss))
      else Panic)"

definition bt_prove :: "batch_tree \<Rightarrow> u64 \<Rightarrow> ('e, leaf_proof option) result" where
  "bt_prove t index =
     (if index \<ge> bt_tx_count t then Ok None
      else if bt_levels t = [] then Panic
      else and_then (sibling_path (unat index) (butlast (bt_levels t))) (\<lambda>ss.
        Ok (Some \<lparr>lp_index = index, lp_siblings = ss\<rparr>)))"

definition trace_batch_tree :: "hasher \<Rightarrow> execution_trace \<Rightarrow> transaction list \<Rightarrow> ('e, batch_tree) result" where
  "trace_batch_tree H t txs =
     (if length txs \<noteq> length (tx_starts t) then Panic
      else build H (map (\<lambda>(start, tx). (start, tx_encode tx)) (zip (tx_starts t) txs)))"

section \<open>The tree is complete\<close>

lemma power_from_pow: "\<exists>d. power_from (2 ^ k) n = 2 ^ (k + d) \<and> n \<le> 2 ^ (k + d)"
proof (induction "n - 2 ^ k" arbitrary: k rule: less_induct)
  case less
  show ?case
  proof (cases "2 ^ k \<ge> n")
    case True
    then show ?thesis by (intro exI [of _ 0]) (simp add: power_from.simps)
  next
    case False
    moreover have "0 < (2 :: nat) ^ k" by simp
    ultimately have "n - 2 ^ Suc k < n - 2 ^ k" unfolding power_Suc by linarith
    from less [OF this] obtain d where d: "power_from (2 ^ Suc k) n = 2 ^ (Suc k + d)" "n \<le> 2 ^ (Suc k + d)" by blast
    then show ?thesis using False by (intro exI [of _ "Suc d"]) (subst power_from.simps, simp)
  qed
qed

lemma next_power_of_two_pow: "\<exists>d. next_power_of_two n = 2 ^ d \<and> n \<le> 2 ^ d"
  using power_from_pow [of 0 n] by (simp add: next_power_of_two_def)

lemma even_unat: "and index 1 = 0 \<longleftrightarrow> even (unat index)" for index :: u64
  by (simp add: and_one_eq even_iff_mod_2_eq_zero word_unat_eq_iff unat_mod)

lemma unat_half: "unat (drop_bit 1 index) = unat index div 2" for index :: u64
  by (simp add: drop_bit_eq_div unat_div)

lemma levels_up_complete:
  "length level = 2 ^ d \<Longrightarrow>
   \<exists>levels root. levels_up H level = (Ok levels :: ('e, _) result) \<and> levels \<noteq> [] \<and> last levels = [root]
     \<and> (\<forall>index :: u64. unat index < 2 ^ d \<longrightarrow>
          (\<exists>ss. sibling_path (unat index) (butlast levels) = (Ok ss :: ('e, _) result)
             \<and> root_for_loop H (level ! unat index) index ss = root))"
proof (induction d arbitrary: level)
  case 0
  then obtain x where "level = [x]" by (auto simp: length_Suc_conv)
  then show ?case by (simp add: levels_up.simps)
next
  case (Suc d)
  obtain upper where ab: "chunk_hashes H level = (Ok upper :: ('e, _) result)"
    using chunk_hashes_even [of level "2 ^ d" H] Suc.prems by auto
  note abv = chunk_hashes_Ok [OF ab]
  then have len: "length upper = 2 ^ d" using Suc.prems by simp
  from Suc.IH [OF len] obtain levels root where l: "levels_up H upper = (Ok levels :: ('e, _) result)"
    "levels \<noteq> []" "last levels = [root]"
    and p: "\<And>index :: u64. unat index < 2 ^ d \<Longrightarrow>
      \<exists>ss. sibling_path (unat index) (butlast levels) = (Ok ss :: ('e, _) result)
        \<and> root_for_loop H (upper ! unat index) index ss = root"
    by metis
  have "0 < (2 :: nat) ^ d" by simp
  then have "1 < length level" using Suc.prems unfolding power_Suc by linarith
  then have up: "levels_up H level = (Ok (level # levels) :: ('e, _) result)"
    by (subst levels_up.simps) (simp add: ab l(1))
  have "\<exists>ss. sibling_path (unat index) (butlast (level # levels)) = (Ok ss :: ('e, _) result)
      \<and> root_for_loop H (level ! unat index) index ss = root" if i: "unat index < 2 ^ Suc d" for index :: u64
  proof -
    have "unat index div 2 < 2 ^ d" using i by auto
    with p [of "drop_bit 1 index"] obtain ss where
      ss: "sibling_path (unat index div 2) (butlast levels) = (Ok ss :: ('e, _) result)"
      "root_for_loop H (upper ! (unat index div 2)) (drop_bit 1 index) ss = root"
      by (auto simp: unat_half [unfolded One_nat_def])
    have "unat index div 2 < length upper" using i len by simp
    with abv have node: "upper ! (unat index div 2)
        = (if even (unat index) then batch_node_hash H (level ! unat index) (level ! sibling_index (unat index))
           else batch_node_hash H (level ! sibling_index (unat index)) (level ! unat index))"
      by (auto simp: sibling_index_def elim!: evenE oddE)
    have "sibling_index (unat index) < length level"
      using i Suc.prems by (auto simp: sibling_index_def elim!: evenE)
    with ss node l(2) show ?thesis by (simp add: even_unat)
  qed
  with up l show ?case by (intro exI [of _ "level # levels"] exI [of _ root]) simp
qed

lemma length_leaf_level [simp]: "length (leaf_level H leaves) = length leaves"
  by (simp add: leaf_level_def)

lemma leaf_level_nth:
  "k < length leaves \<Longrightarrow> leaf_level H leaves ! k = leaf_hash H (of_nat k) (fst (leaves ! k)) (snd (leaves ! k))"
  by (simp add: leaf_level_def nth_enumerate_eq case_prod_unfold)

definition padded :: "hasher \<Rightarrow> (u64 \<times> bytes) list \<Rightarrow> hash256 list" where
  "padded H leaves = leaf_level H leaves
     @ replicate (next_power_of_two (max (length leaves) 1) - length leaves) ZERO"

lemma length_padded: "\<exists>d. length (padded H leaves) = 2 ^ d \<and> length leaves \<le> 2 ^ d"
  using next_power_of_two_pow [of "max (length leaves) 1"] by (auto simp: padded_def)

lemma build_levels:
  assumes "length leaves < 2 ^ 64"
  shows "build H leaves = and_then (levels_up H (padded H leaves)) (\<lambda>levels.
    Ok \<lparr>bt_levels = levels, bt_tx_count = of_nat (length leaves)\<rparr>)"
proof -
  have "length leaves \<le> next_power_of_two (max (length leaves) 1)"
    using next_power_of_two_pow [of "max (length leaves) 1"] by auto
  with assms show ?thesis by (simp add: build_def padded_def Let_def)
qed

section \<open>The tree is binding\<close>

text \<open>What the hashes of the tree are digests of.\<close>

datatype bnode = BLeaf u64 u64 bytes | BNode hash256 hash256

fun bnode_frames :: "bnode \<Rightarrow> bytes list" where
  "bnode_frames (BLeaf i s b) = [BATCH_LEAF, to_be i, to_be s, b]"
| "bnode_frames (BNode l r) = [BATCH_NODE, to_be l, to_be r]"

fun bnode_ok :: "bnode \<Rightarrow> bool" where
  "bnode_ok (BLeaf i s b) \<longleftrightarrow> length b < 2 ^ 32"
| "bnode_ok (BNode l r) \<longleftrightarrow> True"

definition bnode_hash :: "hasher \<Rightarrow> bnode \<Rightarrow> hash256" where
  "bnode_hash H n = H (frames (bnode_frames n))"

lemma bnode_hashes:
  "leaf_hash H i s b = bnode_hash H (BLeaf i s b)"
  "batch_node_hash H l r = bnode_hash H (BNode l r)"
  by (simp_all add: leaf_hash_def batch_node_hash_def bnode_hash_def commit_def digest_def enc_simps)

lemma bnode_frames_inject: "bnode_ok m \<Longrightarrow> bnode_ok n \<Longrightarrow> frames (bnode_frames m) = frames (bnode_frames n) \<Longrightarrow> m = n"
proof -
  assume ok: "bnode_ok m" "bnode_ok n" and eq: "frames (bnode_frames m) = frames (bnode_frames n)"
  have "framable (bnode_frames x)" if "bnode_ok x" for x
    using that by (cases x) (simp_all add: framable_def BATCH_LEAF_def BATCH_NODE_def str_bytes_def)
  from frames_inject [OF this [OF ok(1)] this [OF ok(2)] eq] show "m = n"
    by (cases m; cases n) (auto simp: to_be_inject)
qed

text \<open>The hash function is injective on a finite set of tree preimages and never zero there.\<close>

definition batch_collision_free :: "hasher \<Rightarrow> bnode set \<Rightarrow> bool" where
  "batch_collision_free H N \<longleftrightarrow> (\<forall>n \<in> N. bnode_ok n) \<and>
     inj_on (H \<circ> frames \<circ> bnode_frames) N \<and> (\<forall>n \<in> N. H (frames (bnode_frames n)) \<noteq> ZERO)"

lemma batch_collision_freeD:
  "batch_collision_free H N \<Longrightarrow> m \<in> N \<Longrightarrow> n \<in> N \<Longrightarrow> bnode_hash H m = bnode_hash H n \<Longrightarrow> m = n"
  "batch_collision_free H N \<Longrightarrow> n \<in> N \<Longrightarrow> bnode_hash H n \<noteq> ZERO"
  by (auto simp: batch_collision_free_def bnode_hash_def inj_on_def)

lemma batch_collision_free_mono: "batch_collision_free H N \<Longrightarrow> M \<subseteq> N \<Longrightarrow> batch_collision_free H M"
  by (auto simp: batch_collision_free_def intro: inj_on_subset)

text \<open>The preimages of a tree and of a path.\<close>

fun level_pairs :: "hash256 list \<Rightarrow> bnode set" where
  "level_pairs (x # y # rest) = insert (BNode x y) (level_pairs rest)"
| "level_pairs _ = {}"

definition leaf_bnodes :: "(u64 \<times> bytes) list \<Rightarrow> bnode set" where
  "leaf_bnodes leaves = (\<lambda>k. BLeaf (of_nat k) (fst (leaves ! k)) (snd (leaves ! k))) ` {..<length leaves}"

definition tree_bnodes :: "(u64 \<times> bytes) list \<Rightarrow> batch_tree \<Rightarrow> bnode set" where
  "tree_bnodes leaves t = leaf_bnodes leaves \<union> (\<Union>level \<in> set (bt_levels t). level_pairs level)"

fun path_bnodes :: "hasher \<Rightarrow> hash256 \<Rightarrow> u64 \<Rightarrow> hash256 list \<Rightarrow> bnode set" where
  "path_bnodes H node index [] = {}"
| "path_bnodes H node index (s # ss) =
     (let n = (if and index 1 = 0 then BNode node s else BNode s node) in
      insert n (path_bnodes H (bnode_hash H n) (drop_bit 1 index) ss))"

lemma chunk_hashes_pairs:
  "chunk_hashes H level = (Ok upper :: ('e, _) result) \<Longrightarrow> x \<in> set upper \<Longrightarrow>
   \<exists>l \<in> set level. \<exists>r \<in> set level. BNode l r \<in> level_pairs level \<and> x = bnode_hash H (BNode l r)"
proof (induction H level arbitrary: upper rule: chunk_hashes.induct)
  case (3 H y z rest)
  from "3.prems" obtain a where a: "chunk_hashes H rest = (Ok a :: ('e, _) result)" "upper = batch_node_hash H y z # a"
    by (auto simp: and_then_Ok_iff)
  with "3.prems"(2) "3.IH" [OF a(1)] show ?case by (auto simp: bnode_hashes)
qed auto

text \<open>
  A path that leads from a hash \<open>leaf\<close> of a leaf to the tree's root starts at one of the tree's
  leaves: at every level below the root the path runs inside the tree, it cannot stop early
  since no leaf is a node, and it cannot run on since no node is a leaf.
\<close>

lemma root_for_loop_snoc:
  "root_for_loop H node index (ss @ [s]) =
     bnode_hash H (if and (drop_bit (length ss) index) 1 = 0 then BNode (root_for_loop H node index ss) s
       else BNode s (root_for_loop H node index ss))"
  by (induction ss arbitrary: node index) (simp_all add: bnode_hashes)

lemma path_bnodes_snoc:
  "path_bnodes H node index (ss @ [s]) = insert
     (if and (drop_bit (length ss) index) 1 = 0 then BNode (root_for_loop H node index ss) s
       else BNode s (root_for_loop H node index ss)) (path_bnodes H node index ss)"
  by (induction ss arbitrary: node index) (auto simp: Let_def bnode_hashes)

lemma path_bnodes_take: "path_bnodes H node index (take j ss) \<subseteq> path_bnodes H node index ss"
  by (induction ss arbitrary: node index j) (auto simp: Let_def take_Cons split: nat.split)

lemma path_prefix:
  assumes "0 < j" "j \<le> length ss"
  obtains n where "root_for_loop H leaf index (take j ss) = bnode_hash H n" "n \<in> path_bnodes H leaf index ss"
    "\<exists>x. n = BNode (root_for_loop H leaf index (take (j - 1) ss)) x \<or> n = BNode x (root_for_loop H leaf index (take (j - 1) ss))"
proof -
  have "take j ss = take (j - 1) ss @ [ss ! (j - 1)]"
    using assms take_Suc_conv_app_nth [of "j - 1" ss] by simp
  with path_bnodes_take [of H leaf index j ss] that show thesis
    by (auto simp: root_for_loop_snoc path_bnodes_snoc split: if_splits)
qed

lemma chunk_hashes_shrink: "chunk_hashes H level = (Ok upper :: ('e, _) result) \<Longrightarrow> 1 < length level \<Longrightarrow> length upper < length level"
  by (drule chunk_hashes_Ok) auto

lemma levels_up_cases:
  assumes "levels_up H level = (Ok levels :: ('e, _) result)" "1 < length level"
  obtains upper levels' where "chunk_hashes H level = (Ok upper :: ('e, _) result)"
    "levels_up H upper = (Ok levels' :: ('e, _) result)" "levels = level # levels'" "levels' \<noteq> []"
proof -
  have ne: "levels_up H l \<noteq> (Ok [] :: ('e, _) result)" for l
    by (subst levels_up.simps) (auto simp: and_then_Ok_iff split: result.splits)
  show thesis
    using assms ne that by (subst (asm) levels_up.simps) (auto simp: and_then_Ok_iff split: result.splits)
qed

lemma levels_up_path:
  assumes "levels_up H level = (Ok levels :: ('e, _) result)" "last levels = [root_for_loop H leaf index ss]"
    and cf: "batch_collision_free H (insert n0 (path_bnodes H leaf index ss \<union> (\<Union>level \<in> set levels. level_pairs level)))"
    and leaf: "leaf = bnode_hash H n0" "\<And>l r. n0 \<noteq> BNode l r"
  shows "\<exists>j \<le> length ss. root_for_loop H leaf index (take j ss) \<in> set level"
  using assms(1-3)
proof (induction "length level" arbitrary: level levels rule: less_induct)
  case less
  show ?case
  proof (cases "1 < length level")
    case False
    with less.prems(1) have "levels = [level]" by (simp add: levels_up.simps)
    with less.prems(2) show ?thesis by (intro exI [of _ "length ss"]) simp
  next
    case True
    with less.prems(1) obtain upper levels' where up: "chunk_hashes H level = (Ok upper :: ('e, _) result)"
      "levels_up H upper = (Ok levels' :: ('e, _) result)" "levels = level # levels'" and "levels' \<noteq> []"
      by (rule levels_up_cases)
    then have "last levels' = [root_for_loop H leaf index ss]" using less.prems(2) up(3) by simp
    moreover have "batch_collision_free H (insert n0 (path_bnodes H leaf index ss \<union> (\<Union>level \<in> set levels'. level_pairs level)))"
      by (rule batch_collision_free_mono [OF less.prems(3)]) (auto simp: up(3))
    ultimately obtain j where j: "j \<le> length ss" "root_for_loop H leaf index (take j ss) \<in> set upper"
      using less.hyps [OF chunk_hashes_shrink [OF up(1) True] up(2)] by blast
    obtain l r where lr: "l \<in> set level" "r \<in> set level" "BNode l r \<in> level_pairs level"
      "root_for_loop H leaf index (take j ss) = bnode_hash H (BNode l r)"
      using chunk_hashes_pairs [OF up(1) j(2)] by blast
    note inj = batch_collision_freeD(1) [OF less.prems(3)]
    have "0 < j"
      using inj [of n0 "BNode l r"] lr(3,4) leaf up(3) by (cases j) auto
    then obtain n where n: "root_for_loop H leaf index (take j ss) = bnode_hash H n" "n \<in> path_bnodes H leaf index ss"
      "\<exists>x. n = BNode (root_for_loop H leaf index (take (j - 1) ss)) x \<or> n = BNode x (root_for_loop H leaf index (take (j - 1) ss))"
      using path_prefix [OF _ j(1)] by metis
    have "n = BNode l r" using inj [of n "BNode l r"] n lr up(3) by auto
    with n(3) lr(1,2) have "root_for_loop H leaf index (take (j - 1) ss) \<in> set level" by auto
    with j(1) show ?thesis by (intro exI [of _ "j - 1"]) simp
  qed
qed

lemma chunk_hashes_inject:
  "chunk_hashes H level = (Ok upper :: ('e, _) result) \<Longrightarrow> chunk_hashes H level' = (Ok upper :: ('e, _) result) \<Longrightarrow>
   batch_collision_free H (level_pairs level \<union> level_pairs level') \<Longrightarrow> level = level'"
proof (induction H level arbitrary: upper level' rule: chunk_hashes.induct)
  case (3 H x y rest)
  obtain a where a: "chunk_hashes H rest = (Ok a :: ('e, _) result)" "upper = batch_node_hash H x y # a"
    using "3.prems"(1) by (auto simp: and_then_Ok_iff)
  with "3.prems"(2) obtain x' y' rest' where l': "level' = x' # y' # rest'"
    "chunk_hashes H rest' = (Ok a :: ('e, _) result)" "batch_node_hash H x y = batch_node_hash H x' y'"
    by (cases "(H, level')" rule: chunk_hashes.cases) (auto simp: and_then_Ok_iff)
  have "batch_collision_free H (level_pairs rest \<union> level_pairs rest')"
    by (rule batch_collision_free_mono [OF "3.prems"(3)]) (auto simp: l')
  with "3.IH" [OF a(1) l'(2)] batch_collision_freeD(1) [OF "3.prems"(3), of "BNode x y" "BNode x' y'"] l'
  show ?case by (simp add: bnode_hashes)
next
  case (1 H)
  then show ?case by (cases "(H, level')" rule: chunk_hashes.cases) (auto simp: and_then_Ok_iff)
qed auto

lemma levels_up_inject:
  "levels_up H level = (Ok levels :: ('e, _) result) \<Longrightarrow> levels_up H level' = (Ok levels' :: ('e, _) result) \<Longrightarrow>
   length level = length level' \<Longrightarrow> last levels = last levels' \<Longrightarrow>
   batch_collision_free H ((\<Union>level \<in> set levels. level_pairs level) \<union> (\<Union>level \<in> set levels'. level_pairs level)) \<Longrightarrow>
   level = level'"
proof (induction "length level" arbitrary: level levels level' levels' rule: less_induct)
  case less
  show ?case
  proof (cases "1 < length level")
    case False
    with less.prems(1-3) have "levels = [level]" "levels' = [level']" by (simp_all add: levels_up.simps)
    with less.prems(4) show ?thesis by simp
  next
    case True
    obtain upper ls where up: "chunk_hashes H level = (Ok upper :: ('e, _) result)"
      "levels_up H upper = (Ok ls :: ('e, _) result)" "levels = level # ls" "ls \<noteq> []"
      by (rule levels_up_cases [OF less.prems(1) True])
    obtain upper' ls' where up': "chunk_hashes H level' = (Ok upper' :: ('e, _) result)"
      "levels_up H upper' = (Ok ls' :: ('e, _) result)" "levels' = level' # ls'" "ls' \<noteq> []"
      by (rule levels_up_cases [OF less.prems(2)]) (use True less.prems(3) in simp)
    have "upper = upper'"
    proof (rule less.hyps [OF chunk_hashes_shrink [OF up(1) True] up(2) up'(2)])
      show "length upper = length upper'" using chunk_hashes_Ok [OF up(1)] chunk_hashes_Ok [OF up'(1)] less.prems(3) by simp
      show "last ls = last ls'" using less.prems(4) up up' by simp
      show "batch_collision_free H ((\<Union>level \<in> set ls. level_pairs level) \<union> (\<Union>level \<in> set ls'. level_pairs level))"
        by (rule batch_collision_free_mono [OF less.prems(5)]) (auto simp: up up')
    qed
    moreover have "batch_collision_free H (level_pairs level \<union> level_pairs level')"
      by (rule batch_collision_free_mono [OF less.prems(5)]) (auto simp: up up')
    ultimately show ?thesis using chunk_hashes_inject up(1) up'(1) by blast
  qed
qed

lemma build_Ok:
  assumes "build H leaves = (Ok t :: ('e, _) result)" "bt_root t = (Ok root :: ('e, _) result)"
  shows "length leaves < 2 ^ 64" "levels_up H (padded H leaves) = (Ok (bt_levels t) :: ('e, _) result)"
    "bt_tx_count t = of_nat (length leaves)" "last (bt_levels t) = [root]"
proof -
  show len: "length leaves < 2 ^ 64" using assms(1) by (auto simp: build_def not_less [symmetric] split: if_splits)
  then show l: "levels_up H (padded H leaves) = (Ok (bt_levels t) :: ('e, _) result)"
    and "bt_tx_count t = of_nat (length leaves)"
    using assms(1) unfolding build_levels [OF len] by (auto simp: and_then_Ok_iff)
  obtain d where d: "length (padded H leaves) = 2 ^ d" using length_padded by blast
  from levels_up_complete [OF d, of H, where 'e = 'e] l obtain root' where "last (bt_levels t) = [root']" by auto
  with assms(2) show "last (bt_levels t) = [root]" by (auto simp: bt_root_def split: if_splits)
qed

lemma in_padded:
  assumes "x \<in> set (padded H leaves)"
  shows "x = ZERO \<or> (\<exists>k < length leaves. x = bnode_hash H (BLeaf (of_nat k) (fst (leaves ! k)) (snd (leaves ! k))))"
  using assms by (auto simp: padded_def in_set_conv_nth [of _ "leaf_level H leaves"] leaf_level_nth bnode_hashes)

text \<open>
  The commitment of an assertion fixes its batch: two headers with the same commitment agree on
  timestamp, base fee and tip recipient and commit to the same transactions, in the same order,
  at the same trace positions.
\<close>

lemma header_binds:
  assumes b: "build H leaves = (Ok t :: ('e, _) result)" "bt_root t = (Ok root :: ('e, _) result)"
    and b': "build H leaves' = (Ok t' :: ('e, _) result)" "bt_root t' = (Ok root' :: ('e, _) result)"
    and eq: "header_commitment H ts fee rcp (bt_tx_count t) root = header_commitment H ts' fee' rcp' (bt_tx_count t') root'"
    and inj: "inj_on H {frames [BATCH, to_be ts, to_be fee, to_be rcp, to_be (bt_tx_count t), to_be root],
        frames [BATCH, to_be ts', to_be fee', to_be rcp', to_be (bt_tx_count t'), to_be root']}"
    and cf: "batch_collision_free H (tree_bnodes leaves t \<union> tree_bnodes leaves' t')"
  shows "ts = ts' \<and> fee = fee' \<and> rcp = rcp' \<and> leaves = leaves'"
proof -
  note bt = build_Ok [OF b] and bt' = build_Ok [OF b']
  have "framable [BATCH, to_be ts, to_be fee, to_be rcp, to_be n, to_be root]"
    for ts n :: u64 and fee :: u128 and rcp root :: hash256
    by (simp add: framable_def domain_defs)
  note fr = this
  have "H (frames [BATCH, to_be ts, to_be fee, to_be rcp, to_be (bt_tx_count t), to_be root])
      = H (frames [BATCH, to_be ts', to_be fee', to_be rcp', to_be (bt_tx_count t'), to_be root'])"
    using eq by (simp add: header_commitment_def commit_def digest_def enc_simps)
  from frames_inject [OF fr fr inj_onD [OF inj this]]
  have h: "ts = ts'" "fee = fee'" "rcp = rcp'" "bt_tx_count t = bt_tx_count t'" "root = root'"
    by (simp_all add: to_be_inject)
  have "(of_nat (length leaves) :: u64) = of_nat (length leaves')" using h(4) bt(3) bt'(3) by simp
  then have "unat (of_nat (length leaves) :: u64) = unat (of_nat (length leaves') :: u64)" by (rule arg_cong)
  then have len: "length leaves = length leaves'"
    using bt(1) bt'(1) by (simp add: unat_of_nat_small)
  have "padded H leaves = padded H leaves'"
  proof (rule levels_up_inject [OF bt(2) bt'(2)])
    show "batch_collision_free H ((\<Union>level \<in> set (bt_levels t). level_pairs level)
        \<union> (\<Union>level \<in> set (bt_levels t'). level_pairs level))"
      by (rule batch_collision_free_mono [OF cf]) (auto simp: tree_bnodes_def)
  qed (use len bt(4) bt'(4) h(5) in \<open>simp_all add: padded_def\<close>)
  then have level: "leaf_level H leaves = leaf_level H leaves'" using len by (simp add: padded_def)
  have "leaves ! k = leaves' ! k" if k: "k < length leaves" for k
  proof -
    have "bnode_hash H (BLeaf (of_nat k) (fst (leaves ! k)) (snd (leaves ! k)))
        = bnode_hash H (BLeaf (of_nat k) (fst (leaves' ! k)) (snd (leaves' ! k)))"
      using level k len by (metis leaf_level_nth bnode_hashes(1))
    moreover have "BLeaf (of_nat k) (fst (leaves ! k)) (snd (leaves ! k)) \<in> tree_bnodes leaves t \<union> tree_bnodes leaves' t'"
      "BLeaf (of_nat k) (fst (leaves' ! k)) (snd (leaves' ! k)) \<in> tree_bnodes leaves t \<union> tree_bnodes leaves' t'"
      using k len by (auto simp: tree_bnodes_def leaf_bnodes_def)
    ultimately show ?thesis using batch_collision_freeD(1) [OF cf] by (metis bnode.inject(1) prod.collapse)
  qed
  with h len show ?thesis by (auto intro: nth_equalityI)
qed

text \<open>A concrete batch of two transactions, with a hash function that is injective on its tree.\<close>

definition pair_hash :: hasher where
  "pair_hash bs = (if length bs = 94 then 4 else 1 + from_be (drop (length bs - 1) bs))"

definition pair_leaves :: "(u64 \<times> bytes) list" where
  "pair_leaves = [(0, [1]), (6, [2])]"

definition pair_tree :: batch_tree where
  "pair_tree = \<lparr>bt_levels = [[2, 3], [4]], bt_tx_count = 2\<rparr>"

lemma from_be_byte: "from_be [b] = (ucast b :: hash256)"
proof -
  have "be_nat [b] = unat b" by (simp add: be_nat.simps)
  then show ?thesis by (simp add: from_be_def unsigned_ucast_eq word_unat_eq_iff unat_of_nat take_bit_eq_mod)
qed

lemma pair_hashes [simp]:
  "bnode_hash pair_hash (BNode l r) = 4"
  "bnode_hash pair_hash (BLeaf i s [b]) = 1 + ucast b"
  by (simp_all add: bnode_hash_def pair_hash_def frames_Cons frames_Nil BATCH_LEAF_def BATCH_NODE_def str_bytes_def
      from_be_byte)

lemma pair_build:
  "build pair_hash pair_leaves = (Ok pair_tree :: ('e, _) result)" "bt_root pair_tree = (Ok 4 :: ('e, _) result)"
proof -
  have p: "next_power_of_two 2 = 2"
    by (simp add: next_power_of_two_def power_from.simps [of 1 2] power_from.simps [of 2 2] flip: One_nat_def)
  have l: "leaf_level pair_hash pair_leaves = [2, 3]" by (simp add: leaf_level_def pair_leaves_def bnode_hashes)
  show "build pair_hash pair_leaves = (Ok pair_tree :: ('e, _) result)"
    using p [unfolded numeral_2_eq_2] by (simp add: build_def Let_def l levels_up.simps [of _ "[2, 3]"] levels_up.simps [of _ "[4]"] bnode_hashes)
      (simp add: pair_leaves_def pair_tree_def)
qed (simp add: bt_root_def pair_tree_def)

lemma pair_bnodes: "tree_bnodes pair_leaves pair_tree = {BLeaf 0 0 [1], BLeaf 1 6 [2], BNode 2 3}"
  by (auto simp: tree_bnodes_def leaf_bnodes_def pair_leaves_def pair_tree_def lessThan_Suc)

lemma pair_collision_free: "batch_collision_free pair_hash {BLeaf 0 0 [1], BLeaf 1 6 [2], BNode 2 3}"
  by (auto simp: batch_collision_free_def inj_on_def ZERO_def simp flip: bnode_hash_def)

section \<open>Properties\<close>

text \<open>
  Every transaction of a batch can be proven: the tree of a batch is built without
  panicking, and for every position, and no other, it yields a path that leads from the leaf
  of that position to the root.
\<close>

lemma leaf_proofs_complete:
  assumes "length leaves < 2 ^ 64"
  shows "\<exists>t root. build H leaves = (Ok t :: ('e, _) result) \<and> bt_root t = (Ok root :: ('e, _) result)
    \<and> bt_tx_count t = of_nat (length leaves)
    \<and> (\<forall>index. if unat index < length leaves
         then \<exists>p. bt_prove t index = (Ok (Some p) :: ('e, _) result)
           \<and> root_for H p (leaf_hash H index (fst (leaves ! unat index)) (snd (leaves ! unat index))) = root
         else bt_prove t index = (Ok None :: ('e, _) result))"
proof -
  obtain d where d: "length (padded H leaves) = 2 ^ d" "length leaves \<le> 2 ^ d" using length_padded by blast
  from levels_up_complete [OF d(1), where 'e = 'e] obtain levels root where
    l: "levels_up H (padded H leaves) = (Ok levels :: ('e, _) result)" "levels \<noteq> []" "last levels = [root]"
    and p: "\<And>index :: u64. unat index < 2 ^ d \<Longrightarrow>
      \<exists>ss. sibling_path (unat index) (butlast levels) = (Ok ss :: ('e, _) result)
        \<and> root_for_loop H (padded H leaves ! unat index) index ss = root" by metis
  let ?t = "\<lparr>bt_levels = levels, bt_tx_count = of_nat (length leaves)\<rparr>"
  have n: "unat (of_nat (length leaves) :: u64) = length leaves" using assms by (simp add: unat_of_nat_small)
  have "if unat index < length leaves
         then \<exists>p. bt_prove ?t index = (Ok (Some p) :: ('e, _) result)
           \<and> root_for H p (leaf_hash H index (fst (leaves ! unat index)) (snd (leaves ! unat index))) = root
         else bt_prove ?t index = (Ok None :: ('e, _) result)" for index :: u64
  proof (cases "unat index < length leaves")
    case True
    then have leaf: "padded H leaves ! unat index
        = leaf_hash H index (fst (leaves ! unat index)) (snd (leaves ! unat index))"
      by (simp add: padded_def nth_append leaf_level_nth)
    from p [of index] True d(2) obtain ss where "sibling_path (unat index) (butlast levels) = (Ok ss :: ('e, _) result)"
      "root_for_loop H (padded H leaves ! unat index) index ss = root" by force
    with True l(2) n leaf show ?thesis by (simp add: bt_prove_def word_le_nat_alt root_for_def)
  qed (simp add: bt_prove_def word_le_nat_alt n)
  with l show ?thesis
    by (intro exI [of _ ?t] exI [of _ root]) (simp add: build_levels [OF assms] bt_root_def)
qed

text \<open>
  Nothing but the batch's transactions can be proven: if any path at all, of any length,
  leads from a leaf to the root of a batch's tree, then the batch holds exactly these
  transaction bytes, with this start position, at the position the leaf names.
\<close>

lemma leaf_proofs_sound:
  assumes b: "build H leaves = (Ok t :: ('e, _) result)" "bt_root t = (Ok root :: ('e, _) result)"
    and p: "root_for H p (leaf_hash H i s bs) = root"
    and cf: "batch_collision_free H (insert (BLeaf i s bs)
        (path_bnodes H (leaf_hash H i s bs) (lp_index p) (lp_siblings p) \<union> tree_bnodes leaves t))"
  shows "unat i < length leaves \<and> leaves ! unat i = (s, bs)"
proof -
  let ?leaf = "leaf_hash H i s bs" and ?ss = "lp_siblings p"
  note bt = build_Ok [OF b]
  have h: "?leaf = bnode_hash H (BLeaf i s bs)" by (rule bnode_hashes)
  have "last (bt_levels t) = [root_for_loop H ?leaf (lp_index p) ?ss]" using bt(4) p by (simp add: root_for_def)
  moreover have "batch_collision_free H (insert (BLeaf i s bs) (path_bnodes H ?leaf (lp_index p) ?ss
      \<union> (\<Union>level \<in> set (bt_levels t). level_pairs level)))"
    by (rule batch_collision_free_mono [OF cf]) (auto simp: tree_bnodes_def)
  ultimately obtain j where
    j: "j \<le> length ?ss" "root_for_loop H ?leaf (lp_index p) (take j ?ss) \<in> set (padded H leaves)"
    using levels_up_path [OF bt(2) _ _ h] by blast
  obtain n where n: "root_for_loop H ?leaf (lp_index p) (take j ?ss) = bnode_hash H n"
    "n \<in> insert (BLeaf i s bs) (path_bnodes H ?leaf (lp_index p) ?ss)"
    "n = BLeaf i s bs \<or> (\<exists>l r. n = BNode l r)"
  proof (cases "j = 0")
    case False
    then have "0 < j" by simp
    then obtain n where "root_for_loop H ?leaf (lp_index p) (take j ?ss) = bnode_hash H n"
      "n \<in> path_bnodes H ?leaf (lp_index p) ?ss" "\<exists>l r. n = BNode l r"
      using path_prefix [OF _ j(1), of H ?leaf "lp_index p"] by metis
    then show thesis using that [of n] by simp
  qed (use h that in simp)
  have "bnode_hash H n \<noteq> ZERO" using batch_collision_freeD(2) [OF cf, of n] n(2) by auto
  with in_padded [OF j(2) [unfolded n(1)]] obtain k where k: "k < length leaves"
    "bnode_hash H n = bnode_hash H (BLeaf (of_nat k) (fst (leaves ! k)) (snd (leaves ! k)))" by auto
  have "n = BLeaf (of_nat k) (fst (leaves ! k)) (snd (leaves ! k))"
    by (rule batch_collision_freeD(1) [OF cf _ _ k(2)]) (use n(2) k(1) in \<open>auto simp: tree_bnodes_def leaf_bnodes_def\<close>)
  with n(3) k(1) bt(1) show ?thesis by (auto simp: unat_of_nat_small)
qed

end
