(* ===== verification/Bisection.thy ===== *)
theory Bisection
  imports Instruction
begin

text \<open>
  The interactive bisection protocol (\<open>bisection.rs\<close>): a dispute as a state machine over
  explicit times, its moves, clocks and timeouts, and the division of the disputed interval.
  A refused move may still change the dispute (a late mover forfeits), so every move returns
  the dispute together with its result.
\<close>

section \<open>Data\<close>

datatype party = Defender | Challenger

fun opponent :: "party \<Rightarrow> party" where
  "opponent Defender = Challenger"
| "opponent Challenger = Defender"

datatype resolution = Timeout | ClockExhausted | OneStepAdjudicated

datatype stage =
    Bisecting "hash256 list option"
  | OneStep
  | Resolved party resolution

datatype move_error =
    AlreadyResolved
  | WrongTurn party party
  | WrongStage
  | WrongDissectionLength nat nat
  | SegmentOutOfRange nat nat
  | NoDisagreement
  | TimeWentBackwards

type_synonym party_id = u32
type_synonym assertion_id = hash256

record dispute_opening =
  op_assertion :: assertion_id
  op_defender :: party_id
  op_challenger :: party_id
  op_trace_length :: u64
  op_lo_commitment :: hash256
  op_hi_commitment :: hash256
  op_challenge_window :: u64

record dispute =
  d_assertion :: assertion_id
  d_defender :: party_id
  d_challenger :: party_id
  d_lo :: u64
  d_hi :: u64
  d_lo_commitment :: hash256
  d_hi_commitment :: hash256
  d_stage :: stage
  d_turn :: party
  d_deadline :: u64
  d_clock_budget :: u64
  d_defender_clock :: u64
  d_challenger_clock :: u64
  d_last_move_at :: u64
  d_arity :: u64

definition MOVE_TIMEOUT :: u64 where "MOVE_TIMEOUT = 6 * 60 * 60"
definition CLOCK_BUDGET_DIVISOR :: u64 where "CLOCK_BUDGET_DIVISOR = 4"
definition DEFAULT_ARITY :: u64 where "DEFAULT_ARITY = 8"

definition clock_budget :: "u64 \<Rightarrow> u64" where
  "clock_budget challenge_window = challenge_window div CLOCK_BUDGET_DIVISOR"

section \<open>Moves\<close>

fun collect_results :: "('a \<Rightarrow> ('e, 'b) result) \<Rightarrow> 'a list \<Rightarrow> ('e, 'b list) result" where
  "collect_results f [] = Ok []"
| "collect_results f (x # xs) = and_then (f x) (\<lambda>y. and_then (collect_results f xs) (\<lambda>ys. Ok (y # ys)))"

definition boundaries :: "u64 \<Rightarrow> u64 \<Rightarrow> u64 \<Rightarrow> ('e, u64 list) result" where
  "boundaries lo hi arity =
     and_then (or_panic (checked_sub hi lo)) (\<lambda>span.
       let segments = max (min arity span) 1 in
       collect_results (\<lambda>i.
           and_then (or_panic (checked_mul span (of_nat i))) (\<lambda>product.
             or_panic (checked_add lo (product div segments))))
         [0..<Suc (unat segments)])"

definition enter_one_step_if_narrow :: "dispute \<Rightarrow> dispute" where
  "enter_one_step_if_narrow d =
     (if saturating_sub (d_hi d) (d_lo d) = 1 then d\<lparr>d_stage := OneStep, d_turn := Challenger\<rparr> else d)"

definition dispute_open :: "dispute_opening \<Rightarrow> u64 \<Rightarrow> dispute" where
  "dispute_open opening now =
     (let budget = clock_budget (op_challenge_window opening) in
      enter_one_step_if_narrow
        \<lparr>d_assertion = op_assertion opening, d_defender = op_defender opening,
         d_challenger = op_challenger opening, d_lo = 0, d_hi = op_trace_length opening,
         d_lo_commitment = op_lo_commitment opening, d_hi_commitment = op_hi_commitment opening,
         d_stage = Bisecting None, d_turn = Defender,
         d_deadline = saturating_add now (min MOVE_TIMEOUT budget), d_clock_budget = budget,
         d_defender_clock = budget, d_challenger_clock = budget, d_last_move_at = now,
         d_arity = DEFAULT_ARITY\<rparr>)"

definition dispute_winner :: "dispute \<Rightarrow> party option" where
  "dispute_winner d = (case d_stage d of Resolved winner _ \<Rightarrow> Some winner | _ \<Rightarrow> None)"

definition disputed_step :: "dispute \<Rightarrow> u64 option" where
  "disputed_step d = (case d_stage d of OneStep \<Rightarrow> Some (d_lo d) | _ \<Rightarrow> None)"

definition dispute_boundaries :: "dispute \<Rightarrow> ('e, u64 list) result" where
  "dispute_boundaries d = boundaries (d_lo d) (d_hi d) (d_arity d)"

definition dissection_len :: "dispute \<Rightarrow> ('e, nat) result" where
  "dissection_len d = and_then (dispute_boundaries d) (\<lambda>bs. Ok (length bs - 2))"

definition is_resolved :: "stage \<Rightarrow> bool" where
  "is_resolved s = (case s of Resolved _ _ \<Rightarrow> True | _ \<Rightarrow> False)"

definition mover_clock :: "party \<Rightarrow> dispute \<Rightarrow> u64" where
  "mover_clock p d = (case p of Defender \<Rightarrow> d_defender_clock d | Challenger \<Rightarrow> d_challenger_clock d)"

definition set_mover_clock :: "party \<Rightarrow> u64 \<Rightarrow> dispute \<Rightarrow> dispute" where
  "set_mover_clock p c d =
     (case p of Defender \<Rightarrow> d\<lparr>d_defender_clock := c\<rparr> | Challenger \<Rightarrow> d\<lparr>d_challenger_clock := c\<rparr>)"

definition begin_move :: "dispute \<Rightarrow> u64 \<Rightarrow> party \<Rightarrow> dispute \<times> (move_error, unit) result" where
  "begin_move d now p =
     (if is_resolved (d_stage d) then (d, Err AlreadyResolved)
      else if now < d_last_move_at d then (d, Err TimeWentBackwards)
      else if d_turn d \<noteq> p then (d, Err (WrongTurn (d_turn d) p))
      else if now > d_deadline d then (d\<lparr>d_stage := Resolved (opponent p) Timeout\<rparr>, Err AlreadyResolved)
      else
        let elapsed = now - d_last_move_at d in
        if elapsed > mover_clock p d
        then (d\<lparr>d_stage := Resolved (opponent p) ClockExhausted\<rparr>, Err AlreadyResolved)
        else (set_mover_clock p (mover_clock p d - elapsed) d, Ok ()))"

definition pass_turn :: "dispute \<Rightarrow> u64 \<Rightarrow> dispute" where
  "pass_turn d now = d\<lparr>d_turn := opponent (d_turn d), d_last_move_at := now,
     d_deadline := saturating_add now (min MOVE_TIMEOUT (d_clock_budget d))\<rparr>"

definition dissect :: "dispute \<Rightarrow> u64 \<Rightarrow> hash256 list \<Rightarrow> dispute \<times> (move_error, unit) result" where
  "dissect d0 now commitments =
     (case begin_move d0 now Defender of
        (d, Err e) \<Rightarrow> (d, Err e)
      | (d, Panic) \<Rightarrow> (d, Panic)
      | (d, Ok _) \<Rightarrow>
          (case d_stage d of
             Bisecting _ \<Rightarrow>
               (case dispute_boundaries d of
                  Ok bs \<Rightarrow>
                    let expected = length bs - 2 in
                    if length commitments \<noteq> expected
                    then (d, Err (WrongDissectionLength expected (length commitments)))
                    else (pass_turn (d\<lparr>d_stage := Bisecting (Some commitments)\<rparr>) now, Ok ())
                | Err e \<Rightarrow> (d, Err e)
                | Panic \<Rightarrow> (d, Panic))
           | _ \<Rightarrow> (d, Err WrongStage)))"

definition narrow :: "dispute \<Rightarrow> u64 \<Rightarrow> u64 list \<Rightarrow> hash256 list \<Rightarrow> nat \<Rightarrow> dispute" where
  "narrow d now bs commitments index =
     enter_one_step_if_narrow (pass_turn
       (d\<lparr>d_lo := bs ! index, d_hi := bs ! (index + 1), d_lo_commitment := commitments ! index,
          d_hi_commitment := commitments ! (index + 1), d_stage := Bisecting None\<rparr>) now)"

definition select :: "dispute \<Rightarrow> u64 \<Rightarrow> nat \<Rightarrow> dispute \<times> (move_error, unit) result" where
  "select d0 now index =
     (case begin_move d0 now Challenger of
        (d, Err e) \<Rightarrow> (d, Err e)
      | (d, Panic) \<Rightarrow> (d, Panic)
      | (d, Ok _) \<Rightarrow>
          (case d_stage d of
             Bisecting (Some offered) \<Rightarrow>
               (case dispute_boundaries d of
                  Ok bs \<Rightarrow>
                    let segments = length bs - 1;
                        commitments = d_lo_commitment d # offered @ [d_hi_commitment d] in
                    if index \<ge> segments then (d, Err (SegmentOutOfRange index segments))
                    else if index + 1 \<ge> length commitments then (d, Panic)
                    else (narrow d now bs commitments index, Ok ())
                | Err e \<Rightarrow> (d, Err e)
                | Panic \<Rightarrow> (d, Panic))
           | _ \<Rightarrow> (d, Err WrongStage)))"

definition resolve_by_one_step :: "dispute \<Rightarrow> party \<Rightarrow> dispute" where
  "resolve_by_one_step d winner = d\<lparr>d_stage := Resolved winner OneStepAdjudicated\<rparr>"

definition check_timeout :: "dispute \<Rightarrow> u64 \<Rightarrow> dispute \<times> party option" where
  "check_timeout d now =
     (if is_resolved (d_stage d) \<or> now \<le> d_deadline d then (d, None)
      else (d\<lparr>d_stage := Resolved (opponent (d_turn d)) Timeout\<rparr>, Some (opponent (d_turn d))))"

section \<open>The division of an interval\<close>

text \<open>The \<open>i\<close>-th of \<open>n\<close> equal divisions of a span, as naturals.\<close>

definition division :: "nat \<Rightarrow> nat \<Rightarrow> nat \<Rightarrow> nat \<Rightarrow> nat" where
  "division lo span n i = lo + span * i div n"

definition segment_count :: "nat \<Rightarrow> nat" where
  "segment_count span = max (min 8 span) 1"

lemma collect_results_map:
  "(\<And>x. x \<in> set xs \<Longrightarrow> f x = Ok (g x)) \<Longrightarrow> collect_results f xs = Ok (map g xs)"
  by (induction xs) auto

lemma boundaries_Ok:
  assumes lo: "lo \<le> hi" and small: "unat hi < 2 ^ 61"
  shows "boundaries lo hi 8 = Ok (map (\<lambda>i. of_nat (division (unat lo) (unat (hi - lo)) (segment_count (unat (hi - lo))) i))
    [0..<Suc (segment_count (unat (hi - lo)))])"
proof -
  define span where "span = hi - lo"
  have us: "unat span = unat hi - unat lo" using lo by (simp add: span_def unat_sub)
  define n where "n = max (min 8 span) 1"
  have n: "unat n = segment_count (unat span)" 
    by (simp add: n_def segment_count_def max_def min_def word_le_nat_alt)
  have n8: "unat n \<le> 8" "0 < unat n" unfolding n by (simp_all add: segment_count_def)
  have sub: "checked_sub hi lo = Some span" using lo us by (simp add: checked_sub_Some_iff word_le_nat_alt)
  have each: "and_then (or_panic (checked_mul span (of_nat i))) (\<lambda>product. or_panic (checked_add lo (product div n)))
      = Ok (of_nat (division (unat lo) (unat span) (unat n) i))" if i: "i \<in> set [0..<Suc (unat n)]" for i
  proof -
    have i8: "i \<le> unat n" "unat (of_nat i :: u64) = i" using i n8 by (auto simp: unat_of_nat_small)
    have "unat span * i \<le> unat span * unat n" using i8 by simp
    moreover have "unat span * unat n \<le> (2 ^ 61 - 1) * 8" using us small n8 by (intro mult_le_mono) auto
    ultimately have "unat span * i \<le> (2 ^ 61 - 1) * 8" by (rule le_trans)
    then have "unat span * i < 2 ^ 64" by (rule le_less_trans) simp
    then obtain p where p: "checked_mul span (of_nat i) = Some p" "unat p = unat span * i"
      using i8(2) by (cases "checked_mul span (of_nat i)") (auto simp: arith_spec)
    have "unat span * i div unat n \<le> unat span * unat n div unat n"
      using \<open>unat span * i \<le> unat span * unat n\<close> by (rule div_le_mono)
    then have "unat span * i div unat n \<le> unat span" using n8 by simp
    then have b: "unat lo + unat span * i div unat n \<le> unat hi" using us lo by (simp add: word_le_nat_alt)
    have "checked_add lo (p div n) = Some (of_nat (division (unat lo) (unat span) (unat n) i))"
      unfolding checked_add_Some_iff using b small p(2)
      by (simp add: division_def unat_div unat_of_nat_small del: of_nat_add)
    with p show ?thesis by simp
  qed
  have "boundaries lo hi 8 = collect_results (\<lambda>i. and_then (or_panic (checked_mul span (of_nat i)))
      (\<lambda>product. or_panic (checked_add lo (product div n)))) [0..<Suc (unat n)]"
    unfolding n_def by (simp add: boundaries_def Let_def sub del: upt_Suc unat_max unat_min)
  also have "\<dots> = Ok (map (\<lambda>i. of_nat (division (unat lo) (unat span) (unat n) i)) [0..<Suc (unat n)])"
    by (rule collect_results_map) (rule each)
  finally show ?thesis by (simp only: n span_def)
qed

text \<open>From \<open>2 ^ 61\<close> steps on, the last product of the division does not fit 64 bits.\<close>

lemma collect_results_Panic:
  "\<exists>x \<in> set xs. f x = Panic \<Longrightarrow> \<forall>x \<in> set xs. \<forall>e. f x \<noteq> Err e \<Longrightarrow> collect_results f xs = Panic"
proof (induction xs)
  case (Cons x xs)
  then show ?case by (cases "f x") auto
qed simp

lemma boundaries_overflow:
  assumes "2 ^ 61 \<le> unat hi"
  shows "boundaries 0 hi 8 = Panic"
proof -
  have n: "max (min 8 hi) 1 = 8" using assms by (simp add: word_le_nat_alt max_def min_def)
  have "checked_mul hi 8 = None" using assms by (simp add: checked_mul_None_iff)
  then have "collect_results (\<lambda>i. and_then (or_panic (checked_mul hi (of_nat i))) (\<lambda>product. or_panic (checked_add 0 (product div 8))))
      [0..<Suc (unat (8 :: u64))] = (Panic :: ('e, u64 list) result)"
    by (intro collect_results_Panic bexI [of _ 8]) (auto simp: and_then_Err_iff or_panic_not_Err)
  then show ?thesis unfolding boundaries_def by (simp add: checked_sub_def n Let_def del: upt_Suc unat_max unat_min)
qed

lemma division_0 [simp]: "division lo span n 0 = lo"
  by (simp add: division_def)

lemma division_n [simp]: "0 < n \<Longrightarrow> division lo span n n = lo + span"
  by (simp add: division_def)

lemma segment_count_bounds: "0 < segment_count span" "segment_count span \<le> 8" "0 < span \<Longrightarrow> segment_count span \<le> span"
  by (auto simp: segment_count_def)

lemma div_add_ceil: "0 < n \<Longrightarrow> (a + b) div n \<le> a div n + (b + n - 1) div (n :: nat)"
proof -
  assume n: "0 < n"
  have "a + b \<le> n * (a div n) + (b + n - 1)"
    using mult_div_mod_eq [of n a] mod_less_divisor [OF n, of a] by linarith
  then have "(a + b) div n \<le> (n * (a div n) + (b + n - 1)) div n" by (rule div_le_mono)
  also have "(n * (a div n) + c) div n = a div n + c div n" for c using n by simp
  finally show ?thesis .
qed

text \<open>Every division is non-empty and at most an eighth of the span, rounded up.\<close>

lemma division_segment:
  assumes "0 < span"
  shows "division lo span (segment_count span) i < division lo span (segment_count span) (Suc i)"
    and "division lo span (segment_count span) (Suc i) - division lo span (segment_count span) i \<le> (span + 7) div 8"
proof -
  let ?n = "segment_count span"
  have n: "0 < ?n" "?n \<le> span" using segment_count_bounds assms by auto
  have e: "span * Suc i = span * i + span" by simp
  have "(span * i + ?n) div ?n \<le> (span * i + span) div ?n" using n by (intro div_le_mono) simp
  moreover have "(span * i + ?n) div ?n = Suc (span * i div ?n)"
    using n div_add_self2 [of ?n "span * i"] by simp
  ultimately show "division lo span ?n i < division lo span ?n (Suc i)" unfolding division_def e by linarith
  have "(span + ?n - 1) div ?n \<le> (span + 7) div 8"
  proof (cases "span \<le> 8")
    case True
    then have "?n = span" using assms by (simp add: segment_count_def)
    moreover have "(span + span - 1) div span = 1" using assms by (intro div_nat_eqI) auto
    moreover have "1 \<le> (span + 7) div 8" using assms by simp
    ultimately show ?thesis by simp
  next
    case False
    then have "?n = 8" by (simp add: segment_count_def)
    then show ?thesis by simp
  qed
  with div_add_ceil [OF n(1), of "span * i" span]
  show "division lo span ?n (Suc i) - division lo span ?n i \<le> (span + 7) div 8"
    unfolding division_def e by linarith
qed

lemma division_mono: "i \<le> j \<Longrightarrow> division lo span n i \<le> division lo span n j"
  by (simp add: division_def div_le_mono)

lemma division_bounds: "i \<le> segment_count span \<Longrightarrow> lo \<le> division lo span (segment_count span) i"
  "i \<le> segment_count span \<Longrightarrow> division lo span (segment_count span) i \<le> lo + span"
  using division_mono [of i "segment_count span" lo span "segment_count span"] segment_count_bounds(1) [of span]
  by (simp_all add: division_def)

section \<open>The protocol as a state machine\<close>

text \<open>
  Everything anyone can do to a dispute: the two moves, a timeout call, the adjudication of
  the disputed step.  Moves may be refused; a panicking call aborts and changes nothing.  The
  counter is the number of selections the dispute has accepted.
\<close>

inductive dispute_reach :: "dispute_opening \<Rightarrow> u64 \<Rightarrow> nat \<Rightarrow> dispute \<Rightarrow> bool" for opn opened where
  Open: "dispute_reach opn opened 0 (dispute_open opn opened)"
| Dissect: "dispute_reach opn opened n d \<Longrightarrow> dissect d now cs = (d', r) \<Longrightarrow> r \<noteq> Panic \<Longrightarrow>
    dispute_reach opn opened n d'"
| Select: "dispute_reach opn opened n d \<Longrightarrow> select d now index = (d', Ok ()) \<Longrightarrow> dispute_reach opn opened (Suc n) d'"
| SelectRefused: "dispute_reach opn opened n d \<Longrightarrow> select d now index = (d', Err e) \<Longrightarrow> dispute_reach opn opened n d'"
| CheckTimeout: "dispute_reach opn opened n d \<Longrightarrow> check_timeout d now = (d', w) \<Longrightarrow> dispute_reach opn opened n d'"
| Adjudicated: "dispute_reach opn opened n d \<Longrightarrow> disputed_step d = Some k \<Longrightarrow>
    dispute_reach opn opened n (resolve_by_one_step d w)"

text \<open>The invariant: the interval, whose turn it is, the pending offer, the clocks and the deadline.\<close>

definition interval_inv :: "nat \<Rightarrow> dispute \<Rightarrow> bool" where
  "interval_inv len d \<longleftrightarrow> unat (d_lo d) < unat (d_hi d) \<and> unat (d_hi d) \<le> len \<and> d_arity d = 8
     \<and> (case d_stage d of
          OneStep \<Rightarrow> unat (d_hi d) = Suc (unat (d_lo d)) \<and> d_turn d = Challenger
        | Bisecting None \<Rightarrow> Suc (unat (d_lo d)) < unat (d_hi d) \<and> d_turn d = Defender
        | Bisecting (Some cs) \<Rightarrow> Suc (unat (d_lo d)) < unat (d_hi d) \<and> d_turn d = Challenger
            \<and> Suc (length cs) = segment_count (unat (d_hi d) - unat (d_lo d))
        | Resolved _ _ \<Rightarrow> True)"

definition clock_inv :: "nat \<Rightarrow> u64 \<Rightarrow> dispute \<Rightarrow> bool" where
  "clock_inv opened budget d \<longleftrightarrow> d_clock_budget d = budget \<and> opened \<le> unat (d_last_move_at d)
     \<and> unat (d_defender_clock d) + unat (d_challenger_clock d) + (unat (d_last_move_at d) - opened) \<le> 2 * unat budget
     \<and> unat (d_deadline d) \<le> unat (d_last_move_at d) + min (unat MOVE_TIMEOUT) (unat budget)"

text \<open>A refused move changes at most the mover's clock, or ends the dispute.\<close>

definition refused_move :: "dispute \<Rightarrow> dispute \<Rightarrow> bool" where
  "refused_move d d' \<longleftrightarrow> (\<exists>c e st. d' = d\<lparr>d_defender_clock := c, d_challenger_clock := e, d_stage := st\<rparr>
     \<and> c \<le> d_defender_clock d \<and> e \<le> d_challenger_clock d \<and> (st = d_stage d \<or> is_resolved st))"

lemma refused_moveI [simp]:
  "refused_move d d"
  "is_resolved st \<Longrightarrow> refused_move d (d\<lparr>d_stage := st\<rparr>)"
  by (cases d; auto simp: refused_move_def)+

definition accepted_move :: "party \<Rightarrow> u64 \<Rightarrow> dispute \<Rightarrow> dispute \<Rightarrow> bool" where
  "accepted_move p now d d' \<longleftrightarrow> \<not> is_resolved (d_stage d) \<and> d_turn d = p \<and> d_last_move_at d \<le> now
     \<and> now \<le> d_deadline d \<and> now - d_last_move_at d \<le> mover_clock p d
     \<and> d' = set_mover_clock p (mover_clock p d - (now - d_last_move_at d)) d"

lemma accepted_refused: "accepted_move p now d d' \<Longrightarrow> refused_move d d'"
proof -
  assume a: "accepted_move p now d d'"
  then have "mover_clock p d - (now - d_last_move_at d) \<le> mover_clock p d"
    by (simp add: accepted_move_def word_sub_le)
  with a show ?thesis
    by (cases p; cases d) (auto simp: accepted_move_def refused_move_def set_mover_clock_def mover_clock_def)
qed

lemma begin_move_cases:
  assumes "begin_move d now p = (d', r)"
  obtains (refused) e where "r = Err e" "refused_move d d'"
    | (accepted) "r = Ok ()" "accepted_move p now d d'"
  using assms by (auto simp: begin_move_def Let_def not_less accepted_move_def is_resolved_def split: if_splits)

lemma dissect_cases:
  assumes "dissect d now cs = (d', r)" "r \<noteq> Panic"
  obtains (refused) e where "r = Err e" "refused_move d d'"
    | (dissected) d1 off bs where "r = Ok ()" "accepted_move Defender now d d1" "d_stage d1 = Bisecting off"
        "dispute_boundaries d1 = (Ok bs :: (move_error, _) result)" "length cs = length bs - 2"
        "d' = pass_turn (d1\<lparr>d_stage := Bisecting (Some cs)\<rparr>) now"
proof (cases "begin_move d now Defender")
  case (Pair d1 r1)
  from Pair show ?thesis
  proof (cases rule: begin_move_cases)
    case (refused e)
    with Pair assms(1) that(1) show ?thesis by (auto simp: dissect_def)
  next
    case accepted
    note r = accepted_refused [OF accepted(2)]
    show ?thesis
      using Pair assms accepted that(2) [OF _ accepted(2)] that(1) r
      by (auto simp: dissect_def Let_def split: stage.splits result.splits if_splits)
  qed
qed

lemma select_cases:
  assumes "select d now index = (d', r)" "r \<noteq> Panic"
  obtains (refused) e where "r = Err e" "refused_move d d'"
    | (selected) d1 off bs where "r = Ok ()" "accepted_move Challenger now d d1" "d_stage d1 = Bisecting (Some off)"
        "dispute_boundaries d1 = (Ok bs :: (move_error, _) result)" "Suc index < length bs" "index \<le> length off"
        "d' = narrow d1 now bs (d_lo_commitment d1 # off @ [d_hi_commitment d1]) index"
proof (cases "begin_move d now Challenger")
  case (Pair d1 r1)
  from Pair show ?thesis
  proof (cases rule: begin_move_cases)
    case (refused e)
    with Pair assms(1) that(1) show ?thesis by (auto simp: select_def)
  next
    case accepted
    note r = accepted_refused [OF accepted(2)]
    show ?thesis
      using Pair assms accepted that(2) [OF _ accepted(2)] that(1) r
      by (auto simp: select_def Let_def split: stage.splits result.splits if_splits option.splits)
  qed
qed

lemma accepted_move_fields:
  assumes "accepted_move p now d d'"
  shows "d_lo d' = d_lo d" "d_hi d' = d_hi d" "d_stage d' = d_stage d" "d_turn d' = p" "d_arity d' = d_arity d"
    "d_lo_commitment d' = d_lo_commitment d" "d_hi_commitment d' = d_hi_commitment d"
    "d_clock_budget d' = d_clock_budget d" "d_last_move_at d' = d_last_move_at d"
    "d_turn d = p" "\<not> is_resolved (d_stage d)"
  using assms by (auto simp: accepted_move_def set_mover_clock_def split: party.splits)

lemma refused_interval_inv: "interval_inv len d \<Longrightarrow> refused_move d d' \<Longrightarrow> interval_inv len d'"
  by (auto simp: interval_inv_def refused_move_def is_resolved_def split: stage.splits option.splits)

lemma dispute_boundaries_inv:
  assumes "interval_inv len d" "len < 2 ^ 61"
  defines "span \<equiv> unat (d_hi d) - unat (d_lo d)"
  shows "dispute_boundaries d = Ok (map (\<lambda>i. of_nat (division (unat (d_lo d)) span (segment_count span) i))
    [0..<Suc (segment_count span)])"
proof -
  have "d_lo d \<le> d_hi d" "unat (d_hi d) < 2 ^ 61" "d_arity d = 8"
    using assms(1,2) by (auto simp: interval_inv_def word_le_nat_alt)
  with boundaries_Ok [of "d_lo d" "d_hi d"] show ?thesis by (simp add: dispute_boundaries_def span_def unat_sub)
qed

text \<open>The boundaries of a dispute, read back as naturals.\<close>

lemma boundary_values:
  assumes inv: "interval_inv len d" "len < 2 ^ 61" and bs: "dispute_boundaries d = (Ok bs :: ('e, _) result)"
  defines "span \<equiv> unat (d_hi d) - unat (d_lo d)"
  shows "length bs = Suc (segment_count span)"
    and "i < length bs \<Longrightarrow> unat (bs ! i) = division (unat (d_lo d)) span (segment_count span) i"
proof -
  have b: "bs = map (\<lambda>i. of_nat (division (unat (d_lo d)) span (segment_count span) i)) [0..<Suc (segment_count span)]"
    using dispute_boundaries_inv [OF inv, where 'a = 'e] bs by (simp add: span_def del: upt_Suc)
  then show len: "length bs = Suc (segment_count span)" by simp
  show "unat (bs ! i) = division (unat (d_lo d)) span (segment_count span) i" if i: "i < length bs"
  proof -
    have "division (unat (d_lo d)) span (segment_count span) i \<le> unat (d_lo d) + span"
      by (rule division_bounds) (use i len in simp)
    also have "\<dots> < 2 ^ 61" using inv by (auto simp: span_def interval_inv_def)
    finally have "division (unat (d_lo d)) span (segment_count span) i < 2 ^ 61" .
    then show ?thesis using i unfolding b by (simp add: unat_of_nat_small del: upt_Suc)
  qed
qed

lemma is_resolved_simps [simp]:
  "is_resolved (Resolved w why)" "\<not> is_resolved (Bisecting off)" "\<not> is_resolved OneStep"
  by (simp_all add: is_resolved_def)

lemma dissect_interval_inv:
  assumes inv: "interval_inv len d" "len < 2 ^ 61" and d: "dissect d now cs = (d', r)" "r \<noteq> Panic"
  shows "interval_inv len d'"
  using d
proof (cases rule: dissect_cases)
  case (refused e)
  then show ?thesis using refused_interval_inv [OF inv(1)] by blast
next
  case (dissected d1 off bs)
  note inv1 = refused_interval_inv [OF inv(1) accepted_refused [OF dissected(2)]]
  have "length bs = Suc (segment_count (unat (d_hi d1) - unat (d_lo d1)))"
    by (rule boundary_values(1) [OF inv1 inv(2) dissected(4)])
  with inv1 dissected segment_count_bounds(1) [of "unat (d_hi d1) - unat (d_lo d1)"] accepted_move_fields [OF dissected(2)]
  show ?thesis by (auto simp: interval_inv_def pass_turn_def split: option.splits)
qed

text \<open>What a selection does: the new interval is one of the divisions, and the game goes on.\<close>

lemma narrow_interval:
  fixes now :: u64 and cs :: "hash256 list"
  assumes inv: "interval_inv len d" "len < 2 ^ 61" and bs: "dispute_boundaries d = (Ok bs :: ('e, _) result)"
    and i: "Suc index < length bs" and turn: "d_turn d = Challenger"
  defines "span \<equiv> unat (d_hi d) - unat (d_lo d)" and "d' \<equiv> narrow d now bs cs index"
  shows "interval_inv len d'" and "unat (d_hi d') - unat (d_lo d') \<le> (span + 7) div 8"
proof -
  note bv = boundary_values [OF inv bs, folded span_def]
  have span: "0 < span" using inv(1) by (auto simp: span_def interval_inv_def)
  have lo: "unat (bs ! index) = division (unat (d_lo d)) span (segment_count span) index"
    and hi: "unat (bs ! Suc index) = division (unat (d_lo d)) span (segment_count span) (Suc index)"
    using bv(2) i by auto
  have f: "d_lo d' = bs ! index" "d_hi d' = bs ! Suc index" "d_arity d' = d_arity d"
    by (auto simp: d'_def narrow_def enter_one_step_if_narrow_def pass_turn_def)
  have lt: "unat (bs ! index) < unat (bs ! Suc index)" using division_segment(1) [OF span] by (simp add: lo hi)
  have "unat (bs ! Suc index) \<le> unat (d_lo d) + span"
    unfolding hi by (rule division_bounds) (use i bv(1) in simp)
  then have le: "unat (bs ! Suc index) \<le> len" using inv(1) by (auto simp: span_def interval_inv_def)
  have one: "saturating_sub (bs ! Suc index) (bs ! index) = 1 \<longleftrightarrow> unat (bs ! Suc index) = Suc (unat (bs ! index))"
    using lt by (auto simp: word_unat_eq_iff arith_spec)
  show "interval_inv len d'"
    using inv(1) lt le one turn
    by (auto simp: d'_def interval_inv_def narrow_def enter_one_step_if_narrow_def pass_turn_def)
  show "unat (d_hi d') - unat (d_lo d') \<le> (span + 7) div 8"
    unfolding f lo hi by (rule division_segment(2) [OF span])
qed

lemma select_interval_inv:
  assumes inv: "interval_inv len d" "len < 2 ^ 61" and d: "select d now index = (d', r)" "r \<noteq> Panic"
  shows "interval_inv len d'"
  using d
proof (cases rule: select_cases)
  case (refused e)
  then show ?thesis using refused_interval_inv [OF inv(1)] by blast
next
  case (selected d1 off bs)
  note inv1 = refused_interval_inv [OF inv(1) accepted_refused [OF selected(2)]]
  show ?thesis
    unfolding selected(7)
    by (rule narrow_interval(1) [OF inv1 inv(2) selected(4,5)]) (rule accepted_move_fields(4) [OF selected(2)])
qed

lemma check_timeout_refused: "check_timeout d now = (d', w) \<Longrightarrow> refused_move d d'"
  by (auto simp: check_timeout_def split: if_splits)

lemma open_interval_inv: "0 < unat (op_trace_length opn) \<Longrightarrow> interval_inv (unat (op_trace_length opn)) (dispute_open opn now)"
  by (auto simp: dispute_open_def Let_def interval_inv_def enter_one_step_if_narrow_def DEFAULT_ARITY_def
      word_unat_eq_iff arith_spec)

lemma reach_interval_inv:
  assumes "dispute_reach opn opened n d" "0 < unat (op_trace_length opn)" "unat (op_trace_length opn) < 2 ^ 61"
  shows "interval_inv (unat (op_trace_length opn)) d"
  using assms(1)
proof (induction rule: dispute_reach.induct)
  case Open
  show ?case using assms(2) by (rule open_interval_inv)
next
  case (Dissect n d now cs d' r)
  then show ?case using dissect_interval_inv assms(3) by blast
next
  case (Select n d now index d')
  then show ?case using select_interval_inv [OF _ assms(3)] by blast
next
  case (SelectRefused n d now index d' e)
  then show ?case using select_interval_inv [OF _ assms(3)] by blast
next
  case (CheckTimeout n d now d' w)
  then show ?case using refused_interval_inv check_timeout_refused by blast
next
  case (Adjudicated n d k w)
  then show ?case by (auto simp: interval_inv_def resolve_by_one_step_def)
qed

lemma moves_not_panic:
  assumes inv: "interval_inv len d" "len < 2 ^ 61"
  shows "snd (dissect d now cs) \<noteq> Panic" "snd (select d now index) \<noteq> Panic"
proof -
  have acc: "interval_inv len d1" if "accepted_move p now d d1" for p d1
    by (rule refused_interval_inv [OF inv(1) accepted_refused [OF that]])
  obtain d1 r1 where d1: "begin_move d now Defender = (d1, r1)" by force
  then show "snd (dissect d now cs) \<noteq> Panic"
  proof (cases rule: begin_move_cases)
    case accepted
    obtain bs where "dispute_boundaries d1 = (Ok bs :: (move_error, _) result)"
      using dispute_boundaries_inv [OF acc [OF accepted(2)] inv(2)] by blast
    with d1 accepted(1) show ?thesis by (auto simp: dissect_def Let_def split: stage.splits)
  qed (use d1 in \<open>simp add: dissect_def\<close>)
  obtain d2 r2 where d2: "begin_move d now Challenger = (d2, r2)" by force
  then show "snd (select d now index) \<noteq> Panic"
  proof (cases rule: begin_move_cases)
    case accepted
    obtain bs where bs: "dispute_boundaries d2 = (Ok bs :: (move_error, _) result)"
      using dispute_boundaries_inv [OF acc [OF accepted(2)] inv(2)] by blast
    have "length bs = Suc (segment_count (unat (d_hi d2) - unat (d_lo d2)))"
      by (rule boundary_values(1) [OF acc [OF accepted(2)] inv(2) bs])
    with d2 accepted(1) bs acc [OF accepted(2)] show ?thesis
      by (auto simp: select_def Let_def interval_inv_def split: stage.splits option.splits)
  qed (use d2 in \<open>simp add: select_def\<close>)
qed

text \<open>Clocks.\<close>

lemma refused_clock_inv: "clock_inv opened budget d \<Longrightarrow> refused_move d d' \<Longrightarrow> clock_inv opened budget d'"
proof -
  assume inv: "clock_inv opened budget d" and r: "refused_move d d'"
  from r obtain c e st where d': "d' = d\<lparr>d_defender_clock := c, d_challenger_clock := e, d_stage := st\<rparr>"
    and "unat c \<le> unat (d_defender_clock d)" "unat e \<le> unat (d_challenger_clock d)"
    by (auto simp: refused_move_def word_le_nat_alt)
  with inv show ?thesis by (auto simp: clock_inv_def)
qed

lemma pass_turn_clock_inv:
  assumes inv: "clock_inv opened budget d" and a: "accepted_move p now d d1"
  shows "clock_inv opened budget (pass_turn (d1\<lparr>d_lo := lo, d_hi := hi, d_lo_commitment := lc, d_hi_commitment := hc,
    d_stage := st\<rparr>) now)"
proof -
  have el: "unat (now - d_last_move_at d) = unat now - unat (d_last_move_at d)"
    "unat (d_last_move_at d) \<le> unat now"
    and cl: "unat (mover_clock p d - (now - d_last_move_at d)) = unat (mover_clock p d) - unat (now - d_last_move_at d)"
    "unat (now - d_last_move_at d) \<le> unat (mover_clock p d)"
    using a by (auto simp: accepted_move_def unat_sub word_le_nat_alt)
  have d1: "d1 = set_mover_clock p (mover_clock p d - (now - d_last_move_at d)) d" using a by (simp add: accepted_move_def)
  have "unat (saturating_add now (min MOVE_TIMEOUT budget)) \<le> unat now + min (unat MOVE_TIMEOUT) (unat budget)"
    by (simp add: arith_spec)
  with inv el cl show ?thesis
    by (cases p) (auto simp: clock_inv_def pass_turn_def d1 set_mover_clock_def mover_clock_def)
qed

lemma enter_clock_inv [simp]: "clock_inv opened budget (enter_one_step_if_narrow d) = clock_inv opened budget d"
  by (simp add: clock_inv_def enter_one_step_if_narrow_def)

lemma reach_clock_inv:
  "dispute_reach opn opened n d \<Longrightarrow> clock_inv (unat opened) (clock_budget (op_challenge_window opn)) d"
proof (induction rule: dispute_reach.induct)
  case Open
  have "unat (saturating_add opened (min MOVE_TIMEOUT b)) \<le> unat opened + min (unat MOVE_TIMEOUT) (unat b)" for b
    by (simp add: arith_spec)
  then show ?case by (simp add: dispute_open_def Let_def) (simp add: clock_inv_def)
next
  case (Dissect n d now cs d' r)
  from Dissect(2,3) show ?case
  proof (cases rule: dissect_cases)
    case (refused e)
    then show ?thesis using refused_clock_inv Dissect.IH by blast
  next
    case (dissected d1 off bs)
    from pass_turn_clock_inv [OF Dissect.IH dissected(2), where lo = "d_lo d1" and hi = "d_hi d1"
        and lc = "d_lo_commitment d1" and hc = "d_hi_commitment d1" and st = "Bisecting (Some cs)"]
      dissected(6) show ?thesis by simp
  qed
next
  case (Select n d now index d')
  from Select(2) result.distinct(3) show ?case
  proof (cases rule: select_cases)
    case (selected d1 off bs)
    then show ?thesis using pass_turn_clock_inv [OF Select.IH selected(2)] by (simp add: narrow_def)
  qed simp_all
next
  case (SelectRefused n d now index d' e)
  from SelectRefused(2) result.distinct(5) show ?case
  proof (cases rule: select_cases)
    case (refused e')
    then show ?thesis using refused_clock_inv SelectRefused.IH by blast
  qed simp_all
next
  case (CheckTimeout n d now d' w)
  then show ?case using refused_clock_inv check_timeout_refused by blast
next
  case (Adjudicated n d k w)
  then show ?case by (auto simp: clock_inv_def resolve_by_one_step_def)
qed

text \<open>
  Outside the range of lengths the game is made for.  Over no steps at all the interval stays empty and
  is divided for ever; over \<open>2 ^ 61\<close> steps and more it cannot be divided at all.
\<close>

definition empty_inv :: "dispute \<Rightarrow> bool" where
  "empty_inv d \<longleftrightarrow> d_lo d = 0 \<and> d_hi d = 0 \<and> d_arity d = 8
     \<and> (case d_stage d of OneStep \<Rightarrow> False | Bisecting (Some cs) \<Rightarrow> cs = [] | _ \<Rightarrow> True)"

definition huge_inv :: "u64 \<Rightarrow> nat \<Rightarrow> dispute \<Rightarrow> bool" where
  "huge_inv len n d \<longleftrightarrow> n = 0 \<and> d_lo d = 0 \<and> d_hi d = len \<and> d_arity d = 8
     \<and> (is_resolved (d_stage d) \<or> d_stage d = Bisecting None \<and> d_turn d = Defender)"

lemma empty_boundaries: "boundaries 0 0 8 = Ok [0, 0]"
  by (simp add: boundaries_def checked_sub_def checked_mul_def checked_add_def Let_def upt_rec)

lemma refused_outside_inv:
  assumes "refused_move d d'"
  shows "empty_inv d \<Longrightarrow> empty_inv d'" "huge_inv len n d \<Longrightarrow> huge_inv len n d'"
  using assms by (auto simp: empty_inv_def huge_inv_def refused_move_def is_resolved_def split: stage.splits option.splits)

lemma reach_empty_inv: "dispute_reach opn opened n d \<Longrightarrow> op_trace_length opn = 0 \<Longrightarrow> empty_inv d"
proof (induction rule: dispute_reach.induct)
  case Open
  then show ?case
    by (simp add: empty_inv_def dispute_open_def Let_def enter_one_step_if_narrow_def DEFAULT_ARITY_def saturating_sub_def)
next
  case (Dissect n d now cs d' r)
  from Dissect(2,3) show ?case
  proof (cases rule: dissect_cases)
    case (dissected d1 off bs)
    have "empty_inv d1" by (rule refused_outside_inv(1) [OF accepted_refused [OF dissected(2)]]) (use Dissect in blast)
    with dissected show ?thesis by (auto simp: empty_inv_def pass_turn_def dispute_boundaries_def empty_boundaries)
  qed (use Dissect refused_outside_inv(1) in blast)
next
  case (Select n d now index d')
  from Select(2) result.distinct(3) show ?case
  proof (cases rule: select_cases)
    case (selected d1 off bs)
    have "empty_inv d1" by (rule refused_outside_inv(1) [OF accepted_refused [OF selected(2)]]) (use Select in blast)
    with selected show ?thesis
      by (auto simp: empty_inv_def narrow_def pass_turn_def dispute_boundaries_def empty_boundaries
          enter_one_step_if_narrow_def saturating_sub_def less_Suc_eq)
  qed simp_all
next
  case (SelectRefused n d now index d' e)
  from SelectRefused(2) result.distinct(5) show ?case
    by (cases rule: select_cases) (use SelectRefused refused_outside_inv(1) in auto)
next
  case (CheckTimeout n d now d' w)
  then show ?case using refused_outside_inv(1) check_timeout_refused by blast
next
  case (Adjudicated n d k w)
  then show ?case by (auto simp: empty_inv_def resolve_by_one_step_def disputed_step_def split: stage.splits)
qed

lemma reach_huge_inv:
  assumes "dispute_reach opn opened n d" and len: "2 ^ 61 \<le> unat (op_trace_length opn)"
  shows "huge_inv (op_trace_length opn) n d"
  using assms(1)
proof (induction rule: dispute_reach.induct)
  case Open
  have "saturating_sub (op_trace_length opn) 0 \<noteq> 1" using len by (auto simp: saturating_sub_def)
  then show ?case by (simp add: huge_inv_def dispute_open_def Let_def enter_one_step_if_narrow_def DEFAULT_ARITY_def)
next
  case (Dissect n d now cs d' r)
  from Dissect(2,3) show ?case
  proof (cases rule: dissect_cases)
    case (dissected d1 off bs)
    have "huge_inv (op_trace_length opn) n d1"
      by (rule refused_outside_inv(2) [OF accepted_refused [OF dissected(2)]]) (use Dissect in blast)
    with dissected(4) boundaries_overflow [OF len, where 'a = move_error] show ?thesis by (simp add: huge_inv_def dispute_boundaries_def)
  qed (use Dissect refused_outside_inv(2) in blast)
next
  case (Select n d now index d')
  from Select(2) result.distinct(3) show ?case
  proof (cases rule: select_cases)
    case (selected d1 off bs)
    then show ?thesis using Select.IH accepted_move_fields [OF selected(2)] by (auto simp: huge_inv_def)
  qed simp_all
next
  case (SelectRefused n d now index d' e)
  from SelectRefused(2) result.distinct(5) show ?case
    by (cases rule: select_cases) (use SelectRefused refused_outside_inv(2) in auto)
next
  case (CheckTimeout n d now d' w)
  then show ?case using refused_outside_inv(2) check_timeout_refused by blast
next
  case (Adjudicated n d k w)
  then show ?case by (auto simp: huge_inv_def resolve_by_one_step_def disputed_step_def split: stage.splits)
qed

lemma empty_not_panic:
  assumes "empty_inv d"
  shows "snd (dissect d now cs) \<noteq> Panic" "snd (select d now index) \<noteq> Panic"
proof -
  obtain d1 r1 where d1: "begin_move d now Defender = (d1, r1)" by force
  then show "snd (dissect d now cs) \<noteq> Panic"
  proof (cases rule: begin_move_cases)
    case accepted
    have "empty_inv d1" by (rule refused_outside_inv(1) [OF accepted_refused [OF accepted(2)] assms])
    with d1 accepted(1) show ?thesis
      by (auto simp: dissect_def Let_def empty_inv_def dispute_boundaries_def empty_boundaries split: stage.splits)
  qed (use d1 in \<open>simp add: dissect_def\<close>)
  obtain d2 r2 where d2: "begin_move d now Challenger = (d2, r2)" by force
  then show "snd (select d now index) \<noteq> Panic"
  proof (cases rule: begin_move_cases)
    case accepted
    have "empty_inv d2" by (rule refused_outside_inv(1) [OF accepted_refused [OF accepted(2)] assms])
    with d2 accepted(1) show ?thesis
      by (auto simp: select_def Let_def empty_inv_def dispute_boundaries_def empty_boundaries split: stage.splits option.splits)
  qed (use d2 in \<open>simp add: select_def\<close>)
qed

text \<open>A move in time is one that the clocks and the deadline admit.\<close>

definition in_time :: "party \<Rightarrow> u64 \<Rightarrow> dispute \<Rightarrow> bool" where
  "in_time p now d \<longleftrightarrow> d_turn d = p \<and> d_last_move_at d \<le> now \<and> now \<le> d_deadline d \<and> now - d_last_move_at d \<le> mover_clock p d"

lemma begin_in_time:
  "\<not> is_resolved (d_stage d) \<Longrightarrow> in_time p now d \<Longrightarrow>
   begin_move d now p = (set_mover_clock p (mover_clock p d - (now - d_last_move_at d)) d, Ok ())"
  by (simp add: begin_move_def in_time_def Let_def not_less)

lemma huge_panics:
  assumes "huge_inv len n d" "2 ^ 61 \<le> unat len" "\<not> is_resolved (d_stage d)" "in_time Defender now d"
  shows "snd (dissect d now cs) = Panic"
proof -
  have "dispute_boundaries (set_mover_clock Defender c d) = (Panic :: (move_error, _) result)" for c
    using assms(1) boundaries_overflow [OF assms(2)] by (simp add: dispute_boundaries_def huge_inv_def set_mover_clock_def)
  with assms begin_in_time [OF assms(3,4)] show ?thesis
    by (simp add: dissect_def huge_inv_def) (simp add: set_mover_clock_def)
qed

text \<open>The interval shrinks by the arity with every selection.\<close>

lemma ceil_ceil: "0 < m \<Longrightarrow> ((len + m - 1) div m + 7) div 8 = (len + 8 * m - 1) div (8 * m :: nat)"
proof -
  assume m: "0 < m"
  have "x div m + 7 = (x + 7 * m) div m" for x using m by simp
  then have "(len + m - 1) div m + 7 = (len + m - 1 + 7 * m) div m" .
  also have "len + m - 1 + 7 * m = len + 8 * m - 1" using m by simp
  finally show ?thesis by (simp add: div_mult2_eq mult.commute [of 8 m])
qed

lemma reach_span:
  assumes "dispute_reach opn opened n d" and len: "0 < unat (op_trace_length opn)" "unat (op_trace_length opn) < 2 ^ 61"
  shows "unat (d_hi d) - unat (d_lo d) \<le> (unat (op_trace_length opn) + 8 ^ n - 1) div 8 ^ n
    \<and> (n = 0 \<or> 8 ^ (n - 1) < unat (op_trace_length opn))"
  using assms(1)
proof (induction rule: dispute_reach.induct)
  case Open
  show ?case by (simp add: dispute_open_def Let_def enter_one_step_if_narrow_def)
next
  case (Dissect n d now cs d' r)
  from Dissect(2,3) show ?case
  proof (cases rule: dissect_cases)
    case (refused e)
    then show ?thesis using Dissect.IH by (auto simp: refused_move_def)
  next
    case (dissected d1 off bs)
    then show ?thesis using Dissect.IH accepted_move_fields [OF dissected(2)] by (simp add: pass_turn_def)
  qed
next
  case (Select n d now index d')
  note inv = reach_interval_inv [OF Select(1) len]
  from Select(2) result.distinct(3) show ?case
  proof (cases rule: select_cases)
    case (selected d1 off bs)
    note f = accepted_move_fields [OF selected(2)]
    note inv1 = refused_interval_inv [OF inv accepted_refused [OF selected(2)]]
    have w: "unat (d_hi d') - unat (d_lo d') \<le> (unat (d_hi d1) - unat (d_lo d1) + 7) div 8"
      unfolding selected(7) by (rule narrow_interval(2) [OF inv1 len(2) selected(4,5) f(4)])
    also have "\<dots> \<le> ((unat (op_trace_length opn) + 8 ^ n - 1) div 8 ^ n + 7) div 8"
      using Select.IH f by (intro div_le_mono add_right_mono) simp
    finally have "unat (d_hi d') - unat (d_lo d') \<le> (unat (op_trace_length opn) + 8 ^ Suc n - 1) div 8 ^ Suc n"
      using ceil_ceil [of "8 ^ n" "unat (op_trace_length opn)"] by simp
    moreover have "2 \<le> unat (d_hi d) - unat (d_lo d)" using inv selected(3) f by (auto simp: interval_inv_def)
    then have "2 \<le> (unat (op_trace_length opn) + 8 ^ n - 1) div 8 ^ n" using Select.IH by linarith
    then have "2 * 8 ^ n \<le> unat (op_trace_length opn) + 8 ^ n - 1"
      by (simp add: less_eq_div_iff_mult_less_eq)
    then have "8 ^ n < unat (op_trace_length opn)" by (cases "8 ^ n :: nat") auto
    ultimately show ?thesis by simp
  qed simp_all
next
  case (SelectRefused n d now index d' e)
  from SelectRefused(2) result.distinct(5) show ?case
  proof (cases rule: select_cases)
    case (refused e')
    then show ?thesis using SelectRefused.IH by (auto simp: refused_move_def)
  qed simp_all
next
  case (CheckTimeout n d now d' w)
  then show ?case using check_timeout_refused [OF CheckTimeout(2)] by (auto simp: refused_move_def)
next
  case (Adjudicated n d k w)
  then show ?case by (simp add: resolve_by_one_step_def)
qed

section \<open>Properties\<close>

text \<open>
  C26.  A dispute is a well-formed game, whatever the two parties do, for every claimed trace length
  from one to \<open>2 ^ 61 - 1\<close>: the interval is never empty and stays inside the trace; while it is wider
  than one step it is the defender's turn exactly when no division is on offer, and an offer has
  exactly the commitments the interval requires; once it is one step wide it is the challenger who
  must prove; and no call panics.  Outside that range it is no game: a trace of length zero keeps an
  empty interval that never comes down to one step, and from \<open>2 ^ 61\<close> steps on the interval stays as
  it was opened and every division offered in time panics.
\<close>

theorem dispute_well_formed:
  assumes r: "dispute_reach opn opened n d"
  shows "(0 < unat (op_trace_length opn) \<and> unat (op_trace_length opn) < 2 ^ 61 \<longrightarrow>
      unat (d_lo d) < unat (d_hi d) \<and> unat (d_hi d) \<le> unat (op_trace_length opn)
      \<and> (case d_stage d of
           OneStep \<Rightarrow> unat (d_hi d) = Suc (unat (d_lo d)) \<and> d_turn d = Challenger
         | Bisecting None \<Rightarrow> Suc (unat (d_lo d)) < unat (d_hi d) \<and> d_turn d = Defender
         | Bisecting (Some cs) \<Rightarrow> Suc (unat (d_lo d)) < unat (d_hi d) \<and> d_turn d = Challenger
             \<and> dissection_len d = (Ok (length cs) :: (move_error, nat) result)
         | Resolved _ _ \<Rightarrow> True)
      \<and> snd (dissect d now cs) \<noteq> Panic \<and> snd (select d now index) \<noteq> Panic)
    \<and> (op_trace_length opn = 0 \<longrightarrow>
        d_lo d = 0 \<and> d_hi d = 0 \<and> disputed_step d = None \<and> snd (dissect d now cs) \<noteq> Panic \<and> snd (select d now index) \<noteq> Panic)
    \<and> (2 ^ 61 \<le> unat (op_trace_length opn) \<longrightarrow>
        n = 0 \<and> d_lo d = 0 \<and> d_hi d = op_trace_length opn \<and> disputed_step d = None
        \<and> (\<not> is_resolved (d_stage d) \<and> in_time Defender now d \<longrightarrow> snd (dissect d now cs) = Panic))"
proof (intro conjI impI)
  assume len: "0 < unat (op_trace_length opn) \<and> unat (op_trace_length opn) < 2 ^ 61"
  note len1 = conjunct1 [OF len] and len2 = conjunct2 [OF len]
  note inv = reach_interval_inv [OF r len1 len2]
  obtain bs where bs: "dispute_boundaries d = (Ok bs :: (move_error, _) result)"
    using dispute_boundaries_inv [OF inv len2] by blast
  have l: "dissection_len d = (Ok (segment_count (unat (d_hi d) - unat (d_lo d)) - 1) :: (move_error, nat) result)"
    using boundary_values(1) [OF inv len2 bs] by (simp add: dissection_len_def bs)
  show "snd (dissect d now cs) \<noteq> Panic" "snd (select d now index) \<noteq> Panic"
    by (rule moves_not_panic [OF inv len2])+
  show "unat (d_lo d) < unat (d_hi d)" "unat (d_hi d) \<le> unat (op_trace_length opn)" using inv by (simp_all add: interval_inv_def)
  from inv l show "case d_stage d of
           OneStep \<Rightarrow> unat (d_hi d) = Suc (unat (d_lo d)) \<and> d_turn d = Challenger
         | Bisecting None \<Rightarrow> Suc (unat (d_lo d)) < unat (d_hi d) \<and> d_turn d = Defender
         | Bisecting (Some cs) \<Rightarrow> Suc (unat (d_lo d)) < unat (d_hi d) \<and> d_turn d = Challenger
             \<and> dissection_len d = (Ok (length cs) :: (move_error, nat) result)
         | Resolved _ _ \<Rightarrow> True"
    by (auto simp: interval_inv_def split: stage.splits option.splits)
next
  assume "op_trace_length opn = 0"
  note inv = reach_empty_inv [OF r this]
  show "snd (dissect d now cs) \<noteq> Panic" "snd (select d now index) \<noteq> Panic" by (rule empty_not_panic [OF inv])+
  show "d_lo d = 0" "d_hi d = 0" "disputed_step d = None"
    using inv by (auto simp: empty_inv_def disputed_step_def split: stage.splits)
next
  assume len: "2 ^ 61 \<le> unat (op_trace_length opn)"
  note inv = reach_huge_inv [OF r len]
  show "n = 0" "d_lo d = 0" "d_hi d = op_trace_length opn" "disputed_step d = None"
    using inv by (auto simp: huge_inv_def disputed_step_def split: stage.splits)
  show "snd (dissect d now cs) = Panic" if "\<not> is_resolved (d_stage d) \<and> in_time Defender now d"
    using huge_panics [OF inv len] that by blast
qed

text \<open>A sample dispute over a trace of ten steps, played to the one disputed step.\<close>

definition sample_opening :: dispute_opening where
  "sample_opening = \<lparr>op_assertion = 1, op_defender = 1, op_challenger = 2, op_trace_length = 10,
     op_lo_commitment = 100, op_hi_commitment = 110, op_challenge_window = 86400\<rparr>"

lemma sample_open:
  "dispute_open sample_opening 1000 = \<lparr>d_assertion = 1, d_defender = 1, d_challenger = 2, d_lo = 0, d_hi = 10,
     d_lo_commitment = 100, d_hi_commitment = 110, d_stage = Bisecting None, d_turn = Defender, d_deadline = 22600,
     d_clock_budget = 21600, d_defender_clock = 21600, d_challenger_clock = 21600, d_last_move_at = 1000, d_arity = 8\<rparr>"
  by (simp add: dispute_open_def sample_opening_def clock_budget_def CLOCK_BUDGET_DIVISOR_def Let_def
      enter_one_step_if_narrow_def saturating_sub_def saturating_add_def checked_add_def MOVE_TIMEOUT_def DEFAULT_ARITY_def)

lemma sample_boundaries: "boundaries 0 10 8 = Ok [0, 1, 2, 3, 5, 6, 7, 8, 10]"
  by (simp add: boundaries_def checked_sub_def checked_mul_def checked_add_def Let_def upt_rec)

definition sample_offered :: dispute where
  "sample_offered = fst (dissect (dispute_open sample_opening 1000) 2000 [101, 102, 103, 105, 106, 107, 108])"

definition sample_narrowed :: dispute where
  "sample_narrowed = fst (select sample_offered 3000 4)"

lemma sample_offered_eval:
  "dissect (dispute_open sample_opening 1000) 2000 [101, 102, 103, 105, 106, 107, 108] = (sample_offered, Ok ())"
  "sample_offered = (dispute_open sample_opening 1000)\<lparr>d_stage := Bisecting (Some [101, 102, 103, 105, 106, 107, 108]),
     d_turn := Challenger, d_deadline := 23600, d_defender_clock := 20600, d_last_move_at := 2000\<rparr>"
  unfolding sample_offered_def sample_open
  by (simp_all add: dissect_def begin_move_def mover_clock_def set_mover_clock_def dispute_boundaries_def
      sample_boundaries pass_turn_def saturating_add_def checked_add_def MOVE_TIMEOUT_def)

lemma sample_narrowed_eval:
  "select sample_offered 3000 4 = (sample_narrowed, Ok ())"
  "d_stage sample_narrowed = OneStep" "d_turn sample_narrowed = Challenger" "d_lo sample_narrowed = 5" "d_hi sample_narrowed = 6"
  "d_lo_commitment sample_narrowed = 105" "d_hi_commitment sample_narrowed = 106"
  "d_deadline sample_narrowed = 24600"
  unfolding sample_narrowed_def sample_offered_eval(2) sample_open
  by (simp_all add: select_def begin_move_def mover_clock_def set_mover_clock_def dispute_boundaries_def
      sample_boundaries pass_turn_def saturating_add_def saturating_sub_def checked_sub_def checked_add_def MOVE_TIMEOUT_def
      narrow_def enter_one_step_if_narrow_def)

lemma sample_reach: "dispute_reach sample_opening 1000 1 sample_narrowed"
proof -
  have "dispute_reach sample_opening 1000 0 sample_offered"
    by (rule dispute_reach.Dissect [OF dispute_reach.Open sample_offered_eval(1)]) simp
  from dispute_reach.Select [OF this sample_narrowed_eval(1)] show ?thesis by simp
qed

lemma sample_length: "0 < unat (op_trace_length sample_opening)" "unat (op_trace_length sample_opening) < 2 ^ 61"
  by (simp_all add: sample_opening_def)

theorem dispute_well_formed_witness:
  "d_stage sample_narrowed = OneStep \<and> d_turn sample_narrowed = Challenger
     \<and> snd (select sample_narrowed 4000 0) \<noteq> Panic"
  using conjunct1 [OF dispute_well_formed [OF sample_reach, of 4000 "[]" 0], rule_format, OF conjI [OF sample_length]]
    sample_narrowed_eval(2) by simp

text \<open>
  C23.  Bisection terminates.  Over a trace of any positive length every accepted selection leaves at
  most an eighth of the interval, rounded up, and after \<open>n\<close> selections \<open>8 ^ (n - 1)\<close> is less than the
  length of the trace.  So a trace of \<open>N\<close> steps needs at most \<open>log\<^sub>8 N\<close> rounds, rounded up: no trace
  more than twenty-one, and none of up to \<open>2 ^ 60\<close> steps more than twenty.
\<close>

theorem bisection_converges:
  assumes r: "dispute_reach opn opened n d" and len: "0 < unat (op_trace_length opn)"
  shows "unat (d_hi d) - unat (d_lo d) \<le> (unat (op_trace_length opn) + 8 ^ n - 1) div 8 ^ n
    \<and> (n = 0 \<or> 8 ^ (n - 1) < unat (op_trace_length opn)) \<and> n \<le> 21 \<and> (unat (op_trace_length opn) \<le> 2 ^ 60 \<longrightarrow> n \<le> 20)"
proof (cases "unat (op_trace_length opn) < 2 ^ 61")
  case True
  note s = reach_span [OF r len True]
  have bound: "n \<le> k" if "unat (op_trace_length opn) \<le> 8 ^ k" for k
  proof (cases n)
    case (Suc m)
    with s have "8 ^ m < unat (op_trace_length opn)" by simp
    then have "(8 :: nat) ^ m < 8 ^ k" using that by (rule less_le_trans)
    then have "m < k" by (rule power_less_imp_less_exp [rotated]) simp
    then show ?thesis using Suc by simp
  qed simp
  have e: "(8 :: nat) ^ 21 = 2 ^ 63" "(8 :: nat) ^ 20 = 2 ^ 60" by simp_all
  have "n \<le> 21" by (rule bound) (use True in \<open>simp only: e, simp\<close>)
  moreover have "n \<le> 20" if "unat (op_trace_length opn) \<le> 2 ^ 60" by (rule bound) (use that in \<open>simp only: e\<close>)
  ultimately show ?thesis using s by blast
next
  case False
  then have "huge_inv (op_trace_length opn) n d" using reach_huge_inv [OF r] by simp
  then show ?thesis by (auto simp: huge_inv_def)
qed

theorem bisection_converges_witness:
  "unat (d_hi sample_narrowed) - unat (d_lo sample_narrowed) \<le> 2 \<and> 8 ^ 0 < unat (op_trace_length sample_opening)"
  using bisection_converges [OF sample_reach sample_length(1)] by (simp add: sample_opening_def)

text \<open>
  C24.  A dispute ends with the challenge window still open.  Both parties together spend at
  most half the window on their moves, a stalling party at most one more quarter, and once
  three quarters of the window have passed since the dispute opened it is either resolved or
  a timeout call resolves it against the party whose turn it is.
\<close>

theorem dispute_ends_in_window:
  assumes r: "dispute_reach opn opened n d"
    and now: "unat opened + 3 * (unat (op_challenge_window opn) div 4) < unat now"
  shows "unat (d_last_move_at d) \<le> unat opened + 2 * (unat (op_challenge_window opn) div 4)
    \<and> (is_resolved (d_stage d) \<or> check_timeout d now =
         (d\<lparr>d_stage := Resolved (opponent (d_turn d)) Timeout\<rparr>, Some (opponent (d_turn d))))"
proof -
  have b: "unat (clock_budget (op_challenge_window opn)) = unat (op_challenge_window opn) div 4"
    by (simp add: clock_budget_def CLOCK_BUDGET_DIVISOR_def unat_div)
  from reach_clock_inv [OF r] have c: "unat opened \<le> unat (d_last_move_at d)"
    "unat (d_last_move_at d) - unat opened \<le> 2 * (unat (op_challenge_window opn) div 4)"
    "unat (d_deadline d) \<le> unat (d_last_move_at d) + unat (op_challenge_window opn) div 4"
    unfolding clock_inv_def b by auto
  then have "unat (d_deadline d) < unat now" using now by linarith
  then have "\<not> now \<le> d_deadline d" by (simp add: word_le_nat_alt)
  with c show ?thesis by (auto simp: check_timeout_def)
qed

theorem dispute_ends_in_window_witness:
  "unat (d_last_move_at sample_narrowed) \<le> 1000 + 43200
     \<and> snd (check_timeout sample_narrowed 70000) = Some Defender"
  using dispute_ends_in_window [OF sample_reach, of 70000] sample_narrowed_eval(2,3)
  by (simp add: sample_opening_def)

end
