(* ===== verification/Assertion.thy ===== *)
theory Assertion
  imports Bisection
begin

text \<open>
  Bonded assertions and the chain they form (\<open>assertion.rs\<close>): posting, challenges, rejection
  of whole subtrees, finalization after the challenge window, and snapshots.
\<close>

section \<open>Data\<close>

definition GENESIS :: assertion_id where
  "GENESIS = ZERO"

record assertion =
  as_parent :: assertion_id
  as_proposer :: party_id
  as_pre_state_root :: hash256
  as_post_state_root :: hash256
  as_batch_commitment :: hash256
  as_trace_length :: u64
  as_bond :: u128

definition assertion_id :: "hasher \<Rightarrow> assertion \<Rightarrow> assertion_id" where
  "assertion_id H a =
     commit H (enc_u128 (enc_u64 (enc_field (enc_field (enc_field (enc_u64 (enc_field (enc_new ASSERTION)
       (to_be (as_parent a))) (ucast (as_proposer a))) (to_be (as_pre_state_root a)))
       (to_be (as_post_state_root a))) (to_be (as_batch_commitment a))) (as_trace_length a)) (as_bond a))"

datatype status = Pending | Challenged | Finalized | Rejected

record chain_record =
  cr_assertion :: assertion
  cr_status :: status
  cr_posted_at :: u64
  cr_open_challenges :: u32

datatype chain_error =
    UnknownAssertion
  | UnknownParent
  | ParentRejected
  | BrokenChain hash256 hash256
  | BondTooSmall u128 u128
  | WrongStatus status
  | WindowOpen u64
  | ChainTimeWentBackwards

type_synonym records = "(assertion_id, chain_record) btree_map"

record assertion_chain =
  ac_records :: records
  ac_latest_finalized :: "assertion_id option"
  ac_challenge_window :: u64
  ac_minimum_bond :: u128
  ac_now :: u64

definition CHALLENGE_WINDOW_FLOOR :: u64 where "CHALLENGE_WINDOW_FLOOR = 24 * 60 * 60"
definition DEFAULT_CHALLENGE_WINDOW :: u64 where "DEFAULT_CHALLENGE_WINDOW = 7 * 24 * 60 * 60"

section \<open>Operations\<close>

definition genesis_assertion :: "hash256 \<Rightarrow> assertion" where
  "genesis_assertion root = \<lparr>as_parent = GENESIS, as_proposer = 0, as_pre_state_root = ZERO,
     as_post_state_root = root, as_batch_commitment = ZERO, as_trace_length = 0, as_bond = 0\<rparr>"

definition chain_new :: "hasher \<Rightarrow> hash256 \<Rightarrow> u64 \<Rightarrow> u128 \<Rightarrow> assertion_chain" where
  "chain_new H genesis_root window bond =
     (let genesis = genesis_assertion genesis_root; i = assertion_id H genesis in
      \<lparr>ac_records = bmap_insert i \<lparr>cr_assertion = genesis, cr_status = Finalized, cr_posted_at = 0,
         cr_open_challenges = 0\<rparr> [],
       ac_latest_finalized = Some i, ac_challenge_window = max window CHALLENGE_WINDOW_FLOOR,
       ac_minimum_bond = bond, ac_now = 0\<rparr>)"

definition advance_to :: "assertion_chain \<Rightarrow> u64 \<Rightarrow> (chain_error, assertion_chain) result" where
  "advance_to c to_time = (if to_time < ac_now c then Err ChainTimeWentBackwards else Ok (c\<lparr>ac_now := to_time\<rparr>))"

definition chain_get :: "assertion_chain \<Rightarrow> assertion_id \<Rightarrow> chain_record option" where
  "chain_get c i = bmap_get (ac_records c) i"

definition chain_status :: "assertion_chain \<Rightarrow> assertion_id \<Rightarrow> status option" where
  "chain_status c i = map_option cr_status (bmap_get (ac_records c) i)"

definition latest_finalized :: "assertion_chain \<Rightarrow> chain_record option" where
  "latest_finalized c = (case ac_latest_finalized c of None \<Rightarrow> None | Some i \<Rightarrow> bmap_get (ac_records c) i)"

definition post :: "hasher \<Rightarrow> assertion_chain \<Rightarrow> assertion \<Rightarrow> (chain_error, assertion_chain \<times> assertion_id) result" where
  "post H c a =
     and_then (ok_or (bmap_get (ac_records c) (as_parent a)) UnknownParent) (\<lambda>parent.
       if cr_status parent = Rejected then Err ParentRejected
       else if as_post_state_root (cr_assertion parent) \<noteq> as_pre_state_root a
         then Err (BrokenChain (as_pre_state_root a) (as_post_state_root (cr_assertion parent)))
       else if as_bond a < ac_minimum_bond c then Err (BondTooSmall (as_bond a) (ac_minimum_bond c))
       else
         let i = assertion_id H a in
         Ok (c\<lparr>ac_records := bmap_insert i \<lparr>cr_assertion = a, cr_status = Pending, cr_posted_at = ac_now c,
               cr_open_challenges = 0\<rparr> (ac_records c)\<rparr>, i))"

definition set_record :: "assertion_chain \<Rightarrow> assertion_id \<Rightarrow> chain_record \<Rightarrow> assertion_chain" where
  "set_record c i r = c\<lparr>ac_records := bmap_insert i r (ac_records c)\<rparr>"

definition open_challenge :: "assertion_chain \<Rightarrow> assertion_id \<Rightarrow> (chain_error, assertion_chain) result" where
  "open_challenge c i =
     and_then (ok_or (bmap_get (ac_records c) i) UnknownAssertion) (\<lambda>r.
       if cr_status r = Pending \<or> cr_status r = Challenged
       then Ok (set_record c i (r\<lparr>cr_status := Challenged,
              cr_open_challenges := saturating_add (cr_open_challenges r) 1\<rparr>))
       else Err (WrongStatus (cr_status r)))"

definition defender_won :: "assertion_chain \<Rightarrow> assertion_id \<Rightarrow> (chain_error, assertion_chain) result" where
  "defender_won c i =
     and_then (ok_or (bmap_get (ac_records c) i) UnknownAssertion) (\<lambda>r.
       if cr_status r \<noteq> Challenged then Err (WrongStatus (cr_status r))
       else
         let n = saturating_sub (cr_open_challenges r) 1 in
         Ok (set_record c i (r\<lparr>cr_open_challenges := n, cr_status := if n = 0 then Pending else cr_status r\<rparr>)))"

text \<open>The worklist of \<open>challenger_won\<close>: the last element is popped, children are appended.\<close>

definition reject_record :: "records \<Rightarrow> assertion_id \<Rightarrow> records" where
  "reject_record rs i =
     (case bmap_get rs i of
        None \<Rightarrow> rs
      | Some r \<Rightarrow> bmap_insert i (r\<lparr>cr_status := Rejected, cr_open_challenges := 0\<rparr>) rs)"

definition live_children :: "records \<Rightarrow> assertion_id \<Rightarrow> assertion_id list" where
  "live_children rs i =
     map fst (filter (\<lambda>(_, r). as_parent (cr_assertion r) = i \<and> cr_status r \<noteq> Rejected) rs)"

definition live :: "records \<Rightarrow> assertion_id set" where
  "live rs = {i. \<exists>r. bmap_get rs i = Some r \<and> cr_status r \<noteq> Rejected}"

lemma live_subset: "live rs \<subseteq> fst ` set rs"
proof
  fix i assume "i \<in> live rs"
  then have "bmap_get rs i \<noteq> None" by (auto simp: live_def)
  then show "i \<in> fst ` set rs" by (simp add: bmap_get_None_iff)
qed

lemma finite_live [simp]: "finite (live rs)"
  by (rule finite_subset [OF live_subset]) simp

lemma live_reject: "live (reject_record rs i) = live rs - {i}"
  by (auto simp: live_def reject_record_def bmap_get_insert split: option.splits)

lemma set_live_children:
  "bmap_wf rs \<Longrightarrow> set (live_children rs i) = {k. \<exists>r. bmap_get rs k = Some r \<and> as_parent (cr_assertion r) = i \<and> cr_status r \<noteq> Rejected}"
  by (force simp: live_children_def bmap_get_mem)

lemma distinct_live_children: "bmap_wf rs \<Longrightarrow> distinct (live_children rs i)"
  unfolding live_children_def bmap_wf_def by (rule distinct_map_filter) (simp add: strict_sorted_iff)

lemma live_children_live: "bmap_wf rs \<Longrightarrow> k \<in> set (live_children rs i) \<Longrightarrow> k \<in> live rs"
  by (auto simp: set_live_children live_def)

lemma wf_reject [simp]: "bmap_wf rs \<Longrightarrow> bmap_wf (reject_record rs i)"
  by (simp add: reject_record_def bmap_wf_insert split: option.split)

lemma reject_dead:
  assumes "bmap_wf rs" "i \<notin> live rs"
  shows "length (live_children (reject_record rs i) k) = length (live_children rs k)"
proof -
  have "set (live_children (reject_record rs i) k) = set (live_children rs k)"
    unfolding set_live_children [OF assms(1)] set_live_children [OF wf_reject [OF assms(1)]]
    using assms(2) by (auto simp: live_def reject_record_def bmap_get_insert split: option.splits if_splits)
  then show ?thesis using assms(1) by (simp flip: distinct_card [OF distinct_live_children])
qed

text \<open>How much a pending entry can still add to the worklist without rejecting anything.\<close>

definition pending_weight :: "records \<Rightarrow> assertion_id \<Rightarrow> nat" where
  "pending_weight rs i = (if i \<in> live rs then 1 else Suc (length (live_children rs i)))"

text \<open>
  The loop of \<open>challenger_won\<close>.  The ordering invariant, which every \<open>BTreeMap\<close> has, is part of the
  guard since the recursion is over all lists.
\<close>

function reject_loop :: "records \<Rightarrow> assertion_id list \<Rightarrow> assertion_id list \<Rightarrow> records \<times> assertion_id list" where
  "reject_loop rs rejected frontier =
     (if frontier = [] \<or> \<not> bmap_wf rs then (rs, rejected)
      else
        let current = last frontier;
            rejected' = (if bmap_get rs current = None then rejected else rejected @ [current]);
            rs' = reject_record rs current
        in reject_loop rs' rejected' (butlast frontier @ live_children rs' current))"
  by pat_completeness auto
termination
proof (relation "measures [\<lambda>(rs, _, _). card (live rs), \<lambda>(rs, _, frontier). \<Sum>i\<leftarrow>frontier. pending_weight rs i]")
  fix rs :: records and rejected frontier current rejected' rs'
  assume a: "\<not> (frontier = [] \<or> \<not> bmap_wf rs)" "current = last frontier"
    "rejected' = (if bmap_get rs current = None then rejected else rejected @ [current])" "rs' = reject_record rs current"
  show "((rs', rejected', butlast frontier @ live_children rs' current), rs, rejected, frontier)
    \<in> measures [\<lambda>(rs, _, _). card (live rs), \<lambda>(rs, _, frontier). \<Sum>i\<leftarrow>frontier. pending_weight rs i]"
  proof (cases "current \<in> live rs")
    case True
    then have "card (live rs') < card (live rs)"
      unfolding a(4) live_reject by (rule card_Diff1_less [OF finite_live])
    then show ?thesis by simp
  next
    case False
    have wf: "bmap_wf rs" "bmap_wf rs'" using a by auto
    have lv: "live rs' = live rs" using False a(4) by (simp add: live_reject)
    have w: "pending_weight rs' = pending_weight rs"
      using reject_dead [OF wf(1) False, folded a(4)] by (auto simp: fun_eq_iff pending_weight_def lv)
    have "(\<Sum>i\<leftarrow>live_children rs' current. pending_weight rs' i) = (\<Sum>i\<leftarrow>live_children rs' current. 1)"
      using live_children_live [OF wf(2)] by (intro arg_cong [of _ _ sum_list] map_cong) (auto simp: pending_weight_def)
    then have "(\<Sum>i\<leftarrow>live_children rs' current. pending_weight rs' i) < pending_weight rs current"
      using False reject_dead [OF wf(1) False] a(4) by (simp add: pending_weight_def sum_list_triv)
    moreover have "(\<Sum>i\<leftarrow>frontier. pending_weight rs i)
        = (\<Sum>i\<leftarrow>butlast frontier. pending_weight rs i) + pending_weight rs current"
      using a(1,2) append_butlast_last_id [of frontier]
      by (metis (no_types, lifting) add_0_right list.simps(8,9) map_append sum_list.Cons sum_list.Nil sum_list.append)
    ultimately show ?thesis using lv w by simp
  qed
qed simp

declare reject_loop.simps [simp del]

definition challenger_won ::
    "assertion_chain \<Rightarrow> assertion_id \<Rightarrow> (chain_error, assertion_chain \<times> assertion_id list) result" where
  "challenger_won c i =
     and_then (ok_or (bmap_get (ac_records c) i) UnknownAssertion) (\<lambda>r.
       if cr_status r \<noteq> Challenged then Err (WrongStatus (cr_status r))
       else let (rs, rejected) = reject_loop (ac_records c) [] [i] in Ok (c\<lparr>ac_records := rs\<rparr>, rejected))"

definition finalize :: "assertion_chain \<Rightarrow> assertion_id \<Rightarrow> (chain_error, assertion_chain) result" where
  "finalize c i =
     and_then (ok_or (bmap_get (ac_records c) i) UnknownAssertion) (\<lambda>r.
       if cr_status r \<noteq> Pending then Err (WrongStatus (cr_status r))
       else
         let parent_status = map_option cr_status (bmap_get (ac_records c) (as_parent (cr_assertion r))) in
         if parent_status \<noteq> Some Finalized
         then Err (WrongStatus (case parent_status of Some s \<Rightarrow> s | None \<Rightarrow> Rejected))
         else
           let elapsed = saturating_sub (ac_now c) (cr_posted_at r) in
           if elapsed < ac_challenge_window c then Err (WindowOpen (ac_challenge_window c - elapsed))
           else Ok ((set_record c i (r\<lparr>cr_status := Finalized\<rparr>))\<lparr>ac_latest_finalized := Some i\<rparr>))"

definition is_withdrawable :: "assertion_chain \<Rightarrow> hash256 \<Rightarrow> bool" where
  "is_withdrawable c root \<longleftrightarrow>
     list_ex (\<lambda>(_, r). cr_status r = Finalized \<and> as_post_state_root (cr_assertion r) = root) (ac_records c)"

record chain_snapshot =
  sn_records :: "chain_record list"
  sn_latest_finalized :: "assertion_id option"
  sn_challenge_window :: u64
  sn_minimum_bond :: u128
  sn_now :: u64

definition chain_snapshot_of :: "assertion_chain \<Rightarrow> chain_snapshot" where
  "chain_snapshot_of c = \<lparr>sn_records = map snd (ac_records c), sn_latest_finalized = ac_latest_finalized c,
     sn_challenge_window = ac_challenge_window c, sn_minimum_bond = ac_minimum_bond c, sn_now = ac_now c\<rparr>"

definition chain_restore :: "hasher \<Rightarrow> chain_snapshot \<Rightarrow> assertion_chain" where
  "chain_restore H s =
     \<lparr>ac_records = foldl (\<lambda>rs r. bmap_insert (assertion_id H (cr_assertion r)) r rs) [] (sn_records s),
      ac_latest_finalized = sn_latest_finalized s,
      ac_challenge_window = max (sn_challenge_window s) CHALLENGE_WINDOW_FLOOR,
      ac_minimum_bond = sn_minimum_bond s, ac_now = sn_now s\<rparr>"

section \<open>What a lost challenge rejects\<close>

text \<open>An assertion and everything built on it that is not yet rejected.\<close>

inductive_set descendants :: "records \<Rightarrow> assertion_id \<Rightarrow> assertion_id set" for rs i where
  self: "i \<in> descendants rs i"
| child: "k \<in> descendants rs i \<Longrightarrow> bmap_get rs c = Some r \<Longrightarrow> as_parent (cr_assertion r) = k \<Longrightarrow>
    cr_status r \<noteq> Rejected \<Longrightarrow> c \<in> descendants rs i"

definition rejected_record :: "chain_record \<Rightarrow> chain_record" where
  "rejected_record r = r\<lparr>cr_status := Rejected, cr_open_challenges := 0\<rparr>"

lemma rejected_record_idem [simp]: "rejected_record (rejected_record r) = rejected_record r"
  by (simp add: rejected_record_def)

lemma get_reject: "bmap_get (reject_record rs i) k = (if k = i then map_option rejected_record (bmap_get rs k) else bmap_get rs k)"
  by (auto simp: reject_record_def rejected_record_def bmap_get_insert split: option.splits)

lemma descendants_reject:
  "descendants (reject_record rs cur) f \<subseteq> descendants rs f"
proof
  fix x assume "x \<in> descendants (reject_record rs cur) f"
  then show "x \<in> descendants rs f"
    by (induction rule: descendants.induct)
      (auto simp: get_reject rejected_record_def intro: descendants.intros split: if_splits)
qed

text \<open>One iteration trades an entry for its live children.\<close>

lemma frontier_step:
  assumes wf: "bmap_wf rs"
  shows "(\<Union>f \<in> set (fs @ [cur]). descendants rs f)
    = insert cur (\<Union>f \<in> set (fs @ live_children (reject_record rs cur) cur). descendants (reject_record rs cur) f)"
    (is "?L = insert cur ?R")
proof
  show "?L \<subseteq> insert cur ?R"
  proof
    fix x assume "x \<in> ?L"
    then obtain f where f: "f \<in> set (fs @ [cur])" and "x \<in> descendants rs f" by blast
    from this(2) show "x \<in> insert cur ?R"
    proof (induction rule: descendants.induct)
      case self
      then show ?case using f by (auto intro: descendants.self)
    next
      case (child k c r)
      show ?case
      proof (cases "c = cur")
        case False
        then have get: "bmap_get (reject_record rs cur) c = Some r" using child.hyps(2) by (simp add: get_reject)
        from child.IH show ?thesis
        proof
          assume "k = cur"
          then have "c \<in> set (live_children (reject_record rs cur) cur)"
            using get child.hyps(3,4) by (auto simp: set_live_children [OF wf_reject [OF wf]])
          then show ?thesis using descendants.self [of c] by auto
        next
          assume "k \<in> ?R"
          then show ?thesis using descendants.child [OF _ get child.hyps(3,4)] by auto
        qed
      qed simp
    qed
  qed
  have "c \<in> descendants rs cur" if "c \<in> set (live_children (reject_record rs cur) cur)" for c
    using that by (auto simp: set_live_children [OF wf_reject [OF wf]] get_reject rejected_record_def split: if_splits
        intro: descendants.child [OF descendants.self])
  moreover have "descendants rs c \<subseteq> descendants rs cur" if "c \<in> descendants rs cur" for c
  proof
    fix x assume "x \<in> descendants rs c"
    then show "x \<in> descendants rs cur"
      by (induction rule: descendants.induct) (auto intro: that descendants.child)
  qed
  ultimately have "descendants (reject_record rs cur) c \<subseteq> descendants rs cur"
    if "c \<in> set (live_children (reject_record rs cur) cur)" for c
    using that descendants_reject by blast
  moreover have "descendants (reject_record rs cur) f \<subseteq> descendants rs f" for f by (rule descendants_reject)
  ultimately show "insert cur ?R \<subseteq> ?L" by (auto intro: descendants.self)
qed

lemma reject_loop_spec:
  "bmap_wf rs \<Longrightarrow> reject_loop rs rejected frontier = (rs', rejected') \<Longrightarrow>
   bmap_wf rs' \<and> (\<forall>k. bmap_get rs' k = (if k \<in> (\<Union>f \<in> set frontier. descendants rs f)
       then map_option rejected_record (bmap_get rs k) else bmap_get rs k))
     \<and> set rejected' = set rejected \<union> {k \<in> (\<Union>f \<in> set frontier. descendants rs f). bmap_get rs k \<noteq> None}"
proof (induction rs rejected frontier rule: reject_loop.induct)
  case (1 rs rejected frontier)
  show ?case
  proof (cases "frontier = []")
    case True
    with "1.prems" show ?thesis by (simp add: reject_loop.simps)
  next
    case False
    define cur where "cur = last frontier"
    define rs1 where "rs1 = reject_record rs cur"
    define rej1 where "rej1 = (if bmap_get rs cur = None then rejected else rejected @ [cur])"
    have fr: "frontier = butlast frontier @ [cur]" using False by (simp add: cur_def)
    have eq: "reject_loop rs1 rej1 (butlast frontier @ live_children rs1 cur) = (rs', rejected')"
      using "1.prems" False by (subst (asm) reject_loop.simps) (auto simp: Let_def cur_def rs1_def rej1_def split: if_splits)
    have wf1: "bmap_wf rs1" using "1.prems"(1) by (simp add: rs1_def)
    have all: "(\<Union>f \<in> set frontier. descendants rs f)
        = insert cur (\<Union>f \<in> set (butlast frontier @ live_children rs1 cur). descendants rs1 f)"
      using frontier_step [OF "1.prems"(1), of "butlast frontier" cur] fr by (simp add: rs1_def)
    have "\<not> (frontier = [] \<or> \<not> bmap_wf rs)" using False "1.prems"(1) by simp
    note ih = "1.IH" [OF this cur_def rej1_def rs1_def wf1 eq]
    have r1: "bmap_get rs1 k = (if k = cur then map_option rejected_record (bmap_get rs k) else bmap_get rs k)" for k
      by (simp add: rs1_def get_reject)
    have n1: "bmap_get rs1 k = None \<longleftrightarrow> bmap_get rs k = None" for k by (simp add: r1)
    show ?thesis
    proof (intro conjI allI)
      show "bmap_wf rs'" using ih by blast
      show "bmap_get rs' k = (if k \<in> (\<Union>f \<in> set frontier. descendants rs f)
          then map_option rejected_record (bmap_get rs k) else bmap_get rs k)" for k
        using ih unfolding all by (auto simp: r1 option.map_comp comp_def)
      show "set rejected' = set rejected \<union> {k \<in> (\<Union>f \<in> set frontier. descendants rs f). bmap_get rs k \<noteq> None}"
        using ih unfolding all by (auto simp: n1 rej1_def split: if_splits)
    qed
  qed
qed

lemma challenger_won_Ok:
  assumes "bmap_wf (ac_records c)" "challenger_won c i = Ok (c', rejected)"
  obtains r where "bmap_get (ac_records c) i = Some r" "cr_status r = Challenged" "bmap_wf (ac_records c')"
    "\<And>k. bmap_get (ac_records c') k = (if k \<in> descendants (ac_records c) i
       then map_option rejected_record (bmap_get (ac_records c) k) else bmap_get (ac_records c) k)"
    "set rejected = {k \<in> descendants (ac_records c) i. bmap_get (ac_records c) k \<noteq> None}"
    "c' = c\<lparr>ac_records := ac_records c'\<rparr>"
proof -
  from assms(2) obtain r rs where "bmap_get (ac_records c) i = Some r" "cr_status r = Challenged"
    and l: "reject_loop (ac_records c) [] [i] = (rs, rejected)" and c': "c' = c\<lparr>ac_records := rs\<rparr>"
    by (auto simp: challenger_won_def and_then_Ok_iff ok_or_Ok_iff split: if_splits prod.splits)
  with reject_loop_spec [OF assms(1) l] that show thesis by simp
qed

section \<open>The chain as a state machine\<close>

text \<open>
  The transitions of the chain: every operation any party can carry out, a repeated post of an
  assertion that is already there included.  The one thing asked of the hash function is that
  an identifier names one assertion only and is never the zero that stands for no parent.
\<close>

definition id_binds :: "assertion_chain \<Rightarrow> assertion_chain \<Rightarrow> assertion_id \<Rightarrow> bool" where
  "id_binds c c' i \<longleftrightarrow> i \<noteq> GENESIS
     \<and> (\<forall>r r'. chain_get c i = Some r \<longrightarrow> chain_get c' i = Some r' \<longrightarrow> cr_assertion r' = cr_assertion r)"

inductive chain_step :: "hasher \<Rightarrow> assertion_chain \<Rightarrow> assertion_chain \<Rightarrow> bool" for H where
  Advance: "advance_to c now = Ok c' \<Longrightarrow> chain_step H c c'"
| Post: "post H c a = Ok (c', i) \<Longrightarrow> id_binds c c' i \<Longrightarrow> chain_step H c c'"
| OpenChallenge: "open_challenge c i = Ok c' \<Longrightarrow> chain_step H c c'"
| DefenderWon: "defender_won c i = Ok c' \<Longrightarrow> chain_step H c c'"
| ChallengerWon: "challenger_won c i = Ok (c', ids) \<Longrightarrow> chain_step H c c'"
| Finalize: "finalize c i = Ok c' \<Longrightarrow> chain_step H c c'"

inductive chain_reach :: "hasher \<Rightarrow> hash256 \<Rightarrow> u64 \<Rightarrow> u128 \<Rightarrow> assertion_chain \<Rightarrow> bool" for H root window bond where
  New: "assertion_id H (genesis_assertion root) \<noteq> GENESIS \<Longrightarrow> chain_reach H root window bond (chain_new H root window bond)"
| Step: "chain_reach H root window bond c \<Longrightarrow> chain_step H c c' \<Longrightarrow> chain_reach H root window bond c'"

text \<open>What holds of one record, given the records and the clock.\<close>

definition record_inv :: "hasher \<Rightarrow> hash256 \<Rightarrow> assertion_chain \<Rightarrow> assertion_id \<Rightarrow> chain_record \<Rightarrow> bool" where
  "record_inv H root c i r \<longleftrightarrow>
     i = assertion_id H (cr_assertion r) \<and> cr_posted_at r \<le> ac_now c
     \<and> (cr_status r = Challenged \<longleftrightarrow> cr_open_challenges r \<noteq> 0)
     \<and> (i = assertion_id H (genesis_assertion root) \<and> cr_assertion r = genesis_assertion root \<and> cr_status r = Finalized
       \<or> (\<exists>p. bmap_get (ac_records c) (as_parent (cr_assertion r)) = Some p
            \<and> as_pre_state_root (cr_assertion r) = as_post_state_root (cr_assertion p)
            \<and> (cr_status p = Rejected \<longrightarrow> cr_status r = Rejected)))"

definition chain_inv :: "hasher \<Rightarrow> hash256 \<Rightarrow> assertion_chain \<Rightarrow> bool" where
  "chain_inv H root c \<longleftrightarrow> bmap_wf (ac_records c) \<and> CHALLENGE_WINDOW_FLOOR \<le> ac_challenge_window c
     \<and> bmap_get (ac_records c) GENESIS = None
     \<and> (\<forall>i r. bmap_get (ac_records c) i = Some r \<longrightarrow> record_inv H root c i r)
     \<and> (\<exists>l r. ac_latest_finalized c = Some l \<and> bmap_get (ac_records c) l = Some r)"

lemma chain_inv_new:
  "assertion_id H (genesis_assertion root) \<noteq> GENESIS \<Longrightarrow> chain_inv H root (chain_new H root window bond)"
  by (auto simp: chain_inv_def chain_new_def Let_def record_inv_def)

lemma advance_inv: "chain_inv H root c \<Longrightarrow> advance_to c now = Ok c' \<Longrightarrow> chain_inv H root c'"
  by (fastforce simp: chain_inv_def advance_to_def record_inv_def word_le_nat_alt word_less_nat_alt split: if_splits)

lemma post_Ok:
  assumes "post H c a = Ok (c', i)"
  shows "i = assertion_id H a" "chain_get c' i = Some \<lparr>cr_assertion = a, cr_status = Pending, cr_posted_at = ac_now c, cr_open_challenges = 0\<rparr>"
  using assms by (auto simp: post_def chain_get_def and_then_Ok_iff ok_or_Ok_iff Let_def bmap_get_insert split: if_splits)

lemma post_inv:
  assumes inv: "chain_inv H root c" and p: "post H c a = Ok (c', i)" and new: "id_binds c c' i"
  shows "chain_inv H root c'"
proof -
  from p obtain q where q: "bmap_get (ac_records c) (as_parent a) = Some q" "cr_status q \<noteq> Rejected"
    "as_post_state_root (cr_assertion q) = as_pre_state_root a" "i = assertion_id H a"
    and c': "c' = c\<lparr>ac_records := bmap_insert i \<lparr>cr_assertion = a, cr_status = Pending, cr_posted_at = ac_now c,
               cr_open_challenges = 0\<rparr> (ac_records c)\<rparr>"
    by (auto simp: post_def and_then_Ok_iff ok_or_Ok_iff Let_def split: if_splits)
  have same: "cr_assertion r = a" if "bmap_get (ac_records c) i = Some r" for r
    using new that post_Ok(2) [OF p] by (auto simp: id_binds_def chain_get_def)
  have keeps: "\<exists>p'. bmap_get (ac_records c') k = Some p' \<and> cr_assertion p' = cr_assertion r
      \<and> (cr_status p' = Rejected \<longrightarrow> cr_status r = Rejected)" if "bmap_get (ac_records c) k = Some r" for k r
    using that same by (auto simp: c' bmap_get_insert)
  have "record_inv H root c' k r" if "bmap_get (ac_records c') k = Some r" for k r
  proof (cases "k = i")
    case True
    with that q keeps [OF q(1)] show ?thesis by (auto simp: c' record_inv_def bmap_get_insert)
  next
    case False
    with that inv have "record_inv H root c k r" by (auto simp: c' chain_inv_def bmap_get_insert)
    with keeps [of "as_parent (cr_assertion r)"] show ?thesis by (fastforce simp: record_inv_def c')
  qed
  moreover have "\<exists>l r. ac_latest_finalized c' = Some l \<and> bmap_get (ac_records c') l = Some r"
    using inv keeps by (fastforce simp: chain_inv_def c')
  ultimately show ?thesis using inv new by (auto simp: chain_inv_def id_binds_def c' bmap_get_insert bmap_wf_insert)
qed

text \<open>Changing the status of one record that is neither finalized nor rejected.\<close>

lemma set_record_inv:
  assumes inv: "chain_inv H root c" and r: "bmap_get (ac_records c) i = Some r" "cr_status r \<noteq> Finalized" "cr_status r \<noteq> Rejected"
    and r': "cr_assertion r' = cr_assertion r" "cr_posted_at r' = cr_posted_at r"
      "cr_status r' = Challenged \<longleftrightarrow> cr_open_challenges r' \<noteq> 0" "cr_status r' \<noteq> Rejected"
  shows "chain_inv H root (set_record c i r')"
proof -
  have ri: "record_inv H root c i r" using inv r(1) by (simp add: chain_inv_def)
  have "record_inv H root (set_record c i r') k s" if "bmap_get (ac_records (set_record c i r')) k = Some s" for k s
  proof (cases "k = i")
    case True
    then have s: "s = r'" using that by (simp add: set_record_def bmap_get_insert)
    from ri r(2) obtain p where p: "bmap_get (ac_records c) (as_parent (cr_assertion r)) = Some p"
      "as_pre_state_root (cr_assertion r) = as_post_state_root (cr_assertion p)" "cr_status p \<noteq> Rejected"
      using r(3) by (auto simp: record_inv_def)
    show ?thesis
      using ri p r r' unfolding True s
      by (auto simp: record_inv_def set_record_def bmap_get_insert)
  next
    case False
    then have k: "bmap_get (ac_records c) k = Some s" using that by (simp add: set_record_def bmap_get_insert)
    then have "record_inv H root c k s" using inv by (simp add: chain_inv_def)
    with r r' show ?thesis by (auto simp: record_inv_def set_record_def bmap_get_insert)
  qed
  moreover have "\<exists>l s. ac_latest_finalized (set_record c i r') = Some l
      \<and> bmap_get (ac_records (set_record c i r')) l = Some s"
    using inv r(1,2) by (auto simp: chain_inv_def set_record_def bmap_get_insert)
  ultimately show ?thesis
    using inv r(1) by (auto simp: chain_inv_def set_record_def bmap_get_insert bmap_wf_insert)
qed

lemma open_challenge_inv: "chain_inv H root c \<Longrightarrow> open_challenge c i = Ok c' \<Longrightarrow> chain_inv H root c'"
proof -
  assume inv: "chain_inv H root c" and o: "open_challenge c i = Ok c'"
  from o obtain r where r: "bmap_get (ac_records c) i = Some r" "cr_status r = Pending \<or> cr_status r = Challenged"
    and c': "c' = set_record c i (r\<lparr>cr_status := Challenged, cr_open_challenges := saturating_add (cr_open_challenges r) 1\<rparr>)"
    by (auto simp: open_challenge_def and_then_Ok_iff ok_or_Ok_iff split: if_splits)
  have "unat (saturating_add (cr_open_challenges r) 1) \<noteq> 0" by (simp add: arith_spec)
  then have "saturating_add (cr_open_challenges r) 1 \<noteq> 0" by (metis unat_0)
  with r show ?thesis unfolding c' by (intro set_record_inv [OF inv r(1)]) auto
qed

lemma defender_won_inv: "chain_inv H root c \<Longrightarrow> defender_won c i = Ok c' \<Longrightarrow> chain_inv H root c'"
proof -
  assume inv: "chain_inv H root c" and o: "defender_won c i = Ok c'"
  from o obtain r where r: "bmap_get (ac_records c) i = Some r" "cr_status r = Challenged"
    by (auto simp: defender_won_def and_then_Ok_iff ok_or_Ok_iff split: if_splits)
  define n where "n = saturating_sub (cr_open_challenges r) 1"
  have c': "c' = set_record c i (r\<lparr>cr_open_challenges := n, cr_status := if n = 0 then Pending else cr_status r\<rparr>)"
    using o r by (simp add: defender_won_def Let_def n_def)
  show ?thesis unfolding c' by (rule set_record_inv [OF inv r(1)]) (use r(2) in \<open>auto split: if_splits\<close>)
qed

lemma finalize_Ok:
  assumes "finalize c i = Ok c'"
  obtains r p where "bmap_get (ac_records c) i = Some r" "cr_status r = Pending"
    "bmap_get (ac_records c) (as_parent (cr_assertion r)) = Some p" "cr_status p = Finalized"
    "unat (ac_challenge_window c) \<le> unat (ac_now c) - unat (cr_posted_at r)"
    "c' = (set_record c i (r\<lparr>cr_status := Finalized\<rparr>))\<lparr>ac_latest_finalized := Some i\<rparr>"
  using assms
  by (auto simp: finalize_def and_then_Ok_iff ok_or_Ok_iff Let_def not_less word_le_nat_alt unat_saturating_sub
      split: if_splits)

lemma finalize_inv: "chain_inv H root c \<Longrightarrow> finalize c i = Ok c' \<Longrightarrow> chain_inv H root c'"
proof -
  assume inv: "chain_inv H root c" and f: "finalize c i = Ok c'"
  from f obtain r p where r: "bmap_get (ac_records c) i = Some r" "cr_status r = Pending"
    "bmap_get (ac_records c) (as_parent (cr_assertion r)) = Some p" "cr_status p = Finalized"
    "unat (ac_challenge_window c) \<le> unat (ac_now c) - unat (cr_posted_at r)"
    and c': "c' = (set_record c i (r\<lparr>cr_status := Finalized\<rparr>))\<lparr>ac_latest_finalized := Some i\<rparr>"
    by (rule finalize_Ok)
  have ri: "record_inv H root c i r" using inv r(1) by (simp add: chain_inv_def)
  have "unat (cr_posted_at r) \<le> unat (ac_now c)" using ri by (simp add: record_inv_def word_le_nat_alt)
  with r ri have "chain_inv H root (set_record c i (r\<lparr>cr_status := Finalized\<rparr>))"
    by (intro set_record_inv [OF inv r(1)]) (auto simp: record_inv_def)
  moreover have "record_inv H root (c\<lparr>ac_latest_finalized := x\<rparr>) = record_inv H root c" for c x
    by (simp add: fun_eq_iff record_inv_def)
  ultimately show ?thesis by (auto simp: chain_inv_def c') (simp add: set_record_def bmap_get_insert)
qed

text \<open>Everything that descends from an assertion is on the chain, and the genesis assertion descends from nothing else.\<close>

lemma descendants_present:
  assumes inv: "chain_inv H root c" and ch: "bmap_get (ac_records c) i = Some r" "cr_status r = Challenged"
    and "k \<in> descendants (ac_records c) i"
  shows "\<exists>s. bmap_get (ac_records c) k = Some s \<and> cr_assertion s \<noteq> genesis_assertion root"
  using assms(4)
proof (induction rule: descendants.induct)
  case self
  have "bmap_get (ac_records c) GENESIS = None" "record_inv H root c i r" using inv ch(1) by (auto simp: chain_inv_def)
  then show ?case using ch by (auto simp: record_inv_def genesis_assertion_def)
next
  case (child k cc s)
  have "bmap_get (ac_records c) GENESIS = None" using inv by (simp add: chain_inv_def)
  then have "cr_assertion s \<noteq> genesis_assertion root"
    using child.IH child.hyps(3) by (auto simp: genesis_assertion_def)
  with child.hyps(2) show ?case by blast
qed

lemma challenger_won_inv: "chain_inv H root c \<Longrightarrow> challenger_won c i = Ok (c', ids) \<Longrightarrow> chain_inv H root c'"
proof -
  assume inv: "chain_inv H root c" and w: "challenger_won c i = Ok (c', ids)"
  have wf: "bmap_wf (ac_records c)" using inv by (simp add: chain_inv_def)
  let ?D = "descendants (ac_records c) i"
  obtain r where r: "bmap_get (ac_records c) i = Some r" "cr_status r = Challenged" "bmap_wf (ac_records c')"
    and get: "\<And>k. bmap_get (ac_records c') k = (if k \<in> ?D
       then map_option rejected_record (bmap_get (ac_records c) k) else bmap_get (ac_records c) k)"
    and c': "c' = c\<lparr>ac_records := ac_records c'\<rparr>"
    by (rule challenger_won_Ok [OF wf w]) blast
  note dp = descendants_present [OF inv r(1,2)]
  have cc: "ac_now c' = ac_now c" "ac_challenge_window c' = ac_challenge_window c" "ac_latest_finalized c' = ac_latest_finalized c"
    by (subst c', simp)+
  have "record_inv H root c' k s" if "bmap_get (ac_records c') k = Some s" for k s
  proof -
    from that obtain s0 where s0: "bmap_get (ac_records c) k = Some s0" and s: "s = (if k \<in> ?D then rejected_record s0 else s0)"
      unfolding get by (auto split: if_splits)
    have ri: "record_inv H root c k s0" using inv s0 by (simp add: chain_inv_def)
    have not_gen: "k \<in> ?D \<Longrightarrow> cr_assertion s0 \<noteq> genesis_assertion root" using dp s0 by force
    have child: "k \<in> ?D \<or> cr_status s0 = Rejected" if "as_parent (cr_assertion s0) \<in> ?D"
      using descendants.child [OF that s0 refl] by blast
    have a: "cr_assertion s = cr_assertion s0" "cr_posted_at s = cr_posted_at s0"
      "cr_status s = (if k \<in> ?D then Rejected else cr_status s0)"
      "cr_open_challenges s = (if k \<in> ?D then 0 else cr_open_challenges s0)"
      by (simp_all add: s rejected_record_def)
    show ?thesis
      using ri not_gen child unfolding record_inv_def a cc get by (auto simp: rejected_record_def)
  qed
  moreover have "\<exists>l s. ac_latest_finalized c' = Some l \<and> bmap_get (ac_records c') l = Some s"
    using inv by (auto simp: chain_inv_def cc get)
  moreover have "bmap_get (ac_records c') GENESIS = None" using inv by (simp add: get chain_inv_def)
  ultimately show ?thesis using inv r(3) by (simp add: chain_inv_def cc)
qed

lemma chain_step_inv: "chain_step H c c' \<Longrightarrow> chain_inv H root c \<Longrightarrow> chain_inv H root c'"
  by (induction rule: chain_step.induct)
    (blast intro: advance_inv post_inv open_challenge_inv defender_won_inv challenger_won_inv finalize_inv)+

lemma chain_reach_inv: "chain_reach H root window bond c \<Longrightarrow> chain_inv H root c"
  by (induction rule: chain_reach.induct) (blast intro: chain_inv_new chain_step_inv)+


section \<open>Finality\<close>

text \<open>What one step does to the record of an identifier that is finalized, before or after.\<close>

lemma step_clock: "chain_step H c c' \<Longrightarrow> chain_inv H root c \<Longrightarrow>
    unat (ac_now c) \<le> unat (ac_now c') \<and> ac_challenge_window c' = ac_challenge_window c"
proof (induction rule: chain_step.induct)
  case (ChallengerWon c i c' ids)
  then have wf: "bmap_wf (ac_records c)" by (simp add: chain_inv_def)
  obtain r where c': "c' = c\<lparr>ac_records := ac_records c'\<rparr>"
    by (rule challenger_won_Ok [OF wf ChallengerWon.hyps])
  show ?case by (subst (1 2) c') simp
qed (auto simp: advance_to_def post_def open_challenge_def defender_won_def finalize_def set_record_def Let_def
    and_then_Ok_iff ok_or_Ok_iff word_less_nat_alt split: if_splits)

lemma reach_window: "chain_reach H root window bond c \<Longrightarrow> ac_challenge_window c = max window CHALLENGE_WINDOW_FLOOR"
proof (induction rule: chain_reach.induct)
  case (Step c c')
  then show ?case using step_clock [OF Step.hyps(2) chain_reach_inv [OF Step.hyps(1)]] by simp
qed (simp add: chain_new_def Let_def)

text \<open>
  A finalized record is left alone by every step but two: a repeated post of the same assertion,
  and a lost challenge of an assertion it is built on.
\<close>

lemma step_finalized:
  "chain_step H c c' \<Longrightarrow> chain_inv H root c \<Longrightarrow> bmap_get (ac_records c) i = Some r \<Longrightarrow> cr_status r = Finalized \<Longrightarrow>
   bmap_get (ac_records c') i = Some r \<or> post H c (cr_assertion r) = Ok (c', i)
     \<or> (\<exists>k ids s. challenger_won c k = Ok (c', ids) \<and> bmap_get (ac_records c) k = Some s \<and> cr_status s = Challenged
          \<and> i \<in> descendants (ac_records c) k \<and> bmap_get (ac_records c') i = Some (rejected_record r))"
proof (induction rule: chain_step.induct)
  case (Post c a c' k)
  show ?case
  proof (cases "i = k")
    case True
    then have "cr_assertion r = a" using Post post_Ok(2) [OF Post.hyps(1)] by (auto simp: id_binds_def chain_get_def)
    with Post.hyps(1) True show ?thesis by blast
  next
    case False
    with Post show ?thesis
      by (auto simp: post_def Let_def and_then_Ok_iff ok_or_Ok_iff bmap_get_insert split: if_splits)
  qed
next
  case (ChallengerWon c k c' ids)
  then have wf: "bmap_wf (ac_records c)" by (simp add: chain_inv_def)
  obtain s where s: "bmap_get (ac_records c) k = Some s" "cr_status s = Challenged"
    and get: "\<And>j. bmap_get (ac_records c') j = (if j \<in> descendants (ac_records c) k
       then map_option rejected_record (bmap_get (ac_records c) j) else bmap_get (ac_records c) j)"
    by (rule challenger_won_Ok [OF wf ChallengerWon.hyps]) blast
  with ChallengerWon show ?case by (cases "i \<in> descendants (ac_records c) k") (auto simp: get)
qed (auto simp: advance_to_def open_challenge_def defender_won_def finalize_def set_record_def Let_def
    and_then_Ok_iff ok_or_Ok_iff bmap_get_insert split: if_splits)

lemma step_keeps_assertion:
  "chain_step H c c' \<Longrightarrow> chain_inv H root c \<Longrightarrow> bmap_get (ac_records c) i = Some r \<Longrightarrow>
   \<exists>r'. bmap_get (ac_records c') i = Some r' \<and> cr_assertion r' = cr_assertion r"
proof (induction rule: chain_step.induct)
  case (Post c a c' k)
  show ?case
  proof (cases "i = k")
    case True
    then show ?thesis using Post post_Ok(2) [OF Post.hyps(1)] by (auto simp: id_binds_def chain_get_def)
  next
    case False
    with Post show ?thesis
      by (auto simp: post_def Let_def and_then_Ok_iff ok_or_Ok_iff bmap_get_insert split: if_splits)
  qed
next
  case (ChallengerWon c k c' ids)
  then have wf: "bmap_wf (ac_records c)" by (simp add: chain_inv_def)
  obtain s where get: "\<And>j. bmap_get (ac_records c') j = (if j \<in> descendants (ac_records c) k
       then map_option rejected_record (bmap_get (ac_records c) j) else bmap_get (ac_records c) j)"
    by (rule challenger_won_Ok [OF wf ChallengerWon.hyps]) blast
  show ?case using ChallengerWon.prems(2) by (auto simp: get rejected_record_def)
qed (auto simp: advance_to_def open_challenge_def defender_won_def finalize_def set_record_def Let_def
    and_then_Ok_iff ok_or_Ok_iff bmap_get_insert split: if_splits)

lemma step_finalizes:
  "chain_step H c c' \<Longrightarrow> chain_inv H root c \<Longrightarrow> bmap_get (ac_records c') i = Some r' \<Longrightarrow> cr_status r' = Finalized \<Longrightarrow>
   bmap_get (ac_records c) i = Some r' \<or> finalize c i = Ok c'"
proof (induction rule: chain_step.induct)
  case (ChallengerWon c k c' ids)
  then have wf: "bmap_wf (ac_records c)" by (simp add: chain_inv_def)
  obtain s where get: "\<And>j. bmap_get (ac_records c') j = (if j \<in> descendants (ac_records c) k
       then map_option rejected_record (bmap_get (ac_records c) j) else bmap_get (ac_records c) j)"
    by (rule challenger_won_Ok [OF wf ChallengerWon.hyps]) blast
  show ?case using ChallengerWon.prems(2,3) by (auto simp: get rejected_record_def split: if_splits)
next
  case (Finalize c k c')
  obtain r p where "c' = (set_record c k (r\<lparr>cr_status := Finalized\<rparr>))\<lparr>ac_latest_finalized := Some k\<rparr>"
    by (rule finalize_Ok [OF Finalize.hyps])
  then show ?case using Finalize by (cases "i = k") (auto simp: set_record_def bmap_get_insert)
qed (auto simp: advance_to_def post_def open_challenge_def defender_won_def set_record_def Let_def
    and_then_Ok_iff ok_or_Ok_iff bmap_get_insert split: if_splits)

text \<open>
  The chain together with the record of every finalization so far: which identifier became
  finalized, when its assertion had been posted, and when that was.  What became finalized is read off
  the records, not off the operation.
\<close>

definition newly_final :: "assertion_chain \<Rightarrow> assertion_chain \<Rightarrow> (assertion_id \<times> u64 \<times> u64) set" where
  "newly_final c c' = {(i, cr_posted_at r, ac_now c') | i r. chain_get c' i = Some r \<and> cr_status r = Finalized
     \<and> chain_status c i \<noteq> Some Finalized}"

inductive chain_run ::
    "hasher \<Rightarrow> hash256 \<Rightarrow> u64 \<Rightarrow> u128 \<Rightarrow> (assertion_id \<times> u64 \<times> u64) set \<Rightarrow> assertion_chain \<Rightarrow> bool" for H root window bond where
  New: "assertion_id H (genesis_assertion root) \<noteq> GENESIS \<Longrightarrow> chain_run H root window bond {} (chain_new H root window bond)"
| Step: "chain_run H root window bond F c \<Longrightarrow> chain_step H c c' \<Longrightarrow> chain_run H root window bond (F \<union> newly_final c c') c'"

lemma chain_run_reach: "chain_run H root window bond F c \<Longrightarrow> chain_reach H root window bond c"
  by (induction rule: chain_run.induct) (auto intro: chain_reach.intros)

text \<open>
  A line of assertions back to genesis, each of which was finalized: it starts from the state its
  parent ended in, it had been on the chain for a whole window when it was finalized, and its
  parent was finalized no later.
\<close>

inductive final_line ::
    "hasher \<Rightarrow> hash256 \<Rightarrow> u64 \<Rightarrow> (assertion_id \<times> u64 \<times> u64) set \<Rightarrow> assertion_chain \<Rightarrow> assertion_id \<Rightarrow> chain_record \<Rightarrow> u64 \<Rightarrow> bool"
  for H root window F c where
  Genesis: "i = assertion_id H (genesis_assertion root) \<Longrightarrow> chain_get c i = Some r \<Longrightarrow>
    cr_assertion r = genesis_assertion root \<Longrightarrow> final_line H root window F c i r 0"
| Child: "final_line H root window F c (as_parent (cr_assertion r)) p before \<Longrightarrow> i = assertion_id H (cr_assertion r) \<Longrightarrow>
    chain_get c i = Some r \<Longrightarrow> as_pre_state_root (cr_assertion r) = as_post_state_root (cr_assertion p) \<Longrightarrow>
    (i, posted, at) \<in> F \<Longrightarrow> before \<le> at \<Longrightarrow> unat posted + unat (max window CHALLENGE_WINDOW_FLOOR) \<le> unat at \<Longrightarrow>
    final_line H root window F c i r at"

lemma final_line_get: "final_line H root window F c i r at \<Longrightarrow> chain_get c i = Some r"
  by (induction rule: final_line.induct) auto

lemma final_line_step:
  assumes s: "chain_step H c c'" and inv: "chain_inv H root c" and sub: "F \<subseteq> F'"
  shows "final_line H root window F c i r at \<Longrightarrow>
    \<exists>r'. final_line H root window F' c' i r' at \<and> cr_assertion r' = cr_assertion r"
proof (induction rule: final_line.induct)
  case (Genesis i r)
  then show ?case using step_keeps_assertion [OF s inv] by (fastforce simp: chain_get_def intro: final_line.Genesis)
next
  case (Child r p before i posted at)
  from step_keeps_assertion [OF s inv] Child.hyps(3) obtain r' where
    r': "chain_get c' i = Some r'" "cr_assertion r' = cr_assertion r" by (fastforce simp: chain_get_def)
  from Child.IH obtain p' where "final_line H root window F' c' (as_parent (cr_assertion r')) p' before"
    "cr_assertion p' = cr_assertion p" using r'(2) by auto
  from final_line.Child [OF this(1) _ r'(1), of posted at] this(2) Child.hyps sub r' show ?case by auto
qed

lemma run_final_line:
  "chain_run H root window bond F c \<Longrightarrow> chain_get c i = Some r \<Longrightarrow> cr_status r = Finalized \<Longrightarrow>
   \<exists>at \<le> ac_now c. final_line H root window F c i r at"
proof (induction arbitrary: i r rule: chain_run.induct)
  case New
  then show ?case
    by (intro exI [of _ 0]) (auto simp: chain_get_def chain_new_def Let_def split: if_splits intro: final_line.Genesis)
next
  case (Step F c c')
  note reach = chain_run_reach [OF Step.hyps(1)]
  note inv = chain_reach_inv [OF reach]
  have now: "ac_now c \<le> ac_now c'" and win: "ac_challenge_window c' = ac_challenge_window c"
    using step_clock [OF Step.hyps(2) inv] by (simp_all add: word_le_nat_alt)
  have line: "\<exists>r' at. at \<le> ac_now c' \<and> final_line H root window (F \<union> newly_final c c') c' k r' at \<and> cr_assertion r' = cr_assertion q"
    if "chain_get c k = Some q" "cr_status q = Finalized" for k q
    using Step.IH [OF that] final_line_step [OF Step.hyps(2) inv, of F "F \<union> newly_final c c'"] now by (meson Un_upper1 order_trans)
  show ?case
  proof (cases "chain_status c i = Some Finalized")
    case True
    then obtain q where "chain_get c i = Some q" "cr_status q = Finalized" by (auto simp: chain_status_def chain_get_def)
    from line [OF this] Step.prems(1) final_line_get show ?thesis by fastforce
  next
    case False
    then have f: "finalize c i = Ok c'"
      using step_finalizes [OF Step.hyps(2) inv, of i r] Step.prems by (auto simp: chain_get_def chain_status_def)
    obtain r0 p where r0: "bmap_get (ac_records c) i = Some r0" "cr_status r0 = Pending"
      "bmap_get (ac_records c) (as_parent (cr_assertion r0)) = Some p" "cr_status p = Finalized"
      "unat (ac_challenge_window c) \<le> unat (ac_now c) - unat (cr_posted_at r0)"
      and c': "c' = (set_record c i (r0\<lparr>cr_status := Finalized\<rparr>))\<lparr>ac_latest_finalized := Some i\<rparr>"
      by (rule finalize_Ok [OF f])
    have r: "r = r0\<lparr>cr_status := Finalized\<rparr>" using Step.prems(1) by (simp add: c' chain_get_def set_record_def bmap_get_insert)
    have ri: "record_inv H root c i r0" using inv r0(1) by (simp add: chain_inv_def)
    with inv have pre: "as_pre_state_root (cr_assertion r0) = as_post_state_root (cr_assertion p)"
      using r0(2,3) by (auto simp: record_inv_def)
    obtain p' at where p': "at \<le> ac_now c'" "final_line H root window (F \<union> newly_final c c') c' (as_parent (cr_assertion r)) p' at"
      "cr_assertion p' = cr_assertion p" using line [of "as_parent (cr_assertion r0)" p] r0 r by (auto simp: chain_get_def)
    have n: "ac_now c' = ac_now c" by (simp add: c' set_record_def)
    have "(i, cr_posted_at r, ac_now c') \<in> F \<union> newly_final c c'" using Step.prems False by (auto simp: newly_final_def)
    moreover have "unat (cr_posted_at r) + unat (max window CHALLENGE_WINDOW_FLOOR) \<le> unat (ac_now c')"
    proof -
      have "unat (cr_posted_at r0) \<le> unat (ac_now c)" using ri by (simp add: record_inv_def word_le_nat_alt)
      with r0(5) show ?thesis unfolding reach_window [OF reach, symmetric] n r by simp
    qed
    ultimately have "final_line H root window (F \<union> newly_final c c') c' i r (ac_now c')"
      using p' pre ri Step.prems(1) by (intro final_line.Child [OF p'(2)]) (auto simp: r record_inv_def)
    then show ?thesis by blast
  qed
qed

text \<open>A challenged assertion that something finalized is built on was itself finalized before.\<close>

lemma challenged_ancestor_was_final:
  assumes inv: "chain_inv H root c" and ch: "bmap_get (ac_records c) k = Some s" "cr_status s = Challenged"
    and "i \<in> descendants (ac_records c) k"
  shows "final_line H root window F c i r at \<Longrightarrow> k \<in> fst ` F"
  using assms(4)
proof (induction arbitrary: r at rule: descendants.induct)
  case self
  from self show ?case
  proof (cases rule: final_line.cases)
    case Genesis
    then show ?thesis using descendants_present [OF inv ch descendants.self] by (auto simp: chain_get_def)
  qed force
next
  case (child k' cc q)
  from child.prems show ?case
  proof (cases rule: final_line.cases)
    case Genesis
    with descendants_present [OF inv ch descendants.child [OF child.hyps]] child.hyps(2) show ?thesis by (auto simp: chain_get_def)
  next
    case (Child p before posted)
    then show ?thesis using child.IH child.hyps(2,3) by (auto simp: chain_get_def)
  qed
qed

section \<open>Properties\<close>

lemma foldl_insert_append:
  assumes "bmap_wf (m @ n)"
  shows "foldl (\<lambda>rs (k, v). bmap_insert k v rs) m n = m @ n"
  using assms
proof (induction n arbitrary: m)
  case (Cons kv n)
  obtain k v where kv: "kv = (k, v)" by (cases kv)
  have "bmap_insert k v m = m @ [(k, v)]" if "\<forall>x \<in> fst ` set m. x < k" for m :: "('a, 'b) btree_map"
    using that by (induction k v m rule: bmap_insert.induct) (auto dest: less_asym)
  moreover have "\<forall>x \<in> fst ` set m. x < k" using Cons.prems by (force simp: kv bmap_wf_def sorted_wrt_append)
  ultimately show ?case using Cons.IH [of "m @ [kv]"] Cons.prems by (simp add: kv)
qed simp

text \<open>A chain with one assertion posted, its window over, and finalized; and one with a challenge.\<close>

definition sample_chain_hash :: hasher where
  "sample_chain_hash bs = ucast (from_be (drop (length bs - 16) bs) :: u128) + 1"

lemma sample_assertion_id [simp]: "assertion_id sample_chain_hash a = ucast (as_bond a) + 1"
  by (simp add: assertion_id_def commit_def digest_def sample_chain_hash_def enc_u128_def enc_field_def
      push_framed_def from_be_to_be)

definition sample_assertion :: assertion where
  "sample_assertion = \<lparr>as_parent = 1, as_proposer = 7, as_pre_state_root = 42, as_post_state_root = 43,
     as_batch_commitment = 9, as_trace_length = 10, as_bond = 100\<rparr>"

definition sample_record :: chain_record where
  "sample_record = \<lparr>cr_assertion = sample_assertion, cr_status = Pending, cr_posted_at = 0, cr_open_challenges = 0\<rparr>"

definition sample_chain0 :: assertion_chain where
  "sample_chain0 = chain_new sample_chain_hash 42 86400 100"

definition sample_chain :: assertion_chain where
  "sample_chain = set_record sample_chain0 101 sample_record"

definition sample_elapsed :: assertion_chain where
  "sample_elapsed = sample_chain\<lparr>ac_now := 86400\<rparr>"

definition sample_final :: assertion_chain where
  "sample_final = (set_record sample_elapsed 101 (sample_record\<lparr>cr_status := Finalized\<rparr>))\<lparr>ac_latest_finalized := Some 101\<rparr>"

definition sample_reposted :: assertion_chain where
  "sample_reposted = set_record sample_final 101 (sample_record\<lparr>cr_posted_at := 86400\<rparr>)"

definition sample_challenged :: assertion_chain where
  "sample_challenged = set_record sample_chain 101 (sample_record\<lparr>cr_status := Challenged, cr_open_challenges := 1\<rparr>)"

lemmas sample_chain_defs = sample_chain0_def sample_chain_def sample_elapsed_def sample_final_def sample_reposted_def sample_challenged_def
  sample_record_def sample_assertion_def chain_new_def genesis_assertion_def set_record_def GENESIS_def ZERO_def
  CHALLENGE_WINDOW_FLOOR_def

lemma sample_chain_ops:
  "post sample_chain_hash sample_chain0 sample_assertion = Ok (sample_chain, 101)"
  "advance_to sample_chain 86400 = Ok sample_elapsed"
  "finalize sample_elapsed 101 = Ok sample_final"
  "open_challenge sample_chain 101 = Ok sample_challenged"
  "challenger_won sample_challenged 101 = Ok (set_record sample_chain 101 (sample_record\<lparr>cr_status := Rejected\<rparr>), [101])"
  "post sample_chain_hash sample_final sample_assertion = Ok (sample_reposted, 101)"
  by (simp_all add: sample_chain_defs post_def advance_to_def finalize_def open_challenge_def challenger_won_def
      reject_loop.simps reject_record_def live_children_def saturating_sub_def saturating_add_def
      checked_add_def checked_sub_def)

lemma sample_chain_run:
  "\<exists>F. chain_run sample_chain_hash 42 86400 100 F sample_chain"
  "\<exists>F. chain_run sample_chain_hash 42 86400 100 F sample_elapsed"
  "\<exists>F. chain_run sample_chain_hash 42 86400 100 F sample_final"
proof -
  have "\<exists>F. chain_run sample_chain_hash 42 86400 100 F sample_chain0"
    unfolding sample_chain0_def by (rule exI, rule chain_run.New) (simp add: sample_chain_defs)
  moreover have "chain_step sample_chain_hash sample_chain0 sample_chain"
    by (rule chain_step.Post [OF sample_chain_ops(1)]) (simp add: id_binds_def chain_get_def sample_chain_defs)
  ultimately show 1: "\<exists>F. chain_run sample_chain_hash 42 86400 100 F sample_chain" by (blast intro: chain_run.Step)
  then show 2: "\<exists>F. chain_run sample_chain_hash 42 86400 100 F sample_elapsed"
    using chain_step.Advance [OF sample_chain_ops(2)] by (blast intro: chain_run.Step)
  then show "\<exists>F. chain_run sample_chain_hash 42 86400 100 F sample_final"
    using chain_step.Finalize [OF sample_chain_ops(3)] by (blast intro: chain_run.Step)
qed

text \<open>C4.  The roots withdrawals are paid against are exactly those of the records that are finalized now
  and stand at the end of a line of assertions back to the genesis root, each of which was
  finalized after standing a whole challenge window, none before its parent, and starts from the
  state its parent ended in.  This holds through any operations of any party.  It does not say that every
  assertion of the line is finalized still: posting an assertion again makes it pending, whatever
  was built on it.\<close>

theorem withdrawals_backed:
  assumes "chain_run H root window bond F c"
  shows "is_withdrawable c w \<longleftrightarrow>
    (\<exists>i r at. final_line H root window F c i r at \<and> cr_status r = Finalized \<and> as_post_state_root (cr_assertion r) = w)"
proof -
  have wf: "bmap_wf (ac_records c)" using chain_reach_inv [OF chain_run_reach [OF assms]] by (simp add: chain_inv_def)
  have "is_withdrawable c w \<longleftrightarrow> (\<exists>i r. chain_get c i = Some r \<and> cr_status r = Finalized
      \<and> as_post_state_root (cr_assertion r) = w)"
    unfolding is_withdrawable_def list_ex_iff chain_get_def bmap_get_mem [OF wf] by auto
  then show ?thesis using run_final_line [OF assms] final_line_get by blast
qed

theorem withdrawals_backed_witness:
  "\<exists>F i r at. chain_run sample_chain_hash 42 86400 100 F sample_final
     \<and> final_line sample_chain_hash 42 86400 F sample_final i r at \<and> as_post_state_root (cr_assertion r) = 43"
proof -
  have "is_withdrawable sample_final 43" by (simp add: is_withdrawable_def sample_chain_defs)
  moreover obtain F where "chain_run sample_chain_hash 42 86400 100 F sample_final"
    using sample_chain_run(3) by blast
  ultimately show ?thesis using withdrawals_backed [of sample_chain_hash 42 86400 100 F sample_final 43] by blast
qed

text \<open>C22.  How finality is reached and how it can be lost.  A record becomes finalized only when it is
  pending, has no open challenge, its parent is finalized and its window has passed.  A finalized record
  stays exactly as it is through every operation but two: its assertion is posted again, which makes
  it pending; or a challenge is lost by an assertion it is built on, and that assertion had been
  finalized itself before, so that it too must have been posted again.  As long as nothing finalized is
  posted again, finality is therefore never undone.\<close>

theorem finality_changes:
  assumes "chain_run H root window bond F c" "chain_step H c c'"
  shows "(\<forall>i r. chain_get c i = Some r \<longrightarrow> cr_status r = Finalized \<longrightarrow>
        chain_get c' i = Some r
        \<or> post H c (cr_assertion r) = Ok (c', i) \<and> chain_status c' i = Some Pending
        \<or> (\<exists>k ids. challenger_won c k = Ok (c', ids) \<and> chain_status c k = Some Challenged \<and> k \<in> fst ` F
             \<and> i \<in> descendants (ac_records c) k \<and> chain_status c' i = Some Rejected))
    \<and> (\<forall>i. chain_status c' i = Some Finalized \<longrightarrow> chain_status c i \<noteq> Some Finalized \<longrightarrow>
        (\<exists>r. chain_get c i = Some r \<and> cr_status r = Pending \<and> cr_open_challenges r = 0
          \<and> chain_status c (as_parent (cr_assertion r)) = Some Finalized
          \<and> unat (cr_posted_at r) + unat (max window CHALLENGE_WINDOW_FLOOR) \<le> unat (ac_now c)))"
proof (intro conjI allI impI)
  note reach = chain_run_reach [OF assms(1)]
  note inv = chain_reach_inv [OF reach]
  fix i r assume r: "chain_get c i = Some r" "cr_status r = Finalized"
  from run_final_line [OF assms(1) r] obtain at where line: "final_line H root window F c i r at" by blast
  from step_finalized [OF assms(2) inv, of i r] r
  consider "chain_get c' i = Some r" | "post H c (cr_assertion r) = Ok (c', i)"
    | k ids s where "challenger_won c k = Ok (c', ids)" "bmap_get (ac_records c) k = Some s" "cr_status s = Challenged"
      "i \<in> descendants (ac_records c) k" "bmap_get (ac_records c') i = Some (rejected_record r)"
    by (auto simp: chain_get_def)
  then show "chain_get c' i = Some r
        \<or> post H c (cr_assertion r) = Ok (c', i) \<and> chain_status c' i = Some Pending
        \<or> (\<exists>k ids. challenger_won c k = Ok (c', ids) \<and> chain_status c k = Some Challenged \<and> k \<in> fst ` F
             \<and> i \<in> descendants (ac_records c) k \<and> chain_status c' i = Some Rejected)"
  proof cases
    case 2
    with post_Ok(2) [OF 2] show ?thesis by (simp add: chain_get_def chain_status_def)
  next
    case 3
    with challenged_ancestor_was_final [OF inv 3(2,3,4) line] show ?thesis
      by (intro disjI2 exI [of _ k] exI [of _ ids]) (simp add: chain_status_def rejected_record_def)
  qed simp
next
  note reach = chain_run_reach [OF assms(1)]
  note inv = chain_reach_inv [OF reach]
  fix i assume st: "chain_status c' i = Some Finalized" "chain_status c i \<noteq> Some Finalized"
  then obtain r' where "bmap_get (ac_records c') i = Some r'" "cr_status r' = Finalized" by (auto simp: chain_status_def)
  with step_finalizes [OF assms(2) inv] st have "finalize c i = Ok c'" by (force simp: chain_status_def)
  then obtain r p where r: "bmap_get (ac_records c) i = Some r" "cr_status r = Pending"
    "bmap_get (ac_records c) (as_parent (cr_assertion r)) = Some p" "cr_status p = Finalized"
    "unat (ac_challenge_window c) \<le> unat (ac_now c) - unat (cr_posted_at r)"
    by (rule finalize_Ok)
  have "record_inv H root c i r" using inv r(1) by (simp add: chain_inv_def)
  with r(2) have "cr_open_challenges r = 0" "unat (cr_posted_at r) \<le> unat (ac_now c)"
    by (auto simp: record_inv_def word_le_nat_alt)
  moreover from this r(5) have "unat (cr_posted_at r) + unat (max window CHALLENGE_WINDOW_FLOOR) \<le> unat (ac_now c)"
    unfolding reach_window [OF reach] by linarith
  ultimately show "\<exists>r. chain_get c i = Some r \<and> cr_status r = Pending \<and> cr_open_challenges r = 0
          \<and> chain_status c (as_parent (cr_assertion r)) = Some Finalized
          \<and> unat (cr_posted_at r) + unat (max window CHALLENGE_WINDOW_FLOOR) \<le> unat (ac_now c)"
    using r by (auto simp: chain_get_def chain_status_def simp del: unat_max)
qed

theorem finality_changes_witness:
  "chain_status sample_final 101 = Some Finalized \<and> chain_status sample_elapsed 101 \<noteq> Some Finalized
   \<and> (\<exists>r. chain_get sample_elapsed 101 = Some r \<and> cr_open_challenges r = 0)
   \<and> chain_step sample_chain_hash sample_final sample_reposted \<and> chain_get sample_final 101 \<noteq> chain_get sample_reposted 101
   \<and> (post sample_chain_hash sample_final sample_assertion = Ok (sample_reposted, 101)
      \<or> (\<exists>k. chain_status sample_final k = Some Challenged))"
proof -
  have st: "chain_status sample_final 101 = Some Finalized" "chain_status sample_elapsed 101 \<noteq> Some Finalized"
    by (simp_all add: chain_status_def sample_chain_defs)
  obtain F where run: "chain_run sample_chain_hash 42 86400 100 F sample_elapsed" using sample_chain_run(2) by blast
  have a: "\<exists>r. chain_get sample_elapsed 101 = Some r \<and> cr_open_challenges r = 0"
    using finality_changes [OF run chain_step.Finalize [OF sample_chain_ops(3)]] st by blast
  obtain F' where run': "chain_run sample_chain_hash 42 86400 100 F' sample_final" using sample_chain_run(3) by blast
  have s: "chain_step sample_chain_hash sample_final sample_reposted"
    by (rule chain_step.Post [OF sample_chain_ops(6)]) (simp add: id_binds_def chain_get_def sample_chain_defs)
  have n: "chain_get sample_final 101 \<noteq> chain_get sample_reposted 101" by (simp add: chain_get_def sample_chain_defs)
  have g: "chain_get sample_final 101 = Some (sample_record\<lparr>cr_status := Finalized\<rparr>)" by (simp add: chain_get_def sample_chain_defs)
  have "post sample_chain_hash sample_final sample_assertion = Ok (sample_reposted, 101)
      \<or> (\<exists>k. chain_status sample_final k = Some Challenged)"
    using conjunct1 [OF finality_changes [OF run' s], rule_format, OF g] n g by (auto simp: sample_record_def)
  with st a s n show ?thesis by blast
qed

text \<open>
  What undoes finality: as long as its parent is not rejected and it carries the bond, a finalized
  assertion can be posted again by anyone, which leaves it pending with a new window.
\<close>

lemma repost_undoes_finality:
  assumes "chain_run H root window bond F c" "chain_get c i = Some r" "cr_assertion r \<noteq> genesis_assertion root"
    "chain_status c (as_parent (cr_assertion r)) \<noteq> Some Rejected" "ac_minimum_bond c \<le> as_bond (cr_assertion r)"
  shows "\<exists>c'. post H c (cr_assertion r) = Ok (c', i) \<and> chain_step H c c'
    \<and> chain_get c' i = Some \<lparr>cr_assertion = cr_assertion r, cr_status = Pending, cr_posted_at = ac_now c, cr_open_challenges = 0\<rparr>"
proof -
  note inv = chain_reach_inv [OF chain_run_reach [OF assms(1)]]
  have "record_inv H root c i r" using inv assms(2) by (simp add: chain_inv_def chain_get_def)
  with assms(3) obtain p where p: "bmap_get (ac_records c) (as_parent (cr_assertion r)) = Some p"
    "as_pre_state_root (cr_assertion r) = as_post_state_root (cr_assertion p)" "i = assertion_id H (cr_assertion r)"
    by (auto simp: record_inv_def)
  then obtain c' where c': "post H c (cr_assertion r) = Ok (c', i)"
    using assms(4,5) by (fastforce simp: post_def Let_def chain_status_def)
  have "i \<noteq> GENESIS" using inv assms(2) by (auto simp: chain_inv_def chain_get_def)
  then have "chain_step H c c'"
    using post_Ok(2) [OF c'] assms(2) by (intro chain_step.Post [OF c']) (auto simp: id_binds_def)
  with c' post_Ok(2) [OF c'] show ?thesis by blast
qed

text \<open>A lost challenge rejects exactly the disputed assertion and everything built on it that was
  not rejected already: those records end rejected with no open challenge, the returned list names
  them, and every other record is untouched.\<close>

lemma challenger_won_rejects:
  assumes "chain_reach H root window bond c" "challenger_won c i = Ok (c', rejected)"
  shows "set rejected = descendants (ac_records c) i
    \<and> (\<forall>k. chain_get c' k = (if k \<in> set rejected then map_option rejected_record (chain_get c k) else chain_get c k))
    \<and> c' = c\<lparr>ac_records := ac_records c'\<rparr>"
proof -
  note inv = chain_reach_inv [OF assms(1)]
  have wf: "bmap_wf (ac_records c)" using inv by (simp add: chain_inv_def)
  obtain r where r: "bmap_get (ac_records c) i = Some r" "cr_status r = Challenged"
    and get: "\<And>k. bmap_get (ac_records c') k = (if k \<in> descendants (ac_records c) i
       then map_option rejected_record (bmap_get (ac_records c) k) else bmap_get (ac_records c) k)"
    and ids: "set rejected = {k \<in> descendants (ac_records c) i. bmap_get (ac_records c) k \<noteq> None}"
    and c': "c' = c\<lparr>ac_records := ac_records c'\<rparr>"
    by (rule challenger_won_Ok [OF wf assms(2)]) blast
  have all: "set rejected = descendants (ac_records c) i" using descendants_present [OF inv r] by (fastforce simp: ids)
  with get c' show ?thesis by (simp add: chain_get_def)
qed

text \<open>A chain restored from its snapshot is the chain: records, clocks, bond and the latest
  finalized assertion all come back, under the identifiers computed afresh from the assertions.\<close>

lemma snapshot_round_trip:
  assumes "chain_reach H root window bond c"
  shows "chain_restore H (chain_snapshot_of c) = c"
proof -
  note inv = chain_reach_inv [OF assms]
  have wf: "bmap_wf (ac_records c)" using inv by (simp add: chain_inv_def)
  have ids: "\<forall>(i, r) \<in> set (ac_records c). i = assertion_id H (cr_assertion r)"
    using inv by (auto simp: chain_inv_def record_inv_def bmap_get_mem)
  have "foldl (\<lambda>rs r. bmap_insert (assertion_id H (cr_assertion r)) r rs) m (map snd n)
      = foldl (\<lambda>rs (k, v). bmap_insert k v rs) m n" if "\<forall>(i, r) \<in> set n. i = assertion_id H (cr_assertion r)" for m n
    using that by (induction n arbitrary: m) auto
  from this [OF ids] foldl_insert_append [of "[]" "ac_records c"] wf
  have "foldl (\<lambda>rs r. bmap_insert (assertion_id H (cr_assertion r)) r rs) [] (map snd (ac_records c)) = ac_records c"
    by simp
  moreover have "max (ac_challenge_window c) CHALLENGE_WINDOW_FLOOR = ac_challenge_window c"
    using inv by (intro max_absorb1) (simp add: chain_inv_def)
  ultimately show ?thesis by (simp add: chain_restore_def chain_snapshot_of_def)
qed

end
