(* ===== verification/Sequencer.thy ===== *)
theory Sequencer
  imports Mempool Batch Assertion
begin

text \<open>
  Block production (\<open>sequencer.rs\<close>): cutting a batch from the pool, executing it on a copy of the
  state, posting the covering assertion, resuming from saved batches, and reporting how final a
  transaction is.  The system clock is an argument.
\<close>

section \<open>Blocks\<close>

definition ADMISSION_EXPIRY_MARGIN_SECS :: u64 where "ADMISSION_EXPIRY_MARGIN_SECS = 60"
definition MAX_BATCH_BYTES :: nat where "MAX_BATCH_BYTES = 48 * 1024"

record block =
  bk_height :: u64
  bk_timestamp :: u64
  bk_base_fee :: u128
  bk_fee_recipient :: l2address
  bk_transactions :: "transaction list"
  bk_pre_state_root :: hash256
  bk_post_state_root :: hash256
  bk_trace :: execution_trace

definition block_batch_tree :: "hasher \<Rightarrow> block \<Rightarrow> ('e, batch_tree) result" where
  "block_batch_tree H b = trace_batch_tree H (bk_trace b) (bk_transactions b)"

text \<open>\<open>None\<close> is a panic of the tree construction.\<close>

definition batch_commitment :: "hasher \<Rightarrow> block \<Rightarrow> hash256 option" where
  "batch_commitment H b =
     (case and_then (block_batch_tree H b) (\<lambda>tree. and_then (bt_root tree) (\<lambda>root.
         Ok (header_commitment H (bk_timestamp b) (bk_base_fee b) (bk_fee_recipient b) (bt_tx_count tree) root)))
        :: (unit, hash256) result of
        Ok cm \<Rightarrow> Some cm | _ \<Rightarrow> None)"

definition block_context :: "block \<Rightarrow> keyless_config option \<Rightarrow> batch_context" where
  "block_context b keyless = \<lparr>bx_timestamp = bk_timestamp b, bx_keyless = keyless, bx_base_fee = bk_base_fee b,
     bx_fee_recipient = bk_fee_recipient b\<rparr>"

datatype confirmation_status = CPending | CSoftConfirmed u64 | CFinalized u64

datatype produce_error = Execution batch_error | AssertionRejected chain_error

section \<open>The sequencer\<close>

record sequencer =
  sq_state :: merkle_trie
  sq_mempool :: mempool
  sq_blocks :: "block list"
  sq_chain :: assertion_chain
  sq_identity :: party_id
  sq_bond :: u128
  sq_assertions :: "assertion_id list"
  sq_head :: assertion_id
  sq_keyless :: "keyless_config option"
  sq_fee_recipient :: l2address
  sq_fee_asset_limits :: "(asset_id, u32) btree_map"
  sq_fee_assets :: "asset_id list"

definition sequencer_new ::
    "hasher \<Rightarrow> merkle_trie \<Rightarrow> assertion_chain \<Rightarrow> party_id \<Rightarrow> u128 \<Rightarrow> ('e, sequencer) result" where
  "sequencer_new H state chain identity bond =
     and_then (or_panic (latest_finalized chain)) (\<lambda>r.
       Ok \<lparr>sq_state = state, sq_mempool = mempool_new 4096, sq_blocks = [], sq_chain = chain, sq_identity = identity,
           sq_bond = bond, sq_assertions = [], sq_head = assertion_id H (cr_assertion r), sq_keyless = None,
           sq_fee_recipient = FEE_VAULT, sq_fee_asset_limits = [], sq_fee_assets = []\<rparr>)"

definition with_fee_assets :: "sequencer \<Rightarrow> asset_id list \<Rightarrow> sequencer" where
  "with_fee_assets sq assets = sq\<lparr>sq_fee_assets := assets\<rparr>"

definition with_fee_recipient :: "sequencer \<Rightarrow> l2address \<Rightarrow> sequencer" where
  "with_fee_recipient sq account = sq\<lparr>sq_fee_recipient := account\<rparr>"

definition with_fee_asset_limits :: "sequencer \<Rightarrow> (asset_id, u32) btree_map \<Rightarrow> sequencer" where
  "with_fee_asset_limits sq limits = sq\<lparr>sq_fee_asset_limits := limits\<rparr>"

definition with_keyless :: "sequencer \<Rightarrow> keyless_config option \<Rightarrow> sequencer" where
  "with_keyless sq keyless = sq\<lparr>sq_keyless := keyless\<rparr>"

definition sq_fee_market :: "hasher \<Rightarrow> sequencer \<Rightarrow> fee_market" where
  "sq_fee_market H sq =
     (case trie_get (sq_state sq) (fee_market_key H) of
        None \<Rightarrow> fee_market_genesis DEFAULT_BASE_FEE_FLOOR DEFAULT_GAS_TARGET
      | Some bs \<Rightarrow>
          (case market_decode bs of Ok m \<Rightarrow> m | _ \<Rightarrow> fee_market_genesis DEFAULT_BASE_FEE_FLOOR DEFAULT_GAS_TARGET))"

definition sq_batch_context :: "hasher \<Rightarrow> sequencer \<Rightarrow> u64 \<Rightarrow> batch_context" where
  "sq_batch_context H sq timestamp =
     (let market = sq_fee_market H sq in
      \<lparr>bx_timestamp = timestamp, bx_keyless = sq_keyless sq,
       bx_base_fee = (case base_fee_at market timestamp of Ok f \<Rightarrow> f | _ \<Rightarrow> fm_base_fee market),
       bx_fee_recipient = sq_fee_recipient sq\<rparr>)"

definition next_timestamp :: "sequencer \<Rightarrow> u64 \<Rightarrow> u64" where
  "next_timestamp sq clock = max clock (if sq_blocks sq = [] then 0 else bk_timestamp (last (sq_blocks sq)))"

definition sq_submit ::
    "hasher \<Rightarrow> ed25519 \<Rightarrow> width_constants list \<Rightarrow> sequencer \<Rightarrow> u64 \<Rightarrow> transaction \<Rightarrow> sequencer \<times> (reject_reason, hash256) result" where
  "sq_submit H ed pcs sq clock tx =
     (let ctx = sq_batch_context H sq (saturating_add (next_timestamp sq clock) ADMISSION_EXPIRY_MARGIN_SECS);
          (mp, r) = submit H ed pcs (sq_mempool sq) (sq_state sq) ctx tx in
      (sq\<lparr>sq_mempool := mp\<rparr>, r))"

text \<open>The share of a window an asset may use; the multiplication may overflow and panic.\<close>

definition asset_cap :: "sequencer \<Rightarrow> fee_market \<Rightarrow> asset_id \<Rightarrow> u64 option" where
  "asset_cap sq window asset =
     (case bmap_get (sq_fee_asset_limits sq) asset of
        None \<Rightarrow> Some (window_limit window)
      | Some permille \<Rightarrow> checked_mul (window_limit window div 1000) (ucast permille))"

text \<open>The assertion both \<open>produce\<close> and \<open>resume\<close> build over a block.\<close>

definition covering_assertion :: "sequencer \<Rightarrow> block \<Rightarrow> hash256 \<Rightarrow> assertion" where
  "covering_assertion sq b cm = \<lparr>as_parent = sq_head sq, as_proposer = sq_identity sq,
     as_pre_state_root = bk_pre_state_root b, as_post_state_root = bk_post_state_root b,
     as_batch_commitment = cm, as_trace_length = of_nat (trace_len (bk_trace b)), as_bond = sq_bond sq\<rparr>"

definition remove_at_index :: "nat \<Rightarrow> 'a list \<Rightarrow> 'a list" where
  "remove_at_index i xs = take i xs @ drop (Suc i) xs"

text \<open>The retry loop of \<open>produce\<close>: a transaction that no longer compiles is dropped.\<close>

function seal ::
    "hasher \<Rightarrow> ed25519 \<Rightarrow> width_constants list \<Rightarrow> merkle_trie \<Rightarrow> batch_context \<Rightarrow> transaction list
     \<Rightarrow> (produce_error, (merkle_trie \<times> execution_trace \<times> transaction list) option) result" where
  "seal H ed pcs state ctx txs =
     (case execute_batch H ed pcs state ctx txs of
        Ok (nxt, trace) \<Rightarrow> Ok (Some (nxt, trace, txs))
      | Err (BatchCompile index e) \<Rightarrow>
          if length txs \<le> index then Panic
          else if remove_at_index index txs = [] then Ok None
          else seal H ed pcs state ctx (remove_at_index index txs)
      | Err (BatchStep i j e) \<Rightarrow> Err (Execution (BatchStep i j e))
      | Panic \<Rightarrow> Panic)"
  by pat_completeness auto
termination
  by (relation "measure (\<lambda>(_, _, _, _, _, txs). length txs)") (auto simp: remove_at_index_def)

declare seal.simps [simp del]

text \<open>The end of \<open>produce\<close>: the block, its assertion, and the update once the chain has accepted it.\<close>

definition commit_block ::
    "hasher \<Rightarrow> sequencer \<Rightarrow> batch_context \<Rightarrow> merkle_trie \<times> execution_trace \<times> transaction list
     \<Rightarrow> sequencer \<times> (produce_error, (block \<times> assertion_id) option) result" where
  "commit_block H sq ctx r =
     (let (nxt, trace, sealed) = r;
          b = \<lparr>bk_height = of_nat (length (sq_blocks sq)) + 1, bk_timestamp = bx_timestamp ctx,
            bk_base_fee = bx_base_fee ctx, bk_fee_recipient = bx_fee_recipient ctx,
            bk_transactions = sealed, bk_pre_state_root = mt_root (sq_state sq),
            bk_post_state_root = mt_root nxt, bk_trace = trace\<rparr> in
      case batch_commitment H b of
        None \<Rightarrow> (sq, Panic)
      | Some cm \<Rightarrow>
          (case post H (sq_chain sq) (covering_assertion sq b cm) of
             Err e \<Rightarrow> (sq, Err (AssertionRejected e))
           | Panic \<Rightarrow> (sq, Panic)
           | Ok (chain, i) \<Rightarrow>
               (sq\<lparr>sq_chain := chain, sq_state := nxt, sq_head := i, sq_blocks := sq_blocks sq @ [b],
                   sq_assertions := sq_assertions sq @ [i]\<rparr>, Ok (Some (b, i)))))"

definition produce ::
    "hasher \<Rightarrow> ed25519 \<Rightarrow> width_constants list \<Rightarrow> sequencer \<Rightarrow> u64 \<Rightarrow> nat
     \<Rightarrow> sequencer \<times> (produce_error, (block \<times> assertion_id) option) result" where
  "produce H ed pcs sq clock limit =
     (let timestamp = next_timestamp sq clock;
          market = sq_fee_market H sq;
          window = (case market_at market timestamp of Ok w \<Rightarrow> w | _ \<Rightarrow> market);
          budget = saturating_sub (window_limit window) (fm_window_gas window);
          (mp, taken) = take_batch_fitting H (sq_mempool sq) limit MAX_BATCH_BYTES budget (asset_cap sq window);
          sq1 = sq\<lparr>sq_mempool := mp\<rparr>;
          ctx = sq_batch_context H sq1 timestamp in
      case taken of
        Err e \<Rightarrow> (sq1, Err e)
      | Panic \<Rightarrow> (sq1, Panic)
      | Ok txs \<Rightarrow>
          if txs = [] then (sq1, Ok None)
          else
            (case seal H ed pcs (sq_state sq1) ctx txs of
               Err e \<Rightarrow> (sq1, Err e)
             | Panic \<Rightarrow> (sq1, Panic)
             | Ok None \<Rightarrow> (sq1, Ok None)
             | Ok (Some r) \<Rightarrow> commit_block H sq1 ctx r))"

definition assertion_for :: "sequencer \<Rightarrow> u64 \<Rightarrow> assertion_id option" where
  "assertion_for sq height =
     (if height = 0 then None
      else if unat height - 1 < length (sq_assertions sq) then Some (sq_assertions sq ! (unat height - 1)) else None)"

definition block_finalized :: "sequencer \<Rightarrow> block \<Rightarrow> bool" where
  "block_finalized sq b \<longleftrightarrow>
     (case assertion_for sq (bk_height b) of None \<Rightarrow> False | Some i \<Rightarrow> chain_status (sq_chain sq) i = Some Finalized)"

definition confirmation :: "hasher \<Rightarrow> sequencer \<Rightarrow> hash256 \<Rightarrow> confirmation_status" where
  "confirmation H sq h =
     (case find (\<lambda>b. list_ex (\<lambda>t. tx_hash H t = h) (bk_transactions b)) (sq_blocks sq) of
        None \<Rightarrow> CPending
      | Some b \<Rightarrow> if block_finalized sq b then CFinalized (bk_height b) else CSoftConfirmed (bk_height b))"

definition finalized_height :: "sequencer \<Rightarrow> u64" where
  "finalized_height sq =
     (case find (block_finalized sq) (rev (sq_blocks sq)) of None \<Rightarrow> 0 | Some b \<Rightarrow> bk_height b)"

section \<open>Resuming\<close>

record stored_batch =
  sb_timestamp :: u64
  sb_base_fee :: u128
  sb_fee_recipient :: l2address
  sb_transactions :: "transaction list"
  sb_post_state_root :: hash256

datatype resume_error =
    NoLongerExecutes u64 batch_error
  | DifferentRoot u64
  | NoAssertion u64
  | WrongSavedState

fun resume_loop ::
    "hasher \<Rightarrow> ed25519 \<Rightarrow> width_constants list \<Rightarrow> sequencer \<Rightarrow> nat \<Rightarrow> stored_batch list \<Rightarrow> (resume_error, sequencer) result" where
  "resume_loop H ed pcs sq n [] = Ok sq"
| "resume_loop H ed pcs sq n (sb # rest) =
     (let height = of_nat n + 1;
          ctx = \<lparr>bx_timestamp = sb_timestamp sb, bx_keyless = sq_keyless sq, bx_base_fee = sb_base_fee sb,
            bx_fee_recipient = sb_fee_recipient sb\<rparr> in
      and_then (map_err (NoLongerExecutes height) (execute_batch H ed pcs (sq_state sq) ctx (sb_transactions sb))) (\<lambda>(nxt, trace).
        if mt_root nxt \<noteq> sb_post_state_root sb then Err (DifferentRoot height)
        else
          let b = \<lparr>bk_height = height, bk_timestamp = sb_timestamp sb, bk_base_fee = sb_base_fee sb,
                bk_fee_recipient = sb_fee_recipient sb, bk_transactions = sb_transactions sb,
                bk_pre_state_root = mt_root (sq_state sq), bk_post_state_root = mt_root nxt, bk_trace = trace\<rparr> in
          and_then (or_panic (batch_commitment H b)) (\<lambda>cm.
            let i = assertion_id H (covering_assertion sq b cm) in
            if chain_get (sq_chain sq) i = None then Err (NoAssertion height)
            else resume_loop H ed pcs (sq\<lparr>sq_state := nxt, sq_head := i, sq_blocks := sq_blocks sq @ [b],
                sq_assertions := sq_assertions sq @ [i]\<rparr>) (n + 1) rest)))"

definition resume ::
    "hasher \<Rightarrow> ed25519 \<Rightarrow> width_constants list \<Rightarrow> merkle_trie \<Rightarrow> assertion_chain \<Rightarrow> party_id \<Rightarrow> u128 \<Rightarrow> keyless_config option
     \<Rightarrow> stored_batch list \<Rightarrow> hash256 \<Rightarrow> (resume_error, sequencer) result" where
  "resume H ed pcs genesis chain identity bond keyless batches saved_root =
     and_then (sequencer_new H genesis chain identity bond) (\<lambda>sq0.
     and_then (resume_loop H ed pcs
         ((with_keyless sq0 keyless)\<lparr>sq_head := assertion_id H (genesis_assertion (mt_root genesis))\<rparr>) 0 batches) (\<lambda>sq.
       if mt_root (sq_state sq) \<noteq> saved_root then Err WrongSavedState else Ok sq))"

section \<open>Sealing\<close>

lemma seal_Some:
  "seal H ed pcs state ctx txs = Ok (Some (nxt, trace, sealed)) \<Longrightarrow>
   execute_batch H ed pcs state ctx sealed = Ok (nxt, trace) \<and> set sealed \<subseteq> set txs"
proof (induction H ed pcs state ctx txs rule: seal.induct)
  case (1 H ed pcs state ctx txs)
  have sub: "set (remove_at_index i txs) \<subseteq> set txs" for i
    by (auto simp: remove_at_index_def dest: in_set_takeD in_set_dropD)
  show ?case
  proof (cases "execute_batch H ed pcs state ctx txs")
    case (Ok r)
    then show ?thesis using "1.prems" by (cases r) (simp add: seal.simps)
  next
    case (Err e)
    with "1.prems" show ?thesis
    proof (cases e)
      case (BatchCompile index ce)
      with Err "1.prems" have "\<not> length txs \<le> index" "remove_at_index index txs \<noteq> []"
        "seal H ed pcs state ctx (remove_at_index index txs) = result.Ok (Some (nxt, trace, sealed))"
        by (auto simp: seal.simps [of H ed pcs state ctx txs] split: if_splits)
      with "1.IH" [OF Err [unfolded BatchCompile]] sub show ?thesis by blast
    qed (simp add: seal.simps)
  qed (use "1.prems" in \<open>simp add: seal.simps\<close>)
qed

lemma commit_block_Some:
  assumes "commit_block H sq ctx (nxt, trace, sealed) = (sq', Ok (Some (b, i)))"
  obtains cm chain where "batch_commitment H b = Some cm" "post H (sq_chain sq) (covering_assertion sq b cm) = Ok (chain, i)"
    "b = \<lparr>bk_height = of_nat (length (sq_blocks sq)) + 1, bk_timestamp = bx_timestamp ctx, bk_base_fee = bx_base_fee ctx,
      bk_fee_recipient = bx_fee_recipient ctx, bk_transactions = sealed, bk_pre_state_root = mt_root (sq_state sq),
      bk_post_state_root = mt_root nxt, bk_trace = trace\<rparr>"
    "sq' = sq\<lparr>sq_chain := chain, sq_state := nxt, sq_head := i, sq_blocks := sq_blocks sq @ [b],
       sq_assertions := sq_assertions sq @ [i]\<rparr>"
proof -
  define b0 where "b0 = \<lparr>bk_height = of_nat (length (sq_blocks sq)) + 1, bk_timestamp = bx_timestamp ctx, bk_base_fee = bx_base_fee ctx,
      bk_fee_recipient = bx_fee_recipient ctx, bk_transactions = sealed, bk_pre_state_root = mt_root (sq_state sq),
      bk_post_state_root = mt_root nxt, bk_trace = trace\<rparr>"
  note c = assms [unfolded commit_block_def Let_def prod.case, folded b0_def]
  from c obtain cm where cm: "batch_commitment H b0 = Some cm" by (cases "batch_commitment H b0") simp_all
  with c obtain chain j where p: "post H (sq_chain sq) (covering_assertion sq b0 cm) = Ok (chain, j)"
    by (cases "post H (sq_chain sq) (covering_assertion sq b0 cm)") auto
  from c have "b = b0" "j = i" "sq' = sq\<lparr>sq_chain := chain, sq_state := nxt, sq_head := i, sq_blocks := sq_blocks sq @ [b],
       sq_assertions := sq_assertions sq @ [i]\<rparr>" unfolding cm option.case p result.case prod.case by auto
  with cm p b0_def show thesis by (intro that [of cm chain]) simp_all
qed

text \<open>What a successful \<open>produce\<close> did.\<close>

lemma produce_Some:
  assumes "produce H ed pcs sq clock limit = (sq', Ok (Some (b, i)))"
  obtains mp nxt cm chain where
    "execute_batch H ed pcs (sq_state sq) (block_context b (sq_keyless sq)) (bk_transactions b) = Ok (nxt, bk_trace b)"
    "bk_height b = of_nat (length (sq_blocks sq)) + 1" "bk_timestamp b = next_timestamp sq clock"
    "bk_pre_state_root b = mt_root (sq_state sq)" "bk_post_state_root b = mt_root nxt"
    "batch_commitment H b = Some cm"
    "post H (sq_chain sq) (covering_assertion sq b cm) = Ok (chain, i)"
    "sq' = sq\<lparr>sq_mempool := mp, sq_chain := chain, sq_state := nxt, sq_head := i, sq_blocks := sq_blocks sq @ [b],
       sq_assertions := sq_assertions sq @ [i]\<rparr>"
proof -
  obtain mp txs r where r: "seal H ed pcs (sq_state sq) (sq_batch_context H (sq\<lparr>sq_mempool := mp\<rparr>) (next_timestamp sq clock)) txs = Ok (Some r)"
    "commit_block H (sq\<lparr>sq_mempool := mp\<rparr>) (sq_batch_context H (sq\<lparr>sq_mempool := mp\<rparr>) (next_timestamp sq clock)) r = (sq', Ok (Some (b, i)))"
    using assms by (simp add: produce_def Let_def split: prod.splits result.splits if_splits option.splits)
  define sq1 where sq1: "sq1 = sq\<lparr>sq_mempool := mp\<rparr>"
  define ctx where ctx: "ctx = sq_batch_context H sq1 (next_timestamp sq clock)"
  obtain nxt trace sealed where sl: "seal H ed pcs (sq_state sq) ctx txs = Ok (Some (nxt, trace, sealed))"
    and cb: "commit_block H sq1 ctx (nxt, trace, sealed) = (sq', Ok (Some (b, i)))"
    using r by (cases r) (simp add: sq1 ctx)
  have ca: "covering_assertion sq1 = covering_assertion sq"
    by (simp add: fun_eq_iff covering_assertion_def sq1)
  obtain cm chain where c: "batch_commitment H b = Some cm" "post H (sq_chain sq1) (covering_assertion sq1 b cm) = Ok (chain, i)"
    and b: "b = \<lparr>bk_height = of_nat (length (sq_blocks sq1)) + 1, bk_timestamp = bx_timestamp ctx, bk_base_fee = bx_base_fee ctx,
      bk_fee_recipient = bx_fee_recipient ctx, bk_transactions = sealed, bk_pre_state_root = mt_root (sq_state sq1),
      bk_post_state_root = mt_root nxt, bk_trace = trace\<rparr>"
    and sq': "sq' = sq1\<lparr>sq_chain := chain, sq_state := nxt, sq_head := i, sq_blocks := sq_blocks sq1 @ [b],
       sq_assertions := sq_assertions sq1 @ [i]\<rparr>"
    by (rule commit_block_Some [OF cb])
  have f: "bk_height b = of_nat (length (sq_blocks sq)) + 1" "bk_transactions b = sealed" "bk_trace b = trace"
    "bk_pre_state_root b = mt_root (sq_state sq)" "bk_post_state_root b = mt_root nxt" "bk_timestamp b = next_timestamp sq clock"
    "block_context b (sq_keyless sq) = ctx"
    by (simp_all add: b sq1 block_context_def ctx sq_batch_context_def Let_def)
  show thesis
  proof (rule that [of nxt cm chain mp])
    show "execute_batch H ed pcs (sq_state sq) (block_context b (sq_keyless sq)) (bk_transactions b) = Ok (nxt, bk_trace b)"
      using seal_Some [OF sl] by (simp add: f)
    show "post H (sq_chain sq) (covering_assertion sq b cm) = Ok (chain, i)" using c(2) by (simp add: ca) (simp add: sq1)
    show "sq' = sq\<lparr>sq_mempool := mp, sq_chain := chain, sq_state := nxt, sq_head := i, sq_blocks := sq_blocks sq @ [b],
       sq_assertions := sq_assertions sq @ [i]\<rparr>" using sq' by (simp add: sq1)
  qed (use c f in simp_all)
qed

lemma produce_other:
  assumes "produce H ed pcs sq clock limit = (sq', r)" "\<forall>b i. r \<noteq> Ok (Some (b, i))"
  shows "\<exists>mp. sq' = sq\<lparr>sq_mempool := mp\<rparr>"
proof -
  have cb: "sq2 = sq1" if "commit_block H sq1 ctx q = (sq2, r)" for sq1 sq2 ctx q
    using that assms(2) by (auto simp: commit_block_def Let_def split: result.splits prod.splits option.splits)
  show ?thesis using assms(1)
    by (simp add: produce_def Let_def split: prod.splits result.splits if_splits option.splits) (use cb in blast)+
qed

section \<open>The sequencer as a state machine\<close>

text \<open>
  A run of blocks: each executes on the state the one before it left, records the roots and the
  trace of that execution, and is covered by an assertion on the one before.
\<close>

fun linked ::
    "hasher \<Rightarrow> ed25519 \<Rightarrow> width_constants list \<Rightarrow> sequencer \<Rightarrow> merkle_trie \<Rightarrow> assertion_id \<Rightarrow> nat \<Rightarrow> block list \<Rightarrow> assertion_id list
     \<Rightarrow> merkle_trie \<Rightarrow> assertion_id \<Rightarrow> bool" where
  "linked H ed pcs sq st head n [] [] st' head' \<longleftrightarrow> st' = st \<and> head' = head"
| "linked H ed pcs sq st head n (b # bs) (i # ids) st' head' \<longleftrightarrow>
     (\<exists>nxt cm. execute_batch H ed pcs st (block_context b (sq_keyless sq)) (bk_transactions b) = Ok (nxt, bk_trace b)
        \<and> bk_height b = of_nat n + 1 \<and> bk_pre_state_root b = mt_root st \<and> bk_post_state_root b = mt_root nxt
        \<and> batch_commitment H b = Some cm \<and> i = assertion_id H (covering_assertion (sq\<lparr>sq_head := head\<rparr>) b cm)
        \<and> linked H ed pcs sq nxt i (Suc n) bs ids st' head')"
| "linked H ed pcs sq st head n _ _ st' head' \<longleftrightarrow> False"

lemma linked_length: "linked H ed pcs sq st head n bs ids st' head' \<Longrightarrow> length bs = length ids"
  by (induction H ed pcs sq st head n bs ids st' head' rule: linked.induct) auto

lemma linked_snoc:
  assumes "linked H ed pcs sq st head n bs ids st1 head1"
    and "execute_batch H ed pcs st1 (block_context b (sq_keyless sq)) (bk_transactions b) = Ok (nxt, bk_trace b)"
    and "bk_height b = of_nat (n + length bs) + 1" "bk_pre_state_root b = mt_root st1" "bk_post_state_root b = mt_root nxt"
    and "batch_commitment H b = Some cm" "i = assertion_id H (covering_assertion (sq\<lparr>sq_head := head1\<rparr>) b cm)"
  shows "linked H ed pcs sq st head n (bs @ [b]) (ids @ [i]) nxt i"
  using assms by (induction H ed pcs sq st head n bs ids st1 head1 rule: linked.induct) (fastforce simp: algebra_simps)+

lemma linked_cong:
  "sq_keyless sq = sq_keyless sq2 \<Longrightarrow> sq_identity sq = sq_identity sq2 \<Longrightarrow> sq_bond sq = sq_bond sq2 \<Longrightarrow>
   linked H ed pcs sq st head n bs ids st' head' \<Longrightarrow> linked H ed pcs sq2 st head n bs ids st' head'"
  by (induction H ed pcs sq st head n bs ids st' head' rule: linked.induct) (fastforce simp: covering_assertion_def)+

text \<open>
  Everything that happens to a sequencer and its chain, from genesis.  Operations on the chain are
  those of any party; an identifier names one assertion only.
\<close>

inductive sequencer_reach ::
    "hasher \<Rightarrow> ed25519 \<Rightarrow> width_constants list \<Rightarrow> merkle_trie \<Rightarrow> u64 \<Rightarrow> u128 \<Rightarrow> keyless_config option \<Rightarrow> sequencer \<Rightarrow> bool"
  for H ed pcs genesis window min_bond keyless where
  New: "assertion_id H (genesis_assertion (mt_root genesis)) \<noteq> GENESIS \<Longrightarrow>
    sequencer_new H genesis (chain_new H (mt_root genesis) window min_bond) identity bond = (Ok sq :: (unit, _) result) \<Longrightarrow>
    sequencer_reach H ed pcs genesis window min_bond keyless (with_keyless sq keyless)"
| Submit: "sequencer_reach H ed pcs genesis window min_bond keyless sq \<Longrightarrow> sq_submit H ed pcs sq clock tx = (sq', r) \<Longrightarrow>
    sequencer_reach H ed pcs genesis window min_bond keyless sq'"
| Produce: "sequencer_reach H ed pcs genesis window min_bond keyless sq \<Longrightarrow>
    produce H ed pcs sq clock limit = (sq', Ok (Some (b, i))) \<Longrightarrow> id_binds (sq_chain sq) (sq_chain sq') i \<Longrightarrow>
    sequencer_reach H ed pcs genesis window min_bond keyless sq'"
| Refused: "sequencer_reach H ed pcs genesis window min_bond keyless sq \<Longrightarrow>
    produce H ed pcs sq clock limit = (sq', r) \<Longrightarrow> (\<forall>b i. r \<noteq> Ok (Some (b, i))) \<Longrightarrow>
    sequencer_reach H ed pcs genesis window min_bond keyless sq'"
| Recipient: "sequencer_reach H ed pcs genesis window min_bond keyless sq \<Longrightarrow>
    sequencer_reach H ed pcs genesis window min_bond keyless (with_fee_recipient sq account)"
| Limits: "sequencer_reach H ed pcs genesis window min_bond keyless sq \<Longrightarrow>
    sequencer_reach H ed pcs genesis window min_bond keyless (with_fee_asset_limits sq limits)"
| Assets: "sequencer_reach H ed pcs genesis window min_bond keyless sq \<Longrightarrow>
    sequencer_reach H ed pcs genesis window min_bond keyless (with_fee_assets sq assets)"
| Chain: "sequencer_reach H ed pcs genesis window min_bond keyless sq \<Longrightarrow> chain_step H (sq_chain sq) chain' \<Longrightarrow>
    sequencer_reach H ed pcs genesis window min_bond keyless (sq\<lparr>sq_chain := chain'\<rparr>)"

text \<open>A block is covered when the chain carries an assertion of exactly what it claims.\<close>

definition covered :: "hasher \<Rightarrow> sequencer \<Rightarrow> assertion_chain \<Rightarrow> block \<Rightarrow> assertion_id \<Rightarrow> bool" where
  "covered H sq chain b i \<longleftrightarrow> (\<exists>r cm head. chain_get chain i = Some r \<and> batch_commitment H b = Some cm
     \<and> cr_assertion r = covering_assertion (sq\<lparr>sq_head := head\<rparr>) b cm)"

lemma covered_cong:
  "sq_identity sq' = sq_identity sq \<Longrightarrow> sq_bond sq' = sq_bond sq \<Longrightarrow> covered H sq' = covered H sq"
  by (simp add: fun_eq_iff covered_def covering_assertion_def)

lemma covered_step:
  assumes inv: "chain_reach H root window bond chain" and step: "chain_step H chain chain'"
    and c: "list_all2 (covered H sq chain) bs ids"
  shows "list_all2 (covered H sq chain') bs ids"
  using c by (rule list_all2_mono)
    (use step_keeps_assertion [OF step chain_reach_inv [OF inv]] in \<open>fastforce simp: chain_get_def covered_def\<close>)

definition seq_inv ::
    "hasher \<Rightarrow> ed25519 \<Rightarrow> width_constants list \<Rightarrow> merkle_trie \<Rightarrow> u64 \<Rightarrow> u128 \<Rightarrow> keyless_config option \<Rightarrow> sequencer \<Rightarrow> bool" where
  "seq_inv H ed pcs genesis window min_bond keyless sq \<longleftrightarrow>
     linked H ed pcs sq genesis (assertion_id H (genesis_assertion (mt_root genesis))) 0 (sq_blocks sq) (sq_assertions sq)
       (sq_state sq) (sq_head sq)
     \<and> sorted (map bk_timestamp (sq_blocks sq)) \<and> sq_keyless sq = keyless
     \<and> chain_reach H (mt_root genesis) window min_bond (sq_chain sq)
     \<and> list_all2 (covered H sq (sq_chain sq))
         (sq_blocks sq) (sq_assertions sq)"


lemma seq_inv_same:
  assumes "seq_inv H ed pcs genesis window min_bond keyless sq"
    "sq_blocks sq' = sq_blocks sq" "sq_assertions sq' = sq_assertions sq" "sq_state sq' = sq_state sq" "sq_head sq' = sq_head sq"
    "sq_keyless sq' = sq_keyless sq" "sq_chain sq' = sq_chain sq" "sq_identity sq' = sq_identity sq" "sq_bond sq' = sq_bond sq"
  shows "seq_inv H ed pcs genesis window min_bond keyless sq'"
  using assms linked_cong [of sq sq'] covered_cong [of sq' sq] by (simp add: seq_inv_def)

lemma seq_inv_produce:
  assumes inv: "seq_inv H ed pcs genesis window min_bond keyless sq"
    and p: "produce H ed pcs sq clock limit = (sq', Ok (Some (b, i)))" and new: "id_binds (sq_chain sq) (sq_chain sq') i"
  shows "seq_inv H ed pcs genesis window min_bond keyless sq'"
proof -
  obtain mp nxt cm chain where
    q: "execute_batch H ed pcs (sq_state sq) (block_context b (sq_keyless sq)) (bk_transactions b) = Ok (nxt, bk_trace b)"
    "bk_height b = of_nat (length (sq_blocks sq)) + 1" "bk_timestamp b = next_timestamp sq clock"
    "bk_pre_state_root b = mt_root (sq_state sq)" "bk_post_state_root b = mt_root nxt" "batch_commitment H b = Some cm"
    "post H (sq_chain sq) (covering_assertion sq b cm) = Ok (chain, i)"
    and sq': "sq' = sq\<lparr>sq_mempool := mp, sq_chain := chain, sq_state := nxt, sq_head := i, sq_blocks := sq_blocks sq @ [b],
       sq_assertions := sq_assertions sq @ [i]\<rparr>"
    by (rule produce_Some [OF p])
  note inv' = inv [unfolded seq_inv_def]
  have step: "chain_step H (sq_chain sq) chain" using new chain_step.Post [OF q(7)] by (simp add: sq')
  have reach: "chain_reach H (mt_root genesis) window min_bond (sq_chain sq)" using inv' by blast
  have "i = assertion_id H (covering_assertion (sq\<lparr>sq_head := sq_head sq\<rparr>) b cm)" using post_Ok(1) [OF q(7)] by simp
  with inv' q have "linked H ed pcs sq genesis (assertion_id H (genesis_assertion (mt_root genesis))) 0
      (sq_blocks sq @ [b]) (sq_assertions sq @ [i]) nxt i"
    by (intro linked_snoc [of H ed pcs sq genesis _ 0 _ _ "sq_state sq" "sq_head sq"]) simp_all
  then have "linked H ed pcs sq' genesis (assertion_id H (genesis_assertion (mt_root genesis))) 0 (sq_blocks sq')
      (sq_assertions sq') (sq_state sq') (sq_head sq')"
    using linked_cong [of sq sq'] by (simp add: sq')
  moreover have "sorted (map bk_timestamp (sq_blocks sq @ [b]))"
  proof -
    have "x \<le> bk_timestamp (last (sq_blocks sq))" if "x \<in> bk_timestamp ` set (sq_blocks sq)" for x
    proof -
      have ne: "map bk_timestamp (sq_blocks sq) \<noteq> []" using that by auto
      have "sorted xs \<Longrightarrow> y \<in> set xs \<Longrightarrow> y \<le> last xs" for y and xs :: "u64 list" by (induction xs) auto
      from this [of "map bk_timestamp (sq_blocks sq)" x] that inv'
      have "x \<le> last (map bk_timestamp (sq_blocks sq))" by simp
      then show ?thesis using ne by (simp add: last_map)
    qed
    then show ?thesis using inv' by (auto simp: sorted_append q(3) next_timestamp_def le_max_iff_disj)
  qed
  moreover have "list_all2 (covered H sq chain)
      (sq_blocks sq @ [b]) (sq_assertions sq @ [i])"
  proof (rule list_all2_appendI)
    show "list_all2 (covered H sq chain)
      (sq_blocks sq) (sq_assertions sq)"
      using inv' covered_step [OF reach step] by blast
    show "list_all2 (covered H sq chain) [b] [i]"
      using post_Ok(2) [OF q(7)] q(6) by (auto simp: covered_def intro!: exI [of _ "sq_head sq"])
  qed
  moreover have "covered H sq' = covered H sq" by (rule covered_cong) (simp_all add: sq')
  ultimately show ?thesis using inv' chain_reach.Step [OF reach step] by (simp add: seq_inv_def sq')
qed

lemma seq_inv_chain:
  assumes inv: "seq_inv H ed pcs genesis window min_bond keyless sq" and step: "chain_step H (sq_chain sq) chain"
  shows "seq_inv H ed pcs genesis window min_bond keyless (sq\<lparr>sq_chain := chain\<rparr>)"
proof -
  note inv' = inv [unfolded seq_inv_def]
  have reach: "chain_reach H (mt_root genesis) window min_bond (sq_chain sq)" using inv' by blast
  have "list_all2 (covered H sq chain)
      (sq_blocks sq) (sq_assertions sq)"
    using inv' covered_step [OF reach step] by blast
  then show ?thesis
    using inv' chain_reach.Step [OF reach step] linked_cong [of sq "sq\<lparr>sq_chain := chain\<rparr>"]
      covered_cong [of "sq\<lparr>sq_chain := chain\<rparr>" sq] by (simp add: seq_inv_def)
qed

lemma sequencer_reach_inv:
  "sequencer_reach H ed pcs genesis window min_bond keyless sq \<Longrightarrow> seq_inv H ed pcs genesis window min_bond keyless sq"
proof (induction rule: sequencer_reach.induct)
  case (New identity bond sq)
  have "latest_finalized (chain_new H (mt_root genesis) window min_bond)
      = Some \<lparr>cr_assertion = genesis_assertion (mt_root genesis), cr_status = Finalized, cr_posted_at = 0, cr_open_challenges = 0\<rparr>"
    by (simp add: latest_finalized_def chain_new_def Let_def)
  with New show ?case
    by (auto simp: sequencer_new_def seq_inv_def with_keyless_def intro: chain_reach.New)
next
  case (Submit sq clock tx sq' r)
  from Submit(2) obtain mp where "sq' = sq\<lparr>sq_mempool := mp\<rparr>" by (auto simp: sq_submit_def Let_def split: prod.splits)
  with Submit.IH show ?case by (auto intro: seq_inv_same)
next
  case (Produce sq clock limit sq' b i)
  then show ?case by (blast intro: seq_inv_produce)
next
  case (Refused sq clock limit sq' r)
  from produce_other [OF Refused(2,3)] Refused.IH show ?case by (auto intro: seq_inv_same)
next
  case (Recipient sq account)
  then show ?case by (auto simp: with_fee_recipient_def intro: seq_inv_same)
next
  case (Limits sq limits)
  then show ?case by (auto simp: with_fee_asset_limits_def intro: seq_inv_same)
next
  case (Assets sq assets)
  then show ?case by (auto simp: with_fee_assets_def intro: seq_inv_same)
next
  case (Chain sq chain')
  then show ?case by (blast intro: seq_inv_chain)
qed

section \<open>Replaying\<close>

text \<open>What re-executing published blocks, one after another, gives.\<close>

fun replay_blocks ::
    "hasher \<Rightarrow> ed25519 \<Rightarrow> width_constants list \<Rightarrow> keyless_config option \<Rightarrow> merkle_trie \<Rightarrow> block list \<Rightarrow> (batch_error, merkle_trie) result" where
  "replay_blocks H ed pcs keyless st [] = Ok st"
| "replay_blocks H ed pcs keyless st (b # bs) =
     and_then (execute_batch H ed pcs st (block_context b keyless) (bk_transactions b)) (\<lambda>(nxt, _). replay_blocks H ed pcs keyless nxt bs)"

lemma linked_replay:
  "linked H ed pcs sq st head n bs ids st' head' \<Longrightarrow> replay_blocks H ed pcs (sq_keyless sq) st bs = Ok st'"
  by (induction H ed pcs sq st head n bs ids st' head' rule: linked.induct) auto

lemma linked_nth:
  "linked H ed pcs sq st head n bs ids st' head' \<Longrightarrow> i < length bs \<Longrightarrow>
   bk_height (bs ! i) = of_nat (n + i) + 1
   \<and> bk_pre_state_root (bs ! i) = (if i = 0 then mt_root st else bk_post_state_root (bs ! (i - 1)))"
proof (induction H ed pcs sq st head n bs ids st' head' arbitrary: i rule: linked.induct)
  case (2 H ed pcs sq st head n b bs j ids st' head')
  then obtain nxt where b: "bk_height b = of_nat n + 1" "bk_pre_state_root b = mt_root st" "bk_post_state_root b = mt_root nxt"
    "linked H ed pcs sq nxt j (Suc n) bs ids st' head'" by auto
  show ?case
  proof (cases i)
    case (Suc k)
    with "2.IH" [OF b(4), of k] "2.prems"(2) b show ?thesis by (cases k) (simp_all add: algebra_simps)
  qed (use b in simp)
qed simp_all

lemma linked_take:
  "linked H ed pcs sq st head n bs ids st' head' \<Longrightarrow> i < length bs \<Longrightarrow>
   \<exists>st1 head1. linked H ed pcs sq st head n (take (Suc i) bs) (take (Suc i) ids) st1 head1
     \<and> mt_root st1 = bk_post_state_root (bs ! i)"
proof (induction H ed pcs sq st head n bs ids st' head' arbitrary: i rule: linked.induct)
  case (2 H ed pcs sq st head n b bs j ids st' head')
  then obtain nxt where b: "bk_post_state_root b = mt_root nxt" "linked H ed pcs sq nxt j (Suc n) bs ids st' head'"
    and next_linked: "\<And>bs1 ids1 st1 head1. linked H ed pcs sq nxt j (Suc n) bs1 ids1 st1 head1 \<Longrightarrow>
      linked H ed pcs sq st head n (b # bs1) (j # ids1) st1 head1"
    by auto
  show ?case
  proof (cases i)
    case 0
    with next_linked [of "[]" "[]" nxt j] b(1) show ?thesis by auto
  next
    case (Suc k)
    with "2.IH" [OF b(2), of k] "2.prems"(2) next_linked show ?thesis by (simp del: linked.simps) blast
  qed
qed simp_all

lemma linked_at:
  "linked H ed pcs sq st head n bs ids st' head' \<Longrightarrow> i < length bs \<Longrightarrow>
   \<exists>st1 nxt cm. replay_blocks H ed pcs (sq_keyless sq) st (take i bs) = Ok st1
     \<and> replay_blocks H ed pcs (sq_keyless sq) st (take (Suc i) bs) = Ok nxt
     \<and> execute_batch H ed pcs st1 (block_context (bs ! i) (sq_keyless sq)) (bk_transactions (bs ! i)) = Ok (nxt, bk_trace (bs ! i))
     \<and> bk_pre_state_root (bs ! i) = mt_root st1 \<and> bk_post_state_root (bs ! i) = mt_root nxt \<and> batch_commitment H (bs ! i) = Some cm"
proof (induction H ed pcs sq st head n bs ids st' head' arbitrary: i rule: linked.induct)
  case (2 H ed pcs sq st head n b bs j ids st' head')
  show ?case
  proof (cases i)
    case 0
    with "2.prems"(1) show ?thesis by auto
  next
    case (Suc k)
    from "2.prems"(1) obtain nxt0 where
      n: "execute_batch H ed pcs st (block_context b (sq_keyless sq)) (bk_transactions b) = Ok (nxt0, bk_trace b)"
      "linked H ed pcs sq nxt0 j (Suc n) bs ids st' head'" by auto
    from "2.IH" [OF n(2), of k] "2.prems"(2) Suc n(1) show ?thesis by simp
  qed
qed simp_all

section \<open>Resuming rebuilds\<close>

text \<open>What a block becomes on the way through the store: written by \<open>save\<close>, read back by \<open>load\<close>.\<close>

definition stored_of_block :: "block \<Rightarrow> stored_batch" where
  "stored_of_block b = \<lparr>sb_timestamp = bk_timestamp b, sb_base_fee = bk_base_fee b, sb_fee_recipient = bk_fee_recipient b,
     sb_transactions = bk_transactions b, sb_post_state_root = bk_post_state_root b\<rparr>"

lemma resume_loop_linked:
  "linked H ed pcs sq0 st head n bs ids st' head' \<Longrightarrow>
   sq_keyless sq = sq_keyless sq0 \<Longrightarrow> sq_identity sq = sq_identity sq0 \<Longrightarrow> sq_bond sq = sq_bond sq0 \<Longrightarrow>
   sq_state sq = st \<Longrightarrow> sq_head sq = head \<Longrightarrow> (\<forall>i \<in> set ids. chain_get (sq_chain sq) i \<noteq> None) \<Longrightarrow>
   resume_loop H ed pcs sq n (map stored_of_block bs)
     = Ok (sq\<lparr>sq_state := st', sq_head := head', sq_blocks := sq_blocks sq @ bs, sq_assertions := sq_assertions sq @ ids\<rparr>)"
proof (induction H ed pcs sq0 st head n bs ids st' head' arbitrary: sq rule: linked.induct)
  case (2 H ed pcs sq0 st head n b bs j ids st' head')
  from "2.prems"(1) obtain nxt cm where
    b: "execute_batch H ed pcs st (block_context b (sq_keyless sq0)) (bk_transactions b) = Ok (nxt, bk_trace b)"
    "bk_height b = of_nat n + 1" "bk_pre_state_root b = mt_root st" "bk_post_state_root b = mt_root nxt"
    "batch_commitment H b = Some cm" "j = assertion_id H (covering_assertion (sq0\<lparr>sq_head := head\<rparr>) b cm)"
    "linked H ed pcs sq0 nxt j (Suc n) bs ids st' head'" by auto
  have same: "\<lparr>bk_height = of_nat n + 1, bk_timestamp = bk_timestamp b, bk_base_fee = bk_base_fee b,
      bk_fee_recipient = bk_fee_recipient b, bk_transactions = bk_transactions b, bk_pre_state_root = mt_root st,
      bk_post_state_root = mt_root nxt, bk_trace = bk_trace b\<rparr> = b"
    using b(2-4) by (cases b) simp
  have j: "assertion_id H (covering_assertion sq b cm) = j" using "2.prems"(2-6) b(6) by (simp add: covering_assertion_def)
  let ?sq = "sq\<lparr>sq_state := nxt, sq_head := j, sq_blocks := sq_blocks sq @ [b], sq_assertions := sq_assertions sq @ [j]\<rparr>"
  have "resume_loop H ed pcs sq n (map stored_of_block (b # bs)) = resume_loop H ed pcs ?sq (n + 1) (map stored_of_block bs)"
    using b(1,4,5) "2.prems" j
    by (auto simp: stored_of_block_def same block_context_def Let_def simp del: linked.simps)
  also have "\<dots> = Ok (?sq\<lparr>sq_state := st', sq_head := head', sq_blocks := sq_blocks ?sq @ bs, sq_assertions := sq_assertions ?sq @ ids\<rparr>)"
    using "2.IH" [OF b(7), of ?sq] "2.prems" by simp
  finally show ?case by simp
qed simp_all

lemma final_withdrawable:
  assumes "chain_reach H root window bond chain" "covered H sq chain b i" "chain_status chain i = Some Finalized"
  shows "is_withdrawable chain (bk_post_state_root b)"
proof -
  have wf: "bmap_wf (ac_records chain)" using chain_reach_inv [OF assms(1)] by (simp add: chain_inv_def)
  from assms(2,3) obtain r where "bmap_get (ac_records chain) i = Some r" "cr_status r = Finalized"
    "as_post_state_root (cr_assertion r) = bk_post_state_root b"
    by (auto simp: covered_def chain_get_def chain_status_def covering_assertion_def)
  then show ?thesis unfolding is_withdrawable_def list_ex_iff by (force simp: bmap_get_mem [OF wf, symmetric])
qed

lemma final_block:
  assumes "sequencer_reach H ed pcs genesis window min_bond keyless sq" "length (sq_blocks sq) < 2 ^ 64"
    and i: "i < length (sq_blocks sq)" and fin: "block_finalized sq (sq_blocks sq ! i)"
  shows "unat (bk_height (sq_blocks sq ! i)) = Suc i
    \<and> (\<exists>st. replay_blocks H ed pcs keyless genesis (take (Suc i) (sq_blocks sq)) = Ok st
        \<and> mt_root st = bk_post_state_root (sq_blocks sq ! i) \<and> is_withdrawable (sq_chain sq) (mt_root st))"
proof -
  note inv = sequencer_reach_inv [OF assms(1), unfolded seq_inv_def]
  then have l: "linked H ed pcs sq genesis (assertion_id H (genesis_assertion (mt_root genesis))) 0 (sq_blocks sq) (sq_assertions sq)
    (sq_state sq) (sq_head sq)" and cov: "list_all2 (covered H sq (sq_chain sq)) (sq_blocks sq) (sq_assertions sq)"
    and reach: "chain_reach H (mt_root genesis) window min_bond (sq_chain sq)" by blast+
  have n: "unat (bk_height (sq_blocks sq ! i)) = Suc i"
  proof -
    have "bk_height (sq_blocks sq ! i) = of_nat (Suc i)" using linked_nth [OF l i] by (simp add: add.commute)
    with i assms(2) show ?thesis by (simp only: unat_of_nat) simp
  qed
  have "chain_status (sq_chain sq) (sq_assertions sq ! i) = Some Finalized"
    using fin n by (auto simp: block_finalized_def assertion_for_def split: option.splits if_splits)
  then have w: "is_withdrawable (sq_chain sq) (bk_post_state_root (sq_blocks sq ! i))"
    using final_withdrawable [OF reach] list_all2_nthD [OF cov i] by blast
  obtain st head where st: "linked H ed pcs sq genesis (assertion_id H (genesis_assertion (mt_root genesis))) 0
      (take (Suc i) (sq_blocks sq)) (take (Suc i) (sq_assertions sq)) st head" "mt_root st = bk_post_state_root (sq_blocks sq ! i)"
    using linked_take [OF l i] by blast
  with linked_replay [OF st(1)] inv w n show ?thesis by (intro conjI exI [of _ st]) simp_all
qed

section \<open>A block is produced\<close>

lemma executed_commitment:
  assumes e: "execute_batch H ed pcs st ctx (bk_transactions b) = Ok (nxt, bk_trace b)" and n: "length (bk_transactions b) < 2 ^ 64"
  shows "\<exists>cm. batch_commitment H b = Some cm"
proof -
  have len: "length (tx_starts (bk_trace b)) = length (bk_transactions b)"
    using e by (auto simp: execute_batch_def run_transactions_steps list_all2_lengthD)
  let ?leaves = "map (\<lambda>(start, tx). (start, tx_encode tx)) (zip (tx_starts (bk_trace b)) (bk_transactions b))"
  obtain d where "length (padded H ?leaves) = 2 ^ d" using length_padded by blast
  from levels_up_complete [OF this] obtain levels root where
    "levels_up H (padded H ?leaves) = (Ok levels :: (unit, _) result)" "levels \<noteq> []" "last levels = [root]" by blast
  with n len show ?thesis by (simp add: batch_commitment_def block_batch_tree_def trace_batch_tree_def build_levels bt_root_def)
qed

lemma demo_context:
  assumes "trie_run demo_hash trie_new demo_ops = Some tr" "sq_state sq = tr" "sq_keyless sq = None" "sq_fee_recipient sq = FEE_VAULT"
  shows "sq_fee_market demo_hash sq = fee_market_genesis DEFAULT_BASE_FEE_FLOOR DEFAULT_GAS_TARGET"
    "sq_batch_context demo_hash sq 60 = without_keyless 60"
proof -
  have "trie_get tr (fee_market_key demo_hash) = None"
    using demo_start assms(1) by (metis (no_types, lifting) demo_slots(2) demo_distinct demo_state_def fun_upd_apply keys_slot_key option.inject)
  then show m: "sq_fee_market demo_hash sq = fee_market_genesis DEFAULT_BASE_FEE_FLOOR DEFAULT_GAS_TARGET"
    by (simp add: sq_fee_market_def assms)
  then show "sq_batch_context demo_hash sq 60 = without_keyless 60"
    by (simp add: sq_batch_context_def base_fee_at_def demo_rolled assms without_keyless_def Let_def)
      (simp add: fee_market_genesis_def)
qed

lemma demo_assertion_id: "assertion_id demo_hash a = ucast (as_bond a) + 1"
  by (simp add: assertion_id_def commit_def digest_def demo_hash_def enc_u64_def enc_u128_def enc_new_def
      enc_field_def push_framed_def domain_defs from_be_to_be)

lemma demo_gas_need: "gas_need demo_hash demo_tx = 51000"
  by (simp add: gas_need_def gas_required_def demo_tx_def gas_used_def checked_add_def INTRINSIC_GAS_def)

text \<open>
  A sequencer admits the demonstration transaction, puts it in a block at time 60 and sees the
  block's assertion finalized a window later.
\<close>

definition demo_chain :: assertion_chain where
  "demo_chain = chain_new demo_hash 13 86400 7"

definition demo_sequencer :: "merkle_trie \<Rightarrow> sequencer" where
  "demo_sequencer tr = \<lparr>sq_state = tr, sq_mempool = mempool_new 4096, sq_blocks = [], sq_chain = demo_chain, sq_identity = 5,
     sq_bond = 7, sq_assertions = [], sq_head = 1, sq_keyless = None,
     sq_fee_recipient = FEE_VAULT, sq_fee_asset_limits = [], sq_fee_assets = []\<rparr>"

lemma demo_new:
  assumes "mt_root tr = 13"
  shows "sequencer_reach demo_hash sample_ed [] tr 86400 7 None (demo_sequencer tr)"
proof -
  have "sequencer_new demo_hash tr demo_chain 5 7 = (Ok (demo_sequencer tr) :: (unit, _) result)"
    by (simp add: sequencer_new_def demo_chain_def latest_finalized_def chain_new_def Let_def demo_sequencer_def
        demo_assertion_id genesis_assertion_def)
  from sequencer_reach.New [where keyless = None, OF _ this [unfolded demo_chain_def assms [symmetric]], of sample_ed "[]"]
  show ?thesis by (simp add: demo_assertion_id genesis_assertion_def GENESIS_def ZERO_def with_keyless_def demo_sequencer_def)
qed

lemma demo_submitted:
  assumes tr: "trie_run demo_hash trie_new demo_ops = Some tr"
  obtains mp where "sq_submit demo_hash sample_ed [] (demo_sequencer tr) 0 demo_tx
      = ((demo_sequencer tr)\<lparr>sq_mempool := mp\<rparr>, Ok (tx_hash demo_hash demo_tx))"
    "mp_queued mp = [demo_tx]" "mempool_reach demo_hash sample_ed [] 4096 mp"
proof -
  obtain mp where mp: "submit demo_hash sample_ed [] (mempool_new 4096) tr (without_keyless 60) demo_tx = (mp, Ok (tx_hash demo_hash demo_tx))"
    "mp_queued mp = [demo_tx]" by (rule demo_submit [OF tr, of 4096]) simp_all
  have ts: "saturating_add (next_timestamp (demo_sequencer tr) 0) ADMISSION_EXPIRY_MARGIN_SECS = 60"
    by (simp add: next_timestamp_def demo_sequencer_def saturating_add_def ADMISSION_EXPIRY_MARGIN_SECS_def checked_add_def)
  have ctx: "sq_batch_context demo_hash (demo_sequencer tr) 60 = without_keyless 60"
    by (rule demo_context [OF tr]) (simp_all add: demo_sequencer_def)
  show thesis
  proof (rule that [OF _ mp(2)])
    show "sq_submit demo_hash sample_ed [] (demo_sequencer tr) 0 demo_tx
        = ((demo_sequencer tr)\<lparr>sq_mempool := mp\<rparr>, Ok (tx_hash demo_hash demo_tx))"
      unfolding sq_submit_def ts ctx by (simp add: demo_sequencer_def mp(1))
    show "mempool_reach demo_hash sample_ed [] 4096 mp" by (rule mempool_reach.Submit [OF mempool_reach.New mp(1)]) simp
  qed
qed

lemma demo_taken:
  assumes "mempool_reach demo_hash sample_ed [] 4096 mp" "mp_queued mp = [demo_tx]"
  obtains mp' where "take_batch_fitting demo_hash mp 10 MAX_BATCH_BYTES 10000000 (\<lambda>_. Some 10000000) = (mp', Ok [demo_tx] :: ('e, _) result)"
proof -
  obtain count mp' where c: "take_batch_within demo_hash mp 1 MAX_BATCH_BYTES = (mp', Ok (take count (mp_queued mp)) :: ('e, _) result)"
    "count = count_within MAX_BATCH_BYTES 0 0 (take 1 (mp_queued mp))"
    by (rule take_batch_eq [OF mempool_reach_inv [OF assms(1)]])
  with that show thesis
    by (simp add: take_batch_fitting_def assms(2) fits_def demo_gas_need checked_add_def Let_def)
qed

lemma demo_posted:
  assumes "as_parent a = 1" "as_pre_state_root a = 13" "as_bond a = 7"
  shows "post demo_hash demo_chain a = Ok (demo_chain\<lparr>ac_records := bmap_insert 8 \<lparr>cr_assertion = a, cr_status = Pending,
      cr_posted_at = 0, cr_open_challenges = 0\<rparr> (ac_records demo_chain)\<rparr>, 8)"
    and "chain_get demo_chain 8 = None"
  using assms by (simp_all add: post_def demo_chain_def chain_new_def demo_assertion_id genesis_assertion_def Let_def chain_get_def)

lemma demo_produced:
  assumes tr: "trie_run demo_hash trie_new demo_ops = Some tr" "mt_root tr = 13"
  obtains sq b a where "sequencer_reach demo_hash sample_ed [] tr 86400 7 None sq" "sq_blocks sq = [b]" "sq_assertions sq = [8]"
    "bk_transactions b = [demo_tx]" "bk_height b = 1" "as_parent a = 1"
    "sq_chain sq = demo_chain\<lparr>ac_records := bmap_insert 8 \<lparr>cr_assertion = a, cr_status = Pending,
      cr_posted_at = 0, cr_open_challenges = 0\<rparr> (ac_records demo_chain)\<rparr>"
    "block_context b None = without_keyless 60"
proof -
  obtain mp where sub: "sq_submit demo_hash sample_ed [] (demo_sequencer tr) 0 demo_tx
      = ((demo_sequencer tr)\<lparr>sq_mempool := mp\<rparr>, Ok (tx_hash demo_hash demo_tx))"
    "mp_queued mp = [demo_tx]" "mempool_reach demo_hash sample_ed [] 4096 mp"
    by (rule demo_submitted [OF tr(1)])
  let ?sq1 = "(demo_sequencer tr)\<lparr>sq_mempool := mp\<rparr>"
  note reach = sequencer_reach.Submit [OF demo_new [OF tr(2)] sub(1)]
  obtain mp' where taken: "take_batch_fitting demo_hash mp 10 MAX_BATCH_BYTES 10000000 (\<lambda>_. Some 10000000)
      = (mp', Ok [demo_tx] :: (produce_error, _) result)"
    by (rule demo_taken [OF sub(3,2)])
  let ?sq2 = "?sq1\<lparr>sq_mempool := mp'\<rparr>"
  obtain tr' t where e: "execute_batch demo_hash sample_ed [] tr (without_keyless 60) [demo_tx] = Ok (tr', t)"
    using demo_batch tr(1) by (metis option.inject)
  define b where "b = \<lparr>bk_height = 1, bk_timestamp = 60, bk_base_fee = DEFAULT_BASE_FEE_FLOOR, bk_fee_recipient = FEE_VAULT,
    bk_transactions = [demo_tx], bk_pre_state_root = mt_root tr, bk_post_state_root = mt_root tr', bk_trace = t\<rparr>"
  obtain cm where cm: "batch_commitment demo_hash b = Some cm"
    using executed_commitment [of demo_hash sample_ed "[]" tr "without_keyless 60" b tr'] e by (auto simp: b_def)
  define a where "a = covering_assertion ?sq2 b cm"
  have af: "as_parent a = 1" "as_pre_state_root a = 13" "as_bond a = 7"
    by (simp_all add: a_def covering_assertion_def demo_sequencer_def b_def tr(2))
  have market: "sq_fee_market demo_hash ?sq1 = fee_market_genesis DEFAULT_BASE_FEE_FLOOR DEFAULT_GAS_TARGET"
    and ctx: "sq_batch_context demo_hash ?sq2 60 = without_keyless 60"
    by (rule demo_context [OF tr(1)]; simp add: demo_sequencer_def)+
  have ts: "next_timestamp ?sq1 60 = 60" by (simp add: next_timestamp_def demo_sequencer_def)
  let ?w = "(fee_market_genesis DEFAULT_BASE_FEE_FLOOR DEFAULT_GAS_TARGET)\<lparr>fm_window_ts := 60\<rparr>"
  have w: "window_limit ?w = 10000000" "fm_window_gas ?w = 0"
    by (simp_all add: window_limit_def fee_market_genesis_def DEFAULT_GAS_TARGET_def ELASTICITY_def saturating_mul_def checked_mul_def)
  have cap: "asset_cap ?sq1 ?w = (\<lambda>_. Some 10000000)" by (simp add: fun_eq_iff asset_cap_def demo_sequencer_def w)
  have sealed: "seal demo_hash sample_ed [] tr (without_keyless 60) [demo_tx] = Ok (Some (tr', t, [demo_tx]))"
    by (simp add: seal.simps e)
  let ?sq3 = "?sq2\<lparr>sq_chain := demo_chain\<lparr>ac_records := bmap_insert 8 \<lparr>cr_assertion = a, cr_status = Pending,
      cr_posted_at = 0, cr_open_challenges = 0\<rparr> (ac_records demo_chain)\<rparr>, sq_state := tr', sq_head := 8,
      sq_blocks := [b], sq_assertions := [8]\<rparr>"
  have committed: "commit_block demo_hash ?sq2 (without_keyless 60) (tr', t, [demo_tx]) = (?sq3, Ok (Some (b, 8)))"
    using demo_posted(1) [OF af] cm unfolding a_def
    by (simp add: commit_block_def demo_sequencer_def without_keyless_def b_def Let_def)
  have "produce demo_hash sample_ed [] ?sq1 60 10 = (?sq3, Ok (Some (b, 8)))"
  proof -
    define sq1 where "sq1 = ?sq1"
    define sq2 where "sq2 = sq1\<lparr>sq_mempool := mp'\<rparr>"
    have f: "sq_mempool sq1 = mp" "sq_state sq2 = tr" by (simp_all add: sq1_def sq2_def demo_sequencer_def)
    note d = sq1_def [symmetric] sq2_def [symmetric]
    show ?thesis using committed ctx ts market cap unfolding d
      by (simp add: produce_def f demo_rolled w saturating_sub_def taken sealed d)
  qed
  from sequencer_reach.Produce [OF reach this] demo_posted(2) [OF af]
  have "sequencer_reach demo_hash sample_ed [] tr 86400 7 None ?sq3" by (simp add: demo_sequencer_def id_binds_def GENESIS_def ZERO_def)
  from that [OF this, of b a] af(1) show thesis by (simp add: b_def block_context_def without_keyless_def)
qed

lemma demo_finalized:
  obtains tr sq b where "sequencer_reach demo_hash sample_ed [] tr 86400 7 None sq" "sq_blocks sq = [b]" "sq_assertions sq = [8]"
    "bk_transactions b = [demo_tx]" "bk_height b = 1" "chain_status (sq_chain sq) 8 = Some Finalized" "mt_root tr = 13"
    "trie_run demo_hash trie_new demo_ops = Some tr" "block_context b None = without_keyless 60"
proof -
  obtain tr where tr: "trie_run demo_hash trie_new demo_ops = Some tr" "mt_root tr = 13" by (rule demo_start)
  obtain sq b a where r: "sequencer_reach demo_hash sample_ed [] tr 86400 7 None sq"
    and sq: "sq_blocks sq = [b]" "sq_assertions sq = [8]" "bk_transactions b = [demo_tx]" "bk_height b = 1" "as_parent a = 1"
      "sq_chain sq = demo_chain\<lparr>ac_records := bmap_insert 8 \<lparr>cr_assertion = a, cr_status = Pending,
        cr_posted_at = 0, cr_open_challenges = 0\<rparr> (ac_records demo_chain)\<rparr>"
      "block_context b None = without_keyless 60"
    by (rule demo_produced [OF tr])
  let ?c1 = "(sq_chain sq)\<lparr>ac_now := 86400\<rparr>"
  have "advance_to (sq_chain sq) 86400 = Ok ?c1" by (simp add: advance_to_def sq(6) demo_chain_def chain_new_def Let_def)
  from sequencer_reach.Chain [OF r chain_step.Advance [OF this]]
  have r1: "sequencer_reach demo_hash sample_ed [] tr 86400 7 None (sq\<lparr>sq_chain := ?c1\<rparr>)" .
  have "\<exists>c2. finalize ?c1 8 = Ok c2 \<and> chain_status c2 8 = Some Finalized"
    by (simp add: finalize_def sq demo_chain_def chain_new_def Let_def demo_assertion_id genesis_assertion_def
        saturating_sub_def set_record_def chain_status_def CHALLENGE_WINDOW_FLOOR_def max_def)
  then obtain c2 where c2: "finalize ?c1 8 = Ok c2" "chain_status c2 8 = Some Finalized" by blast
  have "chain_step demo_hash (sq_chain (sq\<lparr>sq_chain := ?c1\<rparr>)) c2" using chain_step.Finalize [OF c2(1)] by simp
  from that [OF sequencer_reach.Chain [OF r1 this], of b] sq c2(2) tr show thesis by simp
qed

section \<open>Properties\<close>

text \<open>
  The sequencer's state is what anyone gets by re-executing its blocks.  Whatever it went
  through, replaying the blocks from genesis gives its state; heights count from one, every block
  starts from the root the one before it reached, timestamps never go back, and each block is
  covered by an assertion on the chain that states its roots, its commitment and its trace length.
\<close>

lemma blocks_replay:
  assumes "sequencer_reach H ed pcs genesis window min_bond keyless sq"
  shows "replay_blocks H ed pcs keyless genesis (sq_blocks sq) = Ok (sq_state sq) \<and> sorted (map bk_timestamp (sq_blocks sq))
    \<and> (\<forall>i < length (sq_blocks sq). let b = sq_blocks sq ! i in
        bk_height b = of_nat i + 1
        \<and> bk_pre_state_root b = (if i = 0 then mt_root genesis else bk_post_state_root (sq_blocks sq ! (i - 1)))
        \<and> (\<exists>r. chain_get (sq_chain sq) (sq_assertions sq ! i) = Some r
            \<and> as_pre_state_root (cr_assertion r) = bk_pre_state_root b
            \<and> as_post_state_root (cr_assertion r) = bk_post_state_root b
            \<and> Some (as_batch_commitment (cr_assertion r)) = batch_commitment H b
            \<and> as_trace_length (cr_assertion r) = of_nat (trace_len (bk_trace b))))"
proof -
  note inv = sequencer_reach_inv [OF assms, unfolded seq_inv_def]
  then have l: "linked H ed pcs sq genesis (assertion_id H (genesis_assertion (mt_root genesis))) 0 (sq_blocks sq) (sq_assertions sq)
    (sq_state sq) (sq_head sq)" by blast
  have "covered H sq (sq_chain sq) (sq_blocks sq ! i) (sq_assertions sq ! i)" if "i < length (sq_blocks sq)" for i
    using inv that list_all2_nthD by blast
  then show ?thesis using inv linked_replay [OF l] linked_nth [OF l]
    by (force simp: Let_def covered_def covering_assertion_def)
qed

text \<open>
  Resuming the saved blocks of any sequencer on some chain: when the chain carries their assertions the
  result is the sequencer with that chain and an empty pool, and otherwise an error.
\<close>

lemma resume_loop_missing:
  "linked H ed pcs sq0 st head n bs ids st' head' \<Longrightarrow>
   sq_keyless sq = sq_keyless sq0 \<Longrightarrow> sq_identity sq = sq_identity sq0 \<Longrightarrow> sq_bond sq = sq_bond sq0 \<Longrightarrow>
   sq_state sq = st \<Longrightarrow> sq_head sq = head \<Longrightarrow> \<exists>i \<in> set ids. chain_get (sq_chain sq) i = None \<Longrightarrow>
   \<exists>e. resume_loop H ed pcs sq n (map stored_of_block bs) = Err e"
proof (induction H ed pcs sq0 st head n bs ids st' head' arbitrary: sq rule: linked.induct)
  case (2 H ed pcs sq0 st head n b bs j ids st' head')
  from "2.prems"(1) obtain nxt cm where
    b: "execute_batch H ed pcs st (block_context b (sq_keyless sq0)) (bk_transactions b) = Ok (nxt, bk_trace b)"
    "bk_height b = of_nat n + 1" "bk_pre_state_root b = mt_root st" "bk_post_state_root b = mt_root nxt"
    "batch_commitment H b = Some cm" "j = assertion_id H (covering_assertion (sq0\<lparr>sq_head := head\<rparr>) b cm)"
    "linked H ed pcs sq0 nxt j (Suc n) bs ids st' head'" by auto
  have same: "\<lparr>bk_height = of_nat n + 1, bk_timestamp = bk_timestamp b, bk_base_fee = bk_base_fee b,
      bk_fee_recipient = bk_fee_recipient b, bk_transactions = bk_transactions b, bk_pre_state_root = mt_root st,
      bk_post_state_root = mt_root nxt, bk_trace = bk_trace b\<rparr> = b"
    using b(2-4) by (cases b) simp
  have j: "assertion_id H (covering_assertion sq b cm) = j" using "2.prems"(2-6) b(6) by (simp add: covering_assertion_def)
  let ?sq = "sq\<lparr>sq_state := nxt, sq_head := j, sq_blocks := sq_blocks sq @ [b], sq_assertions := sq_assertions sq @ [j]\<rparr>"
  have "resume_loop H ed pcs sq n (map stored_of_block (b # bs)) =
      (if chain_get (sq_chain sq) j = None then Err (NoAssertion (of_nat n + 1)) else resume_loop H ed pcs ?sq (n + 1) (map stored_of_block bs))"
    using b(1,4,5) "2.prems"(2,5) j by (simp add: stored_of_block_def same block_context_def Let_def)
  then show ?case using "2.IH" [OF b(7), of ?sq] "2.prems" by (auto simp del: linked.simps)
qed simp_all

lemma resume_on_chain:
  assumes r: "sequencer_reach H ed pcs genesis window min_bond keyless sq" and c: "latest_finalized chain = Some x"
  defines "res \<equiv> resume H ed pcs genesis chain (sq_identity sq) (sq_bond sq) keyless (map stored_of_block (sq_blocks sq)) (mt_root (sq_state sq))"
  shows "(\<forall>i \<in> set (sq_assertions sq). chain_get chain i \<noteq> None) \<Longrightarrow> res = Ok (sq\<lparr>sq_chain := chain, sq_mempool := mempool_new 4096,
      sq_fee_recipient := FEE_VAULT, sq_fee_asset_limits := [], sq_fee_assets := []\<rparr>)"
    and "\<exists>i \<in> set (sq_assertions sq). chain_get chain i = None \<Longrightarrow> \<exists>e. res = Err e"
proof -
  note inv = sequencer_reach_inv [OF r, unfolded seq_inv_def]
  then have l: "linked H ed pcs sq genesis (assertion_id H (genesis_assertion (mt_root genesis))) 0 (sq_blocks sq) (sq_assertions sq)
    (sq_state sq) (sq_head sq)" by blast
  show "res = Ok (sq\<lparr>sq_chain := chain, sq_mempool := mempool_new 4096,
      sq_fee_recipient := FEE_VAULT, sq_fee_asset_limits := [], sq_fee_assets := []\<rparr>)"
    if "\<forall>i \<in> set (sq_assertions sq). chain_get chain i \<noteq> None"
    using inv that by (simp add: res_def resume_def sequencer_new_def c with_keyless_def resume_loop_linked [OF l])
  assume "\<exists>i \<in> set (sq_assertions sq). chain_get chain i = None"
  from resume_loop_missing [OF l, of "\<lparr>sq_state = genesis, sq_mempool = mempool_new 4096, sq_blocks = [], sq_chain = chain,
      sq_identity = sq_identity sq, sq_bond = sq_bond sq, sq_assertions = [],
      sq_head = assertion_id H (genesis_assertion (mt_root genesis)), sq_keyless = keyless,
      sq_fee_recipient = FEE_VAULT, sq_fee_asset_limits = [], sq_fee_assets = []\<rparr>"] this inv
  show "\<exists>e. res = Err e" by (auto simp: res_def resume_def sequencer_new_def c with_keyless_def)
qed

lemma resume_replay:
  assumes "sequencer_reach H ed pcs genesis window min_bond keyless sq"
  shows "resume H ed pcs genesis (sq_chain sq) (sq_identity sq) (sq_bond sq) keyless
      (map stored_of_block (sq_blocks sq)) (mt_root (sq_state sq))
    = Ok (sq\<lparr>sq_mempool := mempool_new 4096, sq_fee_recipient := FEE_VAULT, sq_fee_asset_limits := [], sq_fee_assets := []\<rparr>)"
proof -
  note inv = sequencer_reach_inv [OF assms, unfolded seq_inv_def]
  then have cov: "list_all2 (covered H sq (sq_chain sq)) (sq_blocks sq) (sq_assertions sq)" by blast
  obtain r where "latest_finalized (sq_chain sq) = Some r"
    using inv chain_reach_inv [of H "mt_root genesis" window min_bond "sq_chain sq"]
    by (auto simp: chain_inv_def latest_finalized_def)
  moreover have "\<forall>i \<in> set (sq_assertions sq). chain_get (sq_chain sq) i \<noteq> None"
    using cov by (fastforce simp: list_all2_conv_all_nth covered_def in_set_conv_nth)
  ultimately show ?thesis using resume_on_chain(1) [OF assms] by simp
qed

text \<open>
  Resuming on any chain with another root than the blocks lead to fails: either a block is not
  covered there, or the state at the end is not the saved one.
\<close>

lemma resume_loop_state:
  "linked H ed pcs sq0 st head n bs ids st' head' \<Longrightarrow> sq_keyless sq = sq_keyless sq0 \<Longrightarrow> sq_state sq = st \<Longrightarrow>
   case resume_loop H ed pcs sq n (map stored_of_block bs) of Ok sq' \<Rightarrow> sq_state sq' = st' | Err _ \<Rightarrow> True | Panic \<Rightarrow> False"
proof (induction H ed pcs sq0 st head n bs ids st' head' arbitrary: sq rule: linked.induct)
  case (2 H ed pcs sq0 st head n b bs j ids st' head')
  from "2.prems"(1) obtain nxt cm where
    b: "execute_batch H ed pcs st (block_context b (sq_keyless sq0)) (bk_transactions b) = Ok (nxt, bk_trace b)"
    "bk_height b = of_nat n + 1" "bk_pre_state_root b = mt_root st" "bk_post_state_root b = mt_root nxt"
    "batch_commitment H b = Some cm" "linked H ed pcs sq0 nxt j (Suc n) bs ids st' head'" by auto
  have same: "\<lparr>bk_height = of_nat n + 1, bk_timestamp = bk_timestamp b, bk_base_fee = bk_base_fee b,
      bk_fee_recipient = bk_fee_recipient b, bk_transactions = bk_transactions b, bk_pre_state_root = mt_root st,
      bk_post_state_root = mt_root nxt, bk_trace = bk_trace b\<rparr> = b"
    using b(2-4) by (cases b) simp
  let ?i = "assertion_id H (covering_assertion sq b cm)"
  let ?sq = "sq\<lparr>sq_state := nxt, sq_head := ?i, sq_blocks := sq_blocks sq @ [b], sq_assertions := sq_assertions sq @ [?i]\<rparr>"
  have step: "resume_loop H ed pcs sq n (map stored_of_block (b # bs)) =
      (if chain_get (sq_chain sq) ?i = None then Err (NoAssertion (of_nat n + 1)) else resume_loop H ed pcs ?sq (n + 1) (map stored_of_block bs))"
    using b(1,4,5) "2.prems"(2,3) by (simp add: stored_of_block_def same block_context_def Let_def)
  show ?case unfolding step using "2.IH" [OF b(6), of ?sq] "2.prems"(2) by simp
qed simp_all

lemma resume_other_root:
  assumes r: "sequencer_reach H ed pcs genesis window min_bond keyless sq" and c: "\<exists>x. latest_finalized chain = Some x"
    and ne: "mt_root (sq_state sq) \<noteq> root"
  shows "\<exists>e. resume H ed pcs genesis chain identity bond keyless (map stored_of_block (sq_blocks sq)) root = Err e"
proof -
  note inv = sequencer_reach_inv [OF r, unfolded seq_inv_def]
  from c obtain x where x: "latest_finalized chain = Some x" ..
  let ?sq = "\<lambda>y. (with_keyless y keyless)\<lparr>sq_head := assertion_id H (genesis_assertion (mt_root genesis))\<rparr>"
  obtain y where y: "sequencer_new H genesis chain identity bond = (Ok y :: (resume_error, _) result)" "sq_state y = genesis"
    by (simp add: sequencer_new_def x)
  have "case resume_loop H ed pcs (?sq y) 0 (map stored_of_block (sq_blocks sq)) of
      Ok sq' \<Rightarrow> sq_state sq' = sq_state sq | Err _ \<Rightarrow> True | Panic \<Rightarrow> False"
    by (rule resume_loop_state) (use inv y(2) in \<open>auto simp: with_keyless_def\<close>)
  with y(1) ne show ?thesis by (auto simp: resume_def split: result.splits)
qed

text \<open>
  C16.  What the node calls final can be withdrawn against.  When it reports a transaction final at a
  height, that transaction is in the block of that height, replaying the chain up to it gives the
  block's root, and the settlement contract pays withdrawals against that root.
\<close>

theorem finalized_confirmation:
  assumes "sequencer_reach H ed pcs genesis window min_bond keyless sq" "length (sq_blocks sq) < 2 ^ 64"
    and "confirmation H sq h = CFinalized n"
  shows "\<exists>b st. b \<in> set (sq_blocks sq) \<and> bk_height b = n \<and> (\<exists>t \<in> set (bk_transactions b). tx_hash H t = h)
    \<and> replay_blocks H ed pcs keyless genesis (take (unat n) (sq_blocks sq)) = Ok st \<and> mt_root st = bk_post_state_root b
    \<and> is_withdrawable (sq_chain sq) (mt_root st)"
proof -
  from assms(3) obtain b where b: "find (\<lambda>b. list_ex (\<lambda>t. tx_hash H t = h) (bk_transactions b)) (sq_blocks sq) = Some b"
    "block_finalized sq b" "bk_height b = n"
    by (auto simp: confirmation_def split: option.splits if_splits)
  then obtain i where i: "i < length (sq_blocks sq)" "b = sq_blocks sq ! i" "\<exists>t \<in> set (bk_transactions b). tx_hash H t = h"
    by (auto simp: find_Some_iff list_ex_iff)
  have "b \<in> set (sq_blocks sq)" using i by simp
  with b i final_block [OF assms(1,2) i(1)] show ?thesis by (intro exI [of _ b]) auto
qed

theorem finalized_confirmation_witness:
  "\<exists>tr sq st. confirmation demo_hash sq (tx_hash demo_hash demo_tx) = CFinalized 1
     \<and> replay_blocks demo_hash sample_ed [] None tr (take 1 (sq_blocks sq)) = Ok st \<and> is_withdrawable (sq_chain sq) (mt_root st)"
proof -
  obtain tr sq b where r: "sequencer_reach demo_hash sample_ed [] tr 86400 7 None sq"
    and sq: "sq_blocks sq = [b]" "sq_assertions sq = [8]" "bk_transactions b = [demo_tx]" "bk_height b = 1"
      "chain_status (sq_chain sq) 8 = Some Finalized"
    by (rule demo_finalized)
  have c: "confirmation demo_hash sq (tx_hash demo_hash demo_tx) = CFinalized 1"
    by (simp add: confirmation_def sq block_finalized_def assertion_for_def)
  have "length (sq_blocks sq) < 2 ^ 64" by (simp add: sq(1))
  from finalized_confirmation [OF r this c] c show ?thesis by (simp del: replay_blocks.simps One_nat_def add: unsigned_1) blast
qed

end
