(* ===== verification/Osp.thy ===== *)
theory Osp
  imports Bisection Execute
begin

text \<open>
  Adjudication of the one disputed step (\<open>osp.rs\<close>): everything arrives in the proof, and
  everything it trusts it checks first.
\<close>

section \<open>Adjudication\<close>

record one_step_proof =
  osp_pre_state :: machine_state
  osp_witness :: step_witness

datatype verdict_reason =
    DefenderClaimConfirmed
  | DefenderClaimRefuted
  | StepIsNotExecutable step_error
  | ProofContradictsAgreedState
  | WitnessRejected step_error
  | TraceLengthOverstated u64 nat

record verdict =
  vd_winner :: party
  vd_reason :: verdict_reason

fun witness_fault :: "step_error \<Rightarrow> bool" where
  "witness_fault (WitnessSlotMismatch _ _) = True"
| "witness_fault (BadWitnessProof _) = True"
| "witness_fault _ = False"

definition adjudicate ::
    "hasher \<Rightarrow> ed25519 \<Rightarrow> instruction list \<Rightarrow> dispute \<Rightarrow> one_step_proof \<Rightarrow> ('e, verdict) result" where
  "adjudicate H ed program d p =
     and_then (or_panic (disputed_step d)) (\<lambda>step.
       if commitment H (osp_pre_state p) \<noteq> d_lo_commitment d
       then Ok \<lparr>vd_winner = Defender, vd_reason = ProofContradictsAgreedState\<rparr>
       else if length program \<le> unat step
       then Ok \<lparr>vd_winner = Challenger, vd_reason = TraceLengthOverstated step (length program)\<rparr>
       else
         (case verify_step H ed (osp_pre_state p) (program ! unat step) (osp_witness p) of
            Ok post \<Rightarrow>
              if commitment H post = d_hi_commitment d
              then Ok \<lparr>vd_winner = Defender, vd_reason = DefenderClaimConfirmed\<rparr>
              else Ok \<lparr>vd_winner = Challenger, vd_reason = DefenderClaimRefuted\<rparr>
          | Err e \<Rightarrow>
              if witness_fault e then Ok \<lparr>vd_winner = Defender, vd_reason = WitnessRejected e\<rparr>
              else Ok \<lparr>vd_winner = Challenger, vd_reason = StepIsNotExecutable e\<rparr>
          | Panic \<Rightarrow> Panic))"

section \<open>What a witness can and cannot do\<close>

text \<open>A witness that does not verify is always the submitter's fault, and never a panic.\<close>

lemma check_witness_not_Panic: "check_witness H root w \<noteq> Panic"
  by (auto simp: check_witness_def verify_inclusion_def verify_inclusion_hashed_def verify_non_inclusion_def
      reconstruct_root_def Let_def split: option.splits if_splits terminal.splits)

lemma verify_step_unchecked:
  assumes "\<not> (sw_slot w = slot H i \<and> check_witness H (state_root pre) w = Ok ())"
  obtains e where "verify_step H ed pre i w = Err e" "witness_fault e"
proof (cases "sw_slot w = slot H i")
  case True
  with assms check_witness_not_Panic [of H "state_root pre" w] obtain e where
    "check_witness H (state_root pre) w = Err e" by (cases "check_witness H (state_root pre) w") auto
  with True that [of "BadWitnessProof e"] show thesis by (simp add: verify_step_def Let_def)
next
  case False
  with that [of "WitnessSlotMismatch (sw_slot w) (slot H i)"] show thesis by (simp add: verify_step_def Let_def)
qed

end
