(* ===== verification/Verifier.thy ===== *)
theory Verifier
  imports Osp Assertion Ledger
begin

text \<open>
  The verifier's side of a dispute (\<open>verifier.rs\<close>): comparing an assertion with a trace computed
  locally, and playing a dispute from that trace in either role.  The theorems put the whole
  fraud-proof path together: execution, bisection and adjudication.
\<close>

section \<open>Comparing an assertion\<close>

datatype finding =
    Agrees
  | RootDiverges hash256 hash256
  | TraceLengthDiverges u64 u64

definition warrants_challenge :: "finding \<Rightarrow> bool" where
  "warrants_challenge f \<longleftrightarrow> f \<noteq> Agrees"

definition check_assertion :: "assertion \<Rightarrow> execution_trace \<Rightarrow> ('e, finding) result" where
  "check_assertion a local =
     and_then (final_state local) (\<lambda>s.
       let computed_root = state_root s in
       if as_post_state_root a \<noteq> computed_root then Ok (RootDiverges (as_post_state_root a) computed_root)
       else
         let computed_length = of_nat (trace_len local) in
         if as_trace_length a \<noteq> computed_length then Ok (TraceLengthDiverges (as_trace_length a) computed_length)
         else Ok Agrees)"

section \<open>Playing from a trace\<close>

record trace_player =
  tp_trace :: execution_trace
  tp_pre_state :: merkle_trie

datatype play_error = PlayMove move_error | PlayNoDisagreement

definition state_at :: "trace_player \<Rightarrow> u64 \<Rightarrow> ('e, machine_state) result" where
  "state_at pl step =
     (if unat step < length (states (tp_trace pl)) then Ok (states (tp_trace pl) ! unat step)
      else final_state (tp_trace pl))"

definition commitment_at :: "hasher \<Rightarrow> trace_player \<Rightarrow> u64 \<Rightarrow> ('e, hash256) result" where
  "commitment_at H pl step = and_then (state_at pl step) (\<lambda>s. Ok (commitment H s))"

definition player_dissect :: "hasher \<Rightarrow> trace_player \<Rightarrow> dispute \<Rightarrow> ('e, hash256 list) result" where
  "player_dissect H pl d =
     and_then (dispute_boundaries d) (\<lambda>bs. collect_results (commitment_at H pl) (butlast (tl bs)))"

fun find_disagreement ::
    "hasher \<Rightarrow> trace_player \<Rightarrow> u64 list \<Rightarrow> nat \<Rightarrow> hash256 list \<Rightarrow> ('e, nat option) result" where
  "find_disagreement H pl bs index [] = Ok None"
| "find_disagreement H pl bs index (claimed # ends) =
     (if length bs \<le> index + 1 then Panic
      else and_then (commitment_at H pl (bs ! (index + 1))) (\<lambda>c.
        if c \<noteq> claimed then Ok (Some index) else find_disagreement H pl bs (index + 1) ends))"

definition first_disagreement ::
    "hasher \<Rightarrow> trace_player \<Rightarrow> dispute \<Rightarrow> hash256 list \<Rightarrow> ('e, nat option) result" where
  "first_disagreement H pl d offered =
     and_then (dispute_boundaries d) (\<lambda>bs. find_disagreement H pl bs 0 (offered @ [d_hi_commitment d]))"

fun replay :: "hasher \<Rightarrow> ed25519 \<Rightarrow> merkle_trie \<Rightarrow> instruction list \<Rightarrow> ('e, merkle_trie option) result" where
  "replay H ed tr [] = Ok (Some tr)"
| "replay H ed tr (i # is) =
     (case apply_step H ed tr i of Ok (tr', _) \<Rightarrow> replay H ed tr' is | Err _ \<Rightarrow> Ok None | Panic \<Rightarrow> Panic)"

definition player_one_step_proof ::
    "hasher \<Rightarrow> ed25519 \<Rightarrow> trace_player \<Rightarrow> dispute \<Rightarrow> ('e, one_step_proof option) result" where
  "player_one_step_proof H ed pl d =
     (case disputed_step d of
        None \<Rightarrow> Ok None
      | Some step \<Rightarrow>
          let index = unat step; is = instructions (tp_trace pl) in
          if length is \<le> index then Ok None
          else
            and_then (replay H ed (tp_pre_state pl) (take index is)) (\<lambda>replayed.
              case replayed of
                None \<Rightarrow> Ok None
              | Some tr \<Rightarrow>
                  let s = slot H (is ! index) in
                  and_then (state_at pl step) (\<lambda>pre.
                  and_then (or_panic (prove tr s)) (\<lambda>p.
                    Ok (Some \<lparr>osp_pre_state = pre,
                      osp_witness = \<lparr>sw_slot = s, sw_value = trie_get tr s, sw_proof = p\<rparr>\<rparr>)))))"

definition play ::
    "hasher \<Rightarrow> trace_player \<Rightarrow> dispute \<Rightarrow> party \<Rightarrow> u64 \<Rightarrow> dispute \<times> (play_error, unit) result" where
  "play H pl d role now =
     (case role of
        Defender \<Rightarrow>
          (case player_dissect H pl d of
             Ok commitments \<Rightarrow> let (d', r) = dissect d now commitments in (d', map_err PlayMove r)
           | Err e \<Rightarrow> (d, Err e)
           | Panic \<Rightarrow> (d, Panic))
      | Challenger \<Rightarrow>
          (case d_stage d of
             Bisecting (Some offered) \<Rightarrow>
               (case first_disagreement H pl d offered of
                  Ok (Some index) \<Rightarrow> let (d', r) = select d now index in (d', map_err PlayMove r)
                | Ok None \<Rightarrow> (d, Err PlayNoDisagreement)
                | Err e \<Rightarrow> (d, Err e)
                | Panic \<Rightarrow> (d, Panic))
           | _ \<Rightarrow> (d, Err (PlayMove WrongStage))))"


section \<open>A dispute one side of which plays from its trace\<close>

text \<open>
  One party answers with \<open>play\<close>, at whatever times; the other moves as it likes.
\<close>

inductive game :: "hasher \<Rightarrow> trace_player \<Rightarrow> party \<Rightarrow> dispute_opening \<Rightarrow> u64 \<Rightarrow> dispute \<Rightarrow> bool"
  for H pl role opn opened where
  Open: "game H pl role opn opened (dispute_open opn opened)"
| Own: "game H pl role opn opened d \<Longrightarrow> play H pl d role now = (d', r) \<Longrightarrow> r \<noteq> Panic \<Longrightarrow> game H pl role opn opened d'"
| TheirDissect: "game H pl role opn opened d \<Longrightarrow> role = Challenger \<Longrightarrow> dissect d now cs = (d', r) \<Longrightarrow> r \<noteq> Panic \<Longrightarrow>
    game H pl role opn opened d'"
| TheirSelect: "game H pl role opn opened d \<Longrightarrow> role = Defender \<Longrightarrow> select d now index = (d', r) \<Longrightarrow> r \<noteq> Panic \<Longrightarrow>
    game H pl role opn opened d'"
| Clock: "game H pl role opn opened d \<Longrightarrow> check_timeout d now = (d', w) \<Longrightarrow> game H pl role opn opened d'"

text \<open>The commitment the player holds for a step.\<close>

definition honest_at :: "hasher \<Rightarrow> execution_trace \<Rightarrow> nat \<Rightarrow> hash256" where
  "honest_at H t k = commitment H (states t ! min k (length (states t) - 1))"

lemma commitment_at_honest:
  "states (tp_trace pl) \<noteq> [] \<Longrightarrow> commitment_at H pl step = Ok (honest_at H (tp_trace pl) (unat step))"
proof -
  assume ne: "states (tp_trace pl) \<noteq> []"
  then obtain n where "length (states (tp_trace pl)) = Suc n" by (cases "states (tp_trace pl)") auto
  with ne show ?thesis
    by (cases "unat step < Suc n")
      (auto simp: commitment_at_def state_at_def final_state_def honest_at_def last_conv_nth min_def)
qed

text \<open>
  Invariant of the defending player: both ends of the interval and everything on offer are its
  own commitments.  Invariant of the challenging player: it agrees with the start of the
  interval and disagrees with its end.
\<close>

definition honest_inv :: "hasher \<Rightarrow> execution_trace \<Rightarrow> party \<Rightarrow> dispute \<Rightarrow> bool" where
  "honest_inv H t role d \<longleftrightarrow> d_lo_commitment d = honest_at H t (unat (d_lo d))
     \<and> (case role of
          Challenger \<Rightarrow> d_hi_commitment d \<noteq> honest_at H t (unat (d_hi d))
        | Defender \<Rightarrow> d_hi_commitment d = honest_at H t (unat (d_hi d))
            \<and> (\<forall>cs bs. d_stage d = Bisecting (Some cs) \<longrightarrow> dispute_boundaries d = (Ok bs :: (move_error, _) result) \<longrightarrow>
                 cs = map (honest_at H t \<circ> unat) (butlast (tl bs))))"

lemma honest_inv_refused: "honest_inv H t role d \<Longrightarrow> refused_move d d' \<Longrightarrow> honest_inv H t role d'"
  by (auto simp: honest_inv_def refused_move_def is_resolved_def dispute_boundaries_def split: party.splits stage.splits)

text \<open>The search returns the first end that differs from the player's own commitment, if any does.\<close>

lemma find_disagreement_first:
  assumes "states (tp_trace pl) \<noteq> []"
  shows "length bs = Suc (index + length ends) \<Longrightarrow>
    \<exists>r. find_disagreement H pl bs index ends = (Ok r :: ('e, _) result)
      \<and> (case r of
           None \<Rightarrow> \<forall>j < length ends. ends ! j = honest_at H (tp_trace pl) (unat (bs ! Suc (index + j)))
         | Some k \<Rightarrow> \<exists>j < length ends. k = index + j \<and> ends ! j \<noteq> honest_at H (tp_trace pl) (unat (bs ! Suc (index + j)))
             \<and> (\<forall>i < j. ends ! i = honest_at H (tp_trace pl) (unat (bs ! Suc (index + i)))))"
proof (induction ends arbitrary: index)
  case (Cons claimed ends)
  let ?c = "honest_at H (tp_trace pl) (unat (bs ! Suc index))"
  show ?case
  proof (cases "?c = claimed")
    case True
    from Cons.IH [of "Suc index"] Cons.prems obtain r where
      r: "find_disagreement H pl bs (Suc index) ends = (Ok r :: ('e, _) result)"
      and c: "case r of
           None \<Rightarrow> \<forall>j < length ends. ends ! j = honest_at H (tp_trace pl) (unat (bs ! Suc (Suc index + j)))
         | Some k \<Rightarrow> \<exists>j < length ends. k = Suc index + j \<and> ends ! j \<noteq> honest_at H (tp_trace pl) (unat (bs ! Suc (Suc index + j)))
             \<and> (\<forall>i < j. ends ! i = honest_at H (tp_trace pl) (unat (bs ! Suc (Suc index + i))))"
      by auto
    have "find_disagreement H pl bs index (claimed # ends) = (Ok r :: ('e, _) result)"
      using Cons.prems True r by (simp add: commitment_at_honest [OF assms])
    with c True show ?thesis
      by (cases r) (fastforce simp: All_less_Suc2 Ex_less_Suc2)+
  next
    case False
    have "find_disagreement H pl bs index (claimed # ends) = (Ok (Some index) :: ('e, _) result)"
      using Cons.prems False by (simp add: commitment_at_honest [OF assms])
    with False show ?thesis by (auto simp: Ex_less_Suc2)
  qed
qed simp

lemma player_dissect_honest:
  assumes "states (tp_trace pl) \<noteq> []" "dispute_boundaries d = (Ok bs :: ('e, _) result)"
  shows "player_dissect H pl d = (Ok (map (honest_at H (tp_trace pl) \<circ> unat) (butlast (tl bs))) :: ('e, _) result)"
proof -
  have "collect_results (commitment_at H pl) xs = (Ok (map (honest_at H (tp_trace pl) \<circ> unat) xs) :: ('e, _) result)" for xs
    by (rule collect_results_map) (simp add: commitment_at_honest [OF assms(1)])
  with assms(2) show ?thesis by (simp add: player_dissect_def)
qed


lemma boundary_list:
  assumes inv: "interval_inv len d" "len < 2 ^ 61" and bs: "dispute_boundaries d = (Ok bs :: ('e, _) result)"
  shows "bs = d_lo d # butlast (tl bs) @ [d_hi d]"
proof -
  let ?span = "unat (d_hi d) - unat (d_lo d)"
  note bv = boundary_values [OF inv bs]
  have n: "0 < segment_count ?span" by (rule segment_count_bounds)
  have le: "unat (d_lo d) \<le> unat (d_hi d)" using inv(1) by (simp add: interval_inv_def)
  have "unat (bs ! 0) = unat (d_lo d)" using bv by simp
  then have "bs ! 0 = d_lo d" by (simp add: word_unat_eq_iff)
  moreover have "unat (bs ! (length bs - 1)) = unat (d_hi d)" using bv n le by simp
  then have "bs ! (length bs - 1) = d_hi d" by (simp add: word_unat_eq_iff)
  moreover obtain b cs where c: "bs = b # cs" "cs \<noteq> []" using bv(1) n by (cases bs; cases "tl bs") auto
  ultimately show ?thesis using append_butlast_last_id [OF c(2)] by (simp add: nth_Cons' last_conv_nth)
qed

lemma narrow_fields [simp]:
  "d_lo (narrow d now bs cs index) = bs ! index" "d_hi (narrow d now bs cs index) = bs ! Suc index"
  "d_lo_commitment (narrow d now bs cs index) = cs ! index"
  "d_hi_commitment (narrow d now bs cs index) = cs ! Suc index"
  "d_stage (narrow d now bs cs index) \<noteq> Bisecting (Some offered)"
  by (auto simp: narrow_def enter_one_step_if_narrow_def pass_turn_def)

lemma accepted_boundaries: "accepted_move p now d d1 \<Longrightarrow> dispute_boundaries d1 = dispute_boundaries d"
  by (simp add: dispute_boundaries_def accepted_move_fields)

lemma boundaries_exist:
  assumes "interval_inv len d" "len < 2 ^ 61"
  obtains bs where "dispute_boundaries d = (Ok bs :: (move_error, _) result)" "dispute_boundaries d = (Ok bs :: (play_error, _) result)"
  by (rule that) (rule dispute_boundaries_inv [OF assms])+

text \<open>The player's own moves keep the invariant.\<close>

lemma own_dissect:
  assumes inv: "honest_inv H (tp_trace pl) Defender d" and ne: "states (tp_trace pl) \<noteq> []"
    and bs: "dispute_boundaries d = (Ok bs :: (move_error, _) result)"
    and d: "dissect d now (map (honest_at H (tp_trace pl) \<circ> unat) (butlast (tl bs))) = (d', r)" "r \<noteq> Panic"
  shows "honest_inv H (tp_trace pl) Defender d'"
  using d
proof (cases rule: dissect_cases)
  case (refused e)
  then show ?thesis using honest_inv_refused [OF inv] by blast
next
  case (dissected d1 off bs1)
  have "dispute_boundaries d' = (Ok bs :: (move_error, _) result)"
    using bs dissected(6) accepted_boundaries [OF dissected(2), where 'a = move_error] by (simp add: dispute_boundaries_def pass_turn_def)
  with dissected accepted_move_fields [OF dissected(2)] inv show ?thesis by (simp add: honest_inv_def pass_turn_def)
qed

lemma own_select:
  assumes inv: "honest_inv H (tp_trace pl) Challenger d" and ne: "states (tp_trace pl) \<noteq> []"
    and int: "interval_inv len d" "len < 2 ^ 61" and st: "d_stage d = Bisecting (Some offered)"
    and f: "first_disagreement H pl d offered = (Ok (Some index) :: (play_error, _) result)"
    and d: "select d now index = (d', r)" "r \<noteq> Panic"
  shows "honest_inv H (tp_trace pl) Challenger d'"
  using d
proof (cases rule: select_cases)
  case (refused e)
  then show ?thesis using honest_inv_refused [OF inv] by blast
next
  case (selected d1 off bs)
  note fl = accepted_move_fields [OF selected(2)]
  have off: "off = offered" using selected(3) fl st by simp
  have bs: "dispute_boundaries d = (Ok bs :: (move_error, _) result)"
    using selected(4) accepted_boundaries [OF selected(2)] by metis
  have bs': "dispute_boundaries d = (Ok bs :: (play_error, _) result)"
    by (rule boundaries_exist [OF int]) (use bs in simp)
  have len: "length bs = Suc (0 + length (offered @ [d_hi_commitment d]))"
    using boundary_values(1) [OF int bs] int st by (simp add: interval_inv_def)
  from find_disagreement_first [OF ne len, of H, where 'e = play_error] f bs'
  have k: "(offered @ [d_hi_commitment d]) ! index \<noteq> honest_at H (tp_trace pl) (unat (bs ! Suc index))"
    "\<forall>i < index. (offered @ [d_hi_commitment d]) ! i = honest_at H (tp_trace pl) (unat (bs ! Suc i))"
    by (auto simp: first_disagreement_def)
  have lo: "bs ! 0 = d_lo d" by (subst boundary_list [OF int bs]) simp
  have "(d_lo_commitment d # offered @ [d_hi_commitment d]) ! index = honest_at H (tp_trace pl) (unat (bs ! index))"
    using k(2) inv lo by (cases index) (auto simp: honest_inv_def)
  with k(1) show ?thesis unfolding selected(7) off by (simp add: honest_inv_def fl)
qed

text \<open>So do the opponent's.\<close>

lemma their_dissect:
  assumes inv: "honest_inv H t Challenger d" and d: "dissect d now cs = (d', r)" "r \<noteq> Panic"
  shows "honest_inv H t Challenger d'"
  using d
proof (cases rule: dissect_cases)
  case (refused e)
  then show ?thesis using honest_inv_refused [OF inv] by blast
next
  case (dissected d1 off bs)
  with accepted_move_fields [OF dissected(2)] inv show ?thesis by (simp add: honest_inv_def pass_turn_def)
qed

lemma their_select:
  assumes inv: "honest_inv H t Defender d" and int: "interval_inv len d" "len < 2 ^ 61"
    and d: "select d now index = (d', r)" "r \<noteq> Panic"
  shows "honest_inv H t Defender d'"
  using d
proof (cases rule: select_cases)
  case (refused e)
  then show ?thesis using honest_inv_refused [OF inv] by blast
next
  case (selected d1 off bs)
  note fl = accepted_move_fields [OF selected(2)]
  have bs: "dispute_boundaries d = (Ok bs :: (move_error, _) result)"
    using selected(4) accepted_boundaries [OF selected(2)] by metis
  have "off = map (honest_at H t \<circ> unat) (butlast (tl bs))"
    using inv selected(3) fl bs by (simp add: honest_inv_def)
  then have "d_lo_commitment d # off @ [d_hi_commitment d] = map (honest_at H t \<circ> unat) bs"
    using inv by (subst boundary_list [OF int bs]) (simp add: honest_inv_def)
  then show ?thesis unfolding selected(7) using selected(5) by (simp add: honest_inv_def fl)
qed


lemma play_cases:
  assumes ne: "states (tp_trace pl) \<noteq> []" and int: "interval_inv len d" "len < 2 ^ 61"
    and p: "play H pl d role now = (d', r)" "r \<noteq> Panic"
  obtains (unchanged) "d' = d"
    | (dissect) bs r' where "role = Defender" "dispute_boundaries d = (Ok bs :: (move_error, _) result)"
        "dissect d now (map (honest_at H (tp_trace pl) \<circ> unat) (butlast (tl bs))) = (d', r')" "r' \<noteq> Panic"
        "r = map_err PlayMove r'"
    | (select) offered index r' where "role = Challenger" "d_stage d = Bisecting (Some offered)"
        "first_disagreement H pl d offered = (Ok (Some index) :: (play_error, _) result)"
        "select d now index = (d', r')" "r' \<noteq> Panic" "r = map_err PlayMove r'"
proof (cases role)
  case Defender
  obtain bs where b: "dispute_boundaries d = (Ok bs :: (move_error, _) result)" "dispute_boundaries d = (Ok bs :: (play_error, _) result)"
    by (rule boundaries_exist [OF int])
  obtain d2 r2 where r2: "dissect d now (map (honest_at H (tp_trace pl) \<circ> unat) (butlast (tl bs))) = (d2, r2)" by force
  have "d' = d2" "r = map_err PlayMove r2"
    using p(1) Defender player_dissect_honest [OF ne b(2)] r2 by (simp_all add: play_def)
  then show thesis using p(2) by (intro that(2) [OF Defender b(1)]) (use r2 in auto)
next
  case Challenger
  show thesis
  proof (cases "\<exists>offered index. d_stage d = Bisecting (Some offered)
      \<and> first_disagreement H pl d offered = (Ok (Some index) :: (play_error, _) result)")
    case True
    then obtain offered index where f: "d_stage d = Bisecting (Some offered)"
      "first_disagreement H pl d offered = (Ok (Some index) :: (play_error, _) result)" by blast
    obtain d2 r2 where r2: "select d now index = (d2, r2)" by force
    have "d' = d2" "r = map_err PlayMove r2" using p(1) Challenger f r2 by (simp_all add: play_def)
    then show thesis using p(2) by (intro that(3) [OF Challenger f]) (use r2 in auto)
  next
    case False
    then have "d' = d" using p(1) Challenger
      by (auto simp: play_def split: stage.splits option.splits result.splits)
    then show thesis by (rule that(1))
  qed
qed

text \<open>Every dispute the player takes part in is well formed and keeps the player's invariant.\<close>

lemma game_inv:
  assumes "game H pl role opn opened d" and ne: "states (tp_trace pl) \<noteq> []"
    and len: "0 < unat (op_trace_length opn)" "unat (op_trace_length opn) < 2 ^ 61"
    and lo: "op_lo_commitment opn = honest_at H (tp_trace pl) 0"
    and hi: "(op_hi_commitment opn = honest_at H (tp_trace pl) (unat (op_trace_length opn))) = (role = Defender)"
  shows "interval_inv (unat (op_trace_length opn)) d \<and> honest_inv H (tp_trace pl) role d"
  using assms(1)
proof (induction rule: game.induct)
  case Open
  have "honest_inv H (tp_trace pl) role (dispute_open opn opened)"
    using lo hi by (auto simp: honest_inv_def dispute_open_def Let_def enter_one_step_if_narrow_def split: party.splits)
  with open_interval_inv [OF len(1)] show ?case by blast
next
  case (Own d now d' r)
  note int = conjunct1 [OF Own.IH] and inv = conjunct2 [OF Own.IH]
  from ne int len(2) Own.hyps(2,3) show ?case
  proof (cases rule: play_cases)
    case unchanged
    with Own.IH show ?thesis by simp
  next
    case (dissect bs r')
    with dissect_interval_inv [OF int len(2)] own_dissect [OF inv [unfolded dissect(1)] ne dissect(2)] show ?thesis by blast
  next
    case (select offered index r')
    with select_interval_inv [OF int len(2)] own_select [OF inv [unfolded select(1)] ne int len(2) select(2,3)]
    show ?thesis by blast
  qed
next
  case (TheirDissect d now cs d' r)
  then show ?case using dissect_interval_inv [OF _ len(2)] their_dissect by blast
next
  case (TheirSelect d now index d' r)
  then show ?case using select_interval_inv [OF _ len(2)] their_select [OF _ _ len(2)] by blast
next
  case (Clock d now d' w)
  then show ?case using check_timeout_refused refused_interval_inv honest_inv_refused by blast
qed


section \<open>From a batch to a verdict\<close>

lemma replay_run_steps: "run_steps H ed tr is = Ok (tr', roots) \<Longrightarrow> replay H ed tr is = Ok (Some tr')"
  by (induction "is" arbitrary: tr roots) (auto simp: and_then_Ok_iff)

lemma honest_at_trace: "length (states t) = Suc n \<Longrightarrow> k \<le> n \<Longrightarrow> honest_at H t k = commitment H (states t ! k)"
  by (simp add: honest_at_def)

lemma one_step_interval:
  assumes "interval_inv len d" "d_stage d = OneStep"
  shows "disputed_step d = Some (d_lo d)" "unat (d_hi d) = Suc (unat (d_lo d))" "unat (d_hi d) \<le> len"
  using assms by (simp_all add: interval_inv_def disputed_step_def)

text \<open>
  Defending: whatever proof arrives, adjudication finds for a party whose commitments are those
  of the execution.
\<close>

lemma defence_holds:
  assumes run: "trie_run H trie_new ops = Some tr" and exec: "execute_batch H ed pcs tr ctx txs = Ok (tr', t)"
    and len: "length (instructions t) < 2 ^ 61" and k: "k < length (instructions t)"
    and d: "disputed_step d = Some step" "unat step = k" "d_lo_commitment d = commitment H (states t ! k)"
      "d_hi_commitment d = commitment H (states t ! Suc k)"
    and inj: "commitment H (osp_pre_state p) = commitment H (states t ! k) \<Longrightarrow> osp_pre_state p = states t ! k"
    and cf: "collision_free H (history_nodes H SE (ops @ exec_ops H ed (trie_get tr) (instructions t))
        \<union> proof_nodes H (sw_slot (osp_witness p)) (sw_proof (osp_witness p)))"
    and pre: "map_exec H ed (trie_get tr) (take k (instructions t)) = Ok m"
    and vals: "\<forall>v v'. m (sw_slot (osp_witness p)) = Some v \<longrightarrow> sw_value (osp_witness p) = Some v' \<longrightarrow> H v = H v' \<longrightarrow> v = v'"
  shows "\<exists>v. adjudicate H ed (instructions t) d p = (Ok v :: ('e, _) result) \<and> vd_winner v = Defender"
proof (cases "commitment H (osp_pre_state p) = commitment H (states t ! k)")
  case True
  note st = inj [OF True]
  have len64: "length (instructions t) < 2 ^ 64" using len by simp
  let ?w = "osp_witness p"
  show ?thesis
  proof (cases "sw_slot ?w = slot H (instructions t ! k) \<and> check_witness H (state_root (states t ! k)) ?w = Ok ()")
    case chk: True
    from checked_trace_step [OF run exec len64 k conjunct1 [OF chk] conjunct2 [OF chk] cf pre vals]
    show ?thesis using d k by (simp add: adjudicate_def st)
  next
    case False
    obtain e where "verify_step H ed (states t ! k) (instructions t ! k) ?w = Err e" "witness_fault e"
      by (rule verify_step_unchecked [OF False])
    then show ?thesis using d k by (simp add: adjudicate_def st)
  qed
qed (use d in \<open>simp add: adjudicate_def\<close>)

text \<open>
  Challenging: where the defender's claim for a step differs from the execution, the proof built
  by replaying the batch wins.
\<close>

lemma challenge_holds:
  assumes run: "trie_run H trie_new ops = Some tr" and exec: "execute_batch H ed pcs tr ctx txs = Ok (tr', t)"
    and len: "length (instructions t) < 2 ^ 61" and k: "k < length (instructions t)"
    and d: "disputed_step d = Some step" "unat step = k" "d_lo_commitment d = commitment H (states t ! k)"
      "d_hi_commitment d \<noteq> commitment H (states t ! Suc k)"
    and cf: "collision_free H (history_nodes H SE (ops @ exec_ops H ed (trie_get tr) (instructions t)))"
  shows "\<exists>p. player_one_step_proof H ed \<lparr>tp_trace = t, tp_pre_state = tr\<rparr> d = (Ok (Some p) :: ('e, _) result)
    \<and> adjudicate H ed (instructions t) d p = (Ok \<lparr>vd_winner = Challenger, vd_reason = DefenderClaimRefuted\<rparr> :: ('f, _) result)"
proof -
  have len64: "length (instructions t) < 2 ^ 64" using len by simp
  obtain trk rs w where w: "run_steps H ed tr (take k (instructions t)) = Ok (trk, rs)"
    "honest_witness H trk (instructions t ! k) = Some w"
    "verify_step H ed (states t ! k) (instructions t ! k) w = Ok (states t ! Suc k)"
    by (rule honest_trace_step [OF run exec len64 k cf])
  from w(2) obtain pr where pr: "prove trk (slot H (instructions t ! k)) = Some pr"
    "w = \<lparr>sw_slot = slot H (instructions t ! k), sw_value = trie_get trk (slot H (instructions t ! k)), sw_proof = pr\<rparr>"
    by (auto simp: honest_witness_def)
  have "state_at \<lparr>tp_trace = t, tp_pre_state = tr\<rparr> step = (Ok (states t ! k) :: ('e, _) result)"
    using trace_shape(1) [OF exec] k d(2) by (simp add: state_at_def)
  then have "player_one_step_proof H ed \<lparr>tp_trace = t, tp_pre_state = tr\<rparr> d
      = (Ok (Some \<lparr>osp_pre_state = states t ! k, osp_witness = w\<rparr>) :: ('e, _) result)"
    using d(1,2) k pr replay_run_steps [OF w(1), where 'a = 'e] by (simp add: player_one_step_proof_def Let_def)
  moreover have "adjudicate H ed (instructions t) d \<lparr>osp_pre_state = states t ! k, osp_witness = w\<rparr>
      = (Ok \<lparr>vd_winner = Challenger, vd_reason = DefenderClaimRefuted\<rparr> :: ('f, _) result)"
    using d k w(3) by (simp add: adjudicate_def)
  ultimately show ?thesis by blast
qed

text \<open>Where a dispute played from an executed trace stands once it is down to one step.\<close>

lemma game_one_step:
  assumes exec: "execute_batch H ed pcs tr ctx txs = Ok (tr', t)" and len: "length (instructions t) < 2 ^ 61"
    and opn: "0 < unat (op_trace_length opn)" "unat (op_trace_length opn) \<le> length (instructions t)"
      "op_lo_commitment opn = commitment H (states t ! 0)"
      "(op_hi_commitment opn = commitment H (states t ! unat (op_trace_length opn))) = (role = Defender)"
    and play: "game H \<lparr>tp_trace = t, tp_pre_state = tr\<rparr> role opn opened d" "d_stage d = OneStep"
  shows "disputed_step d = Some (d_lo d)" "unat (d_lo d) < length (instructions t)"
    "d_lo_commitment d = commitment H (states t ! unat (d_lo d))"
    "(d_hi_commitment d = commitment H (states t ! Suc (unat (d_lo d)))) = (role = Defender)"
proof -
  note at = honest_at_trace [OF trace_shape(1) [OF exec]]
  have ne: "states t \<noteq> []" using trace_shape(1) [OF exec] by auto
  have op: "op_lo_commitment opn = honest_at H t 0"
    "(op_hi_commitment opn = honest_at H t (unat (op_trace_length opn))) = (role = Defender)"
    using opn by (simp_all add: at)
  from game_inv [OF play(1)] ne opn(1,2) len op
  have inv: "interval_inv (unat (op_trace_length opn)) d" "honest_inv H t role d" by simp_all
  note o = one_step_interval [OF inv(1) play(2)]
  show "disputed_step d = Some (d_lo d)" by (rule o)
  show "unat (d_lo d) < length (instructions t)" using o opn(2) by linarith
  then show "d_lo_commitment d = commitment H (states t ! unat (d_lo d))"
    "(d_hi_commitment d = commitment H (states t ! Suc (unat (d_lo d)))) = (role = Defender)"
    using inv(2) o(2) by (auto simp: honest_inv_def at split: party.splits)
qed

text \<open>
  Where a challenging player stands once a dispute is down to one step, over a claim of any length:
  it agrees with the start of the step and disagrees with its end, where the player's own trace
  stays at its last state beyond its end.
\<close>

lemma challenge_one_step:
  assumes exec: "execute_batch H ed pcs tr ctx txs = Ok (tr', t)"
    and opn: "0 < unat (op_trace_length opn)" "unat (op_trace_length opn) < 2 ^ 61"
      "op_lo_commitment opn = commitment H (states t ! 0)" "op_hi_commitment opn \<noteq> honest_at H t (unat (op_trace_length opn))"
    and play: "game H \<lparr>tp_trace = t, tp_pre_state = tr\<rparr> Challenger opn opened d" "d_stage d = OneStep"
  shows "disputed_step d = Some (d_lo d)" "unat (d_hi d) = Suc (unat (d_lo d))" "unat (d_hi d) \<le> unat (op_trace_length opn)"
    "d_lo_commitment d = honest_at H t (unat (d_lo d))" "d_hi_commitment d \<noteq> honest_at H t (Suc (unat (d_lo d)))"
proof -
  have ne: "states t \<noteq> []" using trace_shape(1) [OF exec] by auto
  have lo: "op_lo_commitment opn = honest_at H t 0" using opn(3) by (simp add: honest_at_trace [OF trace_shape(1) [OF exec]])
  from game_inv [OF play(1)] ne opn(1,2,4) lo
  have inv: "interval_inv (unat (op_trace_length opn)) d" "honest_inv H t Challenger d" by simp_all
  note o = one_step_interval [OF inv(1) play(2)]
  from o show "disputed_step d = Some (d_lo d)" "unat (d_hi d) = Suc (unat (d_lo d))" "unat (d_hi d) \<le> unat (op_trace_length opn)"
    by blast+
  show "d_lo_commitment d = honest_at H t (unat (d_lo d))" "d_hi_commitment d \<noteq> honest_at H t (Suc (unat (d_lo d)))"
    using inv(2) o(2) by (auto simp: honest_inv_def)
qed

section \<open>The moves a player has\<close>

lemma play_accepted:
  assumes ne: "states (tp_trace pl) \<noteq> []" and len: "0 < unat (op_trace_length opn)" "unat (op_trace_length opn) < 2 ^ 61"
    and lo: "op_lo_commitment opn = honest_at H (tp_trace pl) 0"
    and hi: "(op_hi_commitment opn = honest_at H (tp_trace pl) (unat (op_trace_length opn))) = (role = Defender)"
    and g: "game H pl role opn opened d" and st: "d_stage d = Bisecting offer" and time: "in_time role now d"
  shows "snd (play H pl d role now) = Ok ()"
proof -
  from game_inv [OF g ne len lo hi] have int: "interval_inv (unat (op_trace_length opn)) d"
    and inv: "honest_inv H (tp_trace pl) role d" by auto
  obtain bs where b: "dispute_boundaries d = (Ok bs :: (move_error, _) result)" "dispute_boundaries d = (Ok bs :: (play_error, _) result)"
    by (rule boundaries_exist [OF int len(2)])
  note n = boundary_values(1) [OF int len(2) b(1)]
  have "\<not> is_resolved (d_stage d)" using st by simp
  from begin_in_time [OF this time] obtain d1 where acc: "begin_move d now role = (d1, Ok ())" "d_stage d1 = Bisecting offer"
    "dispute_boundaries d1 = (Ok bs :: (move_error, _) result)"
    using st b(1) by (auto simp: set_mover_clock_def dispute_boundaries_def split: party.splits)
  show ?thesis
  proof (cases role)
    case Defender
    with acc n player_dissect_honest [OF ne b(2)] show ?thesis
      by (simp add: play_def dissect_def Let_def)
  next
    case Challenger
    then obtain offered where o: "offer = Some offered" "length bs = Suc (0 + length (offered @ [d_hi_commitment d]))"
      using int st n time by (auto simp: interval_inv_def in_time_def split: option.splits)
    have "bs ! Suc (length offered) = d_hi d" 
      using o(2) by (subst boundary_list [OF int len(2) b(1)]) (simp add: nth_append)
    then have "(offered @ [d_hi_commitment d]) ! length offered \<noteq> honest_at H (tp_trace pl) (unat (bs ! Suc (0 + length offered)))"
      using inv Challenger by (simp add: honest_inv_def)
    with find_disagreement_first [OF ne o(2), of H, where 'e = play_error] b(2) obtain index where
      f: "first_disagreement H pl d offered = (Ok (Some index) :: (play_error, _) result)" "index \<le> length offered"
      by (fastforce simp: first_disagreement_def split: option.splits)
    with acc o st Challenger show ?thesis by (simp add: play_def select_def Let_def)
  qed
qed

text \<open>
  The positions from which a challenger that plays from its trace wins in finitely many moves,
  whatever the defender does: it has won; its own proof of the disputed step wins; it has a selection in
  time that leads to such a position; or it is the defender's turn, who loses by waiting past the deadline
  and whose every accepted division leads to such a position.
\<close>

inductive challenger_forces :: "hasher \<Rightarrow> ed25519 \<Rightarrow> trace_player \<Rightarrow> dispute \<Rightarrow> bool" for H ed pl where
  Won: "d_stage d = Resolved Challenger why \<Longrightarrow> challenger_forces H ed pl d"
| Proves: "d_stage d = OneStep \<Longrightarrow> player_one_step_proof H ed pl d = (Ok (Some p) :: (play_error, _) result) \<Longrightarrow>
    adjudicate H ed (instructions (tp_trace pl)) d p = (Ok v :: (play_error, _) result) \<Longrightarrow> vd_winner v = Challenger \<Longrightarrow>
    challenger_forces H ed pl d"
| Selects: "d_stage d = Bisecting (Some offered) \<Longrightarrow> in_time Challenger now d \<Longrightarrow> play H pl d Challenger now = (d', Ok ()) \<Longrightarrow>
    challenger_forces H ed pl d' \<Longrightarrow> challenger_forces H ed pl d"
| Waits: "d_stage d = Bisecting None \<Longrightarrow> d_turn d = Defender \<Longrightarrow>
    (\<And>now. d_deadline d < now \<Longrightarrow> snd (check_timeout d now) = Some Challenger) \<Longrightarrow>
    (\<And>now cs d'. dissect d now cs = (d', Ok ()) \<Longrightarrow> challenger_forces H ed pl d') \<Longrightarrow> challenger_forces H ed pl d"

text \<open>Whoever's turn it is has some time left for its move.\<close>

lemma game_deadline: "game H pl role opn opened d \<Longrightarrow> d_last_move_at d \<le> d_deadline d"
proof (induction rule: game.induct)
  case Open
  show ?case by (simp add: dispute_open_def Let_def enter_one_step_if_narrow_def saturating_add_ge)
next
  case (Own d now d' r)
  have refused: "d_last_move_at d' \<le> d_deadline d'" if "refused_move d d'" for d' using that Own.IH by (auto simp: refused_move_def)
  have d: "d_last_move_at d' \<le> d_deadline d'" if "dissect d now cs = (d', r')" "r' \<noteq> Panic" for cs d' r'
    using that by (cases rule: dissect_cases) (auto simp: refused pass_turn_def saturating_add_ge)
  have s: "d_last_move_at d' \<le> d_deadline d'" if "select d now k = (d', r')" "r' \<noteq> Panic" for k d' r'
    using that by (cases rule: select_cases)
      (auto simp: refused narrow_def enter_one_step_if_narrow_def pass_turn_def saturating_add_ge)
  from Own.hyps(2,3) d s Own.IH show ?case
    by (auto simp: play_def Let_def map_err_Panic_iff split: party.splits stage.splits option.splits result.splits prod.splits)
next
  case (TheirDissect d now cs d' r)
  from TheirDissect.hyps(3,4) show ?case
    by (cases rule: dissect_cases) (use TheirDissect.IH in \<open>auto simp: refused_move_def pass_turn_def saturating_add_ge\<close>)
next
  case (TheirSelect d now index d' r)
  from TheirSelect.hyps(3,4) show ?case
    by (cases rule: select_cases)
      (use TheirSelect.IH in \<open>auto simp: refused_move_def narrow_def enter_one_step_if_narrow_def pass_turn_def saturating_add_ge\<close>)
next
  case (Clock d now d' w)
  then show ?case using check_timeout_refused by (fastforce simp: refused_move_def)
qed

text \<open>A selection strictly narrows the interval and leaves the dispute open.\<close>

lemma own_selection_narrows:
  assumes ne: "states (tp_trace pl) \<noteq> []" and int: "interval_inv len d" "len < 2 ^ 61"
    and p: "play H pl d Challenger now = (d', Ok ())" and st: "d_stage d = Bisecting (Some offered)"
  shows "unat (d_hi d') - unat (d_lo d') < unat (d_hi d) - unat (d_lo d)" "d_stage d' = OneStep \<or> d_stage d' = Bisecting None"
proof -
  from ne int p result.distinct(3)
  have "unat (d_hi d') - unat (d_lo d') < unat (d_hi d) - unat (d_lo d) \<and> (d_stage d' = OneStep \<or> d_stage d' = Bisecting None)"
  proof (cases rule: play_cases)
    case unchanged
    from p st have "\<exists>index. select d now index = (d', Ok ())"
      by (auto simp: play_def Let_def map_err_Ok_iff split: result.splits option.splits prod.splits)
    then obtain index where "select d now index = (d', Ok ())" ..
    from this result.distinct(3) unchanged show ?thesis
      by (cases rule: select_cases) (use st in \<open>auto simp: narrow_def pass_turn_def enter_one_step_if_narrow_def split: if_splits\<close>)
  next
    case (select off index r')
    then have s: "select d now index = (d', Ok ())" by (cases r') auto
    from s result.distinct(3) show ?thesis
    proof (cases rule: select_cases)
      case (selected d1 o1 bs)
      note f = accepted_move_fields [OF selected(2)]
      note inv1 = refused_interval_inv [OF int(1) accepted_refused [OF selected(2)]]
      have "unat (d_hi d') - unat (d_lo d') \<le> (unat (d_hi d) - unat (d_lo d) + 7) div 8"
        using narrow_interval(2) [OF inv1 int(2) selected(4,5) f(4)] unfolding selected(7) f by simp
      moreover have "2 \<le> unat (d_hi d) - unat (d_lo d)" using int(1) st by (auto simp: interval_inv_def)
      ultimately have "unat (d_hi d') - unat (d_lo d') < unat (d_hi d) - unat (d_lo d)" by linarith
      moreover have "d_stage d' = OneStep \<or> d_stage d' = Bisecting None"
        unfolding selected(7) by (simp add: narrow_def enter_one_step_if_narrow_def pass_turn_def)
      ultimately show ?thesis by blast
    qed simp_all
  qed simp_all
  then show "unat (d_hi d') - unat (d_lo d') < unat (d_hi d) - unat (d_lo d)" "d_stage d' = OneStep \<or> d_stage d' = Bisecting None"
    by blast+
qed

lemma false_claim_forced:
  assumes run: "trie_run H trie_new ops = Some tr" and exec: "execute_batch H ed pcs tr ctx txs = Ok (tr', t)"
    and len: "length (instructions t) < 2 ^ 61"
    and opn: "0 < unat (op_trace_length opn)" "unat (op_trace_length opn) \<le> length (instructions t)"
      "op_lo_commitment opn = commitment H (states t ! 0)"
      "op_hi_commitment opn \<noteq> commitment H (states t ! unat (op_trace_length opn))"
    and cf: "collision_free H (history_nodes H SE (ops @ exec_ops H ed (trie_get tr) (instructions t)))"
  shows "game H \<lparr>tp_trace = t, tp_pre_state = tr\<rparr> Challenger opn opened d \<Longrightarrow> (\<forall>why. d_stage d \<noteq> Resolved Defender why) \<Longrightarrow>
    challenger_forces H ed \<lparr>tp_trace = t, tp_pre_state = tr\<rparr> d"
proof (induction "2 * (unat (d_hi d) - unat (d_lo d)) + (if d_stage d = Bisecting None then 1 else 0 :: nat)" arbitrary: d rule: less_induct)
  case less
  let ?pl = "\<lparr>tp_trace = t, tp_pre_state = tr\<rparr>"
  have ne: "states (tp_trace ?pl) \<noteq> []" using trace_shape(1) [OF exec] by auto
  have op: "op_lo_commitment opn = honest_at H (tp_trace ?pl) 0" "op_hi_commitment opn \<noteq> honest_at H t (unat (op_trace_length opn))"
    using opn by (simp_all add: honest_at_trace [OF trace_shape(1) [OF exec]])
  then have hi: "(op_hi_commitment opn = honest_at H (tp_trace ?pl) (unat (op_trace_length opn))) = (Challenger = Defender)" by simp
  have l: "unat (op_trace_length opn) < 2 ^ 61" using opn(2) len by linarith
  have int: "interval_inv (unat (op_trace_length opn)) d" using game_inv [OF less.prems(1) ne opn(1) l op(1) hi] by blast
  show ?case
  proof (cases "d_stage d")
    case (Bisecting offer)
    show ?thesis
    proof (cases offer)
      case None
      have turn: "d_turn d = Defender" using int Bisecting None by (simp add: interval_inv_def)
      show ?thesis
      proof (rule challenger_forces.Waits)
        show "snd (check_timeout d now) = Some Challenger" if "d_deadline d < now" for now
          using that turn Bisecting by (simp add: check_timeout_def not_le)
        fix now cs d' assume d: "dissect d now cs = (d', Ok ())"
        have g: "game H ?pl Challenger opn opened d'" by (rule game.TheirDissect [OF less.prems(1) refl d]) simp
        from d result.distinct(3) have "d_lo d' = d_lo d \<and> d_hi d' = d_hi d \<and> d_stage d' = Bisecting (Some cs)"
        proof (cases rule: dissect_cases)
          case (dissected d1 off bs)
          then show ?thesis using accepted_move_fields [OF dissected(2)] by (simp add: pass_turn_def)
        qed simp_all
        then show "challenger_forces H ed ?pl d'" using g Bisecting None by (intro less.hyps) auto
      qed (use Bisecting None turn in simp_all)
    next
      case (Some offered)
      have time: "in_time Challenger (d_last_move_at d) d"
        using int Bisecting Some game_deadline [OF less.prems(1)] by (simp add: in_time_def interval_inv_def)
      obtain d' where p: "play H ?pl d Challenger (d_last_move_at d) = (d', Ok ())"
        using play_accepted [OF ne opn(1) l op(1) hi less.prems(1) Bisecting time] by (metis prod.collapse)
      have g: "game H ?pl Challenger opn opened d'" by (rule game.Own [OF less.prems(1) p]) simp
      have n: "unat (d_hi d') - unat (d_lo d') < unat (d_hi d) - unat (d_lo d)" "d_stage d' = OneStep \<or> d_stage d' = Bisecting None"
        using own_selection_narrows [OF ne int l p] Bisecting Some by blast+
      have "challenger_forces H ed ?pl d'" by (rule less.hyps [OF _ g]) (use n Bisecting Some in \<open>auto split: if_splits\<close>)
      with challenger_forces.Selects [OF _ time p] Bisecting Some show ?thesis by simp
    qed
  next
    case OneStep
    note o = challenge_one_step [OF exec opn(1) l opn(3) op(2) less.prems(1) OneStep]
    have k: "unat (d_lo d) < length (instructions t)" using o(2,3) opn(2) by linarith
    have "d_lo_commitment d = commitment H (states t ! unat (d_lo d))" "d_hi_commitment d \<noteq> commitment H (states t ! Suc (unat (d_lo d)))"
      using o(4,5) k by (simp_all add: honest_at_trace [OF trace_shape(1) [OF exec]])
    from challenge_holds [OF run exec len k o(1) refl this cf, where 'e = play_error and 'f = play_error] obtain p where
      p: "player_one_step_proof H ed ?pl d = (Ok (Some p) :: (play_error, _) result)"
      "adjudicate H ed (instructions t) d p = (Ok \<lparr>vd_winner = Challenger, vd_reason = DefenderClaimRefuted\<rparr> :: (play_error, _) result)"
      by blast
    then show ?thesis
      using challenger_forces.Proves [OF OneStep p(1), of "\<lparr>vd_winner = Challenger, vd_reason = DefenderClaimRefuted\<rparr>"] by simp
  next
    case (Resolved w why)
    with less.prems(2) have "w = Challenger" by (cases w) auto
    with Resolved show ?thesis by (auto intro: challenger_forces.Won)
  qed
qed

section \<open>A dispute over the demonstration batch\<close>

text \<open>The batch has six steps, so one division and one selection reach a single step.\<close>

definition demo_opening :: "hash256 \<Rightarrow> dispute_opening" where
  "demo_opening claimed = \<lparr>op_assertion = 1, op_defender = 1, op_challenger = 2, op_trace_length = 6,
     op_lo_commitment = 0, op_hi_commitment = claimed, op_challenge_window = 86400\<rparr>"

definition demo_offered :: "hash256 \<Rightarrow> hash256 list \<Rightarrow> dispute" where
  "demo_offered claimed cs = fst (dissect (dispute_open (demo_opening claimed) 0) 0 cs)"

definition demo_narrowed :: "hash256 \<Rightarrow> hash256 list \<Rightarrow> dispute" where
  "demo_narrowed claimed cs = fst (select (demo_offered claimed cs) 0 0)"

lemma demo_boundaries: "boundaries 0 6 8 = Ok [0, 1, 2, 3, 4, 5, 6]"
  by (simp add: boundaries_def checked_sub_def checked_mul_def checked_add_def Let_def upt_rec)

lemma demo_open:
  "dispute_open (demo_opening claimed) 0 = \<lparr>d_assertion = 1, d_defender = 1, d_challenger = 2, d_lo = 0, d_hi = 6,
     d_lo_commitment = 0, d_hi_commitment = claimed, d_stage = Bisecting None, d_turn = Defender, d_deadline = 21600,
     d_clock_budget = 21600, d_defender_clock = 21600, d_challenger_clock = 21600, d_last_move_at = 0, d_arity = 8\<rparr>"
  by (simp add: dispute_open_def demo_opening_def clock_budget_def CLOCK_BUDGET_DIVISOR_def Let_def
      enter_one_step_if_narrow_def saturating_sub_def saturating_add_def checked_add_def MOVE_TIMEOUT_def DEFAULT_ARITY_def)

lemma demo_offered_eval:
  "dissect (dispute_open (demo_opening claimed) 0) 0 [a, b, c, d, e] = (demo_offered claimed [a, b, c, d, e], Ok ())"
  "demo_offered claimed [a, b, c, d, e] = (dispute_open (demo_opening claimed) 0)\<lparr>d_stage := Bisecting (Some [a, b, c, d, e]),
     d_turn := Challenger\<rparr>"
  unfolding demo_offered_def demo_open
  by (simp_all add: dissect_def begin_move_def mover_clock_def set_mover_clock_def dispute_boundaries_def
      demo_boundaries pass_turn_def saturating_add_def checked_add_def MOVE_TIMEOUT_def)

lemma demo_narrowed_eval:
  "select (demo_offered claimed [a, b, c, d, e]) 0 0 = (demo_narrowed claimed [a, b, c, d, e], Ok ())"
  "d_stage (demo_narrowed claimed [a, b, c, d, e]) = OneStep" "d_lo (demo_narrowed claimed [a, b, c, d, e]) = 0"
  unfolding demo_narrowed_def demo_offered_eval(2) demo_open
  by (simp_all add: select_def begin_move_def mover_clock_def set_mover_clock_def dispute_boundaries_def
      demo_boundaries pass_turn_def saturating_add_def saturating_sub_def checked_sub_def checked_add_def MOVE_TIMEOUT_def
      narrow_def enter_one_step_if_narrow_def)

lemma demo_trace:
  obtains tr tr' t where "trie_run demo_hash trie_new demo_ops = Some tr"
    "execute_batch demo_hash sample_ed [] tr (without_keyless 60) [demo_tx] = Ok (tr', t)"
    "instructions t = demo_instrs" "trie_get tr = demo_state" "states t ! 0 = machine_start 13"
    "length (states t) = 7" "\<And>k. k \<le> 6 \<Longrightarrow> pc (states t ! k) = of_nat k" "\<And>k. k \<le> 6 \<Longrightarrow> honest_at demo_hash t k = of_nat k"
    "\<And>k. k \<le> 6 \<Longrightarrow> state_root (states t ! k) \<noteq> 99"
proof -
  obtain tr tr' t where b: "trie_run demo_hash trie_new demo_ops = Some tr"
    "execute_batch demo_hash sample_ed [] tr (without_keyless 60) [demo_tx] = Ok (tr', t)"
    "instructions t = demo_instrs" "trie_get tr = demo_state" "states t ! 0 = machine_start 13"
    by (rule demo_batch)
  have l: "length (instructions t) = 6" by (simp add: b demo_instrs_def)
  have pc: "pc (states t ! k) = of_nat k" if "k \<le> 6" for k using trace_pc [OF b(2)] that l by simp
  have s: "length (states t) = 7" using trace_shape(1) [OF b(2)] l by simp
  have r: "state_root (states t ! k) \<noteq> 99" if "k \<le> 6" for k
    using demo_roots [OF b(1,4,2,3), of k] that l by simp
  have "honest_at demo_hash t k = of_nat k" if "k \<le> 6" for k
  proof -
    have "ucast (of_nat k :: u64) = (of_nat k :: hash256)" using that by (simp add: unsigned_of_nat take_bit_nat_eq_self)
    then show ?thesis using pc r that s by (simp add: honest_at_def)
  qed
  with b s pc r that show thesis by blast
qed

lemma demo_challenged:
  assumes ne: "states t \<noteq> []" and at: "honest_at demo_hash t (Suc 0) = 1"
  shows "game demo_hash \<lparr>tp_trace = t, tp_pre_state = tr\<rparr> Challenger (demo_opening claimed) 0 (demo_narrowed claimed [2, 3, 4, 5, 6])"
proof -
  let ?pl = "\<lparr>tp_trace = t, tp_pre_state = tr\<rparr>" and ?o = "demo_offered claimed [2, 3, 4, 5, 6]"
  have "game demo_hash ?pl Challenger (demo_opening claimed) 0 ?o"
    by (rule game.TheirDissect [OF game.Open refl demo_offered_eval(1)]) simp
  moreover have "play demo_hash ?pl ?o Challenger 0 = (demo_narrowed claimed [2, 3, 4, 5, 6], Ok ())"
    using commitment_at_honest [of ?pl demo_hash 1, where 'a = play_error] demo_narrowed_eval(1) [of claimed 2 3 4 5 6]
    by (simp add: play_def demo_offered_eval(2) demo_open first_disagreement_def dispute_boundaries_def demo_boundaries assms)
  ultimately show ?thesis by (rule game.Own) simp
qed

section \<open>Properties\<close>

text \<open>
  C2.  An honest defender cannot lose an adjudication.  A party that executed the batch, opened
  with the commitments of its own trace and answered every move from it, wins whatever the
  challenger selected on the way and whatever proof it submits in the end: a false pre-state, a
  proof that does not verify, a step that does not execute all fail against it, and adjudication
  never aborts.
\<close>

theorem honest_defender_wins:
  assumes run: "trie_run H trie_new ops = Some tr" and exec: "execute_batch H ed pcs tr ctx txs = Ok (tr', t)"
    and len: "0 < length (instructions t)" "length (instructions t) < 2 ^ 61"
    and opn: "op_trace_length opn = of_nat (length (instructions t))"
      "op_lo_commitment opn = commitment H (states t ! 0)" "op_hi_commitment opn = commitment H (last (states t))"
    and play: "game H \<lparr>tp_trace = t, tp_pre_state = tr\<rparr> Defender opn opened d" "d_stage d = OneStep"
    and inj: "\<forall>s \<in> set (states t). commitment H (osp_pre_state p) = commitment H s \<longrightarrow> osp_pre_state p = s"
    and cf: "collision_free H (history_nodes H SE (ops @ exec_ops H ed (trie_get tr) (instructions t))
        \<union> proof_nodes H (sw_slot (osp_witness p)) (sw_proof (osp_witness p)))"
    and vals: "\<forall>m v v'. map_exec H ed (trie_get tr) (take (unat (d_lo d)) (instructions t)) = Ok m \<longrightarrow>
        m (sw_slot (osp_witness p)) = Some v \<longrightarrow> sw_value (osp_witness p) = Some v' \<longrightarrow> H v = H v' \<longrightarrow> v = v'"
  shows "\<exists>v. adjudicate H ed (instructions t) d p = (Ok v :: ('e, _) result) \<and> vd_winner v = Defender"
proof -
  have l: "unat (op_trace_length opn) = length (instructions t)" using opn(1) len by (simp add: unat_of_nat_small)
  have "last (states t) = states t ! length (instructions t)"
    using trace_shape(1) [OF exec] by (subst last_conv_nth) auto
  with opn l len game_one_step [OF exec len(2) _ _ opn(2) _ play]
  have o: "disputed_step d = Some (d_lo d)" "unat (d_lo d) < length (instructions t)"
    "d_lo_commitment d = commitment H (states t ! unat (d_lo d))"
    "d_hi_commitment d = commitment H (states t ! Suc (unat (d_lo d)))"
    by simp_all
  obtain m where m: "map_exec H ed (trie_get tr) (take (unat (d_lo d)) (instructions t)) = Ok m"
    by (rule trace_step [OF exec o(2)])
  have "states t ! unat (d_lo d) \<in> set (states t)" using o(2) trace_shape(1) [OF exec] by simp
  with defence_holds [OF run exec len(2) o(2,1) refl o(3,4) _ cf m] inj vals m show ?thesis by blast
qed


theorem honest_defender_wins_witness:
  "\<exists>tr tr' t v. execute_batch demo_hash sample_ed [] tr (without_keyless 60) [demo_tx] = Ok (tr', t)
     \<and> game demo_hash \<lparr>tp_trace = t, tp_pre_state = tr\<rparr> Defender (demo_opening 6) 0 (demo_narrowed 6 [1, 2, 3, 4, 5])
     \<and> adjudicate demo_hash sample_ed demo_instrs (demo_narrowed 6 [1, 2, 3, 4, 5])
         \<lparr>osp_pre_state = machine_start 13, osp_witness = demo_witness\<rparr> = (Ok v :: (unit, _) result)
     \<and> vd_winner v = Defender"
proof -
  obtain tr tr' t where b: "trie_run demo_hash trie_new demo_ops = Some tr"
    "execute_batch demo_hash sample_ed [] tr (without_keyless 60) [demo_tx] = Ok (tr', t)"
    "instructions t = demo_instrs" "trie_get tr = demo_state" "states t ! 0 = machine_start 13"
    and l: "length (states t) = 7" and pc: "\<And>k. k \<le> 6 \<Longrightarrow> pc (states t ! k) = of_nat k"
    and at: "\<And>k. k \<le> 6 \<Longrightarrow> honest_at demo_hash t k = of_nat k"
    and rt: "\<And>k. k \<le> 6 \<Longrightarrow> state_root (states t ! k) \<noteq> 99"
    by (rule demo_trace) blast
  let ?pl = "\<lparr>tp_trace = t, tp_pre_state = tr\<rparr>" and ?d = "demo_narrowed 6 [1, 2, 3, 4, 5]"
    and ?p = "\<lparr>osp_pre_state = machine_start 13, osp_witness = demo_witness\<rparr>"
  have i: "length demo_instrs = 6" by (simp add: demo_instrs_def)
  have ne: "states (tp_trace ?pl) \<noteq> []" using l by auto
  have "dispute_boundaries (dispute_open (demo_opening 6) 0) = (Ok [0, 1, 2, 3, 4, 5, 6] :: (play_error, _) result)"
    by (simp add: dispute_boundaries_def demo_open demo_boundaries)
  from player_dissect_honest [OF ne this, of demo_hash]
  have "play demo_hash ?pl (dispute_open (demo_opening 6) 0) Defender 0 = (demo_offered 6 [1, 2, 3, 4, 5], Ok ())"
    by (simp add: play_def at demo_offered_eval(1))
  from game.TheirSelect [OF game.Own [OF game.Open this] refl demo_narrowed_eval(1)]
  have g: "game demo_hash ?pl Defender (demo_opening 6) 0 ?d" by simp
  have last: "last (states t) = states t ! 6" using l ne by (simp add: last_conv_nth)
  have "\<forall>s \<in> set (states t). pc s = 0 \<longrightarrow> s = machine_start 13"
  proof (intro ballI impI)
    fix s assume "s \<in> set (states t)" "pc s = 0"
    then obtain k where k: "k < 7" "s = states t ! k" by (metis in_set_conv_nth l)
    with \<open>pc s = 0\<close> pc [of k] have "(of_nat k :: u64) = 0" by simp
    then have "unat (of_nat k :: u64) = 0" by simp
    then have "k = 0" using k(1) by (simp add: unat_of_nat_small)
    with k b(5) show "s = machine_start 13" by simp
  qed
  moreover have "(ucast (x :: u64) :: hash256) = 0 \<longleftrightarrow> x = 0" for x
    using unat_less_pow [of x] by (simp add: word_unat_eq_iff unsigned_ucast_eq take_bit_nat_eq_self)
  ultimately have inj: "\<forall>s \<in> set (states t). commitment demo_hash (osp_pre_state ?p) = commitment demo_hash s \<longrightarrow> osp_pre_state ?p = s"
    by (auto simp: machine_start_def)
  have "\<exists>v. adjudicate demo_hash sample_ed (instructions t) ?d ?p = (Ok v :: (unit, _) result) \<and> vd_winner v = Defender"
    using demo_witness_nodes
    by (intro honest_defender_wins [OF b(1,2) _ _ _ _ _ g demo_narrowed_eval(2) inj])
      (auto simp: i b demo_opening_def last pc rt demo_narrowed_eval machine_start_def demo_state_def demo_witness_def)
  with b g show ?thesis by auto
qed

text \<open>
  C3.  An honest challenger wins a dispute about a false claim.  Let the claim be about at least one and at
  most as many steps as the challenger's own trace has, and not be what executing the batch gives at
  that point of the trace, which has fewer than \<open>2 ^ 61\<close> steps and no two of whose trie nodes collide.  Then at every point of the dispute that is not already lost by the challenger's
  own lateness, the challenger can force the win in finitely many moves, whatever the defender offers: its selections
  are accepted and narrow the interval, a defender that stops is timed out, and at the step it comes down to
  the challenger's own proof wins the adjudication.
\<close>

theorem honest_challenger_wins:
  assumes run: "trie_run H trie_new ops = Some tr" and exec: "execute_batch H ed pcs tr ctx txs = Ok (tr', t)"
    and len: "length (instructions t) < 2 ^ 61"
    and opn: "0 < unat (op_trace_length opn)" "unat (op_trace_length opn) \<le> length (instructions t)"
      "op_lo_commitment opn = commitment H (states t ! 0)"
      "op_hi_commitment opn \<noteq> commitment H (states t ! unat (op_trace_length opn))"
    and play: "game H \<lparr>tp_trace = t, tp_pre_state = tr\<rparr> Challenger opn opened d" "\<forall>why. d_stage d \<noteq> Resolved Defender why"
    and cf: "collision_free H (history_nodes H SE (ops @ exec_ops H ed (trie_get tr) (instructions t)))"
  shows "challenger_forces H ed \<lparr>tp_trace = t, tp_pre_state = tr\<rparr> d"
  by (rule false_claim_forced [OF run exec len opn cf play])

theorem honest_challenger_wins_witness:
  "\<exists>tr tr' t. execute_batch demo_hash sample_ed [] tr (without_keyless 60) [demo_tx] = Ok (tr', t)
     \<and> challenger_forces demo_hash sample_ed \<lparr>tp_trace = t, tp_pre_state = tr\<rparr> (dispute_open (demo_opening 7) 0)
     \<and> challenger_forces demo_hash sample_ed \<lparr>tp_trace = t, tp_pre_state = tr\<rparr> (demo_narrowed 7 [2, 3, 4, 5, 6])"
proof -
  obtain tr tr' t where b: "trie_run demo_hash trie_new demo_ops = Some tr"
    "execute_batch demo_hash sample_ed [] tr (without_keyless 60) [demo_tx] = Ok (tr', t)"
    "instructions t = demo_instrs" "trie_get tr = demo_state" "states t ! 0 = machine_start 13"
    and l: "length (states t) = 7" and pc: "\<And>k. k \<le> 6 \<Longrightarrow> pc (states t ! k) = of_nat k"
    and at: "\<And>k. k \<le> 6 \<Longrightarrow> honest_at demo_hash t k = of_nat k"
    and rt: "\<And>k. k \<le> 6 \<Longrightarrow> state_root (states t ! k) \<noteq> 99"
    by (rule demo_trace) blast
  let ?pl = "\<lparr>tp_trace = t, tp_pre_state = tr\<rparr>"
  have i: "length demo_instrs = 6" by (simp add: demo_instrs_def)
  have ne: "states t \<noteq> []" using l by auto
  have f: "challenger_forces demo_hash sample_ed ?pl d"
    if "game demo_hash ?pl Challenger (demo_opening 7) 0 d" "\<forall>why. d_stage d \<noteq> Resolved Defender why" for d
    using demo_collision_free
    by (intro honest_challenger_wins [OF b(1,2) _ _ _ _ _ that]) (auto simp: i b demo_opening_def pc machine_start_def)
  have "challenger_forces demo_hash sample_ed ?pl (dispute_open (demo_opening 7) 0)"
    by (rule f [OF game.Open]) (simp add: demo_open)
  moreover have "challenger_forces demo_hash sample_ed ?pl (demo_narrowed 7 [2, 3, 4, 5, 6])"
    by (rule f [OF demo_challenged [OF ne at [of 1, simplified], of tr 7]]) (simp add: demo_narrowed_eval)
  ultimately show ?thesis using b by blast
qed

text \<open>
  C25.  An honest player is never stuck in a dispute over at least one and fewer than \<open>2 ^ 61\<close> steps whose
  opening it stands by: a defender whose own commitments were claimed at both ends, or a challenger who agrees
  with the start and genuinely disagrees with the end.  Whenever it is its turn to bisect, in time and within
  its clock, the move it computes from its trace is accepted; in particular such a challenger
  always finds a division it disagrees with.
\<close>

theorem honest_player_never_stuck:
  assumes ne: "states (tp_trace pl) \<noteq> []" and len: "0 < unat (op_trace_length opn)" "unat (op_trace_length opn) < 2 ^ 61"
    and lo: "op_lo_commitment opn = honest_at H (tp_trace pl) 0"
    and hi: "(op_hi_commitment opn = honest_at H (tp_trace pl) (unat (op_trace_length opn))) = (role = Defender)"
    and g: "game H pl role opn opened d" and st: "d_stage d = Bisecting offer" "d_turn d = role"
    and time: "d_last_move_at d \<le> now" "now \<le> d_deadline d" "now - d_last_move_at d \<le> mover_clock role d"
  shows "snd (play H pl d role now) = Ok ()"
  by (rule play_accepted [OF ne len lo hi g st(1)]) (use st(2) time in \<open>simp add: in_time_def\<close>)

theorem honest_player_never_stuck_witness:
  "\<exists>tr tr' t. execute_batch demo_hash sample_ed [] tr (without_keyless 60) [demo_tx] = Ok (tr', t)
     \<and> snd (play demo_hash \<lparr>tp_trace = t, tp_pre_state = tr\<rparr> (demo_offered 7 [2, 3, 4, 5, 6]) Challenger 100) = Ok ()"
proof -
  obtain tr tr' t where b: "execute_batch demo_hash sample_ed [] tr (without_keyless 60) [demo_tx] = Ok (tr', t)"
    and l: "length (states t) = 7" and at: "\<And>k. k \<le> 6 \<Longrightarrow> honest_at demo_hash t k = of_nat k"
    by (rule demo_trace) blast
  let ?pl = "\<lparr>tp_trace = t, tp_pre_state = tr\<rparr>" and ?o = "demo_offered 7 [2, 3, 4, 5, 6]"
  have g: "game demo_hash ?pl Challenger (demo_opening 7) 0 ?o"
    by (rule game.TheirDissect [OF game.Open refl demo_offered_eval(1)]) simp
  have ne: "states t \<noteq> []" using l by auto
  have "snd (play demo_hash ?pl ?o Challenger 100) = Ok ()"
    by (rule honest_player_never_stuck [OF _ _ _ _ _ g, of "Some [2, 3, 4, 5, 6]"])
      (simp_all add: ne at demo_opening_def demo_offered_eval(2) demo_open [unfolded demo_opening_def] mover_clock_def)
  with b show ?thesis by blast
qed

end
