(* ===== verification/Verifier_Node.thy ===== *)
theory Verifier_Node
  imports Sequencer Verifier
begin

text \<open>
  Verifier mode (\<open>verifier_node.rs\<close>): a node that re-executes every published block on its own
  replica, compares the result with the assertion, and opens a dispute where they differ.  The
  theorems join the sequencer's side of the protocol to the fraud proof: an honest sequencer is
  followed without a dispute, and a dispute over a false root is won.
\<close>

section \<open>The node\<close>

text \<open>The reason of an unexecutable block is kept as the error, not as its text.\<close>

datatype outcome = Accepted | Divergent finding | Unexecutable batch_error

definition outcome_warrants_challenge :: "outcome \<Rightarrow> bool" where
  "outcome_warrants_challenge out \<longleftrightarrow> out \<noteq> Accepted"

record verifier_node =
  vn_state :: merkle_trie
  vn_identity :: party_id
  vn_last_trace :: "trace_player option"
  vn_keyless :: "keyless_config option"

definition verifier_node_new :: "merkle_trie \<Rightarrow> party_id \<Rightarrow> keyless_config option \<Rightarrow> verifier_node" where
  "verifier_node_new genesis_state identity keyless =
     \<lparr>vn_state = genesis_state, vn_identity = identity, vn_last_trace = None, vn_keyless = keyless\<rparr>"

definition follow ::
    "hasher \<Rightarrow> ed25519 \<Rightarrow> width_constants list \<Rightarrow> verifier_node \<Rightarrow> block \<Rightarrow> assertion \<Rightarrow> verifier_node \<times> ('e, outcome) result" where
  "follow H ed pcs vn b a =
     (case execute_batch H ed pcs (vn_state vn) (block_context b (vn_keyless vn)) (bk_transactions b) of
        Err e \<Rightarrow> (vn, Ok (Unexecutable e))
      | Panic \<Rightarrow> (vn, Panic)
      | Ok (nxt, trace) \<Rightarrow>
          (case check_assertion a trace of
             Err e \<Rightarrow> (vn, Err e)
           | Panic \<Rightarrow> (vn, Panic)
           | Ok finding \<Rightarrow>
               let vn1 = vn\<lparr>vn_last_trace := Some \<lparr>tp_trace = trace, tp_pre_state = vn_state vn\<rparr>\<rparr> in
               if warrants_challenge finding then (vn1, Ok (Divergent finding))
               else (vn1\<lparr>vn_state := nxt\<rparr>, Ok Accepted)))"

definition player :: "verifier_node \<Rightarrow> trace_player option" where
  "player vn = vn_last_trace vn"

definition dispute_over :: "hasher \<Rightarrow> verifier_node \<Rightarrow> assertion_id \<Rightarrow> assertion \<Rightarrow> u64 \<Rightarrow> hash256 \<Rightarrow> dispute_opening" where
  "dispute_over H vn i a challenge_window lo = \<lparr>op_assertion = i, op_defender = as_proposer a, op_challenger = vn_identity vn,
     op_trace_length = as_trace_length a, op_lo_commitment = lo,
     op_hi_commitment = commitment H \<lparr>state_root = as_post_state_root a, pc = as_trace_length a\<rparr>,
     op_challenge_window = challenge_window\<rparr>"

definition open_dispute ::
    "hasher \<Rightarrow> verifier_node \<Rightarrow> assertion_id \<Rightarrow> assertion \<Rightarrow> u64 \<Rightarrow> u64 \<Rightarrow> ('e, dispute option) result" where
  "open_dispute H vn i a challenge_window now =
     (case vn_last_trace vn of
        None \<Rightarrow> Ok None
      | Some pl \<Rightarrow> and_then (commitment_at H pl 0) (\<lambda>lo.
          Ok (Some (dispute_open (dispute_over H vn i a challenge_window lo) now))))"

section \<open>Following\<close>

text \<open>Following a run of blocks, each with its assertion; the outcomes in order.\<close>

fun follow_all ::
    "hasher \<Rightarrow> ed25519 \<Rightarrow> width_constants list \<Rightarrow> verifier_node \<Rightarrow> (block \<times> assertion) list \<Rightarrow> verifier_node \<times> ('e, outcome list) result" where
  "follow_all H ed pcs vn [] = (vn, Ok [])"
| "follow_all H ed pcs vn ((b, a) # rest) =
     (case follow H ed pcs vn b a of
        (vn1, Ok out) \<Rightarrow>
          (case follow_all H ed pcs vn1 rest of (vn2, r) \<Rightarrow> (vn2, and_then r (\<lambda>outs. Ok (out # outs))))
      | (vn1, Err e) \<Rightarrow> (vn1, Err e)
      | (vn1, Panic) \<Rightarrow> (vn1, Panic))"

lemma final_state_executed:
  assumes "execute_batch H ed pcs tr ctx txs = Ok (tr', t)"
  shows "final_state t = Ok (last (states t))" "state_root (last (states t)) = mt_root tr'" "trace_len t = length (instructions t)"
  using trace_shape [OF assms] by (auto simp: final_state_def trace_len_def)

lemma follow_executed:
  assumes e: "execute_batch H ed pcs (vn_state vn) (block_context b (vn_keyless vn)) (bk_transactions b) = Ok (nxt, t)"
  shows "follow H ed pcs vn b a =
    (let f = (if as_post_state_root a \<noteq> mt_root nxt then RootDiverges (as_post_state_root a) (mt_root nxt)
              else if as_trace_length a \<noteq> of_nat (length (instructions t))
                then TraceLengthDiverges (as_trace_length a) (of_nat (length (instructions t))) else Agrees);
         vn1 = vn\<lparr>vn_last_trace := Some \<lparr>tp_trace = t, tp_pre_state = vn_state vn\<rparr>\<rparr> in
     if f = Agrees then (vn1\<lparr>vn_state := nxt\<rparr>, Ok Accepted) else (vn1, Ok (Divergent f)))"
  by (simp add: follow_def e check_assertion_def warrants_challenge_def Let_def final_state_executed [OF e])

text \<open>An assertion that states what a block claims is accepted by whoever holds the state the block was executed on.\<close>

definition states_block :: "block \<Rightarrow> assertion \<Rightarrow> bool" where
  "states_block b a \<longleftrightarrow> as_post_state_root a = bk_post_state_root b \<and> as_trace_length a = of_nat (trace_len (bk_trace b))"

lemma follow_linked:
  "linked H ed pcs sq st head n bs ids st' head' \<Longrightarrow> list_all2 states_block bs as \<Longrightarrow>
   vn_state vn = st \<Longrightarrow> vn_keyless vn = sq_keyless sq \<Longrightarrow>
   \<exists>vn'. follow_all H ed pcs vn (zip bs as) = (vn', Ok (replicate (length bs) Accepted) :: ('e, _) result) \<and> vn_state vn' = st'"
proof (induction H ed pcs sq st head n bs ids st' head' arbitrary: as vn rule: linked.induct)
  case (2 H ed pcs sq st head n b bs j ids st' head')
  from "2.prems"(1) obtain nxt where
    b: "execute_batch H ed pcs st (block_context b (sq_keyless sq)) (bk_transactions b) = Ok (nxt, bk_trace b)"
    "bk_post_state_root b = mt_root nxt" "linked H ed pcs sq nxt j (Suc n) bs ids st' head'" by auto
  from "2.prems"(2) obtain a as' where as: "as = a # as'" "states_block b a" "list_all2 states_block bs as'"
    by (auto simp: list_all2_Cons1)
  let ?vn = "vn\<lparr>vn_last_trace := Some \<lparr>tp_trace = bk_trace b, tp_pre_state = st\<rparr>, vn_state := nxt\<rparr>"
  have "follow H ed pcs vn b a = (?vn, Ok Accepted :: ('e, _) result)"
    using follow_executed [of H ed pcs vn b nxt "bk_trace b" a, where 'a = 'e] b(1,2) "2.prems"(3,4) as(2)
    by (simp add: states_block_def trace_len_def)
  with "2.IH" [OF b(3) as(3), of ?vn] "2.prems"(4) show ?case by (auto simp: as(1))
qed simp_all

section \<open>Disputes\<close>

text \<open>What a node that has diverged holds, and the dispute it opens.\<close>

lemma divergent_dispute:
  assumes e: "execute_batch H ed pcs (vn_state vn) (block_context b (vn_keyless vn)) (bk_transactions b) = Ok (nxt, t)"
    and f: "follow H ed pcs vn b a = (vn', Ok (Divergent f) :: ('e, _) result)"
  shows "vn' = vn\<lparr>vn_last_trace := Some \<lparr>tp_trace = t, tp_pre_state = vn_state vn\<rparr>\<rparr>"
    "as_post_state_root a \<noteq> mt_root nxt \<or> as_trace_length a \<noteq> of_nat (length (instructions t))"
    "open_dispute H vn' i a window now
      = (Ok (Some (dispute_open (dispute_over H vn' i a window (commitment H (states t ! 0))) now)) :: ('f, _) result)"
proof -
  show vn': "vn' = vn\<lparr>vn_last_trace := Some \<lparr>tp_trace = t, tp_pre_state = vn_state vn\<rparr>\<rparr>"
    and "as_post_state_root a \<noteq> mt_root nxt \<or> as_trace_length a \<noteq> of_nat (length (instructions t))"
    using f follow_executed [OF e, of a, where 'a = 'e] by (auto simp: Let_def split: if_splits)
  have "states t \<noteq> []" using trace_shape(1) [OF e] by auto
  then show "open_dispute H vn' i a window now
      = (Ok (Some (dispute_open (dispute_over H vn' i a window (commitment H (states t ! 0))) now)) :: ('f, _) result)"
    by (simp add: open_dispute_def vn' commitment_at_def state_at_def)
qed

text \<open>
  A claim about a shorter trace that is true of its last step: the dispute opened over it agrees
  with the node's own trace at both ends, so the node finds nothing to select.
\<close>

lemma understated_length_unanswered:
  assumes e: "execute_batch H ed pcs (vn_state vn) (block_context b (vn_keyless vn)) (bk_transactions b) = Ok (nxt, t)"
    and l: "0 < unat (as_trace_length a)" "unat (as_trace_length a) < length (instructions t)" "length (instructions t) < 2 ^ 61"
    and root: "as_post_state_root a = state_root (states t ! unat (as_trace_length a))"
    and f: "follow H ed pcs vn b a = (vn', Ok (Divergent f) :: ('e, _) result)"
    and d: "game H \<lparr>tp_trace = t, tp_pre_state = vn_state vn\<rparr> Defender
        (dispute_over H vn' i a window (commitment H (states t ! 0))) now d" "d_stage d = OneStep"
  shows "d_hi_commitment d = commitment H (states t ! Suc (unat (d_lo d)))"
proof -
  have "states t ! unat (as_trace_length a) = \<lparr>state_root = as_post_state_root a, pc = as_trace_length a\<rparr>"
    using trace_pc [OF e, of "unat (as_trace_length a)"] l root by (simp add: machine_state.equality)
  with game_one_step(4) [OF e l(3) _ _ _ _ d] l show ?thesis by (simp add: dispute_over_def)
qed

section \<open>Properties\<close>

text \<open>
  C18.  An honest sequencer is never disputed.  A verifier that starts from the same genesis state,
  with the same keyless parameters, and follows the blocks with the assertions the chain carries
  for them accepts every one and ends in exactly the sequencer's state.
\<close>

theorem honest_sequencer_accepted:
  assumes "sequencer_reach H ed pcs genesis window min_bond keyless sq"
  shows "\<exists>vn'. follow_all H ed pcs (verifier_node_new genesis identity keyless)
      (zip (sq_blocks sq) (map (\<lambda>i. cr_assertion (the (chain_get (sq_chain sq) i))) (sq_assertions sq)))
    = (vn', Ok (replicate (length (sq_blocks sq)) Accepted) :: ('e, _) result) \<and> vn_state vn' = sq_state sq"
proof -
  note inv = sequencer_reach_inv [OF assms, unfolded seq_inv_def]
  then have l: "linked H ed pcs sq genesis (assertion_id H (genesis_assertion (mt_root genesis))) 0 (sq_blocks sq) (sq_assertions sq)
    (sq_state sq) (sq_head sq)" and cov: "list_all2 (covered H sq (sq_chain sq)) (sq_blocks sq) (sq_assertions sq)" by blast+
  have "list_all2 states_block (sq_blocks sq) (map (\<lambda>i. cr_assertion (the (chain_get (sq_chain sq) i))) (sq_assertions sq))"
    unfolding list_all2_map2 using cov
    by (rule list_all2_mono) (auto simp: covered_def states_block_def covering_assertion_def)
  from follow_linked [OF l this, of "verifier_node_new genesis identity keyless", where 'e = 'e] inv
  show ?thesis by (simp add: verifier_node_new_def)
qed

theorem honest_sequencer_accepted_witness:
  "\<exists>tr (sq :: sequencer) b vn'. sq_blocks sq = [b] \<and> bk_transactions b = [demo_tx]
     \<and> follow_all demo_hash sample_ed [] (verifier_node_new tr 9 None) [(b, cr_assertion (the (chain_get (sq_chain sq) 8)))]
       = (vn', Ok [Accepted] :: (unit, _) result) \<and> vn_state vn' = sq_state sq"
proof -
  obtain tr sq b where r: "sequencer_reach demo_hash sample_ed [] tr 86400 7 None sq"
    and sq: "sq_blocks sq = [b]" "sq_assertions sq = [8]" "bk_transactions b = [demo_tx]"
    by (rule demo_finalized)
  from honest_sequencer_accepted [OF r, of 9, where 'e = unit] sq obtain vn' where
    "follow_all demo_hash sample_ed [] (verifier_node_new tr 9 None) [(b, cr_assertion (the (chain_get (sq_chain sq) 8)))]
       = (vn', Ok [Accepted] :: (unit, _) result)" "vn_state vn' = sq_state sq" by (auto simp del: follow_all.simps)
  with sq show ?thesis by blast
qed

text \<open>
  C1.  A false root is caught and disputed, and the dispute is won where the code can win it.  Take an assertion
  of a root that executing the published block does not reach, about any claimed length from one to
  \<open>2 ^ 61 - 1\<close> at which the trace of the block does not have that root either (a claim of fewer steps with
  the root after exactly those steps is the one the verifier cannot bisect).  The trace itself has fewer
  than \<open>2 ^ 61\<close> steps, and neither the nodes of the trie nor the commitments collide.  The verifier reports the
  divergence, keeps its own state, and opens a dispute.  If the claimed length is at most that of its
  own trace, it can force the win of that dispute from every point it has not already lost by
  lateness.  If the claimed length is greater, the dispute may also come down to a step past the end
  of its trace: at a step inside the trace its own proof wins; past the end a winning proof exists, but
  the player builds none.
\<close>

theorem false_root_refuted:
  assumes run: "trie_run H trie_new ops = Some (vn_state vn)"
    and e: "execute_batch H ed pcs (vn_state vn) (block_context b (vn_keyless vn)) (bk_transactions b) = Ok (nxt, t)"
    and len: "length (instructions t) < 2 ^ 61" "0 < unat (as_trace_length a)" "unat (as_trace_length a) < 2 ^ 61"
    and a: "as_post_state_root a \<noteq> mt_root nxt"
      "unat (as_trace_length a) < length (instructions t) \<longrightarrow> as_post_state_root a \<noteq> state_root (states t ! unat (as_trace_length a))"
    and inj: "\<forall>s \<in> set (states t). commitment H \<lparr>state_root = as_post_state_root a, pc = as_trace_length a\<rparr> = commitment H s \<longrightarrow>
        \<lparr>state_root = as_post_state_root a, pc = as_trace_length a\<rparr> = s"
    and cf: "collision_free H (history_nodes H SE (ops @ exec_ops H ed (trie_get (vn_state vn)) (instructions t)))"
  shows "\<exists>vn' pl. follow H ed pcs vn b a = (vn', Ok (Divergent (RootDiverges (as_post_state_root a) (mt_root nxt))) :: ('e, _) result)
    \<and> vn_state vn' = vn_state vn \<and> player vn' = Some pl
    \<and> open_dispute H vn' i a window now
        = (Ok (Some (dispute_open (dispute_over H vn' i a window (commitment H (states t ! 0))) now)) :: ('f, _) result)
    \<and> (\<forall>d. game H pl Challenger (dispute_over H vn' i a window (commitment H (states t ! 0))) now d \<longrightarrow>
        (if unat (as_trace_length a) \<le> length (instructions t)
         then (\<forall>why. d_stage d \<noteq> Resolved Defender why) \<longrightarrow> challenger_forces H ed pl d
         else d_stage d = OneStep \<longrightarrow>
           (if unat (d_lo d) < length (instructions t)
            then \<exists>p. player_one_step_proof H ed pl d = (Ok (Some p) :: ('g, _) result)
              \<and> adjudicate H ed (instructions t) d p = (Ok \<lparr>vd_winner = Challenger, vd_reason = DefenderClaimRefuted\<rparr> :: ('h, _) result)
            else player_one_step_proof H ed pl d = (Ok None :: ('g, _) result)
              \<and> (\<exists>p. adjudicate H ed (instructions t) d p
                   = (Ok \<lparr>vd_winner = Challenger, vd_reason = TraceLengthOverstated (d_lo d) (length (instructions t))\<rparr> :: ('h, _) result)))))"
proof -
  let ?pl = "\<lparr>tp_trace = t, tp_pre_state = vn_state vn\<rparr>" and ?n = "length (instructions t)" and ?L = "unat (as_trace_length a)"
  define vn' where "vn' = vn\<lparr>vn_last_trace := Some ?pl\<rparr>"
  have f: "follow H ed pcs vn b a = (vn', Ok (Divergent (RootDiverges (as_post_state_root a) (mt_root nxt))) :: ('e, _) result)"
    using follow_executed [OF e, of a, where 'a = 'e] a(1) by (simp add: vn'_def)
  let ?opn = "dispute_over H vn' i a window (commitment H (states t ! 0))"
  have opn: "op_trace_length ?opn = as_trace_length a" "op_lo_commitment ?opn = commitment H (states t ! 0)"
    "op_hi_commitment ?opn = commitment H \<lparr>state_root = as_post_state_root a, pc = as_trace_length a\<rparr>"
    by (simp_all add: dispute_over_def)
  note shape = trace_shape(1) [OF e]
  have last: "last (states t) = states t ! ?n" using shape by (subst last_conv_nth) auto
  have claim: "\<lparr>state_root = as_post_state_root a, pc = as_trace_length a\<rparr> \<noteq> states t ! min ?L ?n"
  proof
    assume eq: "\<lparr>state_root = as_post_state_root a, pc = as_trace_length a\<rparr> = states t ! min ?L ?n"
    then have "as_trace_length a = of_nat (min ?L ?n)" using trace_pc [OF e, of "min ?L ?n"] by (metis machine_state.select_convs(2) min.cobounded2)
    from arg_cong [where f = unat, OF this] have "?L = unat (of_nat (min ?L ?n) :: u64)" .
    also have "unat (of_nat (min ?L ?n) :: u64) = min ?L ?n" by (rule unat_of_nat_small) (use len(3) in simp)
    finally have "?L = min ?L ?n" .
    then have le: "?L \<le> ?n" by simp
    have r: "as_post_state_root a = state_root (states t ! ?L)" using eq le by (metis machine_state.select_convs(1) min_absorb1)
    show False
    proof (cases "?L = ?n")
      case True
      then show False using r a(1) trace_shape(3) [OF e] last by simp
    qed (use le r a(2) in simp)
  qed
  have hi: "op_hi_commitment ?opn \<noteq> honest_at H t ?L"
  proof -
    have "states t ! min ?L ?n \<in> set (states t)" using shape by simp
    with inj claim show ?thesis unfolding opn(3) by (auto simp: honest_at_def shape)
  qed
  have won: "if ?L \<le> ?n then (\<forall>why. d_stage d \<noteq> Resolved Defender why) \<longrightarrow> challenger_forces H ed ?pl d
      else d_stage d = OneStep \<longrightarrow>
        (if unat (d_lo d) < ?n
         then \<exists>p. player_one_step_proof H ed ?pl d = (Ok (Some p) :: ('g, _) result)
           \<and> adjudicate H ed (instructions t) d p = (Ok \<lparr>vd_winner = Challenger, vd_reason = DefenderClaimRefuted\<rparr> :: ('h, _) result)
         else player_one_step_proof H ed ?pl d = (Ok None :: ('g, _) result)
           \<and> (\<exists>p. adjudicate H ed (instructions t) d p
                = (Ok \<lparr>vd_winner = Challenger, vd_reason = TraceLengthOverstated (d_lo d) ?n\<rparr> :: ('h, _) result)))"
    if g: "game H ?pl Challenger ?opn now d" for d
  proof (cases "?L \<le> ?n")
    case True
    then have "op_hi_commitment ?opn \<noteq> commitment H (states t ! unat (op_trace_length ?opn))"
      using hi by (simp add: opn(1) honest_at_trace [OF shape])
    with false_claim_forced [OF run e len(1) _ _ opn(2) _ cf g] True len(2) show ?thesis by (simp add: opn(1))
  next
    case False
    show ?thesis
    proof (cases "d_stage d = OneStep")
      case st: True
      have o: "disputed_step d = Some (d_lo d)" "d_lo_commitment d = honest_at H t (unat (d_lo d))"
        "d_hi_commitment d \<noteq> honest_at H t (Suc (unat (d_lo d)))"
        using challenge_one_step [OF e _ _ opn(2) _ g st] len hi by (simp_all add: opn(1))
      show ?thesis
      proof (cases "unat (d_lo d) < ?n")
        case k: True
        then have "d_lo_commitment d = commitment H (states t ! unat (d_lo d))"
          "d_hi_commitment d \<noteq> commitment H (states t ! Suc (unat (d_lo d)))"
          using o(2,3) by (simp_all add: honest_at_trace [OF shape])
        from challenge_holds [OF run e len(1) k o(1) refl this cf, where 'e = 'g and 'f = 'h] False k show ?thesis by simp
      next
        case k: False
        have "adjudicate H ed (instructions t) d \<lparr>osp_pre_state = states t ! ?n, osp_witness = w\<rparr>
            = (Ok \<lparr>vd_winner = Challenger, vd_reason = TraceLengthOverstated (d_lo d) ?n\<rparr> :: ('h, _) result)" for w
          using o(1,2) k by (simp add: adjudicate_def honest_at_def shape)
        moreover have "player_one_step_proof H ed ?pl d = (Ok None :: ('g, _) result)"
          using o(1) k by (simp add: player_one_step_proof_def Let_def)
        ultimately show ?thesis using False k by auto
      qed
    qed (use False in simp)
  qed
  have fields: "vn_state vn' = vn_state vn" "player vn' = Some ?pl" by (simp_all add: player_def vn'_def)
  note all = conjI [OF f conjI [OF fields(1) conjI [OF fields(2) conjI [OF divergent_dispute(3) [OF e f, of i window now, where 'f = 'f]]]]]
  show ?thesis by (rule exI [of _ vn'], rule exI [of _ ?pl], rule all) (use won in blast)
qed

definition demo_block :: "merkle_trie \<Rightarrow> execution_trace \<Rightarrow> block" where
  "demo_block tr t = \<lparr>bk_height = 1, bk_timestamp = 60, bk_base_fee = DEFAULT_BASE_FEE_FLOOR, bk_fee_recipient = FEE_VAULT,
     bk_transactions = [demo_tx], bk_pre_state_root = 13, bk_post_state_root = 99, bk_trace = t\<rparr>"

definition demo_false :: assertion where
  "demo_false = \<lparr>as_parent = 1, as_proposer = 1, as_pre_state_root = 13, as_post_state_root = 99, as_batch_commitment = 3,
     as_trace_length = 6, as_bond = 7\<rparr>"

theorem false_root_refuted_witness:
  "\<exists>tr tr' t pl vn'. execute_batch demo_hash sample_ed [] tr (without_keyless 60) [demo_tx] = Ok (tr', t)
     \<and> follow demo_hash sample_ed [] (verifier_node_new tr 2 None) (demo_block tr t) demo_false
         = (vn', Ok (Divergent (RootDiverges 99 (mt_root tr'))) :: (unit, _) result) \<and> player vn' = Some pl
     \<and> open_dispute demo_hash vn' 1 demo_false 86400 0 = (Ok (Some (dispute_open (demo_opening 99) 0)) :: (unit, _) result)
     \<and> challenger_forces demo_hash sample_ed pl (dispute_open (demo_opening 99) 0)"
proof -
  obtain tr tr' t where b: "trie_run demo_hash trie_new demo_ops = Some tr"
    "execute_batch demo_hash sample_ed [] tr (without_keyless 60) [demo_tx] = Ok (tr', t)"
    "instructions t = demo_instrs" "trie_get tr = demo_state" "states t ! 0 = machine_start 13"
    and l: "length (states t) = 7" and at: "\<And>k. k \<le> 6 \<Longrightarrow> honest_at demo_hash t k = of_nat k"
    and rt: "\<And>k. k \<le> 6 \<Longrightarrow> state_root (states t ! k) \<noteq> 99" and pc: "\<And>k. k \<le> 6 \<Longrightarrow> pc (states t ! k) = of_nat k"
    by (rule demo_trace) blast
  let ?vn = "verifier_node_new tr 2 None" and ?b = "demo_block tr t"
  have i: "length demo_instrs = 6" by (simp add: demo_instrs_def)
  have ne: "states t \<noteq> []" using l by auto
  then have last: "last (states t) = states t ! 6" using l by (simp add: last_conv_nth)
  have "block_context ?b None = without_keyless 60" by (simp add: demo_block_def block_context_def without_keyless_def)
  then have e: "execute_batch demo_hash sample_ed [] (vn_state ?vn) (block_context ?b (vn_keyless ?vn)) (bk_transactions ?b) = Ok (tr', t)"
    using b(2) by (simp add: verifier_node_new_def demo_block_def)
  have root: "mt_root tr' \<noteq> 99" using trace_shape(3) [OF b(2)] rt [of 6] by (simp add: last)
  have inj: "commitment demo_hash \<lparr>state_root = 99, pc = 6\<rparr> \<noteq> commitment demo_hash s" if s: "s \<in> set (states t)" for s
  proof -
    obtain k where k: "k \<le> 6" "s = states t ! k" using s l by (metis in_set_conv_nth less_Suc_eq_le numeral_nat(7) eval_nat_numeral(3))
    have "commitment demo_hash s = of_nat k" using at [OF k(1)] k l by (simp add: honest_at_def)
    moreover have "(of_nat k :: hash256) \<noteq> 99"
    proof
      assume "(of_nat k :: hash256) = 99"
      then have "unat (of_nat k :: hash256) = 99" by simp
      then show False using k(1) by (simp add: unat_of_nat_small)
    qed
    ultimately show ?thesis by simp
  qed
  have "trie_run demo_hash trie_new demo_ops = Some (vn_state ?vn)" using b(1) by (simp add: verifier_node_new_def)
  from false_root_refuted [OF this e, of demo_false 1 86400 0, where 'e = unit and 'f = unit and 'g = unit and 'h = unit]
  obtain vn' pl where v: "follow demo_hash sample_ed [] ?vn ?b demo_false
       = (vn', Ok (Divergent (RootDiverges 99 (mt_root tr'))) :: (unit, _) result)" "player vn' = Some pl"
    "open_dispute demo_hash vn' 1 demo_false 86400 0
       = (Ok (Some (dispute_open (dispute_over demo_hash vn' 1 demo_false 86400 (commitment demo_hash (states t ! 0))) 0)) :: (unit, _) result)"
    "\<And>d. game demo_hash pl Challenger (dispute_over demo_hash vn' 1 demo_false 86400 (commitment demo_hash (states t ! 0))) 0 d \<Longrightarrow>
       (\<forall>why. d_stage d \<noteq> Resolved Defender why) \<longrightarrow> challenger_forces demo_hash sample_ed pl d"
    using root demo_collision_free inj by (auto simp: demo_false_def i b(3,4) verifier_node_new_def)
  have vn': "vn' = ?vn\<lparr>vn_last_trace := Some \<lparr>tp_trace = t, tp_pre_state = tr\<rparr>\<rparr>"
    using divergent_dispute(1) [OF e v(1)] by (simp add: verifier_node_new_def)
  then have opn: "dispute_over demo_hash vn' 1 demo_false 86400 (commitment demo_hash (states t ! 0)) = demo_opening 99"
    by (simp add: dispute_over_def demo_false_def demo_opening_def verifier_node_new_def b(5) machine_start_def)
  have "challenger_forces demo_hash sample_ed pl (dispute_open (demo_opening 99) 0)"
    using v(4) [unfolded opn, OF game.Open] by (simp add: demo_open)
  with b v opn show ?thesis by metis
qed

end
