(* ===== verification/Da.thy ===== *)
theory Da
  imports Sequencer
begin

text \<open>
  Published batch data (\<open>da.rs\<close>): the blob of a block, the commitment its contents give, and
  re-executing it.  The store that keeps blobs on disk is file input and output and is not
  modelled.
\<close>

section \<open>Blobs\<close>

record da_blob =
  db_height :: u64
  db_timestamp :: u64
  db_base_fee :: u128
  db_fee_recipient :: l2address
  db_pre_state_root :: hash256
  db_post_state_root :: hash256
  db_batch_commitment :: hash256
  db_transactions :: "transaction list"
  db_tx_starts :: "u64 list"

text \<open>\<open>None\<close> is the panic of computing the block's commitment.\<close>

definition from_block :: "hasher \<Rightarrow> block \<Rightarrow> da_blob option" where
  "from_block H b = map_option (\<lambda>cm. \<lparr>db_height = bk_height b, db_timestamp = bk_timestamp b, db_base_fee = bk_base_fee b,
     db_fee_recipient = bk_fee_recipient b, db_pre_state_root = bk_pre_state_root b, db_post_state_root = bk_post_state_root b,
     db_batch_commitment = cm, db_transactions = bk_transactions b, db_tx_starts = tx_starts (bk_trace b)\<rparr>) (batch_commitment H b)"

definition blob_leaves :: "da_blob \<Rightarrow> (u64 \<times> bytes) list" where
  "blob_leaves blob = map (\<lambda>(start, tx). (start, tx_encode tx)) (zip (db_tx_starts blob) (db_transactions blob))"

text \<open>As for a block, \<open>None\<close> is a panic of the tree construction.\<close>

definition computed_commitment :: "hasher \<Rightarrow> da_blob \<Rightarrow> hash256 option" where
  "computed_commitment H blob =
     (case and_then (build H (blob_leaves blob)) (\<lambda>tree. and_then (bt_root tree) (\<lambda>root.
         Ok (header_commitment H (db_timestamp blob) (db_base_fee blob) (db_fee_recipient blob) (bt_tx_count tree) root)))
        :: (unit, hash256) result of
        Ok cm \<Rightarrow> Some cm | _ \<Rightarrow> None)"

definition verify_integrity :: "hasher \<Rightarrow> da_blob \<Rightarrow> bool option" where
  "verify_integrity H blob =
     (if length (db_tx_starts blob) \<noteq> length (db_transactions blob) then Some False
      else map_option (\<lambda>cm. cm = db_batch_commitment blob) (computed_commitment H blob))"

text \<open>The errors of \<open>verify_execution\<close>, which the code writes out as text.\<close>

datatype da_error =
    CommitmentMismatch
  | WrongStartingRoot hash256 hash256
  | BatchFailed batch_error
  | WrongStarts
  | WrongFinalRoot hash256 hash256

text \<open>
  The state the blob is executed on is changed in place: the first part of the result is what it is
  afterwards, also when a check after the execution fails.  It is \<open>None\<close> where the batch itself fails,
  which leaves the state partly updated.
\<close>

definition verify_execution ::
    "hasher \<Rightarrow> ed25519 \<Rightarrow> width_constants list \<Rightarrow> da_blob \<Rightarrow> merkle_trie \<Rightarrow> keyless_config option
     \<Rightarrow> merkle_trie option \<times> (da_error, hash256) result" where
  "verify_execution H ed pcs blob starting_state keyless =
     (case verify_integrity H blob of
        None \<Rightarrow> (Some starting_state, Panic)
      | Some intact \<Rightarrow>
          if \<not> intact then (Some starting_state, Err CommitmentMismatch)
          else if mt_root starting_state \<noteq> db_pre_state_root blob
          then (Some starting_state, Err (WrongStartingRoot (mt_root starting_state) (db_pre_state_root blob)))
          else
            let ctx = \<lparr>bx_timestamp = db_timestamp blob, bx_keyless = keyless, bx_base_fee = db_base_fee blob,
                  bx_fee_recipient = db_fee_recipient blob\<rparr> in
            case execute_batch H ed pcs starting_state ctx (db_transactions blob) of
              Err e \<Rightarrow> (None, Err (BatchFailed e))
            | Panic \<Rightarrow> (None, Panic)
            | Ok (nxt, trace) \<Rightarrow>
                (Some nxt,
                 if tx_starts trace \<noteq> db_tx_starts blob then Err WrongStarts
                 else if mt_root nxt \<noteq> db_post_state_root blob then Err (WrongFinalRoot (mt_root nxt) (db_post_state_root blob))
                 else Ok (mt_root nxt)))"

section \<open>What a blob proves\<close>

lemma tx_encode_inject: "tx_valid tx \<Longrightarrow> tx_valid tx' \<Longrightarrow> tx_encode tx = tx_encode tx' \<Longrightarrow> tx = tx'"
proof -
  assume v: "tx_valid tx" "tx_valid tx'" and eq: "tx_encode tx = tx_encode tx'"
  then have l: "length (tx_encode tx) < 2 ^ 63" by (simp add: tx_valid_def MAX_TRANSACTION_BYTES_def)
  then have l': "length (tx_encode tx') < 2 ^ 63" using eq by simp
  from reads_whole [OF tx_reads [OF v(1)] l] obtain r where
    1: "read_transaction (reader_new (tx_encode tx)) = Ok (tx, r)" by blast
  from reads_whole [OF tx_reads [OF v(2)] l'] obtain r' where
    2: "read_transaction (reader_new (tx_encode tx')) = Ok (tx', r')" by blast
  from 1 2 show ?thesis unfolding eq by simp
qed

lemma block_commitment:
  assumes "from_block H b = Some blob"
  shows "computed_commitment H blob = Some (db_batch_commitment blob)"
proof -
  have "bk_transactions b = db_transactions blob" "tx_starts (bk_trace b) = db_tx_starts blob" "bk_timestamp b = db_timestamp blob"
    "bk_base_fee b = db_base_fee blob" "bk_fee_recipient b = db_fee_recipient blob" and c: "batch_commitment H b = Some (db_batch_commitment blob)"
    using assms by (auto simp: from_block_def)
  then have "block_batch_tree H b = (if length (db_transactions blob) \<noteq> length (db_tx_starts blob) then Panic else build H (blob_leaves blob) :: (unit, _) result)"
    by (simp add: block_batch_tree_def trace_batch_tree_def blob_leaves_def)
  then show ?thesis using c \<open>bk_timestamp b = _\<close> \<open>bk_base_fee b = _\<close> \<open>bk_fee_recipient b = _\<close>
    by (cases "length (db_transactions blob) = length (db_tx_starts blob)")
      (simp_all add: batch_commitment_def computed_commitment_def)
qed

lemma computed_commitment_Some:
  assumes "computed_commitment H blob = Some cm"
  obtains tree root where "build H (blob_leaves blob) = (Ok tree :: (unit, _) result)" "bt_root tree = (Ok root :: (unit, _) result)"
    "cm = header_commitment H (db_timestamp blob) (db_base_fee blob) (db_fee_recipient blob) (bt_tx_count tree) root"
proof (cases "build H (blob_leaves blob) :: (unit, _) result")
  case (Ok tree)
  with assms that show ?thesis
    by (cases "bt_root tree :: (unit, _) result") (auto simp: computed_commitment_def)
qed (use assms in \<open>simp_all add: computed_commitment_def\<close>)

text \<open>The bytes a header's digest is taken of.\<close>

definition header_preimages :: "hasher \<Rightarrow> da_blob \<Rightarrow> bytes set" where
  "header_preimages H blob = {frames [BATCH, to_be (db_timestamp blob), to_be (db_base_fee blob), to_be (db_fee_recipient blob),
     to_be (bt_tx_count t), to_be root] | t root. build H (blob_leaves blob) = (Ok t :: (unit, _) result)
     \<and> bt_root t = (Ok root :: (unit, _) result)}"

definition commitment_bnodes :: "hasher \<Rightarrow> da_blob \<Rightarrow> bnode set" where
  "commitment_bnodes H blob = (\<Union>t \<in> {t. build H (blob_leaves blob) = (Ok t :: (unit, _) result)}. tree_bnodes (blob_leaves blob) t)"

lemma blob_leaves_inject:
  assumes "blob_leaves blob = blob_leaves blob'"
    and "length (db_tx_starts blob) = length (db_transactions blob)" "length (db_tx_starts blob') = length (db_transactions blob')"
    and "\<forall>tx \<in> set (db_transactions blob) \<union> set (db_transactions blob'). tx_valid tx"
  shows "db_tx_starts blob = db_tx_starts blob'" "db_transactions blob = db_transactions blob'"
proof -
  have m: "map fst (blob_leaves b) = db_tx_starts b" "map snd (blob_leaves b) = map tx_encode (db_transactions b)"
    if "length (db_tx_starts b) = length (db_transactions b)" for b
    using that by (auto simp: blob_leaves_def zip_map_fst_snd comp_def case_prod_beta map_fst_zip map_snd_zip
        simp flip: map_map intro: nth_equalityI)
  show "db_tx_starts blob = db_tx_starts blob'" using m(1) [OF assms(2)] m(1) [OF assms(3)] assms(1) by simp
  have e: "map tx_encode (db_transactions blob) = map tx_encode (db_transactions blob')"
    using m(2) [OF assms(2)] m(2) [OF assms(3)] assms(1) by simp
  have "inj_on tx_encode (set (db_transactions blob) \<union> set (db_transactions blob'))"
    using assms(4) by (auto intro: inj_onI tx_encode_inject)
  then show "db_transactions blob = db_transactions blob'" using e by (simp add: inj_on_map_eq_map)
qed

lemma blob_context:
  assumes "from_block H b = Some blob"
  shows "\<lparr>bx_timestamp = db_timestamp blob, bx_keyless = keyless, bx_base_fee = db_base_fee blob,
      bx_fee_recipient = db_fee_recipient blob\<rparr> = block_context b keyless"
    "db_transactions blob = bk_transactions b" "db_tx_starts blob = tx_starts (bk_trace b)"
    "db_pre_state_root blob = bk_pre_state_root b" "db_post_state_root blob = bk_post_state_root b"
    "db_height blob = bk_height b"
  using assms by (auto simp: from_block_def block_context_def)

lemma executed_starts:
  "execute_batch H ed pcs st ctx txs = Ok (nxt, t) \<Longrightarrow> length (tx_starts t) = length txs"
  by (auto simp: execute_batch_def run_transactions_steps list_all2_lengthD)

section \<open>Properties\<close>

text \<open>
  What the sequencer publishes can be checked by anyone.  For every block of a sequencer, the
  blob exists, and re-executing it from the state the blocks before it give succeeds, leads to the
  block's root and to the state the blocks up to it give.
\<close>

lemma published_blob_verifies:
  assumes "sequencer_reach H ed pcs genesis window min_bond keyless sq" "i < length (sq_blocks sq)"
  shows "\<exists>blob st nxt. from_block H (sq_blocks sq ! i) = Some blob
    \<and> replay_blocks H ed pcs keyless genesis (take i (sq_blocks sq)) = Ok st
    \<and> replay_blocks H ed pcs keyless genesis (take (Suc i) (sq_blocks sq)) = Ok nxt
    \<and> verify_execution H ed pcs blob st keyless = (Some nxt, Ok (bk_post_state_root (sq_blocks sq ! i)))"
proof -
  let ?b = "sq_blocks sq ! i"
  note inv = sequencer_reach_inv [OF assms(1), unfolded seq_inv_def]
  then have l: "linked H ed pcs sq genesis (assertion_id H (genesis_assertion (mt_root genesis))) 0 (sq_blocks sq) (sq_assertions sq)
    (sq_state sq) (sq_head sq)" by blast
  obtain st nxt cm where s: "replay_blocks H ed pcs keyless genesis (take i (sq_blocks sq)) = Ok st"
    "replay_blocks H ed pcs keyless genesis (take (Suc i) (sq_blocks sq)) = Ok nxt"
    "execute_batch H ed pcs st (block_context ?b keyless) (bk_transactions ?b) = Ok (nxt, bk_trace ?b)"
    "bk_pre_state_root ?b = mt_root st" "bk_post_state_root ?b = mt_root nxt" "batch_commitment H ?b = Some cm"
    using linked_at [OF l assms(2)] inv by metis
  obtain blob where blob: "from_block H ?b = Some blob" using s(6) by (simp add: from_block_def)
  have "verify_integrity H blob = Some True"
    using block_commitment [OF blob] executed_starts [OF s(3)] blob_context(2,3) [OF blob] by (simp add: verify_integrity_def)
  then have "verify_execution H ed pcs blob st keyless = (Some nxt, Ok (bk_post_state_root ?b))"
    using s(3-5) by (simp add: verify_execution_def blob_context [OF blob] Let_def)
  with s(1,2) blob show ?thesis by blast
qed

text \<open>
  C40.  A commitment admits one batch only.  A blob whose contents give the commitment of a block, from
  whatever source it comes, carries exactly the block's transactions, start positions, timestamp,
  base fee and tip recipient; so executing it on the same state is executing the block.
\<close>

theorem blob_binds_batch:
  assumes b: "from_block H b = Some blob" "length (bk_transactions b) = length (tx_starts (bk_trace b))"
    and i: "verify_integrity H blob' = Some True" "db_batch_commitment blob' = db_batch_commitment blob"
    and v: "\<forall>tx \<in> set (bk_transactions b) \<union> set (db_transactions blob'). tx_valid tx"
    and inj: "inj_on H (header_preimages H blob \<union> header_preimages H blob')"
    and cf: "batch_collision_free H (commitment_bnodes H blob \<union> commitment_bnodes H blob')"
  shows "db_transactions blob' = bk_transactions b \<and> db_tx_starts blob' = tx_starts (bk_trace b)
    \<and> \<lparr>bx_timestamp = db_timestamp blob', bx_keyless = keyless, bx_base_fee = db_base_fee blob',
        bx_fee_recipient = db_fee_recipient blob'\<rparr> = block_context b keyless"
proof -
  have l': "length (db_tx_starts blob') = length (db_transactions blob')"
    and c': "computed_commitment H blob' = Some (db_batch_commitment blob)"
    using i by (auto simp: verify_integrity_def split: if_splits)
  obtain t root where t: "build H (blob_leaves blob) = (Ok t :: (unit, _) result)" "bt_root t = (Ok root :: (unit, _) result)"
    and h: "db_batch_commitment blob = header_commitment H (db_timestamp blob) (db_base_fee blob) (db_fee_recipient blob) (bt_tx_count t) root"
    by (rule computed_commitment_Some [OF block_commitment [OF b(1)]])
  obtain t' root' where t': "build H (blob_leaves blob') = (Ok t' :: (unit, _) result)" "bt_root t' = (Ok root' :: (unit, _) result)"
    and h': "db_batch_commitment blob = header_commitment H (db_timestamp blob') (db_base_fee blob') (db_fee_recipient blob') (bt_tx_count t') root'"
    by (rule computed_commitment_Some [OF c'])
  have eq: "db_timestamp blob = db_timestamp blob' \<and> db_base_fee blob = db_base_fee blob'
      \<and> db_fee_recipient blob = db_fee_recipient blob' \<and> blob_leaves blob = blob_leaves blob'"
  proof (rule header_binds [OF t t'])
    show "header_commitment H (db_timestamp blob) (db_base_fee blob) (db_fee_recipient blob) (bt_tx_count t) root
        = header_commitment H (db_timestamp blob') (db_base_fee blob') (db_fee_recipient blob') (bt_tx_count t') root'"
      using h h' by simp
    show "inj_on H {frames [BATCH, to_be (db_timestamp blob), to_be (db_base_fee blob), to_be (db_fee_recipient blob), to_be (bt_tx_count t), to_be root],
        frames [BATCH, to_be (db_timestamp blob'), to_be (db_base_fee blob'), to_be (db_fee_recipient blob'), to_be (bt_tx_count t'), to_be root']}"
      by (rule inj_on_subset [OF inj]) (use t t' in \<open>auto simp: header_preimages_def\<close>)
    show "batch_collision_free H (tree_bnodes (blob_leaves blob) t \<union> tree_bnodes (blob_leaves blob') t')"
      by (rule batch_collision_free_mono [OF cf]) (use t t' in \<open>auto simp: commitment_bnodes_def\<close>)
  qed
  note bc = blob_context [OF b(1)]
  have "db_tx_starts blob = db_tx_starts blob'" "db_transactions blob = db_transactions blob'"
    using blob_leaves_inject [of blob blob'] eq l' b(2) v by (auto simp: bc)
  with eq bc show ?thesis by simp
qed

lemma demo_encoded: "210 \<le> length (tx_encode demo_tx)" "tx_valid demo_tx"
  by (simp_all add: tx_encode_def demo_tx_def tx_valid_def MAX_TRANSACTION_BYTES_def)

lemma demo_blob_nodes:
  assumes "db_transactions blob = [demo_tx]" "length (db_tx_starts blob) = 1"
  shows "batch_collision_free demo_hash (commitment_bnodes demo_hash blob)" "inj_on demo_hash (header_preimages demo_hash blob)"
proof -
  obtain s where l: "blob_leaves blob = [(s, tx_encode demo_tx)]"
    using assms by (cases "db_tx_starts blob") (auto simp: blob_leaves_def)
  have "next_power_of_two 1 = 1" unfolding next_power_of_two_def by (subst power_from.simps) simp
  then have p: "padded demo_hash (blob_leaves blob) = leaf_level demo_hash (blob_leaves blob)" by (simp add: padded_def l)
  have "build demo_hash (blob_leaves blob)
      = (Ok \<lparr>bt_levels = [leaf_level demo_hash (blob_leaves blob)], bt_tx_count = 1\<rparr> :: (unit, _) result)"
    by (subst build_levels, simp add: l, subst p, subst levels_up.simps) (simp add: l)
  then have "commitment_bnodes demo_hash blob \<subseteq> {BLeaf 0 s (tx_encode demo_tx)}"
    by (auto simp: commitment_bnodes_def l tree_bnodes_def leaf_bnodes_def leaf_level_def)
  moreover have "batch_collision_free demo_hash {BLeaf 0 s (tx_encode demo_tx)}"
    using demo_encoded
    by (simp add: batch_collision_free_def demo_hash_def frames_def push_framed_def BATCH_LEAF_def ZERO_def tx_valid_def
        MAX_TRANSACTION_BYTES_def)
  ultimately show "batch_collision_free demo_hash (commitment_bnodes demo_hash blob)" by (rule batch_collision_free_mono [rotated])
  show "inj_on demo_hash (header_preimages demo_hash blob)" by (auto simp: header_preimages_def inj_on_def)
qed

theorem blob_binds_batch_witness:
  "\<exists>(sq :: sequencer) b blob. sq_blocks sq = [b] \<and> from_block demo_hash b = Some blob
     \<and> verify_integrity demo_hash (blob\<lparr>db_height := 7, db_post_state_root := 5\<rparr>) = Some True
     \<and> db_transactions (blob\<lparr>db_height := 7, db_post_state_root := 5\<rparr>) = bk_transactions b"
proof -
  obtain tr sq b where r: "sequencer_reach demo_hash sample_ed [] tr 86400 7 None sq" "sq_blocks sq = [b]" "bk_transactions b = [demo_tx]"
    by (rule demo_finalized)
  note inv = sequencer_reach_inv [OF r(1), unfolded seq_inv_def r(2)]
  then obtain nxt i cm where e: "execute_batch demo_hash sample_ed [] tr (block_context b None) (bk_transactions b) = Ok (nxt, bk_trace b)"
    and cm: "batch_commitment demo_hash b = Some cm"
    by (cases "sq_assertions sq") auto
  obtain blob where blob: "from_block demo_hash b = Some blob" using cm by (simp add: from_block_def)
  let ?blob = "blob\<lparr>db_height := 7, db_post_state_root := 5\<rparr>"
  note bc = blob_context [OF blob]
  have len: "length (tx_starts (bk_trace b)) = 1" using executed_starts [OF e] r(3) by simp
  have same: "blob_leaves ?blob = blob_leaves blob" by (simp add: blob_leaves_def)
  then have c: "computed_commitment demo_hash ?blob = computed_commitment demo_hash blob"
    "header_preimages demo_hash ?blob = header_preimages demo_hash blob"
    "commitment_bnodes demo_hash ?blob = commitment_bnodes demo_hash blob"
    by (simp_all add: computed_commitment_def header_preimages_def commitment_bnodes_def)
  have i: "verify_integrity demo_hash ?blob = Some True"
    using block_commitment [OF blob] len r(3) by (simp add: verify_integrity_def c bc)
  have "db_transactions ?blob = bk_transactions b"
    using blob_binds_batch [OF blob _ i, of None] demo_blob_nodes [of blob] demo_encoded(2) len r(3)
    by (simp add: c bc)
  with r(2) blob i show ?thesis by blast
qed

end
