(* ===== verification/Params.thy ===== *)
theory Params
  imports Bisection
begin

text \<open>
  The frozen protocol parameters (\<open>sena-params\<close>) and the relationships between them that are
  checked before a network runs on them.
\<close>

section \<open>The parameter set\<close>

definition SECOND :: u64 where "SECOND = 1"
definition MINUTE :: u64 where "MINUTE = 60 * SECOND"
definition HOUR :: u64 where "HOUR = 60 * MINUTE"
definition DAY :: u64 where "DAY = 24 * HOUR"

record params =
  pm_version :: string
  pm_challenge_window_secs :: u64
  pm_challenge_window_floor_secs :: u64
  pm_move_timeout_secs :: u64
  pm_clock_budget_divisor :: u64
  pm_bisection_arity :: u64
  pm_da_response_timeout_secs :: u64
  pm_forced_inclusion_timeout_secs :: u64
  pm_proposer_liveness_timeout_secs :: u64
  pm_sequencer_bond_min :: u128
  pm_challenger_bond :: u128
  pm_slash_reward_percent :: u8
  pm_intrinsic_gas :: u64
  pm_base_fee_floor :: u128
  pm_gas_target :: u64
  pm_gas_price_scale :: u128
  pm_gas_rate_scale :: u128
  pm_max_block_transactions :: u32
  pm_block_interval_secs :: u64
  pm_persist_interval_secs :: u64

definition PARAM_SET_VERSION :: string where "PARAM_SET_VERSION = ''sena-beta-params-2''"

definition BETA :: params where
  "BETA = \<lparr>pm_version = PARAM_SET_VERSION,
     pm_challenge_window_secs = 7 * DAY, pm_challenge_window_floor_secs = DAY, pm_move_timeout_secs = 6 * HOUR,
     pm_clock_budget_divisor = 4, pm_bisection_arity = 8, pm_da_response_timeout_secs = 12 * HOUR,
     pm_forced_inclusion_timeout_secs = DAY, pm_proposer_liveness_timeout_secs = DAY,
     pm_sequencer_bond_min = 1000000, pm_challenger_bond = 100000, pm_slash_reward_percent = 50,
     pm_intrinsic_gas = 21000, pm_base_fee_floor = 25000000000, pm_gas_target = 5000000,
     pm_gas_price_scale = 1000000000000, pm_gas_rate_scale = 1000000, pm_max_block_transactions = 512,
     pm_block_interval_secs = 2, pm_persist_interval_secs = 10\<rparr>"

text \<open>The division panics when the divisor is zero.\<close>

definition clock_budget_secs :: "params \<Rightarrow> u64 \<Rightarrow> u64 option" where
  "clock_budget_secs p window = (if pm_clock_budget_divisor p = 0 then None else Some (window div pm_clock_budget_divisor p))"

datatype param_error =
    WindowBelowFloor u64 u64
  | DisputeCanOutlastWindow u64 u64
  | MoveExceedsBudget u64 u64
  | ArityTooSmall u64
  | ZeroTimeout string
  | SlashRewardOutOfRange u8
  | ZeroRateScale

text \<open>The loop over the named timeouts.\<close>

fun check_timeouts :: "(string \<times> u64) list \<Rightarrow> (param_error, unit) result" where
  "check_timeouts [] = Ok ()"
| "check_timeouts ((name, v) # rest) = (if v = 0 then Err (ZeroTimeout name) else check_timeouts rest)"

definition timeouts :: "params \<Rightarrow> (string \<times> u64) list" where
  "timeouts p = [(''move_timeout_secs'', pm_move_timeout_secs p),
     (''da_response_timeout_secs'', pm_da_response_timeout_secs p),
     (''forced_inclusion_timeout_secs'', pm_forced_inclusion_timeout_secs p),
     (''proposer_liveness_timeout_secs'', pm_proposer_liveness_timeout_secs p),
     (''block_interval_secs'', pm_block_interval_secs p)]"

definition validate_at_window :: "params \<Rightarrow> u64 \<Rightarrow> (param_error, unit) result" where
  "validate_at_window p window =
     (if window < pm_challenge_window_floor_secs p then Err (WindowBelowFloor window (pm_challenge_window_floor_secs p))
      else if pm_bisection_arity p < 2 then Err (ArityTooSmall (pm_bisection_arity p))
      else if pm_clock_budget_divisor p < 2 then Err (ZeroTimeout ''clock_budget_divisor'')
      else and_then (check_timeouts (timeouts p)) (\<lambda>_.
        if pm_slash_reward_percent p = 0 \<or> pm_slash_reward_percent p \<ge> 100
        then Err (SlashRewardOutOfRange (pm_slash_reward_percent p))
        else if pm_gas_rate_scale p = 0 then Err ZeroRateScale
        else and_then (or_panic (clock_budget_secs p window)) (\<lambda>budget.
          let total = saturating_mul budget 2 in
          if total \<ge> window then Err (DisputeCanOutlastWindow total window)
          else if pm_move_timeout_secs p > budget then Err (MoveExceedsBudget (pm_move_timeout_secs p) budget)
          else Ok ())))"

definition validate :: "params \<Rightarrow> (param_error, unit) result" where
  "validate p =
     and_then (validate_at_window p (pm_challenge_window_secs p)) (\<lambda>_. validate_at_window p (pm_challenge_window_floor_secs p))"

section \<open>What validation gives\<close>

lemma check_timeouts_Ok: "check_timeouts ts = Ok () \<longleftrightarrow> (\<forall>(_, v) \<in> set ts. v \<noteq> 0)"
  by (induction ts rule: check_timeouts.induct) auto

lemma check_timeouts_not_Panic: "check_timeouts ts \<noteq> Panic"
  by (induction ts rule: check_timeouts.induct) auto

lemma budget_total:
  fixes w d :: u64
  assumes "2 \<le> d"
  shows "unat (saturating_mul (w div d) 2) = 2 * (unat w div unat d)"
proof -
  have d: "2 \<le> unat d" using assms by (simp add: word_le_nat_alt)
  have "unat w div unat d * 2 \<le> unat w div unat d * unat d" using d by simp
  also have "\<dots> \<le> unat w" by (simp add: div_times_less_eq_dividend)
  finally have "unat w div unat d * 2 < 2 ^ 64" using unat_less_pow [of w] by simp
  then show ?thesis by (simp add: saturating_mul_def checked_mul_def unat_div unat_word_ariths)
qed

lemma validate_at_window_Ok:
  "validate_at_window p w = Ok () \<longleftrightarrow> pm_challenge_window_floor_secs p \<le> w \<and> 2 \<le> pm_bisection_arity p
     \<and> 2 \<le> pm_clock_budget_divisor p \<and> (\<forall>(_, v) \<in> set (timeouts p). v \<noteq> 0)
     \<and> pm_slash_reward_percent p \<noteq> 0 \<and> pm_slash_reward_percent p < 100 \<and> pm_gas_rate_scale p \<noteq> 0
     \<and> 2 * (unat w div unat (pm_clock_budget_divisor p)) < unat w
     \<and> unat (pm_move_timeout_secs p) \<le> unat w div unat (pm_clock_budget_divisor p)"
proof -
  have b: "total < window \<longleftrightarrow> unat total < unat window" for total window :: u64 by (simp add: word_less_nat_alt)
  show ?thesis
    by (cases "2 \<le> pm_clock_budget_divisor p")
      (auto simp: validate_at_window_def clock_budget_secs_def and_then_Ok_iff check_timeouts_Ok Let_def budget_total b unat_div not_less not_le
        simp flip: linorder_not_less)
qed

lemma beta_valid: "validate BETA = Ok ()"
proof -
  have "validate_at_window BETA w = Ok ()" if "w = 7 * DAY \<or> w = DAY" for w
    using that unfolding validate_at_window_Ok
    by (auto simp: BETA_def timeouts_def DAY_def HOUR_def MINUTE_def SECOND_def)
  then show ?thesis by (simp add: validate_def) (simp add: BETA_def)
qed

text \<open>
  A divisor of two passes at odd windows only, so a set can be valid at its own window and at the
  floor and leave no room at the window in between.
\<close>

lemma divisor_two_gap:
  "\<exists>p w. validate p = Ok () \<and> pm_challenge_window_floor_secs p \<le> w
     \<and> validate_at_window p w = Err (DisputeCanOutlastWindow w w)"
proof -
  let ?p = "BETA\<lparr>pm_clock_budget_divisor := 2, pm_challenge_window_secs := 604801, pm_challenge_window_floor_secs := 86401\<rparr>"
  have "validate_at_window ?p w = Ok ()" if "w = 604801 \<or> w = 86401" for w
    using that unfolding validate_at_window_Ok
    by (auto simp: BETA_def timeouts_def DAY_def HOUR_def MINUTE_def SECOND_def)
  then have "validate ?p = Ok ()" by (simp add: validate_def)
  moreover have "validate_at_window ?p 86402 = Err (DisputeCanOutlastWindow 86402 86402)"
    by (simp add: validate_at_window_def BETA_def timeouts_def clock_budget_secs_def saturating_mul_def checked_mul_def Let_def
        DAY_def HOUR_def MINUTE_def SECOND_def)
  ultimately show ?thesis by (intro exI [of _ ?p] exI [of _ 86402]) (simp add: BETA_def)
qed

section \<open>Properties\<close>

text \<open>
  A validated parameter set is safe at every window governance may choose.  If a set passes
  validation, and its budget divisor is not two, then at every window from the floor up the
  check passes as well: the two parties' budgets fit inside the window together and one move
  fits inside a budget.
\<close>

lemma valid_at_every_window:
  assumes v: "validate p = Ok ()" and d: "pm_clock_budget_divisor p \<noteq> 2" and w: "pm_challenge_window_floor_secs p \<le> w"
  shows "validate_at_window p w = Ok ()
    \<and> (\<exists>budget. clock_budget_secs p w = Some budget \<and> 2 * unat budget < unat w \<and> pm_move_timeout_secs p \<le> budget)"
proof -
  let ?f = "pm_challenge_window_floor_secs p" and ?d = "unat (pm_clock_budget_divisor p)"
  from v have "validate_at_window p ?f = Ok ()" by (simp add: validate_def and_then_Ok_iff)
  note f = this [unfolded validate_at_window_Ok]
  have "?d \<noteq> 2"
  proof
    assume "?d = 2"
    then have "pm_clock_budget_divisor p = 2" by (simp add: word_unat_eq_iff)
    with d show False by simp
  qed
  moreover have "2 \<le> ?d" using f by (simp add: word_le_nat_alt)
  ultimately have d3: "3 \<le> ?d" by simp
  have fw: "unat ?f \<le> unat w" using w by (simp add: word_le_nat_alt)
  have "3 * (unat w div ?d) \<le> unat w"
    using div_le_mono2 [of 3 ?d "unat w"] d3 by simp
  moreover have "0 < unat w" using f fw by linarith
  ultimately have t: "2 * (unat w div ?d) < unat w" by linarith
  have m: "unat (pm_move_timeout_secs p) \<le> unat w div ?d"
    using f div_le_mono [OF fw, of ?d] by linarith
  with f w t have "validate_at_window p w = Ok ()" unfolding validate_at_window_Ok by blast
  moreover have "pm_clock_budget_divisor p \<noteq> 0" using d3 by auto
  ultimately show ?thesis using t m
    by (auto simp: clock_budget_secs_def unat_div word_le_nat_alt)
qed

end
