(* ===== verification/Text.thy ===== *)
theory Text
  imports Primitives
begin

text \<open>
  Text on the wire (\<open>serde_hex.rs\<close>) and the string operations of the node: decimal amounts as
  \<open>u128::to_string\<close> writes and \<open>u128::from_str\<close> reads them, fixed arrays as hexadecimal, prefixes and
  padding.  Strings are their UTF-8 bytes.  Hexadecimal and base64 belong to third-party crates
  and are the fields of \<open>text_codecs\<close>; serde carries the strings and the entries.
\<close>

section \<open>Third-party codecs\<close>

record text_codecs =
  tc_hex_decode :: "bytes \<Rightarrow> bytes option"
  tc_hex_encode :: "bytes \<Rightarrow> bytes"
  tc_b64url_decode :: "bytes \<Rightarrow> bytes option"
  tc_b64url_encode :: "bytes \<Rightarrow> bytes"

text \<open>What the code relies on: what the encoder writes, the decoder reads back.\<close>

definition hex_reads_back :: "text_codecs \<Rightarrow> bool" where
  "hex_reads_back tc \<longleftrightarrow> (\<forall>bs. tc_hex_decode tc (tc_hex_encode tc bs) = Some bs)"

section \<open>Strings\<close>

definition strip_0x :: "bytes \<Rightarrow> bytes" where
  "strip_0x s = (if take 2 s = str_bytes ''0x'' then drop 2 s else s)"

text \<open>\<open>trim_start_matches\<close> with a string removes the prefix as often as it is there.\<close>

fun trim_0x :: "bytes \<Rightarrow> bytes" where
  "trim_0x (a # b # s) = (if [a, b] = str_bytes ''0x'' then trim_0x s else a # b # s)"
| "trim_0x s = s"

definition trim_zeros :: "bytes \<Rightarrow> bytes" where
  "trim_zeros s = dropWhile (\<lambda>c. c = of_char CHR ''0'') s"

definition ascii_lowercase :: "bytes \<Rightarrow> bytes" where
  "ascii_lowercase s = map (\<lambda>c. if of_char CHR ''A'' \<le> c \<and> c \<le> of_char CHR ''Z'' then c + 32 else c) s"

definition pad_left :: "nat \<Rightarrow> bytes \<Rightarrow> bytes" where
  "pad_left n s = replicate (n - length s) (of_char CHR ''0'') @ s"

fun contains :: "bytes \<Rightarrow> bytes \<Rightarrow> bool" where
  "contains [] sub = (sub = [])"
| "contains (c # s) sub = (take (length sub) (c # s) = sub \<or> contains s sub)"

text \<open>\<open>str::split\<close> and \<open>str::split_once\<close> at a character of one byte.\<close>

fun split_on :: "u8 \<Rightarrow> bytes \<Rightarrow> bytes list" where
  "split_on c [] = [[]]"
| "split_on c (x # xs) =
     (if x = c then [] # split_on c xs else (x # hd (split_on c xs)) # tl (split_on c xs))"

definition split_once :: "u8 \<Rightarrow> bytes \<Rightarrow> (bytes \<times> bytes) option" where
  "split_once c s =
     (case dropWhile (\<lambda>x. x \<noteq> c) s of [] \<Rightarrow> None | _ # v \<Rightarrow> Some (takeWhile (\<lambda>x. x \<noteq> c) s, v))"

text \<open>\<open>str::trim\<close>: the encodings of white space, removed at both ends as often as they are there.\<close>

lemma found_prefix: "find (\<lambda>w. w \<noteq> [] \<and> take (length w) s = w) ws = Some w \<Longrightarrow> length s - length w < length s"
proof -
  assume "find (\<lambda>w. w \<noteq> [] \<and> take (length w) s = w) ws = Some w"
  then have "w \<noteq> []" "take (length w) s = w" by (induction ws) (auto split: if_splits)
  then have "0 < length w" "0 < length s" by auto
  then show ?thesis by simp
qed

function strip_all :: "bytes list \<Rightarrow> bytes \<Rightarrow> bytes" where
  "strip_all ws s =
     (case find (\<lambda>w. w \<noteq> [] \<and> take (length w) s = w) ws of
        None \<Rightarrow> s
      | Some w \<Rightarrow> strip_all ws (drop (length w) s))"
  by pat_completeness auto
termination
  by (relation "measure (\<lambda>(ws, s). length s)") (auto dest: found_prefix)

declare strip_all.simps [simp del]

definition white_chars :: "bytes list" where
  "white_chars = map utf8_char ([9..<14] @ [32, 133, 160, 5760] @ [8192..<8203] @ [8232, 8233, 8239, 8287, 12288])"

definition trim_text :: "bytes \<Rightarrow> bytes" where
  "trim_text s = rev (strip_all (map rev white_chars) (rev (strip_all white_chars s)))"

section \<open>Hashes and addresses as text\<close>

datatype hash_parse_error = HashNotHex | HashWrongLength

definition hash_to_hex :: "text_codecs \<Rightarrow> hash256 \<Rightarrow> bytes" where
  "hash_to_hex tc h = tc_hex_encode tc (to_be h)"

definition hash_from_hex :: "text_codecs \<Rightarrow> bytes \<Rightarrow> (hash_parse_error, hash256) result" where
  "hash_from_hex tc s =
     and_then (ok_or (tc_hex_decode tc s) HashNotHex) (\<lambda>b. if length b = 32 then Ok (from_be b) else Err HashWrongLength)"

definition address_to_hex :: "text_codecs \<Rightarrow> l2address \<Rightarrow> bytes" where
  "address_to_hex tc a = str_bytes ''0x'' @ tc_hex_encode tc (to_be a)"

definition address_from_hex :: "text_codecs \<Rightarrow> bytes \<Rightarrow> (hash_parse_error, l2address) result" where
  "address_from_hex tc s = hash_from_hex tc (strip_0x s)"

lemma hex_text_round_trip:
  assumes "hex_reads_back tc"
  shows "hash_from_hex tc (hash_to_hex tc h) = Ok h" "address_from_hex tc (address_to_hex tc a) = Ok a"
  using assms
  by (simp_all add: hash_from_hex_def hash_to_hex_def address_from_hex_def address_to_hex_def strip_0x_def hex_reads_back_def
      from_be_to_be str_bytes_def)

section \<open>Numbers\<close>

definition digit :: "nat \<Rightarrow> u8" where
  "digit n = of_nat (if n < 10 then 48 + n else 87 + n)"

fun radix_text :: "nat \<Rightarrow> nat \<Rightarrow> bytes" where
  "radix_text b n = (if n < b \<or> b < 2 then [digit n] else radix_text b (n div b) @ [digit (n mod b)])"

declare radix_text.simps [simp del]

definition to_decimal :: "u128 \<Rightarrow> bytes" where
  "to_decimal v = radix_text 10 (unat v)"

fun parse_digits :: "u128 \<Rightarrow> bytes \<Rightarrow> u128 option" where
  "parse_digits acc [] = Some acc"
| "parse_digits acc (c # cs) =
     (if 48 \<le> c \<and> c \<le> 57 then
        (case checked_mul acc 10 of
           None \<Rightarrow> None
         | Some m \<Rightarrow> (case checked_add m (ucast (c - 48)) of None \<Rightarrow> None | Some n \<Rightarrow> parse_digits n cs))
      else None)"

definition u128_from_str :: "bytes \<Rightarrow> u128 option" where
  "u128_from_str s =
     (let ds = (if take 1 s = str_bytes ''+'' then drop 1 s else s) in
      if ds = [] then None else parse_digits 0 ds)"

text \<open>\<open>usize::from_str\<close> on a machine of 64 bits refuses what does not fit.\<close>

definition usize_from_str :: "bytes \<Rightarrow> nat option" where
  "usize_from_str s = Option.bind (u128_from_str s) (\<lambda>v. if unat v < 2 ^ 64 then Some (unat v) else None)"

section \<open>The wire adapters\<close>

datatype text_error = NotHex | ExpectedBytes nat | NotDecimal

definition hex_array :: "text_codecs \<Rightarrow> nat \<Rightarrow> bytes \<Rightarrow> (text_error, 'a::len word) result" where
  "hex_array tc n s =
     and_then (ok_or (tc_hex_decode tc s) NotHex) (\<lambda>v.
       if length v = n then Ok (from_be v) else Err (ExpectedBytes n))"

definition bytes_32_serialize :: "text_codecs \<Rightarrow> bytes32 \<Rightarrow> bytes" where
  "bytes_32_serialize tc b = tc_hex_encode tc (to_be b)"

definition bytes_32_deserialize :: "text_codecs \<Rightarrow> bytes \<Rightarrow> (text_error, bytes32) result" where
  "bytes_32_deserialize tc s = hex_array tc 32 s"

definition bytes_64_serialize :: "text_codecs \<Rightarrow> bytes64 \<Rightarrow> bytes" where
  "bytes_64_serialize tc b = tc_hex_encode tc (to_be b)"

definition bytes_64_deserialize :: "text_codecs \<Rightarrow> bytes \<Rightarrow> (text_error, bytes64) result" where
  "bytes_64_deserialize tc s = hex_array tc 64 s"

definition bytes_128_serialize :: "text_codecs \<Rightarrow> bytes128 \<Rightarrow> bytes" where
  "bytes_128_serialize tc b = tc_hex_encode tc (to_be b)"

definition bytes_128_deserialize :: "text_codecs \<Rightarrow> bytes \<Rightarrow> (text_error, bytes128) result" where
  "bytes_128_deserialize tc s = hex_array tc 128 s"

definition opt_bytes_32_serialize :: "text_codecs \<Rightarrow> bytes32 option \<Rightarrow> bytes option" where
  "opt_bytes_32_serialize tc b = (case b of Some b \<Rightarrow> Some (tc_hex_encode tc (to_be b)) | None \<Rightarrow> None)"

definition opt_bytes_32_deserialize :: "text_codecs \<Rightarrow> bytes option \<Rightarrow> (text_error, bytes32 option) result" where
  "opt_bytes_32_deserialize tc s =
     (case s of None \<Rightarrow> Ok None | Some s \<Rightarrow> and_then (hex_array tc 32 s) (\<lambda>b. Ok (Some b)))"

definition u128_string_serialize :: "u128 \<Rightarrow> bytes" where
  "u128_string_serialize v = to_decimal v"

definition u128_string_deserialize :: "bytes \<Rightarrow> (text_error, u128) result" where
  "u128_string_deserialize s = ok_or (u128_from_str s) NotDecimal"

definition option_u128_string_serialize :: "u128 option \<Rightarrow> bytes option" where
  "option_u128_string_serialize v = (case v of Some v \<Rightarrow> Some (to_decimal v) | None \<Rightarrow> None)"

definition option_u128_string_deserialize :: "bytes option \<Rightarrow> (text_error, u128 option) result" where
  "option_u128_string_deserialize s =
     (case s of None \<Rightarrow> Ok None | Some s \<Rightarrow> and_then (ok_or (u128_from_str s) NotDecimal) (\<lambda>v. Ok (Some v)))"

record balance_entry =
  be_asset :: u32
  be_amount :: bytes

definition balances_serialize :: "(u32 \<times> u128) list \<Rightarrow> balance_entry list" where
  "balances_serialize bs = map (\<lambda>(asset, amount). \<lparr>be_asset = asset, be_amount = to_decimal amount\<rparr>) bs"

fun balances_deserialize :: "balance_entry list \<Rightarrow> (text_error, (u32 \<times> u128) list) result" where
  "balances_deserialize [] = Ok []"
| "balances_deserialize (e # es) =
     and_then (ok_or (u128_from_str (be_amount e)) NotDecimal) (\<lambda>amount.
     and_then (balances_deserialize es) (\<lambda>bs. Ok ((be_asset e, amount) # bs)))"

section \<open>Decimal text\<close>

definition digit_val :: "u8 \<Rightarrow> nat" where
  "digit_val c = unat c - 48"

definition text_val :: "bytes \<Rightarrow> nat" where
  "text_val ds = foldl (\<lambda>n c. 10 * n + digit_val c) 0 ds"

definition is_digit :: "u8 \<Rightarrow> bool" where
  "is_digit c \<longleftrightarrow> 48 \<le> c \<and> c \<le> 57"

lemma digit_val_bound: "is_digit c \<Longrightarrow> digit_val c < 10"
  by (auto simp: is_digit_def digit_val_def word_le_nat_alt)

lemma unat_digit: "is_digit c \<Longrightarrow> unat (ucast (c - 48) :: u128) = digit_val c"
  by (auto simp: is_digit_def digit_val_def unsigned_ucast_eq unat_sub word_le_nat_alt take_bit_nat_eq_self_iff)

lemma fold_digits_mono: "foldl (\<lambda>n c. 10 * n + digit_val c) a ds \<ge> a"
proof (induction ds arbitrary: a)
  case (Cons c ds)
  have "a \<le> 10 * a + digit_val c" by simp
  also have "\<dots> \<le> foldl (\<lambda>n c. 10 * n + digit_val c) (10 * a + digit_val c) ds" by (rule Cons.IH)
  finally show ?case by simp
qed simp

text \<open>The reader accepts exactly digits whose value fits, and reads their value.\<close>

lemma parse_digits_iff:
  "parse_digits acc ds = Some v \<longleftrightarrow>
     (\<forall>c\<in>set ds. is_digit c) \<and> unat v = foldl (\<lambda>n c. 10 * n + digit_val c) (unat acc) ds"
proof (induction ds arbitrary: acc)
  case Nil
  show ?case by (auto simp: word_unat_eq_iff)
next
  case (Cons c ds)
  show ?case
  proof (cases "is_digit c")
    case True
    let ?n = "10 * unat acc + digit_val c"
    show ?thesis
    proof (cases "?n < 2 ^ 128")
      case small: True
      then have m: "checked_mul acc 10 = Some (acc * 10)" by (simp add: checked_mul_def)
      then have um: "unat (acc * 10) = unat acc * 10" by (simp add: checked_mul_Some_iff)
      have a: "checked_add (acc * 10) (ucast (c - 48)) = Some (acc * 10 + ucast (c - 48))"
        using small True by (simp add: checked_add_def um unat_digit)
      then have "unat (acc * 10 + ucast (c - 48)) = ?n" using True by (simp add: checked_add_Some_iff um unat_digit)
      with m a True Cons.IH show ?thesis by (simp add: is_digit_def)
    next
      case big: False
      have "parse_digits acc (c # ds) = None"
      proof (cases "checked_mul acc 10")
        case (Some m)
        then have "unat m = unat acc * 10" by (simp add: checked_mul_Some_iff)
        with Some big True show ?thesis by (simp add: checked_add_def unat_digit)
      qed simp
      moreover have "unat v < 2 ^ 128" using unsigned_less [of v] by simp
      moreover note fold_digits_mono [of ?n ds]
      ultimately show ?thesis using big by auto
    qed
  next
    case False
    then show ?thesis by (auto simp: is_digit_def)
  qed
qed

lemma digit_is_digit: "n < 10 \<Longrightarrow> is_digit (digit n) \<and> digit_val (digit n) = n"
  using unat_of_nat_small [where 'a = 8 and x = "48 + n"]
  by (simp add: is_digit_def digit_def digit_val_def word_le_nat_alt)

lemma radix_text_val:
  "(\<forall>c\<in>set (radix_text 10 n). is_digit c) \<and> text_val (radix_text 10 n) = n \<and> radix_text 10 n \<noteq> []"
proof (induction n rule: less_induct)
  case (less n)
  show ?case
  proof (cases "n < 10")
    case True
    then show ?thesis by (simp add: radix_text.simps [of _ n] text_val_def digit_is_digit)
  next
    case False
    with less.IH [of "n div 10"] show ?thesis
      by (simp add: radix_text.simps [of _ n] text_val_def digit_is_digit)
  qed
qed

lemma u128_from_str_to_decimal: "u128_from_str (to_decimal v) = Some v"
proof -
  note t = radix_text_val [of "unat v"]
  obtain c s where s: "radix_text 10 (unat v) = c # s" using t by (cases "radix_text 10 (unat v)") auto
  with t have "is_digit c" by simp
  then have "take 1 (c # s) \<noteq> str_bytes ''+''" by (auto simp: is_digit_def str_bytes_def)
  moreover have "parse_digits 0 (c # s) = Some v"
    unfolding parse_digits_iff using t s by (simp add: text_val_def)
  ultimately show ?thesis by (simp add: u128_from_str_def to_decimal_def s)
qed

lemma usize_from_str_text:
  assumes "n < 2 ^ 64"
  shows "usize_from_str (radix_text 10 n) = Some n"
proof -
  have "unat (of_nat n :: u128) = n" by (rule unat_of_nat_small) (use assms in simp)
  with u128_from_str_to_decimal [of "of_nat n"] assms show ?thesis by (simp add: to_decimal_def usize_from_str_def)
qed

lemma balances_round: "balances_deserialize (balances_serialize bs) = Ok bs"
  by (induction bs) (auto simp: balances_serialize_def u128_from_str_to_decimal)

lemma hex_array_round:
  assumes "hex_reads_back tc" "length (to_be w) = n"
  shows "hex_array tc n (tc_hex_encode tc (to_be (w :: 'a::len word))) = Ok (from_be (to_be w))"
  using assms by (simp add: hex_array_def hex_reads_back_def)

section \<open>Properties\<close>

text \<open>
  Amounts survive the wire exactly.  What a serializer writes, the deserializer reads back,
  for single amounts, optional ones and balance lists, with no rounding at any size; the reader takes nothing
  but an optional plus sign and decimal digits whose value fits 128 bits, and reads that value;
  and byte arrays come back when the hexadecimal codec reads back what it wrote.
\<close>

lemma wire_round_trip:
  assumes hex: "hex_reads_back tc"
  shows "u128_string_deserialize (u128_string_serialize v) = Ok v
    \<and> option_u128_string_deserialize (option_u128_string_serialize ov) = Ok ov
    \<and> balances_deserialize (balances_serialize bs) = Ok bs
    \<and> (u128_string_deserialize s = Ok v \<longleftrightarrow>
        (\<exists>ds. (s = ds \<or> s = str_bytes ''+'' @ ds) \<and> ds \<noteq> [] \<and> (\<forall>c\<in>set ds. is_digit c) \<and> text_val ds = unat v))
    \<and> bytes_32_deserialize tc (bytes_32_serialize tc b) = Ok b
    \<and> bytes_64_deserialize tc (bytes_64_serialize tc b64) = Ok b64
    \<and> bytes_128_deserialize tc (bytes_128_serialize tc b128) = Ok b128
    \<and> opt_bytes_32_deserialize tc (opt_bytes_32_serialize tc ob) = Ok ob"
proof -
  have "u128_from_str s = Some v \<longleftrightarrow>
      (\<exists>ds. (s = ds \<or> s = str_bytes ''+'' @ ds) \<and> ds \<noteq> [] \<and> (\<forall>c\<in>set ds. is_digit c) \<and> text_val ds = unat v)"
    (is "_ \<longleftrightarrow> ?rhs")
  proof (cases "take 1 s = str_bytes ''+''")
    case True
    then obtain cs where s: "s = str_bytes ''+'' @ cs" "drop 1 s = cs" by (cases s) (auto simp: str_bytes_def)
    then have "\<not> (\<forall>c\<in>set s. is_digit c)" by (simp add: str_bytes_def is_digit_def)
    moreover have "s = str_bytes ''+'' @ ds \<longleftrightarrow> ds = cs" for ds using s by auto
    moreover have "u128_from_str s = Some v \<longleftrightarrow> cs \<noteq> [] \<and> parse_digits 0 cs = Some v"
      using True s(2) by (simp add: u128_from_str_def)
    ultimately show ?thesis unfolding parse_digits_iff text_val_def by auto
  next
    case False
    then have "s \<noteq> str_bytes ''+'' @ ds" for ds by (auto simp: str_bytes_def)
    moreover have "u128_from_str s = Some v \<longleftrightarrow> s \<noteq> [] \<and> parse_digits 0 s = Some v"
      using False by (simp add: u128_from_str_def)
    ultimately show ?thesis unfolding parse_digits_iff text_val_def by auto
  qed
  then show ?thesis using hex
    by (simp add: u128_string_deserialize_def u128_string_serialize_def u128_from_str_to_decimal ok_or_Ok_iff
        option_u128_string_deserialize_def option_u128_string_serialize_def balances_round bytes_32_deserialize_def
        bytes_32_serialize_def bytes_64_deserialize_def bytes_64_serialize_def bytes_128_deserialize_def
        bytes_128_serialize_def opt_bytes_32_deserialize_def opt_bytes_32_serialize_def hex_array_round from_be_to_be
        split: option.split)
qed

text \<open>A hexadecimal codec of two digits a byte.\<close>

definition nibbles :: "bytes \<Rightarrow> bytes" where
  "nibbles bs = concat (map (\<lambda>b. [drop_bit 4 b, take_bit 4 b]) bs)"

fun unnibbles :: "bytes \<Rightarrow> bytes option" where
  "unnibbles [] = Some []"
| "unnibbles [a] = None"
| "unnibbles (a # b # s) = map_option (\<lambda>bs. (push_bit 4 a + b) # bs) (unnibbles s)"

definition nibble_codecs :: text_codecs where
  "nibble_codecs = \<lparr>tc_hex_decode = unnibbles, tc_hex_encode = nibbles, tc_b64url_decode = Some, tc_b64url_encode = (\<lambda>bs. bs)\<rparr>"

lemma nibble_join: "push_bit 4 (drop_bit 4 (b :: u8)) + take_bit 4 b = b"
proof -
  have "push_bit 4 (drop_bit 4 b) + take_bit 4 b = push_bit 4 (drop_bit 4 b) OR take_bit 4 b"
    by (rule disjunctive_add) (auto simp: bit_push_bit_iff bit_take_bit_iff)
  then show ?thesis by (simp add: bits_ident)
qed

lemma nibble_reads_back: "hex_reads_back nibble_codecs"
proof -
  have "unnibbles (nibbles bs) = Some bs" for bs
    by (induction bs) (simp_all add: nibbles_def nibble_join)
  then show ?thesis by (simp add: hex_reads_back_def nibble_codecs_def)
qed

end
