(* ===== verification/Genesis.thy ===== *)
theory Genesis
  imports Text Ledger Assertion
begin

text \<open>
  The genesis configuration (\<open>genesis.rs\<close>): validation, and building the first state through the
  ordinary instructions.  The two embedded keyless parameter sets are told apart by name, and
  what they hold is a parameter.
\<close>

section \<open>Keyless parameter sets\<close>

definition rsa_jwk_hash_b64 :: "text_codecs \<Rightarrow> width_constants list \<Rightarrow> bytes \<Rightarrow> (keyless_error, bytes32) result" where
  "rsa_jwk_hash_b64 tc pcs n =
     and_then (ok_or (tc_b64url_decode tc n) (BadModulus RSA_MODULUS_BYTES 0)) (rsa_jwk_hash pcs)"

definition MAX_JWT_HEADER_B64_BYTES :: nat where "MAX_JWT_HEADER_B64_BYTES = 300"

definition jwt_header_hash :: "text_codecs \<Rightarrow> width_constants list \<Rightarrow> bytes \<Rightarrow> (keyless_error, bytes32) result" where
  "jwt_header_hash tc pcs header_json =
     and_then (pad_and_hash_string pcs ''jwt_header'' (tc_b64url_encode tc header_json @ str_bytes ''.'') MAX_JWT_HEADER_B64_BYTES)
       (\<lambda>f. Ok (fr_to_bytes f))"

datatype keyless_setup = AptosMainnet | AptosDevnetInsecure

fun setup_name :: "keyless_setup \<Rightarrow> bytes" where
  "setup_name AptosMainnet = str_bytes ''aptos-keyless-mainnet-2025-01''"
| "setup_name AptosDevnetInsecure = str_bytes ''aptos-keyless-devnet-insecure''"

definition by_name :: "bytes \<Rightarrow> keyless_setup option" where
  "by_name name = find (\<lambda>c. setup_name c = name) [AptosMainnet, AptosDevnetInsecure]"

definition l1_setup_id :: "keyless_setup option \<Rightarrow> u8" where
  "l1_setup_id config =
     (case map_option setup_name config of
        None \<Rightarrow> 0
      | Some n \<Rightarrow> if n = setup_name AptosMainnet then 1 else 2)"

section \<open>The configuration\<close>

record allocation =
  al_address :: l2address
  al_asset :: u32
  al_amount :: u128

record gas_asset =
  ga_asset :: u32
  ga_symbol :: bytes
  ga_rate :: u128
  ga_intrinsic_gas :: u64
  ga_enabled :: bool

record fee_market_config =
  mc_base_fee_floor :: u128
  mc_gas_target :: u64

definition fee_market_default :: fee_market_config where
  "fee_market_default = \<lparr>mc_base_fee_floor = DEFAULT_BASE_FEE_FLOOR, mc_gas_target = DEFAULT_GAS_TARGET\<rparr>"

record fee_split_config =
  sc_beneficiaries :: "(l2address \<times> u32) list"
  sc_burn :: u32

record council_config =
  co_members :: "bytes list"
  co_threshold :: u32
  co_guardian_threshold :: u32

record jwk_config =
  jc_iss :: bytes
  jc_kid :: bytes
  jc_n :: bytes

record keyless_genesis =
  kg_setup :: bytes
  kg_allow_insecure_test_setup :: bool
  kg_jwks :: "jwk_config list"

record genesis_config =
  gc_chain_id :: bytes
  gc_challenge_window_secs :: u64
  gc_minimum_bond :: u128
  gc_network_salt :: bytes
  gc_gas_assets :: "gas_asset list"
  gc_allocations :: "allocation list"
  gc_council :: "council_config option"
  gc_keyless :: "keyless_genesis option"
  gc_fee_market :: "fee_market_config option"
  gc_fee_split :: "fee_split_config option"

datatype genesis_error =
    BadCouncilKey nat
  | ZeroRate bytes
  | ImpossibleThreshold u32 nat
  | ApplyFailed step_error
  | UnknownKeylessSetup bytes
  | InsecureKeylessSetup bytes
  | BadFeeSplit u32
  | BadFeeMarket
  | BadJwk nat keyless_error

definition genesis_dev :: "allocation list \<Rightarrow> genesis_config" where
  "genesis_dev allocations = \<lparr>gc_chain_id = str_bytes ''sena-devnet-1'',
     gc_challenge_window_secs = CHALLENGE_WINDOW_FLOOR, gc_minimum_bond = 1000000,
     gc_network_salt = str_bytes ''sena-devnet-1-salt'',
     gc_gas_assets = [\<lparr>ga_asset = 1, ga_symbol = str_bytes ''USDC'', ga_rate = RATE_SCALE,
       ga_intrinsic_gas = DEFAULT_ASSET_INTRINSIC_GAS, ga_enabled = True\<rparr>],
     gc_allocations = allocations, gc_council = None, gc_keyless = None, gc_fee_market = None, gc_fee_split = None\<rparr>"

definition keyless_config_of :: "genesis_config \<Rightarrow> (genesis_error, keyless_setup option) result" where
  "keyless_config_of g =
     (case gc_keyless g of
        None \<Rightarrow> Ok None
      | Some k \<Rightarrow>
          and_then (ok_or (by_name (kg_setup k)) (UnknownKeylessSetup (kg_setup k))) (\<lambda>config.
            if setup_name config = setup_name AptosDevnetInsecure \<and> \<not> kg_allow_insecure_test_setup k
            then Err (InsecureKeylessSetup (kg_setup k)) else Ok (Some config)))"

fun hash_jwks ::
    "text_codecs \<Rightarrow> width_constants list \<Rightarrow> nat \<Rightarrow> jwk_config list \<Rightarrow> (genesis_error, (bytes32 \<times> bytes32) list) result" where
  "hash_jwks tc pcs index [] = Ok []"
| "hash_jwks tc pcs index (jwk # jwks) =
     and_then (map_err (BadJwk index) (iss_hash_of pcs (jc_iss jwk))) (\<lambda>i.
     and_then (map_err (BadJwk index) (rsa_jwk_hash_b64 tc pcs (jc_n jwk))) (\<lambda>h.
     and_then (hash_jwks tc pcs (index + 1) jwks) (\<lambda>rest. Ok ((i, h) # rest))))"

definition jwk_hashes :: "text_codecs \<Rightarrow> width_constants list \<Rightarrow> genesis_config \<Rightarrow> (genesis_error, (bytes32 \<times> bytes32) list) result" where
  "jwk_hashes tc pcs g = (case gc_keyless g of None \<Rightarrow> Ok [] | Some k \<Rightarrow> hash_jwks tc pcs 0 (kg_jwks k))"

definition decode_key :: "text_codecs \<Rightarrow> bytes \<Rightarrow> bytes32 option" where
  "decode_key tc hex_key =
     (case tc_hex_decode tc (strip_0x hex_key) of
        None \<Rightarrow> None
      | Some raw \<Rightarrow> if length raw = 32 then Some (from_be raw) else None)"

fun decode_members :: "text_codecs \<Rightarrow> nat \<Rightarrow> bytes list \<Rightarrow> (genesis_error, bytes32 list) result" where
  "decode_members tc index [] = Ok []"
| "decode_members tc index (m # ms) =
     and_then (ok_or (decode_key tc m) (BadCouncilKey index)) (\<lambda>key.
     and_then (decode_members tc (index + 1) ms) (\<lambda>keys. Ok (key # keys)))"

definition fee_split_of :: "genesis_config \<Rightarrow> (genesis_error, fee_split option) result" where
  "fee_split_of g =
     (case gc_fee_split g of
        None \<Rightarrow> Ok None
      | Some config \<Rightarrow>
          let split = \<lparr>fs_beneficiaries = sc_beneficiaries config, fs_burn = sc_burn config\<rparr> in
          and_then (map_err (\<lambda>_. BadFeeSplit SHARE_SCALE) (split_check split)) (\<lambda>_. Ok (Some split)))"

section \<open>Validation\<close>

fun check_rates :: "gas_asset list \<Rightarrow> (genesis_error, unit) result" where
  "check_rates [] = Ok ()"
| "check_rates (a # as) = (if ga_rate a = 0 then Err (ZeroRate (ga_symbol a)) else check_rates as)"

definition check_council :: "text_codecs \<Rightarrow> council_config \<Rightarrow> (genesis_error, unit) result" where
  "check_council tc c =
     (if unat (co_threshold c) > length (co_members c) \<or> co_threshold c = 0
      then Err (ImpossibleThreshold (co_threshold c) (length (co_members c)))
      else and_then (decode_members tc 0 (co_members c)) (\<lambda>_.
        if co_guardian_threshold c > co_threshold c
        then Err (ImpossibleThreshold (co_guardian_threshold c) (unat (co_threshold c))) else Ok ()))"

definition genesis_validate :: "text_codecs \<Rightarrow> width_constants list \<Rightarrow> genesis_config \<Rightarrow> (genesis_error, unit) result" where
  "genesis_validate tc pcs g =
     and_then (check_rates (gc_gas_assets g)) (\<lambda>_.
     and_then (case gc_council g of None \<Rightarrow> Ok () | Some c \<Rightarrow> check_council tc c) (\<lambda>_.
     and_then (case gc_fee_market g of
         None \<Rightarrow> Ok ()
       | Some m \<Rightarrow> if mc_base_fee_floor m = 0 \<or> mc_gas_target m = 0 then Err BadFeeMarket else Ok ()) (\<lambda>_.
     and_then (fee_split_of g) (\<lambda>_.
     and_then (keyless_config_of g) (\<lambda>_.
     and_then (jwk_hashes tc pcs g) (\<lambda>_. Ok ()))))))"

section \<open>Building the state\<close>

fun apply_all :: "hasher \<Rightarrow> ed25519 \<Rightarrow> merkle_trie \<Rightarrow> instruction list \<Rightarrow> (genesis_error, merkle_trie) result" where
  "apply_all H ed tr [] = Ok tr"
| "apply_all H ed tr (i # is) =
     and_then (map_err ApplyFailed (apply_step H ed tr i)) (\<lambda>(tr', _). apply_all H ed tr' is)"

definition genesis_asset :: "gas_asset \<Rightarrow> whitelisted_asset" where
  "genesis_asset a = \<lparr>wa_asset = ga_asset a, wa_symbol = ga_symbol a, wa_rate = ga_rate a,
     wa_intrinsic_gas = ga_intrinsic_gas a, wa_enabled = ga_enabled a\<rparr>"

definition install_council :: "hasher \<Rightarrow> text_codecs \<Rightarrow> council_config option \<Rightarrow> merkle_trie \<Rightarrow> (genesis_error, merkle_trie) result" where
  "install_council H tc config tr =
     (case config of
        None \<Rightarrow> Ok tr
      | Some c \<Rightarrow>
          and_then (decode_members tc 0 (co_members c)) (\<lambda>ms.
          and_then (or_panic (trie_insert H tr (council_key H) (council_encode \<lparr>members = ms, threshold = co_threshold c,
              epoch = 0, guardian_threshold = co_guardian_threshold c\<rparr>))) (\<lambda>(tr', _). Ok tr')))"

definition credit_of :: "allocation \<Rightarrow> instruction" where
  "credit_of a = Credit (al_address a) (al_asset a) (al_amount a)"

definition build_state ::
    "hasher \<Rightarrow> ed25519 \<Rightarrow> text_codecs \<Rightarrow> width_constants list \<Rightarrow> genesis_config \<Rightarrow> (genesis_error, merkle_trie) result" where
  "build_state H ed tc pcs g =
     and_then (genesis_validate tc pcs g) (\<lambda>_.
     and_then (apply_all H ed trie_new (map (SetGasAsset \<circ> genesis_asset) (gc_gas_assets g))) (\<lambda>tr1.
     and_then (install_council H tc (gc_council g) tr1) (\<lambda>tr2.
     let market = (case gc_fee_market g of Some m \<Rightarrow> m | None \<Rightarrow> fee_market_default) in
     and_then (apply_all H ed tr2 [SetFeeMarket (mc_base_fee_floor market) (mc_gas_target market)]) (\<lambda>tr3.
     and_then (fee_split_of g) (\<lambda>split.
     and_then (apply_all H ed tr3 (case split of Some s \<Rightarrow> [SetFeeSplit s] | None \<Rightarrow> [])) (\<lambda>tr4.
     and_then (jwk_hashes tc pcs g) (\<lambda>jwks.
     and_then (apply_all H ed tr4 (map (\<lambda>(i, h). SetJwk i h True) jwks)) (\<lambda>tr5.
       apply_all H ed tr5 (map credit_of (gc_allocations g))))))))))"

definition genesis_root :: "hasher \<Rightarrow> ed25519 \<Rightarrow> text_codecs \<Rightarrow> width_constants list \<Rightarrow> genesis_config \<Rightarrow> (genesis_error, hash256) result" where
  "genesis_root H ed tc pcs g = and_then (build_state H ed tc pcs g) (\<lambda>tr. Ok (mt_root tr))"

section \<open>The state it builds\<close>

lemma trie_get_new: "trie_get trie_new = Map.empty"
  by (simp add: trie_get_def trie_new_def fun_eq_iff)

lemma apply_all_map:
  "apply_all H ed tr is = Ok tr' \<Longrightarrow> map_exec H ed (trie_get tr) is = Ok (trie_get tr')"
proof (induction "is" arbitrary: tr)
  case (Cons i "is")
  then obtain v tr1 root where v: "transition ed i (trie_get tr (slot H i)) = Ok v"
    and ins: "trie_insert H tr (slot H i) v = Some (tr1, root)" and r: "apply_all H ed tr1 is = Ok tr'"
    by (auto simp: apply_step_def Let_def result_simps)
  from Cons.IH [OF r] v trie_insert_get [OF ins] show ?case by (simp del: fun_upd_apply)
qed simp

lemma map_exec_other:
  "map_exec H ed m is = Ok m' \<Longrightarrow> s \<notin> slot H ` set is \<Longrightarrow> m' s = m s"
proof (induction "is" arbitrary: m)
  case (Cons i "is")
  then obtain v where "map_exec H ed (m(slot H i \<mapsto> v)) is = Ok m'" by (auto simp: result_simps)
  from Cons.IH [OF this] Cons.prems(2) show ?case by simp
qed simp

text \<open>The instructions before and after the council record.\<close>

definition genesis_head :: "genesis_config \<Rightarrow> instruction list" where
  "genesis_head g = map (SetGasAsset \<circ> genesis_asset) (gc_gas_assets g)"

definition genesis_tail :: "genesis_config \<Rightarrow> fee_split option \<Rightarrow> (bytes32 \<times> bytes32) list \<Rightarrow> instruction list" where
  "genesis_tail g fsp jwks =
     (let market = (case gc_fee_market g of Some m \<Rightarrow> m | None \<Rightarrow> fee_market_default) in
      [SetFeeMarket (mc_base_fee_floor market) (mc_gas_target market)] @ (case fsp of Some s \<Rightarrow> [SetFeeSplit s] | None \<Rightarrow> [])
      @ map (\<lambda>(i, h). SetJwk i h True) jwks @ map credit_of (gc_allocations g))"

lemma apply_all_append:
  "apply_all H ed tr (is @ js) = and_then (apply_all H ed tr is) (\<lambda>tr'. apply_all H ed tr' js)"
  by (induction "is" arbitrary: tr) (auto simp: and_then_assoc split_def intro!: and_then_cong)

lemma build_state_parts:
  assumes "build_state H ed tc pcs g = Ok tr"
  obtains tr1 tr2 fsp jwks where "genesis_validate tc pcs g = Ok ()" "apply_all H ed trie_new (genesis_head g) = Ok tr1"
    "install_council H tc (gc_council g) tr1 = Ok tr2" "fee_split_of g = Ok fsp" "jwk_hashes tc pcs g = Ok jwks"
    "apply_all H ed tr2 (genesis_tail g fsp jwks) = Ok tr"
  using assms that
  by (auto simp: build_state_def and_then_Ok_iff Let_def genesis_head_def genesis_tail_def apply_all_append comp_def)

text \<open>The slots a genesis state is written to.\<close>

definition genesis_slots :: "text_codecs \<Rightarrow> width_constants list \<Rightarrow> genesis_config \<Rightarrow> slot_id set" where
  "genesis_slots tc pcs g = {CouncilSlot, FeeMarketSlot} \<union> (if gc_fee_split g = None then {} else {FeeSplitSlot})
     \<union> (AssetSlot \<circ> ga_asset) ` set (gc_gas_assets g)
     \<union> (case jwk_hashes tc pcs g of Ok js \<Rightarrow> (\<lambda>(i, h). JwkSlot i h) ` set js | _ \<Rightarrow> {})
     \<union> (AccountSlot \<circ> al_address) ` set (gc_allocations g)"

definition allocated :: "genesis_config \<Rightarrow> l2address \<Rightarrow> asset_id \<Rightarrow> nat" where
  "allocated g a x = (\<Sum>l\<leftarrow>filter (\<lambda>l. al_address l = a \<and> al_asset l = x) (gc_allocations g). unat (al_amount l))"

lemma genesis_head_slots: "slot_of ` set (genesis_head g) = (AssetSlot \<circ> ga_asset) ` set (gc_gas_assets g)"
  by (auto simp: genesis_head_def genesis_asset_def image_iff)

lemma genesis_tail_slots:
  assumes "jwk_hashes tc pcs g = Ok jwks" "fee_split_of g = Ok fsp"
  shows "slot_of ` set (genesis_tail g fsp jwks) \<subseteq> genesis_slots tc pcs g - {CouncilSlot}"
proof -
  have "fsp = None" if "gc_fee_split g = None" using assms(2) that by (simp add: fee_split_of_def)
  then show ?thesis
    using assms(1) by (fastforce simp: genesis_tail_def genesis_slots_def credit_of_def Let_def split: option.splits)
qed

lemma sum_zero_list: "\<forall>x\<in>set xs. f x = 0 \<Longrightarrow> (\<Sum>x\<leftarrow>xs. f x) = (0 :: nat)"
  by (induction xs) auto

lemma genesis_tail_effect:
  "(\<Sum>i\<leftarrow>genesis_tail g fsp jwks. advances i a) = 0" "(\<Sum>i\<leftarrow>genesis_tail g fsp jwks. takes i a x) = 0"
  "(\<Sum>i\<leftarrow>genesis_tail g fsp jwks. gives i a x) = allocated g a x"
proof -
  let ?set = "genesis_tail g fsp jwks"
  show "(\<Sum>i\<leftarrow>?set. advances i a) = 0" "(\<Sum>i\<leftarrow>?set. takes i a x) = 0"
    by (rule sum_zero_list; auto simp: genesis_tail_def credit_of_def Let_def split: option.splits)+
  have "(\<Sum>i\<leftarrow>map (\<lambda>(i, h). SetJwk i h True) jwks. gives i a x) = 0"
    by (rule sum_zero_list) auto
  moreover have "(\<Sum>i\<leftarrow>map credit_of ls. gives i a x)
      = (\<Sum>l\<leftarrow>filter (\<lambda>l. al_address l = a \<and> al_asset l = x) ls. unat (al_amount l))" for ls
    by (induction ls) (auto simp: credit_of_def)
  ultimately show "(\<Sum>i\<leftarrow>?set. gives i a x) = allocated g a x"
    by (auto simp: genesis_tail_def allocated_def Let_def split: option.splits)
qed

lemma genesis_head_effect:
  "(\<Sum>i\<leftarrow>genesis_head g. advances i a) = 0" "(\<Sum>i\<leftarrow>genesis_head g. takes i a x) = 0"
  "(\<Sum>i\<leftarrow>genesis_head g. gives i a x) = 0"
  by (rule sum_zero_list; auto simp: genesis_head_def)+

definition council_of :: "council_config \<Rightarrow> bytes32 list \<Rightarrow> council" where
  "council_of c ms = \<lparr>members = ms, threshold = co_threshold c, epoch = 0, guardian_threshold = co_guardian_threshold c\<rparr>"

lemma install_council_get:
  assumes "install_council H tc config tr = Ok tr'"
  shows "trie_get tr' = (case config of None \<Rightarrow> trie_get tr
    | Some c \<Rightarrow> (case decode_members tc 0 (co_members c) of
        Ok ms \<Rightarrow> (trie_get tr)(council_key H \<mapsto> council_encode (council_of c ms)) | _ \<Rightarrow> trie_get tr))"
  using assms trie_insert_get
  by (fastforce simp: install_council_def result_simps council_of_def split: option.splits)

lemma decode_members_length: "decode_members tc n ms = Ok ks \<Longrightarrow> length ks = length ms"
  by (induction ms arbitrary: n ks) (auto simp: result_simps)

lemma genesis_validate_council:
  assumes "genesis_validate tc pcs g = Ok ()" "gc_council g = Some c"
  obtains ms where "decode_members tc 0 (co_members c) = Ok ms" "0 < threshold (council_of c ms)"
    "unat (threshold (council_of c ms)) \<le> length ms" "guardian_threshold (council_of c ms) \<le> threshold (council_of c ms)"
proof -
  from assms have "check_council tc c = Ok ()" by (auto simp: genesis_validate_def result_simps)
  then obtain ms where ms: "decode_members tc 0 (co_members c) = Ok ms" and t: "co_threshold c \<noteq> 0"
    "unat (co_threshold c) \<le> length (co_members c)" "co_guardian_threshold c \<le> co_threshold c"
    by (auto simp: check_council_def result_simps not_less split: if_splits)
  with that [OF ms] decode_members_length [OF ms] show thesis by (simp add: council_of_def word_gt_0)
qed

lemma check_rates_Ok: "check_rates as = Ok () \<longleftrightarrow> (\<forall>a\<in>set as. ga_rate a \<noteq> 0)"
  by (induction as) auto

text \<open>What a run of instructions leaves in a slot: nothing new where none is written, something where one is.\<close>

lemma exec_untouched:
  assumes "map_exec H ed m is = Ok m'" "inj_on (slot_key H) (insert s S)" "slot_of ` set is \<subseteq> S" "s \<notin> slot_of ` set is"
  shows "m' (slot_key H s) = m (slot_key H s)"
proof (rule map_exec_other [OF assms(1)])
  have "slot_key H s \<noteq> slot_key H (slot_of i)" if "i \<in> set is" for i
    using inj_onD [OF assms(2), of s "slot_of i"] assms(3,4) that by auto
  then show "slot_key H s \<notin> slot H ` set is" by (auto simp: slot_slot_key)
qed

lemma exec_written: "map_exec H ed m is = Ok m' \<Longrightarrow> m k \<noteq> None \<or> k \<in> slot H ` set is \<Longrightarrow> m' k \<noteq> None"
  by (induction "is" arbitrary: m) (auto simp: result_simps)

lemma genesis_asset_fields: "wa_asset (genesis_asset a) = ga_asset a" "wa_rate (genesis_asset a) = ga_rate a"
  by (simp_all add: genesis_asset_def)

lemma exec_assets:
  assumes "map_exec H ed m (map (SetGasAsset \<circ> genesis_asset) as) = Ok m'"
    "inj_on (slot_key H) (insert (AssetSlot x) ((AssetSlot \<circ> ga_asset) ` set as))"
  shows "m' (slot_key H (AssetSlot x)) = (case find (\<lambda>a. ga_asset a = x) (rev as) of
     Some a \<Rightarrow> Some (asset_encode (genesis_asset a)) | None \<Rightarrow> m (slot_key H (AssetSlot x)))"
  using assms
proof (induction as arbitrary: m' rule: rev_induct)
  case (snoc a as)
  from snoc.prems(1) obtain m1 where m1: "map_exec H ed m (map (SetGasAsset \<circ> genesis_asset) as) = Ok m1"
    and m': "m' = m1(slot_key H (AssetSlot (ga_asset a)) \<mapsto> asset_encode (genesis_asset a))"
    by (auto simp: map_exec_append result_simps keys_slot_key genesis_asset_fields comp_def split: if_splits)
  have "inj_on (slot_key H) (insert (AssetSlot x) ((AssetSlot \<circ> ga_asset) ` set as))"
    by (rule inj_on_subset [OF snoc.prems(2)]) auto
  from snoc.IH [OF m1 this] have ih: "m1 (slot_key H (AssetSlot x)) = (case find (\<lambda>a. ga_asset a = x) (rev as) of
     Some a \<Rightarrow> Some (asset_encode (genesis_asset a)) | None \<Rightarrow> m (slot_key H (AssetSlot x)))" .
  show ?case
  proof (cases "ga_asset a = x")
    case False
    then have "slot_key H (AssetSlot x) \<noteq> slot_key H (AssetSlot (ga_asset a))"
      using inj_onD [OF snoc.prems(2), of "AssetSlot x" "AssetSlot (ga_asset a)"] by auto
    with ih False show ?thesis by (simp add: m')
  qed (simp add: m')
qed simp

lemma exec_jwks:
  assumes "map_exec H ed m (map (\<lambda>(i, h). SetJwk i h True) js) = Ok m'" "(i, h) \<in> set js"
  shows "m' (slot_key H (JwkSlot i h)) = Some (encode_jwk_record True)"
proof -
  have "m' k = Some (encode_jwk_record True)" if "map_exec H ed m (map (\<lambda>(i, h). SetJwk i h True) js) = Ok m'"
    "m k = Some (encode_jwk_record True) \<or> k \<in> (\<lambda>(i, h). slot_key H (JwkSlot i h)) ` set js" for k js m
    using that
  proof (induction js arbitrary: m)
    case (Cons j js)
    obtain i h where j: "j = (i, h)" by (cases j)
    have "map_exec H ed (m(slot_key H (JwkSlot i h) \<mapsto> encode_jwk_record True)) (map (\<lambda>(i, h). SetJwk i h True) js) = Ok m'"
      using Cons.prems(1) by (simp add: j keys_slot_key)
    from Cons.IH [OF this] Cons.prems(2) show ?case by (cases "k = slot_key H (JwkSlot i h)") (simp_all add: j)
  qed simp
  from this [OF assms(1)] assms(2) show ?thesis by force
qed

text \<open>
  The record a configuration puts in each slot that is not an account's: the last one configured where an
  asset is named twice, the council in epoch zero, the fee market with the default one's base
  fee unless the floor is above it, and the keys of the identity providers as current.
\<close>

fun genesis_record :: "text_codecs \<Rightarrow> width_constants list \<Rightarrow> genesis_config \<Rightarrow> slot_id \<Rightarrow> bytes option" where
  "genesis_record tc pcs g (AssetSlot x) =
     map_option (asset_encode \<circ> genesis_asset) (find (\<lambda>a. ga_asset a = x) (rev (gc_gas_assets g)))"
| "genesis_record tc pcs g CouncilSlot =
     (case gc_council g of
        None \<Rightarrow> None
      | Some c \<Rightarrow> (case decode_members tc 0 (co_members c) of Ok ms \<Rightarrow> Some (council_encode (council_of c ms)) | _ \<Rightarrow> None))"
| "genesis_record tc pcs g FeeMarketSlot =
     (let config = (case gc_fee_market g of Some m \<Rightarrow> m | None \<Rightarrow> fee_market_default) in
      Some (market_encode \<lparr>fm_base_fee = max DEFAULT_BASE_FEE_FLOOR (mc_base_fee_floor config), fm_floor = mc_base_fee_floor config,
        fm_target = mc_gas_target config, fm_window_ts = 0, fm_window_gas = 0\<rparr>))"
| "genesis_record tc pcs g FeeSplitSlot =
     map_option (\<lambda>c. split_encode \<lparr>fs_beneficiaries = sc_beneficiaries c, fs_burn = sc_burn c\<rparr>) (gc_fee_split g)"
| "genesis_record tc pcs g (JwkSlot i h) =
     (case jwk_hashes tc pcs g of Ok js \<Rightarrow> if (i, h) \<in> set js then Some (encode_jwk_record True) else None | _ \<Rightarrow> None)"
| "genesis_record tc pcs g _ = None"

lemma genesis_record_None: "s \<notin> genesis_slots tc pcs g \<Longrightarrow> genesis_record tc pcs g s = None"
  by (cases s) (auto simp: genesis_slots_def find_None_iff split: option.splits result.splits if_splits)

text \<open>The states between the parts of the build.\<close>

lemma build_state_maps:
  assumes "build_state H ed tc pcs g = Ok tr"
  obtains m1 m2 m3 m4 m5 jwks where "map_exec H ed Map.empty (genesis_head g) = Ok m1"
    "m2 = (case gc_council g of None \<Rightarrow> m1
      | Some c \<Rightarrow> (case decode_members tc 0 (co_members c) of Ok ms \<Rightarrow> m1(council_key H \<mapsto> council_encode (council_of c ms)) | _ \<Rightarrow> m1))"
    "map_exec H ed m2 (case gc_fee_market g of Some m \<Rightarrow> [SetFeeMarket (mc_base_fee_floor m) (mc_gas_target m)]
       | None \<Rightarrow> [SetFeeMarket (mc_base_fee_floor fee_market_default) (mc_gas_target fee_market_default)]) = Ok m3"
    "map_exec H ed m3 (case gc_fee_split g of Some c \<Rightarrow> [SetFeeSplit \<lparr>fs_beneficiaries = sc_beneficiaries c, fs_burn = sc_burn c\<rparr>]
       | None \<Rightarrow> []) = Ok m4"
    "jwk_hashes tc pcs g = Ok jwks" "map_exec H ed m4 (map (\<lambda>(i, h). SetJwk i h True) jwks) = Ok m5"
    "map_exec H ed m5 (map credit_of (gc_allocations g)) = Ok (trie_get tr)"
proof -
  from assms obtain tr1 tr2 fsp jwks where h: "apply_all H ed trie_new (genesis_head g) = Ok tr1"
    and c: "install_council H tc (gc_council g) tr1 = Ok tr2" and f: "fee_split_of g = Ok fsp"
    and j: "jwk_hashes tc pcs g = Ok jwks" and t: "apply_all H ed tr2 (genesis_tail g fsp jwks) = Ok tr"
    by (rule build_state_parts)
  have fsp: "(case fsp of Some x \<Rightarrow> [SetFeeSplit x] | None \<Rightarrow> [])
      = (case gc_fee_split g of Some c \<Rightarrow> [SetFeeSplit \<lparr>fs_beneficiaries = sc_beneficiaries c, fs_burn = sc_burn c\<rparr>] | None \<Rightarrow> [])"
    using f by (auto simp: fee_split_of_def Let_def result_simps split: option.splits)
  have mkt: "[SetFeeMarket (mc_base_fee_floor (case gc_fee_market g of Some m \<Rightarrow> m | None \<Rightarrow> fee_market_default))
        (mc_gas_target (case gc_fee_market g of Some m \<Rightarrow> m | None \<Rightarrow> fee_market_default))]
      = (case gc_fee_market g of Some m \<Rightarrow> [SetFeeMarket (mc_base_fee_floor m) (mc_gas_target m)]
       | None \<Rightarrow> [SetFeeMarket (mc_base_fee_floor fee_market_default) (mc_gas_target fee_market_default)])"
    by (simp split: option.splits)
  from apply_all_map [OF t] obtain m3 m4 m5 where
    "map_exec H ed (trie_get tr2) (case gc_fee_market g of Some m \<Rightarrow> [SetFeeMarket (mc_base_fee_floor m) (mc_gas_target m)]
       | None \<Rightarrow> [SetFeeMarket (mc_base_fee_floor fee_market_default) (mc_gas_target fee_market_default)]) = Ok m3"
    "map_exec H ed m3 (case gc_fee_split g of Some c \<Rightarrow> [SetFeeSplit \<lparr>fs_beneficiaries = sc_beneficiaries c, fs_burn = sc_burn c\<rparr>]
       | None \<Rightarrow> []) = Ok m4"
    "map_exec H ed m4 (map (\<lambda>(i, h). SetJwk i h True) jwks) = Ok m5"
    "map_exec H ed m5 (map credit_of (gc_allocations g)) = Ok (trie_get tr)"
    unfolding genesis_tail_def Let_def fsp mkt map_exec_append and_then_Ok_iff by blast
  with that apply_all_map [OF h] install_council_get [OF c] j show thesis by (simp add: trie_get_new)
qed

lemma credit_slots: "slot_of ` set (map credit_of ls) = (AccountSlot \<circ> al_address) ` set ls"
  by (force simp: credit_of_def)

lemma genesis_records:
  assumes b: "build_state H ed tc pcs g = Ok tr" and inj: "inj_on (slot_key H) (insert s (genesis_slots tc pcs g))"
    and s: "\<And>a. s \<noteq> AccountSlot a"
  shows "trie_get tr (slot_key H s) = genesis_record tc pcs g s"
proof -
  obtain m1 m2 m3 m4 m5 jwks where m: "map_exec H ed Map.empty (genesis_head g) = Ok m1"
    "m2 = (case gc_council g of None \<Rightarrow> m1
      | Some c \<Rightarrow> (case decode_members tc 0 (co_members c) of Ok ms \<Rightarrow> m1(council_key H \<mapsto> council_encode (council_of c ms)) | _ \<Rightarrow> m1))"
    "map_exec H ed m2 (case gc_fee_market g of Some m \<Rightarrow> [SetFeeMarket (mc_base_fee_floor m) (mc_gas_target m)]
       | None \<Rightarrow> [SetFeeMarket (mc_base_fee_floor fee_market_default) (mc_gas_target fee_market_default)]) = Ok m3"
    "map_exec H ed m3 (case gc_fee_split g of Some c \<Rightarrow> [SetFeeSplit \<lparr>fs_beneficiaries = sc_beneficiaries c, fs_burn = sc_burn c\<rparr>]
       | None \<Rightarrow> []) = Ok m4"
    "jwk_hashes tc pcs g = Ok jwks" "map_exec H ed m4 (map (\<lambda>(i, h). SetJwk i h True) jwks) = Ok m5"
    "map_exec H ed m5 (map credit_of (gc_allocations g)) = Ok (trie_get tr)" by (rule build_state_maps [OF b])
  let ?k = "slot_key H s"
  note keep = exec_untouched [OF _ inj]
  have k1: "m1 ?k = None" if "\<And>x. s \<noteq> AssetSlot x"
    using keep [OF m(1)] that by (auto simp: genesis_head_slots genesis_slots_def)
  have k2: "m2 ?k = m1 ?k" if "s \<noteq> CouncilSlot"
    using inj_onD [OF inj, of s CouncilSlot] that m(2)
    by (auto simp: keys_slot_key genesis_slots_def split: option.splits result.splits)
  have k3: "m3 ?k = m2 ?k" if "s \<noteq> FeeMarketSlot"
    using keep [OF m(3)] that by (cases "gc_fee_market g") (simp_all add: genesis_slots_def)
  have k4: "m4 ?k = m3 ?k" if "s \<noteq> FeeSplitSlot"
    using keep [OF m(4)] that m(4) by (cases "gc_fee_split g") (simp_all add: genesis_slots_def)
  have k5: "m5 ?k = m4 ?k" if "\<And>i h. (i, h) \<in> set jwks \<Longrightarrow> s \<noteq> JwkSlot i h"
    using keep [OF m(6)] that m(5) by (fastforce simp: genesis_slots_def)
  have k6: "trie_get tr ?k = m5 ?k"
    using keep [OF m(7)] s unfolding credit_slots by (auto simp: genesis_slots_def)
  show ?thesis
  proof (cases s)
    case (AssetSlot x)
    have "inj_on (slot_key H) (insert (AssetSlot x) ((AssetSlot \<circ> ga_asset) ` set (gc_gas_assets g)))"
      by (rule inj_on_subset [OF inj]) (auto simp: AssetSlot genesis_slots_def)
    from exec_assets [OF m(1) [unfolded genesis_head_def] this] k2 k3 k4 k5 k6 AssetSlot show ?thesis
      by (simp split: option.splits)
  next
    case CouncilSlot
    then show ?thesis using k1 k3 k4 k5 k6 m(2) by (simp add: keys_slot_key split: option.splits result.splits)
  next
    case FeeMarketSlot
    then have "m2 ?k = None" using k1 k2 by simp
    then have "m3 ?k = genesis_record tc pcs g s"
      using m(3) FeeMarketSlot by (auto simp: keys_slot_key decode_fee_market_def fee_market_genesis_def result_simps split: option.splits if_splits)
    then show ?thesis using k4 k5 k6 FeeMarketSlot by simp
  next
    case FeeSplitSlot
    then have "m3 ?k = None" using k1 k2 k3 by simp
    then have "m4 ?k = genesis_record tc pcs g s"
      using m(4) FeeSplitSlot by (auto simp: keys_slot_key result_simps split: option.splits)
    then show ?thesis using k5 k6 FeeSplitSlot by simp
  next
    case (JwkSlot i h)
    show ?thesis
    proof (cases "(i, h) \<in> set jwks")
      case True
      with exec_jwks [OF m(6) this] k6 m(5) JwkSlot show ?thesis by simp
    next
      case False
      then have "m5 ?k = m4 ?k" by (intro k5) (auto simp: JwkSlot)
      with k1 k2 k3 k4 k6 m(5) JwkSlot False show ?thesis by simp
    qed
  qed (use s k1 k2 k3 k4 k5 k6 in simp_all)
qed

lemma genesis_nothing_else:
  assumes b: "build_state H ed tc pcs g = Ok tr" and k: "k \<notin> slot_key H ` genesis_slots tc pcs g"
  shows "trie_get tr k = None"
proof -
  from b obtain tr1 tr2 fsp jwks where h: "apply_all H ed trie_new (genesis_head g) = Ok tr1"
    and c: "install_council H tc (gc_council g) tr1 = Ok tr2" and f: "fee_split_of g = Ok fsp"
    and j: "jwk_hashes tc pcs g = Ok jwks" and t: "apply_all H ed tr2 (genesis_tail g fsp jwks) = Ok tr"
    by (rule build_state_parts)
  have away: "k \<notin> slot H ` set is" if "slot_of ` set is \<subseteq> genesis_slots tc pcs g" for "is"
    using k that by (auto simp: slot_slot_key)
  have "k \<noteq> council_key H" using k by (auto simp: keys_slot_key genesis_slots_def)
  then have "trie_get tr2 k = trie_get tr1 k"
    unfolding install_council_get [OF c] by (simp split: option.splits result.splits)
  moreover have "trie_get tr1 k = None"
    using map_exec_other [OF apply_all_map [OF h] away] by (auto simp: genesis_head_slots genesis_slots_def trie_get_new)
  moreover have "trie_get tr k = trie_get tr2 k"
    using genesis_tail_slots [OF j f] by (intro map_exec_other [OF apply_all_map [OF t] away]) blast
  ultimately show ?thesis by simp
qed

lemma genesis_accounts:
  assumes b: "build_state H ed tc pcs g = Ok tr" and inj: "inj_on (slot_key H) (insert (AccountSlot a) (genesis_slots tc pcs g))"
  shows "nonce (acct H (trie_get tr) a) = 0" "unat (balance (acct H (trie_get tr) a) x) = allocated g a x"
proof -
  from b obtain tr1 tr2 fsp jwks where h: "apply_all H ed trie_new (genesis_head g) = Ok tr1"
    and c: "install_council H tc (gc_council g) tr1 = Ok tr2" and f: "fee_split_of g = Ok fsp"
    and j: "jwk_hashes tc pcs g = Ok jwks" and t: "apply_all H ed tr2 (genesis_tail g fsp jwks) = Ok tr"
    by (rule build_state_parts)
  note hm = apply_all_map [OF h] and tm = apply_all_map [OF t]
  have ih: "inj_on (slot_key H) (insert (AccountSlot a) (slot_of ` set (genesis_head g)))"
    by (rule inj_on_subset [OF inj]) (auto simp: genesis_head_slots genesis_slots_def)
  have it: "inj_on (slot_key H) (insert (AccountSlot a) (slot_of ` set (genesis_tail g fsp jwks)))"
    by (rule inj_on_subset [OF inj]) (use genesis_tail_slots [OF j f] in blast)
  have ne: "council_key H \<noteq> slot_key H (AccountSlot a)"
    using inj_onD [OF inj, of "AccountSlot a" CouncilSlot] by (auto simp: keys_slot_key genesis_slots_def)
  have "acct H (trie_get tr2) a = acct H (trie_get tr1) a"
    using ne unfolding install_council_get [OF c] by (auto simp: acct_other keys_slot_key split: option.splits result.splits)
  moreover have "acct H (trie_get trie_new) a = account_new" by (simp add: acct_def decode_account_def trie_get_new)
  ultimately show "nonce (acct H (trie_get tr) a) = 0" "unat (balance (acct H (trie_get tr) a) x) = allocated g a x"
    using exec_effect(1) [OF hm ih] exec_effect(1) [OF tm it] exec_effect(2) [OF hm ih, of x] exec_effect(2) [OF tm it, of x]
    by (simp_all add: genesis_head_effect genesis_tail_effect account_new_def balance_def unsigned_eq_0_iff)
qed

lemma genesis_account_stored:
  assumes b: "build_state H ed tc pcs g = Ok tr" and inj: "inj_on (slot_key H) (insert (AccountSlot a) (genesis_slots tc pcs g))"
  shows "trie_get tr (slot_key H (AccountSlot a)) = None \<longleftrightarrow> a \<notin> al_address ` set (gc_allocations g)"
proof (cases "AccountSlot a \<in> genesis_slots tc pcs g")
  case True
  then have a: "a \<in> al_address ` set (gc_allocations g)"
    by (auto simp: genesis_slots_def split: if_splits result.splits)
  obtain m where "map_exec H ed m (map credit_of (gc_allocations g)) = Ok (trie_get tr)" by (rule build_state_maps [OF b])
  moreover have "slot_key H (AccountSlot a) \<in> slot H ` set (map credit_of (gc_allocations g))"
    using a by (force simp: credit_of_def keys_slot_key)
  ultimately show ?thesis using a exec_written by blast
next
  case False
  then have "slot_key H (AccountSlot a) \<notin> slot_key H ` genesis_slots tc pcs g"
    using inj by (auto simp: inj_on_def)
  from genesis_nothing_else [OF b this] False show ?thesis by (auto simp: genesis_slots_def)
qed

section \<open>Properties\<close>

text \<open>
  C29.  The genesis state holds what its configuration says and nothing else.  When a
  configuration builds, then wherever the slots it writes and a slot asked about have distinct keys: an account is stored
  just when it has an allocation, and starts at nonce zero with exactly the sum of its allocations in each asset; every
  other slot holds exactly the configured record or nothing, that is the record of each fee asset,
  the council in epoch zero if there is one, the fee market, the fee split if there is one and the keys of the identity
  providers.  No other key of the state holds anything.  No fee asset is free, and a council has a threshold its
  members can reach and a guardian threshold no higher.
\<close>

theorem genesis_state:
  assumes b: "build_state H ed tc pcs g = Ok tr"
    and inj: "inj_on (slot_key H) (insert s (genesis_slots tc pcs g))"
  shows "(case s of
        AccountSlot a \<Rightarrow> (trie_get tr (slot_key H s) = None \<longleftrightarrow> a \<notin> al_address ` set (gc_allocations g))
          \<and> nonce (acct H (trie_get tr) a) = 0 \<and> (\<forall>x. unat (balance (acct H (trie_get tr) a) x) = allocated g a x)
      | _ \<Rightarrow> trie_get tr (slot_key H s) = genesis_record tc pcs g s)
    \<and> (\<forall>k. k \<notin> slot_key H ` genesis_slots tc pcs g \<longrightarrow> trie_get tr k = None)
    \<and> (\<forall>y\<in>set (gc_gas_assets g). ga_rate y \<noteq> 0)
    \<and> (case gc_council g of
        None \<Rightarrow> True
      | Some c \<Rightarrow> \<exists>ms. decode_members tc 0 (co_members c) = Ok ms \<and> 0 < co_threshold c
          \<and> unat (co_threshold c) \<le> length ms \<and> co_guardian_threshold c \<le> co_threshold c)"
proof (intro conjI)
  have v: "genesis_validate tc pcs g = Ok ()" by (rule build_state_parts [OF b])
  show "case s of
        AccountSlot a \<Rightarrow> (trie_get tr (slot_key H s) = None \<longleftrightarrow> a \<notin> al_address ` set (gc_allocations g))
          \<and> nonce (acct H (trie_get tr) a) = 0 \<and> (\<forall>x. unat (balance (acct H (trie_get tr) a) x) = allocated g a x)
      | _ \<Rightarrow> trie_get tr (slot_key H s) = genesis_record tc pcs g s"
  proof (cases "\<exists>a. s = AccountSlot a")
    case True
    then obtain a where a: "s = AccountSlot a" by blast
    show ?thesis using genesis_account_stored [OF b inj [unfolded a]] genesis_accounts [OF b inj [unfolded a]] by (simp add: a)
  next
    case False
    with genesis_records [OF b inj] show ?thesis by (auto split: slot_id.splits)
  qed
  show "\<forall>k. k \<notin> slot_key H ` genesis_slots tc pcs g \<longrightarrow> trie_get tr k = None"
    using genesis_nothing_else [OF b] by blast
  show "\<forall>y\<in>set (gc_gas_assets g). ga_rate y \<noteq> 0"
    using v by (simp add: genesis_validate_def and_then_Ok_iff check_rates_Ok)
  show "case gc_council g of
        None \<Rightarrow> True
      | Some c \<Rightarrow> \<exists>ms. decode_members tc 0 (co_members c) = Ok ms \<and> 0 < co_threshold c
          \<and> unat (co_threshold c) \<le> length ms \<and> co_guardian_threshold c \<le> co_threshold c"
  proof (cases "gc_council g")
    case (Some cc)
    from genesis_validate_council [OF v Some] show ?thesis by (auto simp: Some council_of_def)
  qed simp
qed

text \<open>A configuration with a council of one, a gas asset and an allocation.\<close>

definition genesis_hash :: hasher where
  "genesis_hash bs = (if length bs = 25 then 0 else if length bs = 61 then demo_key 3 else demo_hash bs)"

definition genesis_codecs :: text_codecs where
  "genesis_codecs = \<lparr>tc_hex_decode = (\<lambda>_. Some (replicate 32 0)), tc_hex_encode = (\<lambda>bs. bs),
     tc_b64url_decode = Some, tc_b64url_encode = (\<lambda>bs. bs)\<rparr>"

definition sample_genesis :: genesis_config where
  "sample_genesis = (genesis_dev [\<lparr>al_address = FEE_VAULT, al_asset = 1, al_amount = 1300\<rparr>])
     \<lparr>gc_gas_assets := [\<lparr>ga_asset = 1, ga_symbol = [], ga_rate = 1000000, ga_intrinsic_gas = 10000, ga_enabled = True\<rparr>],
      gc_council := Some \<lparr>co_members = [str_bytes ''00''], co_threshold = 1, co_guardian_threshold = 0\<rparr>\<rparr>"

definition sample_market :: fee_market where
  "sample_market = fee_market_genesis DEFAULT_BASE_FEE_FLOOR DEFAULT_GAS_TARGET"

definition sample_council :: council where
  "sample_council = \<lparr>members = [from_be (replicate 32 0)], threshold = 1, epoch = 0, guardian_threshold = 0\<rparr>"

definition genesis_ops :: "trie_op list" where
  "genesis_ops = [OpInsert (demo_key 2) (asset_encode demo_asset), OpInsert 0 (council_encode sample_council),
     OpInsert (demo_key 1) (market_encode sample_market), OpInsert (demo_key 3) (account_encode (demo_account 0 1300))]"

lemma genesis_slots_keys:
  "slot_key genesis_hash (AccountSlot a) = demo_key 3" "slot_key genesis_hash FeeMarketSlot = demo_key 1"
  "slot_key genesis_hash (AssetSlot x) = demo_key 2" "slot_key genesis_hash CouncilSlot = 0"
  by (simp_all add: slot_key_def genesis_hash_def demo_hash_def frames_def push_framed_def region_lengths)

lemma genesis_nodes:
  "node_hash genesis_hash (Internal l r) = 10 * l + r" "node_hash genesis_hash (Leaf k v) = drop_bit 254 k + 1"
  by (simp_all add: genesis_hash_def demo_hash_def node_hash_def commit_def digest_def
      node_preimage.simps enc_new_def enc_field_def push_framed_def domain_defs from_be_to_be)

lemma genesis_values:
  "hash_value genesis_hash (account_encode (demo_account n b)) = 3" "hash_value genesis_hash (asset_encode demo_asset) = 3"
  "hash_value genesis_hash (market_encode m) = 3" "hash_value genesis_hash (council_encode sample_council) = 3"
  by (simp_all add: hash_value_def digest_def genesis_hash_def demo_hash_def account_encode_def demo_account_def w_balance_def
     asset_encode_def demo_asset_def w_string_def w_bytes_def market_encode_def council_encode_def sample_council_def)

lemma genesis_splits:
  "st_split 0 0 3 (demo_key 2) 3 = SN (SL 0 3) (SL (demo_key 2) 3)"
  by (subst st_split.simps, use demo_bits demo_splits in \<open>simp add: MAX_DEPTH_def\<close>)

lemma genesis_history:
  "history_nodes genesis_hash SE genesis_ops =
    {Leaf (demo_key 2) 3, Leaf 0 3, Internal 1 3, Leaf (demo_key 1) 3, Internal 1 2, Internal 12 3,
     Leaf (demo_key 3) 3, Internal 3 4, Internal 12 34}"
  unfolding genesis_ops_def
  by (simp add: demo_bits [unfolded One_nat_def] genesis_splits genesis_nodes genesis_values) blast

lemma genesis_collision_free: "collision_free genesis_hash (history_nodes genesis_hash SE genesis_ops)"
  unfolding genesis_history collision_free_iff by (simp add: genesis_nodes ZERO_def)

lemma genesis_steps:
  "transition sample_ed (SetGasAsset (genesis_asset \<lparr>ga_asset = 1, ga_symbol = [], ga_rate = 1000000,
     ga_intrinsic_gas = 10000, ga_enabled = True\<rparr>)) cur = Ok (asset_encode demo_asset)"
  "transition sample_ed (SetFeeMarket DEFAULT_BASE_FEE_FLOOR DEFAULT_GAS_TARGET) None = Ok (market_encode sample_market)"
  "transition sample_ed (credit_of \<lparr>al_address = FEE_VAULT, al_asset = 1, al_amount = 1300\<rparr>) None
     = Ok (account_encode (demo_account 0 1300))"
  by (simp_all add: genesis_asset_def demo_asset_def decode_fee_market_def sample_market_def fee_market_genesis_def
      DEFAULT_BASE_FEE_FLOOR_def DEFAULT_GAS_TARGET_def credit_of_def decode_account_def account_new_def credit_def
      balance_def checked_add_def account_store_def demo_account_def)

lemma sample_slots:
  "slot_of (SetGasAsset (genesis_asset \<lparr>ga_asset = 1, ga_symbol = y, ga_rate = r, ga_intrinsic_gas = n, ga_enabled = e\<rparr>)) = AssetSlot 1"
  "slot_of (SetFeeMarket fl target) = FeeMarketSlot"
  "slot_of (credit_of \<lparr>al_address = a, al_asset = x, al_amount = m\<rparr>) = AccountSlot a"
  by (simp_all add: genesis_asset_def credit_of_def)

lemma sample_key: "tc_hex_decode tc (str_bytes ''00'') = Some (replicate 32 0) \<Longrightarrow> decode_key tc (str_bytes ''00'') = Some (from_be (replicate 32 0))"
  by (simp add: decode_key_def strip_0x_def str_bytes_def)

lemma sample_validate:
  assumes "tc_hex_decode tc (str_bytes ''00'') = Some (replicate 32 0)"
  shows "genesis_validate tc [] sample_genesis = Ok ()"
  using sample_key [OF assms]
  by (simp add: genesis_validate_def sample_genesis_def genesis_dev_def check_council_def
      fee_split_of_def keyless_config_of_def jwk_hashes_def)

lemma sample_build:
  assumes tc: "tc_hex_decode tc (str_bytes ''00'') = Some (replicate 32 0)"
  obtains tr where "build_state genesis_hash sample_ed tc [] sample_genesis = Ok tr" "trie_run genesis_hash trie_new genesis_ops = Some tr"
proof -
  obtain tr where run: "trie_run genesis_hash trie_new genesis_ops = Some tr"
    by (rule trie_run_new [OF genesis_collision_free])
  then obtain tr1 r1 tr2 r2 tr3 r3 r4 where
    i: "trie_insert genesis_hash trie_new (demo_key 2) (asset_encode demo_asset) = Some (tr1, r1)"
       "trie_insert genesis_hash tr1 0 (council_encode sample_council) = Some (tr2, r2)"
       "trie_insert genesis_hash tr2 (demo_key 1) (market_encode sample_market) = Some (tr3, r3)"
       "trie_insert genesis_hash tr3 (demo_key 3) (account_encode (demo_account 0 1300)) = Some (tr, r4)"
    by (auto simp: genesis_ops_def split: option.splits)
  have g: "trie_get tr1 = [demo_key 2 \<mapsto> asset_encode demo_asset]"
    "trie_get tr2 = (trie_get tr1)(0 \<mapsto> council_encode sample_council)"
    "trie_get tr3 = (trie_get tr2)(demo_key 1 \<mapsto> market_encode sample_market)"
    using i(1-3)[THEN trie_insert_get] by (simp_all add: trie_get_new)
  have ap: "apply_step genesis_hash sample_ed trie_new (SetGasAsset (genesis_asset \<lparr>ga_asset = 1, ga_symbol = [],
      ga_rate = 1000000, ga_intrinsic_gas = 10000, ga_enabled = True\<rparr>)) = Ok (tr1, r1)"
    "apply_step genesis_hash sample_ed tr2 (SetFeeMarket DEFAULT_BASE_FEE_FLOOR DEFAULT_GAS_TARGET) = Ok (tr3, r3)"
    "apply_step genesis_hash sample_ed tr3 (credit_of \<lparr>al_address = FEE_VAULT, al_asset = 1, al_amount = 1300\<rparr>) = Ok (tr, r4)"
    using i g unfolding apply_step_def slot_slot_key sample_slots
    by (simp_all add: genesis_steps genesis_slots_keys Let_def del: transition.simps slot.simps)
  have "install_council genesis_hash tc (Some \<lparr>co_members = [str_bytes ''00''], co_threshold = 1,
      co_guardian_threshold = 0\<rparr>) tr1 = Ok tr2"
    using i(2) sample_key [OF tc] by (simp add: install_council_def keys_slot_key genesis_slots_keys
        sample_council_def)
  with ap have "build_state genesis_hash sample_ed tc [] sample_genesis = Ok tr"
    unfolding build_state_def sample_validate [OF tc]
    by (simp add: sample_genesis_def genesis_dev_def fee_market_default_def fee_split_of_def jwk_hashes_def
        del: transition.simps slot.simps)
  then show thesis using run by (rule that)
qed

theorem genesis_state_witness:
  "\<exists>tr. build_state genesis_hash sample_ed genesis_codecs [] sample_genesis = Ok tr
     \<and> balance (acct genesis_hash (trie_get tr) FEE_VAULT) 1 = 1300
     \<and> trie_get tr (slot_key genesis_hash (AssetSlot 1)) = Some (asset_encode demo_asset)
     \<and> trie_get tr (council_key genesis_hash) = Some (council_encode sample_council)"
proof -
  obtain tr where tr: "build_state genesis_hash sample_ed genesis_codecs [] sample_genesis = Ok tr"
    by (rule sample_build [of genesis_codecs]) (simp add: genesis_codecs_def)
  have slots: "genesis_slots genesis_codecs [] sample_genesis = {CouncilSlot, FeeMarketSlot, AssetSlot 1, AccountSlot FEE_VAULT}"
    by (simp add: genesis_slots_def sample_genesis_def genesis_dev_def jwk_hashes_def insert_commute)
  have "inj_on (slot_key genesis_hash) {CouncilSlot, FeeMarketSlot, AssetSlot 1, AccountSlot FEE_VAULT}"
    by (simp add: genesis_slots_keys)
  then have i: "inj_on (slot_key genesis_hash) (insert s (genesis_slots genesis_codecs [] sample_genesis))"
    if "s \<in> {CouncilSlot, FeeMarketSlot, AssetSlot 1, AccountSlot FEE_VAULT}" for s
    unfolding slots using insert_absorb [OF that] by simp
  have "unat (balance (acct genesis_hash (trie_get tr) FEE_VAULT) 1) = 1300"
    using genesis_state [OF tr i [of "AccountSlot FEE_VAULT"]] by (simp add: allocated_def sample_genesis_def genesis_dev_def)
  moreover have "trie_get tr (slot_key genesis_hash (AssetSlot 1)) = Some (asset_encode demo_asset)"
    using genesis_state [OF tr i [of "AssetSlot 1"]]
    by (simp add: sample_genesis_def genesis_dev_def genesis_asset_def demo_asset_def)
  moreover have "trie_get tr (council_key genesis_hash) = Some (council_encode sample_council)"
    using genesis_state [OF tr i [of CouncilSlot]]
    by (simp add: keys_slot_key sample_genesis_def genesis_dev_def genesis_codecs_def decode_key_def strip_0x_def
        council_of_def sample_council_def)
  ultimately show ?thesis using tr by (auto simp: word_unat_eq_iff)
qed

end
