(* ===== verification/Act.thy ===== *)
theory Act
  imports Sena_Prelude
begin

text \<open>
  Computations that act on a state or on the world outside the program and may fail on the way:
  calls to L1, to the file system, and the agents built from them.  \<open>ensures\<close> states what an action
  does in the style of a Hoare triple with a second postcondition for failures; \<open>preserving\<close> is
  the interface of the relations every composed action respects because its parts do.
\<close>

section \<open>Actions\<close>

text \<open>A computation that may fail or panic and changes a state either way.\<close>

type_synonym ('s, 'e, 'a) act = "'s \<Rightarrow> ('e, 'a) result \<times> 's"

definition give :: "('e, 'a) result \<Rightarrow> ('s, 'e, 'a) act" where
  "give r = (\<lambda>s. (r, s))"

definition bind_act :: "('s, 'e, 'a) act \<Rightarrow> ('a \<Rightarrow> ('s, 'e, 'b) act) \<Rightarrow> ('s, 'e, 'b) act" where
  "bind_act m f = (\<lambda>s. case m s of
     (Ok x, s') \<Rightarrow> f x s' | (Err e, s') \<Rightarrow> (Err e, s') | (Panic, s') \<Rightarrow> (Panic, s'))"

definition map_err_act :: "('e \<Rightarrow> 'f) \<Rightarrow> ('s, 'e, 'a) act \<Rightarrow> ('s, 'f, 'a) act" where
  "map_err_act g m = (\<lambda>s. case m s of (r, s') \<Rightarrow> (map_err g r, s'))"

text \<open>
  What an action does, from the states it may start in: on success the value and the state
  it ends in, on an error or a panic the state it leaves.
\<close>

definition ensures ::
    "('s \<Rightarrow> bool) \<Rightarrow> ('s, 'e, 'a) act \<Rightarrow> ('a \<Rightarrow> 's \<Rightarrow> bool) \<Rightarrow> ('s \<Rightarrow> bool) \<Rightarrow> bool" where
  "ensures P m Q E \<longleftrightarrow>
     (\<forall>s x s'. P s \<longrightarrow> m s = (Ok x, s') \<longrightarrow> Q x s') \<and> (\<forall>s r s'. P s \<longrightarrow> m s = (r, s') \<longrightarrow> \<not> is_ok r \<longrightarrow> E s')"

named_theorems ensures_rules \<open>what composed actions ensure, from their parts\<close>

lemma ensuresD:
  assumes "ensures P m Q E" "P s"
  shows "m s = (Ok x, s') \<Longrightarrow> Q x s'" and "m s = (r, s') \<Longrightarrow> \<not> is_ok r \<Longrightarrow> E s'"
  using assms by (auto simp: ensures_def)

lemma ensuresI:
  "(\<And>s x s'. P s \<Longrightarrow> m s = (Ok x, s') \<Longrightarrow> Q x s') \<Longrightarrow> (\<And>s r s'. P s \<Longrightarrow> m s = (r, s') \<Longrightarrow> \<not> is_ok r \<Longrightarrow> E s') \<Longrightarrow>
   ensures P m Q E"
  by (auto simp: ensures_def)

lemma bind_act_Ok_iff:
  "bind_act m f s = (Ok y, s') \<longleftrightarrow> (\<exists>x s1. m s = (Ok x, s1) \<and> f x s1 = (Ok y, s'))"
  by (auto simp: bind_act_def split: prod.splits result.splits)

lemma bind_give [simp]: "bind_act (give (Ok x)) f = f x" "bind_act (give (Err e)) f = give (Err e)" "bind_act (give Panic) f = give Panic"
  by (simp_all add: bind_act_def give_def)

lemma bind_unit [simp]: "bind_act m (\<lambda>_. give (Ok ())) = m"
  by (auto simp: bind_act_def give_def fun_eq_iff split: prod.splits result.splits)

lemma bind_act_failed:
  "\<not> is_ok r \<Longrightarrow> bind_act m f s = (r, s') \<Longrightarrow>
   (\<exists>r1. m s = (r1, s') \<and> \<not> is_ok r1) \<or> (\<exists>x s1. m s = (Ok x, s1) \<and> f x s1 = (r, s'))"
  by (cases "m s", cases "fst (m s)") (auto simp: bind_act_def)

lemma ensures_bind [ensures_rules]:
  assumes m: "ensures P m R E" and f: "\<And>x. ensures (R x) (f x) Q E"
  shows "ensures P (bind_act m f) Q E"
proof (rule ensuresI)
  fix s y s' assume "P s" "bind_act m f s = (Ok y, s')"
  then show "Q y s'" by (auto simp: bind_act_Ok_iff dest!: ensuresD(1) [OF m] ensuresD(1) [OF f])
next
  fix s r s' assume s: "P s" "bind_act m f s = (r, s')" "\<not> is_ok r"
  from bind_act_failed [OF s(3,2)] show "E s'"
    using ensuresD(2) [OF m s(1)] ensuresD(1) [OF m s(1)] ensuresD(2) [OF f] s(3) by metis
qed

lemma ensures_give: "(\<And>s x. P s \<Longrightarrow> r = Ok x \<Longrightarrow> Q x s) \<Longrightarrow> (\<And>s. P s \<Longrightarrow> \<not> is_ok r \<Longrightarrow> E s) \<Longrightarrow> ensures P (give r) Q E"
  by (rule ensuresI) (auto simp: give_def)

lemma is_ok_map_err [simp]: "is_ok (map_err g r) = is_ok r"
  by (cases r) auto

lemma ensures_map_err [ensures_rules]: "ensures P m Q E \<Longrightarrow> ensures P (map_err_act g m) Q E"
  unfolding ensures_def map_err_act_def by (auto simp: map_err_Ok_iff split: prod.splits)

lemma ensures_weaken:
  "ensures P' m Q' E' \<Longrightarrow> (\<And>s. P s \<Longrightarrow> P' s) \<Longrightarrow> (\<And>x s. Q' x s \<Longrightarrow> Q x s) \<Longrightarrow> (\<And>s. E' s \<Longrightarrow> E s) \<Longrightarrow> ensures P m Q E"
  unfolding ensures_def by blast

lemma ensures_if [ensures_rules]:
  "(c \<Longrightarrow> ensures P m Q E) \<Longrightarrow> (\<not> c \<Longrightarrow> ensures P m' Q E) \<Longrightarrow> ensures P (if c then m else m') Q E"
  by simp

section \<open>What composed actions respect\<close>

definition preserves :: "('s \<Rightarrow> 's \<Rightarrow> bool) \<Rightarrow> ('s, 'e, 'a) act \<Rightarrow> bool" where
  "preserves R m \<longleftrightarrow> (\<forall>s r s'. m s = (r, s') \<longrightarrow> R s s')"

lemma preservesI: "(\<And>s r s'. m s = (r, s') \<Longrightarrow> R s s') \<Longrightarrow> preserves R m"
  unfolding preserves_def by blast

lemma preservesD: "preserves R m \<Longrightarrow> m s = (r, s') \<Longrightarrow> R s s'"
  unfolding preserves_def by blast

locale preserving =
  fixes R :: "'s \<Rightarrow> 's \<Rightarrow> bool"
  assumes same: "R s s"
    and further: "R s t \<Longrightarrow> R t u \<Longrightarrow> R s u"
begin

lemma gives: "preserves R (give r)"
  by (auto intro!: preservesI same simp: give_def)

lemma binds:
  assumes "preserves R m" "\<And>x. preserves R (f x)"
  shows "preserves R (bind_act m f)"
proof (rule preservesI)
  fix s r s' assume b: "bind_act m f s = (r, s')"
  obtain r1 s1 where m: "m s = (r1, s1)" by (cases "m s")
  note k = preservesD [OF assms(1) m]
  show "R s s'"
  proof (cases r1)
    case (Ok x)
    then have "f x s1 = (r, s')" using b m by (simp add: bind_act_def)
    from further [OF k preservesD [OF assms(2) this]] show ?thesis .
  qed (use b m k in \<open>auto simp: bind_act_def\<close>)
qed

lemma renames: "preserves R m \<Longrightarrow> preserves R (map_err_act g m)"
  unfolding preserves_def map_err_act_def by (auto split: prod.splits)

lemma chooses: "(b \<Longrightarrow> preserves R m) \<Longrightarrow> (\<not> b \<Longrightarrow> preserves R m') \<Longrightarrow> preserves R (if b then m else m')"
  by simp

lemma ensured: "preserves R m \<Longrightarrow> ensures (R s) m (\<lambda>_. R s) (R s)"
  by (rule ensuresI) (blast intro: further dest: preservesD)+

end

end
