(* ===== verification/Json.thy ===== *)
theory Json
  imports Text
begin

text \<open>
  JSON values as \<open>serde_json::Value\<close> has them; a float is its bit pattern.  Members are read as the
  code reads them: indexing gives null where there is nothing.
\<close>

datatype json =
    JNull
  | JBool bool
  | JPosInt u64
  | JNegInt u64
  | JFloat u64
  | JString bytes
  | JArray "json list"
  | JObject "(bytes \<times> json) list"

fun as_str :: "json \<Rightarrow> bytes option" where
  "as_str (JString s) = Some s"
| "as_str _ = None"

fun as_array :: "json \<Rightarrow> json list option" where
  "as_array (JArray l) = Some l"
| "as_array _ = None"

fun as_bool :: "json \<Rightarrow> bool option" where
  "as_bool (JBool b) = Some b"
| "as_bool _ = None"

fun json_at :: "json \<Rightarrow> bytes \<Rightarrow> json" where
  "json_at (JObject fs) k = (case map_of fs k of Some v \<Rightarrow> v | None \<Rightarrow> JNull)"
| "json_at _ k = JNull"

fun as_u64 :: "json \<Rightarrow> u64 option" where
  "as_u64 (JPosInt n) = Some n"
| "as_u64 _ = None"

fun json_get :: "json \<Rightarrow> bytes \<Rightarrow> json option" where
  "json_get (JObject fs) k = map_of fs k"
| "json_get _ k = None"

end
