(* ===== verification/L1.thy ===== *)
theory L1
  imports Act Json Assertion
begin

text \<open>
  The client side of the L1 contracts (\<open>l1.rs\<close>): the arguments of calls, reading the JSON answers
  of views and events, the identifiers shared with the contracts, and the Aptos implementation
  of the interface over what the command line tool and the fullnode answer.  L1 itself is a
  parameter: every call takes the world and gives an answer and the world after it, so that
  whatever others do on L1 between two calls is allowed for.
\<close>

section \<open>Arguments\<close>

datatype l1_arg =
    AAddress bytes
  | ABytes bytes
  | ABytesList "bytes list"
  | AU8 u8
  | AU64 u64
  | AU64List "u64 list"
  | AU128 u128
  | ABool bool

definition hex_0x :: "text_codecs \<Rightarrow> bytes \<Rightarrow> bytes" where
  "hex_0x tc b = str_bytes ''0x'' @ tc_hex_encode tc b"

definition typed :: "string \<Rightarrow> json \<Rightarrow> json" where
  "typed t v = JObject [(str_bytes ''type'', JString (str_bytes t)), (str_bytes ''value'', v)]"

fun arg_to_json :: "text_codecs \<Rightarrow> l1_arg \<Rightarrow> json" where
  "arg_to_json tc (AAddress a) = typed ''address'' (JString a)"
| "arg_to_json tc (ABytes b) = typed ''hex'' (JString (hex_0x tc b))"
| "arg_to_json tc (ABytesList l) = typed ''hex'' (JArray (map (\<lambda>b. JString (hex_0x tc b)) l))"
| "arg_to_json tc (AU8 v) = typed ''u8'' (JPosInt (ucast v))"
| "arg_to_json tc (AU64 v) = typed ''u64'' (JString (radix_text 10 (unat v)))"
| "arg_to_json tc (AU64List l) = typed ''u64'' (JArray (map (\<lambda>v. JString (radix_text 10 (unat v))) l))"
| "arg_to_json tc (AU128 v) = typed ''u128'' (JString (to_decimal v))"
| "arg_to_json tc (ABool v) = typed ''bool'' (JBool v)"

section \<open>Errors and answers\<close>

text \<open>The text of a malformed answer is not kept.\<close>

datatype l1_error =
    L1Transport bytes
  | L1Rejected bytes bytes
  | L1Malformed

fun is_abort :: "l1_error \<Rightarrow> u64 \<Rightarrow> bool" where
  "is_abort (L1Rejected f st) code \<longleftrightarrow> contains st (str_bytes ''(0x'' @ radix_text 16 (unat code) @ str_bytes '')'')"
| "is_abort _ code \<longleftrightarrow> False"

record published_batch =
  pb_assertion :: bytes
  pb_timestamp :: u64
  pb_base_fee :: u128
  pb_fee_recipient :: l2address
  pb_tx_bytes :: "bytes list"
  pb_tx_starts :: "u64 list"

record l1_record =
  lr_parent :: bytes
  lr_proposer :: bytes
  lr_pre_state_root :: hash256
  lr_post_state_root :: hash256
  lr_timestamp :: u64
  lr_tx_count :: u64
  lr_tx_root :: hash256
  lr_trace_length :: u64
  lr_bond :: u128
  lr_posted_at :: u64
  lr_status :: u8

definition PENDING :: u8 where "PENDING = 0"
definition CHALLENGED :: u8 where "CHALLENGED = 1"
definition FINALIZED :: u8 where "FINALIZED = 2"
definition REJECTED :: u8 where "REJECTED = 3"

record dispute_state =
  dst_exists :: bool
  dst_stage :: u8
  dst_turn :: u8
  dst_lo :: u64
  dst_hi :: u64
  dst_has_offer :: bool
  dst_offered :: "hash256 list"
  dst_deadline :: u64

text \<open>The interface the relayer and the watcher use, over a world.\<close>

record 'w l1 =
  l1_submit :: "bytes \<Rightarrow> l1_arg list \<Rightarrow> ('w, l1_error, u64) act"
  l1_view :: "bytes \<Rightarrow> l1_arg list \<Rightarrow> ('w, l1_error, json list) act"
  l1_now :: "('w, l1_error, u64) act"
  l1_published_batch :: "bytes \<Rightarrow> bytes \<Rightarrow> ('w, l1_error, published_batch option) act"
  l1_address :: bytes
  l1_contract :: bytes

section \<open>Reading answers\<close>

definition str_of :: "json \<Rightarrow> (l1_error, bytes) result" where
  "str_of v = ok_or (as_str v) L1Malformed"

definition bytes_of :: "text_codecs \<Rightarrow> json \<Rightarrow> (l1_error, bytes) result" where
  "bytes_of tc v = and_then (str_of v) (\<lambda>s. ok_or (tc_hex_decode tc (strip_0x s)) L1Malformed)"

definition hash_of :: "text_codecs \<Rightarrow> json \<Rightarrow> (l1_error, hash256) result" where
  "hash_of tc v = and_then (bytes_of tc v) (\<lambda>b. if length b = 32 then Ok (from_be b) else Err L1Malformed)"

fun u128_of :: "json \<Rightarrow> (l1_error, u128) result" where
  "u128_of (JString s) = ok_or (u128_from_str s) L1Malformed"
| "u128_of (JPosInt n) = Ok (ucast n)"
| "u128_of _ = Err L1Malformed"

definition u64_of :: "json \<Rightarrow> (l1_error, u64) result" where
  "u64_of v = and_then (u128_of v) (\<lambda>n. if unat n < 2 ^ 64 then Ok (ucast n) else Err L1Malformed)"

definition u8_of :: "json \<Rightarrow> (l1_error, u8) result" where
  "u8_of v = and_then (u64_of v) (\<lambda>n. if unat n < 2 ^ 8 then Ok (ucast n) else Err L1Malformed)"

definition bool_of :: "json \<Rightarrow> (l1_error, bool) result" where
  "bool_of v = ok_or (as_bool v) L1Malformed"

fun read_all :: "(json \<Rightarrow> ('e, 'a) result) \<Rightarrow> json list \<Rightarrow> ('e, 'a list) result" where
  "read_all f [] = Ok []"
| "read_all f (v # vs) = and_then (f v) (\<lambda>x. and_then (read_all f vs) (\<lambda>xs. Ok (x # xs)))"

lemma u128_of_not_Panic [simp]: "u128_of v \<noteq> Panic"
  by (cases v) auto

lemma read_all_not_Panic: "(\<And>v. f v \<noteq> Panic) \<Longrightarrow> read_all f vs \<noteq> Panic"
  by (induction vs) (auto simp: and_then_Panic_iff)

definition parse_record :: "text_codecs \<Rightarrow> json list \<Rightarrow> (l1_error, l1_record) result" where
  "parse_record tc v =
     (if length v \<noteq> 11 then Err L1Malformed
      else
        and_then (bytes_of tc (v ! 0)) (\<lambda>parent.
        and_then (str_of (v ! 1)) (\<lambda>proposer.
        and_then (hash_of tc (v ! 2)) (\<lambda>pre.
        and_then (hash_of tc (v ! 3)) (\<lambda>post.
        and_then (u64_of (v ! 4)) (\<lambda>timestamp.
        and_then (u64_of (v ! 5)) (\<lambda>tx_count.
        and_then (hash_of tc (v ! 6)) (\<lambda>tx_root.
        and_then (u64_of (v ! 7)) (\<lambda>trace_length.
        and_then (u128_of (v ! 8)) (\<lambda>bond.
        and_then (u64_of (v ! 9)) (\<lambda>posted_at.
        and_then (u8_of (v ! 10)) (\<lambda>st.
          Ok \<lparr>lr_parent = parent, lr_proposer = proposer, lr_pre_state_root = pre, lr_post_state_root = post,
            lr_timestamp = timestamp, lr_tx_count = tx_count, lr_tx_root = tx_root, lr_trace_length = trace_length,
            lr_bond = bond, lr_posted_at = posted_at, lr_status = st\<rparr>))))))))))))"

definition parse_dispute :: "text_codecs \<Rightarrow> json list \<Rightarrow> (l1_error, dispute_state) result" where
  "parse_dispute tc v =
     (if length v \<noteq> 8 then Err L1Malformed
      else
        and_then (ok_or (as_array (v ! 6)) L1Malformed) (\<lambda>l.
        and_then (read_all (hash_of tc) l) (\<lambda>offered.
        and_then (bool_of (v ! 0)) (\<lambda>ex.
        and_then (u8_of (v ! 1)) (\<lambda>stage.
        and_then (u8_of (v ! 2)) (\<lambda>turn.
        and_then (u64_of (v ! 3)) (\<lambda>lo.
        and_then (u64_of (v ! 4)) (\<lambda>hi.
        and_then (bool_of (v ! 5)) (\<lambda>has_offer.
        and_then (u64_of (v ! 7)) (\<lambda>deadline.
          Ok \<lparr>dst_exists = ex, dst_stage = stage, dst_turn = turn, dst_lo = lo, dst_hi = hi,
            dst_has_offer = has_offer, dst_offered = offered, dst_deadline = deadline\<rparr>))))))))))"

definition json_list :: "json \<Rightarrow> string \<Rightarrow> (l1_error, json list) result" where
  "json_list data k = ok_or (as_array (json_at data (str_bytes k))) L1Malformed"

definition parse_batch_event :: "text_codecs \<Rightarrow> json \<Rightarrow> (l1_error, published_batch) result" where
  "parse_batch_event tc data =
     and_then (bytes_of tc (json_at data (str_bytes ''assertion''))) (\<lambda>assertion.
     and_then (u64_of (json_at data (str_bytes ''timestamp''))) (\<lambda>timestamp.
     and_then (u128_of (json_at data (str_bytes ''base_fee''))) (\<lambda>base_fee.
     and_then (bytes_of tc (json_at data (str_bytes ''fee_recipient''))) (\<lambda>recipient.
     if length recipient \<noteq> 32 then Err L1Malformed
     else
       and_then (json_list data ''tx_bytes'') (\<lambda>tb.
       and_then (read_all (bytes_of tc) tb) (\<lambda>tx_bytes.
       and_then (json_list data ''tx_starts'') (\<lambda>tst.
       and_then (read_all u64_of tst) (\<lambda>tx_starts.
         Ok \<lparr>pb_assertion = assertion, pb_timestamp = timestamp, pb_base_fee = base_fee,
           pb_fee_recipient = from_be recipient, pb_tx_bytes = tx_bytes, pb_tx_starts = tx_starts\<rparr>))))))))"

definition first_value :: "json list \<Rightarrow> (l1_error, json) result" where
  "first_value v = (case v of [] \<Rightarrow> Err L1Malformed | x # _ \<Rightarrow> Ok x)"

definition assertion_at :: "text_codecs \<Rightarrow> 'w l1 \<Rightarrow> u64 \<Rightarrow> ('w, l1_error, bytes) act" where
  "assertion_at tc c index =
     bind_act (l1_view c (str_bytes ''assertions::assertion_at'') [AAddress (l1_contract c), AU64 index]) (\<lambda>v.
       give (and_then (first_value v) (bytes_of tc)))"

section \<open>Identifiers shared with the contracts\<close>

definition l1_assertion_id :: "hasher \<Rightarrow> bytes32 \<Rightarrow> hash256 \<Rightarrow> hash256 \<Rightarrow> hash256 \<Rightarrow> u64 \<Rightarrow> u128 \<Rightarrow> bytes32" where
  "l1_assertion_id H parent pre claimed batch_commitment trace_length bond =
     assertion_id H \<lparr>as_parent = parent, as_proposer = 0, as_pre_state_root = pre, as_post_state_root = claimed,
       as_batch_commitment = batch_commitment, as_trace_length = trace_length, as_bond = bond\<rparr>"

definition genesis_id :: "hasher \<Rightarrow> hash256 \<Rightarrow> bytes32" where
  "genesis_id H genesis_root = l1_assertion_id H 0 ZERO genesis_root ZERO 0 0"

definition dispute_id :: "text_codecs \<Rightarrow> bytes \<Rightarrow> bytes \<Rightarrow> ('e, bytes) result" where
  "dispute_id tc assertion challenger =
     and_then (or_panic (tc_hex_decode tc (pad_left 64 (trim_0x challenger)))) (\<lambda>addr. Ok (assertion @ addr))"

lemma genesis_id_assertion: "genesis_id H root = assertion_id H (genesis_assertion root)"
  by (simp add: genesis_id_def l1_assertion_id_def genesis_assertion_def GENESIS_def ZERO_def)

section \<open>The Aptos implementation\<close>

text \<open>
  Running the command line tool on a call and parsing what it prints, fetching a page from the
  fullnode and printing a JSON value are parameters.
\<close>

record 'w aptos_host =
  ah_run :: "json \<Rightarrow> ('w, bytes, json) act"
  ah_view :: "json \<Rightarrow> ('w, bytes, json) act"
  ah_get :: "bytes \<Rightarrow> ('w, l1_error, json) act"
  ah_show :: "json \<Rightarrow> bytes"

record aptos_cli =
  ap_contract :: bytes
  ap_account :: bytes

definition json_file :: "text_codecs \<Rightarrow> bytes \<Rightarrow> l1_arg list \<Rightarrow> json" where
  "json_file tc function_id args =
     JObject [(str_bytes ''function_id'', JString function_id), (str_bytes ''type_args'', JArray []),
       (str_bytes ''args'', JArray (map (arg_to_json tc) args))]"

definition aptos_submit :: "text_codecs \<Rightarrow> 'w aptos_host \<Rightarrow> aptos_cli \<Rightarrow> bytes \<Rightarrow> l1_arg list \<Rightarrow> ('w, l1_error, u64) act" where
  "aptos_submit tc host cli function_name args =
     bind_act (map_err_act L1Transport (ah_run host (json_file tc (ap_contract cli @ str_bytes ''::'' @ function_name) args))) (\<lambda>parsed.
       let res = json_at parsed (str_bytes ''Result'') in
       if as_bool (json_at res (str_bytes ''success'')) = Some True then give (u64_of (json_at res (str_bytes ''gas_used'')))
       else
         give (Err (L1Rejected function_name (case as_str (json_at res (str_bytes ''vm_status'')) of
           Some st \<Rightarrow> st | None \<Rightarrow> ah_show host (json_at parsed (str_bytes ''Error''))))))"

definition aptos_view :: "text_codecs \<Rightarrow> 'w aptos_host \<Rightarrow> aptos_cli \<Rightarrow> bytes \<Rightarrow> l1_arg list \<Rightarrow> ('w, l1_error, json list) act" where
  "aptos_view tc host cli function_name args =
     bind_act (map_err_act L1Transport (ah_view host (json_file tc (ap_contract cli @ str_bytes ''::'' @ function_name) args))) (\<lambda>parsed.
       give (ok_or (as_array (json_at parsed (str_bytes ''Result'')))
         (L1Rejected function_name (ah_show host (json_at parsed (str_bytes ''Error''))))))"

definition aptos_now :: "'w aptos_host \<Rightarrow> ('w, l1_error, u64) act" where
  "aptos_now host =
     bind_act (ah_get host []) (\<lambda>info.
       give (and_then (u64_of (json_at info (str_bytes ''ledger_timestamp''))) (\<lambda>t. Ok (t div 1000000))))"

fun split_colons :: "bytes \<Rightarrow> bytes \<times> bytes" where
  "split_colons (a # b # s) =
     (if [a, b] = str_bytes ''::'' then ([], s) else (let (l, r) = split_colons (b # s) in (a # l, r)))"
| "split_colons s = (s, [])"

definition same_type :: "bytes \<Rightarrow> bytes \<Rightarrow> bool" where
  "same_type a b =
     (let norm = (\<lambda>t. let (addr, rest) = split_colons t in trim_zeros (trim_0x addr) @ str_bytes ''::'' @ rest)
      in norm a = norm b)"

text \<open>The events of a page, in order, and the first one that publishes the assertion.\<close>

definition page_events :: "json list \<Rightarrow> json list" where
  "page_events txs = concat (map (\<lambda>tx. case as_array (json_at tx (str_bytes ''events'')) of Some es \<Rightarrow> es | None \<Rightarrow> []) txs)"

fun find_batch :: "text_codecs \<Rightarrow> bytes \<Rightarrow> bytes \<Rightarrow> json list \<Rightarrow> (l1_error, published_batch option) result" where
  "find_batch tc event_type assertion [] = Ok None"
| "find_batch tc event_type assertion (e # es) =
     (if (case as_str (json_at e (str_bytes ''type'')) of Some t \<Rightarrow> same_type t event_type | None \<Rightarrow> False)
      then and_then (parse_batch_event tc (json_at e (str_bytes ''data''))) (\<lambda>batch.
        if pb_assertion batch = assertion then Ok (Some batch) else find_batch tc event_type assertion es)
      else find_batch tc event_type assertion es)"

definition page_path :: "bytes \<Rightarrow> u64 \<Rightarrow> bytes" where
  "page_path proposer start = str_bytes ''/accounts/'' @ proposer @ str_bytes ''/transactions?start=''
     @ radix_text 10 (unat start) @ str_bytes ''&limit=100''"

text \<open>The loop over pages; \<open>None\<close> is a loop that never ends.\<close>

partial_function (option) scan_pages ::
    "text_codecs \<Rightarrow> 'w aptos_host \<Rightarrow> bytes \<Rightarrow> bytes \<Rightarrow> bytes \<Rightarrow> u64 \<Rightarrow> 'w \<Rightarrow> ((l1_error, published_batch option) result \<times> 'w) option" where
  "scan_pages tc host event_type proposer assertion start w =
     (case ah_get host (page_path proposer start) w of
        (Err e, w') \<Rightarrow> Some (Err e, w')
      | (Panic, w') \<Rightarrow> Some (Panic, w')
      | (Ok page, w') \<Rightarrow>
          (case as_array page of
             None \<Rightarrow> Some (Err L1Malformed, w')
           | Some txs \<Rightarrow>
               if txs = [] then Some (Ok None, w')
               else
                 (case find_batch tc event_type assertion (page_events txs) of
                    Ok None \<Rightarrow>
                      (case checked_add start (of_nat (length txs)) of
                         None \<Rightarrow> Some (Panic, w')
                       | Some start' \<Rightarrow> scan_pages tc host event_type proposer assertion start' w')
                  | r \<Rightarrow> Some (r, w'))))"

definition aptos_published_batch ::
    "text_codecs \<Rightarrow> 'w aptos_host \<Rightarrow> aptos_cli \<Rightarrow> bytes \<Rightarrow> bytes \<Rightarrow> 'w \<Rightarrow> ((l1_error, published_batch option) result \<times> 'w) option" where
  "aptos_published_batch tc host cli proposer assertion w =
     scan_pages tc host (ap_contract cli @ str_bytes ''::assertions::BatchPublished'') proposer assertion 0 w"

lemma find_batch_assertion: "find_batch tc ty a es = Ok (Some b) \<Longrightarrow> pb_assertion b = a"
  by (induction es) (auto simp: and_then_Ok_iff split: if_splits)

lemma find_batch_append:
  "find_batch tc ty a es = Ok None \<Longrightarrow> find_batch tc ty a (es @ es') = find_batch tc ty a es'"
  by (induction es) (auto simp: and_then_Ok_iff split: if_splits)

lemma find_batch_stops:
  "find_batch tc ty a es \<noteq> Ok None \<Longrightarrow> find_batch tc ty a (es @ es') = find_batch tc ty a es"
proof (induction es)
  case (Cons e es)
  then show ?case by (cases "parse_batch_event tc (json_at e (str_bytes ''data''))") (auto split: if_splits)
qed simp

lemma page_events_append: "page_events (xs @ ys) = page_events xs @ page_events ys"
  by (simp add: page_events_def)

lemma find_batch_not_Panic: "find_batch tc ty a es \<noteq> Panic"
proof (induction es)
  case (Cons e es)
  have "parse_batch_event tc v \<noteq> Panic" for v
    by (auto simp: parse_batch_event_def bytes_of_def str_of_def u64_of_def json_list_def result_simps
        read_all_not_Panic u128_of_not_Panic split: if_splits)
  with Cons show ?case by (auto simp: and_then_Panic_iff split: if_splits)
qed simp

section \<open>Properties\<close>

text \<open>
  The search for published batch data ends with the right answer.  Where the fullnode pages an
  account's transactions a hundred at a time, the loop over the pages ends, and its answer is that of one pass over all the
  account's events: the first batch published for the assertion asked for, nothing if there is none, or
  an error if an event before it cannot be read; it never panics.
\<close>

lemma published_batch_search:
  assumes pages: "\<And>start w. unat start \<le> length txs \<Longrightarrow>
      \<exists>w'. ah_get host (page_path proposer start) w = (Ok (JArray (take 100 (drop (unat start) txs))), w')"
    and len: "length txs < 2 ^ 64"
  shows "\<exists>r w'. aptos_published_batch tc host cli proposer assertion w = Some (r, w')
    \<and> r = find_batch tc (ap_contract cli @ str_bytes ''::assertions::BatchPublished'') assertion (page_events txs)
    \<and> r \<noteq> Panic \<and> (\<forall>b. r = Ok (Some b) \<longrightarrow> pb_assertion b = assertion)"
proof -
  let ?ty = "ap_contract cli @ str_bytes ''::assertions::BatchPublished''"
  let ?f = "\<lambda>xs. find_batch tc ?ty assertion (page_events xs)"
  have "\<exists>w'. scan_pages tc host ?ty proposer assertion start w = Some (?f (drop (unat start) txs), w')"
    if "unat start \<le> length txs" for start w
    using that
  proof (induction "length txs - unat start" arbitrary: start w rule: less_induct)
    case less
    let ?rest = "drop (unat start) txs" and ?page = "take 100 (drop (unat start) txs)"
    from pages [OF less.prems] obtain w1 where w1: "ah_get host (page_path proposer start) w = (Ok (JArray ?page), w1)" by blast
    show ?case
    proof (cases "?rest = []")
      case True
      then show ?thesis using w1 by (subst scan_pages.simps) (simp add: page_events_def)
    next
      case False
      have app: "?f ?rest = find_batch tc ?ty assertion (page_events ?page @ page_events (drop 100 ?rest))"
        by (simp flip: page_events_append del: drop_drop)
      show ?thesis
      proof (cases "?f ?page = Ok None")
        case None: True
        have add: "unat start + length ?page < 2 ^ 64" using less.prems len by simp
        then have c: "checked_add start (of_nat (length ?page)) = Some (start + of_nat (length ?page))"
          by (simp add: checked_add_def unat_of_nat_small)
        then have u: "unat (start + of_nat (length ?page)) = unat start + length ?page"
          by (simp add: checked_add_Some_iff unat_of_nat_small)
        have pos: "0 < length ?page" and le: "unat start + length ?page \<le> length txs" using False less.prems by auto
        have "drop 100 ?rest = drop (unat start + length ?page) txs"
          by (cases "100 \<le> length txs - unat start") (auto simp: add.commute min_def)
        then have "?f ?rest = ?f (drop (unat (start + of_nat (length ?page))) txs)"
          unfolding app find_batch_append [OF None] u by simp
        moreover obtain w2 where "scan_pages tc host ?ty proposer assertion (start + of_nat (length ?page)) w1
            = Some (?f (drop (unat (start + of_nat (length ?page))) txs), w2)"
        proof -
          have "length txs - unat (start + of_nat (length ?page)) < length txs - unat start"
            unfolding u using pos le by linarith
          from less.hyps [OF this, of w1] le u that show thesis by auto
        qed
        ultimately show ?thesis using w1 False None c
          by (subst scan_pages.simps) auto
      next
        case found: False
        have "?f ?rest = ?f ?page" unfolding app by (rule find_batch_stops [OF found])
        with w1 False found show ?thesis
          by (subst scan_pages.simps) (auto split: result.splits option.splits)
      qed
    qed
  qed
  from this [of 0 w] find_batch_not_Panic [of tc ?ty assertion "page_events txs"] show ?thesis
    by (auto simp: aptos_published_batch_def find_batch_assertion)
qed

text \<open>A history of one transaction with one event, and a fullnode that pages it.\<close>

definition sample_event :: json where
  "sample_event = JObject [(str_bytes ''type'', JString (str_bytes ''0x0cafe::assertions::BatchPublished'')),
     (str_bytes ''data'', JObject [(str_bytes ''assertion'', JString []), (str_bytes ''timestamp'', JString (str_bytes ''5'')),
       (str_bytes ''base_fee'', JPosInt 7), (str_bytes ''fee_recipient'', JString (str_bytes ''00'')),
       (str_bytes ''tx_bytes'', JArray []), (str_bytes ''tx_starts'', JArray [])])]"

definition sample_text :: text_codecs where
  "sample_text = \<lparr>tc_hex_decode = (\<lambda>s. Some (if s = [] then [] else replicate 32 0)), tc_hex_encode = (\<lambda>bs. bs),
     tc_b64url_decode = Some, tc_b64url_encode = (\<lambda>bs. bs)\<rparr>"

definition sample_node :: "json list \<Rightarrow> nat aptos_host" where
  "sample_node txs = \<lparr>ah_run = (\<lambda>_ w. (Err [], w)), ah_view = (\<lambda>_ w. (Err [], w)),
     ah_get = (\<lambda>path w. (Ok (JArray (take 100 (drop (if path = page_path [] 0 then 0 else 1) txs))), w + 1)), ah_show = (\<lambda>_. [])\<rparr>"

lemma sample_page_path: "unat start \<le> 1 \<Longrightarrow> (page_path [] start = page_path [] 0) = (start = 0)"
proof -
  assume "unat start \<le> 1"
  then have "start = 0 \<or> start = 1" by (auto simp: le_Suc_eq word_unat_eq_iff)
  then show ?thesis
    by (auto simp: page_path_def radix_text.simps digit_def)
qed

end
