(* ===== verification/Watcher.thy ===== *)
theory Watcher
  imports L1 Batch Verifier
begin

text \<open>
  The independent verifier (\<open>watcher.rs\<close>): it reads assertions and their batch data from L1,
  re-executes each on its own replica, adopts what is right and challenges what is not, with
  the cheapest evidence, playing bisection games to their end.  L1, the state file and the
  hexadecimal codec are parameters; an action takes and gives back the world together with
  the watcher.
\<close>

section \<open>Replaying a batch\<close>

record replay_view =
  rp_program :: "instruction list"
  rp_states :: "machine_state list"
  rp_tx_starts :: "u64 list"
  rp_fails_at :: "u64 option"
  rp_pre :: merkle_trie
  rp_post :: merkle_trie

datatype fault = Uncompilable nat | StartGap nat | TraceLength | Bisect

definition NO_HONEST_STATE :: bytes where
  "NO_HONEST_STATE = str_bytes ''SENA:v1:no-honest-state''"

definition no_honest_state :: "hasher \<Rightarrow> u64 \<Rightarrow> hash256" where
  "no_honest_state H step = commit H (enc_u64 (enc_new NO_HONEST_STATE) step)"

definition replay_commitment_at :: "hasher \<Rightarrow> replay_view \<Rightarrow> u64 \<Rightarrow> hash256" where
  "replay_commitment_at H r step =
     (if (case rp_fails_at r of Some k \<Rightarrow> step > k | None \<Rightarrow> False) then no_honest_state H step
      else if unat step < length (rp_states r) then commitment H (rp_states r ! unat step)
      else no_honest_state H step)"

fun compile_all ::
    "hasher \<Rightarrow> ed25519 \<Rightarrow> width_constants list \<Rightarrow> batch_context \<Rightarrow> nat \<Rightarrow> instruction list \<Rightarrow> u64 list \<Rightarrow> transaction list
     \<Rightarrow> (nat, instruction list \<times> u64 list) result" where
  "compile_all H ed pcs ctx index program starts [] = Ok (program, starts)"
| "compile_all H ed pcs ctx index program starts (tx # txs) =
     and_then (map_err (\<lambda>_. index) (compile H ed pcs tx ctx)) (\<lambda>c.
       compile_all H ed pcs ctx (index + 1) (program @ c) (starts @ [of_nat (length program)]) txs)"

fun replay_loop ::
    "hasher \<Rightarrow> ed25519 \<Rightarrow> nat \<Rightarrow> instruction list \<Rightarrow> merkle_trie \<Rightarrow> machine_state list
     \<Rightarrow> ('e, machine_state list \<times> u64 option \<times> merkle_trie) result" where
  "replay_loop H ed k [] tr sts = Ok (sts, None, tr)"
| "replay_loop H ed k (i # is) tr sts =
     (case apply_step H ed tr i of
        Ok (tr', root) \<Rightarrow> replay_loop H ed (k + 1) is tr' (sts @ [\<lparr>state_root = root, pc = of_nat k + 1\<rparr>])
      | Err _ \<Rightarrow> Ok (sts, Some (of_nat k), tr)
      | Panic \<Rightarrow> Panic)"

definition replay_batch ::
    "hasher \<Rightarrow> ed25519 \<Rightarrow> width_constants list \<Rightarrow> merkle_trie \<Rightarrow> transaction list \<Rightarrow> batch_context \<Rightarrow> (nat, replay_view) result" where
  "replay_batch H ed pcs pre txs ctx =
     and_then (compile_all H ed pcs ctx 0 [] [] txs) (\<lambda>(program, starts).
     and_then (replay_loop H ed 0 program pre [machine_start (mt_root pre)]) (\<lambda>(sts, fails_at, tr).
       Ok \<lparr>rp_program = program, rp_states = sts, rp_tx_starts = starts, rp_fails_at = fails_at, rp_pre = pre, rp_post = tr\<rparr>))"

fun decode_all :: "nat \<Rightarrow> bytes list \<Rightarrow> (nat, transaction list) result" where
  "decode_all i [] = Ok []"
| "decode_all i (b # bs) =
     and_then (map_err (\<lambda>_. i) (tx_decode b)) (\<lambda>tx. and_then (decode_all (i + 1) bs) (\<lambda>txs. Ok (tx # txs)))"

section \<open>State\<close>

record watch_game =
  gm_assertion :: bytes
  gm_pre_state :: bytes

record watcher_state =
  ws_cursor :: u64
  ws_head :: bytes
  ws_replica :: bytes
  ws_games :: "watch_game list"

record watcher =
  wt_state :: watcher_state
  wt_replica :: merkle_trie

record watcher_config =
  wc_bond :: u128
  wc_keyless :: "keyless_config option"
  wc_keyless_setup :: u8
  wc_keyless_steps_per_tx :: u64

datatype watch_error =
    WatchL1 l1_error
  | WatchState
  | Misconfigured
  | FinalizedFraud bytes
  | MissingData bytes

record watch_report =
  vr_verified :: nat
  vr_challenged :: "(bytes \<times> bytes) list"
  vr_moves :: nat
  vr_concluded :: nat

text \<open>The state file, and everything a watcher is given.\<close>

record ('w, 's) state_file =
  sf_load :: "('w, bytes, 's option) act"
  sf_save :: "'s \<Rightarrow> ('w, bytes, unit) act"

record 'w watch_env =
  we_hash :: hasher
  we_ed :: ed25519
  we_constants :: "width_constants list"
  we_text :: text_codecs
  we_l1 :: "'w l1"
  we_file :: "('w, watcher_state) state_file"
  we_config :: watcher_config

type_synonym ('w, 'a) watch = "('w \<times> watcher, watch_error, 'a) act"

definition on_l1 :: "('w, l1_error, 'a) act \<Rightarrow> ('w, 'a) watch" where
  "on_l1 m = (\<lambda>(w, x). case m w of (r, w') \<Rightarrow> (map_err WatchL1 r, (w', x)))"

definition me :: "('w, watcher) watch" where
  "me = (\<lambda>(w, x). (Ok x, (w, x)))"

definition update_me :: "(watcher \<Rightarrow> watcher) \<Rightarrow> ('w, unit) watch" where
  "update_me f = (\<lambda>(w, x). (Ok (), (w, f x)))"

definition try_act :: "('s, 'e, 'a) act \<Rightarrow> ('s, 'e, 'a option) act" where
  "try_act m = (\<lambda>s. case m s of (Ok x, s') \<Rightarrow> (Ok (Some x), s') | (Err e, s') \<Rightarrow> (Ok None, s') | (Panic, s') \<Rightarrow> (Panic, s'))"

definition unhex :: "text_codecs \<Rightarrow> bytes \<Rightarrow> bytes" where
  "unhex tc s = (case tc_hex_decode tc (trim_0x s) of Some b \<Rightarrow> b | None \<Rightarrow> [])"

definition save_watcher :: "'w watch_env \<Rightarrow> ('w, unit) watch" where
  "save_watcher env = (\<lambda>(w, x).
     let st = (wt_state x)\<lparr>ws_replica := tc_hex_encode (we_text env) (to_bytes (wt_replica x))\<rparr>;
         x' = x\<lparr>wt_state := st\<rparr>
     in case sf_save (we_file env) st w of (r, w') \<Rightarrow> (map_err (\<lambda>_. WatchState) r, (w', x')))"

definition watch_ctx :: "'w watch_env \<Rightarrow> published_batch \<Rightarrow> batch_context" where
  "watch_ctx env batch = \<lparr>bx_timestamp = pb_timestamp batch, bx_keyless = wc_keyless (we_config env),
     bx_base_fee = pb_base_fee batch, bx_fee_recipient = pb_fee_recipient batch\<rparr>"

definition contract_and :: "'w watch_env \<Rightarrow> bytes \<Rightarrow> l1_arg list" where
  "contract_and env b = [AAddress (l1_contract (we_l1 env)), ABytes b]"

definition watch_record :: "'w watch_env \<Rightarrow> bytes \<Rightarrow> ('w, l1_record) watch" where
  "watch_record env i =
     on_l1 (bind_act (l1_view (we_l1 env) (str_bytes ''assertions::record'') (contract_and env i)) (\<lambda>v.
       give (parse_record (we_text env) v)))"

definition watch_batch :: "'w watch_env \<Rightarrow> bytes \<Rightarrow> l1_record \<Rightarrow> ('w, published_batch) watch" where
  "watch_batch env i rec =
     bind_act (on_l1 (l1_published_batch (we_l1 env) (lr_proposer rec) i)) (\<lambda>b.
       give (ok_or b (MissingData (tc_hex_encode (we_text env) i))))"

section \<open>Judging an assertion\<close>

fun find_gap :: "u64 list \<Rightarrow> u64 list \<Rightarrow> nat list \<Rightarrow> ('e, nat option) result" where
  "find_gap own claimed [] = Ok None"
| "find_gap own claimed (i # is) =
     (if length claimed \<le> i then Panic
      else if own ! i \<noteq> claimed ! i then Ok (Some i) else find_gap own claimed is)"

definition judge_batch ::
    "hasher \<Rightarrow> ed25519 \<Rightarrow> width_constants list \<Rightarrow> merkle_trie \<Rightarrow> batch_context \<Rightarrow> published_batch \<Rightarrow> l1_record
     \<Rightarrow> (watch_error, fault option) result" where
  "judge_batch H ed pcs replica ctx batch rec =
     (case decode_all 0 (pb_tx_bytes batch) of
        Panic \<Rightarrow> Panic
      | Err i \<Rightarrow> Ok (Some (Uncompilable i))
      | Ok txs \<Rightarrow>
          if lr_pre_state_root rec \<noteq> mt_root replica then Err WatchState
          else
            (case replay_batch H ed pcs replica txs ctx of
               Panic \<Rightarrow> Panic
             | Err i \<Rightarrow> Ok (Some (Uncompilable i))
             | Ok r \<Rightarrow>
                 and_then (find_gap (rp_tx_starts r) (pb_tx_starts batch) [1..<length (rp_tx_starts r)]) (\<lambda>gap.
                   case gap of
                     Some i \<Rightarrow> Ok (Some (StartGap i))
                   | None \<Rightarrow>
                       if rp_fails_at r = None \<and> of_nat (length (rp_program r)) \<noteq> lr_trace_length rec then Ok (Some TraceLength)
                       else if rp_fails_at r \<noteq> None \<or> mt_root (rp_post r) \<noteq> lr_post_state_root rec then Ok (Some Bisect)
                       else Ok None)))"

definition judge :: "'w watch_env \<Rightarrow> bytes \<Rightarrow> l1_record \<Rightarrow> ('w, fault option) watch" where
  "judge env i rec =
     bind_act (watch_batch env i rec) (\<lambda>batch.
     bind_act me (\<lambda>x.
       give (judge_batch (we_hash env) (we_ed env) (we_constants env) (wt_replica x) (watch_ctx env batch) batch rec)))"

section \<open>Evidence\<close>

definition POSEIDON_STEPS :: u64 where "POSEIDON_STEPS = 69"

definition KEYLESS_JOB :: bytes where "KEYLESS_JOB = str_bytes ''SENA:v1:keyless-job''"

definition keyless_job_id :: "hasher \<Rightarrow> bytes \<Rightarrow> u64 \<Rightarrow> u8 \<Rightarrow> bytes32" where
  "keyless_job_id H tx_bytes timestamp setup =
     commit H (enc_u64 (enc_u64 (enc_field (enc_new KEYLESS_JOB) tx_bytes) timestamp) (ucast setup))"

definition watch_submit :: "'w watch_env \<Rightarrow> string \<Rightarrow> l1_arg list \<Rightarrow> ('w, unit) watch" where
  "watch_submit env f args = bind_act (on_l1 (l1_submit (we_l1 env) (str_bytes f) args)) (\<lambda>_. give (Ok ()))"

definition watch_view :: "'w watch_env \<Rightarrow> string \<Rightarrow> l1_arg list \<Rightarrow> ('w, json list) watch" where
  "watch_view env f args = on_l1 (l1_view (we_l1 env) (str_bytes f) args)"

text \<open>
  The loop that advances a keyless job.  A positive number of steps per transaction ends it
  within \<open>POSEIDON_STEPS\<close> rounds, the fuel it is given; with zero steps it never ends, which is
  the outcome of running out.
\<close>

fun advance_loop :: "'w watch_env \<Rightarrow> bytes32 \<Rightarrow> nat \<Rightarrow> u64 \<Rightarrow> ('w, unit) watch" where
  "advance_loop env job fuel nxt =
     (if nxt < POSEIDON_STEPS then
        (case fuel of
           0 \<Rightarrow> give Panic
         | Suc n \<Rightarrow>
             bind_act (watch_submit env ''keyless_jobs::advance''
               (contract_and env (to_be job) @ [AU64 (wc_keyless_steps_per_tx (we_config env))])) (\<lambda>_.
             bind_act (give (or_panic (checked_add nxt (wc_keyless_steps_per_tx (we_config env))))) (\<lambda>sum.
               advance_loop env job n (min sum POSEIDON_STEPS))))
      else give (Ok ()))"

declare advance_loop.simps [simp del]

definition start_job :: "'w watch_env \<Rightarrow> bytes \<Rightarrow> u64 \<Rightarrow> bytes32 \<Rightarrow> ('w, u64 \<times> bool) watch" where
  "start_job env tx_bytes timestamp job =
     bind_act (watch_submit env ''keyless_jobs::start''
       (contract_and env tx_bytes @ [AU64 timestamp, AU8 (wc_keyless_setup (we_config env))])) (\<lambda>_.
     bind_act (watch_view env ''keyless_jobs::progress'' (contract_and env (to_be job))) (\<lambda>v.
       give (Ok (0, 1 < length v \<and> as_bool (v ! 1) = Some True))))"

definition ensure_keyless_verdict :: "'w watch_env \<Rightarrow> bytes \<Rightarrow> u64 \<Rightarrow> ('w, unit) watch" where
  "ensure_keyless_verdict env tx_bytes timestamp =
     (case tx_decode tx_bytes of
        Panic \<Rightarrow> give Panic
      | Err _ \<Rightarrow> give (Ok ())
      | Ok tx \<Rightarrow>
          (case tx_authenticator tx of
             Ed25519 _ _ \<Rightarrow> give (Ok ())
           | Keyless _ \<Rightarrow>
               let job = keyless_job_id (we_hash env) tx_bytes timestamp (wc_keyless_setup (we_config env)) in
               bind_act (try_act (watch_view env ''keyless_jobs::progress'' (contract_and env (to_be job)))) (\<lambda>progress.
               bind_act (case progress of
                   Some v \<Rightarrow>
                     if length v = 2
                     then bind_act (give (map_err WatchL1 (u128_of (v ! 0)))) (\<lambda>n.
                       give (Ok (if unat n < 2 ^ 64 then ucast n else 0, as_bool (v ! 1) = Some True)))
                     else start_job env tx_bytes timestamp job
                 | None \<Rightarrow> start_job env tx_bytes timestamp job) (\<lambda>(nxt, finished).
                 if finished then give (Ok ())
                 else
                   bind_act (advance_loop env job (unat POSEIDON_STEPS) nxt) (\<lambda>_.
                     watch_submit env ''keyless_jobs::finish'' (contract_and env (to_be job)))))))"

definition leaf_args :: "'w watch_env \<Rightarrow> l1_record \<Rightarrow> published_batch \<Rightarrow> nat \<Rightarrow> bool \<Rightarrow> ('w, l1_arg list) watch" where
  "leaf_args env rec batch i proof_only =
     bind_act (give (build (we_hash env) (zip (pb_tx_starts batch) (pb_tx_bytes batch)))) (\<lambda>tree.
     bind_act (if proof_only then give (Ok ())
        else if length (pb_tx_bytes batch) \<le> i then give Panic
        else ensure_keyless_verdict env (pb_tx_bytes batch ! i) (lr_timestamp rec)) (\<lambda>_.
       if length (pb_tx_starts batch) \<le> i \<or> length (pb_tx_bytes batch) \<le> i then give Panic
       else
         bind_act (give (bt_prove tree (of_nat i))) (\<lambda>p.
           give (Ok [AU64 (pb_tx_starts batch ! i), ABytes (pb_tx_bytes batch ! i),
             ABytesList (case p of Some p \<Rightarrow> map to_be (lp_siblings p) | None \<Rightarrow> [])]))))"

definition same_address :: "bytes \<Rightarrow> bytes \<Rightarrow> bool" where
  "same_address a b =
     (let norm = (\<lambda>s. ascii_lowercase (trim_zeros (trim_0x s))) in norm a = norm b)"

definition already_challenged :: "bytes \<Rightarrow> json list \<Rightarrow> bool" where
  "already_challenged addr challengers =
     (case challengers of
        [] \<Rightarrow> False
      | v # _ \<Rightarrow>
          (case as_array v of
             None \<Rightarrow> False
           | Some l \<Rightarrow> list_ex (\<lambda>c. case as_str c of Some c \<Rightarrow> same_address c addr | None \<Rightarrow> False) l))"

definition watch_dispute :: "'w watch_env \<Rightarrow> bytes \<Rightarrow> ('w, dispute_state) watch" where
  "watch_dispute env did =
     bind_act (watch_view env ''disputes::dispute_state'' (contract_and env did)) (\<lambda>v.
       give (map_err WatchL1 (parse_dispute (we_text env) v)))"

fun give_evidence :: "'w watch_env \<Rightarrow> bytes \<Rightarrow> l1_record \<Rightarrow> published_batch \<Rightarrow> fault \<Rightarrow> ('w, bytes) watch" where
  "give_evidence env i rec batch (Uncompilable k) =
     bind_act (leaf_args env rec batch k False) (\<lambda>args.
     bind_act (watch_submit env ''disputes::prove_uncompilable'' (contract_and env i @ [AU64 (of_nat k)] @ args)) (\<lambda>_.
       give (Ok (str_bytes ''uncompilable transaction''))))"
| "give_evidence env i rec batch (StartGap k) =
     (if k = 0 then give Panic
      else
        bind_act (leaf_args env rec batch (k - 1) False) (\<lambda>before.
        bind_act (leaf_args env rec batch k True) (\<lambda>after.
        bind_act (watch_submit env ''disputes::prove_start_gap'' (contract_and env i @ [AU64 (of_nat k - 1)] @ before @ after)) (\<lambda>_.
          give (Ok (str_bytes ''start positions''))))))"
| "give_evidence env i rec batch TraceLength =
     (if pb_tx_bytes batch = [] then give Panic
      else
        bind_act (leaf_args env rec batch (length (pb_tx_bytes batch) - 1) False) (\<lambda>args.
        bind_act (watch_submit env ''disputes::prove_trace_length'' (contract_and env i @ args)) (\<lambda>_.
          give (Ok (str_bytes ''trace length'')))))"
| "give_evidence env i rec batch Bisect =
     bind_act (give (dispute_id (we_text env) i (l1_address (we_l1 env)))) (\<lambda>did.
     bind_act (watch_dispute env did) (\<lambda>existing.
     bind_act (if dst_exists existing then give (Ok ()) else watch_submit env ''disputes::open'' (contract_and env i)) (\<lambda>_.
     bind_act (update_me (\<lambda>x. x\<lparr>wt_state := (wt_state x)\<lparr>ws_games := ws_games (wt_state x) @
        [\<lparr>gm_assertion = tc_hex_encode (we_text env) i,
          gm_pre_state = tc_hex_encode (we_text env) (to_bytes (wt_replica x))\<rparr>]\<rparr>\<rparr>)) (\<lambda>_.
     bind_act (save_watcher env) (\<lambda>_. give (Ok (str_bytes ''bisection'')))))))"

definition challenge :: "'w watch_env \<Rightarrow> bytes \<Rightarrow> l1_record \<Rightarrow> fault \<Rightarrow> ('w, bytes) watch" where
  "challenge env i rec f =
     bind_act (watch_view env ''assertions::challengers'' (contract_and env i)) (\<lambda>challengers.
     bind_act (if already_challenged (l1_address (we_l1 env)) challengers then give (Ok ())
        else watch_submit env ''assertions::open_challenge'' (contract_and env i @ [AU128 (wc_bond (we_config env))])) (\<lambda>_.
     bind_act (watch_batch env i rec) (\<lambda>batch. give_evidence env i rec batch f)))"

section \<open>Examining new assertions\<close>

definition adopt :: "'w watch_env \<Rightarrow> bytes \<Rightarrow> l1_record \<Rightarrow> ('w, unit) watch" where
  "adopt env i rec =
     bind_act (watch_batch env i rec) (\<lambda>batch.
     bind_act me (\<lambda>x.
     bind_act (give (case decode_all 0 (pb_tx_bytes batch) of Ok txs \<Rightarrow> Ok txs | Err _ \<Rightarrow> Ok [] | Panic \<Rightarrow> Panic)) (\<lambda>txs.
     bind_act (give (map_err (\<lambda>_. WatchState)
        (replay_batch (we_hash env) (we_ed env) (we_constants env) (wt_replica x) txs (watch_ctx env batch)))) (\<lambda>r.
       update_me (\<lambda>x. x\<lparr>wt_replica := rp_post r,
         wt_state := (wt_state x)\<lparr>ws_head := tc_hex_encode (we_text env) i\<rparr>\<rparr>)))))"

definition examine_one :: "'w watch_env \<Rightarrow> watch_report \<Rightarrow> ('w, watch_report) watch" where
  "examine_one env report =
     bind_act me (\<lambda>x.
     bind_act (on_l1 (assertion_at (we_text env) (we_l1 env) (ws_cursor (wt_state x)))) (\<lambda>i.
     bind_act (watch_record env i) (\<lambda>rec.
     bind_act (
       if lr_parent rec = unhex (we_text env) (ws_head (wt_state x)) \<and> lr_status rec \<noteq> REJECTED
       then
         bind_act (judge env i rec) (\<lambda>j.
           case j of
             None \<Rightarrow> bind_act (adopt env i rec) (\<lambda>_. give (Ok (report\<lparr>vr_verified := vr_verified report + 1\<rparr>)))
           | Some f \<Rightarrow>
               if lr_status rec = FINALIZED then give (Err (FinalizedFraud (tc_hex_encode (we_text env) i)))
               else
                 bind_act (challenge env i rec f) (\<lambda>evidence.
                   give (Ok (report\<lparr>vr_challenged := vr_challenged report @ [(tc_hex_encode (we_text env) i, evidence)]\<rparr>))))
       else give (Ok report)) (\<lambda>report'.
     bind_act (give (or_panic (checked_add (ws_cursor (wt_state x)) 1))) (\<lambda>cursor.
     bind_act (update_me (\<lambda>x. x\<lparr>wt_state := (wt_state x)\<lparr>ws_cursor := cursor\<rparr>\<rparr>)) (\<lambda>_.
     bind_act (save_watcher env) (\<lambda>_. give (Ok report'))))))))"

text \<open>The loop runs once for each index between the cursor and the count.\<close>

fun examine_loop :: "'w watch_env \<Rightarrow> nat \<Rightarrow> watch_report \<Rightarrow> ('w, watch_report) watch" where
  "examine_loop env 0 report = give (Ok report)"
| "examine_loop env (Suc n) report = bind_act (examine_one env report) (examine_loop env n)"

definition examine :: "'w watch_env \<Rightarrow> watch_report \<Rightarrow> ('w, watch_report) watch" where
  "examine env report =
     bind_act (watch_view env ''assertions::assertion_count'' [AAddress (l1_contract (we_l1 env))]) (\<lambda>v.
     bind_act (give (map_err WatchL1 (and_then (first_value v) u128_of))) (\<lambda>count.
     bind_act me (\<lambda>x. examine_loop env (unat count - unat (ws_cursor (wt_state x))) report)))"

section \<open>Playing games\<close>

fun choose_segment :: "hasher \<Rightarrow> replay_view \<Rightarrow> u64 list \<Rightarrow> nat \<Rightarrow> hash256 list \<Rightarrow> ('e, nat) result" where
  "choose_segment H r bounds j [] = Ok (length bounds - 2)"
| "choose_segment H r bounds j (offered # rest) =
     (if length bounds \<le> j + 1 then Panic
      else if replay_commitment_at H r (bounds ! (j + 1)) \<noteq> offered then Ok j
      else choose_segment H r bounds (j + 1) rest)"

fun apply_ignoring :: "hasher \<Rightarrow> ed25519 \<Rightarrow> merkle_trie \<Rightarrow> instruction list \<Rightarrow> ('e, merkle_trie) result" where
  "apply_ignoring H ed tr [] = Ok tr"
| "apply_ignoring H ed tr (i # is) =
     (case apply_step H ed tr i of
        Ok (tr', _) \<Rightarrow> apply_ignoring H ed tr' is | Err _ \<Rightarrow> apply_ignoring H ed tr is | Panic \<Rightarrow> Panic)"

definition one_step_witness :: "hasher \<Rightarrow> ed25519 \<Rightarrow> replay_view \<Rightarrow> u64 \<Rightarrow> ('e, l1_arg list) result" where
  "one_step_witness H ed r step =
     (let index = unat step in
      and_then (apply_ignoring H ed (rp_pre r) (take index (rp_program r))) (\<lambda>tr.
      let s = (if index < length (rp_program r) then slot H (rp_program r ! index) else ZERO);
          v = trie_get tr s
      in and_then (or_panic (prove tr s)) (\<lambda>p.
        let (is_leaf, key, value_hash) = (case terminal p of TEmpty \<Rightarrow> (False, ZERO, ZERO) | TLeaf k h \<Rightarrow> (True, k, h)) in
        Ok [ABytes (to_be (mt_root tr)), ABytes (to_be s), ABool (v \<noteq> None), ABytes (case v of Some b \<Rightarrow> b | None \<Rightarrow> []),
            ABytesList (map to_be (siblings p)), ABool is_leaf, ABytes (to_be key), ABytes (to_be value_hash)])))"

text \<open>\<open>rposition\<close> of the last start at or before a step, zero if there is none.\<close>

definition leaf_of :: "u64 list \<Rightarrow> u64 \<Rightarrow> nat" where
  "leaf_of starts step = (case filter (\<lambda>i. starts ! i \<le> step) (rev [0..<length starts]) of [] \<Rightarrow> 0 | i # _ \<Rightarrow> i)"

definition add_move :: "watch_report \<Rightarrow> watch_report" where
  "add_move report = report\<lparr>vr_moves := vr_moves report + 1\<rparr>"

definition game_move ::
    "'w watch_env \<Rightarrow> u64 \<Rightarrow> watch_report \<Rightarrow> l1_record \<Rightarrow> bytes \<Rightarrow> dispute_state \<Rightarrow> published_batch \<Rightarrow> replay_view
     \<Rightarrow> ('w, watch_report) watch" where
  "game_move env now report rec did d batch r =
     (if dst_turn d = 1 \<and> dst_stage d = 0 \<and> dst_has_offer d then
        bind_act (give (boundaries (dst_lo d) (dst_hi d) DEFAULT_ARITY)) (\<lambda>bounds.
        bind_act (give (choose_segment (we_hash env) r bounds 0 (dst_offered d))) (\<lambda>index.
        bind_act (watch_submit env ''disputes::select'' (contract_and env did @ [AU64 (of_nat index)])) (\<lambda>_.
          give (Ok (add_move report)))))
      else if dst_turn d = 1 \<and> dst_stage d = 1 then
        let leaf = leaf_of (pb_tx_starts batch) (dst_lo d) in
        bind_act (leaf_args env rec batch leaf False) (\<lambda>args.
        bind_act (give (one_step_witness (we_hash env) (we_ed env) r (dst_lo d))) (\<lambda>w.
        bind_act (watch_submit env ''disputes::one_step'' (contract_and env did @ [AU64 (of_nat leaf)] @ args @ w)) (\<lambda>_.
          give (Ok (add_move report)))))
      else if dst_turn d = 0 \<and> now > dst_deadline d then
        bind_act (watch_submit env ''disputes::claim_timeout'' (contract_and env did)) (\<lambda>_. give (Ok (add_move report)))
      else give (Ok report))"

definition play_one :: "'w watch_env \<Rightarrow> u64 \<Rightarrow> watch_report \<Rightarrow> watch_game \<Rightarrow> ('w, watch_report) watch" where
  "play_one env now report g =
     (let i = unhex (we_text env) (gm_assertion g) in
      bind_act (watch_record env i) (\<lambda>rec.
      bind_act (give (dispute_id (we_text env) i (l1_address (we_l1 env)))) (\<lambda>did.
      bind_act (watch_dispute env did) (\<lambda>d.
        if \<not> dst_exists d \<or> dst_stage d = 2 \<or> lr_status rec = REJECTED
        then
          bind_act (update_me (\<lambda>x. x\<lparr>wt_state := (wt_state x)\<lparr>ws_games := filter (\<lambda>h. h \<noteq> g) (ws_games (wt_state x))\<rparr>\<rparr>)) (\<lambda>_.
          bind_act (save_watcher env) (\<lambda>_. give (Ok (report\<lparr>vr_concluded := vr_concluded report + 1\<rparr>))))
        else
          bind_act (watch_batch env i rec) (\<lambda>batch.
          bind_act (give (map_err (\<lambda>_. WatchState) (decode_all 0 (pb_tx_bytes batch)))) (\<lambda>txs.
          bind_act (give (map_err (\<lambda>_. WatchState) (from_bytes (we_hash env) (unhex (we_text env) (gm_pre_state g))))) (\<lambda>pre.
          bind_act (give (map_err (\<lambda>_. WatchState)
             (replay_batch (we_hash env) (we_ed env) (we_constants env) pre txs (watch_ctx env batch)))) (\<lambda>r.
            game_move env now report rec did d batch r))))))))"

fun play_games :: "'w watch_env \<Rightarrow> u64 \<Rightarrow> watch_game list \<Rightarrow> watch_report \<Rightarrow> ('w, watch_report) watch" where
  "play_games env now [] report = give (Ok report)"
| "play_games env now (g # gs) report = bind_act (play_one env now report g) (play_games env now gs)"

definition play_watcher :: "'w watch_env \<Rightarrow> watch_report \<Rightarrow> ('w, watch_report) watch" where
  "play_watcher env report =
     bind_act me (\<lambda>x.
     bind_act (on_l1 (l1_now (we_l1 env))) (\<lambda>now. play_games env now (ws_games (wt_state x)) report))"

definition watcher_step :: "'w watch_env \<Rightarrow> ('w, watch_report) watch" where
  "watcher_step env =
     bind_act (play_watcher env \<lparr>vr_verified = 0, vr_challenged = [], vr_moves = 0, vr_concluded = 0\<rparr>) (examine env)"

section \<open>Starting\<close>

definition watcher_new :: "'w watch_env \<Rightarrow> merkle_trie \<Rightarrow> ('w, watch_error, watcher) act" where
  "watcher_new env genesis =
     bind_act (map_err_act WatchL1 (l1_view (we_l1 env) (str_bytes ''disputes::keyless_setup'') [AAddress (l1_contract (we_l1 env))])) (\<lambda>v.
     bind_act (give (map_err WatchL1 (and_then (first_value v) u128_of))) (\<lambda>setup.
       if setup \<noteq> ucast (wc_keyless_setup (we_config env)) then give (Err Misconfigured)
       else
         bind_act (map_err_act WatchL1 (assertion_at (we_text env) (we_l1 env) 0)) (\<lambda>gid.
           if gid \<noteq> to_be (genesis_id (we_hash env) (mt_root genesis)) then give (Err Misconfigured)
           else
             bind_act (map_err_act (\<lambda>_. WatchState) (sf_load (we_file env))) (\<lambda>loaded.
               case loaded of
                 Some s \<Rightarrow>
                   bind_act (give (map_err (\<lambda>_. WatchState) (from_bytes (we_hash env) (unhex (we_text env) (ws_replica s))))) (\<lambda>replica.
                     give (Ok \<lparr>wt_state = s, wt_replica = replica\<rparr>))
               | None \<Rightarrow>
                   give (Ok \<lparr>wt_state = \<lparr>ws_cursor = 1, ws_head = tc_hex_encode (we_text env) gid,
                     ws_replica = tc_hex_encode (we_text env) (to_bytes genesis), ws_games = []\<rparr>, wt_replica = genesis\<rparr>)))))"

section \<open>A replay that completes is the execution of the batch\<close>

definition trace_of :: "replay_view \<Rightarrow> execution_trace" where
  "trace_of r = \<lparr>instructions = rp_program r, states = rp_states r, tx_starts = rp_tx_starts r\<rparr>"

lemma compile_all_iff:
  "compile_all H ed pcs ctx index program starts txs = Ok (program', starts') \<longleftrightarrow>
   (\<exists>css. list_all2 (\<lambda>tx c. compile H ed pcs tx ctx = Ok c) txs css \<and> program' = program @ concat css
     \<and> starts' = starts @ map (\<lambda>k. of_nat (length program + length (concat (take k css)))) [0..<length css])"
proof (induction txs arbitrary: index program starts)
  case (Cons tx txs)
  have upt: "[0..<Suc n] = 0 # map Suc [0..<n]" for n by (simp add: upt_conv_Cons map_Suc_upt)
  show ?case (is "?L \<longleftrightarrow> ?R")
  proof
    assume ?L
    then obtain c css where "compile H ed pcs tx ctx = Ok c" "list_all2 (\<lambda>tx c. compile H ed pcs tx ctx = Ok c) txs css"
      "program' = (program @ c) @ concat css"
      "starts' = (starts @ [of_nat (length program)]) @ map (\<lambda>k. of_nat (length (program @ c) + length (concat (take k css)))) [0..<length css]"
      by (auto simp: result_simps Cons.IH)
    then show ?R by (intro exI [of _ "c # css"]) (simp add: upt comp_def add.assoc del: upt_Suc)
  next
    assume ?R
    then obtain c css where c: "compile H ed pcs tx ctx = Ok c" "list_all2 (\<lambda>tx c. compile H ed pcs tx ctx = Ok c) txs css"
      "program' = program @ c @ concat css"
      "starts' = starts @ map (\<lambda>k. of_nat (length program + length (concat (take k (c # css))))) [0..<length (c # css)]"
      by (auto simp: list_all2_Cons1)
    have "compile_all H ed pcs ctx (index + 1) (program @ c) (starts @ [of_nat (length program)]) txs = Ok (program', starts')"
      unfolding Cons.IH using c by (intro exI [of _ css]) (simp add: upt comp_def add.assoc del: upt_Suc)
    with c(1) show ?L by simp
  qed
qed auto

lemma replay_loop_complete:
  "replay_loop H ed k is tr sts = (Ok (sts', None, tr') :: ('e, _) result) \<longleftrightarrow>
   (\<exists>roots. run_steps H ed tr is = Ok (tr', roots) \<and> sts' = sts @ states_from k roots)"
proof (induction "is" arbitrary: k tr sts)
  case (Cons i "is")
  show ?case
  proof (cases "apply_step H ed tr i")
    case (Ok p)
    then show ?thesis by (cases p) (auto simp: Cons.IH result_simps algebra_simps)
  qed auto
qed auto

lemma replay_batch_complete:
  "(\<exists>r. replay_batch H ed pcs pre txs ctx = Ok r \<and> rp_fails_at r = None \<and> rp_post r = tr \<and> trace_of r = t) \<longleftrightarrow>
   execute_batch H ed pcs pre ctx txs = Ok (tr, t)"
proof
  assume "\<exists>r. replay_batch H ed pcs pre txs ctx = Ok r \<and> rp_fails_at r = None \<and> rp_post r = tr \<and> trace_of r = t"
  then obtain program starts sts where "compile_all H ed pcs ctx 0 [] [] txs = Ok (program, starts)"
    and "replay_loop H ed 0 program pre [machine_start (mt_root pre)] = (Ok (sts, None, tr) :: (nat, _) result)"
    and "t = \<lparr>instructions = program, states = sts, tx_starts = starts\<rparr>"
    by (auto simp: replay_batch_def result_simps trace_of_def)
  then show "execute_batch H ed pcs pre ctx txs = Ok (tr, t)"
    unfolding execute_batch_def run_transactions_steps compile_all_iff replay_loop_complete by auto
next
  assume "execute_batch H ed pcs pre ctx txs = Ok (tr, t)"
  then obtain css roots where c: "list_all2 (\<lambda>tx c. compile H ed pcs tx ctx = Ok c) txs css"
    and r: "run_steps H ed pre (concat css) = Ok (tr, roots)"
    and t: "t = \<lparr>instructions = concat css, states = [machine_start (mt_root pre)] @ states_from 0 roots,
      tx_starts = map (\<lambda>k. of_nat (length (concat (take k css)))) [0..<length css]\<rparr>"
    unfolding execute_batch_def run_transactions_steps by auto
  from c have "compile_all H ed pcs ctx 0 [] [] txs = Ok (concat css, tx_starts t)"
    unfolding compile_all_iff t by auto
  moreover from r have "replay_loop H ed 0 (concat css) pre [machine_start (mt_root pre)] = (Ok (states t, None, tr) :: (nat, _) result)"
    unfolding replay_loop_complete t by auto
  ultimately show "\<exists>r. replay_batch H ed pcs pre txs ctx = Ok r \<and> rp_fails_at r = None \<and> rp_post r = tr \<and> trace_of r = t"
    by (auto simp: replay_batch_def trace_of_def t)
qed

lemma replay_batch_static:
  "replay_batch H ed pcs pre txs ctx = Ok r \<Longrightarrow> rp_pre r = pre \<and> length (rp_tx_starts r) = length txs"
  by (auto simp: replay_batch_def result_simps compile_all_iff list_all2_lengthD)

section \<open>What judging decides\<close>

lemma find_gap_None:
  "find_gap own claimed is = (Ok None :: ('e, _) result) \<longleftrightarrow> (\<forall>i\<in>set is. i < length claimed \<and> own ! i = claimed ! i)"
  by (induction "is") auto

text \<open>What a right assertion is, over the batch its data gives.\<close>

definition right_assertion ::
    "hasher \<Rightarrow> ed25519 \<Rightarrow> width_constants list \<Rightarrow> merkle_trie \<Rightarrow> batch_context \<Rightarrow> published_batch \<Rightarrow> l1_record \<Rightarrow> merkle_trie \<Rightarrow> bool" where
  "right_assertion H ed pcs pre ctx batch rec tr \<longleftrightarrow>
     (\<exists>txs t. decode_all 0 (pb_tx_bytes batch) = Ok txs \<and> execute_batch H ed pcs pre ctx txs = Ok (tr, t)
       \<and> lr_pre_state_root rec = mt_root pre \<and> lr_post_state_root rec = mt_root tr \<and> lr_trace_length rec = of_nat (trace_len t)
       \<and> (\<forall>k. 1 \<le> k \<longrightarrow> k < length txs \<longrightarrow> k < length (pb_tx_starts batch) \<and> tx_starts t ! k = pb_tx_starts batch ! k))"

lemma judge_batch_None:
  "judge_batch H ed pcs pre ctx batch rec = Ok None \<longleftrightarrow> (\<exists>tr. right_assertion H ed pcs pre ctx batch rec tr)"
proof
  assume j: "judge_batch H ed pcs pre ctx batch rec = Ok None"
  then obtain txs r where d: "decode_all 0 (pb_tx_bytes batch) = Ok txs" and pre: "lr_pre_state_root rec = mt_root pre"
    and r: "replay_batch H ed pcs pre txs ctx = Ok r"
    and g: "find_gap (rp_tx_starts r) (pb_tx_starts batch) [1..<length (rp_tx_starts r)] = (Ok None :: (watch_error, _) result)"
    and f: "rp_fails_at r = None" "of_nat (length (rp_program r)) = lr_trace_length rec" "mt_root (rp_post r) = lr_post_state_root rec"
    by (auto simp: judge_batch_def and_then_Ok_iff split: result.splits if_splits option.splits)
  have "execute_batch H ed pcs pre ctx txs = Ok (rp_post r, trace_of r)"
    using r f(1) unfolding replay_batch_complete [symmetric] by blast
  with d pre f g replay_batch_static [OF r] show "\<exists>tr. right_assertion H ed pcs pre ctx batch rec tr"
    by (auto simp: right_assertion_def find_gap_None trace_of_def trace_len_def)
next
  assume "\<exists>tr. right_assertion H ed pcs pre ctx batch rec tr"
  then obtain tr txs t where d: "decode_all 0 (pb_tx_bytes batch) = Ok txs" and e: "execute_batch H ed pcs pre ctx txs = Ok (tr, t)"
    and h: "lr_pre_state_root rec = mt_root pre" "lr_post_state_root rec = mt_root tr" "lr_trace_length rec = of_nat (trace_len t)"
    and st: "\<And>k. 1 \<le> k \<Longrightarrow> k < length txs \<Longrightarrow> k < length (pb_tx_starts batch) \<and> tx_starts t ! k = pb_tx_starts batch ! k"
    by (auto simp: right_assertion_def)
  from e obtain r where r: "replay_batch H ed pcs pre txs ctx = Ok r" and f: "rp_fails_at r = None" "rp_post r = tr" "trace_of r = t"
    unfolding replay_batch_complete [symmetric] by blast
  have "find_gap (rp_tx_starts r) (pb_tx_starts batch) [1..<length (rp_tx_starts r)] = (Ok None :: (watch_error, _) result)"
    unfolding find_gap_None using st replay_batch_static [OF r] f(3) by (auto simp: trace_of_def)
  with d h r f show "judge_batch H ed pcs pre ctx batch rec = Ok None"
    by (auto simp: judge_batch_def trace_of_def trace_len_def)
qed

section \<open>What the actions leave alone\<close>

text \<open>The replica and the head, which only adopting an assertion may change.\<close>

definition core :: "watcher \<Rightarrow> merkle_trie \<times> bytes" where
  "core x = (wt_replica x, ws_head (wt_state x))"

definition same_core :: "'w \<times> watcher \<Rightarrow> 'w \<times> watcher \<Rightarrow> bool" where
  "same_core s s' \<longleftrightarrow> core (snd s') = core (snd s)"

abbreviation keeps :: "('w, 'a) watch \<Rightarrow> bool" where
  "keeps \<equiv> preserves same_core"

interpretation kept: preserving same_core
  by unfold_locales (simp_all add: same_core_def)

named_theorems keeps_rules \<open>actions that keep the replica and the head\<close>

lemmas [keeps_rules] = kept.gives kept.binds kept.chooses

lemma keeps_ensures:
  "keeps m \<Longrightarrow> ensures (\<lambda>s. core (snd s) = c) m (\<lambda>_ s. core (snd s) = c) (\<lambda>s. core (snd s) = c)"
  by (rule ensuresI) (auto dest!: preservesD simp: same_core_def)

lemma keepsD: "keeps m \<Longrightarrow> m s = (r, s') \<Longrightarrow> core (snd s') = core (snd s)"
  by (auto dest!: preservesD simp: same_core_def)

lemma keepsI: "(\<And>s r s'. m s = (r, s') \<Longrightarrow> core (snd s') = core (snd s)) \<Longrightarrow> keeps m"
  by (auto intro!: preservesI simp: same_core_def)

lemma keeps_on_l1 [keeps_rules]: "keeps (on_l1 m)"
  by (auto intro!: keepsI simp: on_l1_def split: prod.splits)

lemma keeps_me [keeps_rules]: "keeps me"
  by (auto intro!: keepsI simp: me_def)

lemma keeps_update [keeps_rules]: "(\<And>x. core (f x) = core x) \<Longrightarrow> keeps (update_me f)"
  by (auto intro!: keepsI simp: update_me_def)

lemma keeps_try [keeps_rules]: "keeps m \<Longrightarrow> keeps (try_act m)"
  unfolding preserves_def same_core_def try_act_def by (auto split: prod.splits result.splits)

lemma keeps_save [keeps_rules]: "keeps (save_watcher env)"
  by (auto intro!: keepsI simp: save_watcher_def core_def Let_def split: prod.splits)

lemma keeps_watch_submit [keeps_rules]: "keeps (watch_submit env f args)"
  unfolding watch_submit_def by (intro keeps_rules)

lemma keeps_view [keeps_rules]: "keeps (watch_view env f args)"
  unfolding watch_view_def by (intro keeps_rules)

lemma keeps_watch_record [keeps_rules]: "keeps (watch_record env i)"
  unfolding watch_record_def by (intro keeps_rules)

lemma keeps_watch_batch [keeps_rules]: "keeps (watch_batch env i rec)"
  unfolding watch_batch_def by (intro keeps_rules)

lemma keeps_watch_dispute [keeps_rules]: "keeps (watch_dispute env did)"
  unfolding watch_dispute_def by (intro keeps_rules)

lemma keeps_advance_loop [keeps_rules]: "keeps (advance_loop env job fuel nxt)"
proof (induction fuel arbitrary: nxt)
  case 0
  show ?case by (subst advance_loop.simps) (auto intro!: keeps_rules)
next
  case (Suc n)
  then show ?case by (subst advance_loop.simps) (auto intro!: keeps_rules)
qed

lemma keeps_start_job [keeps_rules]: "keeps (start_job env tx_bytes timestamp job)"
  unfolding start_job_def by (intro keeps_rules)

lemma keeps_ensure [keeps_rules]: "keeps (ensure_keyless_verdict env tx_bytes timestamp)"
  unfolding ensure_keyless_verdict_def Let_def
  by (auto intro!: keeps_rules split: result.splits authenticator.splits option.splits)

lemma keeps_leaf_args [keeps_rules]: "keeps (leaf_args env rec batch i proof_only)"
  unfolding leaf_args_def by (intro keeps_rules)

lemma keeps_give_evidence [keeps_rules]: "keeps (give_evidence env i rec batch f)"
  by (cases f) (auto intro!: keeps_rules simp: core_def)

lemma keeps_challenge [keeps_rules]: "keeps (challenge env i rec f)"
  unfolding challenge_def by (intro keeps_rules)

lemma keeps_judge [keeps_rules]: "keeps (judge env i rec)"
  unfolding judge_def by (intro keeps_rules)

lemma keeps_game_move [keeps_rules]: "keeps (game_move env now report rec did d batch r)"
  unfolding game_move_def Let_def by (intro keeps_rules)

lemma keeps_play_one [keeps_rules]: "keeps (play_one env now report g)"
  unfolding play_one_def Let_def by (intro keeps_rules) (simp_all add: core_def)

lemma keeps_play_games [keeps_rules]: "keeps (play_games env now gs report)"
  by (induction gs arbitrary: report) (auto intro!: keeps_rules)

lemma keeps_play [keeps_rules]: "keeps (play_watcher env report)"
  unfolding play_watcher_def by (intro keeps_rules)

section \<open>The line of adopted assertions\<close>

text \<open>
  What L1 published for an assertion does not change: two reads that find data find the same.
\<close>

definition published_data :: "'w l1 \<Rightarrow> (bytes \<Rightarrow> bytes \<Rightarrow> published_batch option) \<Rightarrow> bool" where
  "published_data c data \<longleftrightarrow> (\<forall>p i w b w'. l1_published_batch c p i w = (Ok (Some b), w') \<longrightarrow> data p i = Some b)"

text \<open>What L1 answered: an identifier when asked for the assertion at an index, a record when asked for an identifier.\<close>

definition listed :: "'w watch_env \<Rightarrow> bytes \<Rightarrow> bool" where
  "listed env i \<longleftrightarrow> (\<exists>n w w'. assertion_at (we_text env) (we_l1 env) n w = (Ok i, w'))"

definition recorded :: "'w watch_env \<Rightarrow> bytes \<Rightarrow> l1_record \<Rightarrow> bool" where
  "recorded env i rec \<longleftrightarrow> (\<exists>w v w'. l1_view (we_l1 env) (str_bytes ''assertions::record'') (contract_and env i) w = (Ok v, w')
     \<and> parse_record (we_text env) v = Ok rec)"

text \<open>
  Assertions L1 lists, each with a record L1 answered for it, each built on the one before and right
  about the state it starts from.
\<close>

inductive verified_line ::
    "'w watch_env \<Rightarrow> (bytes \<Rightarrow> bytes \<Rightarrow> published_batch option) \<Rightarrow> merkle_trie \<Rightarrow> bytes list \<Rightarrow> merkle_trie \<Rightarrow> bool"
  for env data genesis where
  Genesis: "verified_line env data genesis [to_be (genesis_id (we_hash env) (mt_root genesis))] genesis"
| Adopt: "verified_line env data genesis ids tr \<Longrightarrow> listed env i \<Longrightarrow> recorded env i rec \<Longrightarrow> lr_parent rec = last ids \<Longrightarrow> lr_status rec \<noteq> REJECTED \<Longrightarrow>
    data (lr_proposer rec) i = Some batch \<Longrightarrow>
    right_assertion (we_hash env) (we_ed env) (we_constants env) tr (watch_ctx env batch) batch rec tr' \<Longrightarrow>
    verified_line env data genesis (ids @ [i]) tr'"

text \<open>A watcher that started at genesis, after any number of rounds, whatever they met.\<close>

inductive watching :: "'w watch_env \<Rightarrow> merkle_trie \<Rightarrow> watcher \<Rightarrow> bool" for env genesis where
  Start: "watcher_new env genesis w = (Ok x, w') \<Longrightarrow> ws_games (wt_state x) = [] \<Longrightarrow> wt_replica x = genesis \<Longrightarrow>
    ws_head (wt_state x) = tc_hex_encode (we_text env) (to_be (genesis_id (we_hash env) (mt_root genesis))) \<Longrightarrow> watching env genesis x"
| Round: "watching env genesis x \<Longrightarrow> watcher_step env (w, x) = (r, (w', x')) \<Longrightarrow> watching env genesis x'"

definition core_verified :: "'w watch_env \<Rightarrow> (bytes \<Rightarrow> bytes \<Rightarrow> published_batch option) \<Rightarrow> merkle_trie \<Rightarrow> merkle_trie \<times> bytes \<Rightarrow> bool" where
  "core_verified env data genesis c \<longleftrightarrow>
     (\<exists>ids. verified_line env data genesis ids (fst c) \<and> snd c = tc_hex_encode (we_text env) (last ids))"

lemma watch_batch_data:
  assumes "published_data (we_l1 env) data"
  shows "ensures (\<lambda>s. core (snd s) = c) (watch_batch env i rec)
    (\<lambda>b s. core (snd s) = c \<and> data (lr_proposer rec) i = Some b) (\<lambda>s. core (snd s) = c)"
proof (rule ensuresI)
  fix s b s' assume s: "core (snd s) = c" "watch_batch env i rec s = (Ok b, s')"
  then obtain w x where w: "s = (w, x)" "l1_published_batch (we_l1 env) (lr_proposer rec) i w = (Ok (Some b), fst s')"
    by (cases s) (auto simp: watch_batch_def bind_act_Ok_iff on_l1_def give_def ok_or_Ok_iff map_err_Ok_iff split: prod.splits)
  then have "data (lr_proposer rec) i = Some b" using assms unfolding published_data_def by blast
  with keepsD [OF keeps_watch_batch s(2)] s(1) show "core (snd s') = c \<and> data (lr_proposer rec) i = Some b" by simp
next
  fix s r s' assume "core (snd s) = c" "watch_batch env i rec s = (r, s')"
  then show "core (snd s') = c" using keepsD [OF keeps_watch_batch, of env i rec s r s'] by simp
qed

lemma judge_ensures:
  assumes "published_data (we_l1 env) data"
  shows "ensures (\<lambda>s. core (snd s) = c) (judge env i rec)
    (\<lambda>j s. core (snd s) = c \<and> (j = None \<longrightarrow> (\<exists>batch tr. data (lr_proposer rec) i = Some batch
      \<and> right_assertion (we_hash env) (we_ed env) (we_constants env) (fst c) (watch_ctx env batch) batch rec tr)))
    (\<lambda>s. core (snd s) = c)"
proof -
  let ?P = "\<lambda>b s. core (snd s) = c \<and> data (lr_proposer rec) i = Some b"
  have me: "ensures (?P b) me (\<lambda>x s. ?P b s \<and> core x = c) (\<lambda>s. core (snd s) = c)" for b
    by (rule ensuresI) (auto simp: me_def)
  show ?thesis unfolding judge_def
    by (intro ensures_bind [OF watch_batch_data [OF assms]] ensures_bind [OF me] ensures_give)
      (auto simp: judge_batch_None core_def)
qed

lemma right_assertion_replay:
  assumes "right_assertion H ed pcs pre ctx batch rec tr"
    and "decode_all 0 (pb_tx_bytes batch) = Ok txs" "replay_batch H ed pcs pre txs ctx = Ok r"
  shows "rp_post r = tr"
proof -
  from assms obtain t where "execute_batch H ed pcs pre ctx txs = Ok (tr, t)" by (auto simp: right_assertion_def)
  then obtain r' where "replay_batch H ed pcs pre txs ctx = Ok r'" "rp_post r' = tr"
    unfolding replay_batch_complete [symmetric] by blast
  with assms(3) show ?thesis by simp
qed

lemma adopt_ensures:
  assumes data: "published_data (we_l1 env) data" and b: "data (lr_proposer rec) i = Some batch"
    and right: "right_assertion (we_hash env) (we_ed env) (we_constants env) (fst c) (watch_ctx env batch) batch rec tr"
  shows "ensures (\<lambda>s. core (snd s) = c) (adopt env i rec)
    (\<lambda>_ s. core (snd s) = (tr, tc_hex_encode (we_text env) i)) (\<lambda>s. core (snd s) = c)"
proof -
  let ?P = "\<lambda>b s. core (snd s) = c \<and> data (lr_proposer rec) i = Some b"
  from right obtain txs where txs: "decode_all 0 (pb_tx_bytes batch) = Ok txs" by (auto simp: right_assertion_def)
  have me: "ensures (?P b) me (\<lambda>x s. ?P b s \<and> core x = c) (\<lambda>s. core (snd s) = c)" for b
    by (rule ensuresI) (auto simp: me_def)
  have up: "ensures (\<lambda>s. core (snd s) = c \<and> rp_post r = tr)
      (update_me (\<lambda>x. x\<lparr>wt_replica := rp_post r, wt_state := (wt_state x)\<lparr>ws_head := tc_hex_encode (we_text env) i\<rparr>\<rparr>))
      (\<lambda>_ s. core (snd s) = (tr, tc_hex_encode (we_text env) i)) (\<lambda>s. core (snd s) = c)" for r
    by (rule ensuresI) (auto simp: update_me_def core_def)
  have decoded: "ensures (\<lambda>s. ?P b s \<and> core x = c)
      (give (case decode_all 0 (pb_tx_bytes b) of Ok txs \<Rightarrow> Ok txs | Err _ \<Rightarrow> Ok [] | Panic \<Rightarrow> Panic))
      (\<lambda>ts s. core (snd s) = c \<and> core x = c \<and> b = batch \<and> ts = txs) (\<lambda>s. core (snd s) = c)" for b x
    using txs assms(2) by (intro ensures_give) auto
  have replayed: "ensures (\<lambda>s. core (snd s) = c \<and> core x = c \<and> b = batch \<and> ts = txs)
      (give (map_err (\<lambda>_. WatchState) (replay_batch (we_hash env) (we_ed env) (we_constants env) (wt_replica x) ts (watch_ctx env b))))
      (\<lambda>r s. core (snd s) = c \<and> rp_post r = tr) (\<lambda>s. core (snd s) = c)" for x b ts
    using right_assertion_replay [OF right txs] by (intro ensures_give) (auto simp: map_err_Ok_iff core_def)
  show ?thesis unfolding adopt_def
    by (intro ensures_bind [OF watch_batch_data [OF data]] ensures_bind [OF me] ensures_bind [OF decoded] ensures_bind [OF replayed] up)
qed

lemma examine_one_ensures:
  assumes data: "published_data (we_l1 env) data" and hex: "\<And>b. unhex (we_text env) (tc_hex_encode (we_text env) b) = b"
  shows "ensures (\<lambda>s. core_verified env data genesis (core (snd s))) (examine_one env report)
    (\<lambda>_ s. core_verified env data genesis (core (snd s))) (\<lambda>s. core_verified env data genesis (core (snd s)))"
proof -
  let ?V = "\<lambda>s. core_verified env data genesis (core (snd s))"
  have inv: "ensures ?V m (\<lambda>_. ?V) ?V" if "keeps m" for m :: "('a, 'z) watch"
    using keepsD [OF that] by (intro ensuresI) metis+
  have me: "ensures ?V me (\<lambda>x s. ?V s \<and> core (snd s) = core x) ?V"
    by (rule ensuresI) (auto simp: me_def)
  let ?C = "\<lambda>x s. ?V s \<and> core (snd s) = core x"
  have at: "ensures (?C x) m (\<lambda>_. ?C x) ?V" if "keeps m" for x and m :: "('a, 'z) watch"
    using keepsD [OF that] by (intro ensuresI) metis+
  have branch: "ensures (?C x) (bind_act (judge env i rec) (\<lambda>j.
           case j of
             None \<Rightarrow> bind_act (adopt env i rec) (\<lambda>_. give (Ok (report\<lparr>vr_verified := vr_verified report + 1\<rparr>)))
           | Some f \<Rightarrow>
               if lr_status rec = FINALIZED then give (Err (FinalizedFraud (tc_hex_encode (we_text env) i)))
               else
                 bind_act (challenge env i rec f) (\<lambda>evidence.
                   give (Ok (report\<lparr>vr_challenged := vr_challenged report @ [(tc_hex_encode (we_text env) i, evidence)]\<rparr>))))) (\<lambda>_. ?V) ?V"
    (is "ensures _ (bind_act _ ?f) _ _")
    if l: "listed env i" "recorded env i rec"
      and p: "lr_parent rec = unhex (we_text env) (ws_head (wt_state x))" "lr_status rec \<noteq> REJECTED" for x i rec
  proof (cases "core_verified env data genesis (core x)")
    case False
    then show ?thesis by (intro ensuresI) auto
  next
    case True
    then obtain ids where ids: "verified_line env data genesis ids (wt_replica x)"
      "ws_head (wt_state x) = tc_hex_encode (we_text env) (last ids)" by (auto simp: core_verified_def core_def)
    have "ensures (\<lambda>s. core (snd s) = core x \<and> (j = None \<longrightarrow> (\<exists>batch tr. data (lr_proposer rec) i = Some batch
        \<and> right_assertion (we_hash env) (we_ed env) (we_constants env) (fst (core x)) (watch_ctx env batch) batch rec tr))) (?f j) (\<lambda>_. ?V) ?V" for j
    proof (cases j)
      case (Some f)
      then have "keeps (?f j)" by (auto intro!: keeps_rules)
      with inv [OF this] True show ?thesis by (auto elim: ensures_weaken)
    next
      case None
      show ?thesis
      proof (cases "\<exists>batch tr. data (lr_proposer rec) i = Some batch
        \<and> right_assertion (we_hash env) (we_ed env) (we_constants env) (fst (core x)) (watch_ctx env batch) batch rec tr")
        case right: True
        then obtain batch tr where b: "data (lr_proposer rec) i = Some batch"
          and r: "right_assertion (we_hash env) (we_ed env) (we_constants env) (fst (core x)) (watch_ctx env batch) batch rec tr" by blast
        have "verified_line env data genesis (ids @ [i]) tr"
          by (rule verified_line.Adopt [OF ids(1) l _ p(2) b]) (use p(1) ids(2) hex r in \<open>auto simp: core_def\<close>)
        then have "core_verified env data genesis (tr, tc_hex_encode (we_text env) i)" by (force simp: core_verified_def)
        then have "ensures (\<lambda>s. core (snd s) = core x) (adopt env i rec) (\<lambda>_. ?V) ?V"
          using True by (intro ensures_weaken [OF adopt_ensures [OF data b r]]) auto
        then have "ensures (\<lambda>s. core (snd s) = core x)
            (bind_act (adopt env i rec) (\<lambda>_. give (Ok (report\<lparr>vr_verified := vr_verified report + 1\<rparr>)))) (\<lambda>_. ?V) ?V"
          by (rule ensures_bind) (rule inv [OF kept.gives])
        with None show ?thesis by (auto elim: ensures_weaken)
      qed (use None in \<open>auto intro: ensuresI\<close>)
    qed
    then show ?thesis
      by (rule ensures_bind [OF ensures_weaken [OF judge_ensures [OF data, of "core x" i rec]], rotated -1]) (use True in auto)
  qed
  have tail: "keeps (bind_act (give (or_panic (checked_add n 1))) (\<lambda>cursor.
     bind_act (update_me (\<lambda>x. x\<lparr>wt_state := (wt_state x)\<lparr>ws_cursor := cursor\<rparr>\<rparr>)) (\<lambda>_.
     bind_act (save_watcher env) (\<lambda>_. give (Ok report')))) :: ('a, watch_report) watch)" for n report'
    by (intro keeps_rules) (simp add: core_def)
  have asked: "ensures (?C x) (on_l1 (assertion_at (we_text env) (we_l1 env) n)) (\<lambda>i s. ?C x s \<and> listed env i) ?V" for x n
  proof (rule ensuresI)
    fix s i s' assume s: "?C x s" "on_l1 (assertion_at (we_text env) (we_l1 env) n) s = (Ok i, s')"
    then have "listed env i" by (auto simp: listed_def on_l1_def map_err_Ok_iff split: prod.splits)
    with ensuresD(1) [OF at [OF keeps_on_l1] s] show "?C x s' \<and> listed env i" by blast
  qed (rule ensuresD(2) [OF at [OF keeps_on_l1]])
  have answered: "ensures (\<lambda>s. ?C x s \<and> listed env i) (watch_record env i) (\<lambda>rec s. ?C x s \<and> listed env i \<and> recorded env i rec) ?V" for x i
  proof (rule ensuresI)
    fix s rec s' assume s: "?C x s \<and> listed env i" "watch_record env i s = (Ok rec, s')"
    then have "recorded env i rec"
      by (auto simp: recorded_def watch_record_def on_l1_def bind_act_Ok_iff give_def map_err_Ok_iff split: prod.splits)
    with s ensuresD(1) [OF at [OF keeps_watch_record], of s x] show "?C x s' \<and> listed env i \<and> recorded env i rec" by blast
  qed (use ensuresD(2) [OF at [OF keeps_watch_record]] in blast)
  show ?thesis unfolding examine_one_def
  proof (rule ensures_bind [OF me], rule ensures_bind [OF asked], rule ensures_bind [OF answered], rule ensures_bind [OF _ inv [OF tail]])
    fix x i rec
    show "ensures (\<lambda>s. ?C x s \<and> listed env i \<and> recorded env i rec)
        (if lr_parent rec = unhex (we_text env) (ws_head (wt_state x)) \<and> lr_status rec \<noteq> REJECTED
         then bind_act (judge env i rec) (\<lambda>j.
           case j of
             None \<Rightarrow> bind_act (adopt env i rec) (\<lambda>_. give (Ok (report\<lparr>vr_verified := vr_verified report + 1\<rparr>)))
           | Some f \<Rightarrow>
               if lr_status rec = FINALIZED then give (Err (FinalizedFraud (tc_hex_encode (we_text env) i)))
               else
                 bind_act (challenge env i rec f) (\<lambda>evidence.
                   give (Ok (report\<lparr>vr_challenged := vr_challenged report @ [(tc_hex_encode (we_text env) i, evidence)]\<rparr>))))
         else give (Ok report)) (\<lambda>_. ?V) ?V"
    proof (cases "listed env i \<and> recorded env i rec")
      case True
      then show ?thesis
        by (intro ensures_if) (rule ensures_weaken [OF branch], auto intro: ensures_weaken [OF inv [OF kept.gives]])
    qed (auto intro: ensuresI)
  qed
qed

lemma step_verified:
  assumes "published_data (we_l1 env) data" "\<And>b. unhex (we_text env) (tc_hex_encode (we_text env) b) = b"
  shows "ensures (\<lambda>s. core_verified env data genesis (core (snd s))) (watcher_step env)
    (\<lambda>_ s. core_verified env data genesis (core (snd s))) (\<lambda>s. core_verified env data genesis (core (snd s)))"
proof -
  let ?V = "\<lambda>s. core_verified env data genesis (core (snd s))"
  have inv: "ensures ?V m (\<lambda>_. ?V) ?V" if "keeps m" for m :: "('a, 'z) watch"
    using keepsD [OF that] by (intro ensuresI) metis+
  have "ensures ?V (examine_loop env n report) (\<lambda>_. ?V) ?V" for n report
  proof (induction n arbitrary: report)
    case (Suc n)
    then show ?case by (auto intro: ensures_bind examine_one_ensures [OF assms])
  qed (auto intro: inv kept.gives)
  then show ?thesis unfolding watcher_step_def examine_def
    by (intro ensures_bind [OF inv [OF keeps_play]] ensures_bind [OF inv [OF keeps_view]] ensures_bind [OF inv [OF kept.gives]]
      ensures_bind [OF inv [OF keeps_me]])
qed

text \<open>The rounds of the job loop: with at least one step a transaction, the fuel is never used up.\<close>

lemma advance_fuel:
  assumes "wc_keyless_steps_per_tx (we_config env) \<noteq> 0" "unat (POSEIDON_STEPS - nxt) \<le> n" "unat (POSEIDON_STEPS - nxt) \<le> m"
  shows "advance_loop env job n nxt = advance_loop env job m nxt"
  using assms(2,3)
proof (induction n arbitrary: nxt m)
  case 0
  then have "nxt = POSEIDON_STEPS" by (simp add: unat_eq_zero)
  then show ?case by (simp add: advance_loop.simps)
next
  case (Suc n)
  let ?k = "wc_keyless_steps_per_tx (we_config env)"
  show ?case
  proof (cases "nxt < POSEIDON_STEPS")
    case True
    then have "unat (POSEIDON_STEPS - nxt) \<noteq> 0" by (auto simp: unat_eq_zero)
    then obtain m' where m: "m = Suc m'" using Suc.prems(2) by (cases m) auto
    have less: "unat (POSEIDON_STEPS - min v POSEIDON_STEPS) < unat (POSEIDON_STEPS - nxt)" if "checked_add nxt ?k = Some v" for v
    proof -
      have "unat v = unat nxt + unat ?k" "0 < unat ?k" using that assms(1) by (simp_all add: checked_add_Some_iff unat_gt_0)
      then show ?thesis using True
        by (auto simp: unat_sub word_less_nat_alt word_le_nat_alt min_def)
    qed
    have "advance_loop env job n (min v POSEIDON_STEPS) = advance_loop env job m' (min v POSEIDON_STEPS)"
      if "checked_add nxt ?k = Some v" for v
      using less [OF that] Suc.prems m by (intro Suc.IH) auto
    then have "bind_act (give (or_panic (checked_add nxt ?k))) (\<lambda>v. advance_loop env job n (min v POSEIDON_STEPS))
      = bind_act (give (or_panic (checked_add nxt ?k))) (\<lambda>v. advance_loop env job m' (min v POSEIDON_STEPS))"
      by (cases "checked_add nxt ?k") (simp_all add: bind_act_def give_def)
    with True m show ?thesis by (simp add: advance_loop.simps [of _ _ _ nxt])
  next
    case False
    then show ?thesis by (simp add: advance_loop.simps [of _ _ _ nxt])
  qed
qed

section \<open>Playing as the trace player does\<close>

text \<open>The one-step proof of the trace player as arguments of the L1 call.\<close>

definition proof_args :: "one_step_proof \<Rightarrow> l1_arg list" where
  "proof_args p =
     (let w = osp_witness p;
          (is_leaf, key, value_hash) = (case terminal (sw_proof w) of TEmpty \<Rightarrow> (False, ZERO, ZERO) | TLeaf k h \<Rightarrow> (True, k, h))
      in [ABytes (to_be (state_root (osp_pre_state p))), ABytes (to_be (sw_slot w)), ABool (sw_value w \<noteq> None),
          ABytes (case sw_value w of Some b \<Rightarrow> b | None \<Rightarrow> []), ABytesList (map to_be (siblings (sw_proof w))), ABool is_leaf,
          ABytes (to_be key), ABytes (to_be value_hash)])"

definition player_of :: "replay_view \<Rightarrow> trace_player" where
  "player_of r = \<lparr>tp_trace = trace_of r, tp_pre_state = rp_pre r\<rparr>"

lemma replay_commitment_player:
  "rp_fails_at r = None \<Longrightarrow> unat step < length (rp_states r) \<Longrightarrow>
   commitment_at H (player_of r) step = Ok (replay_commitment_at H r step)"
  by (simp add: replay_commitment_at_def commitment_at_def state_at_def player_of_def trace_of_def)

lemma choose_segment_player:
  assumes "rp_fails_at r = None" "\<forall>b\<in>set bs. unat b < length (rp_states r)" "length bs = j + length offered + 2"
    and "find_disagreement H (player_of r) bs j (offered @ [c]) = (Ok (Some k) :: ('e, _) result)"
  shows "choose_segment H r bs j offered = (Ok k :: ('f, _) result)"
  using assms(3,4)
proof (induction offered arbitrary: j)
  case Nil
  then have "unat (bs ! (j + 1)) < length (rp_states r)" using assms(2) by simp
  with Nil show ?case by (auto simp: replay_commitment_player [OF assms(1)] split: if_splits)
next
  case (Cons o' os)
  then have "unat (bs ! (j + 1)) < length (rp_states r)" using assms(2) by simp
  with Cons.prems Cons.IH [of "j + 1"] show ?case
    by (auto simp: replay_commitment_player [OF assms(1)] split: if_splits)
qed

lemma apply_ignoring_run: "run_steps H ed tr is = Ok (tr', roots) \<Longrightarrow> apply_ignoring H ed tr is = (Ok tr' :: ('e, _) result)"
  by (induction "is" arbitrary: tr roots) (auto simp: result_simps)

lemma one_step_witness_player:
  assumes e: "execute_batch H ed pcs (rp_pre r) ctx txs = Ok (rp_post r, trace_of r)"
    and d: "disputed_step d = Some step"
    and p: "player_one_step_proof H ed (player_of r) d = (Ok (Some p) :: ('e, _) result)"
  shows "one_step_witness H ed r step = (Ok (proof_args p) :: ('f, _) result)"
proof -
  let ?k = "unat step"
  have k: "?k < length (instructions (trace_of r))"
    using p d by (auto simp: player_one_step_proof_def player_of_def Let_def split: if_splits)
  then have kp: "?k < length (rp_program r)" by (simp add: trace_of_def)
  obtain trk rs where s: "states (trace_of r) ! ?k = \<lparr>state_root = mt_root trk, pc = of_nat ?k\<rparr>"
    and rs: "run_steps H ed (rp_pre r) (take ?k (rp_program r)) = Ok (trk, rs)"
    using trace_step [OF e k] by (metis execution_trace.select_convs(1) trace_of_def)
  have "length (states (trace_of r)) = Suc (length (instructions (trace_of r)))"
    using execute_batch_steps [OF e] by (metis length_Cons length_run_steps length_states_from)
  then have at: "state_at (player_of r) step = (Ok (states (trace_of r) ! ?k) :: ('e, _) result)"
    using k by (simp add: state_at_def player_of_def)
  let ?s = "slot H (rp_program r ! ?k)"
  from p d kp obtain mp where mp: "prove trk ?s = Some mp"
    "p = \<lparr>osp_pre_state = states (trace_of r) ! ?k, osp_witness = \<lparr>sw_slot = ?s, sw_value = trie_get trk ?s, sw_proof = mp\<rparr>\<rparr>"
    unfolding player_one_step_proof_def
    by (auto simp: player_of_def trace_of_def replay_run_steps [OF rs] at [unfolded player_of_def trace_of_def] result_simps Let_def)
  show ?thesis
    by (simp add: one_step_witness_def apply_ignoring_run [OF rs] kp mp proof_args_def s Let_def split_def)
qed

section \<open>Properties\<close>

text \<open>
  C13.  The watcher adopts only what it has verified.  Started at genesis, through any number of rounds
  against an L1 that answers whatever it likes, fails or is changed by others in between, but does not change data it
  has published, the watcher's replica is the state at the end of a line of assertions from
  genesis: each one listed by L1, with a record L1 answered for it that names the one before as its parent and is
  not rejected; its batch data decodes to transactions that execute from that state to
  the root that record asserts, in as many steps as it asserts; and the recorded head is the last of them.
\<close>

theorem watcher_adopts_verified:
  assumes "watching env genesis x" "published_data (we_l1 env) data"
    and "\<And>b. unhex (we_text env) (tc_hex_encode (we_text env) b) = b"
  shows "\<exists>ids. verified_line env data genesis ids (wt_replica x)
    \<and> ws_head (wt_state x) = tc_hex_encode (we_text env) (last ids)"
proof -
  have "core_verified env data genesis (core x)"
    using assms(1)
  proof induction
    case (Start w x w')
    have "verified_line env data genesis [to_be (genesis_id (we_hash env) (mt_root genesis))] genesis" by (rule verified_line.Genesis)
    with Start show ?case by (fastforce simp: core_verified_def core_def)
  next
    case (Round x w r w' x')
    note e = step_verified [OF assms(2,3), of genesis]
    from Round ensuresD(1) [OF e, of "(w, x)"] ensuresD(2) [OF e, of "(w, x)"] show ?case
      by (cases r) fastforce+
  qed
  then show ?thesis by (simp add: core_verified_def core_def)
qed

text \<open>An L1 with one assertion after genesis, of an empty batch, and the watcher that adopts it.\<close>

definition watch_text :: text_codecs where
  "watch_text = \<lparr>tc_hex_decode = (\<lambda>s. case s of [] \<Rightarrow> None | c # bs \<Rightarrow> if c = 104 then Some bs else None),
     tc_hex_encode = (\<lambda>bs. 104 # bs), tc_b64url_decode = Some, tc_b64url_encode = (\<lambda>bs. bs)\<rparr>"

definition watch_views :: "bytes \<Rightarrow> l1_arg list \<Rightarrow> json list" where
  "watch_views f args =
     (if f = str_bytes ''disputes::keyless_setup'' then [JPosInt 0]
      else if f = str_bytes ''assertions::assertion_count'' then [JPosInt 2]
      else if f = str_bytes ''assertions::assertion_at'' then [if args = [AAddress [], AU64 0] then JString (104 # to_be (5 :: hash256)) else JString [104, 1]]
      else if f = str_bytes ''assertions::record'' then
        [JString (104 # to_be (5 :: hash256)), JString [], JString (104 # to_be (0 :: hash256)), JString (104 # to_be (0 :: hash256)),
         JPosInt 0, JPosInt 0, JString (104 # to_be (0 :: hash256)), JPosInt 0, JPosInt 0, JPosInt 0, JPosInt 0]
      else [])"

definition empty_batch :: published_batch where
  "empty_batch = \<lparr>pb_assertion = [1], pb_timestamp = 0, pb_base_fee = 0, pb_fee_recipient = 0, pb_tx_bytes = [], pb_tx_starts = []\<rparr>"

definition watch_l1 :: "unit l1" where
  "watch_l1 = \<lparr>l1_submit = (\<lambda>_ _. give (Ok 0)), l1_view = (\<lambda>f args. give (Ok (watch_views f args))), l1_now = give (Ok 0),
     l1_published_batch = (\<lambda>_ _. give (Ok (Some empty_batch))), l1_address = [], l1_contract = []\<rparr>"

definition watch_sample :: "unit watch_env" where
  "watch_sample = \<lparr>we_hash = (\<lambda>_. 5), we_ed = sample_ed, we_constants = [], we_text = watch_text, we_l1 = watch_l1,
     we_file = \<lparr>sf_load = give (Ok None), sf_save = (\<lambda>_. give (Ok ()))\<rparr>,
     we_config = \<lparr>wc_bond = 1, wc_keyless = None, wc_keyless_setup = 0, wc_keyless_steps_per_tx = 1\<rparr>\<rparr>"

definition watch_start :: watcher where
  "watch_start = \<lparr>wt_state = \<lparr>ws_cursor = 1, ws_head = 104 # to_be (5 :: hash256), ws_replica = 104 # to_bytes trie_new, ws_games = []\<rparr>,
     wt_replica = trie_new\<rparr>"

lemma watch_text_simps [simp]:
  "tc_hex_encode watch_text b = 104 # b" "tc_hex_decode watch_text (104 # b) = Some b" "unhex watch_text (104 # b) = b"
proof -
  have "trim_0x (104 # b) = 104 # b" by (cases b) (simp_all add: str_bytes_def)
  then show "unhex watch_text (104 # b) = b" by (simp add: unhex_def watch_text_def)
qed (simp_all add: watch_text_def)

lemma watch_sample_env:
  "we_text watch_sample = watch_text" "we_l1 watch_sample = watch_l1" "we_hash watch_sample = (\<lambda>_. 5)"
  "l1_contract watch_l1 = []" "l1_view watch_l1 = (\<lambda>f args. give (Ok (watch_views f args)))" "l1_now watch_l1 = give (Ok 0)"
  "l1_published_batch watch_l1 = (\<lambda>_ _. give (Ok (Some empty_batch)))" "wc_keyless_setup (we_config watch_sample) = 0"
  "sf_load (we_file watch_sample) = give (Ok None)" "sf_save (we_file watch_sample) = (\<lambda>_. give (Ok ()))"
  by (simp_all add: watch_sample_def watch_l1_def)

lemma watch_bytes: "bytes_of watch_text (JString (104 # b)) = Ok b"
  by (cases b) (simp_all add: bytes_of_def str_of_def strip_0x_def str_bytes_def)

lemma watch_view_simps:
  "watch_views (str_bytes ''disputes::keyless_setup'') a = [JPosInt 0]"
  "watch_views (str_bytes ''assertions::assertion_count'') a = [JPosInt 2]"
  "watch_views (str_bytes ''assertions::assertion_at'') [AAddress [], AU64 0] = [JString (104 # to_be (5 :: hash256))]"
  "watch_views (str_bytes ''assertions::assertion_at'') [AAddress [], AU64 1] = [JString [104, 1]]"
  "watch_views (str_bytes ''assertions::record'') a =
        [JString (104 # to_be (5 :: hash256)), JString [], JString (104 # to_be (0 :: hash256)), JString (104 # to_be (0 :: hash256)),
         JPosInt 0, JPosInt 0, JString (104 # to_be (0 :: hash256)), JPosInt 0, JPosInt 0, JPosInt 0, JPosInt 0]"
  by (simp_all add: watch_views_def str_bytes_def)

lemma watch_new: "watcher_new watch_sample trie_new () = (Ok watch_start, ())"
  by (simp add: watcher_new_def watch_sample_env watch_view_simps map_err_act_def bind_act_def give_def first_value_def
      assertion_at_def watch_bytes genesis_id_def l1_assertion_id_def assertion_id_def commit_def digest_def watch_start_def)

definition watch_adopted :: watcher where
  "watch_adopted = \<lparr>wt_state = \<lparr>ws_cursor = 2, ws_head = [104, 1], ws_replica = 104 # to_bytes trie_new, ws_games = []\<rparr>,
     wt_replica = trie_new\<rparr>"

lemma watch_empty_right:
  "replay_batch H ed pcs trie_new [] ctx = Ok \<lparr>rp_program = [], rp_states = [machine_start (mt_root trie_new)], rp_tx_starts = [],
     rp_fails_at = None, rp_pre = trie_new, rp_post = trie_new\<rparr>"
  "lr_pre_state_root rec = 0 \<Longrightarrow> lr_post_state_root rec = 0 \<Longrightarrow> lr_trace_length rec = 0 \<Longrightarrow>
   judge_batch H ed pcs trie_new ctx empty_batch rec = Ok None"
  by (simp_all add: replay_batch_def judge_batch_def empty_batch_def trie_new_def ZERO_def)

lemma watch_record_sample:
  "parse_record watch_text (watch_views (str_bytes ''assertions::record'') a) = Ok \<lparr>lr_parent = to_be (5 :: hash256), lr_proposer = [],
     lr_pre_state_root = 0, lr_post_state_root = 0, lr_timestamp = 0, lr_tx_count = 0, lr_tx_root = 0, lr_trace_length = 0,
     lr_bond = 0, lr_posted_at = 0, lr_status = 0\<rparr>"
  by (simp add: watch_view_simps parse_record_def watch_bytes hash_of_def str_of_def u64_of_def u8_of_def from_be_to_be)

lemma watch_round: "watcher_step watch_sample ((), watch_start) = (Ok \<lparr>vr_verified = 1, vr_challenged = [], vr_moves = 0, vr_concluded = 0\<rparr>, ((), watch_adopted))"
proof -
  have n: "unat (2 :: u128) - unat (1 :: u64) = Suc 0" by simp
  have decoded: "decode_all 0 (pb_tx_bytes empty_batch) = Ok []" by (simp add: empty_batch_def)
  show ?thesis
    by (simp add: watcher_step_def play_watcher_def examine_def n me_def watch_start_def bind_act_def give_def on_l1_def watch_sample_env watch_view_def
        watch_view_simps(2) first_value_def)
      (simp add: examine_one_def me_def bind_act_def give_def on_l1_def watch_sample_env assertion_at_def watch_view_simps(1-4)
        watch_record_sample watch_bytes first_value_def watch_record_def contract_and_def REJECTED_def judge_def watch_batch_def
        watch_empty_right adopt_def update_me_def decoded save_watcher_def checked_add_def watch_adopted_def Let_def)
qed

theorem watcher_adopts_verified_witness:
  "\<exists>ids. verified_line watch_sample (\<lambda>_ _. Some empty_batch) trie_new ids (wt_replica watch_adopted)
     \<and> last ids = [1]"
proof -
  have "watching watch_sample trie_new watch_start"
    by (rule watching.Start [OF watch_new])
      (simp_all add: watch_start_def watch_sample_env genesis_id_def l1_assertion_id_def assertion_id_def commit_def digest_def)
  then have "watching watch_sample trie_new watch_adopted" by (rule watching.Round [OF _ watch_round])
  moreover have "published_data (we_l1 watch_sample) (\<lambda>_ _. Some empty_batch)"
    by (simp add: published_data_def watch_sample_env give_def)
  ultimately show ?thesis
    using watcher_adopts_verified [of watch_sample trie_new watch_adopted "\<lambda>_ _. Some empty_batch"]
    by (auto simp: watch_sample_env watch_adopted_def)
qed

text \<open>
  C14.  The watcher's verdict is the execution of the batch.  For an assertion that starts at the
  root of its replica, judging finds no fault exactly when the published data decodes to transactions that execute
  to the asserted root in the asserted number of steps with each transaction after the first starting where the data says;
  every other assertion it judges without panicking is given a fault.
\<close>

theorem judge_decides:
  assumes "lr_pre_state_root rec = mt_root pre" "judge_batch H ed pcs pre ctx batch rec \<noteq> Panic"
  shows "(judge_batch H ed pcs pre ctx batch rec = Ok None \<longleftrightarrow> (\<exists>tr. right_assertion H ed pcs pre ctx batch rec tr))
    \<and> ((\<nexists>tr. right_assertion H ed pcs pre ctx batch rec tr) \<longrightarrow> (\<exists>f. judge_batch H ed pcs pre ctx batch rec = Ok (Some f)))"
proof -
  have "judge_batch H ed pcs pre ctx batch rec \<noteq> Err e" for e
  proof -
    have "find_gap own claimed is \<noteq> Err (e :: watch_error)" for own claimed "is" by (induction "is") auto
    then show ?thesis using assms(1)
      by (auto simp: judge_batch_def and_then_Err_iff split: result.splits option.splits if_splits)
  qed
  with assms(2) judge_batch_None [of H ed pcs pre ctx batch rec] show ?thesis
    by (cases "judge_batch H ed pcs pre ctx batch rec") auto
qed

theorem judge_decides_witness:
  "\<exists>f. judge_batch (\<lambda>_. 5) sample_ed [] trie_new (without_keyless 60) empty_batch
     \<lparr>lr_parent = [], lr_proposer = [], lr_pre_state_root = 0, lr_post_state_root = 7, lr_timestamp = 0, lr_tx_count = 0, lr_tx_root = 0,
      lr_trace_length = 0, lr_bond = 0, lr_posted_at = 0, lr_status = 0\<rparr> = Ok (Some f)"
  (is "\<exists>f. judge_batch ?H ?ed ?pcs ?pre ?ctx ?b ?rec = _")
proof -
  have j: "judge_batch ?H ?ed ?pcs ?pre ?ctx ?b ?rec = Ok (Some Bisect)"
    using watch_empty_right(1) by (simp add: judge_batch_def empty_batch_def trie_new_def ZERO_def)
  have "\<nexists>tr. right_assertion ?H ?ed ?pcs ?pre ?ctx ?b ?rec tr"
    using judge_decides [of ?rec ?pre ?H ?ed ?pcs ?ctx ?b] j by (simp add: trie_new_def ZERO_def)
  with judge_decides [of ?rec ?pre ?H ?ed ?pcs ?ctx ?b] j show ?thesis by (simp add: trie_new_def ZERO_def)
qed

text \<open>
  C15.  In a bisection game the watcher makes the moves of the trace player.  Over a batch whose replay completes,
  wherever the trace player finds a segment to select in a dissection of an interval inside the trace, the
  watcher submits that segment; and at the disputed step, wherever the trace player has a one-step proof, the
  arguments the watcher submits are that proof.
\<close>

theorem watcher_plays_trace:
  assumes r: "replay_batch H ed pcs pre txs ctx = Ok r" "rp_fails_at r = None"
  shows "(first_disagreement H (player_of r) d offered = (Ok (Some k) :: (play_error, _) result)
      \<and> dispute_boundaries d = (Ok bs :: (play_error, _) result) \<and> (\<forall>b\<in>set bs. unat b \<le> length (rp_program r))
      \<and> length bs = length offered + 2
      \<longrightarrow> choose_segment H r bs 0 offered = (Ok k :: (watch_error, _) result))
    \<and> (disputed_step d = Some step \<and> player_one_step_proof H ed (player_of r) d = (Ok (Some p) :: (play_error, _) result)
      \<longrightarrow> one_step_witness H ed r step = (Ok (proof_args p) :: (watch_error, _) result))"
proof -
  have pre: "rp_pre r = pre" using replay_batch_static [OF r(1)] by simp
  have e: "execute_batch H ed pcs (rp_pre r) ctx txs = Ok (rp_post r, trace_of r)"
    unfolding replay_batch_complete [symmetric] pre using r by blast
  obtain css roots where "instructions (trace_of r) = concat css" "run_steps H ed (rp_pre r) (concat css) = Ok (rp_post r, roots)"
    "states (trace_of r) = machine_start (mt_root (rp_pre r)) # states_from 0 roots"
    by (rule execute_batch_steps [OF e])
  then have "length (rp_states r) = Suc (length (rp_program r))" by (simp add: trace_of_def length_run_steps)
  then show ?thesis
    using choose_segment_player [OF r(2), of bs 0 offered, where 'e = play_error and 'f = watch_error]
      one_step_witness_player [OF e, where 'e = play_error and 'f = watch_error]
    by (auto simp: first_disagreement_def less_Suc_eq_le)
qed

theorem watcher_plays_trace_witness:
  "\<exists>tr r. replay_batch demo_hash sample_ed [] tr [demo_tx] (without_keyless 60) = Ok r
     \<and> choose_segment demo_hash r [0, 1, 2, 3, 4, 5, 6] 0 [2, 3, 4, 5, 6] = (Ok 0 :: (watch_error, _) result)"
proof -
  obtain tr tr' t where b: "execute_batch demo_hash sample_ed [] tr (without_keyless 60) [demo_tx] = Ok (tr', t)"
    "instructions t = demo_instrs" and l: "length (states t) = 7" and at: "\<And>k. k \<le> 6 \<Longrightarrow> honest_at demo_hash t k = of_nat k"
    by (rule demo_trace) blast
  from b(1) obtain r where r: "replay_batch demo_hash sample_ed [] tr [demo_tx] (without_keyless 60) = Ok r"
    "rp_fails_at r = None" "trace_of r = t"
    unfolding replay_batch_complete [symmetric] by blast
  let ?d = "demo_offered 7 [2, 3, 4, 5, 6]" and ?bs = "[0, 1, 2, 3, 4, 5, 6] :: u64 list"
  have bs: "dispute_boundaries ?d = (Ok ?bs :: (play_error, _) result)"
    by (simp add: demo_offered_eval(2) demo_open dispute_boundaries_def demo_boundaries)
  have "states (tp_trace (player_of r)) \<noteq> []" using l r(3) by (auto simp: player_of_def)
  from commitment_at_honest [OF this, of demo_hash 1] at [of 1]
  have "commitment_at demo_hash (player_of r) 1 = (Ok 1 :: (play_error, _) result)" by (simp add: player_of_def r(3))
  then have f: "first_disagreement demo_hash (player_of r) ?d [2, 3, 4, 5, 6] = (Ok (Some 0) :: (play_error, _) result)"
    unfolding first_disagreement_def bs by simp
  have "length (rp_program r) = 6" using b(2) r(3) by (auto simp: trace_of_def demo_instrs_def)
  then have "(\<forall>b\<in>set ?bs. unat b \<le> length (rp_program r)) \<and> length ?bs = length ([2, 3, 4, 5, 6] :: hash256 list) + 2" by simp
  with watcher_plays_trace [OF r(1,2), of ?d "[2, 3, 4, 5, 6]" 0 ?bs] f bs
  have "choose_segment demo_hash r ?bs 0 [2, 3, 4, 5, 6] = (Ok 0 :: (watch_error, _) result)" by blast
  with r(1) show ?thesis by blast
qed

end
