(* ===== verification/Relayer.thy ===== *)
theory Relayer
  imports L1 Batch
begin

text \<open>
  The proposer's agent on L1 (\<open>relayer.rs\<close>): posting sealed blocks as assertions one on the other,
  answering bisection moves, claiming timeouts and finalizing.  L1, the source of L2 blocks and
  the state file are parameters over a world; an action takes and gives back the world
  together with the list of posted assertions.
\<close>

section \<open>State\<close>

record l2_block =
  lb_height :: u64
  lb_timestamp :: u64
  lb_base_fee :: u128
  lb_fee_recipient :: l2address
  lb_pre_state_root :: hash256
  lb_post_state_root :: hash256
  lb_tx_bytes :: "bytes list"
  lb_tx_starts :: "u64 list"
  lb_trace_length :: u64

record 'w l2_source =
  ls_block :: "u64 \<Rightarrow> ('w, bytes, l2_block option) act"
  ls_commitments :: "u64 \<Rightarrow> u64 list \<Rightarrow> ('w, bytes, hash256 list) act"

record posted =
  po_height :: u64
  po_id :: bytes
  po_finalized :: bool
  po_rejected :: bool

record step_report =
  sr_posted :: "u64 list"
  sr_dissected :: "(bytes \<times> bytes) list"
  sr_timeouts_claimed :: nat
  sr_finalized :: "u64 list"
  sr_rejected :: "u64 list"

datatype relay_error = RelayL1 l1_error | RelayL2 bytes | RelayState | RelayRejected u64

record 'w relay_env =
  re_hash :: hasher
  re_text :: text_codecs
  re_l1 :: "'w l1"
  re_l2 :: "'w l2_source"
  re_save :: "posted list \<Rightarrow> ('w, bytes, unit) act"
  re_load :: "('w, bytes, posted list option) act"
  re_bond :: u128

type_synonym ('w, 'a) relay = "('w \<times> posted list, relay_error, 'a) act"

definition in_world :: "('e \<Rightarrow> relay_error) \<Rightarrow> ('w, 'e, 'a) act \<Rightarrow> ('w, 'a) relay" where
  "in_world g m = (\<lambda>(w, ps). case m w of (r, w') \<Rightarrow> (map_err g r, (w', ps)))"

definition posted_list :: "('w, posted list) relay" where
  "posted_list = (\<lambda>(w, ps). (Ok ps, (w, ps)))"

definition set_posted :: "posted list \<Rightarrow> ('w, unit) relay" where
  "set_posted ps' = (\<lambda>(w, ps). (Ok (), (w, ps')))"

definition relay_save :: "'w relay_env \<Rightarrow> ('w, unit) relay" where
  "relay_save env = bind_act posted_list (\<lambda>ps. in_world (\<lambda>_. RelayState) (re_save env ps))"

definition parse_id :: "text_codecs \<Rightarrow> bytes \<Rightarrow> bytes32" where
  "parse_id tc hex_id =
     (case tc_hex_decode tc hex_id of
        Some b \<Rightarrow> if length b = 32 then from_be b else 0
      | None \<Rightarrow> 0)"

definition id_bytes :: "text_codecs \<Rightarrow> bytes \<Rightarrow> bytes" where
  "id_bytes tc hex_id = (case tc_hex_decode tc hex_id of Some b \<Rightarrow> b | None \<Rightarrow> [])"

definition relayer_new :: "'w relay_env \<Rightarrow> ('w, relay_error, posted list) act" where
  "relayer_new env =
     bind_act (map_err_act (\<lambda>_. RelayState) (re_load env)) (\<lambda>s.
       give (Ok (case s of Some ps \<Rightarrow> ps | None \<Rightarrow> [])))"

section \<open>Posting\<close>

text \<open>The assertion of a block on a parent, and the call that posts it.\<close>

definition block_assertion_id :: "hasher \<Rightarrow> u128 \<Rightarrow> bytes32 \<Rightarrow> l2_block \<Rightarrow> ('e, bytes32) result" where
  "block_assertion_id H bond parent b =
     and_then (build H (zip (lb_tx_starts b) (lb_tx_bytes b))) (\<lambda>tree.
     and_then (bt_root tree) (\<lambda>root.
       Ok (l1_assertion_id H parent (lb_pre_state_root b) (lb_post_state_root b)
         (header_commitment H (lb_timestamp b) (lb_base_fee b) (lb_fee_recipient b) (bt_tx_count tree) root)
         (lb_trace_length b) bond)))"

definition post_args :: "bytes \<Rightarrow> u128 \<Rightarrow> bytes32 \<Rightarrow> l2_block \<Rightarrow> l1_arg list" where
  "post_args contract bond parent b =
     [AAddress contract, ABytes (to_be parent), ABytes (to_be (lb_pre_state_root b)), ABytes (to_be (lb_post_state_root b)),
      AU64 (lb_timestamp b), AU128 (lb_base_fee b), ABytes (to_be (lb_fee_recipient b)), ABytesList (lb_tx_bytes b),
      AU64List (lb_tx_starts b), AU64 (lb_trace_length b), AU128 bond]"

definition record_args :: "'w relay_env \<Rightarrow> bytes \<Rightarrow> l1_arg list" where
  "record_args env i = [AAddress (l1_contract (re_l1 env)), ABytes i]"

text \<open>Whether a call succeeds, without failing when it does not.\<close>

definition succeeds :: "('s, 'e, 'a) act \<Rightarrow> ('s, 'f, bool) act" where
  "succeeds m = (\<lambda>s. case m s of (Ok _, s') \<Rightarrow> (Ok True, s') | (Err _, s') \<Rightarrow> (Ok False, s') | (Panic, s') \<Rightarrow> (Panic, s'))"

definition next_height :: "posted list \<Rightarrow> ('e, u64) result" where
  "next_height ps = (if ps = [] then Ok 1 else or_panic (checked_add (po_height (last ps)) 1))"

definition parent_of :: "'w relay_env \<Rightarrow> posted list \<Rightarrow> l2_block \<Rightarrow> bytes32" where
  "parent_of env ps b =
     (if ps = [] then genesis_id (re_hash env) (lb_pre_state_root b) else parse_id (re_text env) (po_id (last ps)))"

text \<open>Posting a sealed block, then one round of the loop: nothing when the next block is not sealed.\<close>

definition post_block :: "'w relay_env \<Rightarrow> posted list \<Rightarrow> u64 \<Rightarrow> l2_block \<Rightarrow> ('w, unit) relay" where
  "post_block env ps height b =
     (let parent = parent_of env ps b in
      bind_act (give (block_assertion_id (re_hash env) (re_bond env) parent b)) (\<lambda>i.
      bind_act (succeeds (in_world RelayL1 (l1_view (re_l1 env) (str_bytes ''assertions::record'') (record_args env (to_be i))))) (\<lambda>already_posted.
      bind_act (if already_posted then give (Ok 0)
         else in_world RelayL1 (l1_submit (re_l1 env) (str_bytes ''assertions::post'')
           (post_args (l1_contract (re_l1 env)) (re_bond env) parent b))) (\<lambda>_.
      bind_act (set_posted (ps @ [\<lparr>po_height = height, po_id = tc_hex_encode (re_text env) (to_be i),
         po_finalized = False, po_rejected = False\<rparr>])) (\<lambda>_.
        relay_save env)))))"

definition post_one :: "'w relay_env \<Rightarrow> step_report \<Rightarrow> ('w, step_report option) relay" where
  "post_one env report =
     bind_act posted_list (\<lambda>ps.
     bind_act (give (next_height ps)) (\<lambda>height.
     bind_act (in_world RelayL2 (ls_block (re_l2 env) height)) (\<lambda>blk.
       case blk of
         None \<Rightarrow> give (Ok None)
       | Some b \<Rightarrow>
           bind_act (post_block env ps height b) (\<lambda>_.
             give (Ok (Some (report\<lparr>sr_posted := sr_posted report @ [height]\<rparr>)))))))"

text \<open>The loop; \<open>None\<close> is a loop that never ends.\<close>

partial_function (option) post_loop ::
    "'w relay_env \<Rightarrow> step_report \<Rightarrow> 'w \<times> posted list \<Rightarrow> ((relay_error, step_report) result \<times> ('w \<times> posted list)) option" where
  "post_loop env report s =
     (case post_one env report s of
        (Ok None, s') \<Rightarrow> Some (Ok report, s')
      | (Ok (Some report'), s') \<Rightarrow> post_loop env report' s'
      | (Err e, s') \<Rightarrow> Some (Err e, s')
      | (Panic, s') \<Rightarrow> Some (Panic, s'))"

definition post_new :: "'w relay_env \<Rightarrow> step_report \<Rightarrow> ('w, step_report) relay" where
  "post_new env report = (\<lambda>s. case post_loop env report s of Some r \<Rightarrow> r | None \<Rightarrow> (Panic, s))"

section \<open>Defending\<close>

definition relay_record :: "'w relay_env \<Rightarrow> bytes \<Rightarrow> ('w, l1_record) relay" where
  "relay_record env hex_id =
     bind_act (in_world RelayL1 (l1_view (re_l1 env) (str_bytes ''assertions::record'')
        (record_args env (id_bytes (re_text env) hex_id)))) (\<lambda>v.
       give (map_err RelayL1 (parse_record (re_text env) v)))"

definition defend_dispute :: "'w relay_env \<Rightarrow> u64 \<Rightarrow> posted \<Rightarrow> bytes \<Rightarrow> bytes \<Rightarrow> step_report \<Rightarrow> ('w, step_report) relay" where
  "defend_dispute env now p challenger did report =
     bind_act (in_world RelayL1 (l1_view (re_l1 env) (str_bytes ''disputes::dispute_state'') (record_args env did))) (\<lambda>v.
     bind_act (give (map_err RelayL1 (parse_dispute (re_text env) v))) (\<lambda>d.
       if \<not> dst_exists d \<or> dst_stage d = 2 then give (Ok report)
       else if dst_turn d = 0 \<and> dst_stage d = 0 \<and> \<not> dst_has_offer d then
         bind_act (give (boundaries (dst_lo d) (dst_hi d) DEFAULT_ARITY)) (\<lambda>bounds.
         bind_act (in_world RelayL2 (ls_commitments (re_l2 env) (po_height p) (butlast (tl bounds)))) (\<lambda>commitments.
         bind_act (in_world RelayL1 (l1_submit (re_l1 env) (str_bytes ''disputes::dissect'')
            (record_args env did @ [ABytesList (map to_be commitments)]))) (\<lambda>_.
           give (Ok (report\<lparr>sr_dissected := sr_dissected report @ [(po_id p, challenger)]\<rparr>)))))
       else if dst_turn d = 1 \<and> now > dst_deadline d then
         bind_act (in_world RelayL1 (l1_submit (re_l1 env) (str_bytes ''disputes::claim_timeout'') (record_args env did))) (\<lambda>_.
           give (Ok (report\<lparr>sr_timeouts_claimed := sr_timeouts_claimed report + 1\<rparr>)))
       else give (Ok report)))"

fun defend_challengers :: "'w relay_env \<Rightarrow> u64 \<Rightarrow> posted \<Rightarrow> json list \<Rightarrow> step_report \<Rightarrow> ('w, step_report) relay" where
  "defend_challengers env now p [] report = give (Ok report)"
| "defend_challengers env now p (c # cs) report =
     (case as_str c of
        None \<Rightarrow> defend_challengers env now p cs report
      | Some challenger \<Rightarrow>
          bind_act (give (dispute_id (re_text env) (id_bytes (re_text env) (po_id p)) challenger)) (\<lambda>did.
          bind_act (defend_dispute env now p challenger did report) (defend_challengers env now p cs)))"

definition challenger_list :: "json list \<Rightarrow> json list" where
  "challenger_list v = (case v of [] \<Rightarrow> [] | x # _ \<Rightarrow> (case as_array x of Some l \<Rightarrow> l | None \<Rightarrow> []))"

text \<open>The state \<open>self.state.posted\<close> with one flag of an entry set, the entry at an index that may be out of range.\<close>

definition posted_at :: "posted list \<Rightarrow> nat \<Rightarrow> ('e, posted) result" where
  "posted_at ps i = (if i < length ps then Ok (ps ! i) else Panic)"

definition defend_one :: "'w relay_env \<Rightarrow> u64 \<Rightarrow> nat \<Rightarrow> step_report \<Rightarrow> ('w, step_report) relay" where
  "defend_one env now i report =
     bind_act posted_list (\<lambda>ps.
     bind_act (give (posted_at ps i)) (\<lambda>p.
       if po_finalized p \<or> po_rejected p then give (Ok report)
       else
         bind_act (relay_record env (po_id p)) (\<lambda>rec.
           if lr_status rec = REJECTED then
             bind_act (set_posted (ps[i := p\<lparr>po_rejected := True\<rparr>])) (\<lambda>_.
             bind_act (relay_save env) (\<lambda>_. give (Err (RelayRejected (po_height p)))))
           else if lr_status rec \<noteq> CHALLENGED then give (Ok report)
           else
             bind_act (in_world RelayL1 (l1_view (re_l1 env) (str_bytes ''assertions::challengers'')
                (record_args env (id_bytes (re_text env) (po_id p))))) (\<lambda>v.
               defend_challengers env now p (challenger_list v) report))))"

fun defend_loop :: "'w relay_env \<Rightarrow> u64 \<Rightarrow> nat list \<Rightarrow> step_report \<Rightarrow> ('w, step_report) relay" where
  "defend_loop env now [] report = give (Ok report)"
| "defend_loop env now (i # is) report = bind_act (defend_one env now i report) (defend_loop env now is)"

definition defend :: "'w relay_env \<Rightarrow> step_report \<Rightarrow> ('w, step_report) relay" where
  "defend env report =
     bind_act (in_world RelayL1 (l1_now (re_l1 env))) (\<lambda>now.
     bind_act posted_list (\<lambda>ps. defend_loop env now [0..<length ps] report))"

section \<open>Finalizing\<close>

definition WINDOW_OPEN :: u64 where "WINDOW_OPEN = 37"
definition PARENT_NOT_FINAL :: u64 where "PARENT_NOT_FINAL = 38"

text \<open>The call that finalizes, its error a value.\<close>

definition finalize_call :: "'w relay_env \<Rightarrow> bytes \<Rightarrow> ('w, (l1_error, u64) result) relay" where
  "finalize_call env hex_id = (\<lambda>(w, ps).
     case l1_submit (re_l1 env) (str_bytes ''assertions::finalize'') (record_args env (id_bytes (re_text env) hex_id)) w of
       (Panic, w') \<Rightarrow> (Panic, (w', ps)) | (r, w') \<Rightarrow> (Ok r, (w', ps)))"

definition mark_finalized :: "'w relay_env \<Rightarrow> nat \<Rightarrow> posted \<Rightarrow> ('w, unit) relay" where
  "mark_finalized env i p =
     bind_act posted_list (\<lambda>ps.
     bind_act (set_posted (ps[i := p\<lparr>po_finalized := True\<rparr>])) (\<lambda>_. relay_save env))"

text \<open>The body of the loop, with whether the loop goes on, and the loop.\<close>

definition finalize_entry :: "'w relay_env \<Rightarrow> u128 \<Rightarrow> u128 \<Rightarrow> nat \<Rightarrow> posted \<Rightarrow> step_report \<Rightarrow> ('w, bool \<times> step_report) relay" where
  "finalize_entry env window now i p report =
     bind_act (relay_record env (po_id p)) (\<lambda>rec.
       if lr_status rec = FINALIZED then
         bind_act (mark_finalized env i p) (\<lambda>_. give (Ok (True, report)))
       else if lr_status rec \<noteq> PENDING then give (Ok (False, report))
       else
         bind_act (give (or_panic (checked_add (ucast (lr_posted_at rec)) window))) (\<lambda>until.
           if until > now then give (Ok (False, report))
           else
             bind_act (finalize_call env (po_id p)) (\<lambda>outcome.
               case outcome of
                 Ok _ \<Rightarrow>
                   bind_act (mark_finalized env i p) (\<lambda>_.
                     give (Ok (True, report\<lparr>sr_finalized := sr_finalized report @ [po_height p]\<rparr>)))
               | Err e \<Rightarrow>
                   if is_abort e WINDOW_OPEN \<or> is_abort e PARENT_NOT_FINAL then give (Ok (False, report))
                   else give (Err (RelayL1 e))
               | Panic \<Rightarrow> give Panic)))"

fun finalize_loop :: "'w relay_env \<Rightarrow> u128 \<Rightarrow> u128 \<Rightarrow> nat list \<Rightarrow> step_report \<Rightarrow> ('w, step_report) relay" where
  "finalize_loop env window now [] report = give (Ok report)"
| "finalize_loop env window now (i # is) report =
     bind_act posted_list (\<lambda>ps.
     bind_act (give (posted_at ps i)) (\<lambda>p.
     bind_act (if po_finalized p \<or> po_rejected p then give (Ok (True, report)) else finalize_entry env window now i p report)
       (\<lambda>(go, report'). if go then finalize_loop env window now is report' else give (Ok report'))))"

definition finalize_posted :: "'w relay_env \<Rightarrow> step_report \<Rightarrow> ('w, step_report) relay" where
  "finalize_posted env report =
     bind_act (in_world RelayL1 (l1_view (re_l1 env) (str_bytes ''assertions::challenge_window'') [AAddress (l1_contract (re_l1 env))])) (\<lambda>v.
     bind_act (give (map_err RelayL1 (and_then (first_value v) u128_of))) (\<lambda>window.
     bind_act (in_world RelayL1 (l1_now (re_l1 env))) (\<lambda>now.
     bind_act posted_list (\<lambda>ps. finalize_loop env window (ucast now) [0..<length ps] report))))"

definition relayer_step :: "'w relay_env \<Rightarrow> ('w, step_report) relay" where
  "relayer_step env =
     bind_act (defend env \<lparr>sr_posted = [], sr_dissected = [], sr_timeouts_claimed = 0, sr_finalized = [], sr_rejected = []\<rparr>) (\<lambda>report.
     bind_act (post_new env report) (finalize_posted env))"

section \<open>The posting loop ends\<close>

text \<open>Calls leave the list alone.\<close>

lemma frame_world: "ensures (\<lambda>s. snd s = ps) (in_world g m) (\<lambda>_ s. snd s = ps) (\<lambda>s. snd s = ps)"
  by (rule ensuresI) (auto simp: in_world_def split: prod.splits)

lemma frame_save: "ensures (\<lambda>s. snd s = ps) (relay_save env) (\<lambda>_ s. snd s = ps) (\<lambda>s. snd s = ps)"
  unfolding relay_save_def by (rule ensures_bind [OF _ frame_world]) (auto intro: ensuresI simp: posted_list_def)

lemma ensures_succeeds: "ensures P m (\<lambda>_. Q) Q \<Longrightarrow> ensures P (succeeds m) (\<lambda>_. Q) Q"
  unfolding ensures_def succeeds_def by (auto split: prod.splits result.splits)

lemma post_block_list:
  "ensures (\<lambda>s. snd s = ps) (post_block env ps h b)
     (\<lambda>_ s. \<exists>p. snd s = ps @ [p] \<and> po_height p = h) (\<lambda>_. True)"
proof -
  let ?P = "\<lambda>s. snd s = ps"
  have g: "ensures ?P (give r) (\<lambda>_. ?P) ?P" for r :: "(relay_error, 'x) result" by (rule ensuresI) (auto simp: give_def)
  have set_list: "ensures ?P (set_posted qs) (\<lambda>_ s. snd s = qs) (\<lambda>_. True)" for qs by (rule ensuresI) (auto simp: set_posted_def)
  have w: "ensures P m Q (\<lambda>_. True)" if "ensures P m Q E" for P m Q E using that by (auto elim: ensures_weaken)
  show ?thesis unfolding post_block_def Let_def
    by (rule ensures_bind [OF w [OF g]], rule ensures_bind [OF w [OF ensures_succeeds [OF frame_world]]],
        rule ensures_bind [where R = "\<lambda>_. ?P"], rule ensures_if, rule w [OF g], rule w [OF frame_world],
        rule ensures_bind [OF set_list], rule ensures_weaken [OF frame_save]) auto
qed

lemma post_one_Some:
  assumes "post_one env report (w, ps) = (Ok (Some report'), (w', ps'))"
  obtains h p where "next_height ps = (Ok h :: (relay_error, _) result)" "ps' = ps @ [p]" "po_height p = h"
proof -
  from assms obtain h b w1 u where h: "next_height ps = (Ok h :: (relay_error, _) result)"
    and b: "post_block env ps h b (w1, ps) = (Ok u, (w', ps'))"
    by (auto simp: post_one_def bind_act_Ok_iff posted_list_def give_def in_world_def map_err_Ok_iff split: option.splits prod.splits)
  from ensuresD(1) [OF post_block_list, OF _ b] h that show thesis by auto
qed

definition remaining :: "posted list \<Rightarrow> nat" where
  "remaining ps = (if ps = [] then 2 ^ 64 else 2 ^ 64 - 1 - unat (po_height (last ps)))"

lemma post_one_remaining:
  assumes "post_one env report (w, ps) = (Ok (Some report'), (w', ps'))"
  shows "remaining ps' < remaining ps"
proof -
  obtain h p where h: "next_height ps = (Ok h :: (relay_error, _) result)" "ps' = ps @ [p]" "po_height p = h"
    by (rule post_one_Some [OF assms])
  then have "unat (po_height (last ps)) + 1 = unat h" if "ps \<noteq> []"
    using that by (auto simp: next_height_def or_panic_Ok_iff checked_add_Some_iff)
  moreover have "unat h < 2 ^ 64" using unat_less_pow [of h] by simp
  ultimately show ?thesis by (auto simp: remaining_def h)
qed

lemma post_loop_ends: "\<exists>r. post_loop env report (w, ps) = Some r"
proof (induction "remaining ps" arbitrary: report w ps rule: less_induct)
  case less
  have "\<exists>r. post_loop env report' (w', ps') = Some r"
    if "post_one env report (w, ps) = (Ok (Some report'), (w', ps'))" for report' w' ps'
    by (rule less [OF post_one_remaining [OF that]])
  then show ?case
    by (subst post_loop.simps) (auto split: prod.splits result.splits option.splits)
qed

section \<open>What is posted\<close>

text \<open>
  A relation of worlds to the assertions L1 has: nothing an agent calls removes one, a record that
  can be viewed is of one, and a successful post adds the one its arguments describe.
\<close>

definition grows :: "('w \<Rightarrow> bytes \<Rightarrow> bool) \<Rightarrow> ('w, 'e, 'a) act \<Rightarrow> bool" where
  "grows has m \<longleftrightarrow> (\<forall>w r w' i. m w = (r, w') \<longrightarrow> has w i \<longrightarrow> has w' i)"

definition l1_lands :: "'w relay_env \<Rightarrow> ('w \<Rightarrow> bytes \<Rightarrow> bool) \<Rightarrow> bool" where
  "l1_lands env has \<longleftrightarrow>
     (\<forall>f a. grows has (l1_submit (re_l1 env) f a)) \<and> (\<forall>f a. grows has (l1_view (re_l1 env) f a))
     \<and> grows has (l1_now (re_l1 env)) \<and> (\<forall>h. grows has (ls_block (re_l2 env) h))
     \<and> (\<forall>h steps. grows has (ls_commitments (re_l2 env) h steps)) \<and> (\<forall>ps. grows has (re_save env ps))
     \<and> (\<forall>i w v w'. l1_view (re_l1 env) (str_bytes ''assertions::record'') (record_args env i) w = (Ok v, w') \<longrightarrow> has w' i)
     \<and> (\<forall>parent b i w g w'. l1_submit (re_l1 env) (str_bytes ''assertions::post'')
          (post_args (l1_contract (re_l1 env)) (re_bond env) parent b) w = (Ok g, w') \<longrightarrow>
        block_assertion_id (re_hash env) (re_bond env) parent b = (Ok i :: (relay_error, _) result) \<longrightarrow> has w' (to_be i))"

text \<open>
  Posted assertions, each of the block L2 answered with for the next height and on the one before,
  whether or not that one has been rejected since.
\<close>

definition sealed :: "'w relay_env \<Rightarrow> u64 \<Rightarrow> l2_block \<Rightarrow> bool" where
  "sealed env h b \<longleftrightarrow> (\<exists>w w'. ls_block (re_l2 env) h w = (Ok (Some b), w'))"

inductive posted_line :: "'w relay_env \<Rightarrow> posted list \<Rightarrow> bool" for env where
  Empty: "posted_line env []"
| Post: "posted_line env ps \<Longrightarrow> next_height ps = (Ok h :: (relay_error, _) result) \<Longrightarrow> sealed env h b \<Longrightarrow>
    block_assertion_id (re_hash env) (re_bond env) (parent_of env ps b) b = (Ok i :: (relay_error, _) result) \<Longrightarrow>
    po_height p = h \<Longrightarrow> po_id p = tc_hex_encode (re_text env) (to_be i) \<Longrightarrow> posted_line env (ps @ [p])"

definition same_posts :: "posted list \<Rightarrow> posted list \<Rightarrow> bool" where
  "same_posts ps qs \<longleftrightarrow> list_all2 (\<lambda>p q. po_height p = po_height q \<and> po_id p = po_id q) ps qs"

lemma same_posts_line: "posted_line env ps \<Longrightarrow> same_posts ps qs \<Longrightarrow> posted_line env qs"
proof (induction arbitrary: qs rule: posted_line.induct)
  case Empty
  then show ?case by (simp add: same_posts_def posted_line.Empty)
next
  case (Post ps h b i p)
  then obtain qs' q where qs: "qs = qs' @ [q]" "same_posts ps qs'" "po_height p = po_height q" "po_id p = po_id q"
    by (auto simp: same_posts_def list_all2_append1 list_all2_Cons1)
  have l: "length ps = length qs'" and e: "\<And>k. k < length ps \<Longrightarrow> po_height (ps ! k) = po_height (qs' ! k) \<and> po_id (ps ! k) = po_id (qs' ! k)"
    using qs(2) by (simp_all add: same_posts_def list_all2_conv_all_nth)
  have "ps = [] \<longleftrightarrow> qs' = []" using l by auto
  moreover have "po_height (last ps) = po_height (last qs') \<and> po_id (last ps) = po_id (last qs')" if "ps \<noteq> []"
    using e [of "length ps - 1"] that l \<open>ps = [] \<longleftrightarrow> qs' = []\<close> by (simp add: last_conv_nth)
  ultimately have "next_height qs' = (next_height ps :: (relay_error, _) result)" "parent_of env qs' b = parent_of env ps b"
    by (auto simp: next_height_def parent_of_def)
  with Post.hyps qs(3,4) posted_line.Post [OF Post.IH [OF qs(2)], of h b i q] show ?case by (simp add: qs(1))
qed

definition relay_inv :: "'w relay_env \<Rightarrow> ('w \<Rightarrow> bytes \<Rightarrow> bool) \<Rightarrow> 'w \<times> posted list \<Rightarrow> bool" where
  "relay_inv env has s \<longleftrightarrow> posted_line env (snd s) \<and> (\<forall>p\<in>set (snd s). has (fst s) (id_bytes (re_text env) (po_id p)))"

definition relay_at :: "'w relay_env \<Rightarrow> ('w \<Rightarrow> bytes \<Rightarrow> bool) \<Rightarrow> posted list \<Rightarrow> 'w \<times> posted list \<Rightarrow> bool" where
  "relay_at env has ps s \<longleftrightarrow> relay_inv env has s \<and> snd s = ps"

named_theorems relay_rules \<open>actions that keep what is posted\<close>

lemma relay_read: "ensures (relay_inv env has) posted_list (relay_at env has) (relay_inv env has)"
  by (rule ensuresI) (auto simp: posted_list_def relay_at_def)

lemma relay_world [relay_rules]:
  "grows has m \<Longrightarrow> ensures (relay_at env has ps) (in_world g m) (\<lambda>_. relay_at env has ps) (relay_inv env has)"
  by (rule ensuresI) (auto simp: in_world_def grows_def relay_at_def relay_inv_def split: prod.splits)

lemma relay_give [relay_rules]: "ensures (relay_at env has ps) (give r) (\<lambda>_. relay_at env has ps) (relay_inv env has)"
  by (rule ensuresI) (auto simp: give_def relay_at_def)

lemma relay_set:
  assumes "same_posts ps qs"
  shows "ensures (relay_at env has ps) (set_posted qs) (\<lambda>_. relay_at env has qs) (relay_inv env has)"
proof -
  have "\<exists>p\<in>set ps. po_id p = po_id q" if "q \<in> set qs" for q
    using assms that by (fastforce simp: same_posts_def list_all2_conv_all_nth in_set_conv_nth)
  then show ?thesis using assms
    by (intro ensuresI) (fastforce simp: set_posted_def relay_at_def relay_inv_def intro: same_posts_line)+
qed

lemma relay_at_inv: "relay_at env has ps s \<Longrightarrow> relay_inv env has s"
  by (simp add: relay_at_def)

lemma relay_save_at [relay_rules]:
  assumes "l1_lands env has"
  shows "ensures (relay_at env has ps) (relay_save env) (\<lambda>_. relay_at env has ps) (relay_inv env has)"
proof -
  have "ensures (relay_at env has ps) posted_list (\<lambda>qs s. relay_at env has ps s \<and> qs = ps) (relay_inv env has)"
    by (rule ensuresI) (auto simp: posted_list_def relay_at_def)
  moreover have "ensures (\<lambda>s. relay_at env has ps s \<and> qs = ps) (in_world (\<lambda>_. RelayState) (re_save env qs))
      (\<lambda>_. relay_at env has ps) (relay_inv env has)" for qs
    using assms by (intro ensures_weaken [OF relay_world]) (auto simp: l1_lands_def)
  ultimately show ?thesis unfolding relay_save_def by (rule ensures_bind)
qed

lemma ensures_top: "(\<And>ps. ensures (relay_at env has ps) m (\<lambda>_. relay_inv env has) (relay_inv env has)) \<Longrightarrow>
   ensures (relay_inv env has) m (\<lambda>_. relay_inv env has) (relay_inv env has)"
  unfolding ensures_def relay_at_def by (metis prod.collapse)

lemma relay_weak:
  "ensures (relay_at env has ps) m (\<lambda>_. relay_at env has ps) (relay_inv env has) \<Longrightarrow>
   ensures (relay_at env has ps) m (\<lambda>_. relay_inv env has) (relay_inv env has)"
  by (auto elim: ensures_weaken simp: relay_at_def)

lemma relay_give_inv: "ensures (relay_inv env has) (give r) (\<lambda>_. relay_inv env has) (relay_inv env has)"
  by (rule ensuresI) (auto simp: give_def)

lemma l1_landsD:
  assumes "l1_lands env has"
  shows "grows has (l1_submit (re_l1 env) f a)" "grows has (l1_view (re_l1 env) f a)" "grows has (l1_now (re_l1 env))"
    "grows has (ls_block (re_l2 env) h)" "grows has (ls_commitments (re_l2 env) h steps)"
  using assms unfolding l1_lands_def by blast+

lemmas relay_calls = l1_landsD [THEN relay_world]

lemma relay_record_at:
  assumes "l1_lands env has"
  shows "ensures (relay_at env has ps) (relay_record env hid) (\<lambda>_. relay_at env has ps) (relay_inv env has)"
  unfolding relay_record_def by (intro ensures_bind [OF relay_calls(2) [OF assms]] relay_give)

lemma defend_dispute_at:
  assumes "l1_lands env has"
  shows "ensures (relay_at env has ps) (defend_dispute env now p c did report) (\<lambda>_. relay_at env has ps) (relay_inv env has)"
  unfolding defend_dispute_def
  by (intro ensures_bind [OF relay_calls(2) [OF assms]] ensures_bind [OF relay_give] ensures_if relay_give
      ensures_bind [OF relay_calls(5) [OF assms]] ensures_bind [OF relay_calls(1) [OF assms]])

lemma defend_challengers_at:
  assumes "l1_lands env has"
  shows "ensures (relay_at env has ps) (defend_challengers env now p cs report) (\<lambda>_. relay_at env has ps) (relay_inv env has)"
proof (induction cs arbitrary: report)
  case (Cons c cs)
  then show ?case
    by (cases "as_str c") (auto intro: ensures_bind [OF relay_give] ensures_bind [OF defend_dispute_at [OF assms]])
qed (simp add: relay_give)

lemma flag_same: "i < length ps \<Longrightarrow> po_height q = po_height (ps ! i) \<Longrightarrow> po_id q = po_id (ps ! i) \<Longrightarrow> same_posts ps (ps[i := q])"
  by (auto simp: same_posts_def list_all2_conv_all_nth nth_list_update)

lemma posted_at_ensures:
  "ensures (relay_at env has ps) (give (posted_at ps i)) (\<lambda>p s. relay_at env has ps s \<and> i < length ps \<and> p = ps ! i) (relay_inv env has)"
  by (rule ensures_give) (auto simp: posted_at_def relay_at_def split: if_splits)

lemma defend_one_inv:
  assumes "l1_lands env has"
  shows "ensures (relay_inv env has) (defend_one env now i report) (\<lambda>_. relay_inv env has) (relay_inv env has)"
proof -
  have "ensures (\<lambda>s. relay_at env has ps s \<and> i < length ps \<and> p = ps ! i)
       (if po_finalized p \<or> po_rejected p then give (Ok report)
       else
         bind_act (relay_record env (po_id p)) (\<lambda>rec.
           if lr_status rec = REJECTED then
             bind_act (set_posted (ps[i := p\<lparr>po_rejected := True\<rparr>])) (\<lambda>_.
             bind_act (relay_save env) (\<lambda>_. give (Err (RelayRejected (po_height p)))))
           else if lr_status rec \<noteq> CHALLENGED then give (Ok report)
           else
             bind_act (in_world RelayL1 (l1_view (re_l1 env) (str_bytes ''assertions::challengers'')
                (record_args env (id_bytes (re_text env) (po_id p))))) (\<lambda>v.
               defend_challengers env now p (challenger_list v) report)))
       (\<lambda>_. relay_inv env has) (relay_inv env has)" for ps p
  proof (cases "i < length ps \<and> p = ps ! i")
    case True
    then have "same_posts ps (ps[i := (ps ! i)\<lparr>po_rejected := True\<rparr>])" by (intro flag_same) auto
    note st = relay_set [OF this]
    from True show ?thesis
      by (auto intro!: ensures_if ensures_bind [OF relay_record_at [OF assms]] ensures_bind [OF st]
          ensures_bind [OF relay_save_at [OF assms]] ensures_bind [OF relay_calls(2) [OF assms]] relay_weak [OF relay_give]
          relay_weak [OF defend_challengers_at [OF assms]])
  qed (auto intro: ensuresI)
  then show ?thesis unfolding defend_one_def
    by (intro ensures_bind [OF relay_read] ensures_bind [OF posted_at_ensures])
qed

lemma mark_finalized_at:
  assumes "l1_lands env has" "i < length ps" "p = ps ! i"
  shows "ensures (relay_at env has ps) (mark_finalized env i p) (\<lambda>_. relay_inv env has) (relay_inv env has)"
proof -
  have read: "ensures (relay_at env has ps) posted_list (\<lambda>qs s. relay_at env has ps s \<and> qs = ps) (relay_inv env has)"
    by (rule ensuresI) (auto simp: posted_list_def relay_at_def)
  have "same_posts ps (ps[i := p\<lparr>po_finalized := True\<rparr>])" using assms by (intro flag_same) auto
  note st = relay_set [OF this, of env has]
  have "ensures (\<lambda>s. relay_at env has ps s \<and> qs = ps) (bind_act (set_posted (qs[i := p\<lparr>po_finalized := True\<rparr>])) (\<lambda>_. relay_save env))
      (\<lambda>_. relay_inv env has) (relay_inv env has)" for qs
  proof (cases "qs = ps")
    case True
    then show ?thesis by (auto intro: ensures_bind [OF st relay_weak [OF relay_save_at [OF assms(1)]]])
  qed (auto intro: ensuresI)
  with read show ?thesis unfolding mark_finalized_def by (rule ensures_bind)
qed

lemma finalize_call_at:
  assumes "l1_lands env has"
  shows "ensures (relay_at env has ps) (finalize_call env hid) (\<lambda>_. relay_at env has ps) (relay_inv env has)"
  using l1_landsD(1) [OF assms, of "str_bytes ''assertions::finalize''" "record_args env (id_bytes (re_text env) hid)"]
  by (intro ensuresI) (auto simp: finalize_call_def grows_def relay_at_def relay_inv_def split: prod.splits result.splits)

lemma finalize_entry_at:
  assumes "l1_lands env has" "i < length ps" "p = ps ! i"
  shows "ensures (relay_at env has ps) (finalize_entry env window now i p report) (\<lambda>_. relay_inv env has) (relay_inv env has)"
proof -
  note mark = ensures_bind [OF mark_finalized_at [OF assms] relay_give_inv] and stop = relay_weak [OF relay_give]
  have outcome: "ensures (relay_at env has ps) (case outcome of
       Ok _ \<Rightarrow> bind_act (mark_finalized env i p) (\<lambda>_. give (Ok (True, report\<lparr>sr_finalized := sr_finalized report @ [po_height p]\<rparr>)))
     | Err e \<Rightarrow> if is_abort e WINDOW_OPEN \<or> is_abort e PARENT_NOT_FINAL then give (Ok (False, report)) else give (Err (RelayL1 e))
     | Panic \<Rightarrow> give Panic) (\<lambda>_. relay_inv env has) (relay_inv env has)" for outcome :: "(l1_error, u64) result"
    by (cases outcome) (auto intro: mark stop)
  show ?thesis unfolding finalize_entry_def
    by (intro ensures_if ensures_bind [OF relay_record_at [OF assms(1)]] mark stop ensures_bind [OF relay_give]
        ensures_bind [OF finalize_call_at [OF assms(1)] outcome])
qed

lemma finalize_loop_inv:
  assumes "l1_lands env has"
  shows "ensures (relay_inv env has) (finalize_loop env window now is report) (\<lambda>_. relay_inv env has) (relay_inv env has)"
proof (induction "is" arbitrary: report)
  case (Cons i "is")
  have "ensures (\<lambda>s. relay_at env has ps s \<and> i < length ps \<and> p = ps ! i)
     (if po_finalized p \<or> po_rejected p then give (Ok (True, report)) else finalize_entry env window now i p report)
     (\<lambda>_. relay_inv env has) (relay_inv env has)" for ps p
  proof (cases "i < length ps \<and> p = ps ! i")
    case True
    then show ?thesis
      by (auto intro!: ensures_if relay_weak [OF relay_give] finalize_entry_at [OF assms])
  qed (auto intro: ensuresI)
  moreover have "ensures (relay_inv env has) (case x of (go, report') \<Rightarrow>
      if go then finalize_loop env window now is report' else give (Ok report')) (\<lambda>_. relay_inv env has) (relay_inv env has)" for x
    by (cases x) (auto intro: Cons.IH relay_give_inv)
  ultimately show ?case unfolding finalize_loop.simps
    by (intro ensures_bind [OF relay_read] ensures_bind [OF posted_at_ensures] ensures_bind)
qed (simp add: relay_give_inv)

lemma defend_loop_inv:
  assumes "l1_lands env has"
  shows "ensures (relay_inv env has) (defend_loop env now is report) (\<lambda>_. relay_inv env has) (relay_inv env has)"
  by (induction "is" arbitrary: report) (auto intro: relay_give_inv ensures_bind [OF defend_one_inv [OF assms]])

lemma post_block_inv:
  assumes lands: "l1_lands env has" and hex: "hex_reads_back (re_text env)"
    and h: "next_height ps = (Ok h :: (relay_error, _) result)" and sealed: "sealed env h b"
  shows "ensures (relay_at env has ps) (post_block env ps h b) (\<lambda>_. relay_inv env has) (relay_inv env has)"
proof -
  let ?parent = "parent_of env ps b" and ?at = "relay_at env has ps"
  let ?id = "\<lambda>i. block_assertion_id (re_hash env) (re_bond env) ?parent b = (Ok i :: (relay_error, _) result)"
  let ?p = "\<lambda>i. \<lparr>po_height = h, po_id = tc_hex_encode (re_text env) (to_be (i :: bytes32)), po_finalized = False, po_rejected = False\<rparr>"
  have g: "ensures ?at (give (block_assertion_id (re_hash env) (re_bond env) ?parent b :: (relay_error, _) result)) (\<lambda>i s. ?at s \<and> ?id i) (relay_inv env has)"
    by (rule ensures_give) (auto simp: relay_at_def)
  have v: "ensures (\<lambda>s. ?at s \<and> ?id i)
      (succeeds (in_world RelayL1 (l1_view (re_l1 env) (str_bytes ''assertions::record'') (record_args env (to_be i)))))
      (\<lambda>a s. ?at s \<and> ?id i \<and> (a \<longrightarrow> has (fst s) (to_be i))) (relay_inv env has)" for i
    using lands l1_landsD(2) [OF lands, of "str_bytes ''assertions::record''" "record_args env (to_be i)"]
    by (intro ensuresI) (auto simp: succeeds_def in_world_def grows_def relay_at_def relay_inv_def l1_lands_def map_err_Ok_iff
        split: prod.splits result.splits)
  have landed: "ensures (\<lambda>s. ?at s \<and> ?id i \<and> (a \<longrightarrow> has (fst s) (to_be i)))
      (if a then give (Ok 0) else in_world RelayL1 (l1_submit (re_l1 env) (str_bytes ''assertions::post'')
           (post_args (l1_contract (re_l1 env)) (re_bond env) ?parent b)))
      (\<lambda>_ s. ?at s \<and> ?id i \<and> has (fst s) (to_be i)) (relay_inv env has)" for i a
    using lands l1_landsD(1) [OF lands, of "str_bytes ''assertions::post''" "post_args (l1_contract (re_l1 env)) (re_bond env) ?parent b"]
    by (intro ensuresI) (auto simp: give_def in_world_def grows_def relay_at_def relay_inv_def l1_lands_def map_err_Ok_iff
        split: prod.splits if_splits)
  have st: "ensures (\<lambda>s. ?at s \<and> ?id i \<and> has (fst s) (to_be i)) (set_posted (ps @ [?p i])) (\<lambda>_. relay_at env has (ps @ [?p i])) (relay_inv env has)" for i
    using hex posted_line.Post [OF _ h sealed, of i "?p i"]
    by (intro ensuresI) (auto simp: set_posted_def relay_at_def relay_inv_def hex_reads_back_def id_bytes_def)
  show ?thesis unfolding post_block_def Let_def
    by (intro ensures_bind [OF g] ensures_bind [OF v] ensures_bind [OF landed] ensures_bind [OF st] relay_weak [OF relay_save_at [OF lands]])
qed

lemma post_one_inv:
  assumes lands: "l1_lands env has" and hex: "hex_reads_back (re_text env)"
  shows "ensures (relay_inv env has) (post_one env report) (\<lambda>_. relay_inv env has) (relay_inv env has)"
proof -
  have h: "ensures (relay_at env has ps) (give (next_height ps :: (relay_error, _) result))
      (\<lambda>h s. relay_at env has ps s \<and> next_height ps = (Ok h :: (relay_error, _) result)) (relay_inv env has)" for ps
    by (rule ensures_give) (auto simp: relay_at_def)
  have blk: "ensures (\<lambda>s. relay_at env has ps s \<and> next_height ps = (Ok h :: (relay_error, _) result))
      (bind_act (in_world RelayL2 (ls_block (re_l2 env) h)) (\<lambda>blk.
       case blk of
         None \<Rightarrow> give (Ok None)
       | Some b \<Rightarrow>
           bind_act (post_block env ps h b) (\<lambda>_.
             give (Ok (Some (report\<lparr>sr_posted := sr_posted report @ [h]\<rparr>)))))) (\<lambda>_. relay_inv env has) (relay_inv env has)" for ps h
  proof (cases "next_height ps = (Ok h :: (relay_error, _) result)")
    case True
    note post = ensures_bind [OF post_block_inv [OF lands hex True] relay_give_inv]
    have asked: "ensures (relay_at env has ps) (in_world RelayL2 (ls_block (re_l2 env) h))
        (\<lambda>blk s. relay_at env has ps s \<and> (\<forall>b. blk = Some b \<longrightarrow> sealed env h b)) (relay_inv env has)"
    proof (rule ensuresI)
      fix s blk s' assume s: "relay_at env has ps s" "in_world RelayL2 (ls_block (re_l2 env) h) s = (Ok blk, s')"
      then have "\<forall>b. blk = Some b \<longrightarrow> sealed env h b" by (auto simp: sealed_def in_world_def map_err_Ok_iff split: prod.splits)
      with ensuresD(1) [OF relay_calls(4) [OF lands] s] show "relay_at env has ps s' \<and> (\<forall>b. blk = Some b \<longrightarrow> sealed env h b)" by blast
    qed (rule ensuresD(2) [OF relay_calls(4) [OF lands]])
    have "ensures (\<lambda>s. relay_at env has ps s \<and> (\<forall>b. blk = Some b \<longrightarrow> sealed env h b)) (case blk of
         None \<Rightarrow> give (Ok None)
       | Some b \<Rightarrow>
           bind_act (post_block env ps h b) (\<lambda>_.
             give (Ok (Some (report\<lparr>sr_posted := sr_posted report @ [h]\<rparr>))))) (\<lambda>_. relay_inv env has) (relay_inv env has)" for blk
      by (cases "\<forall>b. blk = Some b \<longrightarrow> sealed env h b"; cases blk) (auto intro: post relay_weak [OF relay_give] ensuresI)
    from ensures_bind [OF asked this] True show ?thesis by simp
  qed (auto intro: ensuresI)
  show ?thesis unfolding post_one_def
    by (intro ensures_bind [OF relay_read] ensures_bind [OF h] blk)
qed

lemma post_loop_inv:
  assumes "l1_lands env has" "hex_reads_back (re_text env)" "relay_inv env has (w, ps)"
    and "post_loop env report (w, ps) = Some (r, s')"
  shows "relay_inv env has s'"
  using assms(3,4)
proof (induction "remaining ps" arbitrary: report w ps rule: less_induct)
  case less
  note one = post_one_inv [OF assms(1,2), of report]
  obtain r1 w1 ps1 where p: "post_one env report (w, ps) = (r1, (w1, ps1))" by (metis prod.exhaust)
  show ?case
  proof (cases r1)
    case (Ok v)
    with p have inv: "relay_inv env has (w1, ps1)" using ensuresD(1) [OF one less.prems(1)] by simp
    show ?thesis
    proof (cases v)
      case None
      with less.prems(2) p Ok inv show ?thesis by (subst (asm) post_loop.simps) simp
    next
      case (Some report')
      then have "post_loop env report' (w1, ps1) = Some (r, s')"
        using less.prems(2) p Ok by (subst (asm) post_loop.simps) simp
      moreover have "remaining ps1 < remaining ps" using p Ok Some by (auto intro: post_one_remaining)
      ultimately show ?thesis by (intro less.hyps [OF _ inv])
    qed
  qed (use less.prems(2) p ensuresD(2) [OF one less.prems(1) p] in \<open>subst (asm) post_loop.simps, simp\<close>)+
qed

lemma relayer_step_inv:
  assumes "l1_lands env has" "hex_reads_back (re_text env)"
  shows "ensures (relay_inv env has) (relayer_step env) (\<lambda>_. relay_inv env has) (relay_inv env has)"
proof -
  have w: "ensures (relay_inv env has) (in_world g m) (\<lambda>_. relay_inv env has) (relay_inv env has)"
    if "grows has m" for g and m :: "('a, 'x, 'y) act"
    using that by (intro ensures_top relay_weak [OF relay_world])
  have p: "ensures (relay_inv env has) (post_new env report) (\<lambda>_. relay_inv env has) (relay_inv env has)" for report
  proof -
    have "relay_inv env has s'" if s: "relay_inv env has s" "post_new env report s = (r, s')" for s r s'
    proof -
      obtain x where "post_loop env report s = Some x" using post_loop_ends by (metis prod.exhaust)
      with s post_loop_inv [OF assms, of "fst s" "snd s" report r s'] show ?thesis by (simp add: post_new_def)
    qed
    then show ?thesis by (auto intro: ensuresI)
  qed
  have "ensures (relay_inv env has) (defend env report) (\<lambda>_. relay_inv env has) (relay_inv env has)" for report
    unfolding defend_def
    by (rule ensures_bind [OF w [OF l1_landsD(3) [OF assms(1)]]], rule ensures_bind [OF relay_read],
        rule ensures_weaken [OF defend_loop_inv [OF assms(1)]]) (auto simp: relay_at_def)
  moreover have "ensures (relay_inv env has) (finalize_posted env report) (\<lambda>_. relay_inv env has) (relay_inv env has)" for report
    unfolding finalize_posted_def
    by (rule ensures_bind [OF w [OF l1_landsD(2) [OF assms(1)]]], rule ensures_bind [OF relay_give_inv],
        rule ensures_bind [OF w [OF l1_landsD(3) [OF assms(1)]]], rule ensures_bind [OF relay_read],
        rule ensures_weaken [OF finalize_loop_inv [OF assms(1)]]) (auto simp: relay_at_def)
  ultimately show ?thesis unfolding relayer_step_def by (auto intro: ensures_bind [OF _ ensures_bind [OF p]])
qed

text \<open>A relayer that started with nothing posted, after any number of steps; others may act on L1 in between.\<close>

inductive relaying :: "'w relay_env \<Rightarrow> ('w \<Rightarrow> bytes \<Rightarrow> bool) \<Rightarrow> 'w \<times> posted list \<Rightarrow> bool" for env has where
  Start: "relaying env has (w, [])"
| Step: "relaying env has s \<Longrightarrow> relayer_step env s = (r, s') \<Longrightarrow> relaying env has s'"
| Others: "relaying env has (w, ps) \<Longrightarrow> (\<And>i. has w i \<Longrightarrow> has w' i) \<Longrightarrow> relaying env has (w', ps)"

lemma relaying_inv:
  assumes "relaying env has s" "l1_lands env has" "hex_reads_back (re_text env)"
  shows "relay_inv env has s"
  using assms(1)
proof induction
  case (Start w)
  show ?case by (simp add: relay_inv_def posted_line.Empty)
next
  case (Step s r s')
  note e = relayer_step_inv [OF assms(2,3)]
  from Step ensuresD(1) [OF e Step.IH] ensuresD(2) [OF e Step.IH] show ?case by (cases r) auto
qed (auto simp: relay_inv_def)

lemma posted_line_nth:
  "posted_line env ps \<Longrightarrow> k < length ps \<Longrightarrow>
   unat (po_height (ps ! k)) = k + 1
   \<and> (\<exists>b i. sealed env (po_height (ps ! k)) b
       \<and> block_assertion_id (re_hash env) (re_bond env) (parent_of env (take k ps) b) b = (Ok i :: (relay_error, _) result)
       \<and> po_id (ps ! k) = tc_hex_encode (re_text env) (to_be i))"
proof (induction arbitrary: k rule: posted_line.induct)
  case (Post ps h b i p)
  show ?case
  proof (cases "k < length ps")
    case True
    with Post.IH [OF True] show ?thesis by (simp add: nth_append)
  next
    case False
    with Post.prems have k: "k = length ps" by simp
    have "unat h = length ps + 1"
    proof (cases "ps = []")
      case True
      then show ?thesis using Post.hyps(2) by (simp add: next_height_def)
    next
      case False
      then have "unat (po_height (last ps)) = length ps" using Post.IH [of "length ps - 1"] by (simp add: last_conv_nth)
      with False Post.hyps(2) show ?thesis by (auto simp: next_height_def or_panic_Ok_iff checked_add_Some_iff)
    qed
    with Post.hyps k show ?thesis by auto
  qed
qed simp

section \<open>Properties\<close>

text \<open>
  C21.  The relayer posts a line, and records only what landed.  Through any number of steps, whatever L1 and L2 answer or
  refuse and whatever others do on L1, the recorded assertions have the heights one, two, three and so on; each is the assertion of
  a block L2 answered with when asked for that height, on the one recorded before it, the first on genesis; and L1 has every
  one of them.  The one before may have been rejected in the meantime: the step that learns it ends in an
  error, and later steps still build on it.  The loop that posts always ends.
\<close>

theorem relayer_posts_line:
  assumes r: "relaying env has (w, ps)" and lands: "l1_lands env has" and hex: "hex_reads_back (re_text env)"
  shows "(\<forall>k<length ps. unat (po_height (ps ! k)) = k + 1 \<and> has w (id_bytes (re_text env) (po_id (ps ! k)))
      \<and> (\<exists>b i. sealed env (po_height (ps ! k)) b \<and> po_id (ps ! k) = tc_hex_encode (re_text env) (to_be i)
          \<and> block_assertion_id (re_hash env) (re_bond env)
              (if k = 0 then genesis_id (re_hash env) (lb_pre_state_root b) else parse_id (re_text env) (po_id (ps ! (k - 1)))) b
            = (Ok i :: (relay_error, _) result)))
    \<and> (\<exists>r s'. post_loop env report (w', ps) = Some (r, s'))"
proof -
  have inv: "relay_inv env has (w, ps)" by (rule relaying_inv [OF r lands hex])
  have "has w (id_bytes (re_text env) (po_id (ps ! k)))" if "k < length ps" for k
    using inv that by (simp add: relay_inv_def)
  moreover have "unat (po_height (ps ! k)) = k + 1 \<and> (\<exists>b i. sealed env (po_height (ps ! k)) b \<and> po_id (ps ! k) = tc_hex_encode (re_text env) (to_be i)
          \<and> block_assertion_id (re_hash env) (re_bond env)
              (if k = 0 then genesis_id (re_hash env) (lb_pre_state_root b) else parse_id (re_text env) (po_id (ps ! (k - 1)))) b
            = (Ok i :: (relay_error, _) result))" if k: "k < length ps" for k
  proof -
    have par: "parent_of env (take k ps) b = (if k = 0 then genesis_id (re_hash env) (lb_pre_state_root b)
        else parse_id (re_text env) (po_id (ps ! (k - 1))))" for b
      using k by (auto simp: parent_of_def last_conv_nth)
    have "posted_line env ps" using inv by (simp add: relay_inv_def)
    from posted_line_nth [OF this k] obtain b i where "unat (po_height (ps ! k)) = k + 1" "sealed env (po_height (ps ! k)) b"
      "block_assertion_id (re_hash env) (re_bond env) (parent_of env (take k ps) b) b = (Ok i :: (relay_error, _) result)"
      "po_id (ps ! k) = tc_hex_encode (re_text env) (to_be i)" by blast
    then show ?thesis unfolding par by blast
  qed
  moreover have "\<exists>r s'. post_loop env report (w', ps) = Some (r, s')" using post_loop_ends by (metis prod.exhaust)
  ultimately show ?thesis by blast
qed

text \<open>An L2 with one sealed block and an L1 that takes every post.\<close>

definition one_block :: l2_block where
  "one_block = \<lparr>lb_height = 1, lb_timestamp = 60, lb_base_fee = 1, lb_fee_recipient = 0, lb_pre_state_root = 0, lb_post_state_root = 1,
     lb_tx_bytes = [], lb_tx_starts = [], lb_trace_length = 0\<rparr>"

definition relay_sample :: "nat relay_env" where
  "relay_sample = \<lparr>re_hash = (\<lambda>_. 5), re_text = nibble_codecs,
     re_l1 = \<lparr>l1_submit = (\<lambda>_ _ w. (Ok 0, 1)), l1_view = (\<lambda>f _ w. if f = str_bytes ''assertions::challenge_window'' then (Ok [JPosInt 0], w) else (Err L1Malformed, w)),
       l1_now = give (Ok 0), l1_published_batch = (\<lambda>_ _. give (Ok None)), l1_address = [], l1_contract = []\<rparr>,
     re_l2 = \<lparr>ls_block = (\<lambda>h. give (Ok (if h = 1 then Some one_block else None))), ls_commitments = (\<lambda>_ _. give (Ok []))\<rparr>,
     re_save = (\<lambda>_. give (Ok ())), re_load = give (Ok None), re_bond = 7\<rparr>"

definition sample_posted :: posted where
  "sample_posted = \<lparr>po_height = 1, po_id = nibbles (to_be (5 :: bytes32)), po_finalized = False, po_rejected = False\<rparr>"

lemma sample_block_id: "block_assertion_id (\<lambda>_. 5) bond parent one_block = (Ok 5 :: ('e, _) result)"
proof -
  obtain t root where "build (\<lambda>_. 5) [] = (Ok t :: ('e, _) result)" "bt_root t = (Ok root :: ('e, _) result)"
    using leaf_proofs_complete [of "[]" "\<lambda>_. 5", where 'e = 'e] by auto
  then show ?thesis
    by (simp add: block_assertion_id_def one_block_def l1_assertion_id_def assertion_id_def commit_def digest_def)
qed

lemma sample_env:
  "re_text relay_sample = nibble_codecs" "re_hash relay_sample = (\<lambda>_. 5)" "re_save relay_sample ps = give (Ok ())"
  "l1_now (re_l1 relay_sample) = give (Ok 0)" "l1_submit (re_l1 relay_sample) f a w = (Ok 0, 1)"
  "ls_block (re_l2 relay_sample) h = give (Ok (if h = 1 then Some one_block else None))"
  "l1_view (re_l1 relay_sample) f a w = (if f = str_bytes ''assertions::challenge_window'' then (Ok [JPosInt 0], w) else (Err L1Malformed, w))"
  "tc_hex_encode nibble_codecs = nibbles" "ls_commitments (re_l2 relay_sample) h' steps = give (Ok [])"
  by (simp_all add: relay_sample_def nibble_codecs_def)

lemma sample_names: "str_bytes ''assertions::record'' \<noteq> str_bytes ''assertions::challenge_window''"
  by (simp add: str_bytes_def)

lemma sample_lands: "l1_lands relay_sample (\<lambda>w _. w = 1)"
  using sample_names by (auto simp: l1_lands_def grows_def sample_env give_def split: if_splits)

lemma sample_post_one:
  "post_one relay_sample report (0, []) = (Ok (Some (report\<lparr>sr_posted := sr_posted report @ [1]\<rparr>)), (1, [sample_posted]))"
  "post_one relay_sample report (1, [sample_posted]) = (Ok None, (1, [sample_posted]))"
  using sample_names
  by (simp_all add: post_one_def bind_act_def posted_list_def give_def next_height_def in_world_def sample_env post_block_def
      sample_block_id succeeds_def set_posted_def relay_save_def sample_posted_def checked_add_def)

lemma sample_relay_step: "relayer_step relay_sample (0, []) = (Err (RelayL1 L1Malformed), (1, [sample_posted]))"
proof -
  have "post_new relay_sample report (0, []) = (Ok (report\<lparr>sr_posted := sr_posted report @ [1]\<rparr>), (1, [sample_posted]))" for report
  proof -
    have "post_loop relay_sample report' (1, [sample_posted]) = Some (Ok report', (1, [sample_posted]))" for report'
      by (subst post_loop.simps) (simp add: sample_post_one(2) del: One_nat_def)
    then have "post_loop relay_sample report (0, []) = Some (Ok (report\<lparr>sr_posted := sr_posted report @ [1]\<rparr>), (1, [sample_posted]))"
      by (subst post_loop.simps) (simp add: sample_post_one(1) del: One_nat_def)
    then show ?thesis by (simp add: post_new_def)
  qed
  then show ?thesis using sample_names
    by (simp add: relayer_step_def bind_act_def defend_def in_world_def sample_env give_def posted_list_def
        finalize_posted_def first_value_def posted_at_def finalize_entry_def relay_record_def sample_posted_def)
qed

theorem relayer_posts_line_witness:
  "relaying relay_sample (\<lambda>w _. w = 1) (1, [sample_posted])
     \<and> (\<exists>i. po_id sample_posted = nibbles (to_be i)
          \<and> block_assertion_id (\<lambda>_. 5) 7 (genesis_id (\<lambda>_. 5) (lb_pre_state_root one_block)) one_block = (Ok i :: (relay_error, _) result))
     \<and> relayer_step relay_sample (0, []) = (Err (RelayL1 L1Malformed), (1, [sample_posted]))"
proof -
  let ?has = "\<lambda>(w :: nat) (i :: bytes). w = 1"
  have r: "relaying relay_sample ?has (1, [sample_posted])"
    by (rule relaying.Step [OF relaying.Start sample_relay_step])
  have hex: "hex_reads_back (re_text relay_sample)" by (simp add: sample_env nibble_reads_back)
  let ?none = "\<lparr>sr_posted = [], sr_dissected = [], sr_timeouts_claimed = 0, sr_finalized = [], sr_rejected = []\<rparr> :: step_report"
  from relayer_posts_line [OF r sample_lands hex, of ?none 1] obtain b i where
    b: "sealed relay_sample (po_height sample_posted) b" and
    i: "po_id sample_posted = nibbles (to_be i)"
    "block_assertion_id (\<lambda>_. 5) (re_bond relay_sample) (genesis_id (\<lambda>_. 5) (lb_pre_state_root b)) b = (Ok i :: (relay_error, _) result)"
    by (auto simp: sample_env)
  have "b = one_block" using b by (auto simp: sealed_def sample_env sample_posted_def give_def)
  with i r sample_relay_step show ?thesis by (auto simp: relay_sample_def)
qed

end
