(* ===== verification/Rpc.thy ===== *)
theory Rpc
  imports Da Light_Client Text
begin

text \<open>
  The request surface of the node (\<open>rpc.rs\<close>): every request served against a sequencer.  A response
  that reports an error is an error of the model; computing a block's commitment or
  descending a trie whose nodes are missing may panic.
\<close>

section \<open>Requests and responses\<close>

datatype rpc_request =
    SubmitTransaction transaction
  | GetAccount l2address
  | ResolveIdentifier hash256
  | GetConfirmation hash256
  | GetAssertion assertion_id
  | GetFinalizedHeight
  | GetStateRoot
  | GasPrice asset_id
  | GetBlock u64
  | GetChainInfo
  | GetWithdrawalProof l2address
  | GetAccountProof l2address "u64 option"
  | GetTraceCommitments u64 "u64 list"
  | GetFeeAssets
  | GetAccountTransactions l2address "u32 option"
  | GetDaBlob u64

record fee_asset =
  fa_asset :: asset_id
  fa_symbol :: bytes
  fa_rate :: u128
  fa_intrinsic_gas :: u64
  fa_enabled :: bool

record account_transaction =
  at_hash :: hash256
  at_confirmation :: confirmation_status
  at_timestamp :: "u64 option"
  at_transaction :: transaction
  at_fee_paid :: "u128 option"

record block_info =
  bi_height :: u64
  bi_timestamp :: u64
  bi_base_fee :: u128
  bi_fee_recipient :: l2address
  bi_batch_commitment :: hash256
  bi_pre_state_root :: hash256
  bi_post_state_root :: hash256
  bi_transactions :: "transaction list"
  bi_assertion :: "assertion_id option"
  bi_trace_length :: u64
  bi_tx_starts :: "u64 list"

record gas_quote =
  gq_asset :: asset_id
  gq_rate :: u128
  gq_intrinsic_gas :: u64
  gq_base_fee_native :: u128
  gq_base_fee_per_gas :: u128
  gq_suggested_max_fee_per_gas :: u128

record chain_info =
  ci_chain_id :: bytes
  ci_height :: u64
  ci_finalized_height :: u64
  ci_challenge_window_secs :: u64
  ci_state_root :: hash256
  ci_mempool_size :: nat

record withdrawal_info =
  wi_assertion_height :: u64
  wi_state_root :: hash256
  wi_account_value :: bytes
  wi_siblings :: "bytes list"
  wi_terminal_is_leaf :: bool
  wi_terminal_key :: bytes
  wi_terminal_value_hash :: bytes
  wi_finalized :: bool

datatype rpc_response =
    Submitted hash256 confirmation_status
  | AccountResponse u64 "(u32 \<times> u128) list"
  | Resolved "l2address option"
  | ConfirmationResponse confirmation_status
  | AssertionStatus status u64 bool
  | FinalizedHeight u64
  | StateRoot hash256 bool
  | BlockResponse block_info
  | GasPriceResponse gas_quote
  | FeeAssets "fee_asset list"
  | AccountTransactions "account_transaction list"
  | ChainInfo chain_info
  | WithdrawalProof withdrawal_info
  | AccountProof account_proof_payload
  | TraceCommitments "hash256 list"
  | DaBlobResponse da_blob

text \<open>The messages of error responses.\<close>

datatype rpc_error =
    NothingFinalized
  | NoBlockAtFinalized u64
  | NoBlockLatest u64 u64
  | NoBlock u64
  | NoSuchAssertion
  | NotAFeeAsset asset_id
  | FeeAssetDisabled asset_id
  | QuoteFailed gas_error
  | HistoryOverwritten u64
  | StepPastTrace u64
  | SubmissionRejected reject_reason
  | BadAccount balance_error

section \<open>Handlers\<close>

definition withdrawal_proof :: "hasher \<Rightarrow> text_codecs \<Rightarrow> sequencer \<Rightarrow> l2address \<Rightarrow> (rpc_error, rpc_response) result" where
  "withdrawal_proof H tc sq address =
     (let height = finalized_height sq in
      if height = 0 then Err NothingFinalized
      else if length (sq_blocks sq) \<le> unat (height - 1) then Err (NoBlockAtFinalized height)
      else
        let root = bk_post_state_root (sq_blocks sq ! unat (height - 1));
            s = account_key H address
        in and_then (or_panic (prove_at (sq_state sq) root s)) (\<lambda>p.
          let v = (case trie_get (sq_state sq) s of Some b \<Rightarrow> b | None \<Rightarrow> []);
              (is_leaf, key, value_hash) = (case terminal p of
                TLeaf k h \<Rightarrow> (True, hash_to_hex tc k, hash_to_hex tc h) | TEmpty \<Rightarrow> (False, [], []))
          in Ok (WithdrawalProof \<lparr>wi_assertion_height = height, wi_state_root = root, wi_account_value = tc_hex_encode tc v,
               wi_siblings = map (hash_to_hex tc) (siblings p), wi_terminal_is_leaf = is_leaf, wi_terminal_key = key,
               wi_terminal_value_hash = value_hash, wi_finalized = True\<rparr>)))"

definition proof_root :: "sequencer \<Rightarrow> u64 \<Rightarrow> (rpc_error, hash256 \<times> bool) result" where
  "proof_root sq height =
     (let current_height = of_nat (length (sq_blocks sq)) in
      if height = current_height then Ok (mt_root (sq_state sq), True)
      else if height = 0 then
        (case sq_blocks sq of [] \<Rightarrow> Ok (mt_root (sq_state sq), True) | b # _ \<Rightarrow> Ok (bk_pre_state_root b, False))
      else if unat (height - 1) < length (sq_blocks sq) then Ok (bk_post_state_root (sq_blocks sq ! unat (height - 1)), False)
      else Err (NoBlockLatest height current_height))"

definition account_fields :: "bytes \<Rightarrow> u64 \<times> (u32 \<times> u128) list" where
  "account_fields bs = (case account_decode bs of Ok a \<Rightarrow> (nonce a, balances a) | _ \<Rightarrow> (0, []))"

definition account_proof ::
    "hasher \<Rightarrow> sequencer \<Rightarrow> l2address \<Rightarrow> u64 option \<Rightarrow> (rpc_error, rpc_response) result" where
  "account_proof H sq address target_height =
     (let height = (case target_height of Some h \<Rightarrow> h | None \<Rightarrow> of_nat (length (sq_blocks sq))) in
      and_then (proof_root sq height) (\<lambda>(root, is_current).
      let s = account_key H address in
      and_then (or_panic (prove_at (sq_state sq) root s)) (\<lambda>p.
      and_then (
        if is_current then Ok (case trie_get (sq_state sq) s of Some bs \<Rightarrow> account_fields bs | None \<Rightarrow> (0, []))
        else
          (case terminal p of
             TEmpty \<Rightarrow> Ok (0, [])
           | TLeaf _ value_hash \<Rightarrow>
               (case trie_get (sq_state sq) s of
                  Some bs \<Rightarrow> if hash_value H bs = value_hash then Ok (account_fields bs) else Err (HistoryOverwritten height)
                | None \<Rightarrow> Err (HistoryOverwritten height)))) (\<lambda>(n, bals).
        Ok (AccountProof \<lparr>ap_address = address, ap_height = height, ap_state_root = root, ap_nonce = n, ap_balances = bals,
          ap_siblings = siblings p, ap_terminal = terminal p, ap_finalized = (height \<le> finalized_height sq)\<rparr>)))))"

definition block_at :: "sequencer \<Rightarrow> u64 \<Rightarrow> (rpc_error, block) result" where
  "block_at sq height =
     (if height = 0 \<or> length (sq_blocks sq) \<le> unat (height - 1) then Err (NoBlock height)
      else Ok (sq_blocks sq ! unat (height - 1)))"

definition block_response :: "hasher \<Rightarrow> sequencer \<Rightarrow> u64 \<Rightarrow> (rpc_error, rpc_response) result" where
  "block_response H sq height =
     and_then (block_at sq height) (\<lambda>b.
     and_then (or_panic (batch_commitment H b)) (\<lambda>cm.
       Ok (BlockResponse \<lparr>bi_height = bk_height b, bi_timestamp = bk_timestamp b, bi_base_fee = bk_base_fee b,
         bi_fee_recipient = bk_fee_recipient b, bi_batch_commitment = cm, bi_pre_state_root = bk_pre_state_root b,
         bi_post_state_root = bk_post_state_root b, bi_transactions = bk_transactions b, bi_assertion = assertion_for sq (bk_height b),
         bi_trace_length = of_nat (trace_len (bk_trace b)), bi_tx_starts = tx_starts (bk_trace b)\<rparr>)))"

definition gas_price :: "hasher \<Rightarrow> sequencer \<Rightarrow> u64 \<Rightarrow> asset_id \<Rightarrow> (rpc_error, rpc_response) result" where
  "gas_price H sq clock asset =
     (case trie_get (sq_state sq) (asset_key H asset) of
        None \<Rightarrow> Err (NotAFeeAsset asset)
      | Some bs \<Rightarrow>
          (case asset_decode bs of
             Ok rec \<Rightarrow>
               if \<not> wa_enabled rec then Err (FeeAssetDisabled asset)
               else
                 let base_fee_native = bx_base_fee (sq_batch_context H sq (next_timestamp sq clock)) in
                 and_then (map_err QuoteFailed (native_to_asset base_fee_native (wa_rate rec))) (\<lambda>base_fee_per_gas.
                   Ok (GasPriceResponse \<lparr>gq_asset = asset, gq_rate = wa_rate rec, gq_intrinsic_gas = wa_intrinsic_gas rec,
                     gq_base_fee_native = base_fee_native, gq_base_fee_per_gas = base_fee_per_gas,
                     gq_suggested_max_fee_per_gas = saturating_mul base_fee_per_gas 2\<rparr>))
           | Err _ \<Rightarrow> Err (NotAFeeAsset asset)
           | Panic \<Rightarrow> Panic))"

definition concerns :: "transaction \<Rightarrow> l2address \<Rightarrow> bool" where
  "concerns tx address \<longleftrightarrow>
     tx_sender tx = address \<or> (case tx_payload tx of Transfer recipient _ _ \<Rightarrow> recipient = address | _ \<Rightarrow> False)"

definition queued_entry :: "hasher \<Rightarrow> transaction \<Rightarrow> account_transaction" where
  "queued_entry H tx = \<lparr>at_hash = tx_hash H tx, at_confirmation = CPending, at_timestamp = None, at_transaction = tx, at_fee_paid = None\<rparr>"

text \<open>The fee a transaction paid; the sum of tip and base fee may overflow and panic.\<close>

definition fee_paid :: "hasher \<Rightarrow> transaction \<Rightarrow> batch_context \<Rightarrow> (rpc_error, u128 option) result" where
  "fee_paid H tx ctx =
     (case fee_charge_of H tx ctx of
        Ok c \<Rightarrow> and_then (or_panic (checked_add (fc_tip c) (fc_base c))) (\<lambda>f. Ok (Some f))
      | Err _ \<Rightarrow> Ok None
      | Panic \<Rightarrow> Panic)"

fun scan_block ::
    "hasher \<Rightarrow> sequencer \<Rightarrow> l2address \<Rightarrow> nat \<Rightarrow> u64 \<Rightarrow> batch_context \<Rightarrow> transaction list \<Rightarrow> account_transaction list
     \<Rightarrow> (rpc_error, account_transaction list) result" where
  "scan_block H sq address limit timestamp ctx [] out = Ok out"
| "scan_block H sq address limit timestamp ctx (tx # txs) out =
     (if length out \<ge> limit then Ok out
      else if \<not> concerns tx address then scan_block H sq address limit timestamp ctx txs out
      else
        and_then (fee_paid H tx ctx) (\<lambda>fee.
          scan_block H sq address limit timestamp ctx txs
            (out @ [\<lparr>at_hash = tx_hash H tx, at_confirmation = confirmation H sq (tx_hash H tx), at_timestamp = Some timestamp,
               at_transaction = tx, at_fee_paid = fee\<rparr>])))"

fun scan_blocks ::
    "hasher \<Rightarrow> sequencer \<Rightarrow> l2address \<Rightarrow> nat \<Rightarrow> block list \<Rightarrow> account_transaction list \<Rightarrow> (rpc_error, account_transaction list) result" where
  "scan_blocks H sq address limit [] out = Ok out"
| "scan_blocks H sq address limit (b # bs) out =
     (if length out \<ge> limit then Ok out
      else
        and_then (scan_block H sq address limit (bk_timestamp b) (block_context b (sq_keyless sq)) (rev (bk_transactions b)) out)
          (scan_blocks H sq address limit bs))"

definition account_transactions ::
    "hasher \<Rightarrow> sequencer \<Rightarrow> l2address \<Rightarrow> u32 \<Rightarrow> (rpc_error, account_transaction list) result" where
  "account_transactions H sq address limit =
     scan_blocks H sq address (unat limit) (rev (sq_blocks sq))
       (take (unat limit) (map (queued_entry H) (filter (\<lambda>tx. concerns tx address) (rev (mp_queued (sq_mempool sq))))))"

fun step_commitments :: "hasher \<Rightarrow> execution_trace \<Rightarrow> u64 list \<Rightarrow> (rpc_error, hash256 list) result" where
  "step_commitments H t [] = Ok []"
| "step_commitments H t (step # steps) =
     (if unat step < length (states t)
      then and_then (step_commitments H t steps) (\<lambda>cs. Ok (commitment H (states t ! unat step) # cs))
      else Err (StepPastTrace step))"

definition trace_commitments :: "hasher \<Rightarrow> sequencer \<Rightarrow> u64 \<Rightarrow> u64 list \<Rightarrow> (rpc_error, rpc_response) result" where
  "trace_commitments H sq height steps =
     and_then (block_at sq height) (\<lambda>b.
     and_then (step_commitments H (bk_trace b) steps) (\<lambda>cs. Ok (TraceCommitments cs)))"

definition da_blob_response :: "hasher \<Rightarrow> sequencer \<Rightarrow> u64 \<Rightarrow> (rpc_error, rpc_response) result" where
  "da_blob_response H sq height =
     and_then (block_at sq height) (\<lambda>b.
     and_then (or_panic (from_block H b)) (\<lambda>blob. Ok (DaBlobResponse blob)))"

definition account_response :: "hasher \<Rightarrow> sequencer \<Rightarrow> l2address \<Rightarrow> (rpc_error, rpc_response) result" where
  "account_response H sq address =
     and_then (case trie_get (sq_state sq) (account_key H address) of
         None \<Rightarrow> Ok account_new
       | Some bs \<Rightarrow> map_err BadAccount (account_decode bs)) (\<lambda>a.
       Ok (AccountResponse (nonce a) (balances a)))"

definition resolve_identifier :: "hasher \<Rightarrow> sequencer \<Rightarrow> hash256 \<Rightarrow> l2address option" where
  "resolve_identifier H sq identifier =
     (case trie_get (sq_state sq) (social_by_identifier H identifier) of
        None \<Rightarrow> None
      | Some bs \<Rightarrow> (case binding_decode bs of Ok b \<Rightarrow> binding_address b | _ \<Rightarrow> None))"

definition assertion_status :: "sequencer \<Rightarrow> assertion_id \<Rightarrow> (rpc_error, rpc_response) result" where
  "assertion_status sq i =
     and_then (ok_or (chain_get (sq_chain sq) i) NoSuchAssertion) (\<lambda>r.
       let elapsed = saturating_sub (ac_now (sq_chain sq)) (cr_posted_at r) in
       Ok (AssertionStatus (cr_status r) (saturating_sub (ac_challenge_window (sq_chain sq)) elapsed) (cr_status r = Finalized)))"

definition fee_assets_response :: "hasher \<Rightarrow> sequencer \<Rightarrow> fee_asset list" where
  "fee_assets_response H sq =
     concat (map (\<lambda>a. case trie_get (sq_state sq) (asset_key H a) of
         None \<Rightarrow> []
       | Some bs \<Rightarrow>
           (case asset_decode bs of
              Ok r \<Rightarrow> [\<lparr>fa_asset = wa_asset r, fa_symbol = wa_symbol r, fa_rate = wa_rate r, fa_intrinsic_gas = wa_intrinsic_gas r,
                fa_enabled = wa_enabled r\<rparr>]
            | _ \<Rightarrow> [])) (sq_fee_assets sq))"

definition chain_info_response :: "sequencer \<Rightarrow> bytes \<Rightarrow> chain_info" where
  "chain_info_response sq chain_id = \<lparr>ci_chain_id = chain_id, ci_height = of_nat (length (sq_blocks sq)),
     ci_finalized_height = finalized_height sq, ci_challenge_window_secs = ac_challenge_window (sq_chain sq),
     ci_state_root = mt_root (sq_state sq), ci_mempool_size = length (mp_queued (sq_mempool sq))\<rparr>"

fun handle ::
    "hasher \<Rightarrow> ed25519 \<Rightarrow> width_constants list \<Rightarrow> text_codecs \<Rightarrow> sequencer \<Rightarrow> bytes \<Rightarrow> u64 \<Rightarrow> rpc_request
     \<Rightarrow> sequencer \<times> (rpc_error, rpc_response) result" where
  "handle H ed pcs tc sq chain_id clock (SubmitTransaction tx) =
     (let (sq', r) = sq_submit H ed pcs sq clock tx in
      (sq', and_then (map_err SubmissionRejected r) (\<lambda>h. Ok (Submitted h CPending))))"
| "handle H ed pcs tc sq chain_id clock (GetAccount address) = (sq, account_response H sq address)"
| "handle H ed pcs tc sq chain_id clock (ResolveIdentifier identifier) = (sq, Ok (Resolved (resolve_identifier H sq identifier)))"
| "handle H ed pcs tc sq chain_id clock (GetConfirmation h) = (sq, Ok (ConfirmationResponse (confirmation H sq h)))"
| "handle H ed pcs tc sq chain_id clock (GetAssertion i) = (sq, assertion_status sq i)"
| "handle H ed pcs tc sq chain_id clock GetFinalizedHeight = (sq, Ok (FinalizedHeight (finalized_height sq)))"
| "handle H ed pcs tc sq chain_id clock GetStateRoot =
     (sq, Ok (StateRoot (mt_root (sq_state sq)) (is_withdrawable (sq_chain sq) (mt_root (sq_state sq)))))"
| "handle H ed pcs tc sq chain_id clock (GetBlock height) = (sq, block_response H sq height)"
| "handle H ed pcs tc sq chain_id clock (GetWithdrawalProof address) = (sq, withdrawal_proof H tc sq address)"
| "handle H ed pcs tc sq chain_id clock (GetAccountProof address height) = (sq, account_proof H sq address height)"
| "handle H ed pcs tc sq chain_id clock (GetDaBlob height) = (sq, da_blob_response H sq height)"
| "handle H ed pcs tc sq chain_id clock (GasPrice asset) = (sq, gas_price H sq clock asset)"
| "handle H ed pcs tc sq chain_id clock GetFeeAssets = (sq, Ok (FeeAssets (fee_assets_response H sq)))"
| "handle H ed pcs tc sq chain_id clock (GetAccountTransactions address limit) =
     (sq, and_then (account_transactions H sq address (case limit of Some l \<Rightarrow> l | None \<Rightarrow> 50)) (\<lambda>txs. Ok (AccountTransactions txs)))"
| "handle H ed pcs tc sq chain_id clock (GetTraceCommitments height steps) = (sq, trace_commitments H sq height steps)"
| "handle H ed pcs tc sq chain_id clock GetChainInfo = (sq, Ok (ChainInfo (chain_info_response sq chain_id)))"

section \<open>The trie operations of a chain of blocks\<close>

fun replay_ops ::
    "hasher \<Rightarrow> ed25519 \<Rightarrow> width_constants list \<Rightarrow> keyless_config option \<Rightarrow> merkle_trie \<Rightarrow> block list \<Rightarrow> trie_op list" where
  "replay_ops H ed pcs keyless st [] = []"
| "replay_ops H ed pcs keyless st (b # bs) =
     (case execute_batch H ed pcs st (block_context b keyless) (bk_transactions b) of
        Ok (nxt, t) \<Rightarrow> exec_ops H ed (trie_get st) (instructions t) @ replay_ops H ed pcs keyless nxt bs
      | _ \<Rightarrow> [])"

lemma replay_trie_run:
  "replay_blocks H ed pcs keyless st bs = Ok st' \<Longrightarrow> trie_run H st (replay_ops H ed pcs keyless st bs) = Some st'"
proof (induction bs arbitrary: st)
  case (Cons b bs)
  then obtain nxt t where e: "execute_batch H ed pcs st (block_context b keyless) (bk_transactions b) = Ok (nxt, t)"
    and r: "replay_blocks H ed pcs keyless nxt bs = Ok st'" by (auto simp: and_then_Ok_iff)
  obtain css roots where i: "instructions t = concat css" and s: "run_steps H ed st (concat css) = Ok (nxt, roots)"
    by (rule execute_batch_steps [OF e])
  from e i run_steps_trie_run [OF s] Cons.IH [OF r] show ?case by (simp add: trie_run_append)
qed simp

lemma replay_ops_split:
  "replay_blocks H ed pcs keyless st (take k bs) = Ok st1 \<Longrightarrow>
   replay_ops H ed pcs keyless st bs = replay_ops H ed pcs keyless st (take k bs) @ replay_ops H ed pcs keyless st1 (drop k bs)"
proof (induction bs arbitrary: st k)
  case (Cons b bs)
  show ?case
  proof (cases k)
    case (Suc j)
    with Cons.prems obtain nxt t where e: "execute_batch H ed pcs st (block_context b keyless) (bk_transactions b) = Ok (nxt, t)"
      "replay_blocks H ed pcs keyless nxt (take j bs) = Ok st1" by (auto simp: and_then_Ok_iff)
    with Cons.IH [OF e(2)] Suc show ?thesis by simp
  qed (use Cons.prems in simp)
qed simp

lemma replay_blocks_split:
  "replay_blocks H ed pcs keyless st bs = Ok st' \<Longrightarrow> replay_blocks H ed pcs keyless st (take k bs) = Ok st1 \<Longrightarrow>
   replay_blocks H ed pcs keyless st1 (drop k bs) = Ok st'"
proof (induction bs arbitrary: st k)
  case (Cons b bs)
  then show ?case by (cases k) (auto simp: and_then_Ok_iff)
qed simp

text \<open>What a proof shows of the value at its key.\<close>

lemma inclusion_terminal: "verify_inclusion H p root key v = Ok () \<Longrightarrow> terminal p = TLeaf key (hash_value H v)"
  by (auto simp: verify_inclusion_def verify_inclusion_hashed_def and_then_Ok_iff split: terminal.splits if_splits)

lemma non_inclusion_terminal: "verify_non_inclusion H p root key = Ok () \<Longrightarrow> terminal p \<noteq> TLeaf key h"
  by (auto simp: verify_non_inclusion_def and_then_Ok_iff split: terminal.splits if_splits)

text \<open>A past root of a sequencer, proven from its current state.\<close>

lemma past_root_proof:
  assumes g: "trie_run H trie_new ops = Some genesis" and r: "replay_blocks H ed pcs keyless genesis bs = Ok cur"
    and st: "replay_blocks H ed pcs keyless genesis (take k bs) = Ok st"
    and cf: "collision_free H (history_nodes H SE (ops @ replay_ops H ed pcs keyless genesis bs))"
  obtains p where "prove_at cur (mt_root st) key = Some p"
    "case trie_get st key of Some v \<Rightarrow> verify_inclusion H p (mt_root st) key v = Ok ()
     | None \<Rightarrow> verify_non_inclusion H p (mt_root st) key = Ok ()"
proof -
  let ?o1 = "replay_ops H ed pcs keyless genesis (take k bs)" and ?o2 = "replay_ops H ed pcs keyless st (drop k bs)"
  have "trie_run H trie_new (ops @ ?o1) = Some st" using g replay_trie_run [OF st] by (simp add: trie_run_append)
  moreover have "trie_run H st ?o2 = Some cur" by (rule replay_trie_run [OF replay_blocks_split [OF r st]])
  moreover have "collision_free H (history_nodes H SE ((ops @ ?o1) @ ?o2))" using cf replay_ops_split [OF st] by simp
  ultimately show thesis using historical_proof [of H "ops @ ?o1" ?o2 st cur key] that by blast
qed

section \<open>Reading stored records never panics\<close>

lemma readers_not_Panic [simp]:
  "r_take n r \<noteq> Panic" "r_u8 r \<noteq> Panic" "r_u32 r \<noteq> Panic" "r_u64 r \<noteq> Panic" "r_u128 r \<noteq> Panic" "r_bool r \<noteq> Panic"
  "r_bytes r \<noteq> Panic" "r_finish r \<noteq> Panic"
proof -
  show take: "r_take n r \<noteq> Panic" for n r by (simp add: r_take_def Let_def)
  show "r_u32 r \<noteq> Panic" "r_u64 r \<noteq> Panic" "r_u128 r \<noteq> Panic" for r
    using take by (simp_all add: r_u32_def r_u64_def r_u128_def p_bind_Panic_iff)
  then show "r_bytes r \<noteq> Panic" using take by (auto simp: r_bytes_def p_bind_Panic_iff split: if_splits)
  show u8: "r_u8 r \<noteq> Panic" for r by (simp add: r_u8_def)
  then show "r_bool r \<noteq> Panic" by (auto simp: r_bool_def p_bind_Panic_iff split: if_splits)
  show "r_finish r \<noteq> Panic" by (simp add: r_finish_def)
qed

lemma parse_all_not_Panic: "(\<And>r. p r \<noteq> Panic) \<Longrightarrow> parse_all p bs \<noteq> Panic"
  by (auto simp: parse_all_def and_then_Panic_iff split: prod.splits)

lemma account_decode_not_Panic [simp]: "account_decode bs \<noteq> Panic"
proof -
  have "r_balances n previous bals r \<noteq> Panic" for n previous bals r
    by (induction n arbitrary: previous bals r) (auto simp: p_bind_Panic_iff split: if_splits)
  then have "r_account r \<noteq> Panic" for r by (simp add: r_account_def p_bind_Panic_iff)
  then show ?thesis by (simp add: account_decode_def account_decode_inner_def map_err_Panic_iff parse_all_not_Panic)
qed

lemma asset_decode_not_Panic [simp]: "asset_decode bs \<noteq> Panic"
proof -
  have "r_whitelisted_asset r \<noteq> Panic" for r
    by (simp add: r_whitelisted_asset_def r_string_def p_bind_Panic_iff)
  then show ?thesis by (simp add: asset_decode_def map_err_Panic_iff parse_all_not_Panic)
qed

lemma charge_not_Panic: "charge_and_payload H tx ctx \<noteq> Panic"
proof -
  have "settle gl g mf mt bf rate \<noteq> Panic" for gl g mf mt bf rate
  proof (cases "gl \<le> MAX_GAS_LIMIT \<and> g \<le> gl")
    case True
    show ?thesis
    proof (cases "native_to_asset bf rate")
      case (Ok b)
      show ?thesis
      proof (cases "mf < b")
        case False
        from settle_priced [OF _ _ Ok this, of gl g mt] True show ?thesis by (auto split: result.splits)
      qed (use True Ok in \<open>auto simp: settle_def\<close>)
    next
      case Panic
      then show ?thesis by (auto simp: native_to_asset_def result_simps split: if_splits)
    qed (use True in \<open>auto simp: settle_def\<close>)
  qed (auto simp: settle_def not_le not_less)
  moreover have "and_then (compile_payload H (tx_payload tx) (tx_sender tx)) (\<lambda>pl. map_err CompileGas (gas_used tx pl)) \<noteq> Panic"
    using gas_required_not_Panic [of H tx] by (simp add: gas_required_def)
  ultimately show ?thesis
    by (auto simp: charge_and_payload_def and_then_Panic_iff map_err_Panic_iff map_err_Ok_iff)
qed

lemma fee_paid_not_Panic: "fee_paid H tx ctx \<noteq> Panic"
proof (cases "fee_charge_of H tx ctx")
  case (Ok c)
  then obtain gl g mf mt bf rate where "settle gl g mf mt bf rate = Ok c"
    by (auto simp: fee_charge_of_def charge_and_payload_def and_then_Ok_iff map_err_Ok_iff)
  from settle_sum [OF this] have "unat (fc_tip c) + unat (fc_base c) < 2 ^ 128"
    using unat_less_pow [of "fc_hold c"] by simp
  then show ?thesis using Ok by (simp add: fee_paid_def checked_add_def)
next
  case Panic
  then show ?thesis using charge_not_Panic by (auto simp: fee_charge_of_def and_then_Panic_iff)
qed (simp add: fee_paid_def)

lemma account_transactions_not_Panic: "account_transactions H sq address limit \<noteq> Panic"
proof -
  have b: "scan_block H sq address n ts ctx txs out \<noteq> Panic" for n ts ctx txs out
    by (induction txs arbitrary: out) (auto simp: and_then_Panic_iff fee_paid_not_Panic)
  have "scan_blocks H sq address n bs out \<noteq> Panic" for n bs out
    by (induction bs arbitrary: out) (auto simp: and_then_Panic_iff b)
  then show ?thesis by (simp add: account_transactions_def)
qed

lemma step_commitments_not_Panic: "step_commitments H t steps \<noteq> Panic"
  by (induction steps) (auto simp: and_then_Panic_iff)

section \<open>A sequencer's past roots\<close>

text \<open>
  A sequencer as it comes from its genesis state, whose trie nodes do not collide: the setting in
  which the node answers.
\<close>

definition served ::
    "hasher \<Rightarrow> ed25519 \<Rightarrow> width_constants list \<Rightarrow> trie_op list \<Rightarrow> merkle_trie \<Rightarrow> u64 \<Rightarrow> u128 \<Rightarrow> keyless_config option \<Rightarrow> sequencer \<Rightarrow> bool" where
  "served H ed pcs ops genesis window min_bond keyless sq \<longleftrightarrow>
     trie_run H trie_new ops = Some genesis \<and> sequencer_reach H ed pcs genesis window min_bond keyless sq
     \<and> length (sq_blocks sq) < 2 ^ 64
     \<and> collision_free H (history_nodes H SE (ops @ replay_ops H ed pcs keyless genesis (sq_blocks sq)))"

lemma height_pred: "(height :: u64) \<noteq> 0 \<Longrightarrow> Suc (unat (height - 1)) = unat height"
proof -
  assume "height \<noteq> 0"
  then have "1 \<le> height" by (simp add: word_le_nat_alt Suc_le_eq unat_gt_0)
  then show ?thesis using \<open>height \<noteq> 0\<close> by (simp add: unat_sub unat_gt_0)
qed

lemma served_proof:
  assumes s: "served H ed pcs ops genesis window min_bond keyless sq"
    and st: "replay_blocks H ed pcs keyless genesis (take k (sq_blocks sq)) = Ok st"
  obtains p where "prove_at (sq_state sq) (mt_root st) key = Some p"
    "case trie_get st key of Some v \<Rightarrow> verify_inclusion H p (mt_root st) key v = Ok ()
     | None \<Rightarrow> verify_non_inclusion H p (mt_root st) key = Ok ()"
proof (rule past_root_proof [of H ops genesis ed pcs keyless "sq_blocks sq" "sq_state sq" k st key])
  show "replay_blocks H ed pcs keyless genesis (sq_blocks sq) = Ok (sq_state sq)"
    using s blocks_replay by (auto simp: served_def)
qed (use s st that in \<open>auto simp: served_def\<close>)

lemma served_linked:
  assumes "served H ed pcs ops genesis window min_bond keyless sq"
  shows "linked H ed pcs sq genesis (assertion_id H (genesis_assertion (mt_root genesis))) 0 (sq_blocks sq) (sq_assertions sq)
    (sq_state sq) (sq_head sq)" "sq_keyless sq = keyless"
  using assms sequencer_reach_inv by (auto simp: served_def seq_inv_def)

lemma served_block:
  assumes s: "served H ed pcs ops genesis window min_bond keyless sq" and i: "i < length (sq_blocks sq)"
  shows "\<exists>st cm. replay_blocks H ed pcs keyless genesis (take (Suc i) (sq_blocks sq)) = Ok st
    \<and> bk_post_state_root (sq_blocks sq ! i) = mt_root st \<and> batch_commitment H (sq_blocks sq ! i) = Some cm"
  using linked_at [OF served_linked(1) [OF s] i] served_linked(2) [OF s] by auto

lemma proof_root_served:
  assumes s: "served H ed pcs ops genesis window min_bond keyless sq" and r: "proof_root sq height = Ok (root, current)"
  shows "\<exists>st. replay_blocks H ed pcs keyless genesis (take (unat height) (sq_blocks sq)) = Ok st \<and> root = mt_root st
    \<and> (current \<longrightarrow> st = sq_state sq)"
proof -
  have len: "unat (of_nat (length (sq_blocks sq)) :: u64) = length (sq_blocks sq)"
    using s by (simp add: served_def unat_of_nat)
  have all: "replay_blocks H ed pcs keyless genesis (sq_blocks sq) = Ok (sq_state sq)"
    using s blocks_replay by (auto simp: served_def)
  consider (cur) "height = of_nat (length (sq_blocks sq))" "root = mt_root (sq_state sq)"
    | (start) b bs where "height = 0" "sq_blocks sq = b # bs" "root = bk_pre_state_root b" "\<not> current"
    | (past) "height \<noteq> 0" "unat (height - 1) < length (sq_blocks sq)" "root = bk_post_state_root (sq_blocks sq ! unat (height - 1))" "\<not> current"
    using r by (auto simp: proof_root_def Let_def split: if_splits list.splits)
  then show ?thesis
  proof cases
    case cur
    with all len show ?thesis by simp
  next
    case start
    with served_linked(1) [OF s] show ?thesis by (cases "sq_assertions sq") auto
  next
    case past
    with height_pred [OF past(1)] served_block [OF s past(2)] show ?thesis by auto
  qed
qed

text \<open>The sequencer of the demonstration, its one block final.\<close>

lemma demo_served:
  obtains tr sq where "served demo_hash sample_ed [] demo_ops tr 86400 7 None sq" "finalized_height sq = 1"
proof -
  obtain tr sq b where r: "sequencer_reach demo_hash sample_ed [] tr 86400 7 None sq"
    and sq: "sq_blocks sq = [b]" "sq_assertions sq = [8]" "bk_transactions b = [demo_tx]" "bk_height b = 1"
      "chain_status (sq_chain sq) 8 = Some Finalized"
    and tr: "trie_run demo_hash trie_new demo_ops = Some tr" and ctx: "block_context b None = without_keyless 60"
    by (rule demo_finalized)
  obtain tr' t where e: "execute_batch demo_hash sample_ed [] tr (without_keyless 60) [demo_tx] = Ok (tr', t)"
    "instructions t = demo_instrs" "trie_get tr = demo_state" using demo_batch tr by (metis option.inject)
  have "served demo_hash sample_ed [] demo_ops tr 86400 7 None sq"
    using r tr e demo_collision_free by (simp add: served_def sq ctx)
  moreover have "finalized_height sq = 1"
    by (simp add: finalized_height_def sq block_finalized_def assertion_for_def)
  ultimately show thesis by (rule that)
qed

section \<open>Properties\<close>

text \<open>
  C17.  What a withdrawal proof shows.  As soon as a block is final the request is answered, with the
  root the blocks up to the finalized height lead to, against which the settlement contract pays,
  and with a proof, sent as hexadecimal, of what that root holds in the account's slot.  The
  account value sent along is the one of the newest block: when the account was stored at both,
  the proof accepts that value exactly when it hashes like the one at the finalized height, so an
  account written since is sent a pair that does not verify.
\<close>

theorem withdrawal_proof_served:
  assumes s: "served H ed pcs ops genesis window min_bond keyless sq" and fin: "finalized_height sq \<noteq> 0"
  shows "\<exists>w p st. handle H ed pcs tc sq chain_id clock (GetWithdrawalProof address) = (sq, Ok (WithdrawalProof w))
    \<and> wi_assertion_height w = finalized_height sq
    \<and> replay_blocks H ed pcs keyless genesis (take (unat (finalized_height sq)) (sq_blocks sq)) = Ok st
    \<and> wi_state_root w = mt_root st \<and> is_withdrawable (sq_chain sq) (mt_root st)
    \<and> wi_siblings w = map (hash_to_hex tc) (siblings p)
    \<and> (case terminal p of
         TLeaf k h \<Rightarrow> wi_terminal_is_leaf w \<and> wi_terminal_key w = hash_to_hex tc k \<and> wi_terminal_value_hash w = hash_to_hex tc h
       | TEmpty \<Rightarrow> \<not> wi_terminal_is_leaf w)
    \<and> (case trie_get st (account_key H address) of
         None \<Rightarrow> verify_non_inclusion H p (mt_root st) (account_key H address) = Ok ()
       | Some v \<Rightarrow> verify_inclusion H p (mt_root st) (account_key H address) v = Ok ()
           \<and> (case trie_get (sq_state sq) (account_key H address) of
                None \<Rightarrow> True
              | Some cur \<Rightarrow> wi_account_value w = tc_hex_encode tc cur
                  \<and> (verify_inclusion H p (mt_root st) (account_key H address) cur = Ok () \<longleftrightarrow> H cur = H v)))"
proof -
  let ?k = "account_key H address"
  from fin obtain b where b: "find (block_finalized sq) (rev (sq_blocks sq)) = Some b" "finalized_height sq = bk_height b"
    by (auto simp: finalized_height_def split: option.splits)
  then have "b \<in> set (sq_blocks sq)" and fb: "block_finalized sq b" by (auto simp: find_Some_iff) (metis length_rev nth_mem set_rev)
  then obtain i where i: "i < length (sq_blocks sq)" "sq_blocks sq ! i = b" by (auto simp: in_set_conv_nth)
  from final_block [of H ed pcs genesis window min_bond keyless sq i] s i fb obtain st where
    h: "unat (bk_height b) = Suc i" and st: "replay_blocks H ed pcs keyless genesis (take (Suc i) (sq_blocks sq)) = Ok st"
      "mt_root st = bk_post_state_root b" "is_withdrawable (sq_chain sq) (mt_root st)"
    by (auto simp: served_def)
  have pred: "unat (bk_height b - 1) = i" using height_pred [of "bk_height b"] fin b(2) h by simp
  from served_proof [OF s st(1), of ?k] obtain p where p: "prove_at (sq_state sq) (mt_root st) ?k = Some p"
    "case trie_get st ?k of Some v \<Rightarrow> verify_inclusion H p (mt_root st) ?k v = Ok ()
     | None \<Rightarrow> verify_non_inclusion H p (mt_root st) ?k = Ok ()" .
  obtain w where w: "withdrawal_proof H tc sq address = Ok (WithdrawalProof w)" "wi_assertion_height w = bk_height b"
    "wi_state_root w = mt_root st" "wi_siblings w = map (hash_to_hex tc) (siblings p)"
    "case terminal p of TLeaf k h \<Rightarrow> wi_terminal_is_leaf w \<and> wi_terminal_key w = hash_to_hex tc k \<and> wi_terminal_value_hash w = hash_to_hex tc h
       | TEmpty \<Rightarrow> \<not> wi_terminal_is_leaf w"
    "wi_account_value w = tc_hex_encode tc (case trie_get (sq_state sq) ?k of Some v \<Rightarrow> v | None \<Rightarrow> [])"
    using fin pred i p(1) by (cases "terminal p") (simp_all add: withdrawal_proof_def b(2) Let_def flip: st(2))
  have "verify_inclusion H p (mt_root st) ?k cur = Ok () \<longleftrightarrow> H cur = H v"
    if "verify_inclusion H p (mt_root st) ?k v = Ok ()" for cur v
    using that inclusion_terminal [OF that]
    by (auto simp: verify_inclusion_def verify_inclusion_hashed_def hash_value_def digest_def and_then_Ok_iff split: if_splits)
  then show ?thesis using w p st b(2) h
    by (intro exI [of _ w] exI [of _ p] exI [of _ st]) (auto split: option.splits)
qed

theorem withdrawal_proof_served_witness:
  "\<exists>sq w (st :: merkle_trie). handle demo_hash sample_ed [] nibble_codecs sq [] 0 (GetWithdrawalProof FEE_VAULT) = (sq, Ok (WithdrawalProof w))
     \<and> wi_assertion_height w = 1 \<and> wi_state_root w = mt_root st \<and> is_withdrawable (sq_chain sq) (mt_root st)"
proof -
  obtain tr sq where s: "served demo_hash sample_ed [] demo_ops tr 86400 7 None sq" "finalized_height sq = 1" by (rule demo_served)
  then have "finalized_height sq \<noteq> 0" by simp
  from withdrawal_proof_served [OF s(1) this, of nibble_codecs "[]" 0 FEE_VAULT] obtain w :: withdrawal_info and st :: merkle_trie where
    "handle demo_hash sample_ed [] nibble_codecs sq [] 0 (GetWithdrawalProof FEE_VAULT) = (sq, Ok (WithdrawalProof w))"
    "wi_assertion_height w = finalized_height sq" "wi_state_root w = mt_root st" "is_withdrawable (sq_chain sq) (mt_root st)"
    by (elim exE conjE) (rule that)
  with s(2) show ?thesis by (intro exI conjI) simp_all
qed

text \<open>
  C28.  Answering never brings the node down or changes what it serves.  Every request but a
  submission leaves the sequencer as it is, and it is answered: with a response or with an error,
  never by a panic, whatever height, step, asset or account it names.
\<close>

theorem reads_answered:
  assumes s: "served H ed pcs ops genesis window min_bond keyless sq" and req: "\<forall>tx. req \<noteq> SubmitTransaction tx"
  shows "fst (handle H ed pcs tc sq chain_id clock req) = sq \<and> snd (handle H ed pcs tc sq chain_id clock req) \<noteq> Panic"
proof -
  have bk: "block_at sq height \<noteq> Panic" "block_at sq height = Ok b \<Longrightarrow> \<exists>cm. batch_commitment H b = Some cm" for height b
    using served_block [OF s] by (auto simp: block_at_def not_le split: if_splits)
  have pr: "\<exists>p. prove_at (sq_state sq) root (account_key H address) = Some p" if "proof_root sq height = Ok (root, c)" for height root c address
    using proof_root_served [OF s that] served_proof [OF s] by metis
  have "proof_root sq height \<noteq> Panic" for height by (auto simp: proof_root_def Let_def split: list.splits)
  then have "account_proof H sq address target \<noteq> Panic" for address target
  proof (cases "proof_root sq (case target of Some h \<Rightarrow> h | None \<Rightarrow> of_nat (length (sq_blocks sq)))")
    case (Ok x)
    then obtain root c p where "proof_root sq (case target of Some h \<Rightarrow> h | None \<Rightarrow> of_nat (length (sq_blocks sq))) = Ok (root, c)"
      "prove_at (sq_state sq) root (account_key H address) = Some p" using pr by (metis surj_pair)
    then show ?thesis
      by (auto simp: account_proof_def Let_def and_then_Panic_iff split: terminal.splits option.splits if_splits)
  qed (auto simp: account_proof_def Let_def)
  moreover have "withdrawal_proof H tc sq address \<noteq> Panic" for address
  proof (cases "finalized_height sq = 0 \<or> length (sq_blocks sq) \<le> unat (finalized_height sq - 1)")
    case False
    with served_block [OF s, of "unat (finalized_height sq - 1)"] served_proof [OF s] obtain p where
      "prove_at (sq_state sq) (bk_post_state_root (sq_blocks sq ! unat (finalized_height sq - 1))) (account_key H address) = Some p"
      by (metis not_le)
    with False show ?thesis by (simp add: withdrawal_proof_def Let_def split: terminal.splits)
  qed (auto simp: withdrawal_proof_def Let_def)
  moreover have "gas_price H sq clock asset \<noteq> Panic" for asset
    by (auto simp: gas_price_def native_to_asset_def result_simps Let_def split: option.splits result.splits)
  moreover have "block_response H sq height \<noteq> Panic" "da_blob_response H sq height \<noteq> Panic" for height
    using bk(1) [of height] bk(2) [of height]
    by (cases "block_at sq height"; fastforce simp: block_response_def da_blob_response_def from_block_def)+
  ultimately show ?thesis using req bk(1)
    by (cases req)
      (auto simp: account_response_def assertion_status_def trace_commitments_def
        and_then_Panic_iff map_err_Panic_iff step_commitments_not_Panic account_transactions_not_Panic Let_def
        split: option.splits)
qed

theorem reads_answered_witness:
  "\<exists>tr sq. served demo_hash sample_ed [] demo_ops tr 86400 7 None sq
     \<and> (let (sq', r) = handle demo_hash sample_ed [] nibble_codecs sq [] 0 (GetAccountProof FEE_VAULT (Some 0)) in sq' = sq \<and> r \<noteq> Panic)"
proof -
  obtain tr sq where s: "served demo_hash sample_ed [] demo_ops tr 86400 7 None sq" by (rule demo_served)
  from reads_answered [OF s, of "GetAccountProof FEE_VAULT (Some 0)" nibble_codecs "[]" 0] s show ?thesis
    by (auto simp: case_prod_beta)
qed

end
