(* ===== verification/Http.thy ===== *)
theory Http
  imports Text
begin

text \<open>
  The transport of the node (\<open>http.rs\<close>): one request per connection, read as at most
  \<open>MAX_HEAD_BYTES\<close> of head and a body of a declared length, and the reply written back.  A
  connection is the bytes it delivers before it ends or times out; a read that needs more of them fails.
\<close>

section \<open>Requests and replies\<close>

type_synonym u16 = "16 word"

definition MAX_HEAD_BYTES :: nat where
  "MAX_HEAD_BYTES = 16 * 1024"

definition MAX_CONNECTIONS :: nat where
  "MAX_CONNECTIONS = 256"

datatype http_body = BodyText bytes | BodyTooLarge nat | BodyUnreadable

record http_request =
  hr_method :: bytes
  hr_headers :: "(bytes \<times> bytes) list"
  hr_body :: http_body
  hr_remote :: "bytes option"

record http_response =
  hp_status :: u16
  hp_headers :: "(bytes \<times> bytes) list"
  hp_body :: bytes

text \<open>The first header of a name, letters compared without case.\<close>

definition header_of :: "(bytes \<times> bytes) list \<Rightarrow> bytes \<Rightarrow> bytes option" where
  "header_of headers name =
     map_option snd (find (\<lambda>(k, v). ascii_lowercase k = ascii_lowercase name) headers)"

definition header :: "http_request \<Rightarrow> bytes \<Rightarrow> bytes option" where
  "header r = header_of (hr_headers r)"

section \<open>Reading a request\<close>

definition is_break :: "u8 \<Rightarrow> bool" where
  "is_break c \<longleftrightarrow> c = 13 \<or> c = 10"

definition trim_line :: "bytes \<Rightarrow> bytes" where
  "trim_line l = rev (dropWhile is_break (rev l))"

text \<open>
  The closure \<open>next_line\<close>: the bytes of the head so far and those still to come.  A line that does
  not end within the head, or is not UTF-8, ends the request.
\<close>

definition next_line :: "nat \<Rightarrow> bytes \<Rightarrow> (bytes \<times> nat \<times> bytes) option" where
  "next_line head s =
     (let avail = take (MAX_HEAD_BYTES - head) s;
          n = length (takeWhile (\<lambda>c. c \<noteq> 10) avail)
      in if n < length avail \<and> utf8_valid (take (Suc n) s)
         then Some (trim_line (take (Suc n) s), head + Suc n, drop (Suc n) s) else None)"

lemma next_line_shorter: "next_line head s = Some (l, head', s') \<Longrightarrow> length s' < length s"
  by (auto simp: next_line_def Let_def split: if_splits)

function read_headers :: "nat \<Rightarrow> bytes \<Rightarrow> ((bytes \<times> bytes) list \<times> bytes) option" where
  "read_headers head s =
     (case next_line head s of
        None \<Rightarrow> None
      | Some (l, head', s') \<Rightarrow>
          if l = [] then Some ([], s')
          else (case split_once 58 l of
              None \<Rightarrow> None
            | Some (k, v) \<Rightarrow>
                (case read_headers head' s' of
                   None \<Rightarrow> None
                 | Some (hs, rest) \<Rightarrow> Some ((trim_text k, trim_text v) # hs, rest))))"
  by pat_completeness auto
termination
  by (relation "measure (\<lambda>(head, s). length s)") (auto dest: next_line_shorter)

declare read_headers.simps [simp del]

definition ascii_uppercase :: "bytes \<Rightarrow> bytes" where
  "ascii_uppercase s = map (\<lambda>c. if 97 \<le> c \<and> c \<le> 122 then c - 32 else c) s"

definition read_body :: "nat \<Rightarrow> (bytes \<times> bytes) list \<Rightarrow> bytes \<Rightarrow> http_body" where
  "read_body max_body headers s =
     (if header_of headers (str_bytes ''Transfer-Encoding'') \<noteq> None then BodyUnreadable
      else (case map_option usize_from_str (header_of headers (str_bytes ''Content-Length'')) of
          None \<Rightarrow> BodyText []
        | Some None \<Rightarrow> BodyUnreadable
        | Some (Some len) \<Rightarrow>
            if max_body < len then BodyTooLarge len
            else if length s < len then BodyUnreadable
            else if utf8_valid (take len s) then BodyText (take len s) else BodyUnreadable))"

definition read_request :: "bytes \<Rightarrow> bytes option \<Rightarrow> nat \<Rightarrow> http_request option" where
  "read_request s remote max_body =
     (case next_line 0 s of
        None \<Rightarrow> None
      | Some (line, head, s1) \<Rightarrow>
          (case split_on 32 line of
             m # _ # version # _ \<Rightarrow>
               if take 7 version \<noteq> str_bytes ''HTTP/1.'' then None
               else (case read_headers head s1 of
                   None \<Rightarrow> None
                 | Some (headers, rest) \<Rightarrow>
                     Some \<lparr>hr_method = ascii_uppercase m, hr_headers = headers, hr_body = read_body max_body headers rest, hr_remote = remote\<rparr>)
           | _ \<Rightarrow> None))"

section \<open>Writing a reply\<close>

definition reason :: "u16 \<Rightarrow> bytes" where
  "reason status =
     (if status = 200 then str_bytes ''OK'' else if status = 204 then str_bytes ''No Content''
      else if status = 400 then str_bytes ''Bad Request'' else if status = 503 then str_bytes ''Service Unavailable'' else [])"

definition crlf :: bytes where
  "crlf = [13, 10]"

definition unbroken :: "bytes \<times> bytes \<Rightarrow> bool" where
  "unbroken h \<longleftrightarrow> list_all (\<lambda>c. \<not> is_break c) (fst h) \<and> list_all (\<lambda>c. \<not> is_break c) (snd h)"

definition write_response :: "http_response \<Rightarrow> bytes" where
  "write_response r =
     str_bytes ''HTTP/1.1 '' @ radix_text 10 (unat (hp_status r)) @ [32] @ reason (hp_status r) @ crlf
     @ str_bytes ''Content-Length: '' @ radix_text 10 (length (hp_body r)) @ crlf
     @ str_bytes ''Connection: close'' @ crlf
     @ concat (map (\<lambda>(k, v). if unbroken (k, v) then k @ str_bytes '': '' @ v @ crlf else []) (hp_headers r))
     @ crlf @ hp_body r"

definition bare_response :: "u16 \<Rightarrow> http_response" where
  "bare_response status = \<lparr>hp_status = status, hp_headers = [], hp_body = []\<rparr>"

definition unavailable :: http_response where
  "unavailable = bare_response 503"

text \<open>
  A connection: what it delivers, and what the node answers to the request, if it answers in time.  The socket
  can be set up; one that cannot is dropped without a reply.
\<close>

definition connection :: "bytes \<Rightarrow> bytes option \<Rightarrow> nat \<Rightarrow> (http_request \<Rightarrow> http_response option) \<Rightarrow> bytes" where
  "connection s remote max_body node =
     (case read_request s remote max_body of
        None \<Rightarrow> write_response (bare_response 400)
      | Some request \<Rightarrow> write_response (case node request of Some r \<Rightarrow> r | None \<Rightarrow> unavailable))"

text \<open>The connections that are open; a thread closes its own at any time.\<close>

inductive accept_step :: "nat \<Rightarrow> bytes option \<Rightarrow> nat \<Rightarrow> bool" where
  Accept: "open_now < MAX_CONNECTIONS \<Longrightarrow> accept_step open_now None (Suc open_now)"
| Refuse: "MAX_CONNECTIONS \<le> open_now \<Longrightarrow> accept_step open_now (Some (write_response unavailable)) open_now"
| Close: "accept_step (Suc open_now) None open_now"

lemma connections_bounded: "accept_step n r m \<Longrightarrow> n \<le> MAX_CONNECTIONS \<Longrightarrow> m \<le> MAX_CONNECTIONS"
  by (erule accept_step.cases) auto

section \<open>Lines\<close>

lemma ascii_valid: "list_all (\<lambda>c. c < 128) s \<Longrightarrow> utf8_valid s"
proof (induction s)
  case (Cons c s)
  then have "utf8_chunk (c # s) = (True, 1)" by (simp add: utf8_width_def)
  with Cons show ?case by (simp add: utf8_valid.simps [of "c # s"])
qed (simp add: utf8_valid.simps)

text \<open>The visible characters and the blank: what names, values and request lines are made of.\<close>

definition visible :: "u8 \<Rightarrow> bool" where
  "visible c \<longleftrightarrow> 32 \<le> c \<and> c < 127"

lemma visible_not_break: "visible c \<Longrightarrow> \<not> is_break c" "visible c \<Longrightarrow> c \<noteq> 10" "visible c \<Longrightarrow> c < 128"
  by (auto simp: visible_def is_break_def word_le_nat_alt word_less_nat_alt)

lemma trim_line_crlf: "list_all (\<lambda>c. \<not> is_break c) l \<Longrightarrow> trim_line (l @ crlf) = l"
  by (cases l rule: rev_cases) (simp_all add: trim_line_def crlf_def is_break_def)

lemma next_line_plain:
  assumes "list_all visible l" "head + length l + 2 \<le> MAX_HEAD_BYTES"
  shows "next_line head (l @ crlf @ s) = Some (l, head + length l + 2, s)"
proof -
  let ?a = "take (MAX_HEAD_BYTES - head) (l @ crlf @ s)"
  obtain t where t: "?a = l @ [13, 10] @ t" using assms(2) by (cases "MAX_HEAD_BYTES - head - length l") (auto simp: crlf_def take_Cons')
  have tw: "takeWhile (\<lambda>c. c \<noteq> 10) (l @ [13, 10] @ t) = l @ [13]"
    using assms(1) by (subst takeWhile_append2) (auto simp: list_all_iff visible_not_break)
  have line: "take (Suc (Suc (length l))) (l @ crlf @ s) = l @ crlf" by (simp add: crlf_def)
  have "utf8_valid (l @ crlf)"
    using assms(1) by (intro ascii_valid) (auto simp: list_all_iff crlf_def visible_not_break)
  moreover have "trim_line (l @ crlf) = l"
    using assms(1) by (intro trim_line_crlf) (auto simp: list_all_iff visible_not_break)
  ultimately show ?thesis unfolding next_line_def Let_def t tw by (simp add: line) (simp add: crlf_def)
qed

lemma trim_text_blank: "trim_text (32 # v) = trim_text v"
proof -
  have "strip_all white_chars (32 # v) = strip_all white_chars v"
    by (subst strip_all.simps) (simp add: white_chars_def utf8_char_def upt_conv_Cons)
  then show ?thesis by (simp add: trim_text_def)
qed

lemma strip_all_stop:
  assumes "list_all (\<lambda>w. w = [] \<or> hd w \<noteq> c) ws"
  shows "strip_all ws (c # s) = c # s"
proof -
  have "find (\<lambda>w. w \<noteq> [] \<and> take (length w) (c # s) = w) ws = None"
    using assms by (auto simp: find_None_iff list_all_iff take_Cons' split: if_splits) (metis list.sel(1))
  then show ?thesis by (simp add: strip_all.simps)
qed

lemma white_ends:
  assumes "33 \<le> c" "c < 127"
  shows "list_all (\<lambda>w. w = [] \<or> hd w \<noteq> c) white_chars" "list_all (\<lambda>w. w = [] \<or> hd w \<noteq> c) (map rev white_chars)"
  using assms by (auto simp: white_chars_def utf8_char_def upt_conv_Cons word_le_nat_alt word_less_nat_alt)

lemma trim_text_visible:
  assumes "33 \<le> c" "c < 127" "33 \<le> e" "e < 127"
  shows "trim_text [c] = [c]" "trim_text (c # s @ [e]) = c # s @ [e]"
  using strip_all_stop [OF white_ends(1) [OF assms(1,2)]] strip_all_stop [OF white_ends(2) [OF assms(1,2)]]
    strip_all_stop [OF white_ends(2) [OF assms(3,4)]] by (simp_all add: trim_text_def)

lemma split_once_at: "c \<notin> set k \<Longrightarrow> split_once c (k @ c # v) = Some (k, v)"
  unfolding split_once_def by (subst dropWhile_append2, simp_all, blast) (subst takeWhile_append2, auto)

lemma split_on_at: "c \<notin> set k \<Longrightarrow> split_on c (k @ c # v) = k # split_on c v"
  by (induction k) auto

lemma split_on_none: "c \<notin> set k \<Longrightarrow> split_on c k = [k]"
  by (induction k) auto

section \<open>Requests as clients write them\<close>

definition header_line :: "bytes \<times> bytes \<Rightarrow> bytes" where
  "header_line h = fst h @ [58, 32] @ snd h"

definition encode_request :: "bytes \<Rightarrow> bytes \<Rightarrow> (bytes \<times> bytes) list \<Rightarrow> bytes \<Rightarrow> bytes" where
  "encode_request m target headers body =
     (m @ [32] @ target @ [32] @ str_bytes ''HTTP/1.1'') @ crlf
     @ concat (map (\<lambda>h. header_line h @ crlf) headers) @ crlf @ body"

definition head_size :: "bytes \<Rightarrow> bytes \<Rightarrow> (bytes \<times> bytes) list \<Rightarrow> nat" where
  "head_size m target headers = length (encode_request m target headers [])"

definition plain_header :: "bytes \<times> bytes \<Rightarrow> bool" where
  "plain_header h \<longleftrightarrow> list_all visible (fst h) \<and> list_all visible (snd h) \<and> 58 \<notin> set (fst h)
     \<and> trim_text (fst h) = fst h \<and> trim_text (snd h) = snd h"

lemma read_headers_plain:
  assumes "list_all plain_header headers"
    "head + length (concat (map (\<lambda>h. header_line h @ crlf) headers) @ crlf) \<le> MAX_HEAD_BYTES"
  shows "read_headers head (concat (map (\<lambda>h. header_line h @ crlf) headers) @ crlf @ rest) = Some (headers, rest)"
  using assms
proof (induction headers arbitrary: head)
  case Nil
  then have "next_line head ([] @ crlf @ rest) = Some ([], head + length ([] :: bytes) + 2, rest)"
    by (intro next_line_plain) (simp_all add: crlf_def)
  then show ?case by (simp add: read_headers.simps [of head])
next
  case (Cons h hs)
  obtain k v where h: "h = (k, v)" by (cases h)
  have p: "list_all visible (header_line h)" using Cons.prems(1) by (simp add: plain_header_def header_line_def visible_def)
  have l: "head + length (header_line h) + 2 \<le> MAX_HEAD_BYTES" using Cons.prems(2) by (simp add: crlf_def)
  note line = next_line_plain [OF p l]
  have "read_headers (head + length (header_line h) + 2) (concat (map (\<lambda>h. header_line h @ crlf) hs) @ crlf @ rest) = Some (hs, rest)"
    using Cons.prems by (intro Cons.IH) (simp_all add: crlf_def)
  moreover have "split_once 58 (header_line h) = Some (k, 32 # v)"
    using Cons.prems(1) split_once_at [of 58 k "32 # v"] by (simp add: plain_header_def h header_line_def)
  moreover have "header_line h \<noteq> []" by (simp add: header_line_def)
  ultimately show ?case using Cons.prems(1)
    by (subst read_headers.simps) (simp add: line [unfolded h] trim_text_blank plain_header_def h)
qed

section \<open>Replies as clients read them\<close>

text \<open>A client splits a reply at its line ends, up to the empty line; the rest is the body.\<close>

fun break_line :: "bytes \<Rightarrow> (bytes \<times> bytes) option" where
  "break_line (a # b # s) = (if a = 13 \<and> b = 10 then Some ([], s) else map_option (apfst (Cons a)) (break_line (b # s)))"
| "break_line _ = None"

lemma break_line_shorter: "break_line s = Some (l, rest) \<Longrightarrow> length rest < length s"
  by (induction s arbitrary: l rule: break_line.induct) (auto split: if_splits)

function head_lines :: "bytes \<Rightarrow> (bytes list \<times> bytes) option" where
  "head_lines s =
     (case break_line s of
        None \<Rightarrow> None
      | Some (l, rest) \<Rightarrow> if l = [] then Some ([], rest) else map_option (apfst (Cons l)) (head_lines rest))"
  by pat_completeness auto
termination
  by (relation "measure length") (auto dest: break_line_shorter)

declare head_lines.simps [simp del]

lemma break_line_at: "list_all (\<lambda>c. \<not> is_break c) l \<Longrightarrow> break_line (l @ crlf @ s) = Some (l, s)"
proof (induction l)
  case (Cons a l)
  then show ?case by (cases l) (auto simp: crlf_def is_break_def)
qed (simp add: crlf_def)

lemma head_lines_at:
  "list_all (\<lambda>l. l \<noteq> [] \<and> list_all (\<lambda>c. \<not> is_break c) l) ls \<Longrightarrow>
   head_lines (concat (map (\<lambda>l. l @ crlf) ls) @ crlf @ body) = Some (ls, body)"
proof (induction ls)
  case Nil
  then show ?case using break_line_at [of "[]" body] by (simp add: head_lines.simps)
next
  case (Cons l ls)
  then show ?case using break_line_at [of l "concat (map (\<lambda>l. l @ crlf) ls) @ crlf @ body"]
    by (subst head_lines.simps) simp
qed

definition response_lines :: "http_response \<Rightarrow> bytes list" where
  "response_lines r =
     [str_bytes ''HTTP/1.1 '' @ radix_text 10 (unat (hp_status r)) @ [32] @ reason (hp_status r),
      str_bytes ''Content-Length: '' @ radix_text 10 (length (hp_body r)), str_bytes ''Connection: close'']
     @ map header_line (filter unbroken (hp_headers r))"

lemma radix_unbroken: "list_all (\<lambda>c. \<not> is_break c) (radix_text 10 n)"
  using radix_text_val [of n] by (auto simp: list_all_iff is_digit_def is_break_def)

lemma write_response_lines: "write_response r = concat (map (\<lambda>l. l @ crlf) (response_lines r)) @ crlf @ hp_body r"
proof -
  have "concat (map (\<lambda>(k, v). if unbroken (k, v) then k @ str_bytes '': '' @ v @ crlf else []) hs)
      = concat (map (\<lambda>l. l @ crlf) (map header_line (filter unbroken hs)))" for hs
    by (induction hs) (auto simp: header_line_def str_bytes_def)
  then show ?thesis by (simp add: write_response_def response_lines_def)
qed

lemma response_read: "head_lines (write_response r) = Some (response_lines r, hp_body r)"
  unfolding write_response_lines
  by (rule head_lines_at)
    (auto simp: response_lines_def header_line_def unbroken_def list_all_iff is_break_def str_bytes_def reason_def
      dest: radix_unbroken [unfolded list_all_iff is_break_def, rule_format])

section \<open>Properties\<close>

text \<open>A body is never larger than the limit.\<close>

lemma read_body_bounded: "read_request s remote max_body = Some r \<Longrightarrow> hr_body r = BodyText b \<Longrightarrow> length b \<le> max_body"
  by (auto simp: read_request_def read_body_def split: option.splits list.splits if_splits)

text \<open>
  A request is read as it was sent.  For every method without blanks or lower-case letters, every
  target, and every list of headers that fits into the head, declares the length of the body and
  no transfer encoding, the node reads exactly that method, those headers and that body, whatever
  follows on the connection.
\<close>

lemma request_round_trip:
  assumes m: "list_all visible m" "32 \<notin> set m" "ascii_uppercase m = m" and target: "list_all visible target" "32 \<notin> set target"
    and headers: "list_all plain_header headers" "header_of headers (str_bytes ''Transfer-Encoding'') = None"
      "header_of headers (str_bytes ''Content-Length'') = Some (radix_text 10 (length body))"
    and fits: "head_size m target headers \<le> MAX_HEAD_BYTES" "length body \<le> max_body" "length body < 2 ^ 64" "utf8_valid body"
  shows "read_request (encode_request m target headers body @ rest) remote max_body
    = Some \<lparr>hr_method = m, hr_headers = headers, hr_body = BodyText body, hr_remote = remote\<rparr>"
proof -
  let ?line = "m @ [32] @ target @ [32] @ str_bytes ''HTTP/1.1''" and ?hs = "concat (map (\<lambda>h. header_line h @ crlf) headers)"
  have size: "length ?line + 2 + length (?hs @ crlf) \<le> MAX_HEAD_BYTES"
    using fits(1) by (simp add: head_size_def encode_request_def crlf_def)
  have "list_all visible ?line" using m(1) target(1) by (simp add: str_bytes_def visible_def)
  then have l: "next_line 0 (?line @ crlf @ ?hs @ crlf @ body @ rest) = Some (?line, length ?line + 2, ?hs @ crlf @ body @ rest)"
    using next_line_plain [of ?line 0] size by simp
  have h: "read_headers (length ?line + 2) (?hs @ crlf @ body @ rest) = Some (headers, body @ rest)"
    by (rule read_headers_plain [OF headers(1)]) (use size in simp)
  have sp: "split_on 32 ?line = [m, target, str_bytes ''HTTP/1.1'']"
    using m(2) target(2) by (simp add: split_on_at split_on_none str_bytes_def)
  have "usize_from_str (radix_text 10 (length body)) = Some (length body)" by (rule usize_from_str_text [OF fits(3)])
  then have "read_body max_body headers (body @ rest) = BodyText body"
    using headers(2,3) fits(2,4) by (simp add: read_body_def)
  then show ?thesis using l h sp m(3) by (simp add: read_request_def encode_request_def) (simp add: str_bytes_def)
qed

text \<open>
  C33.  A reply cannot be split.  Whatever arrives on a connection and whatever the node answers, the
  client reads one reply: its status line, its length, the headers that contain no line break, one
  per line, and the body whole, of the declared length.  An unreadable request is answered 400, an
  unanswered one 503.
\<close>

theorem replies_framed:
  "\<exists>r. head_lines (connection s remote max_body node) = Some (response_lines r, hp_body r)
     \<and> r = (case read_request s remote max_body of
          None \<Rightarrow> bare_response 400
        | Some request \<Rightarrow> (case node request of Some a \<Rightarrow> a | None \<Rightarrow> unavailable))"
  by (cases "read_request s remote max_body") (simp_all add: connection_def response_read)

end
