(* ===== verification/Disk.thy ===== *)
theory Disk
  imports Act Text
begin

text \<open>
  The file system as the node uses it, and replacing a file through a temporary one.  What the
  operating system does with each call is written down in a plan: a call may fail, a write that
  fails leaves anything behind in its file, a rename is done or not done at all.  An interruption
  is a call that fails and is the last.
\<close>

section \<open>Files\<close>

text \<open>The kinds of \<open>std::io::Error\<close> the code tells apart.\<close>

datatype io_error = NotFound | OtherIo

datatype io_outcome = Done | Fails "bytes option"

record disk =
  dk_files :: "bytes \<Rightarrow> bytes option"
  dk_plan :: "io_outcome list"

text \<open>The outcome of the next call; a plan that has ended lets every call succeed.\<close>

fun outcome_of :: "io_outcome list \<Rightarrow> io_outcome" where
  "outcome_of [] = Done"
| "outcome_of (x # _) = x"

definition fs_read :: "bytes \<Rightarrow> (disk, io_error, bytes) act" where
  "fs_read p = (\<lambda>d.
     (case outcome_of (dk_plan d) of
        Done \<Rightarrow> ok_or (dk_files d p) NotFound
      | Fails _ \<Rightarrow> Err OtherIo, d\<lparr>dk_plan := tl (dk_plan d)\<rparr>))"

definition fs_write :: "bytes \<Rightarrow> bytes \<Rightarrow> (disk, io_error, unit) act" where
  "fs_write p bs = (\<lambda>d.
     (case outcome_of (dk_plan d) of
        Done \<Rightarrow> (Ok (), d\<lparr>dk_files := (dk_files d)(p := Some bs), dk_plan := tl (dk_plan d)\<rparr>)
      | Fails left \<Rightarrow> (Err OtherIo, d\<lparr>dk_files := (dk_files d)(p := left), dk_plan := tl (dk_plan d)\<rparr>)))"

definition fs_rename :: "bytes \<Rightarrow> bytes \<Rightarrow> (disk, io_error, unit) act" where
  "fs_rename a b = (\<lambda>d.
     (case outcome_of (dk_plan d) of
        Done \<Rightarrow>
          (case dk_files d a of
             Some bs \<Rightarrow> (Ok (), d\<lparr>dk_files := (dk_files d)(a := None, b := Some bs), dk_plan := tl (dk_plan d)\<rparr>)
           | None \<Rightarrow> (Err NotFound, d\<lparr>dk_plan := tl (dk_plan d)\<rparr>))
      | Fails _ \<Rightarrow> (Err OtherIo, d\<lparr>dk_plan := tl (dk_plan d)\<rparr>)))"

text \<open>Creating a directory leaves the files as they are.\<close>

definition fs_create_dir_all :: "bytes \<Rightarrow> (disk, io_error, unit) act" where
  "fs_create_dir_all p = (\<lambda>d.
     (case outcome_of (dk_plan d) of Done \<Rightarrow> Ok () | Fails _ \<Rightarrow> Err OtherIo, d\<lparr>dk_plan := tl (dk_plan d)\<rparr>))"

definition path_join :: "bytes \<Rightarrow> bytes \<Rightarrow> bytes" where
  "path_join root name = root @ str_bytes ''/'' @ name"

text \<open>Writing beside a file and renaming over it.\<close>

definition replace_file ::
    "(io_error \<Rightarrow> 'e) \<Rightarrow> (io_error \<Rightarrow> 'e) \<Rightarrow> bytes \<Rightarrow> bytes \<Rightarrow> bytes \<Rightarrow> (disk, 'e, unit) act" where
  "replace_file f g temp path bs =
     bind_act (map_err_act f (fs_write temp bs)) (\<lambda>_. map_err_act g (fs_rename temp path))"

text \<open>A sequence of files, each computed and then written, that stops at the first failure.\<close>

fun put_all :: "('k \<Rightarrow> bytes \<Rightarrow> ('s, 'e, unit) act) \<Rightarrow> ('k \<times> ('e, bytes) result) list \<Rightarrow> ('s, 'e, unit) act" where
  "put_all put [] = give (Ok ())"
| "put_all put ((k, r) # rest) = bind_act (give r) (\<lambda>bs. bind_act (put k bs) (\<lambda>_. put_all put rest))"

section \<open>Files that are replaced as a whole\<close>

text \<open>
  The contract of a writer of named files: a write that succeeds leaves exactly the new content, one
  that fails leaves the old content, and no other file of the store is touched.
\<close>

locale durable =
  fixes put :: "'k \<Rightarrow> bytes \<Rightarrow> (disk, 'e, unit) act"
    and path :: "'k \<Rightarrow> bytes"
  assumes put_Ok: "put k bs d = (Ok (), d') \<Longrightarrow> dk_files d' (path k) = Some bs"
    and put_failed: "put k bs d = (r, d') \<Longrightarrow> \<not> is_ok r \<Longrightarrow> dk_files d' (path k) = dk_files d (path k)"
    and put_other: "put k bs d = (r, d') \<Longrightarrow> j \<noteq> k \<Longrightarrow> dk_files d' (path j) = dk_files d (path j)"
    and put_not_Panic: "fst (put k bs d) \<noteq> Panic"
begin

lemma put_content: "put k bs d = (r, d') \<Longrightarrow> dk_files d' (path k) = (if is_ok r then Some bs else dk_files d (path k))"
  using put_Ok put_failed by (cases r) auto

text \<open>
  A sequence of writes has at every moment done a first part of them completely and the rest not at all.
\<close>

lemma put_all_prefix:
  assumes "put_all put kvs d = (r, d')" "distinct (map fst kvs)"
  shows "\<exists>n. n \<le> length kvs \<and> (is_ok r \<longrightarrow> n = length kvs)
    \<and> (\<forall>i < n. \<exists>bs. snd (kvs ! i) = Ok bs \<and> dk_files d' (path (fst (kvs ! i))) = Some bs)
    \<and> (\<forall>k. k \<notin> fst ` set (take n kvs) \<longrightarrow> dk_files d' (path k) = dk_files d (path k))"
  using assms
proof (induction kvs arbitrary: d)
  case Nil
  then show ?case by (auto simp: give_def)
next
  case (Cons kv rest)
  obtain k s where kv: "kv = (k, s)" by (cases kv)
  have none: "\<exists>n. n \<le> length (kv # rest) \<and> (is_ok r \<longrightarrow> n = length (kv # rest))
      \<and> (\<forall>i < n. \<exists>bs. snd ((kv # rest) ! i) = Ok bs \<and> dk_files d' (path (fst ((kv # rest) ! i))) = Some bs)
      \<and> (\<forall>k. k \<notin> fst ` set (take n (kv # rest)) \<longrightarrow> dk_files d' (path k) = dk_files d (path k))"
    if "\<not> is_ok r" "\<And>k. dk_files d' (path k) = dk_files d (path k)"
    using that by (intro exI [of _ 0]) simp
  show ?case
  proof (cases s)
    case (Ok bs)
    obtain r1 d1 where p: "put k bs d = (r1, d1)" by (cases "put k bs d")
    show ?thesis
    proof (cases r1)
      case rOk: (Ok u)
      have "put_all put rest d1 = (r, d')" using Cons.prems(1) by (simp add: kv Ok bind_act_def give_def p rOk)
      from Cons.IH [OF this] Cons.prems(2) obtain n where
        n: "n \<le> length rest" "is_ok r \<longrightarrow> n = length rest"
          "\<forall>i < n. \<exists>bs. snd (rest ! i) = Ok bs \<and> dk_files d' (path (fst (rest ! i))) = Some bs"
          "\<forall>k. k \<notin> fst ` set (take n rest) \<longrightarrow> dk_files d' (path k) = dk_files d1 (path k)" by auto
      have "k \<notin> fst ` set (take n rest)" using Cons.prems(2) by (auto simp: kv dest: in_set_takeD)
      then have "dk_files d' (path k) = Some bs" using n(4) put_content [OF p] rOk by simp
      moreover have "dk_files d' (path j) = dk_files d (path j)" if "j \<noteq> k" "j \<notin> fst ` set (take n rest)" for j
        using that n(4) put_other [OF p] by simp
      ultimately show ?thesis using n
        by (intro exI [of _ "Suc n"]) (auto simp: kv Ok nth_Cons split: nat.splits)
    next
      case (Err e)
      with Cons.prems(1) Ok p have "r = Err e" "d' = d1" by (auto simp: kv bind_act_def give_def)
      with put_content [OF p] put_other [OF p] Err show ?thesis by (intro none) (auto, metis)
    next
      case Panic
      then show ?thesis using p put_not_Panic [of k bs d] by simp
    qed
  next
    case (Err e)
    with Cons.prems(1) show ?thesis by (intro none) (auto simp: kv bind_act_def give_def)
  next
    case Panic
    with Cons.prems(1) show ?thesis by (intro none) (auto simp: kv bind_act_def give_def)
  qed
qed

end

section \<open>Replacing through a temporary file\<close>

lemma replace_file_result:
  assumes "replace_file f g temp path bs d = (r, d')" "temp \<noteq> path"
  shows "dk_files d' path = (if is_ok r then Some bs else dk_files d path)" "r \<noteq> Panic"
    "q \<noteq> path \<Longrightarrow> q \<noteq> temp \<Longrightarrow> dk_files d' q = dk_files d q"
  using assms
  by (auto simp: replace_file_def map_err_act_def bind_act_def fs_write_def fs_rename_def
      split: io_outcome.splits option.splits if_splits prod.splits)

text \<open>A writer that puts every file in place this way keeps the contract.\<close>

lemma replace_durable:
  assumes "\<And>j k. temp k \<noteq> path j" "\<And>j k. path j = path k \<Longrightarrow> j = k"
  shows "durable (\<lambda>k. replace_file (f k) (g k) (temp k) (path k)) path"
proof
  fix k bs d r d' j assume p: "replace_file (f k) (g k) (temp k) (path k) bs d = (r, d')"
  note res = replace_file_result [OF p assms(1)]
  show "j \<noteq> k \<Longrightarrow> dk_files d' (path j) = dk_files d (path j)" using res(3) assms by metis
  show "\<not> is_ok r \<Longrightarrow> dk_files d' (path k) = dk_files d (path k)" using res(1) by simp
next
  fix k bs d d' assume "replace_file (f k) (g k) (temp k) (path k) bs d = (Ok (), d')"
  from replace_file_result(1) [OF this assms(1)] show "dk_files d' (path k) = Some bs" by simp
next
  fix k bs d show "fst (replace_file (f k) (g k) (temp k) (path k) bs d) \<noteq> Panic"
    using replace_file_result(2) [OF _ assms(1)] by (metis prod.collapse)
qed

end
