(* ===== verification/Store.thy ===== *)
theory Store
  imports Disk Genesis Sequencer Da
begin

text \<open>
  The node's data directory (\<open>store.rs\<close>), the store of published batches (\<open>da.rs\<close>) and how a node
  starts from its directory (\<open>serve\<close> in \<open>sena_node.rs\<close>): the genesis file, the files written by
  \<open>save\<close> one after another, what \<open>load\<close> checks of them, and resuming.  JSON belongs to serde and
  is the parameter \<open>store_json\<close>.
\<close>

section \<open>Files\<close>

datatype store_name = GenesisFile | StateFile | ChainFile | BlocksFile | MetadataFile

fun name_text :: "store_name \<Rightarrow> bytes" where
  "name_text GenesisFile = str_bytes ''genesis.json''"
| "name_text StateFile = str_bytes ''state.bin''"
| "name_text ChainFile = str_bytes ''chain.json''"
| "name_text BlocksFile = str_bytes ''blocks.json''"
| "name_text MetadataFile = str_bytes ''metadata.json''"

datatype store_error =
    StoreIo string bytes io_error
  | StoreMalformed store_name
  | StateCorrupt load_error
  | GenesisMismatch bytes bytes
  | GenesisInvalid genesis_error

record metadata =
  md_chain_id :: bytes
  md_genesis_root :: bytes
  md_block_height :: u64

record stored_block =
  st_height :: u64
  st_timestamp :: u64
  st_base_fee :: u128
  st_fee_recipient :: l2address
  st_transactions :: "transaction list"
  st_pre_state_root :: bytes
  st_post_state_root :: bytes

record store_json =
  sj_genesis :: "genesis_config \<Rightarrow> bytes option"
  sj_read_genesis :: "bytes \<Rightarrow> genesis_config option"
  sj_chain :: "chain_snapshot \<Rightarrow> bytes option"
  sj_read_chain :: "bytes \<Rightarrow> chain_snapshot option"
  sj_blocks :: "stored_block list \<Rightarrow> bytes option"
  sj_read_blocks :: "bytes \<Rightarrow> stored_block list option"
  sj_metadata :: "metadata \<Rightarrow> bytes option"
  sj_read_metadata :: "bytes \<Rightarrow> metadata option"

text \<open>What the code relies on: what serde writes, serde reads back.\<close>

definition json_reads_back :: "store_json \<Rightarrow> bool" where
  "json_reads_back sj \<longleftrightarrow>
     (\<forall>x bs. sj_genesis sj x = Some bs \<longrightarrow> sj_read_genesis sj bs = Some x)
     \<and> (\<forall>x bs. sj_chain sj x = Some bs \<longrightarrow> sj_read_chain sj bs = Some x)
     \<and> (\<forall>x bs. sj_blocks sj x = Some bs \<longrightarrow> sj_read_blocks sj bs = Some x)
     \<and> (\<forall>x bs. sj_metadata sj x = Some bs \<longrightarrow> sj_read_metadata sj bs = Some x)"

definition store_file :: "bytes \<Rightarrow> store_name \<Rightarrow> bytes" where
  "store_file root name = path_join root (name_text name)"

definition store_temp :: "bytes \<Rightarrow> store_name \<Rightarrow> bytes" where
  "store_temp root name = path_join root (name_text name @ str_bytes ''.tmp'')"

definition store_open :: "bytes \<Rightarrow> (disk, store_error, bytes) act" where
  "store_open root =
     bind_act (map_err_act (StoreIo ''create data directory'' root) (fs_create_dir_all root)) (\<lambda>_. give (Ok root))"

definition store_write :: "bytes \<Rightarrow> store_name \<Rightarrow> bytes \<Rightarrow> (disk, store_error, unit) act" where
  "store_write root name =
     replace_file (StoreIo ''write'' (store_temp root name)) (StoreIo ''rename'' (store_file root name))
       (store_temp root name) (store_file root name)"

definition store_read :: "bytes \<Rightarrow> store_name \<Rightarrow> (disk, store_error, bytes option) act" where
  "store_read root name = (\<lambda>d.
     case fs_read (store_file root name) d of
       (Ok bs, d') \<Rightarrow> (Ok (Some bs), d')
     | (Err NotFound, d') \<Rightarrow> (Ok None, d')
     | (Err e, d') \<Rightarrow> (Err (StoreIo ''read'' (store_file root name) e), d')
     | (Panic, d') \<Rightarrow> (Panic, d'))"

section \<open>Saving and loading\<close>

definition save_genesis :: "store_json \<Rightarrow> bytes \<Rightarrow> genesis_config \<Rightarrow> (disk, store_error, unit) act" where
  "save_genesis sj root config =
     bind_act (give (ok_or (sj_genesis sj config) (StoreMalformed GenesisFile))) (store_write root GenesisFile)"

definition load_genesis :: "store_json \<Rightarrow> bytes \<Rightarrow> (disk, store_error, genesis_config option) act" where
  "load_genesis sj root =
     bind_act (store_read root GenesisFile) (\<lambda>found.
       give (case found of
           None \<Rightarrow> Ok None
         | Some bs \<Rightarrow> and_then (ok_or (sj_read_genesis sj bs) (StoreMalformed GenesisFile)) (\<lambda>g. Ok (Some g))))"

definition stored_form :: "text_codecs \<Rightarrow> block \<Rightarrow> stored_block" where
  "stored_form tc b = \<lparr>st_height = bk_height b, st_timestamp = bk_timestamp b, st_base_fee = bk_base_fee b,
     st_fee_recipient = bk_fee_recipient b, st_transactions = bk_transactions b,
     st_pre_state_root = hash_to_hex tc (bk_pre_state_root b), st_post_state_root = hash_to_hex tc (bk_post_state_root b)\<rparr>"

definition store_save ::
    "hasher \<Rightarrow> ed25519 \<Rightarrow> text_codecs \<Rightarrow> width_constants list \<Rightarrow> store_json \<Rightarrow> bytes \<Rightarrow> genesis_config \<Rightarrow> merkle_trie \<Rightarrow> chain_snapshot
     \<Rightarrow> block list \<Rightarrow> (disk, store_error, unit) act" where
  "store_save H ed tc pcs sj root genesis state chain blocks =
     bind_act (give (map_err GenesisInvalid (genesis_root H ed tc pcs genesis))) (\<lambda>genesis_root.
     let metadata = \<lparr>md_chain_id = gc_chain_id genesis, md_genesis_root = hash_to_hex tc genesis_root,
           md_block_height = of_nat (length blocks)\<rparr>;
         stored = map (stored_form tc) blocks in
     bind_act (store_write root StateFile (to_bytes state)) (\<lambda>_.
     bind_act (give (ok_or (sj_chain sj chain) (StoreMalformed ChainFile))) (\<lambda>c.
     bind_act (store_write root ChainFile c) (\<lambda>_.
     bind_act (give (ok_or (sj_blocks sj stored) (StoreMalformed BlocksFile))) (\<lambda>b.
     bind_act (store_write root BlocksFile b) (\<lambda>_.
     bind_act (give (ok_or (sj_metadata sj metadata) (StoreMalformed MetadataFile))) (\<lambda>m.
       store_write root MetadataFile m)))))))"

fun read_batches :: "text_codecs \<Rightarrow> stored_block list \<Rightarrow> (store_error, stored_batch list) result" where
  "read_batches tc [] = Ok []"
| "read_batches tc (b # bs) =
     and_then (map_err (\<lambda>_. StoreMalformed BlocksFile) (hash_from_hex tc (st_post_state_root b))) (\<lambda>post.
     and_then (read_batches tc bs) (\<lambda>rest.
       Ok (\<lparr>sb_timestamp = st_timestamp b, sb_base_fee = st_base_fee b, sb_fee_recipient = st_fee_recipient b,
         sb_transactions = st_transactions b, sb_post_state_root = post\<rparr> # rest)))"

definition check_metadata ::
    "hasher \<Rightarrow> ed25519 \<Rightarrow> text_codecs \<Rightarrow> width_constants list \<Rightarrow> store_json \<Rightarrow> genesis_config \<Rightarrow> bytes option \<Rightarrow> (store_error, unit) result" where
  "check_metadata H ed tc pcs sj genesis found =
     (case found of
        None \<Rightarrow> Ok ()
      | Some bs \<Rightarrow>
          and_then (ok_or (sj_read_metadata sj bs) (StoreMalformed MetadataFile)) (\<lambda>metadata.
          and_then (map_err GenesisInvalid (genesis_root H ed tc pcs genesis)) (\<lambda>root.
            let computed = hash_to_hex tc root in
            if md_genesis_root metadata \<noteq> computed then Err (GenesisMismatch computed (md_genesis_root metadata)) else Ok ())))"

definition store_load ::
    "hasher \<Rightarrow> ed25519 \<Rightarrow> text_codecs \<Rightarrow> width_constants list \<Rightarrow> store_json \<Rightarrow> bytes \<Rightarrow> genesis_config
     \<Rightarrow> (disk, store_error, (merkle_trie \<times> chain_snapshot \<times> stored_batch list) option) act" where
  "store_load H ed tc pcs sj root genesis =
     bind_act (store_read root StateFile) (\<lambda>found.
     case found of
       None \<Rightarrow> give (Ok None)
     | Some state_bytes \<Rightarrow>
         bind_act (store_read root MetadataFile) (\<lambda>md.
         bind_act (give (check_metadata H ed tc pcs sj genesis md)) (\<lambda>_.
         bind_act (give (map_err StateCorrupt (from_bytes H state_bytes))) (\<lambda>state.
         bind_act (store_read root ChainFile) (\<lambda>cf.
         bind_act (give (ok_or (Option.bind cf (sj_read_chain sj)) (StoreMalformed ChainFile))) (\<lambda>chain.
         bind_act (store_read root BlocksFile) (\<lambda>bf.
         bind_act (give (case bf of
             None \<Rightarrow> Ok []
           | Some bs \<Rightarrow> and_then (ok_or (sj_read_blocks sj bs) (StoreMalformed BlocksFile)) (read_batches tc))) (\<lambda>batches.
           give (Ok (Some (state, chain, batches)))))))))))"

section \<open>Starting a node\<close>

datatype start_error =
    StartStore store_error
  | NoGenesisFile bytes
  | StartGenesis genesis_error
  | StartResume resume_error
  | BadFeeRecipient hash_parse_error

definition resumed ::
    "hasher \<Rightarrow> ed25519 \<Rightarrow> text_codecs \<Rightarrow> width_constants list \<Rightarrow> keyless_config option \<Rightarrow> genesis_config
     \<Rightarrow> (merkle_trie \<times> chain_snapshot \<times> stored_batch list) option \<Rightarrow> (start_error, sequencer) result" where
  "resumed H ed tc pcs keyless config loaded =
     and_then (map_err StartGenesis (build_state H ed tc pcs config)) (\<lambda>genesis.
       case loaded of
         Some (state, chain, batches) \<Rightarrow>
           map_err StartResume (resume H ed pcs genesis (chain_restore H chain) 1 (gc_minimum_bond config) keyless batches (mt_root state))
       | None \<Rightarrow>
           sequencer_new H genesis (chain_new H (mt_root genesis) (gc_challenge_window_secs config) (gc_minimum_bond config)) 1
             (gc_minimum_bond config))"

text \<open>The verification keys of a keyless setup are a parameter.\<close>

definition start_node ::
    "hasher \<Rightarrow> ed25519 \<Rightarrow> text_codecs \<Rightarrow> width_constants list \<Rightarrow> store_json \<Rightarrow> (keyless_setup \<Rightarrow> keyless_config) \<Rightarrow> bytes \<Rightarrow> bytes option
     \<Rightarrow> (disk, start_error, sequencer) act" where
  "start_node H ed tc pcs sj keys data_dir fee_recipient =
     bind_act (map_err_act StartStore (store_open data_dir)) (\<lambda>root.
     bind_act (map_err_act StartStore (load_genesis sj root)) (\<lambda>found.
     bind_act (give (ok_or found (NoGenesisFile data_dir))) (\<lambda>config.
     bind_act (give (map_err StartGenesis (keyless_config_of config))) (\<lambda>setup.
     bind_act (map_err_act StartStore (store_load H ed tc pcs sj root config)) (\<lambda>loaded.
     let keyless = map_option keys setup in
     bind_act (give (resumed H ed tc pcs keyless config loaded)) (\<lambda>sq.
     let sq1 = with_fee_assets (with_keyless sq keyless) (map ga_asset (gc_gas_assets config)) in
     give (case fee_recipient of
         None \<Rightarrow> Ok sq1
       | Some account \<Rightarrow> and_then (map_err BadFeeRecipient (address_from_hex tc (trim_text account))) (\<lambda>a. Ok (with_fee_recipient sq1 a)))))))))"

section \<open>The store of published batches\<close>

record da_json =
  dj_blob :: "da_blob \<Rightarrow> bytes option"
  dj_read_blob :: "bytes \<Rightarrow> da_blob option"

definition commit_file :: "text_codecs \<Rightarrow> bytes \<Rightarrow> hash256 \<Rightarrow> bytes" where
  "commit_file tc dir h = path_join dir (hash_to_hex tc h @ str_bytes ''.json'')"

definition height_file :: "bytes \<Rightarrow> u64 \<Rightarrow> bytes" where
  "height_file dir n = path_join dir (str_bytes ''height_'' @ radix_text 10 (unat n) @ str_bytes ''.json'')"

definition da_open :: "bytes \<Rightarrow> (disk, io_error, bytes) act" where
  "da_open dir = bind_act (fs_create_dir_all dir) (\<lambda>_. give (Ok dir))"

text \<open>The blob is written under its commitment; the copy under its height is written if it can be.\<close>

definition da_put :: "text_codecs \<Rightarrow> da_json \<Rightarrow> bytes \<Rightarrow> da_blob \<Rightarrow> (disk, io_error, unit) act" where
  "da_put tc dj dir blob =
     bind_act (give (ok_or (dj_blob dj blob) OtherIo)) (\<lambda>json.
     bind_act (fs_write (commit_file tc dir (db_batch_commitment blob)) json) (\<lambda>_ d.
       (Ok (), snd (fs_write (height_file dir (db_height blob)) json d))))"

definition da_fetch :: "da_json \<Rightarrow> bytes \<Rightarrow> disk \<Rightarrow> da_blob option \<times> disk" where
  "da_fetch dj path d =
     (case fs_read path d of (Ok bs, d') \<Rightarrow> (dj_read_blob dj bs, d') | (_, d') \<Rightarrow> (None, d'))"

definition get_by_commitment :: "text_codecs \<Rightarrow> da_json \<Rightarrow> bytes \<Rightarrow> hash256 \<Rightarrow> disk \<Rightarrow> da_blob option \<times> disk" where
  "get_by_commitment tc dj dir h = da_fetch dj (commit_file tc dir h)"

definition get_by_height :: "da_json \<Rightarrow> bytes \<Rightarrow> u64 \<Rightarrow> disk \<Rightarrow> da_blob option \<times> disk" where
  "get_by_height dj dir n = da_fetch dj (height_file dir n)"

section \<open>Each file is replaced as a whole\<close>

lemma store_paths: "store_temp root k \<noteq> store_file root j" "store_file root j = store_file root k \<Longrightarrow> j = k"
proof -
  show "store_temp root k \<noteq> store_file root j"
    by (cases k; cases j) (simp_all add: store_temp_def store_file_def path_join_def str_bytes_def)
  show "store_file root j = store_file root k \<Longrightarrow> j = k"
    by (cases k; cases j) (simp_all add: store_file_def path_join_def str_bytes_def)
qed

interpretation kept_files: durable "store_write root" "store_file root" for root
  unfolding store_write_def [abs_def] by (rule replace_durable) (rule store_paths)+

lemma store_save_files:
  assumes "genesis_root H ed tc pcs g = Ok gr"
  shows "store_save H ed tc pcs sj root g state chain blocks = put_all (store_write root)
    [(StateFile, Ok (to_bytes state)), (ChainFile, ok_or (sj_chain sj chain) (StoreMalformed ChainFile)),
     (BlocksFile, ok_or (sj_blocks sj (map (stored_form tc) blocks)) (StoreMalformed BlocksFile)),
     (MetadataFile, ok_or (sj_metadata sj \<lparr>md_chain_id = gc_chain_id g, md_genesis_root = hash_to_hex tc gr,
        md_block_height = of_nat (length blocks)\<rparr>) (StoreMalformed MetadataFile))]"
  using assms by (simp add: store_save_def Let_def)

section \<open>Starting from what is in the directory\<close>

text \<open>A disk on which every call succeeds.\<close>

definition calm :: "disk \<Rightarrow> disk" where
  "calm d = d\<lparr>dk_plan := []\<rparr>"

lemma calm_calls [simp]:
  "dk_files (calm d) = dk_files d" "fs_create_dir_all p (calm d) = (Ok (), calm d)"
  "store_read root name (calm d) = (Ok (dk_files d (store_file root name)), calm d)"
  by (cases "dk_files d (store_file root name)"; simp add: calm_def fs_create_dir_all_def store_read_def fs_read_def)+

text \<open>What the files of a directory say: a state, a chain, blocks, and metadata of the same genesis.\<close>

definition directory_holds ::
    "hasher \<Rightarrow> text_codecs \<Rightarrow> store_json \<Rightarrow> bytes \<Rightarrow> genesis_config \<Rightarrow> hash256 \<Rightarrow> merkle_trie \<Rightarrow> chain_snapshot \<Rightarrow> block list \<Rightarrow> disk \<Rightarrow> bool" where
  "directory_holds H tc sj root g gr state chain blocks d \<longleftrightarrow>
     Option.bind (dk_files d (store_file root GenesisFile)) (sj_read_genesis sj) = Some g
     \<and> dk_files d (store_file root StateFile) = Some (to_bytes state)
     \<and> Option.bind (dk_files d (store_file root ChainFile)) (sj_read_chain sj) = Some chain
     \<and> Option.bind (dk_files d (store_file root BlocksFile)) (sj_read_blocks sj) = Some (map (stored_form tc) blocks)
     \<and> (\<exists>md. Option.bind (dk_files d (store_file root MetadataFile)) (sj_read_metadata sj) = Some md
          \<and> md_genesis_root md = hash_to_hex tc gr)"

lemma read_batches_stored:
  "hex_reads_back tc \<Longrightarrow> read_batches tc (map (stored_form tc) bs) = Ok (map stored_of_block bs)"
  by (induction bs) (simp_all add: stored_form_def stored_of_block_def hex_text_round_trip)

lemma start_directory:
  assumes hold: "directory_holds H tc sj root g gr state chain blocks d" and hex: "hex_reads_back tc"
    and g: "build_state H ed tc pcs g = Ok gen" "gr = mt_root gen" "keyless_config_of g = Ok ks"
    and st: "from_bytes H (to_bytes state) = Ok st'" "mt_root st' = mt_root state"
  shows "start_node H ed tc pcs sj keys root None (calm d) =
    (and_then (map_err StartResume (resume H ed pcs gen (chain_restore H chain) 1 (gc_minimum_bond g) (map_option keys ks)
        (map stored_of_block blocks) (mt_root state)))
       (\<lambda>sq. Ok (with_fee_assets (with_keyless sq (map_option keys ks)) (map ga_asset (gc_gas_assets g)))), calm d)"
proof -
  from hold obtain gb where gb: "dk_files d (store_file root GenesisFile) = Some gb" "sj_read_genesis sj gb = Some g"
    by (auto simp: directory_holds_def bind_eq_Some_conv)
  from hold obtain cb where cb: "dk_files d (store_file root ChainFile) = Some cb" "sj_read_chain sj cb = Some chain"
    by (auto simp: directory_holds_def bind_eq_Some_conv)
  from hold obtain bb where bb: "dk_files d (store_file root BlocksFile) = Some bb" "sj_read_blocks sj bb = Some (map (stored_form tc) blocks)"
    by (auto simp: directory_holds_def bind_eq_Some_conv)
  from hold obtain mb md where mb: "dk_files d (store_file root MetadataFile) = Some mb" "sj_read_metadata sj mb = Some md"
    "md_genesis_root md = hash_to_hex tc gr"
    by (auto simp: directory_holds_def bind_eq_Some_conv)
  have "load_genesis sj root (calm d) = (Ok (Some g), calm d)"
    by (simp add: load_genesis_def bind_act_def give_def gb)
  moreover have "check_metadata H ed tc pcs sj g (Some mb) = Ok ()"
    using g(1,2) by (simp add: check_metadata_def mb genesis_root_def)
  then have "store_load H ed tc pcs sj root g (calm d) = (Ok (Some (st', chain, map stored_of_block blocks)), calm d)"
    using hold st(1) read_batches_stored [OF hex, of blocks]
    by (simp add: store_load_def bind_act_def give_def directory_holds_def cb bb mb)
  ultimately show ?thesis using g st(2)
    by (auto simp: start_node_def store_open_def resumed_def bind_act_def give_def map_err_act_def Let_def split: result.splits)
qed

text \<open>A state that can be written out and read back.\<close>

definition storable :: "hasher \<Rightarrow> merkle_trie \<Rightarrow> bool" where
  "storable H tr \<longleftrightarrow> (\<exists>ops. trie_run H trie_new ops = Some tr
     \<and> collision_free H (history_nodes H SE ops \<union> history_nodes H SE (map (\<lambda>(k, v). OpInsert k v) (mt_values tr))))
     \<and> length (mt_values tr) < 2 ^ 32 \<and> list_all (\<lambda>(k, v). length v < 2 ^ 32) (mt_values tr) \<and> length (to_bytes tr) < 2 ^ 63"

lemma storable_reads: "storable H tr \<Longrightarrow> \<exists>tr'. from_bytes H (to_bytes tr) = Ok tr' \<and> mt_root tr' = mt_root tr"
  using persistence_round_trip by (fastforce simp: storable_def)

text \<open>A sequencer of a node that was started from a genesis configuration.\<close>

definition node_of ::
    "hasher \<Rightarrow> ed25519 \<Rightarrow> text_codecs \<Rightarrow> width_constants list \<Rightarrow> (keyless_setup \<Rightarrow> keyless_config) \<Rightarrow> genesis_config \<Rightarrow> merkle_trie \<Rightarrow> sequencer \<Rightarrow> bool" where
  "node_of H ed tc pcs keys g gen sq \<longleftrightarrow>
     build_state H ed tc pcs g = Ok gen
     \<and> (\<exists>ks. keyless_config_of g = Ok ks
          \<and> sequencer_reach H ed pcs gen (gc_challenge_window_secs g) (gc_minimum_bond g) (map_option keys ks) sq)
     \<and> sq_identity sq = 1 \<and> sq_bond sq = gc_minimum_bond g \<and> storable H (sq_state sq)"

text \<open>What comes back: everything but the pool and the settings of the command line.\<close>

definition restarted :: "genesis_config \<Rightarrow> sequencer \<Rightarrow> sequencer" where
  "restarted g sq = sq\<lparr>sq_mempool := mempool_new 4096, sq_fee_recipient := FEE_VAULT, sq_fee_asset_limits := [],
     sq_fee_assets := map ga_asset (gc_gas_assets g)\<rparr>"

lemma start_same:
  assumes n: "node_of H ed tc pcs keys g gen sq" and hex: "hex_reads_back tc" and root: "mt_root state = mt_root (sq_state sq)"
    "from_bytes H (to_bytes state) = Ok st'" "mt_root st' = mt_root state"
    and hold: "directory_holds H tc sj root g (mt_root gen) state (chain_snapshot_of (sq_chain sq)) (sq_blocks sq) d"
  shows "start_node H ed tc pcs sj keys root None (calm d) = (Ok (restarted g sq), calm d)"
proof -
  from n obtain ks where b: "build_state H ed tc pcs g = Ok gen" "keyless_config_of g = Ok ks"
    and r: "sequencer_reach H ed pcs gen (gc_challenge_window_secs g) (gc_minimum_bond g) (map_option keys ks) sq"
    and i: "sq_identity sq = 1" "sq_bond sq = gc_minimum_bond g" by (auto simp: node_of_def)
  note inv = sequencer_reach_inv [OF r, unfolded seq_inv_def]
  have "chain_restore H (chain_snapshot_of (sq_chain sq)) = sq_chain sq" using inv by (intro snapshot_round_trip) blast
  moreover have "sq_keyless sq = map_option keys ks" using inv by blast
  ultimately show ?thesis
    using start_directory [OF hold hex b(1) refl b(2) root(2,3), of keys] resume_replay [OF r] i root(1)
    by (simp add: with_fee_assets_def with_keyless_def restarted_def)
qed

text \<open>
  The chain of one save under the blocks of another with the same state root: the node comes back with
  those blocks on that chain, or refuses to start because the chain does not carry one of them.
\<close>

lemma start_other_chain:
  assumes n: "node_of H ed tc pcs keys g gen sq0" "node_of H ed tc pcs keys g gen sq1" and hex: "hex_reads_back tc"
    and root: "mt_root (sq_state sq0) = mt_root (sq_state sq1)"
    and hold: "directory_holds H tc sj root g (mt_root gen) (sq_state sq1) (chain_snapshot_of (sq_chain sq1)) (sq_blocks sq0) d"
  shows "if \<forall>i \<in> set (sq_assertions sq0). chain_get (sq_chain sq1) i \<noteq> None
    then start_node H ed tc pcs sj keys root None (calm d) = (Ok (restarted g (sq0\<lparr>sq_chain := sq_chain sq1\<rparr>)), calm d)
    else \<exists>e. start_node H ed tc pcs sj keys root None (calm d) = (Err (StartResume e), calm d)"
proof -
  from n obtain ks where b: "build_state H ed tc pcs g = Ok gen" "keyless_config_of g = Ok ks"
    and r: "sequencer_reach H ed pcs gen (gc_challenge_window_secs g) (gc_minimum_bond g) (map_option keys ks) sq0"
      "sequencer_reach H ed pcs gen (gc_challenge_window_secs g) (gc_minimum_bond g) (map_option keys ks) sq1"
    and i: "sq_identity sq0 = 1" "sq_bond sq0 = gc_minimum_bond g" by (auto simp: node_of_def)
  note inv = sequencer_reach_inv [OF r(2), unfolded seq_inv_def]
  then have reach: "chain_reach H (mt_root gen) (gc_challenge_window_secs g) (gc_minimum_bond g) (sq_chain sq1)" by blast
  note c = snapshot_round_trip [OF reach]
  obtain x where x: "latest_finalized (sq_chain sq1) = Some x"
    using chain_reach_inv [OF reach] by (auto simp: chain_inv_def latest_finalized_def)
  from storable_reads n(2) obtain st' where st: "from_bytes H (to_bytes (sq_state sq1)) = Ok st'" "mt_root st' = mt_root (sq_state sq1)"
    by (auto simp: node_of_def)
  have k: "sq_keyless sq0 = map_option keys ks" using sequencer_reach_inv [OF r(1), unfolded seq_inv_def] by blast
  note res = resume_on_chain [OF r(1) x]
  show ?thesis
  proof (cases "\<forall>i \<in> set (sq_assertions sq0). chain_get (sq_chain sq1) i \<noteq> None")
    case True
    then show ?thesis using start_directory [OF hold hex b(1) refl b(2) st, of keys] res(1) [OF True] i k root c
      by (simp add: with_fee_assets_def with_keyless_def restarted_def)
  next
    case False
    then obtain e where "resume H ed pcs gen (sq_chain sq1) (sq_identity sq0) (sq_bond sq0) (map_option keys ks)
        (map stored_of_block (sq_blocks sq0)) (mt_root (sq_state sq0)) = Err e" using res(2) by auto
    then show ?thesis using start_directory [OF hold hex b(1) refl b(2) st, of keys] i root c False by auto
  qed
qed

text \<open>With the blocks of one save and the state of another, the node refuses to start.\<close>

lemma start_mixed:
  assumes n: "node_of H ed tc pcs keys g gen sq0" "node_of H ed tc pcs keys g gen sq1" and hex: "hex_reads_back tc"
    and ne: "mt_root (sq_state sq0) \<noteq> mt_root (sq_state sq1)" and chain: "chain \<in> {sq_chain sq0, sq_chain sq1}"
    and hold: "directory_holds H tc sj root g (mt_root gen) (sq_state sq1) (chain_snapshot_of chain) (sq_blocks sq0) d"
  shows "\<exists>e. start_node H ed tc pcs sj keys root None (calm d) = (Err (StartResume e), calm d)"
proof -
  from n obtain ks where b: "build_state H ed tc pcs g = Ok gen" "keyless_config_of g = Ok ks"
    and r: "sequencer_reach H ed pcs gen (gc_challenge_window_secs g) (gc_minimum_bond g) (map_option keys ks) sq0"
      "sequencer_reach H ed pcs gen (gc_challenge_window_secs g) (gc_minimum_bond g) (map_option keys ks) sq1"
    by (auto simp: node_of_def)
  have "chain_reach H (mt_root gen) (gc_challenge_window_secs g) (gc_minimum_bond g) chain"
    using chain sequencer_reach_inv [OF r(1)] sequencer_reach_inv [OF r(2)] by (auto simp: seq_inv_def)
  note reach = this
  from snapshot_round_trip [OF reach] chain_reach_inv [OF reach]
  have c: "chain_restore H (chain_snapshot_of chain) = chain" "\<exists>x. latest_finalized chain = Some x"
    by (auto simp: chain_inv_def latest_finalized_def)
  from storable_reads n(2) obtain st' where st: "from_bytes H (to_bytes (sq_state sq1)) = Ok st'" "mt_root st' = mt_root (sq_state sq1)"
    by (auto simp: node_of_def)
  from resume_other_root [OF r(1) c(2) ne] obtain e where
    "resume H ed pcs gen chain 1 (gc_minimum_bond g) (map_option keys ks) (map stored_of_block (sq_blocks sq0)) (mt_root (sq_state sq1)) = Err e"
    by blast
  with start_directory [OF hold hex b(1) refl b(2) st, of keys] c(1) show ?thesis by simp
qed

text \<open>What a save writes, file by file.\<close>

lemma save_writes:
  assumes g: "build_state H ed tc pcs g = Ok gen" and json: "json_reads_back sj"
    and sv: "store_save H ed tc pcs sj root g state chain blocks d = (r, d')"
  shows "\<exists>n \<le> (4 :: nat). (is_ok r \<longrightarrow> n = 4) \<and> dk_files d' (store_file root GenesisFile) = dk_files d (store_file root GenesisFile)
    \<and> (if 1 \<le> n then dk_files d' (store_file root StateFile) = Some (to_bytes state)
       else dk_files d' (store_file root StateFile) = dk_files d (store_file root StateFile))
    \<and> (if 2 \<le> n then Option.bind (dk_files d' (store_file root ChainFile)) (sj_read_chain sj) = Some chain
       else dk_files d' (store_file root ChainFile) = dk_files d (store_file root ChainFile))
    \<and> (if 3 \<le> n then Option.bind (dk_files d' (store_file root BlocksFile)) (sj_read_blocks sj) = Some (map (stored_form tc) blocks)
       else dk_files d' (store_file root BlocksFile) = dk_files d (store_file root BlocksFile))
    \<and> (if n = 4 then \<exists>md. Option.bind (dk_files d' (store_file root MetadataFile)) (sj_read_metadata sj) = Some md
         \<and> md_genesis_root md = hash_to_hex tc (mt_root gen)
       else dk_files d' (store_file root MetadataFile) = dk_files d (store_file root MetadataFile))"
proof -
  let ?f = "store_file root" and ?md = "\<lparr>md_chain_id = gc_chain_id g, md_genesis_root = hash_to_hex tc (mt_root gen),
      md_block_height = of_nat (length blocks)\<rparr>"
  define kvs where "kvs = [(StateFile, Ok (to_bytes state)), (ChainFile, ok_or (sj_chain sj chain) (StoreMalformed ChainFile)),
     (BlocksFile, ok_or (sj_blocks sj (map (stored_form tc) blocks)) (StoreMalformed BlocksFile)),
     (MetadataFile, ok_or (sj_metadata sj ?md) (StoreMalformed MetadataFile))]"
  have "genesis_root H ed tc pcs g = Ok (mt_root gen)" using g by (simp add: genesis_root_def)
  from sv [unfolded store_save_files [OF this], folded kvs_def]
  have put: "put_all (store_write root) kvs d = (r, d')" .
  have dist: "distinct (map fst kvs)" and len: "length kvs = 4" by (simp_all add: kvs_def)
  from kept_files.put_all_prefix [OF put dist] obtain n where n: "n \<le> 4" "is_ok r \<longrightarrow> n = 4"
    and w: "\<And>i. i < n \<Longrightarrow> \<exists>bs. snd (kvs ! i) = Ok bs \<and> dk_files d' (?f (fst (kvs ! i))) = Some bs"
    and o: "\<And>k. k \<notin> fst ` set (take n kvs) \<Longrightarrow> dk_files d' (?f k) = dk_files d (?f k)" unfolding len by blast
  have old: "dk_files d' (?f (fst (kvs ! i))) = dk_files d (?f (fst (kvs ! i)))" if "n \<le> i" "i < 4" for i
  proof (rule o)
    have "map fst kvs ! i \<notin> set (take i (map fst kvs))"
      using dist that(2) len by (simp add: distinct_conv_nth in_set_conv_nth)
    moreover have "set (take n (map fst kvs)) \<subseteq> set (take i (map fst kvs))" using that(1) by (rule set_take_subset_set_take)
    ultimately show "fst (kvs ! i) \<notin> fst ` set (take n kvs)" using that(2) len by (auto simp: take_map)
  qed
  have "GenesisFile \<notin> fst ` set (take n kvs)" by (auto simp: kvs_def dest!: in_set_takeD)
  then have "dk_files d' (?f GenesisFile) = dk_files d (?f GenesisFile)" by (rule o)
  moreover have "if 1 \<le> n then dk_files d' (?f StateFile) = Some (to_bytes state) else dk_files d' (?f StateFile) = dk_files d (?f StateFile)"
    using w [of 0] old [of 0] by (auto simp: kvs_def)
  moreover have "if 2 \<le> n then Option.bind (dk_files d' (?f ChainFile)) (sj_read_chain sj) = Some chain
      else dk_files d' (?f ChainFile) = dk_files d (?f ChainFile)"
    using w [of 1] old [of 1] json by (auto simp: kvs_def json_reads_back_def ok_or_Ok_iff)
  moreover have "if 3 \<le> n then Option.bind (dk_files d' (?f BlocksFile)) (sj_read_blocks sj) = Some (map (stored_form tc) blocks)
      else dk_files d' (?f BlocksFile) = dk_files d (?f BlocksFile)"
    using w [of 2] old [of 2] json by (auto simp: kvs_def json_reads_back_def ok_or_Ok_iff)
  moreover have "if n = 4 then \<exists>md. Option.bind (dk_files d' (?f MetadataFile)) (sj_read_metadata sj) = Some md
        \<and> md_genesis_root md = hash_to_hex tc (mt_root gen)
      else dk_files d' (?f MetadataFile) = dk_files d (?f MetadataFile)"
    using w [of 3] old [of 3] json n(1) by (auto simp: kvs_def json_reads_back_def ok_or_Ok_iff)
  ultimately show ?thesis using n by (intro exI [of _ n]) blast
qed

lemma written_directory:
  assumes "directory_holds H tc sj root g gr state0 chain0 blocks0 d"
    and "dk_files d' (store_file root GenesisFile) = dk_files d (store_file root GenesisFile)"
    and "if 1 \<le> n then dk_files d' (store_file root StateFile) = Some (to_bytes state)
       else dk_files d' (store_file root StateFile) = dk_files d (store_file root StateFile)"
    and "if 2 \<le> n then Option.bind (dk_files d' (store_file root ChainFile)) (sj_read_chain sj) = Some chain
       else dk_files d' (store_file root ChainFile) = dk_files d (store_file root ChainFile)"
    and "if 3 \<le> n then Option.bind (dk_files d' (store_file root BlocksFile)) (sj_read_blocks sj) = Some (map (stored_form tc) blocks)
       else dk_files d' (store_file root BlocksFile) = dk_files d (store_file root BlocksFile)"
    and "if n = 4 then \<exists>md. Option.bind (dk_files d' (store_file root MetadataFile)) (sj_read_metadata sj) = Some md
         \<and> md_genesis_root md = hash_to_hex tc gr
       else dk_files d' (store_file root MetadataFile) = dk_files d (store_file root MetadataFile)"
  shows "directory_holds H tc sj root g gr (if (1 :: nat) \<le> n then state else state0) (if 2 \<le> n then chain else chain0)
    (if 3 \<le> n then blocks else blocks0) d'"
  using assms unfolding directory_holds_def by (intro conjI) (simp_all split: if_splits)

lemma saved_directory:
  assumes "build_state H ed tc pcs g = Ok gen" "json_reads_back sj"
    and "Option.bind (dk_files d (store_file root GenesisFile)) (sj_read_genesis sj) = Some g"
    and "store_save H ed tc pcs sj root g state chain blocks d = (Ok (), d')"
  shows "directory_holds H tc sj root g (mt_root gen) state chain blocks d'"
  using save_writes [OF assms(1,2,4)] assms(3) by (auto simp: directory_holds_def)

section \<open>A node at genesis\<close>

definition store_codecs :: text_codecs where
  "store_codecs = \<lparr>tc_hex_decode = (\<lambda>s. if s \<noteq> [] \<and> hd s = 104 then Some (tl s) else Some (replicate 32 0)),
     tc_hex_encode = (\<lambda>bs. 104 # bs), tc_b64url_decode = Some, tc_b64url_encode = (\<lambda>bs. bs)\<rparr>"

definition no_keys :: "keyless_setup \<Rightarrow> keyless_config" where
  "no_keys _ = \<lparr>kc_parse_ok = \<lambda>_. False, kc_groth16 = \<lambda>_ _. False, kc_max_exp_horizon_secs = 0\<rparr>"

lemma store_codecs_read: "hex_reads_back store_codecs" "tc_hex_decode store_codecs (str_bytes ''00'') = Some (replicate 32 0)"
  by (simp_all add: hex_reads_back_def store_codecs_def str_bytes_def)

definition pair_write :: "'a \<Rightarrow> 'a \<Rightarrow> 'a \<Rightarrow> bytes option" where
  "pair_write a b x = (if x = a then Some [0] else if x = b then Some [1] else None)"

definition pair_read :: "'a \<Rightarrow> 'a \<Rightarrow> bytes \<Rightarrow> 'a option" where
  "pair_read a b bs = (if bs = [0] then Some a else if bs = [1] then Some b else None)"

lemma pair_reads_back: "pair_write a b x = Some bs \<Longrightarrow> pair_read a b bs = Some x"
  by (auto simp: pair_write_def pair_read_def split: if_splits)

definition sample_json :: "chain_snapshot \<Rightarrow> chain_snapshot \<Rightarrow> metadata \<Rightarrow> store_json" where
  "sample_json c0 c1 m = \<lparr>sj_genesis = pair_write sample_genesis sample_genesis, sj_read_genesis = pair_read sample_genesis sample_genesis,
     sj_chain = pair_write c0 c1, sj_read_chain = pair_read c0 c1, sj_blocks = pair_write [] [], sj_read_blocks = pair_read [] [],
     sj_metadata = pair_write m m, sj_read_metadata = pair_read m m\<rparr>"

lemma sample_json_reads: "json_reads_back (sample_json c0 c1 m)"
  by (simp add: json_reads_back_def sample_json_def pair_reads_back)

lemma sample_values:
  assumes "trie_run genesis_hash trie_new genesis_ops = Some tr"
  shows "mt_values tr = [(0, council_encode sample_council), (demo_key 1, market_encode sample_market),
    (demo_key 2, asset_encode demo_asset), (demo_key 3, account_encode (demo_account 0 1300))]"
  using assms by (auto simp: genesis_ops_def trie_insert_def trie_new_def demo_key_def Let_def split: option.splits)

lemma sample_storable:
  assumes "trie_run genesis_hash trie_new genesis_ops = Some tr"
  shows "storable genesis_hash tr"
proof -
  have split: "st_split 0 (demo_key 1) 3 0 3 = SN (SN (SL 0 3) (SL (demo_key 1) 3)) SE"
    by (subst st_split.simps, use demo_bits demo_splits in \<open>simp add: MAX_DEPTH_def\<close>)
  have "history_nodes genesis_hash SE (map (\<lambda>(k, v). OpInsert k v) (mt_values tr)) \<subseteq>
      insert (Internal 12 0) (history_nodes genesis_hash SE genesis_ops)"
    unfolding genesis_history sample_values [OF assms]
    by (simp add: split demo_bits [unfolded One_nat_def] genesis_splits genesis_nodes genesis_values ZERO_def)
  moreover have "collision_free genesis_hash (insert (Internal 12 0) (history_nodes genesis_hash SE genesis_ops))"
    unfolding genesis_history collision_free_iff by (simp add: genesis_nodes ZERO_def)
  ultimately have "collision_free genesis_hash (history_nodes genesis_hash SE genesis_ops
      \<union> history_nodes genesis_hash SE (map (\<lambda>(k, v). OpInsert k v) (mt_values tr)))"
    by (meson Un_least collision_free_mono subset_insertI)
  with assms show ?thesis unfolding storable_def
    by (auto simp: sample_values [OF assms] to_bytes_def w_bytes_def council_encode_def sample_council_def market_encode_def
        asset_encode_def demo_asset_def w_string_def account_encode_def demo_account_def w_balance_def)
qed

lemma genesis_assertion_ids: "assertion_id genesis_hash a = ucast (as_bond a) + 1"
  by (simp add: assertion_id_def commit_def digest_def genesis_hash_def demo_hash_def enc_u64_def enc_u128_def enc_new_def
      enc_field_def push_framed_def domain_defs from_be_to_be)

lemma sample_settings:
  "keyless_config_of sample_genesis = Ok None" "gc_minimum_bond sample_genesis = 1000000"
  by (simp_all add: sample_genesis_def genesis_dev_def keyless_config_of_def)

text \<open>The node at genesis, and the same node after its clock moved.\<close>

abbreviation sample_clock :: "sequencer \<Rightarrow> sequencer" where
  "sample_clock sq \<equiv> sq\<lparr>sq_chain := (sq_chain sq)\<lparr>ac_now := 60\<rparr>\<rparr>"

lemma sample_nodes:
  obtains gen sq where "build_state genesis_hash sample_ed store_codecs [] sample_genesis = Ok gen"
    "node_of genesis_hash sample_ed store_codecs [] no_keys sample_genesis gen sq"
    "node_of genesis_hash sample_ed store_codecs [] no_keys sample_genesis gen (sample_clock sq)"
    "sq_blocks sq = []" "sq_state sq = gen" "ac_now (sq_chain sq) = 0"
proof -
  obtain gen where gen: "build_state genesis_hash sample_ed store_codecs [] sample_genesis = Ok gen"
    "trie_run genesis_hash trie_new genesis_ops = Some gen" by (rule sample_build [OF store_codecs_read(2)])
  let ?w = "gc_challenge_window_secs sample_genesis" and ?b = "gc_minimum_bond sample_genesis"
  have "\<exists>sq. sequencer_new genesis_hash gen (chain_new genesis_hash (mt_root gen) ?w ?b) 1 ?b = (Ok sq :: (unit, _) result)
      \<and> sq_blocks sq = [] \<and> sq_state sq = gen \<and> sq_identity sq = 1 \<and> sq_bond sq = ?b \<and> sq_keyless sq = None
      \<and> ac_now (sq_chain sq) = 0"
    by (simp add: sequencer_new_def latest_finalized_def chain_new_def Let_def)
  then obtain sq where sq: "sequencer_new genesis_hash gen (chain_new genesis_hash (mt_root gen) ?w ?b) 1 ?b = (Ok sq :: (unit, _) result)"
    "sq_blocks sq = []" "sq_state sq = gen" "sq_identity sq = 1" "sq_bond sq = ?b" "sq_keyless sq = None" "ac_now (sq_chain sq) = 0"
    by blast
  have r: "sequencer_reach genesis_hash sample_ed [] gen ?w ?b None sq"
    using sequencer_reach.New [OF _ sq(1), of sample_ed "[]" None] unfolding with_keyless_def sq(6) [symmetric]
    by (simp add: genesis_assertion_ids genesis_assertion_def GENESIS_def ZERO_def)
  have "advance_to (sq_chain sq) 60 = Ok ((sq_chain sq)\<lparr>ac_now := 60\<rparr>)" by (simp add: advance_to_def sq(7))
  from sequencer_reach.Chain [OF r chain_step.Advance [OF this]]
  have "sequencer_reach genesis_hash sample_ed [] gen ?w ?b None (sample_clock sq)" .
  with r that [OF gen(1), of sq] show thesis
    using gen(1) sq sample_storable [OF gen(2)] by (simp add: node_of_def sample_settings)
qed

lemma store_write_calm:
  "dk_plan d = [] \<Longrightarrow> \<exists>d'. store_write root name bs d = (Ok (), d') \<and> dk_plan d' = []"
  by (simp add: store_write_def replace_file_def bind_act_def map_err_act_def fs_write_def fs_rename_def)

lemma sample_save:
  assumes gen: "build_state genesis_hash sample_ed store_codecs [] sample_genesis = Ok gen" and chain: "chain \<in> {c0, c1}"
    and calm: "dk_plan d = []"
  obtains d' where "store_save genesis_hash sample_ed store_codecs [] (sample_json c0 c1
      \<lparr>md_chain_id = gc_chain_id sample_genesis, md_genesis_root = hash_to_hex store_codecs (mt_root gen), md_block_height = 0\<rparr>)
      root sample_genesis gen chain [] d = (Ok (), d')"
proof -
  have g: "genesis_root genesis_hash sample_ed store_codecs [] sample_genesis = Ok (mt_root gen)" using gen by (simp add: genesis_root_def)
  have "\<exists>cb. pair_write c0 c1 chain = Some cb" using chain by (auto simp: pair_write_def)
  then obtain cb where j: "pair_write c0 c1 chain = Some cb" ..
  obtain d1 where d1: "store_write root StateFile (to_bytes gen) d = (Ok (), d1)" "dk_plan d1 = []" using store_write_calm [OF calm] by blast
  obtain d2 where d2: "store_write root ChainFile cb d1 = (Ok (), d2)" "dk_plan d2 = []" using store_write_calm [OF d1(2)] by blast
  obtain d3 where d3: "store_write root BlocksFile [0] d2 = (Ok (), d3)" "dk_plan d3 = []" using store_write_calm [OF d2(2)] by blast
  obtain d4 where d4: "store_write root MetadataFile [0] d3 = (Ok (), d4)" using store_write_calm [OF d3(2)] by blast
  from d1 d2 d3 d4 j that [of d4] show thesis unfolding store_save_files [OF g]
    by (simp add: bind_act_def give_def sample_json_def) (simp add: pair_write_def)
qed

section \<open>Properties\<close>

text \<open>
  A node that saved comes back.  After a save that succeeded, starting from the directory gives
  the sequencer again, whatever it went through since genesis: its state, blocks, chain,
  assertions and head, with an empty pool and the settings of the start.
\<close>

lemma restart_rebuilds:
  assumes n: "node_of H ed tc pcs keys g gen sq" and json: "json_reads_back sj" and hex: "hex_reads_back tc"
    and gf: "Option.bind (dk_files d (store_file root GenesisFile)) (sj_read_genesis sj) = Some g"
    and sv: "store_save H ed tc pcs sj root g (sq_state sq) (chain_snapshot_of (sq_chain sq)) (sq_blocks sq) d = (Ok (), d')"
  shows "start_node H ed tc pcs sj keys root None (calm d') = (Ok (restarted g sq), calm d')"
proof -
  have g: "build_state H ed tc pcs g = Ok gen" and "storable H (sq_state sq)" using n by (simp_all add: node_of_def)
  then obtain st' where st: "from_bytes H (to_bytes (sq_state sq)) = Ok st'" "mt_root st' = mt_root (sq_state sq)"
    using storable_reads by blast
  from start_same [OF n hex refl st saved_directory [OF g json gf sv]] show ?thesis .
qed

text \<open>
  C20.  What an interrupted save leaves.  Suppose the directory holds a save and a later one is cut
  off anywhere, by a failed call or by a crash, so that some number of its four files, in the order
  state, chain, blocks, metadata, is in place.  With none of them the node starts as it was at the
  earlier save, with three or four as it was at the later one.  With the state or the state and the chain
  only, it refuses to start when the two states differ.  When they do not, as between two saves with
  no block in between, the state alone leaves the earlier save; state and chain leave the later one if
  the blocks are the same, and in general the earlier blocks on the later chain, or a refusal when that
  chain does not carry an assertion of one of them.
\<close>

theorem interrupted_save:
  assumes n: "node_of H ed tc pcs keys g gen sq0" "node_of H ed tc pcs keys g gen sq1"
    and json: "json_reads_back sj" and hex: "hex_reads_back tc"
    and held: "directory_holds H tc sj root g (mt_root gen) (sq_state sq0) (chain_snapshot_of (sq_chain sq0)) (sq_blocks sq0) d"
    and sv: "store_save H ed tc pcs sj root g (sq_state sq1) (chain_snapshot_of (sq_chain sq1)) (sq_blocks sq1) d = (r, d')"
  shows "\<exists>placed \<le> (4 :: nat). (is_ok r \<longrightarrow> placed = 4)
    \<and> directory_holds H tc sj root g (mt_root gen) (if 1 \<le> placed then sq_state sq1 else sq_state sq0)
        (chain_snapshot_of (if 2 \<le> placed then sq_chain sq1 else sq_chain sq0)) (if 3 \<le> placed then sq_blocks sq1 else sq_blocks sq0) d'
    \<and> (let started = start_node H ed tc pcs sj keys root None (calm d') in
         if placed = 0 then started = (Ok (restarted g sq0), calm d')
         else if 3 \<le> placed then started = (Ok (restarted g sq1), calm d')
         else if mt_root (sq_state sq0) \<noteq> mt_root (sq_state sq1) then \<exists>e. started = (Err (StartResume e), calm d')
         else if placed = 1 then started = (Ok (restarted g sq0), calm d')
         else if sq_blocks sq0 = sq_blocks sq1 then started = (Ok (restarted g sq1), calm d')
         else if \<forall>i \<in> set (sq_assertions sq0). chain_get (sq_chain sq1) i \<noteq> None
           then started = (Ok (restarted g (sq0\<lparr>sq_chain := sq_chain sq1\<rparr>)), calm d')
           else \<exists>e. started = (Err (StartResume e), calm d'))"
proof -
  have g: "build_state H ed tc pcs g = Ok gen" and "storable H (sq_state sq0)" "storable H (sq_state sq1)"
    using n by (simp_all add: node_of_def)
  then obtain st0 st1 where st0: "from_bytes H (to_bytes (sq_state sq0)) = Ok st0" "mt_root st0 = mt_root (sq_state sq0)"
    and st1: "from_bytes H (to_bytes (sq_state sq1)) = Ok st1" "mt_root st1 = mt_root (sq_state sq1)"
    using storable_reads by blast
  let ?holds = "\<lambda>s c b. directory_holds H tc sj root g (mt_root gen) (sq_state s) (chain_snapshot_of c) (sq_blocks b) d'"
  let ?start = "start_node H ed tc pcs sj keys root None (calm d')"
  from save_writes [OF g json sv] obtain k :: nat where k: "k \<le> 4" "is_ok r \<longrightarrow> k = 4"
    and w: "directory_holds H tc sj root g (mt_root gen) (if 1 \<le> k then sq_state sq1 else sq_state sq0)
        (if 2 \<le> k then chain_snapshot_of (sq_chain sq1) else chain_snapshot_of (sq_chain sq0))
        (if 3 \<le> k then sq_blocks sq1 else sq_blocks sq0) d'"
    using written_directory [OF held] by blast
  have holds: "k = 0 \<Longrightarrow> ?holds sq0 (sq_chain sq0) sq0" "k = 1 \<Longrightarrow> ?holds sq1 (sq_chain sq0) sq0"
      "k = 2 \<Longrightarrow> ?holds sq1 (sq_chain sq1) sq0" "3 \<le> k \<Longrightarrow> ?holds sq1 (sq_chain sq1) sq1"
    using w by (simp_all split: if_splits)
  have whole: "k = 0 \<Longrightarrow> ?start = (Ok (restarted g sq0), calm d')" "3 \<le> k \<Longrightarrow> ?start = (Ok (restarted g sq1), calm d')"
    using start_same [OF n(1) hex refl st0 holds(1)] start_same [OF n(2) hex refl st1 holds(4)] by blast+
  have mixed: "\<exists>e. ?start = (Err (StartResume e), calm d')" if "k = 1 \<or> k = 2" "mt_root (sq_state sq0) \<noteq> mt_root (sq_state sq1)"
    using start_mixed [OF n hex that(2) _ holds(2)] start_mixed [OF n hex that(2) _ holds(3)] that(1) by blast
  have same: "?start = (Ok (restarted g sq0), calm d')" if "k = 1" "mt_root (sq_state sq0) = mt_root (sq_state sq1)"
    by (rule start_same [OF n(1) hex that(2) [symmetric] st1 holds(2) [OF that(1)]])
  have later: "?start = (Ok (restarted g sq1), calm d')" if "k = 2" "sq_blocks sq0 = sq_blocks sq1"
    by (rule start_same [OF n(2) hex refl st1]) (use holds(3) [OF that(1)] that(2) in simp)
  note other = start_other_chain [OF n hex _ holds(3)]
  have "k = 0 \<or> k = 1 \<or> k = 2 \<or> 3 \<le> k" by linarith
  with whole mixed same later other have "let started = ?start in
         if k = 0 then started = (Ok (restarted g sq0), calm d')
         else if 3 \<le> k then started = (Ok (restarted g sq1), calm d')
         else if mt_root (sq_state sq0) \<noteq> mt_root (sq_state sq1) then \<exists>e. started = (Err (StartResume e), calm d')
         else if k = 1 then started = (Ok (restarted g sq0), calm d')
         else if sq_blocks sq0 = sq_blocks sq1 then started = (Ok (restarted g sq1), calm d')
         else if \<forall>i \<in> set (sq_assertions sq0). chain_get (sq_chain sq1) i \<noteq> None
           then started = (Ok (restarted g (sq0\<lparr>sq_chain := sq_chain sq1\<rparr>)), calm d')
           else \<exists>e. started = (Err (StartResume e), calm d')"
    by (elim disjE) (simp_all add: Let_def)
  moreover have "directory_holds H tc sj root g (mt_root gen) (if 1 \<le> k then sq_state sq1 else sq_state sq0)
        (chain_snapshot_of (if 2 \<le> k then sq_chain sq1 else sq_chain sq0)) (if 3 \<le> k then sq_blocks sq1 else sq_blocks sq0) d'"
    using w by (simp split: if_splits)
  ultimately show ?thesis using k by blast
qed

theorem interrupted_save_witness:
  "\<exists>sj gen sq d d' e. store_save genesis_hash sample_ed store_codecs [] sj [] sample_genesis (sq_state (sample_clock sq))
       (chain_snapshot_of (sq_chain (sample_clock sq))) (sq_blocks (sample_clock sq)) d = (Err e, d')
     \<and> node_of genesis_hash sample_ed store_codecs [] no_keys sample_genesis gen sq
     \<and> node_of genesis_hash sample_ed store_codecs [] no_keys sample_genesis gen (sample_clock sq)
     \<and> (start_node genesis_hash sample_ed store_codecs [] sj no_keys [] None (calm d') = (Ok (restarted sample_genesis sq), calm d')
        \<or> start_node genesis_hash sample_ed store_codecs [] sj no_keys [] None (calm d')
           = (Ok (restarted sample_genesis (sample_clock sq)), calm d'))"
proof -
  obtain gen sq where n: "build_state genesis_hash sample_ed store_codecs [] sample_genesis = Ok gen"
    "node_of genesis_hash sample_ed store_codecs [] no_keys sample_genesis gen sq"
    "node_of genesis_hash sample_ed store_codecs [] no_keys sample_genesis gen (sample_clock sq)" "sq_blocks sq = []" "sq_state sq = gen"
    by (rule sample_nodes)
  define d where "d = \<lparr>dk_files = [store_file [] GenesisFile \<mapsto> [0]], dk_plan = []\<rparr>"
  have plan: "dk_plan d = []" by (simp add: d_def)
  define sj where "sj = sample_json (chain_snapshot_of (sq_chain sq)) (chain_snapshot_of (sq_chain (sample_clock sq)))
    \<lparr>md_chain_id = gc_chain_id sample_genesis, md_genesis_root = hash_to_hex store_codecs (mt_root gen), md_block_height = 0\<rparr>"
  obtain d1 where d1: "store_save genesis_hash sample_ed store_codecs [] sj [] sample_genesis gen (chain_snapshot_of (sq_chain sq)) [] d = (Ok (), d1)"
    unfolding sj_def by (rule sample_save [OF n(1) insertI1 plan])
  have j: "json_reads_back sj" unfolding sj_def by (rule sample_json_reads)
  have "directory_holds genesis_hash store_codecs sj [] sample_genesis (mt_root gen) gen (chain_snapshot_of (sq_chain sq)) [] d1"
    by (rule saved_directory [OF n(1) j _ d1]) (simp add: d_def sj_def sample_json_def pair_read_def)
  then have h: "directory_holds genesis_hash store_codecs sj [] sample_genesis (mt_root gen) (sq_state sq) (chain_snapshot_of (sq_chain sq))
      (sq_blocks sq) (d1\<lparr>dk_plan := [Fails None]\<rparr>)"
    using n(4,5) by (simp add: directory_holds_def)
  have "genesis_root genesis_hash sample_ed store_codecs [] sample_genesis = Ok (mt_root gen)" using n(1) by (simp add: genesis_root_def)
  from store_save_files [OF this] obtain e d' where
    s: "store_save genesis_hash sample_ed store_codecs [] sj [] sample_genesis (sq_state (sample_clock sq))
      (chain_snapshot_of (sq_chain (sample_clock sq))) (sq_blocks (sample_clock sq)) (d1\<lparr>dk_plan := [Fails None]\<rparr>) = (Err e, d')"
    by (simp add: store_write_def replace_file_def fs_write_def bind_act_def give_def map_err_act_def)
  have "start_node genesis_hash sample_ed store_codecs [] sj no_keys [] None (calm d') = (Ok (restarted sample_genesis sq), calm d')
      \<or> start_node genesis_hash sample_ed store_codecs [] sj no_keys [] None (calm d')
        = (Ok (restarted sample_genesis (sample_clock sq)), calm d')"
    using interrupted_save [OF n(2,3) j store_codecs_read(1) h s] by (elim exE conjE) (simp add: Let_def split: if_splits)
  note all = conjI [OF s conjI [OF n(2) conjI [OF n(3) this]]]
  show ?thesis
    by (rule exI [of _ sj], rule exI [of _ gen], rule exI [of _ sq], rule exI [of _ "d1\<lparr>dk_plan := [Fails None]\<rparr>"],
        rule exI [of _ d'], rule exI [of _ e], rule all)
qed

end
