(* ===== verification/Server.thy ===== *)
theory Server
  imports Http Rpc Store "HOL-Library.List_Lexorder"
begin

text \<open>
  The node's server (\<open>server.rs\<close>): who may call it and how often, what a request is answered, and the
  loop that advances the clock, produces blocks, finalizes, saves and serves.  The system clock
  is an argument of every step that reads it; JSON belongs to serde and is a parameter.
\<close>

section \<open>Configuration\<close>

record server_config =
  sc_listen :: bytes
  sc_chain_id :: bytes
  sc_block_interval_secs :: u64
  sc_max_block_transactions :: nat
  sc_persist_interval_secs :: u64
  sc_auth_token :: "bytes option"
  sc_rate_limit_per_minute :: u32
  sc_max_body_bytes :: nat
  sc_cors_origins :: "bytes list"

definition server_config_default :: server_config where
  "server_config_default = \<lparr>sc_listen = str_bytes ''127.0.0.1:8545'', sc_chain_id = str_bytes ''sena-devnet-1'',
     sc_block_interval_secs = 2, sc_max_block_transactions = 512, sc_persist_interval_secs = 10, sc_auth_token = None,
     sc_rate_limit_per_minute = 600, sc_max_body_bytes = 2 ^ 20, sc_cors_origins = []\<rparr>"

section \<open>The rate limiter\<close>

text \<open>Client to the window its count is of and the requests counted in it.\<close>

type_synonym rate_limiter = "(bytes, u64 \<times> u32) btree_map"

definition allow :: "rate_limiter \<Rightarrow> bytes \<Rightarrow> u64 \<Rightarrow> u32 \<Rightarrow> (unit, rate_limiter \<times> bool) result" where
  "allow seen client now limit =
     (let window = now div 60;
          seen1 = (if length seen > 4096 then filter (\<lambda>(_, w, _). w = window) seen else seen);
          (w, n) = (case bmap_get seen1 client of Some entry \<Rightarrow> entry | None \<Rightarrow> (window, 0));
          n1 = (if w \<noteq> window then 0 else n)
      in and_then (or_panic (checked_add n1 1)) (\<lambda>m. Ok (bmap_insert client (window, m) seen1, m \<le> limit)))"

section \<open>Answering a request\<close>

definition cors_headers :: "bytes list \<Rightarrow> http_request \<Rightarrow> (bytes \<times> bytes) list" where
  "cors_headers allowed request =
     (case header request (str_bytes ''Origin'') of
        None \<Rightarrow> []
      | Some origin \<Rightarrow>
          if \<not> list_ex (\<lambda>a. a = str_bytes ''*'' \<or> a = origin) allowed then []
          else [(str_bytes ''Access-Control-Allow-Origin'', origin),
                (str_bytes ''Access-Control-Allow-Methods'', str_bytes ''POST, OPTIONS''),
                (str_bytes ''Access-Control-Allow-Headers'', str_bytes ''Content-Type, Authorization''),
                (str_bytes ''Access-Control-Max-Age'', str_bytes ''600''),
                (str_bytes ''Vary'', str_bytes ''Origin'')])"

datatype serve_error =
    NotPost
  | Unauthorised
  | RateLimitExceeded
  | BodyOverLimit nat nat
  | BodyNotRead
  | MalformedRequest
  | Unserialisable

text \<open>What serde reads and writes: requests, replies, and error replies.\<close>

record serve_json =
  vj_request :: "bytes \<Rightarrow> rpc_request option"
  vj_reply :: "rpc_error + rpc_response \<Rightarrow> bytes option"
  vj_error :: "serve_error \<Rightarrow> bytes"

definition bearer :: "http_request \<Rightarrow> bytes" where
  "bearer request =
     (let presented = (case header request (str_bytes ''Authorization'') of Some v \<Rightarrow> v | None \<Rightarrow> []) in
      if take 7 presented = str_bytes ''Bearer '' then drop 7 presented else presented)"

text \<open>The refusals of \<open>serve\<close> that do not look at the body, and the count of the request.\<close>

definition admit_request :: "server_config \<Rightarrow> rate_limiter \<Rightarrow> u64 \<Rightarrow> http_request \<Rightarrow> rate_limiter \<times> (serve_error, unit) result" where
  "admit_request config limiter now request =
     (if hr_method request \<noteq> str_bytes ''POST'' then (limiter, Err NotPost)
      else if (case sc_auth_token config of Some expected \<Rightarrow> bearer request \<noteq> expected | None \<Rightarrow> False) then (limiter, Err Unauthorised)
      else
        let client = (case hr_remote request of None \<Rightarrow> str_bytes ''unknown'' | Some ip \<Rightarrow> ip) in
        case allow limiter client now (sc_rate_limit_per_minute config) of
          Ok (limiter', ok) \<Rightarrow> (limiter', if ok then Ok () else Err RateLimitExceeded)
        | _ \<Rightarrow> (limiter, Panic))"

definition request_body :: "server_config \<Rightarrow> serve_json \<Rightarrow> http_request \<Rightarrow> (serve_error, rpc_request) result" where
  "request_body config vj request =
     (case hr_body request of
        BodyText body \<Rightarrow> ok_or (vj_request vj body) MalformedRequest
      | BodyTooLarge len \<Rightarrow> Err (BodyOverLimit len (sc_max_body_bytes config))
      | BodyUnreadable \<Rightarrow> Err BodyNotRead)"

text \<open>The whole of \<open>serve\<close>; an error is sent as a reply, and only a panic ends the server.\<close>

definition serve ::
    "hasher \<Rightarrow> ed25519 \<Rightarrow> width_constants list \<Rightarrow> text_codecs \<Rightarrow> serve_json \<Rightarrow> server_config \<Rightarrow> sequencer \<Rightarrow> rate_limiter
     \<Rightarrow> u64 \<Rightarrow> u64 \<Rightarrow> http_request \<Rightarrow> (sequencer \<times> rate_limiter) \<times> (serve_error, rpc_error + rpc_response) result" where
  "serve H ed pcs tc vj config sq limiter now clock request =
     (case admit_request config limiter now request of
        (limiter', Err e) \<Rightarrow> ((sq, limiter'), Err e)
      | (limiter', Panic) \<Rightarrow> ((sq, limiter'), Panic)
      | (limiter', Ok _) \<Rightarrow>
          (case request_body config vj request of
             Err e \<Rightarrow> ((sq, limiter'), Err e)
           | Panic \<Rightarrow> ((sq, limiter'), Panic)
           | Ok parsed \<Rightarrow>
               (case handle H ed pcs tc sq (sc_chain_id config) clock parsed of
                  (sq', Ok response) \<Rightarrow> ((sq', limiter'), Ok (Inr response))
                | (sq', Err e) \<Rightarrow> ((sq', limiter'), Ok (Inl e))
                | (sq', Panic) \<Rightarrow> ((sq', limiter'), Panic))))"

definition reply_text :: "serve_json \<Rightarrow> (serve_error, rpc_error + rpc_response) result \<Rightarrow> (unit, bytes) result" where
  "reply_text vj r =
     (case r of
        Ok reply \<Rightarrow> Ok (case vj_reply vj reply of Some t \<Rightarrow> t | None \<Rightarrow> vj_error vj Unserialisable)
      | Err e \<Rightarrow> Ok (vj_error vj e)
      | Panic \<Rightarrow> Panic)"

section \<open>The loop\<close>

text \<open>Heights from one on, oldest first; an assertion that is not due stays as it is.\<close>

definition finalize_height :: "sequencer \<Rightarrow> u64 \<Rightarrow> sequencer" where
  "finalize_height sq height =
     (case assertion_for sq height of
        None \<Rightarrow> sq
      | Some i \<Rightarrow> (case finalize (sq_chain sq) i of Ok chain \<Rightarrow> sq\<lparr>sq_chain := chain\<rparr> | _ \<Rightarrow> sq))"

definition finalize_due :: "sequencer \<Rightarrow> sequencer" where
  "finalize_due sq = foldl finalize_height sq (map of_nat [1..<Suc (length (sq_blocks sq))])"

record server =
  sv_sequencer :: sequencer
  sv_limiter :: rate_limiter
  sv_last_block :: u64
  sv_last_persist :: u64

text \<open>
  One turn of the loop sees the time at its start, the times at which the producer, the rate
  limiter and the request handler read the clock, and the request that arrived, if one did.
\<close>

record tick =
  tk_now :: u64
  tk_produce :: u64
  tk_serve :: u64
  tk_handle :: u64
  tk_incoming :: "http_request option"

datatype server_error = BindFailed bytes | PersistFailed store_error

definition tick_clock :: "sequencer \<Rightarrow> u64 \<Rightarrow> sequencer" where
  "tick_clock sq now = (case advance_to (sq_chain sq) now of Ok chain \<Rightarrow> sq\<lparr>sq_chain := chain\<rparr> | _ \<Rightarrow> sq)"

definition tick_block ::
    "hasher \<Rightarrow> ed25519 \<Rightarrow> width_constants list \<Rightarrow> server_config \<Rightarrow> server \<Rightarrow> tick \<Rightarrow> (server_error, server) result" where
  "tick_block H ed pcs config sv t =
     (let sq = tick_clock (sv_sequencer sv) (tk_now t) in
      if sc_block_interval_secs config \<le> saturating_sub (tk_now t) (sv_last_block sv) then
        (case produce H ed pcs sq (tk_produce t) (sc_max_block_transactions config) of
           (_, Panic) \<Rightarrow> Panic
         | (sq', _) \<Rightarrow> Ok (sv\<lparr>sv_sequencer := finalize_due sq', sv_last_block := tk_now t\<rparr>))
      else Ok (sv\<lparr>sv_sequencer := sq\<rparr>))"

definition save_now ::
    "hasher \<Rightarrow> ed25519 \<Rightarrow> width_constants list \<Rightarrow> text_codecs \<Rightarrow> store_json \<Rightarrow> bytes \<Rightarrow> genesis_config \<Rightarrow> server
     \<Rightarrow> (disk, server_error, unit) act" where
  "save_now H ed pcs tc sj root g sv =
     map_err_act PersistFailed (store_save H ed tc pcs sj root g (sq_state (sv_sequencer sv))
       (chain_snapshot_of (sq_chain (sv_sequencer sv))) (sq_blocks (sv_sequencer sv)))"

definition tick_persist ::
    "hasher \<Rightarrow> ed25519 \<Rightarrow> width_constants list \<Rightarrow> text_codecs \<Rightarrow> store_json \<Rightarrow> bytes \<Rightarrow> genesis_config \<Rightarrow> server_config \<Rightarrow> server \<Rightarrow> tick
     \<Rightarrow> (disk, server_error, server) act" where
  "tick_persist H ed pcs tc sj root g config sv t =
     (if sc_persist_interval_secs config \<le> saturating_sub (tk_now t) (sv_last_persist sv)
      then bind_act (save_now H ed pcs tc sj root g sv) (\<lambda>_. give (Ok (sv\<lparr>sv_last_persist := tk_now t\<rparr>)))
      else give (Ok sv))"

definition tick_serve ::
    "hasher \<Rightarrow> ed25519 \<Rightarrow> width_constants list \<Rightarrow> text_codecs \<Rightarrow> serve_json \<Rightarrow> server_config \<Rightarrow> server \<Rightarrow> tick
     \<Rightarrow> (server_error, server \<times> http_response option) result" where
  "tick_serve H ed pcs tc vj config sv t =
     (case tk_incoming t of
        None \<Rightarrow> Ok (sv, None)
      | Some request \<Rightarrow>
          let headers = cors_headers (sc_cors_origins config) request in
          if hr_method request = str_bytes ''OPTIONS'' then Ok (sv, Some \<lparr>hp_status = 204, hp_headers = headers, hp_body = []\<rparr>)
          else
            let ((sq', limiter'), r) = serve H ed pcs tc vj config (sv_sequencer sv) (sv_limiter sv) (tk_serve t) (tk_handle t) request in
            (case reply_text vj r of
               Ok body \<Rightarrow> Ok (sv\<lparr>sv_sequencer := sq', sv_limiter := limiter'\<rparr>,
                 Some \<lparr>hp_status = 200, hp_headers = headers @ [(str_bytes ''Content-Type'', str_bytes ''application/json'')], hp_body = body\<rparr>)
             | _ \<Rightarrow> Panic))"

definition server_tick ::
    "hasher \<Rightarrow> ed25519 \<Rightarrow> width_constants list \<Rightarrow> text_codecs \<Rightarrow> store_json \<Rightarrow> serve_json \<Rightarrow> bytes \<Rightarrow> genesis_config \<Rightarrow> server_config
     \<Rightarrow> server \<Rightarrow> tick \<Rightarrow> (disk, server_error, server \<times> http_response option) act" where
  "server_tick H ed pcs tc sj vj root g config sv t =
     bind_act (give (tick_block H ed pcs config sv t)) (\<lambda>sv1.
     bind_act (tick_persist H ed pcs tc sj root g config sv1 t) (\<lambda>sv2.
       give (tick_serve H ed pcs tc vj config sv2 t)))"

text \<open>The loop over the turns until shutdown, and the last save.\<close>

fun server_loop ::
    "hasher \<Rightarrow> ed25519 \<Rightarrow> width_constants list \<Rightarrow> text_codecs \<Rightarrow> store_json \<Rightarrow> serve_json \<Rightarrow> bytes \<Rightarrow> genesis_config \<Rightarrow> server_config
     \<Rightarrow> server \<Rightarrow> tick list \<Rightarrow> (disk, server_error, server \<times> http_response option list) act" where
  "server_loop H ed pcs tc sj vj root g config sv [] =
     bind_act (save_now H ed pcs tc sj root g sv) (\<lambda>_. give (Ok (sv, [])))"
| "server_loop H ed pcs tc sj vj root g config sv (t # ts) =
     bind_act (server_tick H ed pcs tc sj vj root g config sv t) (\<lambda>(sv', reply).
     bind_act (server_loop H ed pcs tc sj vj root g config sv' ts) (\<lambda>(sv'', replies). give (Ok (sv'', reply # replies))))"

definition server_run ::
    "hasher \<Rightarrow> ed25519 \<Rightarrow> width_constants list \<Rightarrow> text_codecs \<Rightarrow> store_json \<Rightarrow> serve_json \<Rightarrow> bytes \<Rightarrow> genesis_config \<Rightarrow> server_config
     \<Rightarrow> bool \<Rightarrow> sequencer \<Rightarrow> u64 \<Rightarrow> u64 \<Rightarrow> tick list \<Rightarrow> (disk, server_error, server \<times> http_response option list) act" where
  "server_run H ed pcs tc sj vj root g config bound sq started0 started1 ticks =
     (if \<not> bound then give (Err (BindFailed (sc_listen config)))
      else server_loop H ed pcs tc sj vj root g config
        \<lparr>sv_sequencer = sq, sv_limiter = [], sv_last_block = started0, sv_last_persist = started1\<rparr> ticks)"

section \<open>The limiter counts exactly\<close>

fun limiter_run :: "rate_limiter \<Rightarrow> u32 \<Rightarrow> (bytes \<times> u64) list \<Rightarrow> (unit, bool list) result" where
  "limiter_run seen limit [] = Ok []"
| "limiter_run seen limit ((client, now) # calls) =
     and_then (allow seen client now limit) (\<lambda>(seen', ok).
     and_then (limiter_run seen' limit calls) (\<lambda>oks. Ok (ok # oks)))"

text \<open>The requests a client made in a window, and the answers a counter of all requests gives.\<close>

definition made :: "(bytes \<times> u64) list \<Rightarrow> bytes \<Rightarrow> u64 \<Rightarrow> nat" where
  "made calls client window = length (filter (\<lambda>(c, t). c = client \<and> t div 60 = window) calls)"

fun counted_answers :: "u32 \<Rightarrow> (bytes \<times> u64) list \<Rightarrow> (bytes \<times> u64) list \<Rightarrow> bool list" where
  "counted_answers limit earlier [] = []"
| "counted_answers limit earlier ((client, now) # calls) =
     (made earlier client (now div 60) < unat limit) # counted_answers limit (earlier @ [(client, now)]) calls"

definition count_in :: "rate_limiter \<Rightarrow> bytes \<Rightarrow> u64 \<Rightarrow> nat" where
  "count_in seen client window = (case bmap_get seen client of Some (w, n) \<Rightarrow> if w = window then unat n else 0 | None \<Rightarrow> 0)"

definition limiter_inv :: "rate_limiter \<Rightarrow> (bytes \<times> u64) list \<Rightarrow> u64 \<Rightarrow> bool" where
  "limiter_inv seen earlier window \<longleftrightarrow>
     bmap_wf seen \<and> (\<forall>c w n. bmap_get seen c = Some (w, n) \<longrightarrow> w \<le> window) \<and> (\<forall>(c, t) \<in> set earlier. t div 60 \<le> window)
     \<and> (\<forall>c. count_in seen c window = made earlier c window)"

lemma made_le: "made calls c w \<le> length calls"
  by (simp add: made_def)

lemma limiter_inv_later:
  assumes "limiter_inv seen earlier w" "w \<le> w'"
  shows "limiter_inv seen earlier w'"
proof (cases "w = w'")
  case False
  with assms(2) have lt: "w < w'" by simp
  have "count_in seen c w' = 0" for c
    using assms(1) lt by (fastforce simp: limiter_inv_def count_in_def split: option.splits)
  moreover have "made earlier c w' = 0" for c
    using assms(1) lt by (fastforce simp: limiter_inv_def made_def filter_empty_conv)
  ultimately show ?thesis using assms by (fastforce simp: limiter_inv_def)
qed (use assms in simp)

lemma count_in_filter:
  "bmap_wf seen \<Longrightarrow> count_in (filter (\<lambda>(_, w, _). w = window) seen) c window = count_in seen c window"
  by (auto simp: count_in_def bmap_get_filter split: option.splits)

lemma limiter_inv_filter:
  "limiter_inv seen earlier window \<Longrightarrow> limiter_inv (filter (\<lambda>(_, w, _). w = window) seen) earlier window"
  by (auto simp: limiter_inv_def count_in_filter bmap_wf_filter bmap_get_filter split: option.splits if_splits)

lemma allow_counts:
  assumes inv: "limiter_inv seen earlier (now div 60)" and len: "length earlier < 2 ^ 32 - 1"
  shows "\<exists>seen'. allow seen client now limit = Ok (seen', made earlier client (now div 60) < unat limit)
    \<and> limiter_inv seen' (earlier @ [(client, now)]) (now div 60)"
proof -
  let ?w = "now div 60"
  define seen1 where "seen1 = (if length seen > 4096 then filter (\<lambda>(_, w, _). w = ?w) seen else seen)"
  have i1: "limiter_inv seen1 earlier ?w" using inv limiter_inv_filter by (simp add: seen1_def)
  define n1 where "n1 = (case bmap_get seen1 client of Some (w, n) \<Rightarrow> if w \<noteq> ?w then 0 else n | None \<Rightarrow> 0)"
  have n1: "unat n1 = made earlier client ?w"
    using i1 by (auto simp: limiter_inv_def count_in_def n1_def split: option.splits if_splits dest: spec [of _ client])
  then have small: "unat n1 < 2 ^ 32 - 1" using made_le [of earlier client ?w] len by linarith
  then have add: "checked_add n1 1 = Some (n1 + 1)" "unat (n1 + 1) = unat n1 + 1"
    by (auto simp: checked_add_def unat_word_ariths)
  have a: "allow seen client now limit = Ok (bmap_insert client (?w, n1 + 1) seen1, n1 + 1 \<le> limit)"
    unfolding allow_def seen1_def [symmetric] Let_def using add(1)
    by (auto simp: n1_def split: option.splits if_splits prod.splits)
  moreover have "(n1 + 1 \<le> limit) = (made earlier client ?w < unat limit)"
    using add(2) n1 by (simp add: word_le_nat_alt Suc_le_eq)
  moreover have "limiter_inv (bmap_insert client (?w, n1 + 1) seen1) (earlier @ [(client, now)]) ?w"
    using i1 add(2) n1
    by (auto simp: limiter_inv_def bmap_wf_insert count_in_def bmap_get_insert made_def split: if_splits)
  ultimately show ?thesis by auto
qed

lemma limiter_counts:
  assumes "limiter_inv seen earlier w" "sorted (map snd calls)" "\<forall>(c, t) \<in> set calls. w \<le> t div 60"
    "length earlier + length calls < 2 ^ 32"
  shows "limiter_run seen limit calls = Ok (counted_answers limit earlier calls)"
  using assms
proof (induction calls arbitrary: seen earlier w)
  case (Cons call calls)
  obtain client now where call: "call = (client, now)" by (cases call)
  have "limiter_inv seen earlier (now div 60)" using Cons.prems(1,3) by (auto simp: call intro: limiter_inv_later)
  from allow_counts [OF this, of client limit] Cons.prems(4) obtain seen' where
    a: "allow seen client now limit = Ok (seen', made earlier client (now div 60) < unat limit)"
    and i: "limiter_inv seen' (earlier @ [(client, now)]) (now div 60)" by auto
  have "limiter_run seen' limit calls = Ok (counted_answers limit (earlier @ [(client, now)]) calls)"
    using Cons.prems by (intro Cons.IH [OF i]) (auto simp: call word_le_nat_alt unat_div intro!: div_le_mono)
  with a show ?case by (simp add: call)
qed simp

section \<open>A node that runs stays a node of its genesis\<close>

text \<open>
  What is asked of the hash function while the server runs: an identifier that is in use is given
  to no other assertion.
\<close>

definition block_binds :: "hasher \<Rightarrow> ed25519 \<Rightarrow> width_constants list \<Rightarrow> server_config \<Rightarrow> server \<Rightarrow> tick \<Rightarrow> bool" where
  "block_binds H ed pcs config sv t =
     (let sq = tick_clock (sv_sequencer sv) (tk_now t) in
      if saturating_sub (tk_now t) (sv_last_block sv) < sc_block_interval_secs config then True
      else (case produce H ed pcs sq (tk_produce t) (sc_max_block_transactions config) of
          (sq', Ok (Some (b, i))) \<Rightarrow> id_binds (sq_chain sq) (sq_chain sq') i
        | _ \<Rightarrow> True))"

fun run_binds ::
    "hasher \<Rightarrow> ed25519 \<Rightarrow> width_constants list \<Rightarrow> text_codecs \<Rightarrow> store_json \<Rightarrow> serve_json \<Rightarrow> bytes \<Rightarrow> genesis_config \<Rightarrow> server_config
     \<Rightarrow> server \<Rightarrow> tick list \<Rightarrow> disk \<Rightarrow> bool" where
  "run_binds H ed pcs tc sj vj root g config sv [] d = True"
| "run_binds H ed pcs tc sj vj root g config sv (t # ts) d =
     (block_binds H ed pcs config sv t
      \<and> (case server_tick H ed pcs tc sj vj root g config sv t d of
            (Ok (sv', _), d') \<Rightarrow> run_binds H ed pcs tc sj vj root g config sv' ts d'
          | _ \<Rightarrow> True))"

definition running ::
    "hasher \<Rightarrow> ed25519 \<Rightarrow> width_constants list \<Rightarrow> (keyless_setup \<Rightarrow> keyless_config) \<Rightarrow> genesis_config \<Rightarrow> merkle_trie \<Rightarrow> sequencer \<Rightarrow> bool" where
  "running H ed pcs keys g gen sq \<longleftrightarrow>
     (\<exists>ks. keyless_config_of g = Ok ks
        \<and> sequencer_reach H ed pcs gen (gc_challenge_window_secs g) (gc_minimum_bond g) (map_option keys ks) sq)
     \<and> sq_identity sq = 1 \<and> sq_bond sq = gc_minimum_bond g"

lemma node_of_running:
  "node_of H ed tc pcs keys g gen sq \<longleftrightarrow>
     build_state H ed tc pcs g = Ok gen \<and> running H ed pcs keys g gen sq \<and> storable H (sq_state sq)"
  by (auto simp: node_of_def running_def)

lemma running_chain:
  "running H ed pcs keys g gen sq \<Longrightarrow> chain_step H (sq_chain sq) chain \<Longrightarrow> running H ed pcs keys g gen (sq\<lparr>sq_chain := chain\<rparr>)"
  unfolding running_def by (auto intro: sequencer_reach.Chain)

lemma running_clock: "running H ed pcs keys g gen sq \<Longrightarrow> running H ed pcs keys g gen (tick_clock sq now)"
  by (auto simp: tick_clock_def intro: running_chain chain_step.Advance split: result.splits)

lemma running_finalize: "running H ed pcs keys g gen sq \<Longrightarrow> running H ed pcs keys g gen (finalize_due sq)"
proof -
  have h: "running H ed pcs keys g gen (finalize_height sq n)" if "running H ed pcs keys g gen sq" for sq n
    using that by (auto simp: finalize_height_def intro: running_chain chain_step.Finalize split: option.splits result.splits)
  have "running H ed pcs keys g gen sq \<Longrightarrow> running H ed pcs keys g gen (foldl finalize_height sq ns)" for ns
    by (induction ns arbitrary: sq) (simp_all add: h)
  then show "running H ed pcs keys g gen sq \<Longrightarrow> ?thesis" by (simp add: finalize_due_def)
qed

lemma running_submit:
  assumes "running H ed pcs keys g gen sq"
  shows "running H ed pcs keys g gen (fst (sq_submit H ed pcs sq clock tx))"
proof -
  obtain sq' r where s: "sq_submit H ed pcs sq clock tx = (sq', r)" by (cases "sq_submit H ed pcs sq clock tx")
  then have "sq_identity sq' = sq_identity sq" "sq_bond sq' = sq_bond sq" by (auto simp: sq_submit_def Let_def split: prod.splits)
  with s assms show ?thesis by (auto simp: running_def intro: sequencer_reach.Submit)
qed

lemma running_produce:
  assumes run: "running H ed pcs keys g gen sq" and p: "produce H ed pcs sq clock limit = (sq', r)"
    and binds: "\<And>b i. r = Ok (Some (b, i)) \<Longrightarrow> id_binds (sq_chain sq) (sq_chain sq') i"
  shows "running H ed pcs keys g gen sq'"
proof (cases "\<exists>b i. r = Ok (Some (b, i))")
  case True
  then obtain b i where r: "r = Ok (Some (b, i))" by blast
  have "sq_identity sq' = sq_identity sq \<and> sq_bond sq' = sq_bond sq" by (rule produce_Some [OF p [unfolded r]]) simp
  with run p binds [OF r] r show ?thesis by (auto simp: running_def intro: sequencer_reach.Produce)
next
  case False
  then have "sq_identity sq' = sq_identity sq" "sq_bond sq' = sq_bond sq" using produce_other [OF p] by auto
  with run p False show ?thesis by (auto simp: running_def intro: sequencer_reach.Refused)
qed

lemma handle_sequencer:
  "fst (handle H ed pcs tc sq chain_id clock req) = (case req of SubmitTransaction tx \<Rightarrow> fst (sq_submit H ed pcs sq clock tx) | _ \<Rightarrow> sq)"
  by (cases req) (simp_all only: handle.simps fst_conv rpc_request.case, simp add: Let_def split_beta)

text \<open>
  What a request that changes the sequencer has passed.  The client a request is counted for is the
  address it came from.
\<close>

definition client_of :: "http_request \<Rightarrow> bytes" where
  "client_of request = (case hr_remote request of None \<Rightarrow> str_bytes ''unknown'' | Some ip \<Rightarrow> ip)"

lemma allowed_within_rate:
  assumes "allow seen client now limit = Ok (seen', True)" "limiter_inv seen earlier (now div 60)" "length earlier < 2 ^ 32 - 1"
  shows "made earlier client (now div 60) < unat limit"
  using allow_counts [OF assms(2,3), of client limit] assms(1) by auto

lemma serve_changes:
  assumes "serve H ed pcs tc vj config sq limiter now clock request = ((sq', limiter'), r)" "sq' \<noteq> sq"
  obtains tx body where "hr_method request = str_bytes ''POST''" "sc_auth_token config \<in> {None, Some (bearer request)}"
    "allow limiter (client_of request) now (sc_rate_limit_per_minute config) = Ok (limiter', True)" "hr_body request = BodyText body"
    "vj_request vj body = Some (SubmitTransaction tx)" "sq' = fst (sq_submit H ed pcs sq clock tx)"
proof -
  from assms obtain u parsed where a: "admit_request config limiter now request = (limiter', Ok u)"
    and b: "request_body config vj request = Ok parsed"
    and h: "fst (handle H ed pcs tc sq (sc_chain_id config) clock parsed) = sq'"
    unfolding serve_def by (simp split: prod.splits result.splits)
  from h assms(2) obtain tx where tx: "parsed = SubmitTransaction tx" "sq' = fst (sq_submit H ed pcs sq clock tx)"
    unfolding handle_sequencer by (cases parsed) auto
  from b tx(1) obtain body where body: "hr_body request = BodyText body" "vj_request vj body = Some (SubmitTransaction tx)"
    by (auto simp: request_body_def ok_or_Ok_iff split: http_body.splits)
  have "hr_method request = str_bytes ''POST''" "sc_auth_token config \<in> {None, Some (bearer request)}"
    "allow limiter (client_of request) now (sc_rate_limit_per_minute config) = Ok (limiter', True)"
    using a by (auto simp: admit_request_def client_of_def Let_def split: if_splits option.splits result.splits)
  with that body tx(2) show thesis by simp
qed

lemma serve_refused:
  assumes "serve H ed pcs tc vj config sq limiter now clock request = ((sq', limiter'), r)"
    "hr_method request \<noteq> str_bytes ''POST'' \<or> sc_auth_token config \<notin> {None, Some (bearer request)}"
  shows "limiter' = limiter \<and> r \<in> {Err NotPost, Err Unauthorised}"
proof -
  have "\<exists>e. admit_request config limiter now request = (limiter, Err e) \<and> e \<in> {NotPost, Unauthorised}"
    using assms(2) by (cases "sc_auth_token config") (auto simp: admit_request_def)
  with assms(1) show ?thesis by (auto simp: serve_def)
qed

lemma running_serve:
  assumes "running H ed pcs keys g gen sq" "serve H ed pcs tc vj config sq limiter now clock request = ((sq', limiter'), r)"
  shows "running H ed pcs keys g gen sq'"
proof (cases "sq' = sq")
  case False
  from serve_changes [OF assms(2) this] show ?thesis using running_submit [OF assms(1)] by metis
qed (use assms(1) in simp)

lemma running_tick_block:
  assumes run: "running H ed pcs keys g gen (sv_sequencer sv)" and binds: "block_binds H ed pcs config sv t"
    and ok: "tick_block H ed pcs config sv t = Ok sv'"
  shows "running H ed pcs keys g gen (sv_sequencer sv')"
proof -
  let ?sq = "tick_clock (sv_sequencer sv) (tk_now t)"
  have clock: "running H ed pcs keys g gen ?sq" by (rule running_clock [OF run])
  show ?thesis
  proof (cases "sc_block_interval_secs config \<le> saturating_sub (tk_now t) (sv_last_block sv)")
    case True
    obtain sq' r where p: "produce H ed pcs ?sq (tk_produce t) (sc_max_block_transactions config) = (sq', r)"
      by (cases "produce H ed pcs ?sq (tk_produce t) (sc_max_block_transactions config)")
    have "running H ed pcs keys g gen sq'"
      by (rule running_produce [OF clock p]) (use binds p leD [OF True] in \<open>auto simp: block_binds_def Let_def\<close>)
    from running_finalize [OF this] ok p True show ?thesis by (auto simp: tick_block_def Let_def split: result.splits)
  qed (use clock ok in \<open>auto simp: tick_block_def Let_def\<close>)
qed

lemma running_tick_serve:
  assumes "running H ed pcs keys g gen (sv_sequencer sv)" "tick_serve H ed pcs tc vj config sv t = Ok (sv', reply)"
  shows "running H ed pcs keys g gen (sv_sequencer sv')"
  using assms running_serve [OF assms(1)]
  by (auto simp: tick_serve_def Let_def split: option.splits if_splits prod.splits result.splits)

text \<open>Saving leaves the genesis file as it is.\<close>

lemma save_now_genesis:
  assumes "build_state H ed tc pcs g = Ok gen" "json_reads_back sj" "save_now H ed pcs tc sj root g sv d = (r, d')"
  shows "dk_files d' (store_file root GenesisFile) = dk_files d (store_file root GenesisFile)"
proof -
  obtain r0 where "store_save H ed tc pcs sj root g (sq_state (sv_sequencer sv)) (chain_snapshot_of (sq_chain (sv_sequencer sv)))
      (sq_blocks (sv_sequencer sv)) d = (r0, d')"
    using assms(3) by (auto simp: save_now_def map_err_act_def split: prod.splits)
  from save_writes [OF assms(1,2) this] show ?thesis by blast
qed

lemma tick_persist_Ok:
  assumes "build_state H ed tc pcs g = Ok gen" "json_reads_back sj" "tick_persist H ed pcs tc sj root g config sv t d = (Ok sv', d')"
  shows "sv_sequencer sv' = sv_sequencer sv" "dk_files d' (store_file root GenesisFile) = dk_files d (store_file root GenesisFile)"
  using assms(3) save_now_genesis [OF assms(1,2), of root sv d]
  by (auto simp: tick_persist_def bind_act_def give_def split: if_splits prod.splits result.splits)

lemma server_tick_Ok:
  assumes b: "build_state H ed tc pcs g = Ok gen" "json_reads_back sj" and run: "running H ed pcs keys g gen (sv_sequencer sv)"
    and binds: "block_binds H ed pcs config sv t" and ok: "server_tick H ed pcs tc sj vj root g config sv t d = (Ok (sv', reply), d')"
  shows "running H ed pcs keys g gen (sv_sequencer sv')" "dk_files d' (store_file root GenesisFile) = dk_files d (store_file root GenesisFile)"
proof -
  from ok obtain sv1 sv2 where s: "tick_block H ed pcs config sv t = Ok sv1" "tick_persist H ed pcs tc sj root g config sv1 t d = (Ok sv2, d')"
    "tick_serve H ed pcs tc vj config sv2 t = Ok (sv', reply)"
    by (auto simp: server_tick_def bind_act_def give_def split: result.splits prod.splits)
  note p = tick_persist_Ok [OF b s(2)]
  show "dk_files d' (store_file root GenesisFile) = dk_files d (store_file root GenesisFile)" by (rule p(2))
  have "running H ed pcs keys g gen (sv_sequencer sv2)" unfolding p(1) by (rule running_tick_block [OF run binds s(1)])
  from running_tick_serve [OF this s(3)] show "running H ed pcs keys g gen (sv_sequencer sv')" .
qed

lemma server_loop_Ok:
  assumes "build_state H ed tc pcs g = Ok gen" "json_reads_back sj" "running H ed pcs keys g gen (sv_sequencer sv)"
    "run_binds H ed pcs tc sj vj root g config sv ts d"
    "Option.bind (dk_files d (store_file root GenesisFile)) (sj_read_genesis sj) = Some g"
    "server_loop H ed pcs tc sj vj root g config sv ts d = (Ok (sv', replies), d')"
  shows "running H ed pcs keys g gen (sv_sequencer sv') \<and> length replies = length ts
    \<and> directory_holds H tc sj root g (mt_root gen) (sq_state (sv_sequencer sv')) (chain_snapshot_of (sq_chain (sv_sequencer sv')))
        (sq_blocks (sv_sequencer sv')) d'"
  using assms(3-)
proof (induction ts arbitrary: sv d replies)
  case Nil
  then have "sv' = sv" "replies = []" and s: "store_save H ed tc pcs sj root g (sq_state (sv_sequencer sv))
      (chain_snapshot_of (sq_chain (sv_sequencer sv))) (sq_blocks (sv_sequencer sv)) d = (Ok (), d')"
    by (auto simp: save_now_def bind_act_def give_def map_err_act_def map_err_Ok_iff split: result.splits prod.splits)
  with Nil.prems(1) saved_directory [OF assms(1,2) Nil.prems(3) s] show ?case by simp
next
  case (Cons t ts)
  then obtain sv1 reply d1 rs where t: "server_tick H ed pcs tc sj vj root g config sv t d = (Ok (sv1, reply), d1)"
    "server_loop H ed pcs tc sj vj root g config sv1 ts d1 = (Ok (sv', rs), d')" "replies = reply # rs"
    by (auto simp: bind_act_def give_def split: result.splits prod.splits)
  have f: "block_binds H ed pcs config sv t" "run_binds H ed pcs tc sj vj root g config sv1 ts d1" using Cons.prems(2) t(1) by simp_all
  note k = server_tick_Ok [OF assms(1,2) Cons.prems(1) f(1) t(1)]
  from Cons.IH [OF k(1) f(2) _ t(2)] Cons.prems(3) t(3) show ?case by (simp add: k(2))
qed

section \<open>Properties\<close>

text \<open>
  Within one window the limiter forgets nobody: a client it has not seen takes one more entry,
  however many there are.
\<close>

lemma allow_grows:
  assumes "bmap_wf seen" "\<forall>(c, w, n) \<in> set seen. w = now div 60" "client \<notin> fst ` set seen" "0 < limit"
  shows "\<exists>seen'. allow seen client now limit = Ok (seen', True) \<and> length seen' = Suc (length seen)"
proof -
  have "filter (\<lambda>(_, w, _). w = now div 60) seen = seen" using assms(2) by (auto simp: filter_id_conv)
  moreover have "bmap_get seen client = None" using assms(3) by (simp add: bmap_get_None_iff)
  moreover have "length (bmap_insert client v seen) = Suc (length seen)" for v
    using assms(3) by (induction client v seen rule: bmap_insert.induct) auto
  moreover have "1 \<le> limit" using assms(4) by (simp add: word_less_nat_alt word_le_nat_alt)
  ultimately show ?thesis by (simp add: allow_def Let_def checked_add_def)
qed

text \<open>
  C32.  The rate limit is exact.  Over any sequence of requests in order of time, each is allowed just
  when the same client has made fewer than the limit in the same minute so far, whatever the others
  do and whatever the limiter forgets.
\<close>

theorem rate_limit_exact:
  assumes "sorted (map snd calls)" "length calls < 2 ^ 32"
  shows "limiter_run [] limit calls = Ok (counted_answers limit [] calls)"
proof (rule limiter_counts)
  show "limiter_inv [] [] 0" by (simp add: limiter_inv_def bmap_wf_def count_in_def made_def)
qed (use assms in auto)

theorem rate_limit_exact_witness:
  "limiter_run [] 1 [([1], 0), ([2], 5), ([1], 59), ([1], 60)] = Ok [True, True, False, True]"
  using rate_limit_exact [of "[([1], 0), ([2], 5), ([1], 59), ([1], 60)]" 1] by (simp add: made_def)

definition sample_serve :: serve_json where
  "sample_serve = \<lparr>vj_request = (\<lambda>_. Some GetFinalizedHeight), vj_reply = (\<lambda>_. None), vj_error = (\<lambda>_. [])\<rparr>"

definition sample_request :: http_request where
  "sample_request = \<lparr>hr_method = str_bytes ''GET'', hr_headers = [], hr_body = BodyText [], hr_remote = None\<rparr>"

text \<open>
  C31.  Who can change the node.  A request that changes the sequencer is a POST that carries the token when
  one is required, has been counted by the limiter for the address it came from, and has a readable body with
  a submission; the change is that submission.  Whatever requests the limiter has counted before it, the
  same client has made fewer of them in that minute than the limit.  A request that is not a POST or
  lacks the token is refused and not even counted.
\<close>

theorem serve_guarded:
  assumes "serve H ed pcs tc vj config sq limiter now clock request = ((sq', limiter'), r)"
  shows "(sq' \<noteq> sq \<longrightarrow> hr_method request = str_bytes ''POST'' \<and> sc_auth_token config \<in> {None, Some (bearer request)}
       \<and> allow limiter (client_of request) now (sc_rate_limit_per_minute config) = Ok (limiter', True)
       \<and> (\<forall>earlier. limiter_inv limiter earlier (now div 60) \<longrightarrow> length earlier < 2 ^ 32 - 1 \<longrightarrow>
            made earlier (client_of request) (now div 60) < unat (sc_rate_limit_per_minute config))
       \<and> (\<exists>body tx. hr_body request = BodyText body \<and> vj_request vj body = Some (SubmitTransaction tx)
            \<and> sq' = fst (sq_submit H ed pcs sq clock tx)))
     \<and> (hr_method request \<noteq> str_bytes ''POST'' \<or> sc_auth_token config \<notin> {None, Some (bearer request)} \<longrightarrow>
          limiter' = limiter \<and> r \<in> {Err NotPost, Err Unauthorised})"
proof (intro conjI impI)
  assume "sq' \<noteq> sq"
  from serve_changes [OF assms this] obtain tx body where *: "hr_method request = str_bytes ''POST''"
    "sc_auth_token config \<in> {None, Some (bearer request)}"
    "allow limiter (client_of request) now (sc_rate_limit_per_minute config) = Ok (limiter', True)"
    "hr_body request = BodyText body" "vj_request vj body = Some (SubmitTransaction tx)"
    "sq' = fst (sq_submit H ed pcs sq clock tx)" by metis
  then show "hr_method request = str_bytes ''POST''" "sc_auth_token config \<in> {None, Some (bearer request)}"
    "allow limiter (client_of request) now (sc_rate_limit_per_minute config) = Ok (limiter', True)"
    "\<exists>body tx. hr_body request = BodyText body \<and> vj_request vj body = Some (SubmitTransaction tx)
      \<and> sq' = fst (sq_submit H ed pcs sq clock tx)" by blast+
  show "\<forall>earlier. limiter_inv limiter earlier (now div 60) \<longrightarrow> length earlier < 2 ^ 32 - 1 \<longrightarrow>
      made earlier (client_of request) (now div 60) < unat (sc_rate_limit_per_minute config)"
    using allowed_within_rate [OF *(3)] by blast
qed (use serve_refused [OF assms] in simp_all)

text \<open>A submission with the token, the tenth of its client in that minute, that enters the pool.\<close>

definition sample_post :: http_request where
  "sample_post = \<lparr>hr_method = str_bytes ''POST'', hr_headers = [(str_bytes ''Authorization'', str_bytes ''Bearer '' @ [7])],
     hr_body = BodyText [], hr_remote = Some [1]\<rparr>"

definition submit_serve :: serve_json where
  "submit_serve = sample_serve\<lparr>vj_request := (\<lambda>_. Some (SubmitTransaction demo_tx))\<rparr>"

definition token_config :: server_config where
  "token_config = server_config_default\<lparr>sc_auth_token := Some [7], sc_rate_limit_per_minute := 10\<rparr>"

lemma sample_post_served:
  assumes "trie_run demo_hash trie_new demo_ops = Some tr"
  obtains mp where "serve demo_hash sample_ed [] store_codecs submit_serve token_config (demo_sequencer tr) [([1], 0, 9)] 0 0 sample_post
      = (((demo_sequencer tr)\<lparr>sq_mempool := mp\<rparr>, [([1], 0, 10)]), Ok (Inr (Submitted (tx_hash demo_hash demo_tx) CPending)))"
    "mp_queued mp = [demo_tx]"
proof -
  obtain mp where mp: "sq_submit demo_hash sample_ed [] (demo_sequencer tr) 0 demo_tx
      = ((demo_sequencer tr)\<lparr>sq_mempool := mp\<rparr>, Ok (tx_hash demo_hash demo_tx))" "mp_queued mp = [demo_tx]"
    by (rule demo_submitted [OF assms])
  have "allow [([1], 0, 9)] [1] 0 10 = Ok ([([1], 0, 10)], True)" by (simp add: allow_def checked_add_def Let_def)
  moreover have "bearer sample_post = [7]" by (simp add: bearer_def sample_post_def header_def header_of_def str_bytes_def)
  ultimately have "admit_request token_config [([1], 0, 9)] 0 sample_post = ([([1], 0, 10)], Ok ())"
    by (simp add: admit_request_def sample_post_def token_config_def)
  moreover have "request_body token_config submit_serve sample_post = Ok (SubmitTransaction demo_tx)"
    by (simp add: request_body_def sample_post_def submit_serve_def)
  ultimately show thesis using mp that by (simp add: serve_def handle.simps)
qed

theorem serve_guarded_witness:
  "\<exists>tr sq' r. trie_run demo_hash trie_new demo_ops = Some tr
     \<and> serve demo_hash sample_ed [] store_codecs submit_serve token_config (demo_sequencer tr) [([1], 0, 9)] 0 0 sample_post
         = ((sq', [([1], 0, 10)]), r)
     \<and> sq' \<noteq> demo_sequencer tr \<and> sq' = fst (sq_submit demo_hash sample_ed [] (demo_sequencer tr) 0 demo_tx)
     \<and> allow [([1], 0, 9)] [1] 0 10 = Ok ([([1], 0, 10)], True)
     \<and> made (replicate 9 ([1], 0)) [1] 0 < 10"
proof -
  obtain tr where tr: "trie_run demo_hash trie_new demo_ops = Some tr" by (rule demo_start)
  obtain mp where s: "serve demo_hash sample_ed [] store_codecs submit_serve token_config (demo_sequencer tr) [([1], 0, 9)] 0 0 sample_post
      = (((demo_sequencer tr)\<lparr>sq_mempool := mp\<rparr>, [([1], 0, 10)]), Ok (Inr (Submitted (tx_hash demo_hash demo_tx) CPending)))"
    "mp_queued mp = [demo_tx]" by (rule sample_post_served [OF tr])
  have ne: "(demo_sequencer tr)\<lparr>sq_mempool := mp\<rparr> \<noteq> demo_sequencer tr"
    using s(2) by (auto simp: demo_sequencer_def mempool_new_def)
  have inv: "limiter_inv [([1], 0, 9)] (replicate 9 ([1], 0)) (0 div 60)"
    by (auto simp: limiter_inv_def bmap_wf_def count_in_def made_def)
  from serve_guarded [OF s(1)] ne inv
  have "allow [([1], 0, 9)] [1] 0 10 = Ok ([([1], 0, 10)], True)" "made (replicate 9 ([1], 0)) [1] 0 < 10"
    "(demo_sequencer tr)\<lparr>sq_mempool := mp\<rparr> = fst (sq_submit demo_hash sample_ed [] (demo_sequencer tr) 0 demo_tx)"
    by (auto simp: client_of_def sample_post_def token_config_def submit_serve_def)
  with tr s(1) ne show ?thesis by blast
qed

text \<open>
  C19.  What a node keeps when it is stopped and started again.  Start the server on a node of a genesis
  configuration, let it go through any turns (blocks, requests, finalizations, saves) until it is shut
  down without an error, and start again from its directory.  The sequencer has the state, the blocks,
  the chain with every record and its clock, the assertions, the head, the identity, the bond and the keyless
  configuration that the server stopped with.  Its pool is empty, so transactions that were accepted and not yet
  in a block are lost, and the fee settings are those a start gives: fees go to the vault, the fee
  assets are those of the genesis file and no asset has a limit.  Every turn had its reply.
\<close>

theorem run_then_restart:
  assumes n: "node_of H ed tc pcs keys g gen sq" and json: "json_reads_back sj" and hex: "hex_reads_back tc"
    and gf: "Option.bind (dk_files d (store_file root GenesisFile)) (sj_read_genesis sj) = Some g"
    and run: "server_run H ed pcs tc sj vj root g config True sq began0 began1 ticks d = (Ok (sv, replies), d')"
    and binds: "run_binds H ed pcs tc sj vj root g config
        \<lparr>sv_sequencer = sq, sv_limiter = [], sv_last_block = began0, sv_last_persist = began1\<rparr> ticks d"
    and st: "storable H (sq_state (sv_sequencer sv))"
  shows "start_node H ed tc pcs sj keys root None (calm d')
      = (Ok ((sv_sequencer sv)\<lparr>sq_mempool := mempool_new 4096, sq_fee_recipient := FEE_VAULT, sq_fee_asset_limits := [],
           sq_fee_assets := map ga_asset (gc_gas_assets g)\<rparr>), calm d')
     \<and> length replies = length ticks"
proof -
  have b: "build_state H ed tc pcs g = Ok gen" and r: "running H ed pcs keys g gen sq" using n by (simp_all add: node_of_running)
  from server_loop_Ok [OF b json _ binds gf run [unfolded server_run_def, simplified]] r
  have l: "running H ed pcs keys g gen (sv_sequencer sv)" "length replies = length ticks"
    "directory_holds H tc sj root g (mt_root gen) (sq_state (sv_sequencer sv)) (chain_snapshot_of (sq_chain (sv_sequencer sv)))
       (sq_blocks (sv_sequencer sv)) d'" by simp_all
  then have n': "node_of H ed tc pcs keys g gen (sv_sequencer sv)" using b st by (simp add: node_of_running)
  from storable_reads [OF st] obtain st' where
    st': "from_bytes H (to_bytes (sq_state (sv_sequencer sv))) = Ok st'" "mt_root st' = mt_root (sq_state (sv_sequencer sv))" by blast
  from start_same [OF n' hex refl st' l(3)] l(2) show ?thesis by (simp add: restarted_def)
qed

definition sample_config :: server_config where
  "sample_config = server_config_default\<lparr>sc_block_interval_secs := 3600, sc_persist_interval_secs := 3600\<rparr>"

definition sample_tick :: tick where
  "sample_tick = \<lparr>tk_now = 60, tk_produce = 60, tk_serve = 60, tk_handle = 60, tk_incoming = Some sample_request\<rparr>"

lemma sample_turn:
  assumes "ac_now (sq_chain sq) = 0"
  shows "server_tick H ed pcs tc sj sample_serve root g sample_config \<lparr>sv_sequencer = sq, sv_limiter = [], sv_last_block = 0, sv_last_persist = 0\<rparr>
      sample_tick d
    = (Ok (\<lparr>sv_sequencer = sample_clock sq, sv_limiter = [], sv_last_block = 0, sv_last_persist = 0\<rparr>,
        Some \<lparr>hp_status = 200, hp_headers = [(str_bytes ''Content-Type'', str_bytes ''application/json'')], hp_body = []\<rparr>), d)"
proof -
  have "tick_clock sq 60 = sample_clock sq" using assms by (simp add: tick_clock_def advance_to_def)
  then show ?thesis
    by (simp add: server_tick_def tick_block_def tick_persist_def tick_serve_def serve_def admit_request_def reply_text_def
        sample_tick_def sample_config_def sample_request_def sample_serve_def server_config_default_def cors_headers_def
        header_def header_of_def saturating_sub_def bind_act_def give_def Let_def) (simp add: str_bytes_def)
qed

theorem run_then_restart_witness:
  "\<exists>sj gen sq d d' sv replies. node_of genesis_hash sample_ed store_codecs [] no_keys sample_genesis gen sq
     \<and> server_run genesis_hash sample_ed [] store_codecs sj sample_serve [] sample_genesis sample_config True sq 0 0 [sample_tick] d
         = (Ok (sv, replies), d')
     \<and> start_node genesis_hash sample_ed store_codecs [] sj no_keys [] None (calm d')
         = (Ok ((sv_sequencer sv)\<lparr>sq_mempool := mempool_new 4096, sq_fee_recipient := FEE_VAULT, sq_fee_asset_limits := [],
              sq_fee_assets := map ga_asset (gc_gas_assets sample_genesis)\<rparr>), calm d')"
proof -
  obtain gen sq where n: "build_state genesis_hash sample_ed store_codecs [] sample_genesis = Ok gen"
    "node_of genesis_hash sample_ed store_codecs [] no_keys sample_genesis gen sq"
    "node_of genesis_hash sample_ed store_codecs [] no_keys sample_genesis gen (sample_clock sq)" "sq_blocks sq = []" "sq_state sq = gen"
    "ac_now (sq_chain sq) = 0" by (rule sample_nodes)
  define d where "d = \<lparr>dk_files = [store_file [] GenesisFile \<mapsto> [0]], dk_plan = []\<rparr>"
  have plan: "dk_plan d = []" by (simp add: d_def)
  define c where "c = chain_snapshot_of (sq_chain (sample_clock sq))"
  define sj where "sj = sample_json c c
    \<lparr>md_chain_id = gc_chain_id sample_genesis, md_genesis_root = hash_to_hex store_codecs (mt_root gen), md_block_height = 0\<rparr>"
  obtain d' where d': "store_save genesis_hash sample_ed store_codecs [] sj [] sample_genesis gen c [] d = (Ok (), d')"
    unfolding sj_def by (rule sample_save [OF n(1) insertI1 plan])
  have g: "Option.bind (dk_files d (store_file [] GenesisFile)) (sj_read_genesis sj) = Some sample_genesis"
    by (simp add: d_def sj_def sample_json_def pair_read_def)
  have j: "json_reads_back sj" unfolding sj_def by (rule sample_json_reads)
  let ?sv = "\<lparr>sv_sequencer = sample_clock sq, sv_limiter = [], sv_last_block = 0, sv_last_persist = 0\<rparr>"
  have "save_now genesis_hash sample_ed [] store_codecs sj [] sample_genesis ?sv d = (Ok (), d')"
    using d' n(4,5) by (simp add: save_now_def map_err_act_def c_def)
  then obtain replies where run: "server_run genesis_hash sample_ed [] store_codecs sj sample_serve [] sample_genesis sample_config True sq 0 0 [sample_tick] d
      = (Ok (?sv, replies), d')"
    using sample_turn [OF n(6)] by (simp add: server_run_def bind_act_def give_def)
  have f: "run_binds genesis_hash sample_ed [] store_codecs sj sample_serve [] sample_genesis sample_config
      \<lparr>sv_sequencer = sq, sv_limiter = [], sv_last_block = 0, sv_last_persist = 0\<rparr> [sample_tick] d"
    using sample_turn [OF n(6)]
    by simp (simp add: block_binds_def sample_tick_def sample_config_def saturating_sub_def server_config_default_def)
  have st: "storable genesis_hash (sq_state (sv_sequencer ?sv))" using n(2) by (simp add: node_of_def)
  from run_then_restart [OF n(2) j store_codecs_read(1) g run f st] n(2) run show ?thesis by blast
qed

end
