(* ===== verification/Wallet.thy ===== *)
theory Wallet
  imports Genesis Json
begin

text \<open>
  The wallet (\<open>sena-wallet\<close>): transfers and their signatures, keyless sessions, the parts of a JWT, the
  requests to the pepper and proving services and what is read from their answers, and the
  assembly of a keyless authenticator.  The calls to the services (\<open>keyless_client.rs\<close>) are here
  too, with the HTTP request itself a parameter.  Parameters are also JSON text, the text of field
  elements, and Ed25519 signing.
\<close>

section \<open>Parameters\<close>

record signer =
  sg_public :: "bytes32 \<Rightarrow> bytes32"
  sg_sign :: "bytes32 \<Rightarrow> bytes \<Rightarrow> bytes64"

text \<open>What the code relies on: the signature of a key verifies under its public key.\<close>

definition signs :: "ed25519 \<Rightarrow> signer \<Rightarrow> bool" where
  "signs ed sg \<longleftrightarrow> (\<forall>k m. ed_is_point ed (sg_public sg k) \<and> \<not> ed_is_weak ed (sg_public sg k)
     \<and> ed_verify_strict ed (sg_public sg k) m (sg_sign sg k m))"

text \<open>Reading JSON text, and the text of field elements.\<close>

record wallet_codecs =
  wc_json :: "bytes \<Rightarrow> json option"
  wc_fr_text :: "fr \<Rightarrow> bytes"
  wc_fr_parse :: "bytes \<Rightarrow> fr option"

section \<open>Transfers\<close>

record fee_quote =
  fq_asset :: asset_id
  fq_rate :: u128
  fq_intrinsic_gas :: u64
  fq_max_fee_per_gas :: u128
  fq_max_priority_fee_per_gas :: u128

definition transfer ::
    "hasher \<Rightarrow> l2address \<Rightarrow> u64 \<Rightarrow> l2address \<Rightarrow> asset_id \<Rightarrow> u128 \<Rightarrow> fee_quote \<Rightarrow> (compile_error, transaction) result" where
  "transfer H sender n to asset amount fee =
     (let tx = \<lparr>tx_sender = sender, tx_nonce = n, tx_fee_asset = fq_asset fee, tx_fee_rate = fq_rate fee,
          tx_fee_intrinsic_gas = fq_intrinsic_gas fee, tx_gas_limit = 0, tx_max_fee_per_gas = fq_max_fee_per_gas fee,
          tx_max_priority_fee_per_gas = fq_max_priority_fee_per_gas fee, tx_payload = Transfer to asset amount,
          tx_authenticator = Ed25519 0 0\<rparr>
      in and_then (gas_required H tx) (\<lambda>gas. Ok (tx\<lparr>tx_gas_limit := gas\<rparr>)))"

definition ed25519_address :: "signer \<Rightarrow> bytes32 \<Rightarrow> l2address" where
  "ed25519_address sg secret = sg_public sg secret"

definition sign_ed25519 :: "hasher \<Rightarrow> signer \<Rightarrow> transaction \<Rightarrow> bytes32 \<Rightarrow> transaction" where
  "sign_ed25519 H sg tx secret =
     (let public_key = sg_public sg secret;
          tx1 = tx\<lparr>tx_sender := public_key, tx_authenticator := Ed25519 public_key 0\<rparr>
      in tx1\<lparr>tx_authenticator := Ed25519 public_key (sg_sign sg secret (to_be (signing_digest H tx1)))\<rparr>)"

section \<open>Sessions and tokens\<close>

datatype client_error =
    MalformedJwt
  | MissingClaim bytes
  | WrongNonce
  | KeylessRejected keyless_error
  | PublicInputsMismatch
  | ServiceFailed bytes

record keyless_session =
  se_secret :: bytes32
  se_exp_date_secs :: u64
  se_blinder :: bytes

definition session_from_parts :: "bytes32 \<Rightarrow> u64 \<Rightarrow> bytes \<Rightarrow> keyless_session" where
  "session_from_parts secret exp_date_secs blinder =
     \<lparr>se_secret = secret, se_exp_date_secs = exp_date_secs, se_blinder = blinder\<rparr>"

text \<open>What the random source gives: first the blinder, then the key.\<close>

definition session_generate :: "u64 \<Rightarrow> bytes \<times> bytes32 \<Rightarrow> keyless_session" where
  "session_generate exp_date_secs random =
     (let (blinder, key) = random in \<lparr>se_secret = key, se_exp_date_secs = exp_date_secs, se_blinder = blinder\<rparr>)"

definition session_public_key :: "signer \<Rightarrow> keyless_session \<Rightarrow> bytes32" where
  "session_public_key sg s = sg_public sg (se_secret s)"

definition session_nonce :: "width_constants list \<Rightarrow> wallet_codecs \<Rightarrow> signer \<Rightarrow> keyless_session \<Rightarrow> (keyless_error, bytes) result" where
  "session_nonce pcs wc sg s =
     and_then (oauth_nonce pcs (session_public_key sg s) (se_exp_date_secs s) (se_blinder s)) (\<lambda>f. Ok (wc_fr_text wc f))"

definition epk_bcs_hex :: "text_codecs \<Rightarrow> signer \<Rightarrow> keyless_session \<Rightarrow> bytes" where
  "epk_bcs_hex tc sg s = tc_hex_encode tc ([0, 32] @ to_be (session_public_key sg s))"

record jwt =
  jw_header_json :: bytes
  jw_claims :: json

definition jwt_parse :: "text_codecs \<Rightarrow> wallet_codecs \<Rightarrow> bytes \<Rightarrow> (client_error, jwt) result" where
  "jwt_parse tc wc token =
     (case split_on 46 token of
        [h, p, _] \<Rightarrow>
          and_then (ok_or (tc_b64url_decode tc h) MalformedJwt) (\<lambda>header.
          and_then (ok_or (tc_b64url_decode tc p) MalformedJwt) (\<lambda>payload.
            if \<not> utf8_valid header then Err MalformedJwt
            else and_then (ok_or (wc_json wc header) MalformedJwt) (\<lambda>_.
              and_then (ok_or (wc_json wc payload) MalformedJwt) (\<lambda>claims.
                Ok \<lparr>jw_header_json = header, jw_claims = claims\<rparr>))))
      | _ \<Rightarrow> Err MalformedJwt)"

definition jwt_claim :: "jwt \<Rightarrow> bytes \<Rightarrow> (client_error, bytes) result" where
  "jwt_claim j name = ok_or (as_str (json_at (jw_claims j) name)) (MissingClaim name)"

section \<open>The keyless authenticator\<close>

record sign_in =
  si_session :: keyless_session
  si_pepper :: bytes
  si_uid_key :: bytes
  si_extra_field :: "bytes option"
  si_exp_horizon_secs :: u64
  si_jwk_n :: bytes

definition extra_hash :: "width_constants list \<Rightarrow> bytes option \<Rightarrow> (keyless_error, bytes32 option) result" where
  "extra_hash pcs extra =
     (case extra of None \<Rightarrow> Ok None | Some f \<Rightarrow> and_then (extra_field_hash_of pcs f) (\<lambda>h. Ok (Some h)))"

text \<open>\<open>parse_ok\<close> is the parser of compressed points.\<close>

definition assemble ::
    "width_constants list \<Rightarrow> text_codecs \<Rightarrow> wallet_codecs \<Rightarrow> signer \<Rightarrow> (bytes128 \<Rightarrow> bool) \<Rightarrow> jwt \<Rightarrow> sign_in \<Rightarrow> bytes128 \<Rightarrow> bytes32 option
     \<Rightarrow> (client_error, keyless_signature) result" where
  "assemble pcs tc wc sg parse_ok j si prf expected =
     and_then (jwt_claim j (str_bytes ''nonce'')) (\<lambda>nonce.
     and_then (map_err KeylessRejected (session_nonce pcs wc sg (si_session si))) (\<lambda>own.
     if nonce \<noteq> own then Err WrongNonce
     else and_then (jwt_claim j (str_bytes ''iss'')) (\<lambda>iss.
     and_then (jwt_claim j (str_bytes ''aud'')) (\<lambda>aud.
     and_then (jwt_claim j (si_uid_key si)) (\<lambda>uid_val.
     and_then (map_err KeylessRejected (iss_hash_of pcs iss)) (\<lambda>ih.
     and_then (map_err KeylessRejected (id_commitment pcs (si_pepper si) aud (si_uid_key si) uid_val)) (\<lambda>idc.
     and_then (map_err KeylessRejected (jwt_header_hash tc pcs (jw_header_json j))) (\<lambda>hh.
     and_then (map_err KeylessRejected (rsa_jwk_hash_b64 tc pcs (si_jwk_n si))) (\<lambda>jh.
     and_then (map_err KeylessRejected (extra_hash pcs (si_extra_field si))) (\<lambda>eh.
     let sig = \<lparr>ks_iss_hash = ih, ks_idc = idc, ks_ephemeral_public_key = session_public_key sg (si_session si),
           ks_ephemeral_signature = 0, ks_exp_date_secs = se_exp_date_secs (si_session si),
           ks_exp_horizon_secs = si_exp_horizon_secs si, ks_jwt_header_hash = hh, ks_jwk_hash = jh,
           ks_extra_field_hash = eh, ks_proof = prf\<rparr> in
     if \<not> parse_ok prf then Err (KeylessRejected MalformedProof)
     else (case expected of
         None \<Rightarrow> Ok sig
       | Some h \<Rightarrow>
           and_then (map_err KeylessRejected (public_inputs_hash pcs sig)) (\<lambda>f.
             if fr_to_bytes f \<noteq> h then Err PublicInputsMismatch else Ok sig))))))))))))"

definition keyless_sign :: "hasher \<Rightarrow> signer \<Rightarrow> transaction \<Rightarrow> keyless_session \<Rightarrow> keyless_signature \<Rightarrow> transaction" where
  "keyless_sign H sg tx session sig =
     (let unsigned = sig\<lparr>ks_ephemeral_signature := 0\<rparr>;
          tx1 = tx\<lparr>tx_sender := keyless_address H sig, tx_authenticator := Keyless unsigned\<rparr>;
          tx2 = (case gas_required H tx1 of Ok gas \<Rightarrow> tx1\<lparr>tx_gas_limit := max (tx_gas_limit tx1) gas\<rparr> | _ \<Rightarrow> tx1)
      in tx2\<lparr>tx_authenticator :=
           Keyless (unsigned\<lparr>ks_ephemeral_signature := sg_sign sg (se_secret session) (to_be (signing_digest H tx2))\<rparr>)\<rparr>)"

definition address_of :: "hasher \<Rightarrow> width_constants list \<Rightarrow> jwt \<Rightarrow> bytes \<Rightarrow> bytes \<Rightarrow> (client_error, l2address) result" where
  "address_of H pcs j pepper uid_key =
     and_then (jwt_claim j (str_bytes ''iss'')) (\<lambda>iss.
     and_then (jwt_claim j (str_bytes ''aud'')) (\<lambda>aud.
     and_then (jwt_claim j uid_key) (\<lambda>uid_val.
       map_err KeylessRejected (derive_address H pcs iss pepper aud uid_key uid_val))))"

section \<open>The services\<close>

definition hex_field :: "text_codecs \<Rightarrow> nat \<Rightarrow> bytes \<Rightarrow> json \<Rightarrow> bytes \<Rightarrow> (client_error, bytes) result" where
  "hex_field tc n service v name =
     and_then (ok_or (as_str (json_at v name)) (ServiceFailed service)) (\<lambda>s.
       case tc_hex_decode tc (trim_0x s) of
         Some b \<Rightarrow> if length b = n then Ok b else Err (ServiceFailed service)
       | None \<Rightarrow> Err (ServiceFailed service))"

definition PEPPER_BYTES :: nat where "PEPPER_BYTES = 31"

definition pepper_fields :: "text_codecs \<Rightarrow> signer \<Rightarrow> bytes \<Rightarrow> keyless_session \<Rightarrow> bytes \<Rightarrow> (bytes \<times> json) list" where
  "pepper_fields tc sg token session uid_key =
     [(str_bytes ''jwt_b64'', JString token), (str_bytes ''epk'', JString (epk_bcs_hex tc sg session)),
      (str_bytes ''epk_blinder'', JString (tc_hex_encode tc (se_blinder session))),
      (str_bytes ''exp_date_secs'', JPosInt (se_exp_date_secs session)), (str_bytes ''uid_key'', JString uid_key)]"

definition pepper_request :: "text_codecs \<Rightarrow> signer \<Rightarrow> bytes \<Rightarrow> keyless_session \<Rightarrow> bytes \<Rightarrow> json" where
  "pepper_request tc sg token session uid_key = JObject (pepper_fields tc sg token session uid_key)"

text \<open>An answer with a message and not the field asked for is a refusal.\<close>

definition refused_by :: "json \<Rightarrow> bytes \<Rightarrow> bool" where
  "refused_by v name \<longleftrightarrow> as_str (json_at v (str_bytes ''message'')) \<noteq> None \<and> json_get v name = None"

definition parse_pepper_response :: "text_codecs \<Rightarrow> json \<Rightarrow> (client_error, bytes) result" where
  "parse_pepper_response tc v =
     (if refused_by v (str_bytes ''pepper'') then Err (ServiceFailed (str_bytes ''pepper service''))
      else hex_field tc PEPPER_BYTES (str_bytes ''pepper service'') v (str_bytes ''pepper''))"

text \<open>The name in \<open>"name":"value",\<close>: what is between the leading quotes and the next one.\<close>

definition field_name :: "bytes \<Rightarrow> bytes" where
  "field_name extra = hd (split_on 34 (dropWhile (\<lambda>c. c = 34) extra))"

definition prover_request :: "text_codecs \<Rightarrow> signer \<Rightarrow> bytes \<Rightarrow> sign_in \<Rightarrow> json" where
  "prover_request tc sg token si =
     JObject (pepper_fields tc sg token (si_session si) (si_uid_key si)
       @ [(str_bytes ''exp_horizon_secs'', JPosInt (si_exp_horizon_secs si)),
          (str_bytes ''pepper'', JString (tc_hex_encode tc (si_pepper si))),
          (str_bytes ''extra_field'', case si_extra_field si of None \<Rightarrow> JNull | Some f \<Rightarrow> JString (field_name f))])"

record prover_response =
  pr_proof :: bytes128
  pr_public_inputs_hash :: bytes32

definition parse_prover_response :: "text_codecs \<Rightarrow> wallet_codecs \<Rightarrow> json \<Rightarrow> (client_error, prover_response) result" where
  "parse_prover_response tc wc v =
     (let service = str_bytes ''prover''; bad = ServiceFailed service; p = json_at v (str_bytes ''proof'') in
      if refused_by v (str_bytes ''proof'') then Err bad
      else and_then (hex_field tc 32 service p (str_bytes ''a'')) (\<lambda>a.
      and_then (hex_field tc 64 service p (str_bytes ''b'')) (\<lambda>b.
      and_then (hex_field tc 32 service p (str_bytes ''c'')) (\<lambda>c.
      and_then (ok_or (as_str (json_at v (str_bytes ''public_inputs_hash''))) bad) (\<lambda>h.
      and_then (if take 2 h = str_bytes ''0x''
          then (case tc_hex_decode tc (drop 2 h) of
              Some bs \<Rightarrow> if length bs = 32 then Ok (from_be bs) else Err bad
            | None \<Rightarrow> Err bad)
          else and_then (ok_or (wc_fr_parse wc h) bad) (\<lambda>f. Ok (fr_to_bytes f))) (\<lambda>ph.
        Ok \<lparr>pr_proof = from_be (a @ b @ c), pr_public_inputs_hash = ph\<rparr>))))))"

text \<open>The calls; \<open>post\<close> takes the service's name, the address and the body.\<close>

definition service_url :: "bytes \<Rightarrow> bytes \<Rightarrow> bytes" where
  "service_url url path = rev (dropWhile (\<lambda>c. c = 47) (rev url)) @ path"

definition pepper_fetch ::
    "text_codecs \<Rightarrow> signer \<Rightarrow> (bytes \<Rightarrow> bytes \<Rightarrow> json \<Rightarrow> (client_error, json) result) \<Rightarrow> bytes \<Rightarrow> bytes \<Rightarrow> keyless_session \<Rightarrow> bytes
     \<Rightarrow> (client_error, bytes) result" where
  "pepper_fetch tc sg send url token session uid_key =
     and_then (send (str_bytes ''pepper service'') (service_url url (str_bytes ''/v0/fetch'')) (pepper_request tc sg token session uid_key))
       (parse_pepper_response tc)"

definition prover_prove ::
    "text_codecs \<Rightarrow> wallet_codecs \<Rightarrow> signer \<Rightarrow> (bytes \<Rightarrow> bytes \<Rightarrow> json \<Rightarrow> (client_error, json) result) \<Rightarrow> bytes \<Rightarrow> bytes \<Rightarrow> sign_in
     \<Rightarrow> (client_error, prover_response) result" where
  "prover_prove tc wc sg send url token si =
     and_then (send (str_bytes ''prover'') (service_url url (str_bytes ''/v0/prove'')) (prover_request tc sg token si))
       (parse_prover_response tc wc)"

section \<open>What a wallet signs is what the chain checks\<close>

lemma signing_digest_authenticator [simp]: "signing_digest H (tx\<lparr>tx_authenticator := a\<rparr>) = signing_digest H tx"
  by (simp add: signing_digest_def tx_signing_preimage_def)

lemma gas_required_limit [simp]: "gas_required H (tx\<lparr>tx_gas_limit := n\<rparr>) = gas_required H tx"
  by (simp add: gas_required_def gas_used_def)

lemma signs_verifies: "signs ed sg \<Longrightarrow> verify_ed25519_strict ed (sg_public sg k) (sg_sign sg k (to_be d)) d = Ok ()"
  by (simp add: signs_def verify_ed25519_strict_def)

text \<open>Field elements out of the hash are reduced.\<close>

lemma hash_scalars_reduced:
  assumes "hash_scalars pcs ss = Ok f"
  shows "f < FR_MODULUS"
proof -
  have sum: "foldl fr_add a xs < FR_MODULUS" if "a < FR_MODULUS" for a xs
    using that by (induction xs arbitrary: a) (simp_all add: fr_add_def FR_MODULUS_bounds(1))
  have mixed: "hd (mix c (Suc t) st) < FR_MODULUS" for c t st
    using sum FR_MODULUS_bounds(1) by (simp add: mix_def hd_map upt_conv_Cons del: upt_Suc)
  let ?t = "Suc (length ss)" and ?c = "pcs ! (length ss - Suc 0)"
  obtain m where m: "FULL_ROUNDS + partial_rounds ?c = Suc m" by (simp add: FULL_ROUNDS_def)
  from assms have "f = hd (fold (poseidon_round ?c ?t) [0..<Suc m] (0 # ss))"
    by (auto simp: hash_scalars_def poseidon_hash_def Let_def m split: if_splits result.splits)
  then show ?thesis using mixed by (simp add: poseidon_round_def Let_def)
qed

lemma public_inputs_reduced: "public_inputs_hash pcs sig = Ok f \<Longrightarrow> f < FR_MODULUS"
  by (auto simp: public_inputs_hash_def and_then_Ok_iff dest: hash_scalars_reduced)

lemma public_inputs_signature [simp]: "public_inputs_hash pcs (sig\<lparr>ks_ephemeral_signature := s\<rparr>) = public_inputs_hash pcs sig"
  by (simp add: public_inputs_hash_def public_scalars_def)

text \<open>The derivations give canonical scalars, so the public input of their authenticator exists.\<close>

definition canonical :: "bytes32 \<Rightarrow> bool" where
  "canonical b \<longleftrightarrow> (\<exists>x < FR_MODULUS. b = fr_to_bytes x)"

lemma hashed_canonical:
  "iss_hash_of pcs iss = Ok b \<Longrightarrow> canonical b" "id_commitment pcs pepper aud k v = Ok b \<Longrightarrow> canonical b"
  "jwt_header_hash tc pcs header = Ok b \<Longrightarrow> canonical b" "rsa_jwk_hash_b64 tc pcs n = Ok b \<Longrightarrow> canonical b"
  by (auto simp: iss_hash_of_def id_commitment_def jwt_header_hash_def rsa_jwk_hash_b64_def rsa_jwk_hash_def pad_and_hash_string_def
      and_then_Ok_iff canonical_def split: if_splits dest!: hash_scalars_reduced)

lemma public_inputs_exist:
  assumes "canonical (ks_idc sig)" "canonical (ks_iss_hash sig)" "canonical (ks_jwt_header_hash sig)" "canonical (ks_jwk_hash sig)"
    "ks_extra_field_hash sig = None"
  shows "\<exists>f. public_inputs_hash pcs sig = Ok f"
proof -
  have "\<exists>x. fr_from_bytes field b = Ok x" if "canonical b" for field b
    using that by (auto simp: canonical_def fr_from_bytes_iff)
  then have "public_inputs_hash pcs sig \<noteq> Err e" for e
    using assms epk_scalars_total [of "ks_ephemeral_public_key sig"] empty_hashes_total [of pcs]
    by (auto simp: public_inputs_hash_def public_scalars_def and_then_Err_iff hash_scalars_def split: result.splits) (metis result.distinct(1))+
  then show ?thesis using public_inputs_hash_not_Panic [of pcs sig] by (cases "public_inputs_hash pcs sig") auto
qed

lemma oauth_nonce_total: "\<exists>f. oauth_nonce pcs epk d blinder = Ok f"
  using epk_scalars_total [of epk] hash_scalars_total by (auto simp: oauth_nonce_def)

lemma derivations_total:
  "length iss \<le> MAX_ISS_VAL_BYTES \<Longrightarrow> \<exists>b. iss_hash_of pcs iss = Ok b"
  "length aud \<le> MAX_AUD_VAL_BYTES \<Longrightarrow> length k \<le> MAX_UID_KEY_BYTES \<Longrightarrow> length v \<le> MAX_UID_VAL_BYTES \<Longrightarrow>
     \<exists>b. id_commitment pcs pepper aud k v = Ok b"
  "length (tc_b64url_encode tc header) < MAX_JWT_HEADER_B64_BYTES \<Longrightarrow> \<exists>b. jwt_header_hash tc pcs header = Ok b"
  "tc_b64url_decode tc n = Some m \<Longrightarrow> length m = RSA_MODULUS_BYTES \<Longrightarrow> \<exists>b. rsa_jwk_hash_b64 tc pcs n = Ok b"
proof -
  note t = pad_and_hash_total [of _ _ pcs]
  show "length iss \<le> MAX_ISS_VAL_BYTES \<Longrightarrow> \<exists>b. iss_hash_of pcs iss = Ok b"
    using t [of iss MAX_ISS_VAL_BYTES "''iss''"] by (auto simp: iss_hash_of_def MAX_ISS_VAL_BYTES_def)
  show "length (tc_b64url_encode tc header) < MAX_JWT_HEADER_B64_BYTES \<Longrightarrow> \<exists>b. jwt_header_hash tc pcs header = Ok b"
    using t [of "tc_b64url_encode tc header @ str_bytes ''.''" MAX_JWT_HEADER_B64_BYTES "''jwt_header''"]
    by (auto simp: jwt_header_hash_def MAX_JWT_HEADER_B64_BYTES_def str_bytes_def)
  show "\<exists>b. id_commitment pcs pepper aud k v = Ok b"
    if "length aud \<le> MAX_AUD_VAL_BYTES" "length k \<le> MAX_UID_KEY_BYTES" "length v \<le> MAX_UID_VAL_BYTES"
  proof -
    note len = that
    obtain a b c where h: "pad_and_hash_string pcs ''aud'' aud MAX_AUD_VAL_BYTES = Ok a"
      "pad_and_hash_string pcs ''uid_key'' k MAX_UID_KEY_BYTES = Ok b" "pad_and_hash_string pcs ''uid_val'' v MAX_UID_VAL_BYTES = Ok c"
      using t [OF len(1), of "''aud''"] t [OF len(2), of "''uid_key''"] t [OF len(3), of "''uid_val''"]
      by (auto simp: MAX_AUD_VAL_BYTES_def MAX_UID_KEY_BYTES_def MAX_UID_VAL_BYTES_def)
    with hash_scalars_total [of "[pack_one pepper, a, c, b]" pcs] show ?thesis by (auto simp: id_commitment_def)
  qed
  show "\<exists>b. rsa_jwk_hash_b64 tc pcs n = Ok b" if "tc_b64url_decode tc n = Some m" "length m = RSA_MODULUS_BYTES"
    using that hash_scalars_total [of "map from_le_bytes_mod_order (chunks 24 (rev m)) @ [RSA_MODULUS_BYTES mod FR_MODULUS]" pcs]
    by (auto simp: rsa_jwk_hash_b64_def rsa_jwk_hash_def length_chunks RSA_MODULUS_BYTES_def)
qed

text \<open>What an assembled authenticator says.\<close>

lemma assemble_Ok:
  assumes "assemble pcs tc wc sg parse_ok j si prf (Some h) = Ok sig"
  obtains f where "public_inputs_hash pcs sig = Ok f" "fr_to_bytes f = h" "parse_ok prf" "ks_proof sig = prf"
    "ks_ephemeral_public_key sig = session_public_key sg (si_session si)"
    "ks_exp_date_secs sig = se_exp_date_secs (si_session si)" "ks_exp_horizon_secs sig = si_exp_horizon_secs si"
    "address_of H pcs j (si_pepper si) (si_uid_key si) = Ok (keyless_address H sig)"
    "\<exists>own. session_nonce pcs wc sg (si_session si) = Ok own \<and> jwt_claim j (str_bytes ''nonce'') = Ok own"
  using assms unfolding assemble_def
  by (auto simp: and_then_Ok_iff map_err_Ok_iff Let_def address_of_def derive_address_def keyless_address_def split: if_splits)

text \<open>A sign-in whose token carries the session's nonce and whose values keep the circuit's limits can be assembled.\<close>

lemma assemble_succeeds:
  assumes "\<exists>own. session_nonce pcs wc sg (si_session si) = Ok own \<and> jwt_claim j (str_bytes ''nonce'') = Ok own"
    and c: "jwt_claim j (str_bytes ''iss'') = Ok iss" "jwt_claim j (str_bytes ''aud'') = Ok aud" "jwt_claim j (si_uid_key si) = Ok v"
    and l: "length iss \<le> MAX_ISS_VAL_BYTES" "length aud \<le> MAX_AUD_VAL_BYTES" "length (si_uid_key si) \<le> MAX_UID_KEY_BYTES"
      "length v \<le> MAX_UID_VAL_BYTES" "length (tc_b64url_encode tc (jw_header_json j)) < MAX_JWT_HEADER_B64_BYTES"
      "tc_b64url_decode tc (si_jwk_n si) = Some m" "length m = RSA_MODULUS_BYTES"
    and e: "si_extra_field si = None" "parse_ok prf"
  shows "\<exists>h sig. assemble pcs tc wc sg parse_ok j si prf (Some h) = Ok sig"
proof -
  obtain ih where ih: "iss_hash_of pcs iss = Ok ih" using derivations_total(1) [OF l(1)] by blast
  obtain idc where idc: "id_commitment pcs (si_pepper si) aud (si_uid_key si) v = Ok idc" using derivations_total(2) [OF l(2-4)] by blast
  obtain hh where hh: "jwt_header_hash tc pcs (jw_header_json j) = Ok hh" using derivations_total(3) [OF l(5)] by blast
  obtain jh where jh: "rsa_jwk_hash_b64 tc pcs (si_jwk_n si) = Ok jh" using derivations_total(4) [OF l(6,7)] by blast
  let ?sig = "\<lparr>ks_iss_hash = ih, ks_idc = idc, ks_ephemeral_public_key = session_public_key sg (si_session si), ks_ephemeral_signature = 0,
    ks_exp_date_secs = se_exp_date_secs (si_session si), ks_exp_horizon_secs = si_exp_horizon_secs si, ks_jwt_header_hash = hh,
    ks_jwk_hash = jh, ks_extra_field_hash = None, ks_proof = prf\<rparr>"
  obtain f where "public_inputs_hash pcs ?sig = Ok f"
    using public_inputs_exist [of ?sig pcs] hashed_canonical(1) [OF ih] hashed_canonical(2) [OF idc] hashed_canonical(3) [OF hh]
      hashed_canonical(4) [OF jh] by auto
  with assms(1) c e ih idc hh jh have "assemble pcs tc wc sg parse_ok j si prf (Some (fr_to_bytes f)) = Ok ?sig"
    by (auto simp: assemble_def extra_hash_def Let_def)
  then show ?thesis by blast
qed

section \<open>Properties\<close>

text \<open>
  A transfer the wallet signs is accepted as its owner's.  A transfer built for the address of a key and
  signed with that key authenticates on chain in every context, moves what was asked for at the
  quoted fee, and its gas limit is exactly the gas the chain will charge it.
\<close>

lemma wallet_transfer_authenticates:
  assumes "signs ed sg" "transfer H (ed25519_address sg secret) n to asset amount fee = Ok tx"
  shows "authenticate H ed pcs (sign_ed25519 H sg tx secret) ctx = Ok ()
    \<and> tx_sender (sign_ed25519 H sg tx secret) = ed25519_address sg secret \<and> tx_nonce (sign_ed25519 H sg tx secret) = n
    \<and> tx_payload (sign_ed25519 H sg tx secret) = Transfer to asset amount
    \<and> tx_fee_rate (sign_ed25519 H sg tx secret) = fq_rate fee \<and> tx_max_fee_per_gas (sign_ed25519 H sg tx secret) = fq_max_fee_per_gas fee
    \<and> gas_required H (sign_ed25519 H sg tx secret) = Ok (tx_gas_limit (sign_ed25519 H sg tx secret))"
proof -
  define tx0 where "tx0 = \<lparr>tx_sender = sg_public sg secret, tx_nonce = n, tx_fee_asset = fq_asset fee, tx_fee_rate = fq_rate fee,
    tx_fee_intrinsic_gas = fq_intrinsic_gas fee, tx_gas_limit = 0, tx_max_fee_per_gas = fq_max_fee_per_gas fee,
    tx_max_priority_fee_per_gas = fq_max_priority_fee_per_gas fee, tx_payload = Transfer to asset amount, tx_authenticator = Ed25519 0 0\<rparr>"
  then have f: "tx_sender tx0 = sg_public sg secret" "tx_nonce tx0 = n" "tx_payload tx0 = Transfer to asset amount"
      "tx_fee_rate tx0 = fq_rate fee" "tx_max_fee_per_gas tx0 = fq_max_fee_per_gas fee" "tx_authenticator tx0 = Ed25519 0 0" by simp_all
  from assms(2) obtain gas where tx: "tx = tx0\<lparr>tx_gas_limit := gas\<rparr>" "gas_required H tx0 = Ok gas"
    unfolding transfer_def Let_def ed25519_address_def tx0_def [symmetric] by (auto simp: and_then_Ok_iff)
  have "gas_required H (sign_ed25519 H sg tx secret) = gas_required H tx0"
    using f by (simp add: sign_ed25519_def Let_def tx(1) gas_required_def gas_used_def)
  with tx f signs_verifies [OF assms(1)] show ?thesis
    by (simp add: sign_ed25519_def Let_def authenticate_def ed25519_address_def)
qed

definition sample_signer :: signer where
  "sample_signer = \<lparr>sg_public = (\<lambda>k. k), sg_sign = (\<lambda>_ _. 3)\<rparr>"

lemma sample_signs: "signs sample_ed sample_signer"
  by (simp add: signs_def sample_ed_def)

definition sample_quote :: fee_quote where
  "sample_quote = \<lparr>fq_asset = 1, fq_rate = 1000000, fq_intrinsic_gas = 10000, fq_max_fee_per_gas = 25000000000,
     fq_max_priority_fee_per_gas = 0\<rparr>"

text \<open>
  C27.  A sign-in the wallet accepts authenticates.  If the wallet assembles an authenticator from a token, a
  session and the prover's answer, the proof verifies for the public input the prover named, and the session's
  expiry horizon is within the network's, then every transaction signed with it passes the stateless authentication until the session
  expires, from exactly the address the wallet shows for this sign-in, with at least the gas it needs.  Its
  execution also asks that the token's signing key is current on the chain, which is not part of this.
\<close>

theorem keyless_sign_in_authenticates:
  assumes s: "signs ed sg" and a: "assemble pcs tc wc sg (kc_parse_ok config) j si prf (Some h) = Ok sig"
    and p: "kc_groth16 config prf (le_nat (to_be h))"
    and t: "si_exp_horizon_secs si \<le> kc_max_exp_horizon_secs config" "now < se_exp_date_secs (si_session si)"
  shows "authenticate H ed pcs (keyless_sign H sg tx (si_session si) sig) \<lparr>kx_config = Some config, kx_now = now\<rparr> = Ok ()
    \<and> address_of H pcs j (si_pepper si) (si_uid_key si) = Ok (tx_sender (keyless_sign H sg tx (si_session si) sig))
    \<and> tx_payload (keyless_sign H sg tx (si_session si) sig) = tx_payload tx
    \<and> (\<forall>gas. gas_required H (keyless_sign H sg tx (si_session si) sig) = Ok gas \<longrightarrow>
          gas \<le> tx_gas_limit (keyless_sign H sg tx (si_session si) sig))"
proof -
  obtain f where f: "public_inputs_hash pcs sig = Ok f" "fr_to_bytes f = h" and sig: "kc_parse_ok config prf" "ks_proof sig = prf"
    "ks_ephemeral_public_key sig = session_public_key sg (si_session si)"
    "ks_exp_date_secs sig = se_exp_date_secs (si_session si)" "ks_exp_horizon_secs sig = si_exp_horizon_secs si"
    "address_of H pcs j (si_pepper si) (si_uid_key si) = Ok (keyless_address H sig)" by (rule assemble_Ok [OF a])
  define tx1 where "tx1 = tx\<lparr>tx_sender := keyless_address H sig, tx_authenticator := Keyless (sig\<lparr>ks_ephemeral_signature := 0\<rparr>)\<rparr>"
  define tx2 where "tx2 = (case gas_required H tx1 of Ok gas \<Rightarrow> tx1\<lparr>tx_gas_limit := max (tx_gas_limit tx1) gas\<rparr> | _ \<Rightarrow> tx1)"
  define sig' where "sig' = sig\<lparr>ks_ephemeral_signature := sg_sign sg (se_secret (si_session si)) (to_be (signing_digest H tx2))\<rparr>"
  have k: "keyless_sign H sg tx (si_session si) sig = tx2\<lparr>tx_authenticator := Keyless sig'\<rparr>"
    unfolding keyless_sign_def Let_def tx1_def [symmetric] tx2_def [symmetric] by (simp add: sig'_def)
  have s2: "tx_sender tx2 = keyless_address H sig" "tx_payload tx2 = tx_payload tx"
    by (simp_all add: tx2_def tx1_def split: result.splits)
  have "le_nat (to_be h) = f"
    using f(2) le_nat_fr_to_bytes [of f] public_inputs_reduced [OF f(1)] FR_MODULUS_bounds(2) by simp
  then have g: "kc_groth16 config prf f" using p by simp
  have "keyless_address H sig' = keyless_address H sig" by (simp add: sig'_def keyless_address_def)
  then have v: "keyless_verify H ed pcs sig' (keyless_address H sig) (signing_digest H tx2) \<lparr>kx_config = Some config, kx_now = now\<rparr> = Ok ()"
    using f(1) g sig t signs_verifies [OF s]
    by (simp add: keyless_verify_def sig'_def session_public_key_def linorder_not_le linorder_not_less)
  have r: "gas_required H (tx2\<lparr>tx_authenticator := Keyless sig'\<rparr>) = gas_required H tx1"
    by (simp add: gas_required_def gas_used_def tx2_def tx1_def split: result.splits)
  have "gas_required H tx1 = Ok gas \<Longrightarrow> gas \<le> tx_gas_limit tx2" for gas by (simp add: tx2_def)
  then show ?thesis using v s2 sig(6) by (simp add: k authenticate_def r)
qed

definition sample_wallet :: wallet_codecs where
  "sample_wallet = \<lparr>wc_json = (\<lambda>_. None), wc_fr_text = (\<lambda>_. [48]), wc_fr_parse = (\<lambda>_. None)\<rparr>"

definition sample_jwt :: jwt where
  "sample_jwt = \<lparr>jw_header_json = [], jw_claims = JObject (map (\<lambda>k. (str_bytes k, JString [48])) [''nonce'', ''iss'', ''aud'', ''sub''])\<rparr>"

definition sample_sign_in :: sign_in where
  "sample_sign_in = \<lparr>si_session = session_from_parts 7 1000 [], si_pepper = [], si_uid_key = str_bytes ''sub'', si_extra_field = None,
     si_exp_horizon_secs = 50, si_jwk_n = replicate 256 0\<rparr>"

definition sample_keyless :: keyless_config where
  "sample_keyless = \<lparr>kc_parse_ok = (\<lambda>_. True), kc_groth16 = (\<lambda>_ _. True), kc_max_exp_horizon_secs = 100\<rparr>"

theorem keyless_sign_in_authenticates_witness:
  "\<exists>h sig. assemble [] genesis_codecs sample_wallet sample_signer (kc_parse_ok sample_keyless) sample_jwt sample_sign_in 9 (Some h) = Ok sig
     \<and> (\<forall>tx. authenticate sample_hash sample_ed [] (keyless_sign sample_hash sample_signer tx (si_session sample_sign_in) sig)
            \<lparr>kx_config = Some sample_keyless, kx_now = 60\<rparr> = Ok ())"
proof -
  have claims: "jwt_claim sample_jwt (str_bytes k) = Ok [48]" if "k \<in> {''nonce'', ''iss'', ''aud'', ''sub''}" for k
    using that by (auto simp: jwt_claim_def sample_jwt_def str_bytes_def)
  have "\<exists>h sig. assemble [] genesis_codecs sample_wallet sample_signer (kc_parse_ok sample_keyless) sample_jwt sample_sign_in 9 (Some h) = Ok sig"
  proof (rule assemble_succeeds)
    show "jwt_claim sample_jwt (str_bytes ''iss'') = Ok [48]" "jwt_claim sample_jwt (str_bytes ''aud'') = Ok [48]"
      "jwt_claim sample_jwt (si_uid_key sample_sign_in) = Ok [48]" using claims by (simp_all add: sample_sign_in_def)
    show "\<exists>own. session_nonce [] sample_wallet sample_signer (si_session sample_sign_in) = Ok own \<and> jwt_claim sample_jwt (str_bytes ''nonce'') = Ok own"
      using oauth_nonce_total [of "[]" "session_public_key sample_signer (si_session sample_sign_in)"
          "se_exp_date_secs (si_session sample_sign_in)" "se_blinder (si_session sample_sign_in)"]
      by (auto simp: session_nonce_def claims sample_wallet_def)
    show "tc_b64url_decode genesis_codecs (si_jwk_n sample_sign_in) = Some (replicate 256 0)"
      "length (replicate 256 (0 :: u8)) = RSA_MODULUS_BYTES"
      by (simp_all add: genesis_codecs_def sample_sign_in_def RSA_MODULUS_BYTES_def)
  qed (simp_all add: sample_sign_in_def str_bytes_def sample_jwt_def genesis_codecs_def sample_keyless_def MAX_ISS_VAL_BYTES_def
      MAX_AUD_VAL_BYTES_def MAX_UID_KEY_BYTES_def MAX_UID_VAL_BYTES_def MAX_JWT_HEADER_B64_BYTES_def RSA_MODULUS_BYTES_def)
  then obtain h sig where a: "assemble [] genesis_codecs sample_wallet sample_signer (kc_parse_ok sample_keyless) sample_jwt sample_sign_in 9 (Some h) = Ok sig"
    by blast
  have "authenticate sample_hash sample_ed [] (keyless_sign sample_hash sample_signer tx (si_session sample_sign_in) sig)
      \<lparr>kx_config = Some sample_keyless, kx_now = 60\<rparr> = Ok ()" for tx
    using keyless_sign_in_authenticates [OF sample_signs a, of 60 sample_hash tx]
    by (simp add: sample_keyless_def sample_sign_in_def session_from_parts_def)
  with a show ?thesis by blast
qed

end
