(* ===== verification/Bindings.thy ===== *)
theory Bindings
  imports Wallet
begin

text \<open>
  The browser bindings (\<open>sena-wasm\<close>): every function over the wallet's, with values crossing as strings:
  hexadecimal for bytes, decimal for amounts, JSON for structures.  Serde's text of JSON values,
  transactions and signatures is the parameter \<open>js_codecs\<close>; reading JSON text is the wallet's.
\<close>

section \<open>Strings in and out\<close>

datatype js_error =
    BadJson
  | BadField bytes
  | NotHexBytes bytes nat
  | NotWhole bytes
  | BadAddress hash_parse_error
  | JsClient client_error
  | JsKeyless keyless_error
  | JsCompile compile_error
  | NeedsRandomBytes
  | BadTransaction

record js_codecs =
  js_text :: "json \<Rightarrow> bytes"
  js_tx :: "transaction \<Rightarrow> bytes option"
  js_read_tx :: "bytes \<Rightarrow> transaction option"
  js_sig :: "keyless_signature \<Rightarrow> bytes option"
  js_read_sig :: "bytes \<Rightarrow> keyless_signature option"

definition UID_KEY :: bytes where
  "UID_KEY = str_bytes ''sub''"

definition js_bytes :: "text_codecs \<Rightarrow> nat \<Rightarrow> bytes \<Rightarrow> bytes \<Rightarrow> (js_error, bytes) result" where
  "js_bytes tc n s what =
     (case tc_hex_decode tc (trim_0x (trim_text s)) of
        Some b \<Rightarrow> if length b = n then Ok b else Err (NotHexBytes what n)
      | None \<Rightarrow> Err (NotHexBytes what n))"

definition js_amount :: "bytes \<Rightarrow> bytes \<Rightarrow> (js_error, u128) result" where
  "js_amount s what = ok_or (u128_from_str (trim_text s)) (NotWhole what)"

definition js_address :: "text_codecs \<Rightarrow> bytes \<Rightarrow> (js_error, l2address) result" where
  "js_address tc s = map_err BadAddress (address_from_hex tc (trim_text s))"

text \<open>\<open>json_of\<close>: what cannot be written becomes the empty string.\<close>

definition json_of :: "('a \<Rightarrow> bytes option) \<Rightarrow> 'a \<Rightarrow> bytes" where
  "json_of write v = (case write v of Some s \<Rightarrow> s | None \<Rightarrow> [])"

section \<open>Sessions\<close>

definition session_from :: "text_codecs \<Rightarrow> wallet_codecs \<Rightarrow> bytes \<Rightarrow> (js_error, keyless_session) result" where
  "session_from tc wc text_of =
     and_then (ok_or (wc_json wc text_of) BadJson) (\<lambda>v.
     and_then (ok_or (as_str (json_at v (str_bytes ''secret''))) (BadField (str_bytes ''secret''))) (\<lambda>s.
     and_then (js_bytes tc 32 s (str_bytes ''session secret'')) (\<lambda>secret.
     and_then (ok_or (as_u64 (json_at v (str_bytes ''exp_date_secs''))) (BadField (str_bytes ''exp_date_secs''))) (\<lambda>expiry.
     and_then (ok_or (as_str (json_at v (str_bytes ''blinder''))) (BadField (str_bytes ''blinder''))) (\<lambda>b.
     and_then (js_bytes tc BYTES_PER_SCALAR b (str_bytes ''session blinder'')) (\<lambda>blinder.
       Ok (session_from_parts (from_be secret) expiry blinder)))))))"

definition session_fields :: "width_constants list \<Rightarrow> text_codecs \<Rightarrow> wallet_codecs \<Rightarrow> signer \<Rightarrow> keyless_session \<Rightarrow> (keyless_error, json) result" where
  "session_fields pcs tc wc sg s =
     and_then (session_nonce pcs wc sg s) (\<lambda>nonce_text.
       Ok (JObject [(str_bytes ''secret'', JString (tc_hex_encode tc (to_be (se_secret s)))),
         (str_bytes ''blinder'', JString (tc_hex_encode tc (se_blinder s))),
         (str_bytes ''exp_date_secs'', JPosInt (se_exp_date_secs s)),
         (str_bytes ''public_key'', JString (tc_hex_encode tc (to_be (session_public_key sg s)))),
         (str_bytes ''nonce'', JString nonce_text)]))"

definition session_json :: "width_constants list \<Rightarrow> text_codecs \<Rightarrow> wallet_codecs \<Rightarrow> js_codecs \<Rightarrow> signer \<Rightarrow> keyless_session \<Rightarrow> (js_error, bytes) result" where
  "session_json pcs tc wc js sg s = and_then (map_err JsKeyless (session_fields pcs tc wc sg s)) (\<lambda>v. Ok (js_text js v))"

definition new_session ::
    "width_constants list \<Rightarrow> text_codecs \<Rightarrow> wallet_codecs \<Rightarrow> js_codecs \<Rightarrow> signer \<Rightarrow> u64 \<Rightarrow> bytes \<Rightarrow> (js_error, bytes) result" where
  "new_session pcs tc wc js sg exp_date_secs random =
     (if length random \<noteq> 32 + BYTES_PER_SCALAR then Err NeedsRandomBytes
      else session_json pcs tc wc js sg (session_from_parts (from_be (take 32 random)) exp_date_secs (drop 32 random)))"

section \<open>Signing in\<close>

definition decode_jwt :: "text_codecs \<Rightarrow> wallet_codecs \<Rightarrow> js_codecs \<Rightarrow> bytes \<Rightarrow> (js_error, bytes) result" where
  "decode_jwt tc wc js token =
     and_then (map_err JsClient (jwt_parse tc wc token)) (\<lambda>j.
     and_then (ok_or (wc_json wc (jw_header_json j)) BadJson) (\<lambda>header.
       Ok (js_text js (JObject [(str_bytes ''header'', header), (str_bytes ''claims'', jw_claims j)]))))"

definition js_pepper_request :: "text_codecs \<Rightarrow> wallet_codecs \<Rightarrow> js_codecs \<Rightarrow> signer \<Rightarrow> bytes \<Rightarrow> bytes \<Rightarrow> (js_error, bytes) result" where
  "js_pepper_request tc wc js sg token session =
     and_then (session_from tc wc session) (\<lambda>s. Ok (js_text js (pepper_request tc sg token s UID_KEY)))"

definition js_parse_pepper :: "text_codecs \<Rightarrow> wallet_codecs \<Rightarrow> bytes \<Rightarrow> (js_error, bytes) result" where
  "js_parse_pepper tc wc response =
     and_then (ok_or (wc_json wc response) BadJson) (\<lambda>v.
     and_then (map_err JsClient (parse_pepper_response tc v)) (\<lambda>p. Ok (tc_hex_encode tc p)))"

definition js_keyless_address ::
    "hasher \<Rightarrow> width_constants list \<Rightarrow> text_codecs \<Rightarrow> wallet_codecs \<Rightarrow> bytes \<Rightarrow> bytes \<Rightarrow> (js_error, bytes) result" where
  "js_keyless_address H pcs tc wc token pepper =
     and_then (map_err JsClient (jwt_parse tc wc token)) (\<lambda>j.
     and_then (js_bytes tc PEPPER_BYTES pepper (str_bytes ''pepper'')) (\<lambda>p.
     and_then (map_err JsClient (address_of H pcs j p UID_KEY)) (\<lambda>a. Ok (address_to_hex tc a))))"

definition js_sign_in ::
    "text_codecs \<Rightarrow> keyless_session \<Rightarrow> bytes \<Rightarrow> u64 \<Rightarrow> bytes \<Rightarrow> bytes \<Rightarrow> (js_error, sign_in) result" where
  "js_sign_in tc session pepper exp_horizon_secs jwk_n extra =
     and_then (js_bytes tc PEPPER_BYTES pepper (str_bytes ''pepper'')) (\<lambda>p.
       Ok \<lparr>si_session = session, si_pepper = p, si_uid_key = UID_KEY, si_extra_field = (if extra = [] then None else Some extra),
         si_exp_horizon_secs = exp_horizon_secs, si_jwk_n = jwk_n\<rparr>)"

definition js_prover_request ::
    "text_codecs \<Rightarrow> wallet_codecs \<Rightarrow> js_codecs \<Rightarrow> signer \<Rightarrow> bytes \<Rightarrow> bytes \<Rightarrow> bytes \<Rightarrow> u64 \<Rightarrow> bytes \<Rightarrow> (js_error, bytes) result" where
  "js_prover_request tc wc js sg token session pepper exp_horizon_secs extra =
     and_then (session_from tc wc session) (\<lambda>s.
     and_then (js_sign_in tc s pepper exp_horizon_secs [] extra) (\<lambda>si.
       Ok (js_text js (prover_request tc sg token si))))"

definition assemble_signature ::
    "width_constants list \<Rightarrow> text_codecs \<Rightarrow> wallet_codecs \<Rightarrow> js_codecs \<Rightarrow> signer \<Rightarrow> (bytes128 \<Rightarrow> bool) \<Rightarrow> bytes \<Rightarrow> bytes \<Rightarrow> bytes \<Rightarrow> u64
     \<Rightarrow> bytes \<Rightarrow> bytes \<Rightarrow> bytes \<Rightarrow> (js_error, bytes) result" where
  "assemble_signature pcs tc wc js sg parse_ok token session pepper exp_horizon_secs jwk_n extra response =
     and_then (session_from tc wc session) (\<lambda>s.
     and_then (ok_or (wc_json wc response) BadJson) (\<lambda>v.
     and_then (map_err JsClient (parse_prover_response tc wc v)) (\<lambda>proved.
     and_then (map_err JsClient (jwt_parse tc wc token)) (\<lambda>j.
     and_then (js_sign_in tc s pepper exp_horizon_secs jwk_n extra) (\<lambda>si.
     and_then (map_err JsClient (assemble pcs tc wc sg parse_ok j si (pr_proof proved) (Some (pr_public_inputs_hash proved)))) (\<lambda>sig.
       Ok (json_of (js_sig js) sig)))))))"

definition signature_address :: "hasher \<Rightarrow> text_codecs \<Rightarrow> js_codecs \<Rightarrow> bytes \<Rightarrow> (js_error, bytes) result" where
  "signature_address H tc js signature =
     and_then (ok_or (js_read_sig js signature) BadJson) (\<lambda>sig. Ok (address_to_hex tc (keyless_address H sig)))"

section \<open>Transactions\<close>

definition build_transfer ::
    "hasher \<Rightarrow> text_codecs \<Rightarrow> js_codecs \<Rightarrow> bytes \<Rightarrow> u64 \<Rightarrow> bytes \<Rightarrow> u32 \<Rightarrow> bytes \<Rightarrow> u32 \<Rightarrow> bytes \<Rightarrow> u64 \<Rightarrow> bytes \<Rightarrow> bytes \<Rightarrow> (js_error, bytes) result" where
  "build_transfer H tc js sender n to asset amount_units fee_asset fee_rate fee_intrinsic_gas max_fee_per_gas tip =
     and_then (js_amount fee_rate (str_bytes ''fee rate'')) (\<lambda>rate.
     and_then (js_amount max_fee_per_gas (str_bytes ''max fee per gas'')) (\<lambda>max_fee.
     and_then (js_amount tip (str_bytes ''tip'')) (\<lambda>priority.
     and_then (js_address tc sender) (\<lambda>from_address.
     and_then (js_address tc to) (\<lambda>to_address.
     and_then (js_amount amount_units (str_bytes ''amount'')) (\<lambda>units.
     and_then (map_err JsCompile (transfer H from_address n to_address asset units
         \<lparr>fq_asset = fee_asset, fq_rate = rate, fq_intrinsic_gas = fee_intrinsic_gas, fq_max_fee_per_gas = max_fee,
           fq_max_priority_fee_per_gas = priority\<rparr>)) (\<lambda>tx.
       Ok (json_of (js_tx js) tx))))))))"

definition tx_from :: "js_codecs \<Rightarrow> bytes \<Rightarrow> (js_error, transaction) result" where
  "tx_from js s = ok_or (js_read_tx js s) BadTransaction"

definition js_sign_keyless ::
    "hasher \<Rightarrow> text_codecs \<Rightarrow> wallet_codecs \<Rightarrow> js_codecs \<Rightarrow> signer \<Rightarrow> bytes \<Rightarrow> bytes \<Rightarrow> bytes \<Rightarrow> (js_error, bytes) result" where
  "js_sign_keyless H tc wc js sg tx session signature =
     and_then (ok_or (js_read_sig js signature) BadJson) (\<lambda>sig.
     and_then (tx_from js tx) (\<lambda>t.
     and_then (session_from tc wc session) (\<lambda>s.
       Ok (json_of (js_tx js) (keyless_sign H sg t s sig)))))"

definition js_sign_ed25519 :: "hasher \<Rightarrow> text_codecs \<Rightarrow> js_codecs \<Rightarrow> signer \<Rightarrow> bytes \<Rightarrow> bytes \<Rightarrow> (js_error, bytes) result" where
  "js_sign_ed25519 H tc js sg tx secret =
     and_then (tx_from js tx) (\<lambda>t.
     and_then (js_bytes tc 32 secret (str_bytes ''secret key'')) (\<lambda>k.
       Ok (json_of (js_tx js) (sign_ed25519 H sg t (from_be k)))))"

definition js_ed25519_address :: "text_codecs \<Rightarrow> signer \<Rightarrow> bytes \<Rightarrow> (js_error, bytes) result" where
  "js_ed25519_address tc sg secret =
     and_then (js_bytes tc 32 secret (str_bytes ''secret key'')) (\<lambda>k. Ok (address_to_hex tc (ed25519_address sg (from_be k))))"

definition transaction_hash :: "hasher \<Rightarrow> text_codecs \<Rightarrow> js_codecs \<Rightarrow> bytes \<Rightarrow> (js_error, bytes) result" where
  "transaction_hash H tc js tx = and_then (tx_from js tx) (\<lambda>t. Ok (hash_to_hex tc (tx_hash H t)))"

definition submit_request :: "wallet_codecs \<Rightarrow> js_codecs \<Rightarrow> bytes \<Rightarrow> (js_error, bytes) result" where
  "submit_request wc js tx =
     and_then (ok_or (wc_json wc tx) BadJson) (\<lambda>v.
     and_then (tx_from js tx) (\<lambda>_.
       Ok (js_text js (JObject [(str_bytes ''method'', JString (str_bytes ''sena_submitTransaction'')), (str_bytes ''params'', v)]))))"

section \<open>What crosses the boundary comes back\<close>

text \<open>
  What the code relies on: the hexadecimal text of bytes has neither blanks around it nor a prefix, and
  serde reads back the values, transactions and signatures it writes.
\<close>

definition hex_plain :: "text_codecs \<Rightarrow> bool" where
  "hex_plain tc \<longleftrightarrow> hex_reads_back tc \<and> (\<forall>bs. trim_text (tc_hex_encode tc bs) = tc_hex_encode tc bs \<and> trim_0x (tc_hex_encode tc bs) = tc_hex_encode tc bs
     \<and> trim_text (str_bytes ''0x'' @ tc_hex_encode tc bs) = str_bytes ''0x'' @ tc_hex_encode tc bs)"

definition js_reads_back :: "wallet_codecs \<Rightarrow> js_codecs \<Rightarrow> bool" where
  "js_reads_back wc js \<longleftrightarrow> (\<forall>v. wc_json wc (js_text js v) = Some v)
     \<and> (\<forall>t. \<exists>s. js_tx js t = Some s \<and> js_read_tx js s = Some t) \<and> (\<forall>g. \<exists>s. js_sig js g = Some s \<and> js_read_sig js s = Some g)"

lemma js_bytes_hex: "hex_plain tc \<Longrightarrow> length bs = n \<Longrightarrow> js_bytes tc n (tc_hex_encode tc bs) what = Ok bs"
  by (simp add: js_bytes_def hex_plain_def hex_reads_back_def)

lemma js_address_hex: "hex_plain tc \<Longrightarrow> js_address tc (address_to_hex tc a) = Ok a"
  using hex_text_round_trip(2) [of tc a] by (simp add: js_address_def hex_plain_def address_to_hex_def)

lemma json_of_read: "js_reads_back wc js \<Longrightarrow> js_read_tx js (json_of (js_tx js) t) = Some t"
  unfolding js_reads_back_def json_of_def by (metis option.simps(5))

text \<open>A session the wallet stored is the session it signs with later.\<close>

lemma session_round_trip:
  assumes "hex_plain tc" "js_reads_back wc js" "length (se_blinder s) = BYTES_PER_SCALAR" "session_json pcs tc wc js sg s = Ok t"
  shows "session_from tc wc t = Ok s"
proof -
  from assms(4) obtain nonce_text where t: "t = js_text js (JObject [(str_bytes ''secret'', JString (tc_hex_encode tc (to_be (se_secret s)))),
      (str_bytes ''blinder'', JString (tc_hex_encode tc (se_blinder s))), (str_bytes ''exp_date_secs'', JPosInt (se_exp_date_secs s)),
      (str_bytes ''public_key'', JString (tc_hex_encode tc (to_be (session_public_key sg s)))), (str_bytes ''nonce'', JString nonce_text)])"
    by (auto simp: session_json_def session_fields_def and_then_Ok_iff map_err_Ok_iff)
  have names: "str_bytes ''exp_date_secs'' \<noteq> str_bytes ''secret''" "str_bytes ''exp_date_secs'' \<noteq> str_bytes ''blinder''"
    "str_bytes ''blinder'' \<noteq> str_bytes ''secret''" by (simp_all add: str_bytes_def)
  with assms(2) names js_bytes_hex [OF assms(1), of "to_be (se_secret s)" 32] js_bytes_hex [OF assms(1,3)] show ?thesis
    by (simp add: session_from_def t js_reads_back_def session_from_parts_def from_be_to_be)
qed

text \<open>A transfer built and signed in the browser for the address of a key is accepted on chain.\<close>

lemma browser_transfer_authenticates:
  assumes c: "hex_plain tc" "js_reads_back wc js" "signs ed sg"
    and b: "build_transfer H tc js (address_to_hex tc (ed25519_address sg secret)) n (address_to_hex tc to) asset (to_decimal amount) fee_asset
        (to_decimal rate) gas (to_decimal max_fee) (to_decimal tip) = Ok built"
    and s: "js_sign_ed25519 H tc js sg built (tc_hex_encode tc (to_be secret)) = Ok sent"
  shows "\<exists>tx. js_read_tx js sent = Some tx \<and> authenticate H ed pcs tx ctx = Ok () \<and> tx_sender tx = ed25519_address sg secret"
proof -
  have k: "js_bytes tc 32 (tc_hex_encode tc (to_be secret)) what = Ok (to_be secret)" for what
    using js_bytes_hex [OF c(1), of "to_be secret" 32] by simp
  from b obtain t where t: "built = json_of (js_tx js) t" by (auto simp: build_transfer_def and_then_Ok_iff)
  with s have "sent = json_of (js_tx js) (sign_ed25519 H sg t secret)"
    by (auto simp: js_sign_ed25519_def tx_from_def json_of_read [OF c(2)] and_then_Ok_iff k from_be_to_be)
  then have "js_read_tx js sent = Some (sign_ed25519 H sg t secret)" by (simp add: json_of_read [OF c(2)])
  with signs_verifies [OF c(3)] show ?thesis
    by (simp add: sign_ed25519_def Let_def authenticate_def ed25519_address_def)
qed

end
