(* ===== verification/Command.thy ===== *)
theory Command
  imports Server Bindings
begin

text \<open>
  The commands of the node's binary (\<open>sena_node.rs\<close>): writing a genesis file, showing a verifier's
  starting point, sending a transfer and asking a node.  Starting a node is in \<open>Store\<close> and
  running it in \<open>Server\<close>.  A request to a node is the parameter \<open>call\<close>; what is printed is not kept.
\<close>

section \<open>Writing genesis\<close>

datatype command_error =
    FundFormat bytes
  | FundAddress hash_parse_error
  | FundAmount bytes
  | NothingToConfigure
  | CommandGenesis genesis_error
  | CommandStore store_error
  | CommandNoGenesis bytes
  | SecretNotHex
  | SecretLength
  | BadRecipient hash_parse_error
  | NoQuote u32
  | QuoteTooLarge
  | CommandCompile compile_error
  | NotSerialised
  | CallFailed

text \<open>\<open>str::rsplit_once\<close> at a character of one byte.\<close>

definition rsplit_once :: "u8 \<Rightarrow> bytes \<Rightarrow> (bytes \<times> bytes) option" where
  "rsplit_once c s = map_option (\<lambda>(a, b). (rev b, rev a)) (split_once c (rev s))"

definition fund_entry :: "text_codecs \<Rightarrow> bytes \<Rightarrow> (command_error, allocation) result" where
  "fund_entry tc entry =
     and_then (ok_or (rsplit_once 58 entry) (FundFormat entry)) (\<lambda>(a, m).
     and_then (map_err FundAddress (address_from_hex tc (trim_text a))) (\<lambda>address.
     and_then (ok_or (u128_from_str (trim_text m)) (FundAmount m)) (\<lambda>amount.
       Ok \<lparr>al_address = address, al_asset = 1, al_amount = amount\<rparr>)))"

fun fund_entries :: "text_codecs \<Rightarrow> bytes list \<Rightarrow> (command_error, allocation list) result" where
  "fund_entries tc [] = Ok []"
| "fund_entries tc (entry # fund) =
     and_then (fund_entry tc entry) (\<lambda>a. and_then (fund_entries tc fund) (\<lambda>as. Ok (a # as)))"

definition genesis_command ::
    "hasher \<Rightarrow> ed25519 \<Rightarrow> text_codecs \<Rightarrow> width_constants list \<Rightarrow> store_json \<Rightarrow> bytes \<Rightarrow> bool \<Rightarrow> bytes list \<Rightarrow> (disk, command_error, hash256) act" where
  "genesis_command H ed tc pcs sj data_dir dev fund =
     bind_act (give (fund_entries tc fund)) (\<lambda>allocations.
     if \<not> dev \<and> allocations = [] then give (Err NothingToConfigure)
     else
       let config = genesis_dev allocations in
       bind_act (give (map_err CommandGenesis (genesis_validate tc pcs config))) (\<lambda>_.
       bind_act (give (map_err CommandGenesis (genesis_root H ed tc pcs config))) (\<lambda>root.
       bind_act (map_err_act CommandStore (store_open data_dir)) (\<lambda>dir.
       bind_act (map_err_act CommandStore (save_genesis sj dir config)) (\<lambda>_.
         give (Ok root))))))"

definition verify_command ::
    "hasher \<Rightarrow> ed25519 \<Rightarrow> text_codecs \<Rightarrow> width_constants list \<Rightarrow> store_json \<Rightarrow> bytes \<Rightarrow> (disk, command_error, hash256) act" where
  "verify_command H ed tc pcs sj data_dir =
     bind_act (map_err_act CommandStore (store_open data_dir)) (\<lambda>dir.
     bind_act (map_err_act CommandStore (load_genesis sj dir)) (\<lambda>found.
     bind_act (give (ok_or found (CommandNoGenesis data_dir))) (\<lambda>config.
       give (and_then (map_err CommandGenesis (build_state H ed tc pcs config)) (\<lambda>state. Ok (mt_root state))))))"

section \<open>Sending and asking\<close>

record cli_quote =
  cq_rate :: u128
  cq_intrinsic_gas :: u64
  cq_base_fee_per_gas :: u128
  cq_max_fee_per_gas :: u128

text \<open>A number of a quote: decimal text, or a JSON number that fits 64 bits.\<close>

definition quote_number :: "json \<Rightarrow> u32 \<Rightarrow> bytes \<Rightarrow> (command_error, u128) result" where
  "quote_number response asset k =
     (case Option.bind (as_str (json_at response k)) u128_from_str of
        Some v \<Rightarrow> Ok v
      | None \<Rightarrow> ok_or (map_option ucast (as_u64 (json_at response k))) (NoQuote asset))"

definition gas_quote_of :: "(json \<Rightarrow> (command_error, json) result) \<Rightarrow> u32 \<Rightarrow> (command_error, cli_quote) result" where
  "gas_quote_of call asset =
     and_then (call (JObject [(str_bytes ''method'', JString (str_bytes ''sena_gasPrice'')),
         (str_bytes ''params'', JObject [(str_bytes ''asset'', JPosInt (ucast asset))])])) (\<lambda>response.
     and_then (quote_number response asset (str_bytes ''rate'')) (\<lambda>rate.
     and_then (quote_number response asset (str_bytes ''intrinsic_gas'')) (\<lambda>gas.
     and_then (if unat gas < 2 ^ 64 then Ok (ucast gas) else Err QuoteTooLarge) (\<lambda>intrinsic.
     and_then (quote_number response asset (str_bytes ''base_fee_per_gas'')) (\<lambda>base.
     and_then (quote_number response asset (str_bytes ''suggested_max_fee_per_gas'')) (\<lambda>max_fee.
       Ok \<lparr>cq_rate = rate, cq_intrinsic_gas = intrinsic, cq_base_fee_per_gas = base, cq_max_fee_per_gas = max_fee\<rparr>))))))"

record transfer_args =
  ta_to :: bytes
  ta_amount :: u128
  ta_nonce :: u64
  ta_asset :: u32
  ta_fee_asset :: u32
  ta_tip :: u128

definition secret_key :: "text_codecs \<Rightarrow> bytes \<Rightarrow> (command_error, bytes32) result" where
  "secret_key tc secret =
     and_then (ok_or (tc_hex_decode tc (trim_text secret)) SecretNotHex) (\<lambda>raw.
       if length raw = 32 then Ok (from_be raw) else Err SecretLength)"

definition send_transaction ::
    "hasher \<Rightarrow> text_codecs \<Rightarrow> signer \<Rightarrow> (json \<Rightarrow> (command_error, json) result) \<Rightarrow> bytes \<Rightarrow> transfer_args \<Rightarrow> (command_error, transaction) result" where
  "send_transaction H tc sg call secret t =
     and_then (secret_key tc secret) (\<lambda>key.
     and_then (map_err BadRecipient (address_from_hex tc (trim_text (ta_to t)))) (\<lambda>recipient.
     and_then (gas_quote_of call (ta_fee_asset t)) (\<lambda>quote.
     let tx = \<lparr>tx_sender = sg_public sg key, tx_nonce = ta_nonce t, tx_fee_asset = ta_fee_asset t, tx_fee_rate = cq_rate quote,
           tx_fee_intrinsic_gas = cq_intrinsic_gas quote, tx_gas_limit = 0, tx_max_fee_per_gas = cq_max_fee_per_gas quote,
           tx_max_priority_fee_per_gas = ta_tip t, tx_payload = Transfer recipient (ta_asset t) (ta_amount t),
           tx_authenticator = Ed25519 (sg_public sg key) 0\<rparr> in
     and_then (map_err CommandCompile (gas_required H tx)) (\<lambda>gas.
     let tx1 = tx\<lparr>tx_gas_limit := gas\<rparr> in
       Ok (tx1\<lparr>tx_authenticator := Ed25519 (sg_public sg key) (sg_sign sg key (to_be (signing_digest H tx1)))\<rparr>)))))"

text \<open>The submission: the hash it prints and the node's answer.\<close>

definition send ::
    "hasher \<Rightarrow> text_codecs \<Rightarrow> signer \<Rightarrow> (transaction \<Rightarrow> json option) \<Rightarrow> (json \<Rightarrow> (command_error, json) result) \<Rightarrow> bytes \<Rightarrow> transfer_args
     \<Rightarrow> (command_error, hash256 \<times> json) result" where
  "send H tc sg submit_json call secret t =
     and_then (send_transaction H tc sg call secret t) (\<lambda>tx.
     and_then (ok_or (submit_json tx) NotSerialised) (\<lambda>body.
     and_then (call body) (\<lambda>response. Ok (tx_hash H tx, response))))"

datatype cli_query =
    QueryInfo
  | QueryAccount bytes
  | QueryBlock u64
  | QueryConfirmation bytes
  | QueryProof bytes "u64 option"

definition rpc_call :: "string \<Rightarrow> (bytes \<times> json) list \<Rightarrow> json" where
  "rpc_call m params = JObject [(str_bytes ''method'', JString (str_bytes m)), (str_bytes ''params'', JObject params)]"

fun query_body :: "text_codecs \<Rightarrow> cli_query \<Rightarrow> (command_error, json) result" where
  "query_body tc QueryInfo = Ok (JObject [(str_bytes ''method'', JString (str_bytes ''sena_getChainInfo''))])"
| "query_body tc (QueryAccount address) =
     and_then (map_err BadRecipient (address_from_hex tc (trim_text address))) (\<lambda>a.
       Ok (rpc_call ''sena_getAccount'' [(str_bytes ''address'', JString (address_to_hex tc a))]))"
| "query_body tc (QueryBlock height) = Ok (rpc_call ''sena_getBlock'' [(str_bytes ''height'', JPosInt height)])"
| "query_body tc (QueryConfirmation h) = Ok (rpc_call ''sena_getConfirmation'' [(str_bytes ''hash'', JString h)])"
| "query_body tc (QueryProof address height) =
     and_then (map_err BadRecipient (address_from_hex tc (trim_text address))) (\<lambda>a.
       Ok (rpc_call ''sena_getAccountProof'' ((str_bytes ''address'', JString (address_to_hex tc a))
         # (case height of Some h \<Rightarrow> [(str_bytes ''height'', JPosInt h)] | None \<Rightarrow> []))))"

section \<open>Properties\<close>

text \<open>
  The transaction the command line signs is the wallet's: the transfer of its library, built for the
  address of the key from the quote, and signed with the key.
\<close>

lemma send_is_wallet:
  assumes "send_transaction H tc sg call secret t = Ok tx"
  shows "\<exists>key recipient quote built. secret_key tc secret = Ok key \<and> address_from_hex tc (trim_text (ta_to t)) = Ok recipient
    \<and> gas_quote_of call (ta_fee_asset t) = Ok quote
    \<and> transfer H (ed25519_address sg key) (ta_nonce t) recipient (ta_asset t) (ta_amount t)
        \<lparr>fq_asset = ta_fee_asset t, fq_rate = cq_rate quote, fq_intrinsic_gas = cq_intrinsic_gas quote,
          fq_max_fee_per_gas = cq_max_fee_per_gas quote, fq_max_priority_fee_per_gas = ta_tip t\<rparr> = Ok built
    \<and> tx = sign_ed25519 H sg built key"
proof -
  from assms obtain key recipient quote gas where
    k: "secret_key tc secret = Ok key" "address_from_hex tc (trim_text (ta_to t)) = Ok recipient" "gas_quote_of call (ta_fee_asset t) = Ok quote"
    and g: "gas_required H \<lparr>tx_sender = sg_public sg key, tx_nonce = ta_nonce t, tx_fee_asset = ta_fee_asset t, tx_fee_rate = cq_rate quote,
           tx_fee_intrinsic_gas = cq_intrinsic_gas quote, tx_gas_limit = 0, tx_max_fee_per_gas = cq_max_fee_per_gas quote,
           tx_max_priority_fee_per_gas = ta_tip t, tx_payload = Transfer recipient (ta_asset t) (ta_amount t),
           tx_authenticator = Ed25519 (sg_public sg key) 0\<rparr> = Ok gas"
    and tx: "tx = (let tx1 = \<lparr>tx_sender = sg_public sg key, tx_nonce = ta_nonce t, tx_fee_asset = ta_fee_asset t, tx_fee_rate = cq_rate quote,
           tx_fee_intrinsic_gas = cq_intrinsic_gas quote, tx_gas_limit = gas, tx_max_fee_per_gas = cq_max_fee_per_gas quote,
           tx_max_priority_fee_per_gas = ta_tip t, tx_payload = Transfer recipient (ta_asset t) (ta_amount t),
           tx_authenticator = Ed25519 (sg_public sg key) 0\<rparr>
         in tx1\<lparr>tx_authenticator := Ed25519 (sg_public sg key) (sg_sign sg key (to_be (signing_digest H tx1)))\<rparr>)"
    by (auto simp: send_transaction_def and_then_Ok_iff map_err_Ok_iff Let_def)
  define base where "base = \<lparr>tx_sender = sg_public sg key, tx_nonce = ta_nonce t, tx_fee_asset = ta_fee_asset t, tx_fee_rate = cq_rate quote,
    tx_fee_intrinsic_gas = cq_intrinsic_gas quote, tx_gas_limit = 0, tx_max_fee_per_gas = cq_max_fee_per_gas quote,
    tx_max_priority_fee_per_gas = ta_tip t, tx_payload = Transfer recipient (ta_asset t) (ta_amount t), tx_authenticator = Ed25519 0 0\<rparr>"
  have "gas_required H base = Ok gas" using g unfolding gas_required_def gas_used_def by (simp add: base_def)
  then have "transfer H (ed25519_address sg key) (ta_nonce t) recipient (ta_asset t) (ta_amount t)
      \<lparr>fq_asset = ta_fee_asset t, fq_rate = cq_rate quote, fq_intrinsic_gas = cq_intrinsic_gas quote,
        fq_max_fee_per_gas = cq_max_fee_per_gas quote, fq_max_priority_fee_per_gas = ta_tip t\<rparr> = Ok (base\<lparr>tx_gas_limit := gas\<rparr>)"
    unfolding base_def by (simp add: transfer_def ed25519_address_def)
  moreover have "tx = sign_ed25519 H sg (base\<lparr>tx_gas_limit := gas\<rparr>) key"
    by (simp add: tx base_def sign_ed25519_def Let_def signing_digest_def tx_signing_preimage_def)
  ultimately show ?thesis using k by blast
qed

text \<open>What the genesis command leaves on the disk.\<close>

lemma genesis_command_Ok:
  assumes "genesis_command H ed tc pcs sj dir dev fund d = (Ok root, d')"
  obtains allocations gen bs where "fund_entries tc fund = Ok allocations" "build_state H ed tc pcs (genesis_dev allocations) = Ok gen"
    "mt_root gen = root" "sj_genesis sj (genesis_dev allocations) = Some bs" "dk_files d' (store_file dir GenesisFile) = Some bs"
    "dk_files d' (store_file dir StateFile) = dk_files d (store_file dir StateFile)"
proof -
  from assms obtain allocations d1 where a: "fund_entries tc fund = Ok allocations"
    "genesis_root H ed tc pcs (genesis_dev allocations) = Ok root" "store_open dir d = (Ok dir, d1)"
    "save_genesis sj dir (genesis_dev allocations) d1 = (Ok (), d')"
    unfolding genesis_command_def Let_def store_open_def
    by (auto simp: bind_act_def give_def map_err_act_def map_err_Ok_iff split: result.splits prod.splits if_splits)
  have d1: "dk_files d1 = dk_files d"
    using a(3) by (auto simp: store_open_def bind_act_def give_def map_err_act_def fs_create_dir_all_def split: result.splits)
  from a(4) obtain bs where bs: "sj_genesis sj (genesis_dev allocations) = Some bs" "store_write dir GenesisFile bs d1 = (Ok (), d')"
    by (auto simp: save_genesis_def bind_act_def give_def ok_or_Ok_iff split: result.splits)
  from a(2) obtain gen where gen: "build_state H ed tc pcs (genesis_dev allocations) = Ok gen" "mt_root gen = root"
    by (auto simp: genesis_root_def and_then_Ok_iff)
  have "dk_files d' (store_file dir GenesisFile) = Some bs" by (rule kept_files.put_Ok [OF bs(2)])
  moreover have "dk_files d' (store_file dir StateFile) = dk_files d (store_file dir StateFile)"
    using kept_files.put_other [OF bs(2), of StateFile] d1 by simp
  ultimately show thesis using that a(1) gen bs(1) by blast
qed

text \<open>
  C30.  A new chain starts where its genesis says.  After the genesis command has succeeded in a directory without
  saved state, starting the node gives a sequencer on exactly the state of the funded accounts, with no
  block, whose root is the one the command printed, and a verifier pointed at the directory
  computes the same root.
\<close>

theorem genesis_then_start:
  assumes cmd: "genesis_command H ed tc pcs sj dir dev fund d = (Ok root, d')" and json: "json_reads_back sj"
    and absent: "dk_files d (store_file dir StateFile) = None"
  shows "\<exists>allocations gen sq. fund_entries tc fund = Ok allocations \<and> build_state H ed tc pcs (genesis_dev allocations) = Ok gen
    \<and> mt_root gen = root \<and> start_node H ed tc pcs sj keys dir None (calm d') = (Ok sq, calm d') \<and> sq_state sq = gen \<and> sq_blocks sq = []
    \<and> verify_command H ed tc pcs sj dir (calm d') = (Ok root, calm d')"
proof -
  obtain allocations gen bs where g: "fund_entries tc fund = Ok allocations" "build_state H ed tc pcs (genesis_dev allocations) = Ok gen"
    "mt_root gen = root" "sj_genesis sj (genesis_dev allocations) = Some bs" "dk_files d' (store_file dir GenesisFile) = Some bs"
    "dk_files d' (store_file dir StateFile) = None" using absent by (metis genesis_command_Ok [OF cmd])
  let ?g = "genesis_dev allocations"
  have "sj_read_genesis sj bs = Some ?g" using json g(4) by (simp add: json_reads_back_def)
  then have load: "load_genesis sj dir (calm d') = (Ok (Some ?g), calm d')" by (simp add: load_genesis_def bind_act_def give_def g(5))
  have none: "store_load H ed tc pcs sj dir ?g (calm d') = (Ok None, calm d')" by (simp add: store_load_def bind_act_def give_def g(6))
  have k: "keyless_config_of ?g = Ok None" by (simp add: keyless_config_of_def genesis_dev_def)
  obtain sq where sq: "sequencer_new H gen (chain_new H (mt_root gen) (gc_challenge_window_secs ?g) (gc_minimum_bond ?g)) 1 (gc_minimum_bond ?g) = (Ok sq :: (start_error, _) result)"
    "sq_state sq = gen" "sq_blocks sq = []"
    by (simp add: sequencer_new_def latest_finalized_def chain_new_def Let_def)
  let ?sq = "with_fee_assets (with_keyless sq None) (map ga_asset (gc_gas_assets ?g))"
  have "start_node H ed tc pcs sj keys dir None (calm d') = (Ok ?sq, calm d')"
    using load none k g(2) sq(1)
    by (simp add: start_node_def store_open_def resumed_def bind_act_def give_def map_err_act_def Let_def)
  moreover have "verify_command H ed tc pcs sj dir (calm d') = (Ok root, calm d')"
    using load g(2,3) by (simp add: verify_command_def store_open_def bind_act_def give_def map_err_act_def)
  moreover have "sq_state ?sq = gen" "sq_blocks ?sq = []" using sq(2,3) by (simp_all add: with_fee_assets_def with_keyless_def)
  ultimately show ?thesis using g(1-3) by blast
qed

text \<open>The development configuration with no allocation.\<close>

definition dev_asset :: whitelisted_asset where
  "dev_asset = \<lparr>wa_asset = 1, wa_symbol = str_bytes ''USDC'', wa_rate = RATE_SCALE, wa_intrinsic_gas = DEFAULT_ASSET_INTRINSIC_GAS, wa_enabled = True\<rparr>"

lemma dev_build:
  obtains gen where "build_state genesis_hash sample_ed tc [] (genesis_dev []) = Ok gen"
proof -
  let ?ops = "[OpInsert (demo_key 2) (asset_encode dev_asset), OpInsert (demo_key 1) (market_encode sample_market)]"
  have v: "hash_value genesis_hash (asset_encode dev_asset) = 3"
    by (simp add: hash_value_def digest_def genesis_hash_def demo_hash_def asset_encode_def dev_asset_def w_string_def w_bytes_def str_bytes_def)
  have split: "st_split 0 (demo_key 1) 3 (demo_key 2) 3 = SN (SL (demo_key 1) 3) (SL (demo_key 2) 3)"
    by (subst st_split.simps, use demo_bits in \<open>simp add: MAX_DEPTH_def\<close>)
  have h: "history_nodes genesis_hash SE ?ops = {Leaf (demo_key 2) 3, Leaf (demo_key 1) 3, Internal 2 3}"
    by (simp add: split demo_bits [unfolded One_nat_def] genesis_nodes genesis_values v) blast
  have "collision_free genesis_hash (history_nodes genesis_hash SE ?ops)"
    unfolding h collision_free_iff by (simp add: genesis_nodes ZERO_def)
  then obtain gen where "trie_run genesis_hash trie_new ?ops = Some gen" by (rule trie_run_new)
  then obtain tr1 r1 r2 where
    i: "trie_insert genesis_hash trie_new (demo_key 2) (asset_encode dev_asset) = Some (tr1, r1)"
       "trie_insert genesis_hash tr1 (demo_key 1) (market_encode sample_market) = Some (gen, r2)" by (auto split: option.splits)
  have g: "trie_get tr1 = [demo_key 2 \<mapsto> asset_encode dev_asset]" using trie_insert_get [OF i(1)] by (simp add: trie_get_new)
  let ?a = "\<lparr>ga_asset = 1, ga_symbol = str_bytes ''USDC'', ga_rate = RATE_SCALE, ga_intrinsic_gas = DEFAULT_ASSET_INTRINSIC_GAS, ga_enabled = True\<rparr>"
  have "transition sample_ed (SetGasAsset (genesis_asset ?a)) None = Ok (asset_encode dev_asset)"
    by (simp add: genesis_asset_def dev_asset_def RATE_SCALE_def)
  then have ap: "apply_step genesis_hash sample_ed trie_new (SetGasAsset (genesis_asset ?a)) = Ok (tr1, r1)"
    "apply_step genesis_hash sample_ed tr1 (SetFeeMarket DEFAULT_BASE_FEE_FLOOR DEFAULT_GAS_TARGET) = Ok (gen, r2)"
    using i g unfolding apply_step_def slot_slot_key sample_slots
    by (simp_all add: genesis_steps genesis_slots_keys trie_get_new Let_def del: transition.simps slot.simps)
  have "genesis_validate tc [] (genesis_dev []) = Ok ()"
    by (simp add: genesis_validate_def genesis_dev_def RATE_SCALE_def fee_split_of_def keyless_config_of_def jwk_hashes_def)
  with ap have "build_state genesis_hash sample_ed tc [] (genesis_dev []) = Ok gen"
    unfolding build_state_def
    by (simp add: genesis_dev_def fee_market_default_def fee_split_of_def jwk_hashes_def install_council_def del: transition.simps slot.simps)
  then show thesis by (rule that)
qed

theorem genesis_then_start_witness:
  "\<exists>sj d d' root sq. genesis_command genesis_hash sample_ed store_codecs [] sj [] True [] d = (Ok root, d')
     \<and> start_node genesis_hash sample_ed store_codecs [] sj no_keys [] None (calm d') = (Ok sq, calm d') \<and> sq_blocks sq = []"
proof -
  obtain gen where gen: "build_state genesis_hash sample_ed store_codecs [] (genesis_dev []) = Ok gen" by (rule dev_build)
  define sj :: store_json where "sj = \<lparr>sj_genesis = pair_write (genesis_dev []) (genesis_dev []), sj_read_genesis = pair_read (genesis_dev []) (genesis_dev []),
    sj_chain = (\<lambda>_. None), sj_read_chain = (\<lambda>_. None), sj_blocks = (\<lambda>_. None), sj_read_blocks = (\<lambda>_. None),
    sj_metadata = (\<lambda>_. None), sj_read_metadata = (\<lambda>_. None)\<rparr>"
  define d where "d = \<lparr>dk_files = Map.empty, dk_plan = []\<rparr>"
  have j: "json_reads_back sj" by (simp add: sj_def json_reads_back_def pair_reads_back)
  obtain d' where w: "store_write [] GenesisFile [0] d = (Ok (), d')" using store_write_calm [of d "[]" GenesisFile "[0]"] by (auto simp: d_def)
  have "genesis_validate store_codecs [] (genesis_dev []) = Ok ()" using gen by (auto simp: build_state_def and_then_Ok_iff)
  then have c: "genesis_command genesis_hash sample_ed store_codecs [] sj [] True [] d = (Ok (mt_root gen), d')"
    using gen w
    by (simp add: genesis_command_def genesis_root_def store_open_def save_genesis_def sj_def pair_write_def bind_act_def give_def map_err_act_def
        fs_create_dir_all_def Let_def d_def)
  have "dk_files d (store_file [] StateFile) = None" by (simp add: d_def)
  from genesis_then_start [OF c j this, of no_keys] c show ?thesis by blast
qed

end
