(* ===== verification/Spec2Isabelle.thy ===== *)
theory Spec2Isabelle
  imports Light_Client Verifier_Node Da Params Genesis Watcher Relayer Rpc Command
begin

text \<open>
  SENA: a verification library for an optimistic rollup.

  \<^bold>\<open>The program.\<close>  SENA is a layer-two network written in Rust (\<open>src/crates\<close>).  A sequencer admits
  transactions, executes them in batches on a Merkle trie and posts an assertion of the resulting
  state root on a chain of bonded assertions (layer one).  Every batch compiles to a trace of
  instructions, each touching one slot of the trie, so a false assertion can be refuted: the two
  parties bisect the trace down to one instruction, and one step is adjudicated from a Merkle
  witness.  Verifiers and watchers re-execute published batches and open such disputes; a
  relayer posts a sequencer's blocks and defends them; light clients check proofs against
  finalized roots; wallets build, sign and send transactions, with an Ed25519 key or with a keyless
  sign-in; the node serves all this over HTTP and keeps its state in a directory.

  \<^bold>\<open>Layers of the development\<close>, from the bottom; each theory opens with what it holds.

  \<^item> \<open>Sena_Prelude\<close>: results with errors and panics, checked and saturating words, big-endian bytes,
    \<open>BTreeMap\<close> as a sorted list behind the interface \<open>ordered_map\<close>.  \<open>Act\<close>: actions on a world that
    may fail, what they ensure, and the interface \<open>preserving\<close> of invariants of actions.
  \<^item> \<open>sena-primitives\<close>: \<open>Codec\<close> (\<open>codec.rs\<close>; the interfaces \<open>decodes\<close> and \<open>codec\<close> of a writer and a
    reader, which every record of the program interprets), \<open>Primitives\<close> (\<open>encoding.rs\<close>, \<open>hash.rs\<close>,
    \<open>address.rs\<close>, \<open>identity.rs\<close>), \<open>Text\<close> (\<open>serde_hex.rs\<close>, hexadecimal and decimal text, trimming and
    splitting), \<open>Json\<close>.
  \<^item> \<open>sena-state\<close>: \<open>Merkle\<close> (\<open>node.rs\<close>, \<open>proof.rs\<close>), \<open>Trie\<close> (\<open>trie.rs\<close>).
  \<^item> \<open>sena-stf\<close>: \<open>Account\<close> (\<open>account.rs\<close>, \<open>social.rs\<close>), \<open>Gas\<close> (\<open>gas.rs\<close>), \<open>Keyless\<close> (\<open>poseidon.rs\<close>,
    \<open>keyless.rs\<close>), \<open>Governance\<close> (\<open>governance.rs\<close>), \<open>Instruction\<close> (\<open>keys.rs\<close>, \<open>instruction.rs\<close>),
    \<open>Transaction\<close> (\<open>transaction.rs\<close>, \<open>wire.rs\<close>), \<open>Execute\<close> (\<open>execute.rs\<close>), \<open>Batch\<close> (\<open>batch.rs\<close>); \<open>Ledger\<close>
    holds what execution does to the ledger as a whole.
  \<^item> \<open>sena-fraudproof\<close>: \<open>Bisection\<close> (\<open>bisection.rs\<close>), \<open>Assertion\<close> (\<open>assertion.rs\<close>), \<open>Osp\<close> (\<open>osp.rs\<close>), \<open>Verifier\<close>
    (\<open>verifier.rs\<close>).  \<open>Params\<close> is \<open>sena-params\<close>, \<open>Light_Client\<close> is \<open>sena-light-client\<close>.
  \<^item> \<open>sena-node\<close>: \<open>Mempool\<close>, \<open>Sequencer\<close>, \<open>Verifier_Node\<close>, \<open>Da\<close>, \<open>Genesis\<close>, \<open>L1\<close>, \<open>Watcher\<close>, \<open>Relayer\<close>, \<open>Rpc\<close>
    (each the file of that name), \<open>Disk\<close> (the file system, with the interface \<open>durable\<close> of writers that replace
    whole files), \<open>Store\<close> (\<open>store.rs\<close>, the store of \<open>da.rs\<close>, starting a node in \<open>bin/sena_node.rs\<close>), \<open>Http\<close>
    (\<open>http.rs\<close>), \<open>Server\<close> (\<open>server.rs\<close>), \<open>Command\<close> (the other commands of \<open>bin/sena_node.rs\<close>).
  \<^item> \<open>sena-wallet\<close> and \<open>sena-wasm\<close>: \<open>Wallet\<close> (with \<open>keyless_client.rs\<close> of the node), \<open>Bindings\<close>.

  \<^bold>\<open>How code becomes definitions.\<close>  A struct is a record, an enum a datatype, a function a definition
  under its name, suffixed where it would clash.  Machine integers are words of their width and an overflow
  the code does not check is a panic; \<open>usize\<close> counters of collections are naturals.  \<open>[u8; 32]\<close> is a word of
  256 bits, a \<open>String\<close> its UTF-8 bytes.  A fallible function gives \<open>Ok\<close>, \<open>Err\<close> or \<open>Panic\<close>; one that may change
  its state although it fails gives the state too; a batch that fails gives no state, where the code leaves
  one partly updated.  The length in front of a sequence is written modulo \<open>2 ^ 32\<close>, where the code panics on
  a sequence of \<open>2 ^ 32\<close> elements or more (\<open>w_bytes\<close>, \<open>push_framed\<close>, \<open>to_bytes\<close>, \<open>council_encode\<close>, \<open>split_encode\<close>); the
  lemmas that read an encoding back bound the lengths.  Agents act on an abstract world: every L1 call takes the
  world and gives an answer and a world, so whatever others do in between is allowed for.  The system clock is an
  argument.  The texts of error messages and log lines are not kept.

  \<^bold>\<open>Parameters\<close> stand for code that is not in the repository, and what is relied on is a named hypothesis:
  SHA-256 (\<open>hasher\<close>; \<open>collision_free\<close> on the finitely many nodes at hand, and injective slot keys), Ed25519
  verification and signing (\<open>ed25519\<close>, \<open>signer\<close>; \<open>signs\<close>), the Groth16 check and the point parser
  (\<open>keyless_config\<close>), the Poseidon constants file, the \<open>hex\<close> and \<open>base64\<close> crates (\<open>text_codecs\<close>; \<open>hex_reads_back\<close>),
  serde's JSON (\<open>store_json\<close>, \<open>serve_json\<close>, \<open>js_codecs\<close>; \<open>json_reads_back\<close>), the L1 tool and the fullnode, the
  HTTP requests of clients, and the operating system's files (a map from paths to contents with a plan of the
  calls that fail).  Every hypothesis has an instance in the witnesses.

  \<^bold>\<open>What the lemmas show.\<close>
  \<^item> State: the trie implements a map whatever the history, its root binds the state and nothing else, proofs are
    sound against adversarial witnesses and complete, persistence round-trips.
  \<^item> Execution: a verified step is what applying the instruction does; a batch conserves every asset, never replays
    a nonce and settles fees exactly; a trace commits to one execution and every step of it can be proved.
  \<^item> Disputes: over a claimed length from one to \<open>2 ^ 61 - 1\<close> a dispute is well formed in every reachable state, and what
    happens outside that range is stated (\<open>dispute_well_formed\<close>); every dispute narrows to one step in at most
    twenty-one selections and ends within the challenge window.  A defender that plays from the true
    trace wins every adjudication; a challenger of a false claim, no longer than its own trace, can force the win
    (\<open>challenger_forces\<close>: a finite tree of moves that wins whatever the defender offers).
  \<^item> Assertions: the steps of the chain are all operations of all parties, repeated posts included; of the hash
    function they ask that an identifier names one assertion (\<open>id_binds\<close>).  A withdrawable root is that of a record
    finalized now, at the end of a line of assertions each of which was finalized after its window (\<open>final_line\<close>, over the
    history of finalizations that \<open>chain_run\<close> keeps).  Finality can be lost in one way only, by posting a
    finalized assertion again (\<open>finality_changes\<close>, \<open>repost_undoes_finality\<close>).
  \<^item> The node: pool, blocks, assertions and replay agree; what is called final can be withdrawn; a verifier accepts
    every honest sequencer, reports a false root and opens a dispute over it, which it can force to a win where the claimed
    length is at most that of its own trace; past that end its player builds no proof, although a winning one exists.  The watcher adopts only
    what it verified against the records L1 answered with and plays the trace player's moves; the relayer's assertions form one
    line of the blocks L2 answered with, all on L1, and its loop ends.
  \<^item> The service: requests other than submissions change nothing and never panic; access and rate limits hold exactly;
    replies cannot be split.  A run of the server that stops cleanly, started again from its directory, has the same
    state, blocks and chain, with an empty pool and the fee settings of a start; for every point at which a save
    can be cut off it is stated what a start then gives.  A genesis state is exactly what its configuration says.
  \<^item> The wallet: what it signs passes the stateless authentication and is metered exactly, and a keyless sign-in it accepts
    authenticates for the address it shows until the session expires.  That the signing key of the identity provider is
    current is checked in execution, by an instruction of the trace.

  \<^bold>\<open>Loops and fuel.\<close>  Loops are structural recursion or have a measure.  The watcher's loop over the steps
  of a keyless verification job (\<open>advance_loop\<close>) has as fuel the 69 steps of a job, shown to be enough when a
  transaction does at least one step (\<open>advance_fuel\<close>); its scan of assertions has the number of those not yet examined.  The relayer's \<open>post_loop\<close> and the search over pages (\<open>scan_pages\<close>) may run
  forever in an arbitrary world and are \<open>partial_function\<close>s; that they end is proved, in \<open>relayer_posts_line\<close>, because
  heights have 64 bits, and in \<open>published_batch_search\<close> for an account of finitely many transactions.  The loop of
  the server is recursion over the turns it takes.

  \<^bold>\<open>Not modelled.\<close>  Sockets (a connection that cannot be set up is dropped without a reply), threads and timeouts, beyond the bytes
  a connection delivers and the connections open at once; the argument parser, key generation and the endless polling loops around the relayer and the watcher in
  \<open>bin/sena_node.rs\<close>, and the relayer's HTTP source of blocks; the demonstration \<open>bin/sena_demo.rs\<close>, which scripts the
  other parts; the embedded Groth16 verification keys; \<open>src/attic\<close>, retired code that is not part of the workspace;
  the Move contracts and everything that is not Rust; tests, benchmarks and examples.
\<close>

end
